(* ===== verification/MKernel_Prelude.thy ===== *)
theory MKernel_Prelude
  imports Main "HOL-Library.Word"
begin

text \<open>
  Shared vocabulary of the development: the C integer types of the sources as words, the
  truncating division of C on \<open>int\<close>, ring-index masking with a power-of-two
  capacity, and the generic list facts the components use.
\<close>

unbundle bit_operations_syntax

section \<open>Types\<close>

type_synonym u8 = "8 word"
type_synonym u16 = "16 word"
type_synonym u32 = "32 word"
type_synonym u64 = "64 word"

named_theorems layout_simps "unfolding of packed record layouts"
named_theorems cfg_simps "unfolding of configuration arithmetic"
named_theorems wr_simps "unfolding of work request builders"

section \<open>C integer arithmetic\<close>

text \<open>
  \<open>int\<close> division and remainder of C round towards zero. Division by zero is
  undefined behaviour in C; every use in the sources is guarded, and the model keeps the guards.
\<close>

definition c_div :: "int \<Rightarrow> int \<Rightarrow> int" where
  "c_div a b = sgn a * sgn b * (\<bar>a\<bar> div \<bar>b\<bar>)"

definition c_mod :: "int \<Rightarrow> int \<Rightarrow> int" where
  "c_mod a b = a - c_div a b * b"

lemma c_div_nonneg [simp]: "0 \<le> a \<Longrightarrow> 0 \<le> b \<Longrightarrow> c_div a b = a div b"
  by (cases "a = 0"; cases "b = 0") (auto simp: c_div_def)

lemma c_mod_nonneg [simp]: "0 \<le> a \<Longrightarrow> 0 \<le> b \<Longrightarrow> c_mod a b = a mod b"
  by (simp add: c_mod_def minus_div_mult_eq_mod)

text \<open>The rounding-up quotient \<open>(a + b - 1) / b\<close> the sources write out.\<close>

definition ceil_div :: "int \<Rightarrow> int \<Rightarrow> int" where
  "ceil_div a b = c_div (a + b - 1) b"

lemma ceil_div_bounds:
  assumes "0 \<le> a" "0 < b"
  shows "a \<le> ceil_div a b * b" and "ceil_div a b * b < a + b" and "0 \<le> ceil_div a b"
proof -
  have q: "ceil_div a b = (a + b - 1) div b"
    using assms by (simp add: ceil_div_def)
  have dm: "(a + b - 1) div b * b = (a + b - 1) - (a + b - 1) mod b"
    by (simp add: minus_mod_eq_div_mult)
  have r: "0 \<le> (a + b - 1) mod b" "(a + b - 1) mod b < b"
    using assms by simp_all
  show "a \<le> ceil_div a b * b" unfolding q dm using r by linarith
  show "ceil_div a b * b < a + b" unfolding q dm using r by linarith
  show "0 \<le> ceil_div a b" using assms q by (simp add: pos_imp_zdiv_nonneg_iff)
qed

lemma ceil_div_pos:
  assumes "0 < a" "0 < b"
  shows "0 < ceil_div a b"
  using assms by (simp add: ceil_div_def pos_imp_zdiv_pos_iff)

lemma ceil_div_le:
  assumes "0 \<le> a" "0 < b" "a \<le> k * b"
  shows "ceil_div a b \<le> k"
proof (rule ccontr)
  assume "\<not> ceil_div a b \<le> k"
  then have "k + 1 \<le> ceil_div a b" by simp
  then have "(k + 1) * b \<le> ceil_div a b * b"
    using assms(2) by (simp add: mult_right_mono)
  then have "k * b + b \<le> ceil_div a b * b" by (simp add: algebra_simps)
  then show False using ceil_div_bounds(2)[OF assms(1,2)] assms(3) by linarith
qed

lemma div_bounds:
  fixes q d :: int
  assumes "0 < d"
  shows "q div d * d \<le> q" "q < (q div d + 1) * d"
proof -
  have e: "q div d * d = q - q mod d" "(q div d + 1) * d = q - q mod d + d"
    by (simp_all add: minus_mod_eq_div_mult algebra_simps)
  show "q div d * d \<le> q" "q < (q div d + 1) * d"
    unfolding e using pos_mod_sign[OF assms, of q] pos_mod_bound[OF assms, of q] by linarith+
qed

lemma div_less_of_mult:
  fixes q d n :: int
  assumes "0 < d" "q < n * d"
  shows "q div d < n"
proof (rule ccontr)
  assume "\<not> q div d < n"
  then have "n * d \<le> q div d * d" using assms(1) by (simp add: mult_right_mono)
  also have "\<dots> \<le> q"
    by (rule div_bounds(1)[OF assms(1)])
  finally show False using assms(2) by simp
qed

section \<open>Powers of two and ring masks\<close>

lemma nat_and_pred_pow2:
  fixes n :: nat
  assumes "0 < n" and "n AND (n - 1) = 0"
  shows "\<exists>k. n = 2 ^ k"
  using assms
proof (induction n rule: less_induct)
  case (less n)
  show ?case
  proof (cases "even n")
    case True
    then obtain m where m: "n = 2 * m" by (elim evenE)
    with less.prems have mpos: "0 < m" by simp
    have split: "n - 1 = 2 * (m - 1) + 1" using m mpos by simp
    have "(2 * m) AND (2 * (m - 1) + 1) = 2 * (m AND (m - 1))"
      by (subst and_nat_rec) simp
    then have "n AND (n - 1) = 2 * (m AND (m - 1))"
      by (simp only: split) (simp only: m)
    with less.prems have "m AND (m - 1) = 0" by simp
    moreover have "m < n" using m mpos by simp
    ultimately obtain k where "m = 2 ^ k" using less.IH mpos by blast
    then have "n = 2 ^ Suc k" using m by simp
    then show ?thesis by blast
  next
    case False
    then obtain m where m: "n = 2 * m + 1" by (elim oddE)
    have "n AND (n - 1) = 2 * m"
      unfolding m by (subst and_nat_rec) simp
    with less.prems m have "n = 2 ^ 0" by simp
    then show ?thesis by blast
  qed
qed

lemma unat_and_mask_pow2:
  fixes x :: "'a::len word"
  assumes "c = 2 ^ k" "k < LENGTH('a)"
  shows "unat (x AND (of_nat c - 1)) = unat x mod c"
proof -
  have "of_nat c - 1 = (mask k :: 'a word)"
    using assms by (simp add: mask_eq_decr_exp)
  then have "x AND (of_nat c - 1) = take_bit k x"
    by (simp add: take_bit_eq_mask)
  moreover have "unat (take_bit k x) = take_bit k (unat x)"
    by (simp only: unsigned_take_bit_eq)
  ultimately show ?thesis
    using assms(1) by (simp only: take_bit_eq_mod)
qed

lemma unat_pow2:
  assumes "k < LENGTH('a)"
  shows "unat (2 ^ k :: 'a::len word) = 2 ^ k"
proof -
  have "(2 ^ k :: 'a word) = of_nat (2 ^ k)" by simp
  moreover have "(2::nat) ^ k < 2 ^ LENGTH('a)" using assms by simp
  ultimately show ?thesis by (simp only: unsigned_of_nat take_bit_nat_eq_self of_nat_id)
qed

lemma bit_out: "LENGTH('a) \<le> n \<Longrightarrow> \<not> bit (w :: 'a::len word) n"
  by (auto dest: bit_imp_le_length)

section \<open>Lists\<close>

lemma list_update_eq_map_upt:
  "i < length xs \<Longrightarrow> xs[i := v] ! j = (if j = i then v else xs ! j)"
  by (simp add: nth_list_update)

lemma replicate_nth_eq: "i < n \<Longrightarrow> replicate n x ! i = x"
  by simp

lemma mod_window_unique:
  fixes a b lo c :: nat
  assumes "lo \<le> a" "a < lo + c" "lo \<le> b" "b < lo + c" "a mod c = b mod c"
  shows "a = b"
proof -
  have close: "x = y" if "x \<le> y" "y < x + c" "x mod c = y mod c" for x y :: nat
  proof -
    have "c dvd y - x" using that by (metis mod_eq_dvd_iff_nat)
    moreover have "y - x < c" using that by linarith
    ultimately have "y - x = 0" using nat_dvd_not_less by blast
    then show ?thesis using that(1) by simp
  qed
  show ?thesis
  proof (cases "a \<le> b")
    case True
    then show ?thesis using close[of a b] assms by simp
  next
    case False
    then show ?thesis using close[of b a] assms by simp
  qed
qed

section \<open>Fallible steps\<close>

text \<open>A result is \<open>Inl\<close> of the error or \<open>Inr\<close> of the value; the first error ends a sequence.\<close>

definition and_then :: "'e + 'a \<Rightarrow> ('a \<Rightarrow> 'e + 'b) \<Rightarrow> 'e + 'b" where
  "and_then r k = (case r of Inl e \<Rightarrow> Inl e | Inr x \<Rightarrow> k x)"

lemma and_then_simps [simp]:
  "and_then (Inl e) k = Inl e"
  "and_then (Inr x) k = k x"
  by (simp_all add: and_then_def)

lemma and_then_Inr_iff: "and_then r k = Inr y \<longleftrightarrow> (\<exists>x. r = Inr x \<and> k x = Inr y)"
  by (cases r) simp_all

fun all_ok :: "('e + 'a) list \<Rightarrow> 'e + 'a list" where
  "all_ok [] = Inr []"
| "all_ok (r # rs) = and_then r (\<lambda>x. and_then (all_ok rs) (\<lambda>xs. Inr (x # xs)))"

lemma all_ok_Inr_iff: "all_ok rs = Inr xs \<longleftrightarrow> rs = map Inr xs"
  by (induction rs arbitrary: xs) (auto simp: and_then_Inr_iff)

lemma all_ok_map_Inr:
  assumes "\<And>x. x \<in> set xs \<Longrightarrow> \<exists>y. f x = Inr y"
  shows "\<exists>ys. all_ok (map f xs) = Inr ys"
  using assms
proof (induction xs)
  case (Cons x xs)
  then obtain y ys where "f x = Inr y" "all_ok (map f xs) = Inr ys" by (metis list.set_intros)
  then show ?case by simp
qed simp

section \<open>Lists built by cases\<close>

lemma concat_map_if: "concat (map (\<lambda>x. if P x then [f x] else []) xs) = map f (filter P xs)"
  by (induction xs) auto

end
