(* ===== verification/Net_Types.thy ===== *)
theory Net_Types
  imports MKernel_Prelude
begin

text \<open>
  The shared data types of \<^verbatim>\<open>include/comm/internode/types.h\<close>: the 48-byte
  \<open>TransferCmd\<close> the GPU hands to the CPU proxy and its layout in six 8-byte words,
  the store-and-forward notice, the packed arrival word, the skip-self numbering of peers,
  and the connection records exchanged at bootstrap.
\<close>

section \<open>Commands\<close>

datatype CmdType = EMPTY | WRITE | FENCE | BARRIER_NOTIFY

primrec cmd_byte :: "CmdType \<Rightarrow> u8" where
  "cmd_byte EMPTY = 0"
| "cmd_byte WRITE = 1"
| "cmd_byte FENCE = 2"
| "cmd_byte BARRIER_NOTIFY = 3"

text \<open>A byte that is the value of no enumerator has no reading.\<close>

definition cmd_of_byte :: "u8 \<Rightarrow> CmdType option" where
  "cmd_of_byte b =
     (if b = 0 then Some EMPTY else if b = 1 then Some WRITE
      else if b = 2 then Some FENCE else if b = 3 then Some BARRIER_NOTIFY else None)"

lemma cmd_of_byte_cmd_byte [simp]: "cmd_of_byte (cmd_byte t) = Some t"
  by (cases t) (simp_all add: cmd_of_byte_def)

lemma cmd_byte_eq_0 [simp]: "cmd_byte t = 0 \<longleftrightarrow> t = EMPTY"
  by (cases t) simp_all

record TransferCmd =
  cmd_type :: CmdType
  dst_rank :: u8
  lane_id :: u16
  tile_id :: u32
  remote_offset :: u64
  local_offset :: u64
  bytes :: u32
  src_view :: u8
  reserved0 :: u8
  row_span :: u16
  row_count :: u16
  pad48 :: "48 word"
  enqueue_device_ns :: u64

text \<open>The value-initialised command \<open>TransferCmd cmd{}\<close>.\<close>

definition zero_cmd :: TransferCmd where
  "zero_cmd = \<lparr>cmd_type = EMPTY, dst_rank = 0, lane_id = 0, tile_id = 0, remote_offset = 0,
     local_offset = 0, bytes = 0, src_view = 0, reserved0 = 0, row_span = 0, row_count = 0,
     pad48 = 0, enqueue_device_ns = 0\<rparr>"

text \<open>
  The packed, little-endian layout of the struct as the six 64-bit words the device copies
  out of it with \<open>memcpy\<close>.
\<close>

definition cmd_words :: "TransferCmd \<Rightarrow> u64 list" where
  "cmd_words c =
     [ucast (cmd_byte (cmd_type c)) OR push_bit 8 (ucast (dst_rank c))
        OR push_bit 16 (ucast (lane_id c)) OR push_bit 32 (ucast (tile_id c)),
      remote_offset c,
      local_offset c,
      ucast (bytes c) OR push_bit 32 (ucast (src_view c)) OR push_bit 40 (ucast (reserved0 c))
        OR push_bit 48 (ucast (row_span c)),
      ucast (row_count c) OR push_bit 16 (ucast (pad48 c)),
      enqueue_device_ns c]"

text \<open>Reading the struct back from six words.\<close>

definition words_cmd :: "u64 list \<Rightarrow> TransferCmd option" where
  "words_cmd ws =
     (case ws of
        [w0, w1, w2, w3, w4, w5] \<Rightarrow>
          (case cmd_of_byte (ucast w0) of
             None \<Rightarrow> None
           | Some t \<Rightarrow> Some
               \<lparr>cmd_type = t, dst_rank = ucast (drop_bit 8 w0), lane_id = ucast (drop_bit 16 w0),
                tile_id = ucast (drop_bit 32 w0), remote_offset = w1, local_offset = w2,
                bytes = ucast w3, src_view = ucast (drop_bit 32 w3),
                reserved0 = ucast (drop_bit 40 w3), row_span = ucast (drop_bit 48 w3),
                row_count = ucast w4, pad48 = ucast (drop_bit 16 w4), enqueue_device_ns = w5\<rparr>)
      | _ \<Rightarrow> None)"

text \<open>The byte that holds \<open>cmd_type\<close>, and the byte store that clears it.\<close>

definition type_byte :: "u64 \<Rightarrow> u8" where
  "type_byte w = ucast w"

definition clear_type_byte :: "u64 \<Rightarrow> u64" where
  "clear_type_byte w = w AND NOT 255"

lemma length_cmd_words [simp]: "length (cmd_words c) = 6"
  by (simp add: cmd_words_def)

lemma type_byte_clear [simp]: "type_byte (clear_type_byte w) = 0"
proof -
  have m: "(255 :: u64) = mask 8" by (simp add: mask_eq_exp_minus_1)
  show ?thesis
    unfolding type_byte_def clear_type_byte_def m
    by (auto intro!: bit_word_eqI simp: bit_simps)
qed

lemma type_byte_cmd_words [simp]: "type_byte (cmd_words c ! 0) = cmd_byte (cmd_type c)"
  unfolding type_byte_def cmd_words_def
  by (auto intro!: bit_word_eqI simp: bit_simps)

text \<open>Each field of a packed word is read back by its shift.\<close>

lemma word0_fields [layout_simps]:
  fixes t r :: u8 and l :: u16 and i :: u32
  defines "w \<equiv> ucast t OR push_bit 8 (ucast r) OR push_bit 16 (ucast l) OR push_bit 32 (ucast i) :: u64"
  shows "ucast w = t" "ucast (drop_bit 8 w) = r" "ucast (drop_bit 16 w) = l"
    "ucast (drop_bit 32 w) = i"
  unfolding w_def by (auto intro!: bit_word_eqI simp: bit_simps bit_out)

lemma word3_fields [layout_simps]:
  fixes b :: u32 and v r :: u8 and s :: u16
  defines "w \<equiv> ucast b OR push_bit 32 (ucast v) OR push_bit 40 (ucast r) OR push_bit 48 (ucast s) :: u64"
  shows "ucast w = b" "ucast (drop_bit 32 w) = v" "ucast (drop_bit 40 w) = r"
    "ucast (drop_bit 48 w) = s"
  unfolding w_def by (auto intro!: bit_word_eqI simp: bit_simps bit_out)

lemma word4_fields [layout_simps]:
  fixes n :: u16 and p :: "48 word"
  defines "w \<equiv> ucast n OR push_bit 16 (ucast p) :: u64"
  shows "ucast w = n" "ucast (drop_bit 16 w) = p"
  unfolding w_def by (auto intro!: bit_word_eqI simp: bit_simps bit_out)

lemma words_cmd_cmd_words [simp]: "words_cmd (cmd_words c) = Some c"
  unfolding words_cmd_def cmd_words_def
  by (simp only: list.case layout_simps cmd_of_byte_cmd_byte option.case) simp

lemma cmd_words_inj: "cmd_words c = cmd_words d \<Longrightarrow> c = d"
  by (metis words_cmd_cmd_words option.inject)

section \<open>Store-and-forward notices\<close>

record ForwardNotify =
  fn_bytes :: u32
  fn_local_offset :: u64
  fn_tile_id :: u32
  fn_lane_id :: u16
  fn_reserved0 :: u8
  fn_src_view :: u8
  fn_epoch :: u32
  fn_reserved1 :: u64

definition zero_notify :: ForwardNotify where
  "zero_notify = \<lparr>fn_bytes = 0, fn_local_offset = 0, fn_tile_id = 0, fn_lane_id = 0,
     fn_reserved0 = 0, fn_src_view = 0, fn_epoch = 0, fn_reserved1 = 0\<rparr>"

section \<open>Packed arrival words\<close>

definition pack_arrival_work :: "u32 \<Rightarrow> u32 \<Rightarrow> u32" where
  "pack_arrival_work first_tile_id num_tiles =
     (let n = (if num_tiles = 0 then 1 else num_tiles)
      in (first_tile_id + 1) OR push_bit 24 (n - 1))"

definition unpack_arrival_first_tile :: "u32 \<Rightarrow> u32" where
  "unpack_arrival_first_tile packed = (packed AND 0x00FFFFFF) - 1"

definition unpack_arrival_num_tiles :: "u32 \<Rightarrow> u32" where
  "unpack_arrival_num_tiles packed = (drop_bit 24 packed AND 0xFF) + 1"

text \<open>The number of 128x256 bf16 tiles a transfer of \<open>b\<close> bytes covers.\<close>

definition kTileBytes :: u32 where
  "kTileBytes = 128 * 256 * 2"

definition run_tiles :: "u32 \<Rightarrow> u32" where
  "run_tiles b = (b + kTileBytes - 1) div kTileBytes"

lemma unpack_pack_bits:
  fixes a b :: u32
  assumes a: "a < 2 ^ 24" and b: "b < 2 ^ 8"
  shows "(a OR push_bit 24 b) AND 0x00FFFFFF = a" "drop_bit 24 (a OR push_bit 24 b) AND 0xFF = b"
proof -
  have ta: "take_bit 24 a = a"
    using a by (simp add: word_unat_eq_iff unsigned_take_bit_eq take_bit_nat_eq_self word_less_nat_alt)
  have tb: "take_bit 8 b = b"
    using b by (simp add: word_unat_eq_iff unsigned_take_bit_eq take_bit_nat_eq_self word_less_nat_alt)
  have abit: "\<not> bit a i" if "24 \<le> i" for i
    using that by (subst ta[symmetric]) (simp add: bit_take_bit_iff)
  have bbit: "\<not> bit b i" if "8 \<le> i" for i
    using that by (subst tb[symmetric]) (simp add: bit_take_bit_iff)
  have m24: "(0x00FFFFFF :: u32) = mask 24" and m8: "(0xFF :: u32) = mask 8"
    by (simp_all add: mask_eq_exp_minus_1)
  show "(a OR push_bit 24 b) AND 0x00FFFFFF = a"
    unfolding m24 using abit by (auto intro!: bit_word_eqI simp: bit_simps) (meson not_le)
  show "drop_bit 24 (a OR push_bit 24 b) AND 0xFF = b"
    unfolding m8 using abit bbit by (auto intro!: bit_word_eqI simp: bit_simps) (meson not_le)
qed

lemma arrival_word_fields:
  assumes "unat t + 1 < 2 ^ 24" "0 < unat n" "unat n \<le> 256"
  shows "unpack_arrival_first_tile (pack_arrival_work t n) = t"
    "unpack_arrival_num_tiles (pack_arrival_work t n) = n"
    "pack_arrival_work t n \<noteq> 0"
proof -
  have n0: "n \<noteq> 0" using assms(2) by auto
  have a: "t + 1 < 2 ^ 24"
    using assms(1) by (simp add: word_less_nat_alt unat_word_ariths)
  have b: "n - 1 < 2 ^ 8"
    using assms(2,3) n0 by (simp add: word_less_nat_alt unat_minus_one)
  note f = unpack_pack_bits[OF a b]
  show first: "unpack_arrival_first_tile (pack_arrival_work t n) = t"
    using f(1) n0 by (simp add: unpack_arrival_first_tile_def pack_arrival_work_def)
  show "unpack_arrival_num_tiles (pack_arrival_work t n) = n"
    using f(2) n0 by (simp add: unpack_arrival_num_tiles_def pack_arrival_work_def)
  show "pack_arrival_work t n \<noteq> 0"
  proof
    assume "pack_arrival_work t n = 0"
    then have "t = -1" using first by (simp add: unpack_arrival_first_tile_def)
    then have "unat t = 2 ^ 32 - 1" by (simp add: unsigned_minus_1_eq_mask mask_eq_exp_minus_1)
    then show False using assms(1) by simp
  qed
qed

section \<open>Peer numbering\<close>

definition kMaxExchangeQPs :: int where "kMaxExchangeQPs = 24"
definition kMaxRails :: int where "kMaxRails = 4"
definition kMaxPeers :: int where "kMaxPeers = 16"

definition peer_rank_for_slot :: "int \<Rightarrow> int \<Rightarrow> int \<Rightarrow> int" where
  "peer_rank_for_slot node_idx num_nodes peer_slot =
     (let r = node_idx + 1 + peer_slot in if r \<ge> num_nodes then r - num_nodes else r)"

definition slot_at_peer :: "int \<Rightarrow> int \<Rightarrow> int \<Rightarrow> int" where
  "slot_at_peer my_rank peer_rank num_nodes =
     (let slot = my_rank - peer_rank - 1 in if slot < 0 then slot + num_nodes else slot)"

text \<open>
  The contract of a skip-self numbering: \<open>rank_of node n slot\<close> is the rank behind
  peer slot \<open>slot\<close> of \<open>node\<close>, and \<open>slot_of my peer n\<close> the slot that
  \<open>my\<close> occupies in the table of \<open>peer\<close>.
\<close>

locale peer_numbering =
  fixes rank_of :: "int \<Rightarrow> int \<Rightarrow> int \<Rightarrow> int"
    and slot_of :: "int \<Rightarrow> int \<Rightarrow> int \<Rightarrow> int"
  assumes rank_range:
      "\<lbrakk>0 \<le> node; node < n; 0 \<le> slot; slot < n - 1\<rbrakk>
       \<Longrightarrow> 0 \<le> rank_of node n slot \<and> rank_of node n slot < n \<and> rank_of node n slot \<noteq> node"
    and slot_range:
      "\<lbrakk>0 \<le> my; my < n; 0 \<le> peer; peer < n; my \<noteq> peer\<rbrakk>
       \<Longrightarrow> 0 \<le> slot_of my peer n \<and> slot_of my peer n < n - 1"
    and rank_of_slot_of:
      "\<lbrakk>0 \<le> my; my < n; 0 \<le> peer; peer < n; my \<noteq> peer\<rbrakk>
       \<Longrightarrow> rank_of peer n (slot_of my peer n) = my"
    and slot_of_rank_of:
      "\<lbrakk>0 \<le> node; node < n; 0 \<le> slot; slot < n - 1\<rbrakk>
       \<Longrightarrow> slot_of (rank_of node n slot) node n = slot"
begin

lemma slot_of_inj:
  assumes "0 \<le> a" "a < n" "0 \<le> b" "b < n" "0 \<le> p" "p < n" "a \<noteq> p" "b \<noteq> p"
    and "slot_of a p n = slot_of b p n"
  shows "a = b"
proof -
  have "rank_of p n (slot_of a p n) = a" by (rule rank_of_slot_of) (use assms in auto)
  moreover have "rank_of p n (slot_of b p n) = b" by (rule rank_of_slot_of) (use assms in auto)
  ultimately show ?thesis using assms(9) by metis
qed

lemma rank_of_image:
  assumes "0 \<le> node" "node < n"
  shows "rank_of node n ` {0..<n - 1} = {0..<n} - {node}"
proof (intro equalityI subsetI)
  fix r assume "r \<in> {0..<n} - {node}"
  then have r: "0 \<le> r" "r < n" "r \<noteq> node" by auto
  then have "rank_of node n (slot_of r node n) = r"
    using assms rank_of_slot_of by blast
  moreover have "slot_of r node n \<in> {0..<n - 1}"
    using r assms slot_range[of r n node] by auto
  ultimately show "r \<in> rank_of node n ` {0..<n - 1}" by force
qed (use assms rank_range in auto)

lemma rank_of_inj_on:
  assumes "0 \<le> node" "node < n"
  shows "inj_on (rank_of node n) {0..<n - 1}"
proof (rule inj_onI)
  fix s t assume *: "s \<in> {0..<n - 1}" "t \<in> {0..<n - 1}" and eq: "rank_of node n s = rank_of node n t"
  have "slot_of (rank_of node n s) node n = s" by (rule slot_of_rank_of) (use assms * in auto)
  moreover have "slot_of (rank_of node n t) node n = t"
    by (rule slot_of_rank_of) (use assms * in auto)
  ultimately show "s = t" using eq by metis
qed

text \<open>
  Two senders never share a byte of the receiver's buffer: the per-slot regions of
  \<open>sz\<close> bytes they address are disjoint.
\<close>

lemma regions_disjoint:
  assumes "0 \<le> a" "a < n" "0 \<le> b" "b < n" "0 \<le> p" "p < n" "a \<noteq> p" "b \<noteq> p" "a \<noteq> b"
    and "0 \<le> x" "x < sz" "0 \<le> y" "y < sz"
  shows "slot_of a p n * sz + x \<noteq> slot_of b p n * sz + y"
proof
  assume "slot_of a p n * sz + x = slot_of b p n * sz + y"
  then have "(slot_of a p n * sz + x) div sz = (slot_of b p n * sz + y) div sz" by simp
  then have "slot_of a p n = slot_of b p n" using assms by simp
  then show False using slot_of_inj[of a n b p] assms by simp
qed

end

interpretation skip_self: peer_numbering peer_rank_for_slot slot_at_peer
  by unfold_locales (auto simp: peer_rank_for_slot_def slot_at_peer_def Let_def)

section \<open>Bootstrap records\<close>

record RailExchangeInfo =
  rx_gid :: "u8 list"
  rx_data_rkey :: u32
  rx_flags_rkey :: u32
  rx_tail_rkey :: u32
  rx_barrier_rkey :: u32

record ConnectionInfo =
  ci_qp_num :: u32
  ci_psn :: u32
  ci_lid :: u16
  ci_gid :: "u8 list"
  ci_data_rkey :: u32
  ci_data_addr :: u64
  ci_data_len :: u64
  ci_flags_rkey :: u32
  ci_flags_addr :: u64
  ci_tail_rkey :: u32
  ci_tail_addr :: u64
  ci_barrier_rkey :: u32
  ci_barrier_addr :: u64
  ci_forward_notify_rkey :: u32
  ci_forward_notify_addr :: u64
  ci_forward_notify_count :: u32
  ci_num_qps :: int
  ci_extra_qp_nums :: "u32 list"
  ci_extra_psns :: "u32 list"
  ci_num_rails :: int
  ci_qp_to_rail :: "int list"
  ci_extra_rails :: "RailExchangeInfo list"

section \<open>Properties\<close>

text \<open>Reading the six words of a command back gives the command.\<close>

theorem cmd_layout_roundtrip: "words_cmd (cmd_words c) = Some c"
  by (rule words_cmd_cmd_words)

text \<open>
  A packed arrival word is never zero and yields the first tile and the tile
  count it was packed from, for tile ids below \<open>2^24 - 1\<close> and runs of 1 to 256 tiles.
\<close>

theorem arrival_work_roundtrip:
  assumes "unat t + 1 < 2 ^ 24" "0 < unat n" "unat n \<le> 256"
  shows "pack_arrival_work t n \<noteq> 0 \<and> unpack_arrival_first_tile (pack_arrival_work t n) = t \<and>
    unpack_arrival_num_tiles (pack_arrival_work t n) = n"
  using arrival_word_fields[OF assms] by blast

theorem arrival_work_roundtrip_witness:
  "pack_arrival_work 100 5 \<noteq> 0 \<and> unpack_arrival_first_tile (pack_arrival_work 100 5) = 100 \<and>
    unpack_arrival_num_tiles (pack_arrival_work 100 5) = 5"
  by (rule arrival_work_roundtrip) simp_all

text \<open>
  The peer slots of a node enumerate exactly the other ranks, once each, and
  \<open>slot_at_peer\<close> is the inverse, so that two senders address disjoint regions of a receiver.
\<close>

theorem peer_slots_bijective:
  assumes "0 \<le> node" "node < n"
  shows "bij_betw (peer_rank_for_slot node n) {0..<n - 1} ({0..<n} - {node}) \<and>
    (\<forall>slot \<in> {0..<n - 1}. slot_at_peer (peer_rank_for_slot node n slot) node n = slot) \<and>
    inj_on (\<lambda>r. slot_at_peer r node n) ({0..<n} - {node})"
  unfolding bij_betw_def
  using skip_self.rank_of_inj_on[OF assms] skip_self.rank_of_image[OF assms]
    skip_self.slot_of_rank_of[OF assms] skip_self.slot_of_inj[of _ n _ node] assms
  by (auto simp: inj_on_def)

theorem peer_slots_bijective_witness:
  "bij_betw (peer_rank_for_slot 1 4) {0..<3} ({0..<4} - {1}) \<and>
    slot_at_peer (peer_rank_for_slot 1 4 2) 1 4 = 2 \<and>
    inj_on (\<lambda>r. slot_at_peer r 1 4) ({0..<4} - {1})"
  using peer_slots_bijective[of 1 4] by simp

end
