(* ===== verification/Queue_Interface.thy ===== *)
theory Queue_Interface
  imports MKernel_Prelude
begin

text \<open>
  The contract of a command ring: a bounded first-in first-out queue. A stored element takes a
  place until it has been removed and its place freed; \<open>put\<close> on a queue without a free place
  does not return (the code spins until a place is freed), \<open>get\<close> reports emptiness, and
  \<open>free\<close> gives the places of the removed elements back except those of the last few that
  the consumer still holds. The locale states the laws a ring has to keep, operation by
  operation, and proves once that a ring with these laws is a refinement of the queue.
\<close>

datatype 'c queue_op = Put 'c | Get | Free nat

datatype 'e queue_result = Stored nat | Empty | Got 'e | Freed

section \<open>The abstract queue\<close>

text \<open>\<open>held_places\<close> counts the elements removed whose place is not free yet.\<close>

record 'e queue_spec =
  waiting :: "'e list"
  held_places :: nat
  stored_count :: nat

definition empty_queue :: "'e queue_spec" where
  "empty_queue = \<lparr>waiting = [], held_places = 0, stored_count = 0\<rparr>"

text \<open>\<open>None\<close>: the call does not return.\<close>

fun queue_do :: "nat \<Rightarrow> ('c \<Rightarrow> 'e) \<Rightarrow> 'c queue_op \<Rightarrow> 'e queue_spec \<Rightarrow> ('e queue_result \<times> 'e queue_spec) option" where
  "queue_do n enc (Put c) q =
     (if length (waiting q) + held_places q < n
      then Some (Stored (stored_count q),
        q\<lparr>waiting := waiting q @ [enc c], stored_count := Suc (stored_count q)\<rparr>)
      else None)"
| "queue_do n enc Get q =
     (case waiting q of
        [] \<Rightarrow> Some (Empty, q)
      | x # xs \<Rightarrow> Some (Got x, q\<lparr>waiting := xs, held_places := Suc (held_places q)\<rparr>))"
| "queue_do n enc (Free k) q = Some (Freed, q\<lparr>held_places := min k (held_places q)\<rparr>)"

text \<open>A sequence of calls: the results up to a call that does not return, and the state after all of them.\<close>

fun run_ops :: "('op \<Rightarrow> 's \<Rightarrow> ('r \<times> 's) option) \<Rightarrow> 'op list \<Rightarrow> 's \<Rightarrow> 'r list \<times> 's option" where
  "run_ops exec [] s = ([], Some s)"
| "run_ops exec (op # ops) s =
     (case exec op s of
        None \<Rightarrow> ([], None)
      | Some (r, t) \<Rightarrow> (let (rs, u) = run_ops exec ops t in (r # rs, u)))"

text \<open>The calls on an implementation with the operations \<open>put\<close>, \<open>get\<close> and \<open>free\<close>.\<close>

fun impl_do :: "('c \<Rightarrow> 's \<Rightarrow> (nat \<times> 's) option) \<Rightarrow> ('s \<Rightarrow> 'e option \<times> 's) \<Rightarrow> (nat \<Rightarrow> 's \<Rightarrow> 's) \<Rightarrow>
    'c queue_op \<Rightarrow> 's \<Rightarrow> ('e queue_result \<times> 's) option" where
  "impl_do put get free (Put c) s = map_option (\<lambda>(n, t). (Stored n, t)) (put c s)"
| "impl_do put get free Get s =
     (case get s of (None, t) \<Rightarrow> Some (Empty, t) | (Some x, t) \<Rightarrow> Some (Got x, t))"
| "impl_do put get free (Free k) s = Some (Freed, free k s)"

section \<open>The laws and the refinement\<close>

text \<open>
  \<open>inv k s\<close> says that \<open>s\<close> is well formed and its counters admit at least \<open>k\<close>
  more insertions before they wrap.
\<close>

locale bounded_queue =
  fixes inv :: "nat \<Rightarrow> 's \<Rightarrow> bool"
    and places :: "'s \<Rightarrow> nat"
    and abs :: "'s \<Rightarrow> 'e queue_spec"
    and valid :: "'c \<Rightarrow> bool"
    and enc :: "'c \<Rightarrow> 'e"
    and put :: "'c \<Rightarrow> 's \<Rightarrow> (nat \<times> 's) option"
    and get :: "'s \<Rightarrow> 'e option \<times> 's"
    and free :: "nat \<Rightarrow> 's \<Rightarrow> 's"
  assumes inv_less: "inv (Suc k) s \<Longrightarrow> inv k s"
    and put_room: "\<lbrakk>inv (Suc k) s; valid c; length (waiting (abs s)) + held_places (abs s) < places s\<rbrakk>
      \<Longrightarrow> \<exists>t. put c s = Some (stored_count (abs s), t) \<and> inv k t \<and> places t = places s \<and>
        abs t = (abs s)\<lparr>waiting := waiting (abs s) @ [enc c], stored_count := Suc (stored_count (abs s))\<rparr>"
    and put_full: "\<lbrakk>inv k s; \<not> length (waiting (abs s)) + held_places (abs s) < places s\<rbrakk> \<Longrightarrow> put c s = None"
    and get_empty: "\<lbrakk>inv k s; waiting (abs s) = []\<rbrakk> \<Longrightarrow> get s = (None, s)"
    and get_ok: "\<lbrakk>inv k s; waiting (abs s) = x # xs\<rbrakk>
      \<Longrightarrow> \<exists>t. get s = (Some x, t) \<and> inv k t \<and> places t = places s \<and>
        abs t = (abs s)\<lparr>waiting := xs, held_places := Suc (held_places (abs s))\<rparr>"
    and free_ok: "inv k s \<Longrightarrow> inv k (free j s) \<and> places (free j s) = places s \<and>
        abs (free j s) = (abs s)\<lparr>held_places := min j (held_places (abs s))\<rparr>"
begin

abbreviation exec :: "'c queue_op \<Rightarrow> 's \<Rightarrow> ('e queue_result \<times> 's) option" where
  "exec \<equiv> impl_do put get free"

lemma inv_weaken: "inv (k + j) s \<Longrightarrow> inv k s"
  by (induction j) (auto intro: inv_less)

text \<open>One call: the same result and the same next state, or neither returns.\<close>

lemma exec_refines:
  assumes "inv (Suc k) s" "\<And>c. op = Put c \<Longrightarrow> valid c"
  shows "(exec op s = None \<and> queue_do (places s) enc op (abs s) = None) \<or>
    (\<exists>r t. exec op s = Some (r, t) \<and> inv k t \<and> places t = places s \<and>
       queue_do (places s) enc op (abs s) = Some (r, abs t))"
proof (cases op)
  case (Put c)
  show ?thesis
  proof (cases "length (waiting (abs s)) + held_places (abs s) < places s")
    case True
    then show ?thesis using put_room[OF assms(1) assms(2)[OF Put] True] Put by auto
  next
    case False
    then show ?thesis using put_full[OF assms(1) False] Put by simp
  qed
next
  case Get
  note i = inv_less[OF assms(1)]
  show ?thesis
  proof (cases "waiting (abs s)")
    case Nil
    then show ?thesis using get_empty[OF i Nil] i Get by simp
  next
    case (Cons x xs)
    then show ?thesis using get_ok[OF i Cons] Get by auto
  qed
next
  case (Free j)
  then show ?thesis using free_ok[OF inv_less[OF assms(1)], of j] by simp
qed

lemma run_refines:
  assumes "inv (length ops) s" "\<forall>c. Put c \<in> set ops \<longrightarrow> valid c"
  shows "map_prod id (map_option abs) (run_ops exec ops s) =
    run_ops (queue_do (places s) enc) ops (abs s)"
  using assms
proof (induction ops arbitrary: s)
  case (Cons op ops)
  have v: "valid c" if "op = Put c" for c using Cons.prems(2) that by simp
  have i: "inv (Suc (length ops)) s" using Cons.prems(1) by simp
  have "(exec op s = None \<and> queue_do (places s) enc op (abs s) = None) \<or>
    (\<exists>r t. exec op s = Some (r, t) \<and> inv (length ops) t \<and> places t = places s \<and>
       queue_do (places s) enc op (abs s) = Some (r, abs t))"
    by (rule exec_refines[OF i]) (rule v)
  then show ?case
  proof (elim disjE exE conjE)
    fix r t assume t: "exec op s = Some (r, t)" "inv (length ops) t" "places t = places s"
      "queue_do (places s) enc op (abs s) = Some (r, abs t)"
    then show ?thesis
      using Cons.IH[of t] Cons.prems(2) by (auto simp: split_beta prod_eq_iff)
  qed simp
qed simp

end

end
