(* ===== verification/D2H_Fifo.thy ===== *)
theory D2H_Fifo
  imports Net_Types Queue_Interface
begin

text \<open>
  The device-to-host command FIFO of \<^verbatim>\<open>include/comm/internode/d2h_fifo.cuh\<close>:
  the ring in host-pinned memory, the GPU side \<open>push\<close>, the CPU side \<open>poll\<close>,
  the lane-to-FIFO selection, and the interleaving of any number of pushing GPU threads with
  the polling proxy thread as a step relation whose steps are the single memory accesses of
  the code.
\<close>

section \<open>The ring and its sequential operations\<close>

text \<open>
  One record for the pair of handles: the device and the host handle point to the same
  \<open>triggers\<close> and \<open>tail\<close>. A slot is the six 8-byte words of a \<open>TransferCmd\<close>.
\<close>

record D2HFifo =
  triggers :: "u64 list list"
  head :: u64
  tail :: u64
  tail_cache :: u64
  capacity :: int
  cpu_head :: u64

text \<open>\<open>None\<close> is \<open>exit(EXIT_FAILURE)\<close>.\<close>

definition create_d2h_fifo :: "int \<Rightarrow> D2HFifo option" where
  "create_d2h_fifo cap =
     (if cap \<le> 0 \<or> cap AND (cap - 1) \<noteq> 0 then None
      else Some \<lparr>triggers = replicate (nat cap) (replicate 6 0), head = 0, tail = 0,
                 tail_cache = 0, capacity = cap, cpu_head = 0\<rparr>)"

definition ring_mask :: "D2HFifo \<Rightarrow> u64" where
  "ring_mask f = word_of_int (capacity f - 1)"

definition slot_index :: "D2HFifo \<Rightarrow> u64 \<Rightarrow> nat" where
  "slot_index f slot = unat (slot AND ring_mask f)"

text \<open>The single steps of \<open>D2HFifoDevice::push\<close>.\<close>

definition push_claim :: "D2HFifo \<Rightarrow> u64 \<times> D2HFifo" where
  "push_claim f = (head f, f\<lparr>head := head f + 1\<rparr>)"

definition push_fits :: "D2HFifo \<Rightarrow> u64 \<Rightarrow> u64 \<Rightarrow> bool" where
  "push_fits f slot t \<longleftrightarrow> slot < word_of_int (capacity f) + t"

definition store_word :: "D2HFifo \<Rightarrow> u64 \<Rightarrow> nat \<Rightarrow> u64 \<Rightarrow> D2HFifo" where
  "store_word f slot k w =
     f\<lparr>triggers := (triggers f)[slot_index f slot := (triggers f ! slot_index f slot)[k := w]]\<rparr>"

definition store_payload :: "D2HFifo \<Rightarrow> u64 \<Rightarrow> u64 list \<Rightarrow> D2HFifo" where
  "store_payload f slot ws = fold (\<lambda>wi g. store_word g slot wi (ws ! wi)) [1..<6] f"

text \<open>
  \<open>push\<close> run alone: \<open>None\<close> when the ring is full, where the code spins on the
  host's tail.
\<close>

text \<open>
  A whole push by one thread while nobody else moves. \<open>None\<close> means that the call spins for ever on a
  full ring; it has no final state then. The claim a spinning thread has already made is a state
  of \<open>fifo_step\<close> below.
\<close>

definition push :: "TransferCmd \<Rightarrow> D2HFifo \<Rightarrow> (u64 \<times> D2HFifo) option" where
  "push c f =
     (let (slot, f1) = push_claim f;
          full = \<not> push_fits f1 slot (tail_cache f1);
          f2 = (if full then f1\<lparr>tail_cache := tail f1\<rparr> else f1)
      in if full \<and> \<not> push_fits f2 slot (tail f2) then None
         else Some (slot, store_word (store_payload f2 slot (cmd_words c)) slot 0 (cmd_words c ! 0)))"

definition slot_type :: "D2HFifo \<Rightarrow> u64 \<Rightarrow> u8" where
  "slot_type f slot = type_byte (triggers f ! slot_index f slot ! 0)"

text \<open>\<open>D2HFifoHost::poll\<close>: the 48 bytes copied out, or nothing.\<close>

definition clear_slot :: "D2HFifo \<Rightarrow> D2HFifo" where
  "clear_slot f = store_word f (cpu_head f) 0 (clear_type_byte (triggers f ! slot_index f (cpu_head f) ! 0))"

definition poll :: "D2HFifo \<Rightarrow> u64 list option \<times> D2HFifo" where
  "poll f =
     (if slot_type f (cpu_head f) = 0 then (None, f)
      else (Some (triggers f ! slot_index f (cpu_head f)),
            (clear_slot f)\<lparr>cpu_head := cpu_head f + 1\<rparr>))"

function count_ready_from :: "D2HFifo \<Rightarrow> nat \<Rightarrow> nat \<Rightarrow> nat" where
  "count_ready_from f limit ready =
     (if ready < limit then
        if slot_type f (cpu_head f + of_nat ready) = 0 then ready
        else count_ready_from f limit (Suc ready)
      else ready)"
  by pat_completeness auto
termination
  by (relation "measure (\<lambda>(f, limit, ready). limit - ready)") auto

declare count_ready_from.simps [simp del]

definition count_ready :: "D2HFifo \<Rightarrow> int \<Rightarrow> int" where
  "count_ready f limit = (if limit \<le> 0 then 0 else int (count_ready_from f (nat limit) 0))"

definition advance_tail :: "D2HFifo \<Rightarrow> u64 \<Rightarrow> D2HFifo" where
  "advance_tail f new_tail = f\<lparr>tail := new_tail\<rparr>"

section \<open>Lane to FIFO selection\<close>

definition kMaxProxyThreads :: int where "kMaxProxyThreads = 24"

record 'f D2HFifoDeviceBundle =
  fifos :: "'f list"
  num_fifos :: int
  global_num_qps :: int
  logical_queues_per_qp :: int
  qps_per_fifo :: int

definition make_fifo_bundle :: "'f \<Rightarrow> int \<Rightarrow> int \<Rightarrow> 'f D2HFifoDeviceBundle" where
  "make_fifo_bundle fifo gqps lqs =
     (let g = (if gqps > 0 then gqps else 1)
      in \<lparr>fifos = [fifo], num_fifos = 1, global_num_qps = g,
          logical_queues_per_qp = (if lqs > 0 then lqs else 1), qps_per_fifo = g\<rparr>)"

text \<open>
  \<open>bundle_ptr\<close> is the bundle the negative capacity sentinel points to, if any;
  \<open>env_qps\<close> the value of \<open>atoi\<close> on the environment variable, if it is set.
\<close>

definition resolve_fifo_bundle ::
    "'f D2HFifoDeviceBundle option \<Rightarrow> 'f \<Rightarrow> int \<Rightarrow> int \<Rightarrow> int \<Rightarrow> int option \<Rightarrow>
     string + 'f D2HFifoDeviceBundle" where
  "resolve_fifo_bundle bundle_ptr fd fifo_capacity default_num_qps lqs env_qps =
     (if fifo_capacity < 0 then
        (case bundle_ptr of None \<Rightarrow> Inl ''FIFO bundle pointer is null'' | Some b \<Rightarrow> Inr b)
      else
        let q0 = (if default_num_qps > 0 then default_num_qps else 1);
            q = (case env_qps of Some v \<Rightarrow> if v > 0 then v else q0 | None \<Rightarrow> q0)
        in Inr (make_fifo_bundle fd q lqs))"

definition select_fifo_index :: "'f D2HFifoDeviceBundle \<Rightarrow> u32 \<Rightarrow> nat" where
  "select_fifo_index b lane =
     (if num_fifos b \<le> 1 then 0
      else
        let g = (if global_num_qps b > 0 then word_of_int (global_num_qps b) else 1) :: u32;
            q = (if qps_per_fifo b > 0 then word_of_int (qps_per_fifo b) else g);
            idx = (lane mod g) div q
        in unat (if idx \<ge> word_of_int (num_fifos b) then word_of_int (num_fifos b) - 1 else idx))"

definition gemm_ar_select_fifo_for_lane :: "'f D2HFifoDeviceBundle \<Rightarrow> u32 \<Rightarrow> 'f" where
  "gemm_ar_select_fifo_for_lane b lane = fifos b ! select_fifo_index b lane"

section \<open>GPU threads and the proxy thread interleaved\<close>

text \<open>
  The program counter of a GPU thread inside \<open>push\<close>: after the \<open>atomicAdd\<close>
  (\<open>PClaimed\<close>), in the backpressure loop before and after the load of the tail
  (\<open>PSpin\<close>, \<open>PLoaded\<close>), and before the store of word \<open>k\<close> (\<open>PWrite\<close>,
  with \<open>k = 6\<close> before the release store of word 0).
\<close>

datatype push_pc =
    PIdle
  | PClaimed TransferCmd u64
  | PSpin TransferCmd u64
  | PLoaded TransferCmd u64 u64
  | PWrite TransferCmd u64 nat

text \<open>The proxy inside \<open>poll\<close>: copying the record out word by word.\<close>

datatype host_pc = HIdle | HCopy "u64 list"

text \<open>\<open>log\<close> and \<open>got\<close> are ghosts: the claimed commands in slot order and the records polled.\<close>

record fifo_sys =
  fmem :: D2HFifo
  gpu :: "nat \<Rightarrow> push_pc"
  hpc :: host_pc
  log :: "TransferCmd list"
  got :: "u64 list list"

definition fifo_start :: "D2HFifo \<Rightarrow> fifo_sys" where
  "fifo_start f = \<lparr>fmem = f, gpu = (\<lambda>_. PIdle), hpc = HIdle, log = [], got = []\<rparr>"

text \<open>
  One rule per memory access. Every call site of \<open>push\<close> in the kernels sets
  \<open>cmd_type\<close> to an enumerator other than \<open>EMPTY\<close>; the proxies pass to
  \<open>advance_tail\<close> a value \<open>cpu_head\<close> had earlier. The rule \<open>advance\<close> allows any such value at any
  time; the CX7 proxy advances only after an iteration that drained a positive number of commands
  (\<^verbatim>\<open>proxy.h:1208\<close>), so the safety properties cover more runs than the proxy has, and progress means
  that the ring itself does not block, given a proxy that advances its tail.
\<close>

inductive fifo_step :: "fifo_sys \<Rightarrow> fifo_sys \<Rightarrow> bool" where
  claim: "\<lbrakk>gpu s i = PIdle; cmd_type c \<noteq> EMPTY; push_claim (fmem s) = (sl, m)\<rbrakk> \<Longrightarrow>
    fifo_step s (s\<lparr>fmem := m, gpu := (gpu s)(i := PClaimed c sl), log := log s @ [c]\<rparr>)"
| pass: "\<lbrakk>gpu s i = PClaimed c sl; push_fits (fmem s) sl (tail_cache (fmem s))\<rbrakk> \<Longrightarrow>
    fifo_step s (s\<lparr>gpu := (gpu s)(i := PWrite c sl 1)\<rparr>)"
| full: "\<lbrakk>gpu s i = PClaimed c sl; \<not> push_fits (fmem s) sl (tail_cache (fmem s))\<rbrakk> \<Longrightarrow>
    fifo_step s (s\<lparr>gpu := (gpu s)(i := PSpin c sl)\<rparr>)"
| load_tail: "\<lbrakk>gpu s i = PSpin c sl\<rbrakk> \<Longrightarrow>
    fifo_step s (s\<lparr>gpu := (gpu s)(i := PLoaded c sl (tail (fmem s)))\<rparr>)"
| refresh: "\<lbrakk>gpu s i = PLoaded c sl t\<rbrakk> \<Longrightarrow>
    fifo_step s (s\<lparr>fmem := (fmem s)\<lparr>tail_cache := t\<rparr>,
       gpu := (gpu s)(i := if push_fits (fmem s) sl t then PWrite c sl 1 else PSpin c sl)\<rparr>)"
| store: "\<lbrakk>gpu s i = PWrite c sl k; k < 6\<rbrakk> \<Longrightarrow>
    fifo_step s (s\<lparr>fmem := store_word (fmem s) sl k (cmd_words c ! k),
       gpu := (gpu s)(i := PWrite c sl (Suc k))\<rparr>)"
| commit: "\<lbrakk>gpu s i = PWrite c sl 6\<rbrakk> \<Longrightarrow>
    fifo_step s (s\<lparr>fmem := store_word (fmem s) sl 0 (cmd_words c ! 0), gpu := (gpu s)(i := PIdle)\<rparr>)"
| observe: "\<lbrakk>hpc s = HIdle; slot_type (fmem s) (cpu_head (fmem s)) \<noteq> 0\<rbrakk> \<Longrightarrow>
    fifo_step s (s\<lparr>hpc := HCopy []\<rparr>)"
| copy: "\<lbrakk>hpc s = HCopy ws; length ws < 6\<rbrakk> \<Longrightarrow>
    fifo_step s (s\<lparr>hpc := HCopy (ws @
       [triggers (fmem s) ! slot_index (fmem s) (cpu_head (fmem s)) ! length ws])\<rparr>)"
| clear: "\<lbrakk>hpc s = HCopy ws; length ws = 6\<rbrakk> \<Longrightarrow>
    fifo_step s (s\<lparr>fmem := (clear_slot (fmem s))\<lparr>cpu_head := cpu_head (fmem s) + 1\<rparr>,
       hpc := HIdle, got := got s @ [ws]\<rparr>)"
| advance: "\<lbrakk>tail (fmem s) \<le> v; v \<le> cpu_head (fmem s)\<rbrakk> \<Longrightarrow>
    fifo_step s (s\<lparr>fmem := advance_tail (fmem s) v\<rparr>)"

inductive fifo_reachable :: "D2HFifo \<Rightarrow> fifo_sys \<Rightarrow> bool" for f where
  start: "fifo_reachable f (fifo_start f)"
| step: "\<lbrakk>fifo_reachable f s; fifo_step s t\<rbrakk> \<Longrightarrow> fifo_reachable f t"

subsection \<open>The invariant\<close>

fun held :: "push_pc \<Rightarrow> (TransferCmd \<times> u64) option" where
  "held PIdle = None"
| "held (PClaimed c sl) = Some (c, sl)"
| "held (PSpin c sl) = Some (c, sl)"
| "held (PLoaded c sl t) = Some (c, sl)"
| "held (PWrite c sl k) = Some (c, sl)"

definition cap :: "D2HFifo \<Rightarrow> nat" where
  "cap f = nat (capacity f)"

definition cell :: "D2HFifo \<Rightarrow> nat \<Rightarrow> u64 list" where
  "cell f n = triggers f ! (n mod cap f)"

text \<open>A ring as \<open>create_d2h_fifo\<close> makes it: a power-of-two number of six-word slots.\<close>

definition ring_ok :: "D2HFifo \<Rightarrow> bool" where
  "ring_ok f \<longleftrightarrow> (\<exists>k < 63. capacity f = 2 ^ k) \<and> length (triggers f) = cap f \<and>
     (\<forall>ws \<in> set (triggers f). length ws = 6)"

definition pending :: "fifo_sys \<Rightarrow> nat \<Rightarrow> bool" where
  "pending s n \<longleftrightarrow> (\<exists>i c sl. held (gpu s i) = Some (c, sl) \<and> unat sl = n)"

definition published :: "fifo_sys \<Rightarrow> nat \<Rightarrow> bool" where
  "published s n \<longleftrightarrow> n < length (log s) \<and> \<not> pending s n"

definition count_inv :: "fifo_sys \<Rightarrow> bool" where
  "count_inv s \<longleftrightarrow> unat (head (fmem s)) = length (log s) \<and>
     unat (cpu_head (fmem s)) = length (got s) \<and> length (got s) \<le> length (log s) \<and>
     tail (fmem s) \<le> cpu_head (fmem s) \<and> tail_cache (fmem s) \<le> tail (fmem s)"

definition gpu_inv :: "fifo_sys \<Rightarrow> bool" where
  "gpu_inv s \<longleftrightarrow>
     (\<forall>i c sl. held (gpu s i) = Some (c, sl) \<longrightarrow>
        length (got s) \<le> unat sl \<and> unat sl < length (log s) \<and> log s ! unat sl = c) \<and>
     (\<forall>i j c d sl. held (gpu s i) = Some (c, sl) \<and> held (gpu s j) = Some (d, sl) \<longrightarrow> i = j) \<and>
     (\<forall>i c sl t. gpu s i = PLoaded c sl t \<longrightarrow> t \<le> tail (fmem s)) \<and>
     (\<forall>i c sl k. gpu s i = PWrite c sl k \<longrightarrow>
        unat sl < unat (tail (fmem s)) + cap (fmem s) \<and> 1 \<le> k \<and> k \<le> 6 \<and>
        (\<forall>j. 1 \<le> j \<and> j < k \<longrightarrow> cell (fmem s) (unat sl) ! j = cmd_words c ! j))"

definition mem_inv :: "fifo_sys \<Rightarrow> bool" where
  "mem_inv s \<longleftrightarrow>
     (\<forall>n. length (got s) \<le> n \<and> published s n \<longrightarrow> n < unat (tail (fmem s)) + cap (fmem s)) \<and>
     (\<forall>n. length (got s) \<le> n \<and> n < length (got s) + cap (fmem s) \<longrightarrow>
        (if published s n then cell (fmem s) n = cmd_words (log s ! n)
         else type_byte (cell (fmem s) n ! 0) = 0))"

definition host_inv :: "fifo_sys \<Rightarrow> bool" where
  "host_inv s \<longleftrightarrow> (\<forall>c \<in> set (log s). cmd_type c \<noteq> EMPTY) \<and>
     got s = map cmd_words (take (length (got s)) (log s)) \<and>
     (\<forall>ws. hpc s = HCopy ws \<longrightarrow> published s (length (got s)) \<and> length ws \<le> 6 \<and>
        ws = take (length ws) (cmd_words (log s ! length (got s))))"

definition fifo_inv :: "fifo_sys \<Rightarrow> bool" where
  "fifo_inv s \<longleftrightarrow> ring_ok (fmem s) \<and> count_inv s \<and> gpu_inv s \<and> mem_inv s \<and> host_inv s"

text \<open>The counters are 64 bits wide; the bound says they have not wrapped.\<close>

definition no_wrap :: "fifo_sys \<Rightarrow> bool" where
  "no_wrap s \<longleftrightarrow> length (log s) + cap (fmem s) < 2 ^ 64"

lemmas fifo_inv_defs = fifo_inv_def count_inv_def gpu_inv_def mem_inv_def host_inv_def

subsection \<open>Ring arithmetic\<close>

lemma ring_okD:
  assumes "ring_ok f"
  shows "0 < cap f" "cap f < 2 ^ 63" "capacity f = int (cap f)" "length (triggers f) = cap f"
    "slot_index f sl = unat sl mod cap f"
proof -
  from assms obtain k where k: "k < 63" "capacity f = 2 ^ k"
    and len: "length (triggers f) = cap f"
    unfolding ring_ok_def by blast
  have c: "cap f = 2 ^ k" using k by (simp add: cap_def nat_power_eq)
  have "(2::nat) ^ k < 2 ^ 63" using k(1) by (intro power_strict_increasing) auto
  then show "cap f < 2 ^ 63" by (simp only: c)
  show "0 < cap f" using c by simp
  show cc: "capacity f = int (cap f)" using c k by simp
  show "length (triggers f) = cap f" by (rule len)
  have "ring_mask f = of_nat (cap f) - 1"
    by (simp add: ring_mask_def cc)
  moreover have "unat (sl AND (of_nat (cap f) - 1)) = unat sl mod cap f"
    by (rule unat_and_mask_pow2[OF c]) (use k(1) in simp)
  ultimately show "slot_index f sl = unat sl mod cap f"
    by (simp only: slot_index_def)
qed

lemma ring_ok_upd [simp]:
  "ring_ok (f\<lparr>head := h\<rparr>) = ring_ok f" "ring_ok (f\<lparr>tail := t\<rparr>) = ring_ok f"
  "ring_ok (f\<lparr>tail_cache := t\<rparr>) = ring_ok f" "ring_ok (f\<lparr>cpu_head := t\<rparr>) = ring_ok f"
  by (simp_all add: ring_ok_def cap_def)

lemma cap_upd [simp]:
  "cap (f\<lparr>head := h\<rparr>) = cap f" "cap (f\<lparr>tail := t\<rparr>) = cap f"
  "cap (f\<lparr>tail_cache := t\<rparr>) = cap f" "cap (f\<lparr>cpu_head := h\<rparr>) = cap f"
  "cap (f\<lparr>triggers := tr\<rparr>) = cap f" "cap (store_word f sl k w) = cap f"
  by (simp_all add: cap_def store_word_def)

lemma cell_upd [simp]:
  "cell (f\<lparr>head := h\<rparr>) n = cell f n" "cell (f\<lparr>tail := t\<rparr>) n = cell f n"
  "cell (f\<lparr>tail_cache := t\<rparr>) n = cell f n" "cell (f\<lparr>cpu_head := h\<rparr>) n = cell f n"
  by (simp_all add: cell_def)

lemma store_word_fields [simp]:
  "head (store_word f sl k w) = head f" "tail (store_word f sl k w) = tail f"
  "tail_cache (store_word f sl k w) = tail_cache f" "cpu_head (store_word f sl k w) = cpu_head f"
  "capacity (store_word f sl k w) = capacity f"
  by (simp_all add: store_word_def)

lemma clear_slot_fields [simp]:
  "head (clear_slot f) = head f" "tail (clear_slot f) = tail f"
  "tail_cache (clear_slot f) = tail_cache f" "cpu_head (clear_slot f) = cpu_head f"
  "capacity (clear_slot f) = capacity f" "cap (clear_slot f) = cap f"
  by (simp_all add: clear_slot_def)

lemma cell_length: "ring_ok f \<Longrightarrow> length (cell f n) = 6"
  using ring_okD(1,4)[of f] by (simp add: cell_def ring_ok_def)

lemma ring_ok_store_word [simp]: "ring_ok f \<Longrightarrow> ring_ok (store_word f sl k w)"
  using ring_okD(1,4,5)[of f]
  by (auto simp: ring_ok_def store_word_def cap_def dest!: set_update_subset_insert[THEN subsetD])

lemma cell_store_word:
  assumes "ring_ok f"
  shows "cell (store_word f sl k w) n =
     (if n mod cap f = unat sl mod cap f then (cell f n)[k := w] else cell f n)"
  using ring_okD(1,4)[OF assms] ring_okD(5)[OF assms, of sl]
  by (simp add: cell_def store_word_def nth_list_update cap_def)

lemma cell_store_word_window:
  assumes "ring_ok f" "lo \<le> n" "n < lo + cap f" "lo \<le> unat sl" "unat sl < lo + cap f"
  shows "cell (store_word f sl k w) n = (if n = unat sl then (cell f n)[k := w] else cell f n)"
  using mod_window_unique[OF assms(2-5)] by (auto simp: cell_store_word[OF assms(1)])

lemma slot_type_cell: "ring_ok f \<Longrightarrow> slot_type f sl = type_byte (cell f (unat sl) ! 0)"
  by (simp add: slot_type_def cell_def ring_okD(5))

text \<open>The backpressure test, as long as the counters have not wrapped.\<close>

lemma push_fits_nat:
  assumes "ring_ok f" "unat t + cap f < 2 ^ 64"
  shows "push_fits f sl t \<longleftrightarrow> unat sl < cap f + unat t"
proof -
  have "unat (of_nat (cap f) + t) = cap f + unat t"
    using assms ring_okD(2)[OF assms(1)]
    by (simp add: unat_word_ariths unsigned_of_nat take_bit_nat_eq_self)
  then show ?thesis
    by (simp add: push_fits_def ring_okD(3)[OF assms(1)] word_less_nat_alt)
qed

subsection \<open>Preservation\<close>

lemma held_update: "held (((gpu s)(i := pc)) j) = (if j = i then held pc else held (gpu s j))"
  by simp

lemma pending_eq:
  assumes "\<And>i. held (gpu t i) = held (gpu s i)"
  shows "pending t n = pending s n"
  by (simp add: pending_def assms)

text \<open>
  A step inside \<open>push\<close> between the claim and the commit: it changes the program
  counter of one thread, the cached tail, and words other than word 0 of its own slot.
\<close>

lemma push_internal_inv:
  assumes inv: "fifo_inv s"
    and held: "\<And>i. held (gpu t i) = held (gpu s i)"
    and same: "log t = log s" "got t = got s" "hpc t = hpc s" "head (fmem t) = head (fmem s)"
      "tail (fmem t) = tail (fmem s)" "cpu_head (fmem t) = cpu_head (fmem s)"
      "cap (fmem t) = cap (fmem s)"
    and ring: "ring_ok (fmem t)" and tc: "tail_cache (fmem t) \<le> tail (fmem s)"
    and loaded: "\<And>i c sl v. gpu t i = PLoaded c sl v \<Longrightarrow> v \<le> tail (fmem s)"
    and writing: "\<And>i c sl k. gpu t i = PWrite c sl k \<Longrightarrow>
        unat sl < unat (tail (fmem s)) + cap (fmem s) \<and> 1 \<le> k \<and> k \<le> 6 \<and>
        (\<forall>j. 1 \<le> j \<and> j < k \<longrightarrow> cell (fmem t) (unat sl) ! j = cmd_words c ! j)"
    and pub: "\<And>n. \<lbrakk>length (got s) \<le> n; n < length (got s) + cap (fmem s); published s n\<rbrakk>
        \<Longrightarrow> cell (fmem t) n = cell (fmem s) n"
    and word0: "\<And>n. \<lbrakk>length (got s) \<le> n; n < length (got s) + cap (fmem s)\<rbrakk>
        \<Longrightarrow> cell (fmem t) n ! 0 = cell (fmem s) n ! 0"
  shows "fifo_inv t"
proof -
  have p: "published t n = published s n" for n
    by (simp add: published_def pending_eq[OF held] same)
  have c: "count_inv s" and g: "gpu_inv s" and m: "mem_inv s" and h: "host_inv s"
    using inv by (simp_all add: fifo_inv_def)
  have "count_inv t" using c tc by (simp add: count_inv_def same)
  moreover have "gpu_inv t"
    using g loaded writing unfolding gpu_inv_def held same by blast
  moreover have "mem_inv t"
    using m pub word0 unfolding mem_inv_def p same by metis
  moreover have "host_inv t" using h by (simp add: host_inv_def same p)
  ultimately show ?thesis using ring by (simp add: fifo_inv_def)
qed

lemma fifo_invD:
  assumes "fifo_inv s"
  shows "ring_ok (fmem s)" "count_inv s" "gpu_inv s" "mem_inv s" "host_inv s"
  using assms by (simp_all add: fifo_inv_def)

lemma tail_nat:
  assumes "fifo_inv s" "no_wrap s"
  shows "unat (tail (fmem s)) \<le> length (got s)" "unat (tail (fmem s)) + cap (fmem s) < 2 ^ 64"
  using assms by (auto simp: fifo_inv_defs no_wrap_def word_le_nat_alt)

lemma fits_bound:
  assumes "fifo_inv s" "no_wrap s" "push_fits (fmem s) sl v" "v \<le> tail (fmem s)"
  shows "unat sl < unat (tail (fmem s)) + cap (fmem s)"
proof -
  have v: "unat v \<le> unat (tail (fmem s))" using assms(4) by (simp add: word_le_nat_alt)
  then have "unat v + cap (fmem s) < 2 ^ 64" using tail_nat(2)[OF assms(1,2)] by linarith
  then have "unat sl < cap (fmem s) + unat v"
    using assms(3) push_fits_nat fifo_invD(1)[OF assms(1)] by blast
  then show ?thesis using v by linarith
qed

lemma held_window:
  assumes "fifo_inv s" "held (gpu s i) = Some (c, sl)"
  shows "length (got s) \<le> unat sl" "unat sl < length (log s)" "log s ! unat sl = c"
    "pending s (unat sl)"
  using assms by (auto simp: fifo_inv_defs pending_def)

lemma writer_window:
  assumes "fifo_inv s" "gpu s i = PWrite c sl k"
  shows "unat sl < unat (tail (fmem s)) + cap (fmem s)" "1 \<le> k" "k \<le> 6"
    "\<And>j. \<lbrakk>1 \<le> j; j < k\<rbrakk> \<Longrightarrow> cell (fmem s) (unat sl) ! j = cmd_words c ! j"
    "unat sl < length (got s) + cap (fmem s)"
proof -
  show 1: "unat sl < unat (tail (fmem s)) + cap (fmem s)" and "1 \<le> k" and "k \<le> 6"
    and "\<And>j. \<lbrakk>1 \<le> j; j < k\<rbrakk> \<Longrightarrow> cell (fmem s) (unat sl) ! j = cmd_words c ! j"
    using fifo_invD(3)[OF assms(1)] assms(2) unfolding gpu_inv_def by blast+
  have "unat (tail (fmem s)) \<le> length (got s)"
    using fifo_invD(2)[OF assms(1)] by (auto simp: count_inv_def word_le_nat_alt)
  with 1 show "unat sl < length (got s) + cap (fmem s)" by linarith
qed

lemma pass_inv:
  assumes "fifo_inv s" "no_wrap s" "gpu s i = PClaimed c sl"
    and "push_fits (fmem s) sl (tail_cache (fmem s))"
  shows "fifo_inv (s\<lparr>gpu := (gpu s)(i := PWrite c sl 1)\<rparr>)"
proof (rule push_internal_inv[OF assms(1)])
  have "tail_cache (fmem s) \<le> tail (fmem s)"
    using fifo_invD(2)[OF assms(1)] by (simp add: count_inv_def)
  note b = this fits_bound[OF assms(1,2,4) this]
  then show "tail_cache (fmem (s\<lparr>gpu := (gpu s)(i := PWrite c sl 1)\<rparr>)) \<le> tail (fmem s)" by simp
  fix j d sl' k
  assume "gpu (s\<lparr>gpu := (gpu s)(i := PWrite c sl 1)\<rparr>) j = PWrite d sl' k"
  then show "unat sl' < unat (tail (fmem s)) + cap (fmem s) \<and> 1 \<le> k \<and> k \<le> 6 \<and>
        (\<forall>j. 1 \<le> j \<and> j < k \<longrightarrow>
           cell (fmem (s\<lparr>gpu := (gpu s)(i := PWrite c sl 1)\<rparr>)) (unat sl') ! j = cmd_words d ! j)"
    using b writer_window(1-4)[OF assms(1), of j d sl' k] by (auto split: if_splits)
qed (use assms fifo_invD(1,3)[OF assms(1)] in \<open>auto simp: gpu_inv_def split: if_splits\<close>)

lemma full_inv:
  assumes "fifo_inv s" "gpu s i = PClaimed c sl"
  shows "fifo_inv (s\<lparr>gpu := (gpu s)(i := PSpin c sl)\<rparr>)"
  by (rule push_internal_inv[OF assms(1)])
    (use assms fifo_invD(1,2,3)[OF assms(1)] writer_window(1-4)[OF assms(1)] in
      \<open>auto simp: gpu_inv_def count_inv_def split: if_splits\<close>)

lemma load_tail_inv:
  assumes "fifo_inv s" "gpu s i = PSpin c sl"
  shows "fifo_inv (s\<lparr>gpu := (gpu s)(i := PLoaded c sl (tail (fmem s)))\<rparr>)"
  by (rule push_internal_inv[OF assms(1)])
    (use assms fifo_invD(1,2,3)[OF assms(1)] writer_window(1-4)[OF assms(1)] in
      \<open>auto simp: gpu_inv_def count_inv_def split: if_splits\<close>)

lemma refresh_inv:
  assumes "fifo_inv s" "no_wrap s" "gpu s i = PLoaded c sl v"
  shows "fifo_inv (s\<lparr>fmem := (fmem s)\<lparr>tail_cache := v\<rparr>,
    gpu := (gpu s)(i := if push_fits (fmem s) sl v then PWrite c sl 1 else PSpin c sl)\<rparr>)"
proof (rule push_internal_inv[OF assms(1)])
  let ?t = "s\<lparr>fmem := (fmem s)\<lparr>tail_cache := v\<rparr>,
    gpu := (gpu s)(i := if push_fits (fmem s) sl v then PWrite c sl 1 else PSpin c sl)\<rparr>"
  have v: "v \<le> tail (fmem s)"
    using fifo_invD(3)[OF assms(1)] assms(3) unfolding gpu_inv_def by blast
  then show "tail_cache (fmem ?t) \<le> tail (fmem s)" by simp
  fix j d sl' k
  assume "gpu ?t j = PWrite d sl' k"
  then show "unat sl' < unat (tail (fmem s)) + cap (fmem s) \<and> 1 \<le> k \<and> k \<le> 6 \<and>
        (\<forall>j. 1 \<le> j \<and> j < k \<longrightarrow> cell (fmem ?t) (unat sl') ! j = cmd_words d ! j)"
    using fits_bound[OF assms(1,2) _ v, of sl] writer_window(1-4)[OF assms(1), of j d sl' k]
    by (auto split: if_splits)
qed (use assms fifo_invD(1,3)[OF assms(1)] in \<open>auto simp: gpu_inv_def split: if_splits\<close>)

text \<open>Distinct threads hold distinct slots, and all of them lie in one window of the ring.\<close>

lemma writers_distinct:
  assumes "fifo_inv s" "gpu s i = PWrite c sl k" "gpu s j = PWrite d sl' k'" "i \<noteq> j"
  shows "unat sl \<noteq> unat sl'"
  using fifo_invD(3)[OF assms(1)] assms(2-4) unfolding gpu_inv_def
  by (metis held.simps(5) word_unat_eq_iff)

lemma cell_store_own:
  assumes "fifo_inv s" "gpu s i = PWrite c sl k"
    and "length (got s) \<le> n" "n < length (got s) + cap (fmem s)"
  shows "cell (store_word (fmem s) sl k' w) n =
    (if n = unat sl then (cell (fmem s) n)[k' := w] else cell (fmem s) n)"
  by (rule cell_store_word_window[OF fifo_invD(1)[OF assms(1)] assms(3,4)])
    (use held_window(1)[OF assms(1), of i c sl] writer_window(5)[OF assms(1,2)] assms(2) in auto)

lemma store_inv:
  assumes inv: "fifo_inv s" and i: "gpu s i = PWrite c sl k" and k: "k < 6"
  shows "fifo_inv (s\<lparr>fmem := store_word (fmem s) sl k (cmd_words c ! k),
    gpu := (gpu s)(i := PWrite c sl (Suc k))\<rparr>)"
proof (rule push_internal_inv[OF inv])
  let ?t = "s\<lparr>fmem := store_word (fmem s) sl k (cmd_words c ! k),
    gpu := (gpu s)(i := PWrite c sl (Suc k))\<rparr>"
  note ring = fifo_invD(1)[OF inv] and own = cell_store_own[OF inv i, of _ k "cmd_words c ! k"]
  note w = writer_window[OF inv i]
  have pend: "pending s (unat sl)" using held_window(4)[OF inv, of i c sl] i by simp
  show "tail_cache (fmem ?t) \<le> tail (fmem s)"
    using fifo_invD(2)[OF inv] by (simp add: count_inv_def)
  show "cell (fmem ?t) n = cell (fmem s) n" if "length (got s) \<le> n"
    "n < length (got s) + cap (fmem s)" "published s n" for n
    using that own[of n] pend by (auto simp: published_def)
  show "cell (fmem ?t) n ! 0 = cell (fmem s) n ! 0" if "length (got s) \<le> n"
    "n < length (got s) + cap (fmem s)" for n
    using that own[of n] w(2) by simp
  fix j d sl' k'
  assume j: "gpu ?t j = PWrite d sl' k'"
  show "unat sl' < unat (tail (fmem s)) + cap (fmem s) \<and> 1 \<le> k' \<and> k' \<le> 6 \<and>
        (\<forall>q. 1 \<le> q \<and> q < k' \<longrightarrow> cell (fmem ?t) (unat sl') ! q = cmd_words d ! q)"
  proof (cases "j = i")
    case True
    then have e: "d = c" "sl' = sl" "k' = Suc k" using j by auto
    have "cell (fmem ?t) (unat sl) = (cell (fmem s) (unat sl))[k := cmd_words c ! k]"
      using own[of "unat sl"] held_window(1)[OF inv, of i c sl] i w(5) by simp
    then show ?thesis
      using e w k cell_length[OF ring, of "unat sl"] by (auto simp: nth_list_update less_Suc_eq)
  next
    case False
    then have j': "gpu s j = PWrite d sl' k'" using j by simp
    have "cell (fmem ?t) (unat sl') = cell (fmem s) (unat sl')"
      using own[of "unat sl'"] writers_distinct[OF inv i j'] False
        held_window(1)[OF inv, of j d sl'] j' writer_window(5)[OF inv j'] by simp
    then show ?thesis using writer_window(1-4)[OF inv j'] by simp
  qed
qed (use i fifo_invD(1,3)[OF inv] in \<open>auto simp: gpu_inv_def split: if_splits\<close>)

lemma claim_inv:
  assumes inv: "fifo_inv s" and i: "gpu s i = PIdle" and c: "cmd_type c \<noteq> EMPTY"
    and cl: "push_claim (fmem s) = (sl, m)"
    and nw: "no_wrap (s\<lparr>fmem := m, gpu := (gpu s)(i := PClaimed c sl), log := log s @ [c]\<rparr>)"
  shows "fifo_inv (s\<lparr>fmem := m, gpu := (gpu s)(i := PClaimed c sl), log := log s @ [c]\<rparr>)"
    (is "fifo_inv ?t")
proof -
  have m: "m = (fmem s)\<lparr>head := head (fmem s) + 1\<rparr>" and sl: "sl = head (fmem s)"
    using cl by (auto simp: push_claim_def)
  note D = fifo_invD[OF inv]
  have hd: "unat (head (fmem s)) = length (log s)" using D(2) by (simp add: count_inv_def)
  then have fits: "unat (head (fmem s) + 1) = Suc (length (log s))"
    using nw m by (simp add: no_wrap_def unat_word_ariths)
  have p: "published ?t n = published s n" for n
  proof (cases "n = length (log s)")
    case True
    then have "pending ?t n" using hd sl by (auto simp: pending_def intro!: exI[of _ i])
    then show ?thesis using True by (simp add: published_def)
  next
    case False
    then have "pending ?t n = pending s n"
      using hd sl i by (auto simp: pending_def split: if_splits) (metis held.simps(1) option.distinct(1))
    then show ?thesis using False by (auto simp: published_def)
  qed
  have pl: "published s n \<Longrightarrow> n < length (log s)" for n by (simp add: published_def)
  have old: "held (gpu s j) = Some (d, q) \<Longrightarrow> q \<noteq> sl" for j d q
    using held_window(2)[OF inv, of j d q] hd sl by auto
  have "count_inv ?t" using D(2) fits m by (auto simp: count_inv_def)
  moreover have "gpu_inv ?t"
    using D(2,3) old hd sl m unfolding gpu_inv_def count_inv_def
    by (auto simp: nth_append less_Suc_eq split: if_splits)
  moreover have "mem_inv ?t"
    using D(4) pl m unfolding mem_inv_def p by (auto simp: nth_append)
  moreover have "host_inv ?t"
    using D(2,5) pl c m unfolding host_inv_def p by (auto simp: nth_append count_inv_def)
  ultimately show ?thesis using D(1) m by (simp add: fifo_inv_def)
qed

lemma commit_inv:
  assumes inv: "fifo_inv s" and i: "gpu s i = PWrite c sl 6"
  shows "fifo_inv (s\<lparr>fmem := store_word (fmem s) sl 0 (cmd_words c ! 0),
    gpu := (gpu s)(i := PIdle)\<rparr>)" (is "fifo_inv ?t")
proof -
  note D = fifo_invD[OF inv] and w = writer_window[OF inv i]
  have hw: "length (got s) \<le> unat sl" "unat sl < length (log s)" "log s ! unat sl = c"
    "pending s (unat sl)" using held_window[OF inv, of i c sl] i by simp_all
  note own = cell_store_own[OF inv i, of _ 0 "cmd_words c ! 0"]
  have uniq: "j = i" if "held (gpu s j) = Some (d, sl)" for j d
    using D(3) that i unfolding gpu_inv_def by (metis held.simps(5))
  have pd: "pending ?t n \<longleftrightarrow> pending s n \<and> n \<noteq> unat sl" for n
  proof (cases "n = unat sl")
    case True
    then have "\<not> pending ?t n" using uniq by (auto simp: pending_def word_unat_eq_iff split: if_splits)
    then show ?thesis using True by simp
  next
    case False
    have "j \<noteq> i" if "held (gpu s j) = Some (d, q)" "unat q = n" for j d q
      using that i False by auto
    then show ?thesis using False unfolding pending_def by (simp add: held_update) metis
  qed
  have p: "published ?t n \<longleftrightarrow> published s n \<or> n = unat sl" for n
    using hw by (auto simp: published_def pd)
  have full: "(cell (fmem s) (unat sl))[0 := cmd_words c ! 0] = cmd_words c"
    using w(4) cell_length[OF D(1), of "unat sl"]
    by (auto intro!: nth_equalityI simp: nth_list_update)
  have "count_inv ?t" using D(2) by (simp add: count_inv_def)
  moreover have "gpu_inv ?t"
  proof -
    have "cell (fmem ?t) (unat q) = cell (fmem s) (unat q)"
      if "gpu s j = PWrite d q k" "j \<noteq> i" for j d q k
      using own[of "unat q"] writers_distinct[OF inv that(1) i that(2)] writer_window(5)[OF inv that(1)]
        held_window(1)[OF inv, of j d q] that(1) by simp
    then show ?thesis
      using D(3) unfolding gpu_inv_def by (simp add: held_update)
  qed
  moreover have "mem_inv ?t"
    using D(4) own hw w(1) full unfolding mem_inv_def p by auto
  moreover have "host_inv ?t" using D(5) unfolding host_inv_def p by auto
  ultimately show ?thesis using D(1) by (simp add: fifo_inv_def)
qed

lemma published_head:
  assumes "fifo_inv s" "slot_type (fmem s) (cpu_head (fmem s)) \<noteq> 0"
  shows "published s (length (got s))"
proof (rule ccontr)
  assume "\<not> published s (length (got s))"
  then have "type_byte (cell (fmem s) (length (got s)) ! 0) = 0"
    using fifo_invD(1,4)[OF assms(1)] ring_okD(1) unfolding mem_inv_def by fastforce
  then show False
    using assms fifo_invD(1,2)[OF assms(1)] by (simp add: slot_type_cell count_inv_def)
qed

lemma published_cell:
  assumes "fifo_inv s" "published s (length (got s))"
  shows "cell (fmem s) (length (got s)) = cmd_words (log s ! length (got s))"
    "triggers (fmem s) ! slot_index (fmem s) (cpu_head (fmem s)) = cmd_words (log s ! length (got s))"
proof -
  show 1: "cell (fmem s) (length (got s)) = cmd_words (log s ! length (got s))"
    using assms(2) fifo_invD(1,4)[OF assms(1)] ring_okD(1) unfolding mem_inv_def by fastforce
  show "triggers (fmem s) ! slot_index (fmem s) (cpu_head (fmem s)) = cmd_words (log s ! length (got s))"
    using 1 fifo_invD(1,2)[OF assms(1)] by (simp add: cell_def ring_okD(5) count_inv_def)
qed

lemma observe_inv:
  assumes "fifo_inv s" "hpc s = HIdle" "slot_type (fmem s) (cpu_head (fmem s)) \<noteq> 0"
  shows "fifo_inv (s\<lparr>hpc := HCopy []\<rparr>)"
  using assms(1) published_head[OF assms(1,3)]
  by (simp add: fifo_inv_defs published_def pending_def)

lemma copy_inv:
  assumes inv: "fifo_inv s" and h: "hpc s = HCopy ws" "length ws < 6"
  shows "fifo_inv (s\<lparr>hpc := HCopy (ws @
    [triggers (fmem s) ! slot_index (fmem s) (cpu_head (fmem s)) ! length ws])\<rparr>)"
proof -
  have pub: "published s (length (got s))"
    and ws: "ws = take (length ws) (cmd_words (log s ! length (got s)))"
    using fifo_invD(5)[OF inv] h(1) unfolding host_inv_def by blast+
  have "ws @ [cmd_words (log s ! length (got s)) ! length ws] =
      take (Suc (length ws)) (cmd_words (log s ! length (got s)))"
    using ws h(2) by (metis length_cmd_words take_Suc_conv_app_nth)
  then show ?thesis
    using inv h(2) pub published_cell(2)[OF inv pub]
    by (simp add: fifo_inv_defs published_def pending_def)
qed

lemma clear_inv:
  assumes inv: "fifo_inv s" and nw: "no_wrap s" and h: "hpc s = HCopy ws" "length ws = 6"
  shows "fifo_inv (s\<lparr>fmem := (clear_slot (fmem s))\<lparr>cpu_head := cpu_head (fmem s) + 1\<rparr>,
    hpc := HIdle, got := got s @ [ws]\<rparr>)" (is "fifo_inv ?t")
proof -
  note D = fifo_invD[OF inv]
  let ?g = "length (got s)"
  have pub: "published s ?g" and ws: "ws = cmd_words (log s ! ?g)"
    using D(5) h unfolding host_inv_def by (blast, metis length_cmd_words order_refl take_all)
  have lt: "?g < length (log s)" and np: "\<not> pending s ?g" using pub by (auto simp: published_def)
  have ch: "unat (cpu_head (fmem s)) = ?g" using D(2) by (simp add: count_inv_def)
  then have ch': "unat (cpu_head (fmem s) + 1) = Suc ?g"
    using lt nw by (simp add: no_wrap_def unat_word_ariths)
  have c0: "0 < cap (fmem s)" using ring_okD(1) D(1) by blast
  have p: "published ?t n = published s n" for n by (simp add: published_def pending_def)
  have mt: "cell (fmem ?t) n = (if n mod cap (fmem s) = ?g mod cap (fmem s)
      then (cell (fmem s) n)[0 := clear_type_byte (cell (fmem s) ?g ! 0)] else cell (fmem s) n)" for n
    using ch unfolding clear_slot_def
    by (simp add: cell_store_word[OF D(1)]) (simp add: cell_def ring_okD(5)[OF D(1)])
  have other: "cell (fmem ?t) n = cell (fmem s) n" if "?g < n" "n < ?g + cap (fmem s)" for n
    using that mt[of n] mod_window_unique[of ?g n "cap (fmem s)" ?g] c0 by auto
  have wrap: "type_byte (cell (fmem ?t) (?g + cap (fmem s)) ! 0) = 0"
    using mt[of "?g + cap (fmem s)"] cell_length[OF D(1), of "?g + cap (fmem s)"] by simp
  have "tail (fmem s) \<le> cpu_head (fmem s) + 1"
    using D(2) ch ch' by (auto simp: count_inv_def word_le_nat_alt)
  then have "count_inv ?t" using D(2) ch' lt by (simp add: count_inv_def clear_slot_def)
  moreover have "gpu_inv ?t"
  proof -
    have later: "Suc ?g \<le> unat q" if "held (gpu s j) = Some (d, q)" for j d q
      using held_window(1,4)[OF inv that] np by (metis le_antisym not_less_eq_eq)
    have "cell (fmem ?t) (unat q) = cell (fmem s) (unat q)" if "gpu s j = PWrite d q k" for j d q k
      using other[of "unat q"] later[of j d q] writer_window(5)[OF inv that] that by simp
    then show ?thesis
      using D(3) later unfolding gpu_inv_def by simp
  qed
  moreover have "mem_inv ?t"
  proof -
    have b: "n < unat (tail (fmem s)) + cap (fmem s)" if "?g \<le> n" "published s n" for n
      using D(4) that unfolding mem_inv_def by blast
    have notpub: "\<not> published s (?g + cap (fmem s))"
      using b[of "?g + cap (fmem s)"] D(2) by (auto simp: count_inv_def word_le_nat_alt)
    have "if published s n then cell (fmem ?t) n = cmd_words (log s ! n)
        else type_byte (cell (fmem ?t) n ! 0) = 0"
      if "Suc ?g \<le> n" "n < Suc ?g + cap (fmem s)" for n
    proof (cases "n = ?g + cap (fmem s)")
      case True then show ?thesis using wrap notpub by simp
    next
      case False
      then show ?thesis using that other[of n] D(4) unfolding mem_inv_def by simp
    qed
    then show ?thesis using b unfolding mem_inv_def p by (simp cong: if_cong)
  qed
  moreover have "host_inv ?t"
    using D(5) lt ws unfolding host_inv_def p
    by (simp add: take_Suc_conv_app_nth)
  ultimately show ?thesis using D(1) by (simp add: fifo_inv_def clear_slot_def)
qed

lemma advance_inv:
  assumes "fifo_inv s" "tail (fmem s) \<le> v" "v \<le> cpu_head (fmem s)"
  shows "fifo_inv (s\<lparr>fmem := advance_tail (fmem s) v\<rparr>)"
proof -
  have v: "unat (tail (fmem s)) \<le> unat v" using assms(2) by (simp add: word_le_nat_alt)
  have p: "published (s\<lparr>fmem := advance_tail (fmem s) v\<rparr>) n = published s n" for n
    by (simp add: published_def pending_def)
  note D = fifo_invD[OF assms(1)]
  have "count_inv (s\<lparr>fmem := advance_tail (fmem s) v\<rparr>)"
    using D(2) assms(2,3) by (auto simp: count_inv_def advance_tail_def)
  moreover have "gpu_inv (s\<lparr>fmem := advance_tail (fmem s) v\<rparr>)"
    using D(3) assms(2) v unfolding gpu_inv_def advance_tail_def
    by (simp, meson add_le_cancel_right less_le_trans order_trans)
  moreover have "mem_inv (s\<lparr>fmem := advance_tail (fmem s) v\<rparr>)"
    using D(4) v unfolding mem_inv_def p by (simp add: advance_tail_def) (meson add_le_cancel_right less_le_trans)
  moreover have "host_inv (s\<lparr>fmem := advance_tail (fmem s) v\<rparr>)"
    using D(5) by (simp add: host_inv_def p)
  ultimately show ?thesis using D(1) by (simp add: fifo_inv_def advance_tail_def)
qed

lemma no_wrap_step:
  assumes "fifo_step s t" "no_wrap t"
  shows "no_wrap s"
  using assms
  by (induction rule: fifo_step.induct)
    (auto simp: no_wrap_def advance_tail_def clear_slot_def push_claim_def)

lemma fifo_step_inv:
  assumes "fifo_step s t" "fifo_inv s" "no_wrap t"
  shows "fifo_inv t"
  using assms(1,2) no_wrap_step[OF assms(1,3)] assms(3)
proof (induction rule: fifo_step.induct)
  case (claim s i c sl m)
  then show ?case using claim_inv by blast
qed (blast intro: pass_inv full_inv load_tail_inv refresh_inv store_inv commit_inv observe_inv
  copy_inv clear_inv advance_inv)+

subsection \<open>Reachable states\<close>

lemma create_ring:
  assumes "create_d2h_fifo n = Some f" "n < 2 ^ 31"
  shows "ring_ok f" "cap f = nat n" "f = \<lparr>triggers = replicate (nat n) (replicate 6 0), head = 0,
    tail = 0, tail_cache = 0, capacity = n, cpu_head = 0\<rparr>"
proof -
  have n: "0 < n" "n AND (n - 1) = 0" and f: "f = \<lparr>triggers = replicate (nat n) (replicate 6 0),
    head = 0, tail = 0, tail_cache = 0, capacity = n, cpu_head = 0\<rparr>"
    using assms(1) by (auto simp: create_d2h_fifo_def split: if_splits)
  have "int (nat n AND (nat n - 1)) = n AND (n - 1)"
    using n(1) by (simp add: of_nat_and_eq)
  then have "nat n AND (nat n - 1) = 0" using n(2) by simp
  then obtain k where k: "nat n = 2 ^ k" using nat_and_pred_pow2[of "nat n"] n(1) by auto
  then have "n = 2 ^ k" using n(1) by (metis int_nat_eq less_imp_le of_nat_numeral of_nat_power)
  moreover have "k < 31"
    using assms(2) \<open>n = 2 ^ k\<close> by (metis one_less_numeral_iff power_less_imp_less_exp semiring_norm(76))
  ultimately show "ring_ok f" using f by (auto simp: ring_ok_def cap_def intro!: exI[of _ k])
  show "cap f = nat n" using f by (simp add: cap_def)
  show "f = \<lparr>triggers = replicate (nat n) (replicate 6 0), head = 0,
    tail = 0, tail_cache = 0, capacity = n, cpu_head = 0\<rparr>" by (rule f)
qed

lemma fifo_start_inv:
  assumes "create_d2h_fifo n = Some f" "n < 2 ^ 31"
  shows "fifo_inv (fifo_start f)"
proof -
  note c = create_ring[OF assms]
  have "cell f k = replicate 6 0" for k
    using c ring_okD(1)[OF c(1)] by (simp add: cell_def)
  then show ?thesis
    using c(1,3) by (simp add: fifo_inv_defs fifo_start_def published_def pending_def type_byte_def)
qed

lemma fifo_reachable_inv:
  assumes "fifo_reachable f s" "create_d2h_fifo n = Some f" "n < 2 ^ 31" "no_wrap s"
  shows "fifo_inv s"
  using assms(1,4)
proof (induction rule: fifo_reachable.induct)
  case start
  then show ?case using fifo_start_inv assms(2,3) by blast
next
  case (step s t)
  then show ?case using fifo_step_inv no_wrap_step by blast
qed

lemma fifo_inv_poll:
  assumes "fifo_inv s" "hpc s = HIdle"
  shows "fst (poll (fmem s)) = (if published s (length (got s))
    then Some (cmd_words (log s ! length (got s))) else None)"
proof (cases "published s (length (got s))")
  case True
  have "length (got s) < length (log s)" using True by (simp add: published_def)
  then have "cmd_type (log s ! length (got s)) \<noteq> EMPTY"
    using fifo_invD(5)[OF assms(1)] by (auto simp: host_inv_def)
  then show ?thesis
    using True published_cell(2)[OF assms(1) True]
    by (auto simp: poll_def slot_type_def)
next
  case False
  then show ?thesis using published_head[OF assms(1)] by (auto simp: poll_def)
qed

subsection \<open>Progress\<close>

text \<open>
  The oldest undelivered command can always be delivered: whatever program counter its
  producer has, a continuation exists in which the proxy polls it.
\<close>

definition fifo_steps :: "fifo_sys \<Rightarrow> fifo_sys \<Rightarrow> bool" where
  "fifo_steps = fifo_step\<^sup>*\<^sup>*"

definition delivers :: "fifo_sys \<Rightarrow> bool" where
  "delivers s \<longleftrightarrow> (\<exists>t. fifo_steps s t \<and> length (got t) = Suc (length (got s)) \<and> log t = log s)"

lemma delivers_step:
  assumes "fifo_step s t" "delivers t" "got t = got s" "log t = log s"
  shows "delivers s"
  using assms unfolding delivers_def fifo_steps_def by (metis converse_rtranclp_into_rtranclp)

lemma delivers_copy:
  assumes "hpc s = HCopy ws" "length ws \<le> 6"
  shows "delivers s"
  using assms
proof (induction "6 - length ws" arbitrary: s ws)
  case 0
  then have "length ws = 6" by simp
  from fifo_step.clear[OF 0(2) this] show ?case
    unfolding delivers_def fifo_steps_def by (intro exI conjI, rule r_into_rtranclp) auto
next
  case (Suc k)
  have "length ws < 6" using Suc.hyps(2) by simp
  let ?w = "ws @ [triggers (fmem s) ! slot_index (fmem s) (cpu_head (fmem s)) ! length ws]"
  have "delivers (s\<lparr>hpc := HCopy ?w\<rparr>)"
    by (rule Suc.hyps(1)[of ?w]) (use Suc.hyps(2) in auto)
  then show ?case
    using delivers_step[OF fifo_step.copy[OF Suc.prems(1) \<open>length ws < 6\<close>]] by simp
qed

lemma delivers_published:
  assumes inv: "fifo_inv s" and pub: "published s (length (got s))"
  shows "delivers s"
proof (cases "hpc s")
  case HIdle
  have "fst (poll (fmem s)) \<noteq> None" using fifo_inv_poll[OF inv HIdle] pub by simp
  then have "slot_type (fmem s) (cpu_head (fmem s)) \<noteq> 0" by (auto simp: poll_def split: if_splits)
  from fifo_step.observe[OF HIdle this] show ?thesis
    by (rule delivers_step) (use delivers_copy in auto)
next
  case (HCopy ws)
  then show ?thesis using delivers_copy fifo_invD(5)[OF inv] unfolding host_inv_def by blast
qed

lemma delivers_write:
  assumes "fifo_inv s" "no_wrap s" "gpu s i = PWrite c sl k" "unat sl = length (got s)"
  shows "delivers s"
  using assms
proof (induction "6 - k" arbitrary: s k)
  case 0
  then have "k = 6" using writer_window(3) by fastforce
  note st = fifo_step.commit[OF 0(4)[unfolded this]]
  let ?t = "s\<lparr>fmem := store_word (fmem s) sl 0 (cmd_words c ! 0), gpu := (gpu s)(i := PIdle)\<rparr>"
  have inv: "fifo_inv ?t" using 0 \<open>k = 6\<close> commit_inv by blast
  have "\<not> pending ?t (length (got s))"
  proof
    assume "pending ?t (length (got s))"
    then obtain j d q where j: "j \<noteq> i" "held (gpu s j) = Some (d, q)" "unat q = length (got s)"
      by (auto simp: pending_def split: if_splits)
    then have "q = sl" using 0(5) by (simp add: word_unat_eq_iff)
    then show False
      using j 0(4) fifo_invD(3)[OF 0(2)] unfolding gpu_inv_def by (metis held.simps(5))
  qed
  then have "published ?t (length (got ?t))"
    using held_window(2)[OF 0(2), of i c sl] 0(4,5) by (simp add: published_def)
  then show ?case using delivers_step[OF st delivers_published[OF inv]] by simp
next
  case (Suc n)
  then have "k < 6" by simp
  let ?t = "s\<lparr>fmem := store_word (fmem s) sl k (cmd_words c ! k),
    gpu := (gpu s)(i := PWrite c sl (Suc k))\<rparr>"
  have "delivers ?t"
    by (rule Suc.hyps(1)[of "Suc k"])
      (use Suc.hyps(2) Suc.prems store_inv[OF Suc.prems(1,3) \<open>k < 6\<close>] in \<open>auto simp: no_wrap_def\<close>)
  then show ?case using delivers_step[OF fifo_step.store[OF Suc.prems(3) \<open>k < 6\<close>]] by simp
qed

text \<open>Once the proxy has published its tail, the thread whose slot is the oldest passes.\<close>

lemma delivers_loaded:
  assumes inv: "fifo_inv s" and nw: "no_wrap s" and pc: "gpu s i = PLoaded c sl v"
    and sl: "unat sl = length (got s)" and fits: "push_fits (fmem s) sl v"
  shows "delivers s"
proof -
  let ?t = "s\<lparr>fmem := (fmem s)\<lparr>tail_cache := v\<rparr>,
    gpu := (gpu s)(i := if push_fits (fmem s) sl v then PWrite c sl 1 else PSpin c sl)\<rparr>"
  have "delivers ?t"
    by (rule delivers_write[OF refresh_inv[OF inv nw pc], of i c sl 1])
      (use nw fits sl in \<open>auto simp: no_wrap_def\<close>)
  then show ?thesis using delivers_step[OF fifo_step.refresh[OF pc]] by simp
qed

lemma delivers_spin:
  assumes inv: "fifo_inv s" and nw: "no_wrap s" and pc: "gpu s i = PSpin c sl"
    and sl: "unat sl = length (got s)"
  shows "delivers s"
proof -
  let ?h = "cpu_head (fmem s)"
  let ?a = "s\<lparr>fmem := advance_tail (fmem s) ?h\<rparr>"
  let ?b = "?a\<lparr>gpu := (gpu ?a)(i := PLoaded c sl (tail (fmem ?a)))\<rparr>"
  have h: "unat ?h = length (got s)" "tail (fmem s) \<le> ?h" "length (got s) \<le> length (log s)"
    using fifo_invD(2)[OF inv] by (auto simp: count_inv_def)
  have st: "fifo_step s ?a" "fifo_step ?a ?b"
    using h(2) pc by (blast intro: fifo_step.advance, intro fifo_step.load_tail) simp
  have nw': "no_wrap ?b" using nw by (simp add: no_wrap_def advance_tail_def)
  have inv': "fifo_inv ?b"
    using fifo_step_inv[OF st(2) fifo_step_inv[OF st(1) inv no_wrap_step[OF st(2) nw']] nw'] .
  have "unat ?h + cap (fmem s) < 2 ^ 64" using h nw by (simp add: no_wrap_def)
  then have "push_fits (fmem s) sl ?h"
    using push_fits_nat[OF fifo_invD(1)[OF inv], of ?h sl] ring_okD(1)[OF fifo_invD(1)[OF inv]] h(1) sl
    by simp
  then have "delivers ?b"
    using delivers_loaded[OF inv' nw', of i c sl ?h] sl by (simp add: advance_tail_def push_fits_def)
  then show ?thesis using delivers_step[OF st(1)] delivers_step[OF st(2)] by simp
qed

lemma oldest_delivered:
  assumes inv: "fifo_inv s" and nw: "no_wrap s" and lt: "length (got s) < length (log s)"
  shows "delivers s"
proof (cases "pending s (length (got s))")
  case False
  then show ?thesis using delivers_published[OF inv] lt by (simp add: published_def)
next
  case True
  then obtain i c sl where h: "held (gpu s i) = Some (c, sl)" and sl: "unat sl = length (got s)"
    by (auto simp: pending_def)
  consider "gpu s i = PClaimed c sl" | "gpu s i = PSpin c sl" | v where "gpu s i = PLoaded c sl v"
    | k where "gpu s i = PWrite c sl k"
    using h by (cases "gpu s i") auto
  then show ?thesis
  proof cases
    case 1
    show ?thesis
    proof (cases "push_fits (fmem s) sl (tail_cache (fmem s))")
      case True
      show ?thesis
        by (rule delivers_step[OF fifo_step.pass[OF 1 True]
              delivers_write[OF pass_inv[OF inv nw 1 True], of i c sl 1]])
          (use nw sl in \<open>auto simp: no_wrap_def\<close>)
    next
      case False
      show ?thesis
        by (rule delivers_step[OF fifo_step.full[OF 1 False] delivers_spin[OF full_inv[OF inv 1], of i c sl]])
          (use nw sl in \<open>auto simp: no_wrap_def\<close>)
    qed
  next
    case 2
    then show ?thesis using delivers_spin[OF inv nw _ sl] by blast
  next
    case (3 v)
    show ?thesis
    proof (cases "push_fits (fmem s) sl v")
      case True
      then show ?thesis using delivers_loaded[OF inv nw 3 sl] by blast
    next
      case False
      show ?thesis
        by (rule delivers_step[OF fifo_step.refresh[OF 3]
              delivers_spin[OF refresh_inv[OF inv nw 3], of i c sl]])
          (use nw sl False in \<open>auto simp: no_wrap_def\<close>)
    qed
  next
    case (4 k)
    then show ?thesis using delivers_write[OF inv nw _ sl] by blast
  qed
qed

section \<open>The sequential operations as runs, and the queue contract\<close>

lemma fifo_steps_refl [simp]: "fifo_steps s s"
  by (simp add: fifo_steps_def)

lemma fifo_steps_first: "\<lbrakk>fifo_step s u; fifo_steps u t\<rbrakk> \<Longrightarrow> fifo_steps s t"
  unfolding fifo_steps_def by (rule converse_rtranclp_into_rtranclp)

lemma fifo_steps_trans: "\<lbrakk>fifo_steps s u; fifo_steps u t\<rbrakk> \<Longrightarrow> fifo_steps s t"
  unfolding fifo_steps_def by (rule rtranclp_trans)

lemma fifo_steps_inv:
  assumes "fifo_steps s t" "fifo_inv s" "no_wrap t"
  shows "fifo_inv t \<and> no_wrap s"
  using assms(1,3) unfolding fifo_steps_def
proof (induction rule: rtranclp_induct)
  case base
  then show ?case using assms(2) by simp
next
  case (step y z)
  then show ?case using no_wrap_step fifo_step_inv by blast
qed

lemma write_run:
  assumes "k \<le> 6"
  shows "fifo_steps (s\<lparr>gpu := (gpu s)(i := PWrite c sl k)\<rparr>)
    (s\<lparr>fmem := store_word (fold (\<lambda>wi g. store_word g sl wi (cmd_words c ! wi)) [k..<6] (fmem s)) sl 0
         (cmd_words c ! 0), gpu := (gpu s)(i := PIdle)\<rparr>)"
  using assms
proof (induction "6 - k" arbitrary: k s)
  case 0
  then have k: "k = 6" by simp
  have "fifo_step (s\<lparr>gpu := (gpu s)(i := PWrite c sl 6)\<rparr>)
      (s\<lparr>fmem := store_word (fmem s) sl 0 (cmd_words c ! 0), gpu := (gpu s)(i := PIdle)\<rparr>)"
    using fifo_step.commit[of "s\<lparr>gpu := (gpu s)(i := PWrite c sl 6)\<rparr>" i c sl] by simp
  from fifo_steps_first[OF this fifo_steps_refl] show ?case
    unfolding k by (simp only: upt_rec[of 6 6] less_irrefl if_False fold_Nil id_apply)
next
  case (Suc n)
  let ?m = "store_word (fmem s) sl k (cmd_words c ! k)"
  have k: "k < 6" using Suc.hyps(2) by simp
  have "fifo_step (s\<lparr>gpu := (gpu s)(i := PWrite c sl k)\<rparr>)
      (s\<lparr>fmem := ?m\<rparr>\<lparr>gpu := (gpu (s\<lparr>fmem := ?m\<rparr>))(i := PWrite c sl (Suc k))\<rparr>)"
    using fifo_step.store[of "s\<lparr>gpu := (gpu s)(i := PWrite c sl k)\<rparr>" i c sl k] k by simp
  from fifo_steps_first[OF this Suc.hyps(1)[of "Suc k" "s\<lparr>fmem := ?m\<rparr>"]]
  show ?case using Suc.hyps(2) k by (simp add: upt_conv_Cons[OF k])
qed

text \<open>A \<open>push\<close> that returns is one run of the step relation, undisturbed by other threads.\<close>

lemma log_gpu_commute:
  "s\<lparr>fmem := f, log := l, gpu := g\<rparr> = s\<lparr>fmem := f, gpu := g, log := l\<rparr>"
  by simp

lemma log_fmem_commute: "s\<lparr>log := l, fmem := f\<rparr> = s\<lparr>fmem := f, log := l\<rparr>"
  by simp

lemma hpc_same: "hpc s = HIdle \<Longrightarrow> s\<lparr>fmem := f, hpc := HIdle, got := g\<rparr> = s\<lparr>fmem := f, got := g\<rparr>"
  by (cases s) simp

lemma push_run:
  assumes i: "gpu s i = PIdle" and c: "cmd_type c \<noteq> EMPTY" and p: "push c (fmem s) = Some (sl, m)"
  shows "fifo_steps s (s\<lparr>fmem := m, log := log s @ [c]\<rparr>)"
proof -
  let ?f1 = "(fmem s)\<lparr>head := head (fmem s) + 1\<rparr>"
  let ?s1 = "s\<lparr>fmem := ?f1, log := log s @ [c]\<rparr>"
  have sl: "sl = head (fmem s)"
    using p by (auto simp: push_def push_claim_def Let_def split: if_splits)
  have s1: "fifo_step s (?s1\<lparr>gpu := (gpu ?s1)(i := PClaimed c sl)\<rparr>)"
    using fifo_step.claim[OF i c, of sl ?f1] sl by (simp add: push_claim_def log_gpu_commute)
  have reset: "(gpu s)(i := PIdle) = gpu s" using i by auto
  show ?thesis
  proof (cases "push_fits ?f1 sl (tail_cache ?f1)")
    case True
    have "fifo_step (?s1\<lparr>gpu := (gpu ?s1)(i := PClaimed c sl)\<rparr>) (?s1\<lparr>gpu := (gpu ?s1)(i := PWrite c sl 1)\<rparr>)"
      using fifo_step.pass[of "?s1\<lparr>gpu := (gpu ?s1)(i := PClaimed c sl)\<rparr>" i c sl] True by simp
    from fifo_steps_first[OF s1 fifo_steps_first[OF this write_run]]
    show ?thesis using p True reset by (simp add: push_def push_claim_def Let_def store_payload_def sl log_fmem_commute)
  next
    case False
    let ?f2 = "?f1\<lparr>tail_cache := tail ?f1\<rparr>"
    let ?s2 = "?s1\<lparr>fmem := ?f2\<rparr>"
    have fit: "push_fits ?f2 sl (tail ?f2)"
      using p False sl by (auto simp: push_def push_claim_def Let_def split: if_splits)
    have a: "fifo_step (?s1\<lparr>gpu := (gpu ?s1)(i := PClaimed c sl)\<rparr>) (?s1\<lparr>gpu := (gpu ?s1)(i := PSpin c sl)\<rparr>)"
      using fifo_step.full[of "?s1\<lparr>gpu := (gpu ?s1)(i := PClaimed c sl)\<rparr>" i c sl] False by simp
    have b: "fifo_step (?s1\<lparr>gpu := (gpu ?s1)(i := PSpin c sl)\<rparr>)
        (?s1\<lparr>gpu := (gpu ?s1)(i := PLoaded c sl (tail ?f1))\<rparr>)"
      using fifo_step.load_tail[of "?s1\<lparr>gpu := (gpu ?s1)(i := PSpin c sl)\<rparr>" i c sl] by simp
    have d: "fifo_step (?s1\<lparr>gpu := (gpu ?s1)(i := PLoaded c sl (tail ?f1))\<rparr>)
        (?s2\<lparr>gpu := (gpu ?s2)(i := PWrite c sl 1)\<rparr>)"
      using fifo_step.refresh[of "?s1\<lparr>gpu := (gpu ?s1)(i := PLoaded c sl (tail ?f1))\<rparr>" i c sl "tail ?f1"] fit
      by (simp add: push_fits_def)
    from fifo_steps_first[OF s1 fifo_steps_first[OF a fifo_steps_first[OF b fifo_steps_first[OF d write_run]]]]
    show ?thesis
      using p False fit reset by (simp add: push_def push_claim_def Let_def store_payload_def sl log_fmem_commute)
  qed
qed

lemma copy_run:
  assumes "ring_ok (fmem s)" "k \<le> 6"
    and "rec = triggers (fmem s) ! slot_index (fmem s) (cpu_head (fmem s))"
  shows "fifo_steps (s\<lparr>hpc := HCopy (take k rec)\<rparr>) (s\<lparr>hpc := HCopy rec\<rparr>)"
  using assms(2)
proof (induction "6 - k" arbitrary: k)
  case 0
  have "length rec = 6"
    using assms(1,3) cell_length[of "fmem s"] by (simp add: cell_def ring_okD(5))
  then show ?case using 0 by simp
next
  case (Suc n)
  have k: "k < 6" using Suc.hyps(2) by simp
  have l: "length rec = 6"
    using assms(1,3) cell_length[of "fmem s"] by (simp add: cell_def ring_okD(5))
  have "take k rec @ [rec ! k] = take (Suc k) rec" using k l by (simp add: take_Suc_conv_app_nth)
  then have "fifo_step (s\<lparr>hpc := HCopy (take k rec)\<rparr>) (s\<lparr>hpc := HCopy (take (Suc k) rec)\<rparr>)"
    using fifo_step.copy[of "s\<lparr>hpc := HCopy (take k rec)\<rparr>" "take k rec"] k l assms(3) by simp
  then show ?case using fifo_steps_first Suc.hyps(1)[of "Suc k"] Suc.hyps(2) k by simp
qed

lemma poll_run:
  assumes ring: "ring_ok (fmem s)" and h: "hpc s = HIdle" and p: "poll (fmem s) = (Some ws, m)"
  shows "fifo_steps s (s\<lparr>fmem := m, got := got s @ [ws]\<rparr>)"
proof -
  have t: "slot_type (fmem s) (cpu_head (fmem s)) \<noteq> 0"
    and ws: "ws = triggers (fmem s) ! slot_index (fmem s) (cpu_head (fmem s))"
    and m: "m = (clear_slot (fmem s))\<lparr>cpu_head := cpu_head (fmem s) + 1\<rparr>"
    using p by (auto simp: poll_def split: if_splits)
  have l: "length ws = 6" using ws cell_length[OF ring] by (simp add: cell_def ring_okD(5)[OF ring])
  have "fifo_step (s\<lparr>hpc := HCopy ws\<rparr>) (s\<lparr>fmem := m, got := got s @ [ws]\<rparr>)"
    using fifo_step.clear[of "s\<lparr>hpc := HCopy ws\<rparr>" ws] l by (simp add: m hpc_same[OF h])
  then have fin: "fifo_steps (s\<lparr>hpc := HCopy ws\<rparr>) (s\<lparr>fmem := m, got := got s @ [ws]\<rparr>)"
    using fifo_steps_first by simp
  have "fifo_steps (s\<lparr>hpc := HCopy []\<rparr>) (s\<lparr>hpc := HCopy ws\<rparr>)"
    using copy_run[OF ring _ ws, of 0] by simp
  then show ?thesis
    using fifo_steps_first[OF fifo_step.observe[OF h t]] fifo_steps_trans fin by blast
qed

text \<open>
  Between operations: no thread is inside \<open>push\<close> or \<open>poll\<close>. The records waiting in the
  ring are its cells from \<open>cpu_head\<close> up to \<open>head\<close>.
\<close>

definition idle :: "fifo_sys \<Rightarrow> bool" where
  "idle s \<longleftrightarrow> (\<forall>i. gpu s i = PIdle) \<and> hpc s = HIdle"

definition seq_inv :: "nat \<Rightarrow> D2HFifo \<Rightarrow> bool" where
  "seq_inv k f \<longleftrightarrow> (\<exists>s. fmem s = f \<and> fifo_inv s \<and> idle s \<and> length (log s) + cap f + k < 2 ^ 64)"

definition contents :: "D2HFifo \<Rightarrow> u64 list list" where
  "contents f = map (cell f) [unat (cpu_head f)..<unat (head f)]"

text \<open>
  The calls of a sequence on one ring: \<open>push\<close>, \<open>poll\<close>, and a proxy freeing the
  slots of the records it has polled except the last \<open>k\<close>: \<^verbatim>\<open>proxy.h:1209\<close> passes
  \<open>cpu_head\<close>, \<^verbatim>\<open>proxy_efa.h:1037\<close> a value \<open>cpu_head\<close> had earlier.
\<close>

definition push_slot :: "TransferCmd \<Rightarrow> D2HFifo \<Rightarrow> (nat \<times> D2HFifo) option" where
  "push_slot c f = map_option (map_prod unat id) (push c f)"

definition free_slots :: "nat \<Rightarrow> D2HFifo \<Rightarrow> D2HFifo" where
  "free_slots k f =
     advance_tail f (if k \<le> unat (cpu_head f) - unat (tail f) then cpu_head f - of_nat k else tail f)"

definition fifo_do :: "TransferCmd queue_op \<Rightarrow> D2HFifo \<Rightarrow> (u64 list queue_result \<times> D2HFifo) option" where
  "fifo_do = impl_do push_slot poll free_slots"

definition fifo_abs :: "D2HFifo \<Rightarrow> u64 list queue_spec" where
  "fifo_abs f = \<lparr>waiting = contents f, held_places = unat (cpu_head f) - unat (tail f),
     stored_count = unat (head f)\<rparr>"

lemma idle_published:
  assumes "idle s" "n < length (log s)"
  shows "published s n"
  using assms by (simp add: idle_def published_def pending_def)

lemma contents_log:
  assumes inv: "fifo_inv s" and "idle s"
  shows "contents (fmem s) = map cmd_words (drop (length (got s)) (log s))"
proof -
  have c: "unat (cpu_head (fmem s)) = length (got s)" "unat (head (fmem s)) = length (log s)"
    "unat (tail (fmem s)) \<le> length (got s)"
    using fifo_invD(2)[OF inv] by (auto simp: count_inv_def word_le_nat_alt)
  have "cell (fmem s) n = cmd_words (log s ! n)" if "length (got s) \<le> n" "n < length (log s)" for n
  proof -
    have "published s n" using idle_published assms(2) that(2) by blast
    moreover have "n < length (got s) + cap (fmem s)"
      using fifo_invD(4)[OF inv] that(1) \<open>published s n\<close> c(3) unfolding mem_inv_def
      by (meson add_le_cancel_right less_le_trans)
    ultimately show ?thesis using fifo_invD(4)[OF inv] that(1) unfolding mem_inv_def by presburger
  qed
  then show ?thesis
    unfolding contents_def c by (auto intro!: nth_equalityI)
qed

lemma seq_invD:
  assumes "seq_inv k f"
  shows "ring_ok f" "unat (tail f) \<le> unat (cpu_head f)" "unat (cpu_head f) \<le> unat (head f)"
    "unat (tail_cache f) \<le> unat (tail f)" "unat (head f) + cap f + k < 2 ^ 64"
    "length (contents f) = unat (head f) - unat (cpu_head f)"
  using assms by (auto simp: seq_inv_def fifo_inv_def count_inv_def word_le_nat_alt contents_def)

lemma cap_of_capacity: "capacity g = capacity f \<Longrightarrow> cap g = cap f"
  by (simp add: cap_def)

lemma slot_push_fields:
  assumes "push c f = Some (sl, g)"
  shows "sl = head f" "head g = head f + 1" "tail g = tail f" "cpu_head g = cpu_head f" "cap g = cap f"
  using assms
  by (auto simp: push_def push_claim_def store_payload_def Let_def upt_rec split: if_splits
    intro!: cap_of_capacity)

lemma poll_fields:
  assumes "poll f = (Some x, g)"
  shows "head g = head f" "tail g = tail f" "cpu_head g = cpu_head f + 1" "cap g = cap f"
  using assms by (auto simp: poll_def split: if_splits)

lemma seq_inv_push:
  assumes "seq_inv (Suc k) f" "cmd_type c \<noteq> EMPTY" "push c f = Some (sl, g)"
  shows "seq_inv k g \<and> contents g = contents f @ [cmd_words c]"
proof -
  from assms(1) obtain s where s: "fmem s = f" "fifo_inv s" "idle s"
    "length (log s) + cap f + Suc k < 2 ^ 64" unfolding seq_inv_def by blast
  have p: "push c (fmem s) = Some (sl, g)" using s(1) assms(3) by simp
  let ?t = "s\<lparr>fmem := g, log := log s @ [c]\<rparr>"
  have run: "fifo_steps s ?t" using push_run[OF _ assms(2) p] s(3) by (auto simp: idle_def)
  have cap: "cap g = cap f" by (rule slot_push_fields(5)[OF assms(3)])
  then have inv: "fifo_inv ?t" using fifo_steps_inv[OF run s(2)] s(4) by (simp add: no_wrap_def)
  have idle: "idle ?t" using s(3) by (simp add: idle_def)
  have "length (got s) \<le> length (log s)" using fifo_invD(2)[OF s(2)] by (simp add: count_inv_def)
  then have "contents g = contents f @ [cmd_words c]"
    using contents_log[OF inv idle] contents_log[OF s(2,3)] s(1) by simp
  moreover have "seq_inv k g"
    unfolding seq_inv_def using inv idle s(4) cap by (intro exI[of _ ?t]) simp
  ultimately show ?thesis by simp
qed

lemma seq_inv_poll_empty:
  assumes "seq_inv k f" "contents f = []"
  shows "poll f = (None, f)"
proof -
  from assms(1) obtain s where s: "fmem s = f" "fifo_inv s" "idle s" unfolding seq_inv_def by blast
  then have "length (log s) \<le> length (got s)" using contents_log[OF s(2,3)] assms(2) by simp
  then have "fst (poll f) = None"
    using fifo_inv_poll[OF s(2)] s(1,3) by (simp add: idle_def published_def)
  then show ?thesis by (auto simp: poll_def split: if_splits)
qed

lemma seq_inv_poll:
  assumes "seq_inv k f" "contents f = x # xs"
  shows "\<exists>g. poll f = (Some x, g) \<and> seq_inv k g \<and> contents g = xs"
proof -
  from assms(1) obtain s where s: "fmem s = f" "fifo_inv s" "idle s"
    "length (log s) + cap f + k < 2 ^ 64" unfolding seq_inv_def by blast
  have c: "map cmd_words (drop (length (got s)) (log s)) = x # xs"
    using contents_log[OF s(2,3)] assms(2) s(1) by simp
  then have lt: "length (got s) < length (log s)" by (cases "length (got s) < length (log s)") auto
  then have x: "x = cmd_words (log s ! length (got s))"
    and xs: "xs = map cmd_words (drop (Suc (length (got s))) (log s))"
    using c by (simp_all add: Cons_nth_drop_Suc[symmetric])
  have "fst (poll f) = Some x"
    using fifo_inv_poll[OF s(2)] idle_published[OF s(3) lt] s(1,3) x by (simp add: idle_def)
  then obtain g where p: "poll (fmem s) = (Some x, g)" using s(1) by (cases "poll f") auto
  let ?t = "s\<lparr>fmem := g, got := got s @ [x]\<rparr>"
  have run: "fifo_steps s ?t"
    using poll_run[OF fifo_invD(1)[OF s(2)] _ p] s(3) by (simp add: idle_def)
  have cap: "cap g = cap f"
    using p s(1) by (auto simp: poll_def split: if_splits)
  then have inv: "fifo_inv ?t" using fifo_steps_inv[OF run s(2)] s(4) by (simp add: no_wrap_def)
  have idle: "idle ?t" using s(3) by (simp add: idle_def)
  have "contents g = xs" using contents_log[OF inv idle] xs by simp
  moreover have "seq_inv k g"
    unfolding seq_inv_def using inv idle s(4) cap by (intro exI[of _ ?t]) simp
  ultimately show ?thesis using p s(1) by blast
qed

text \<open>\<open>push\<close> run alone finds no room exactly when the published tail is a whole ring behind.\<close>

lemma seq_push_full:
  assumes "seq_inv k f"
  shows "push c f = None \<longleftrightarrow> unat (tail f) + cap f \<le> unat (head f)"
proof -
  from assms obtain s where s: "fmem s = f" "fifo_inv s" "length (log s) + cap f + k < 2 ^ 64"
    unfolding seq_inv_def by blast
  have r: "ring_ok f" and b: "unat (tail f) + cap f < 2 ^ 64" and tc: "unat (tail_cache f) \<le> unat (tail f)"
    using fifo_invD(1,2)[OF s(2)] s(1,3) by (auto simp: count_inv_def word_le_nat_alt)
  have f: "push_fits (f\<lparr>head := h, tail_cache := v\<rparr>) sl t \<longleftrightarrow> push_fits f sl t"
    "push_fits (f\<lparr>head := h\<rparr>) sl t \<longleftrightarrow> push_fits f sl t" for h v sl t
    by (simp_all add: push_fits_def)
  have nat: "push_fits f (head f) (tail f) \<longleftrightarrow> unat (head f) < cap f + unat (tail f)"
    "push_fits f (head f) (tail_cache f) \<longleftrightarrow> unat (head f) < cap f + unat (tail_cache f)"
    using push_fits_nat[OF r] b tc by auto
  show ?thesis
    using nat tc by (auto simp: push_def push_claim_def Let_def f)
qed

lemma seq_inv_free:
  assumes "seq_inv k f" "tail f \<le> v" "v \<le> cpu_head f"
  shows "seq_inv k (advance_tail f v) \<and> contents (advance_tail f v) = contents f"
proof -
  from assms(1) obtain s where s: "fmem s = f" "fifo_inv s" "idle s"
    "length (log s) + cap f + k < 2 ^ 64" unfolding seq_inv_def by blast
  have "fifo_inv (s\<lparr>fmem := advance_tail f v\<rparr>)" using advance_inv[OF s(2)] s(1) assms(2,3) by simp
  then have "seq_inv k (advance_tail f v)"
    unfolding seq_inv_def using s(3,4)
    by (intro exI[of _ "s\<lparr>fmem := advance_tail f v\<rparr>"]) (simp add: idle_def advance_tail_def)
  then show ?thesis by (simp add: contents_def advance_tail_def cell_def cap_def)
qed

lemma free_slots_tail:
  fixes f :: D2HFifo and k :: nat
  assumes "tail f \<le> cpu_head f"
  defines "v \<equiv> if k \<le> unat (cpu_head f) - unat (tail f) then cpu_head f - of_nat k else tail f"
  shows "tail f \<le> v" "v \<le> cpu_head f"
    "unat (cpu_head f) - unat v = min k (unat (cpu_head f) - unat (tail f))"
proof -
  have t: "unat (tail f) \<le> unat (cpu_head f)" using assms(1) by (simp add: word_le_nat_alt)
  have "unat v = unat (cpu_head f) - min k (unat (cpu_head f) - unat (tail f))"
  proof (cases "k \<le> unat (cpu_head f) - unat (tail f)")
    case True
    then have k: "k \<le> unat (cpu_head f)" by simp
    then have "unat (of_nat k :: u64) = k"
      using unsigned_less[of "cpu_head f", where 'a = nat] by (simp add: unat_of_nat)
    then show ?thesis using True k by (simp add: v_def unat_sub word_le_nat_alt)
  qed (simp add: v_def t)
  then show "tail f \<le> v" "v \<le> cpu_head f"
    "unat (cpu_head f) - unat v = min k (unat (cpu_head f) - unat (tail f))"
    using t by (auto simp: word_le_nat_alt)
qed

lemma seq_push_room:
  assumes "seq_inv k f"
  shows "push c f = None \<longleftrightarrow> \<not> length (waiting (fifo_abs f)) + held_places (fifo_abs f) < cap f"
  using seq_push_full[OF assms, of c] seq_invD(2,3,6)[OF assms] by (auto simp: fifo_abs_def)

lemma unat_Suc: "unat x + 1 < 2 ^ 64 \<Longrightarrow> unat (x + 1 :: u64) = Suc (unat x)"
  by (simp add: unat_word_ariths)

lemma fifo_abs_push:
  assumes "seq_inv (Suc k) f" "cmd_type c \<noteq> EMPTY" "push c f = Some (sl, g)"
  shows "unat sl = stored_count (fifo_abs f)"
    "fifo_abs g = (fifo_abs f)\<lparr>waiting := waiting (fifo_abs f) @ [cmd_words c],
       stored_count := Suc (stored_count (fifo_abs f))\<rparr>"
  using seq_inv_push[OF assms] slot_push_fields[OF assms(3)] seq_invD(5)[OF assms(1)]
  by (simp_all add: fifo_abs_def unat_Suc)

lemma fifo_abs_poll:
  assumes "seq_inv k f" "contents f = x # xs" "poll f = (Some x, g)" "contents g = xs"
  shows "fifo_abs g = (fifo_abs f)\<lparr>waiting := xs, held_places := Suc (held_places (fifo_abs f))\<rparr>"
proof -
  have "unat (cpu_head f) < unat (head f)" using seq_invD(6)[OF assms(1)] assms(2) by simp
  then have "unat (cpu_head f) + 1 < 2 ^ 64" using unsigned_less[of "head f", where 'a = nat] by simp
  then show ?thesis
    using poll_fields[OF assms(3)] assms(4) seq_invD(2)[OF assms(1)]
    by (simp add: fifo_abs_def unat_Suc Suc_diff_le)
qed

lemma fifo_abs_free:
  assumes "seq_inv k f"
  shows "seq_inv k (free_slots j f) \<and> cap (free_slots j f) = cap f \<and>
    fifo_abs (free_slots j f) = (fifo_abs f)\<lparr>held_places := min j (held_places (fifo_abs f))\<rparr>"
proof -
  have "tail f \<le> cpu_head f" using seq_invD(2)[OF assms] by (simp add: word_le_nat_alt)
  note t = free_slots_tail[OF this, of j]
  show ?thesis
    using seq_inv_free[OF assms t(1,2)] t(3)
    unfolding free_slots_def fifo_abs_def by (simp add: advance_tail_def cap_def)
qed

interpretation d2h: bounded_queue seq_inv cap fifo_abs "\<lambda>c. cmd_type c \<noteq> EMPTY" cmd_words
  push_slot poll free_slots
proof unfold_locales
  show "seq_inv k s" if "seq_inv (Suc k) s" for k s
    using that unfolding seq_inv_def by (elim exE, intro exI) auto
next
  fix k f and c :: TransferCmd
  assume f: "seq_inv (Suc k) f" "cmd_type c \<noteq> EMPTY"
    "length (waiting (fifo_abs f)) + held_places (fifo_abs f) < cap f"
  then obtain sl g where p: "push c f = Some (sl, g)" using seq_push_room[OF f(1), of c] by auto
  show "\<exists>t. push_slot c f = Some (stored_count (fifo_abs f), t) \<and> seq_inv k t \<and> cap t = cap f \<and>
      fifo_abs t = (fifo_abs f)\<lparr>waiting := waiting (fifo_abs f) @ [cmd_words c],
        stored_count := Suc (stored_count (fifo_abs f))\<rparr>"
    using p fifo_abs_push[OF f(1,2) p] seq_inv_push[OF f(1,2) p] slot_push_fields(5)[OF p]
    by (simp add: push_slot_def)
next
  show "push_slot c f = None"
    if "seq_inv k f" "\<not> length (waiting (fifo_abs f)) + held_places (fifo_abs f) < cap f"
    for k f and c :: TransferCmd
    using that seq_push_room[OF that(1), of c] by (simp add: push_slot_def)
next
  show "poll f = (None, f)" if "seq_inv k f" "waiting (fifo_abs f) = []" for k f
    using seq_inv_poll_empty[OF that(1)] that(2) by (simp add: fifo_abs_def)
next
  fix k f x xs
  assume f: "seq_inv k f" "waiting (fifo_abs f) = x # xs"
  then have c: "contents f = x # xs" by (simp add: fifo_abs_def)
  from seq_inv_poll[OF f(1) c] obtain g where g: "poll f = (Some x, g)" "seq_inv k g" "contents g = xs"
    by blast
  show "\<exists>t. poll f = (Some x, t) \<and> seq_inv k t \<and> cap t = cap f \<and>
      fifo_abs t = (fifo_abs f)\<lparr>waiting := xs, held_places := Suc (held_places (fifo_abs f))\<rparr>"
    using g fifo_abs_poll[OF f(1) c g(1,3)] poll_fields(4)[OF g(1)] by blast
qed (rule fifo_abs_free)

lemma seq_inv_create:
  assumes "create_d2h_fifo n = Some f" "n < 2 ^ 31" "k < 2 ^ 63"
  shows "seq_inv k f" "contents f = []" "fifo_abs f = empty_queue"
proof -
  have "cap f < 2 ^ 63" using ring_okD(2) create_ring(1)[OF assms(1,2)] by blast
  then have "cap f + k < 2 ^ 64" using assms(3) by simp
  then show "seq_inv k f"
    unfolding seq_inv_def using fifo_start_inv[OF assms(1,2)]
    by (intro exI[of _ "fifo_start f"]) (simp add: fifo_start_def idle_def)
  show "contents f = []" using create_ring(3)[OF assms(1,2)] by (simp add: contents_def)
  then show "fifo_abs f = empty_queue"
    using create_ring(3)[OF assms(1,2)] by (simp add: fifo_abs_def empty_queue_def)
qed

lemma reachable_steps:
  assumes "fifo_steps s t" "fifo_reachable f s"
  shows "fifo_reachable f t"
  using assms unfolding fifo_steps_def
  by (induction rule: rtranclp_induct) (auto intro: fifo_reachable.step)

lemma select_fifo_index_nat:
  assumes "1 < num_fifos b" "num_fifos b < 2 ^ 31" "0 < global_num_qps b" "global_num_qps b < 2 ^ 31"
    and "0 < qps_per_fifo b" "qps_per_fifo b < 2 ^ 31"
  shows "int (select_fifo_index b lane) =
    min (num_fifos b - 1) ((uint lane mod global_num_qps b) div qps_per_fifo b)"
proof -
  have u: "uint (word_of_int x :: u32) = x" if "0 \<le> x" "x < 2 ^ 31" for x
    using that by (simp add: word_of_int_inverse)
  let ?i = "(lane mod word_of_int (global_num_qps b)) div word_of_int (qps_per_fifo b) :: u32"
  have i: "uint ?i = (uint lane mod global_num_qps b) div qps_per_fifo b"
    using assms u by (simp add: uint_div uint_mod)
  have n: "uint (word_of_int (num_fifos b) - 1 :: u32) = num_fifos b - 1"
    using assms u[of "num_fifos b"] by (simp add: uint_sub_if_size)
  have "?i \<ge> word_of_int (num_fifos b) \<longleftrightarrow> num_fifos b \<le> uint ?i"
    using u[of "num_fifos b"] assms by (simp add: word_le_def)
  then show ?thesis
    using assms i n by (auto simp: select_fifo_index_def Let_def min_def simp flip: uint_nat)
qed

text \<open>A concrete ring and run, for the witnesses: one slot, one command pushed and polled.\<close>

definition demo_ring :: D2HFifo where
  "demo_ring = \<lparr>triggers = [replicate 6 0], head = 0, tail = 0, tail_cache = 0, capacity = 1, cpu_head = 0\<rparr>"

definition demo_cmd :: TransferCmd where
  "demo_cmd = zero_cmd\<lparr>cmd_type := WRITE, tile_id := 7, remote_offset := 4096, bytes := 512\<rparr>"

definition demo_pushed :: D2HFifo where
  "demo_pushed = \<lparr>triggers = [cmd_words demo_cmd], head = 1, tail = 0, tail_cache = 0, capacity = 1, cpu_head = 0\<rparr>"

definition demo_state :: fifo_sys where
  "demo_state = (fifo_start demo_ring)\<lparr>fmem := demo_pushed, log := [demo_cmd]\<rparr>"

definition demo_polled :: fifo_sys where
  "demo_polled = demo_state\<lparr>fmem := snd (poll demo_pushed), got := [cmd_words demo_cmd]\<rparr>"

lemma demo_create: "create_d2h_fifo 1 = Some demo_ring"
  by (simp add: create_d2h_fifo_def demo_ring_def)

definition demo_ring2 :: D2HFifo where
  "demo_ring2 = \<lparr>triggers = [replicate 6 0, replicate 6 0], head = 0, tail = 0, tail_cache = 0,
     capacity = 2, cpu_head = 0\<rparr>"

lemma demo_create2: "create_d2h_fifo 2 = Some demo_ring2"
  by (simp add: create_d2h_fifo_def demo_ring2_def numeral_2_eq_2)

lemma demo_push: "push demo_cmd demo_ring = Some (0, demo_pushed)"
  by code_simp

lemma demo_poll: "fst (poll demo_pushed) = Some (cmd_words demo_cmd)"
  by code_simp

lemma demo_reachable: "fifo_reachable demo_ring demo_state" "no_wrap demo_state"
proof -
  have "fifo_steps (fifo_start demo_ring) demo_state"
    using push_run[of "fifo_start demo_ring" 0 demo_cmd 0 demo_pushed] demo_push
    by (simp add: fifo_start_def demo_state_def demo_cmd_def)
  then show "fifo_reachable demo_ring demo_state" by (rule reachable_steps) (rule fifo_reachable.start)
  show "no_wrap demo_state" by (simp add: no_wrap_def demo_state_def demo_pushed_def cap_def)
qed

lemma demo_polled_reachable: "fifo_reachable demo_ring demo_polled" "no_wrap demo_polled"
proof -
  have r: "ring_ok demo_pushed" by (auto simp: ring_ok_def demo_pushed_def cap_def intro!: exI[of _ 0])
  obtain g where g: "poll demo_pushed = (Some (cmd_words demo_cmd), g)"
    using demo_poll by (cases "poll demo_pushed") auto
  have "fifo_steps demo_state demo_polled"
    using poll_run[of demo_state "cmd_words demo_cmd" g] r g
    by (simp add: demo_state_def demo_polled_def fifo_start_def)
  then show "fifo_reachable demo_ring demo_polled"
    by (rule reachable_steps) (rule demo_reachable)
  have "cap g = cap demo_pushed" using g by (auto simp: poll_def split: if_splits)
  then show "no_wrap demo_polled"
    using g by (simp add: no_wrap_def demo_polled_def demo_state_def demo_pushed_def cap_def)
qed

section \<open>Polls use the ring up\<close>

text \<open>The number of committed records in the ring: each successful poll takes one off.\<close>

definition ready :: "D2HFifo \<Rightarrow> nat" where
  "ready f = length (filter (\<lambda>ws. type_byte (ws ! 0) \<noteq> 0) (triggers f))"

lemma length_filter_update:
  assumes "i < length xs" "P (xs ! i)" "\<not> P y"
  shows "Suc (length (filter P (xs[i := y]))) = length (filter P xs)"
proof -
  have "xs = take i xs @ xs ! i # drop (Suc i) xs" using assms(1) by (rule id_take_nth_drop)
  then have "filter P xs = filter P (take i xs) @ xs ! i # filter P (drop (Suc i) xs)"
    using assms(2) by (metis filter.simps(2) filter_append)
  moreover have "xs[i := y] = take i xs @ y # drop (Suc i) xs" using assms(1) by (rule upd_conv_take_nth_drop)
  ultimately show ?thesis using assms(3) by simp
qed

lemma poll_some:
  assumes ring: "ring_ok f" and p: "poll f = (Some ws, g)"
  shows "Suc (ready g) = ready f" "ring_ok g" "length (triggers g) = length (triggers f)"
    "cpu_head g = cpu_head f + 1" "tail g = tail f"
proof -
  let ?i = "slot_index f (cpu_head f)"
  have t: "slot_type f (cpu_head f) \<noteq> 0" and g: "g = (clear_slot f)\<lparr>cpu_head := cpu_head f + 1\<rparr>"
    using p by (auto simp: poll_def split: if_splits)
  have i: "?i < length (triggers f)" using ring_okD(1,4,5)[OF ring] by simp
  then have len: "length (triggers f ! ?i) = 6" using ring by (simp add: ring_ok_def)
  show "Suc (ready g) = ready f"
    unfolding ready_def g using i t len
    by (simp add: clear_slot_def store_word_def length_filter_update slot_type_def)
  show "ring_ok g" using ring by (simp add: g clear_slot_def)
  show "length (triggers g) = length (triggers f)" by (simp add: g clear_slot_def store_word_def)
  show "cpu_head g = cpu_head f + 1" "tail g = tail f" by (simp_all add: g)
qed

lemma ready_le: "ready f \<le> length (triggers f)"
  by (simp add: ready_def)

lemma poll_none: "poll f = (None, g) \<Longrightarrow> g = f"
  by (auto simp: poll_def split: if_splits)

section \<open>Properties\<close>

text \<open>
  C2 (safety): under every interleaving of any number of pushing GPU threads with the polling
  proxy, the records the proxy has read are the claimed commands, whole, in slot order, none
  lost and none twice. The bound on the counters is that 64 bits have not wrapped.
\<close>

theorem fifo_no_torn_read:
  assumes "create_d2h_fifo n = Some f" "n < 2 ^ 31" "fifo_reachable f s" "no_wrap s"
  shows "got s = map cmd_words (take (length (got s)) (log s)) \<and> length (got s) \<le> length (log s)"
  using fifo_invD(2,5)[OF fifo_reachable_inv[OF assms(3,1,2,4)]]
  by (simp add: host_inv_def count_inv_def)

theorem fifo_no_torn_read_witness:
  "got demo_polled = map cmd_words (take (length (got demo_polled)) (log demo_polled)) \<and>
   length (got demo_polled) \<le> length (log demo_polled)"
  by (rule fifo_no_torn_read[OF demo_create _ demo_polled_reachable]) simp

text \<open>
  In every reachable state \<open>poll\<close> returns the oldest undelivered command as
  soon as its producer has committed it, and nothing before that.
\<close>

theorem fifo_poll_exact:
  assumes "create_d2h_fifo n = Some f" "n < 2 ^ 31" "fifo_reachable f s" "no_wrap s" "hpc s = HIdle"
  shows "fst (poll (fmem s)) =
    (if length (got s) < length (log s) \<and> \<not> pending s (length (got s))
     then Some (cmd_words (log s ! length (got s))) else None)"
  using fifo_inv_poll[OF fifo_reachable_inv[OF assms(3,1,2,4)] assms(5)] by (simp add: published_def)

theorem fifo_poll_exact_witness:
  "fst (poll (fmem demo_state)) =
    (if length (got demo_state) < length (log demo_state) \<and> \<not> pending demo_state (length (got demo_state))
     then Some (cmd_words (log demo_state ! length (got demo_state))) else None)"
  by (rule fifo_poll_exact[OF demo_create _ demo_reachable]) (simp_all add: demo_state_def fifo_start_def)

text \<open>
  C21 (liveness): the ring never deadlocks. In every reachable state with an undelivered
  command, whatever the threads are doing, a continuation delivers the next command.
\<close>

theorem fifo_no_deadlock:
  assumes "create_d2h_fifo n = Some f" "n < 2 ^ 31" "fifo_reachable f s" "no_wrap s"
    and "length (got s) < length (log s)"
  shows "\<exists>t. fifo_steps s t \<and> length (got t) = Suc (length (got s)) \<and> log t = log s"
  using oldest_delivered[OF fifo_reachable_inv[OF assms(3,1,2,4)] assms(4,5)]
  unfolding delivers_def .

theorem fifo_no_deadlock_witness:
  "\<exists>t. fifo_steps demo_state t \<and> length (got t) = Suc (length (got demo_state)) \<and> log t = log demo_state"
  by (rule fifo_no_deadlock[OF demo_create _ demo_reachable]) (simp_all add: demo_state_def fifo_start_def)

text \<open>
  C14 (refinement): the ring implements the bounded first-in first-out queue. For every
  sequence of \<open>push\<close>, \<open>poll\<close> and \<open>advance_tail\<close> calls on a fresh ring, the results
  are those of the queue with as many places as the ring has slots: \<open>push\<close> returns the next slot
  number when a place is free and spins when none is, \<open>poll\<close> returns the oldest record or
  nothing when there is none, a place is free again once its record was polled and the
  tail moved past it; and the final states correspond. The counters of the ring have not
  wrapped, and no pushed command has type \<open>EMPTY\<close>.
\<close>

theorem fifo_refines_queue:
  assumes "create_d2h_fifo n = Some f" "n < 2 ^ 31" "length ops < 2 ^ 63"
    and "\<forall>c. Put c \<in> set ops \<longrightarrow> cmd_type c \<noteq> EMPTY"
  shows "map_prod id (map_option fifo_abs) (run_ops fifo_do ops f) =
    run_ops (queue_do (nat n) cmd_words) ops empty_queue"
  using d2h.run_refines[OF seq_inv_create(1)[OF assms(1-3)] assms(4)]
    seq_inv_create(3)[OF assms(1-3)] create_ring(2)[OF assms(1,2)]
  by (simp add: fifo_do_def)

theorem fifo_refines_queue_witness:
  "fst (run_ops fifo_do [Put demo_cmd, Put (demo_cmd\<lparr>tile_id := 8\<rparr>), Get, Free 0, Put (demo_cmd\<lparr>tile_id := 9\<rparr>),
      Get, Get, Get, Free 1, Put demo_cmd, Put demo_cmd, Get] demo_ring2) =
   [Stored 0, Stored 1, Got (cmd_words demo_cmd), Freed, Stored 2, Got (cmd_words (demo_cmd\<lparr>tile_id := 8\<rparr>)),
    Got (cmd_words (demo_cmd\<lparr>tile_id := 9\<rparr>)), Empty, Freed, Stored 3]"
proof -
  let ?ops = "[Put demo_cmd, Put (demo_cmd\<lparr>tile_id := 8\<rparr>), Get, Free 0, Put (demo_cmd\<lparr>tile_id := 9\<rparr>),
      Get, Get, Get, Free 1, Put demo_cmd, Put demo_cmd, Get]"
  have "fst (run_ops fifo_do ?ops demo_ring2) = fst (map_prod id (map_option fifo_abs) (run_ops fifo_do ?ops demo_ring2))"
    by simp
  also have "\<dots> = fst (run_ops (queue_do 2 cmd_words) ?ops empty_queue)"
    using fifo_refines_queue[OF demo_create2, of ?ops] by (auto simp: demo_cmd_def)
  finally show ?thesis by (simp add: empty_queue_def)
qed

text \<open>
  The FIFO chosen for a lane exists, and it is the one that owns the lane's
  queue pair whenever the FIFOs cover all queue pairs.
\<close>

theorem select_fifo_owner:
  assumes "1 < num_fifos b" "num_fifos b < 2 ^ 31" "0 < global_num_qps b" "global_num_qps b < 2 ^ 31"
    and "0 < qps_per_fifo b" "qps_per_fifo b < 2 ^ 31"
    and "global_num_qps b \<le> num_fifos b * qps_per_fifo b"
  shows "int (select_fifo_index b lane) < num_fifos b \<and>
    int (select_fifo_index b lane) * qps_per_fifo b \<le> uint lane mod global_num_qps b \<and>
    uint lane mod global_num_qps b < (int (select_fifo_index b lane) + 1) * qps_per_fifo b"
proof -
  let ?q = "uint lane mod global_num_qps b"
  have q: "0 \<le> ?q" "?q < num_fifos b * qps_per_fifo b"
    using assms(3) less_le_trans[OF pos_mod_bound[OF assms(3)] assms(7)] by auto
  then have "?q div qps_per_fifo b < num_fifos b" using assms(5) by (intro div_less_of_mult)
  then have e: "int (select_fifo_index b lane) = ?q div qps_per_fifo b"
    using select_fifo_index_nat[OF assms(1-6), of lane] by simp
  show ?thesis
    unfolding e using \<open>?q div qps_per_fifo b < num_fifos b\<close> div_bounds[OF assms(5), of ?q] by blast
qed

theorem select_fifo_owner_witness:
  "let b = \<lparr>fifos = [0, 1, 2 :: nat], num_fifos = 3, global_num_qps = 8, logical_queues_per_qp = 1, qps_per_fifo = 3\<rparr>
   in int (select_fifo_index b 15) < 3 \<and> int (select_fifo_index b 15) * 3 \<le> 7 \<and>
      7 < (int (select_fifo_index b 15) + 1) * 3"
  using select_fifo_owner[of "\<lparr>fifos = [0, 1, 2 :: nat], num_fifos = 3, global_num_qps = 8,
    logical_queues_per_qp = 1, qps_per_fifo = 3\<rparr>" 15]
  by (simp add: Let_def)

end
