(* ===== verification/Rdma_Verbs.thy ===== *)
theory Rdma_Verbs
  imports Net_Types
begin

text \<open>
  The transport wrappers of \<^verbatim>\<open>include/comm/internode/rdma_transport.h\<close>: work
  requests, the two write helpers, the attributes of the queue pair transitions, the parsing of
  the GID index variable, and the TCP bootstrap loops. The verbs library, the sockets and the
  environment are parameters: what a call returned is an argument.
\<close>

section \<open>Work requests\<close>

record ibv_sge =
  sge_addr :: u64
  sge_length :: u32
  sge_lkey :: u32

datatype ibv_opcode = IBV_WR_NONE | IBV_WR_RDMA_WRITE

text \<open>
  \<open>next\<close> is the link as an index into the array the request lives in; a request whose
  \<open>sg_list\<close> is \<open>[]\<close> has \<open>num_sge = 0\<close>.
\<close>

record ibv_send_wr =
  wr_id :: u64
  next_wr :: "nat option"
  sg_list :: "ibv_sge list"
  opcode :: ibv_opcode
  send_inline :: bool
  send_signaled :: bool
  remote_addr :: u64
  rkey :: u32

definition zero_sge :: ibv_sge where
  "zero_sge = \<lparr>sge_addr = 0, sge_length = 0, sge_lkey = 0\<rparr>"

definition zero_wr :: ibv_send_wr where
  "zero_wr = \<lparr>wr_id = 0, next_wr = None, sg_list = [], opcode = IBV_WR_NONE, send_inline = False,
     send_signaled = False, remote_addr = 0, rkey = 0\<rparr>"

text \<open>
  What \<open>ibv_post_send\<close> is handed: the requests in the order of the \<open>next\<close> links from
  the first one. The fuel is the number of requests the array holds, so an acyclic chain is
  never cut.
\<close>

fun follow :: "ibv_send_wr list \<Rightarrow> nat \<Rightarrow> nat \<Rightarrow> ibv_send_wr list" where
  "follow ws 0 i = []"
| "follow ws (Suc n) i =
     (ws ! i # (case next_wr (ws ! i) of None \<Rightarrow> [] | Some j \<Rightarrow> follow ws n j))"

definition wr_chain :: "ibv_send_wr list \<Rightarrow> ibv_send_wr list" where
  "wr_chain ws = follow ws (length ws) 0"

text \<open>\<open>post_write\<close> and \<open>post_write_with_flag\<close>: the chain each of them posts.\<close>

definition post_write :: "u64 \<Rightarrow> u32 \<Rightarrow> u64 \<Rightarrow> u32 \<Rightarrow> u32 \<Rightarrow> u64 \<Rightarrow> bool \<Rightarrow> ibv_send_wr list" where
  "post_write local_addr lkey raddr rk len wid signaled =
     (let sge = \<lparr>sge_addr = local_addr, sge_length = len, sge_lkey = lkey\<rparr>
      in wr_chain [zero_wr\<lparr>wr_id := wid, sg_list := [sge], opcode := IBV_WR_RDMA_WRITE,
           send_signaled := signaled, remote_addr := raddr, rkey := rk, next_wr := None\<rparr>])"

definition post_write_with_flag ::
    "u64 \<Rightarrow> u32 \<Rightarrow> u64 \<Rightarrow> u32 \<Rightarrow> u32 \<Rightarrow> u64 \<Rightarrow> u32 \<Rightarrow> u64 \<Rightarrow> u32 \<Rightarrow> u64 \<Rightarrow> ibv_send_wr list" where
  "post_write_with_flag data_laddr data_lkey data_raddr data_rkey data_len
       flag_laddr flag_lkey flag_raddr flag_rkey wid =
     (let sge_data = \<lparr>sge_addr = data_laddr, sge_length = data_len, sge_lkey = data_lkey\<rparr>;
          sge_flag = \<lparr>sge_addr = flag_laddr, sge_length = 4, sge_lkey = flag_lkey\<rparr>;
          wr_flag = zero_wr\<lparr>wr_id := wid, sg_list := [sge_flag], opcode := IBV_WR_RDMA_WRITE,
            send_signaled := True, remote_addr := flag_raddr, rkey := flag_rkey, next_wr := None\<rparr>;
          wr_data = zero_wr\<lparr>wr_id := wid, sg_list := [sge_data], opcode := IBV_WR_RDMA_WRITE,
            send_signaled := False, remote_addr := data_raddr, rkey := data_rkey, next_wr := Some 1\<rparr>
      in wr_chain [wr_data, wr_flag])"

section \<open>Devices and queue pairs\<close>

text \<open>\<open>RDMA_CHECK\<close>: the exception carries the message.\<close>

definition rdma_check :: "bool \<Rightarrow> string \<Rightarrow> 'a \<Rightarrow> string + 'a" where
  "rdma_check cond msg v = (if cond then Inr v else Inl (''RDMA: '' @ msg))"

text \<open>
  \<open>open_device\<close>: \<open>names\<close> is the device list (\<open>None\<close> when the query failed) and \<open>opens\<close> says
  whether \<open>ibv_open_device\<close> succeeds. The result is the index of the device opened.
\<close>

fun find_device :: "string \<Rightarrow> nat \<Rightarrow> string list \<Rightarrow> nat option" where
  "find_device name i [] = None"
| "find_device name i (d # ds) = (if d = name then Some i else find_device name (Suc i) ds)"

definition open_device :: "string list option \<Rightarrow> (nat \<Rightarrow> bool) \<Rightarrow> string \<Rightarrow> string + nat" where
  "open_device names opens name =
     (case names of
        None \<Rightarrow> Inl ''RDMA: no IB devices found''
      | Some ds \<Rightarrow>
          if ds = [] then Inl ''RDMA: no IB devices found''
          else case find_device name 0 ds of
                 None \<Rightarrow> Inl (''RDMA: device not found: '' @ name)
               | Some i \<Rightarrow> rdma_check (opens i) ''ibv_open_device failed'' i)"

datatype qp_state = QPS_RESET | QPS_INIT | QPS_RTR | QPS_RTS

record qp_init_attr =
  qi_send_cq :: nat
  qi_recv_cq :: nat
  qi_max_send_wr :: int
  qi_max_recv_wr :: int
  qi_max_send_sge :: int
  qi_max_recv_sge :: int
  qi_max_inline_data :: int

text \<open>\<open>ok\<close> says whether the verbs call returned an object.\<close>

definition create_rc_qp :: "bool \<Rightarrow> nat \<Rightarrow> int \<Rightarrow> int \<Rightarrow> string + qp_init_attr" where
  "create_rc_qp ok send_cq sq_depth max_send_sge =
     rdma_check ok ''ibv_create_qp(RC) failed''
       \<lparr>qi_send_cq = send_cq, qi_recv_cq = send_cq, qi_max_send_wr = sq_depth, qi_max_recv_wr = 1,
        qi_max_send_sge = max_send_sge, qi_max_recv_sge = 1, qi_max_inline_data = 64\<rparr>"

definition alloc_pd :: "bool \<Rightarrow> string + unit" where
  "alloc_pd ok = rdma_check ok ''ibv_alloc_pd failed'' ()"

definition create_cq :: "bool \<Rightarrow> int \<Rightarrow> string + int" where
  "create_cq ok cqe = rdma_check ok ''ibv_create_cq failed'' cqe"

definition reg_mr :: "'mr option \<Rightarrow> string + 'mr" where
  "reg_mr mr = (case mr of None \<Rightarrow> Inl ''RDMA: ibv_reg_mr failed'' | Some m \<Rightarrow> Inr m)"

datatype qp_mask = M_STATE | M_PKEY_INDEX | M_PORT | M_QKEY | M_ACCESS_FLAGS | M_AV | M_PATH_MTU | M_DEST_QPN | M_RQ_PSN
  | M_MAX_DEST_RD_ATOMIC | M_MIN_RNR_TIMER | M_TIMEOUT | M_RETRY_CNT | M_RNR_RETRY | M_SQ_PSN | M_MAX_QP_RD_ATOMIC

datatype access_flag = LOCAL_WRITE | REMOTE_WRITE | REMOTE_READ

record qp_attr =
  qa_state :: qp_state
  qa_pkey_index :: u16
  qa_access :: "access_flag list"
  qa_port :: u8
  qa_path_mtu :: nat
  qa_dest_qp_num :: u32
  qa_rq_psn :: u32
  qa_sq_psn :: u32
  qa_max_dest_rd_atomic :: u8
  qa_max_rd_atomic :: u8
  qa_min_rnr_timer :: u8
  qa_timeout :: u8
  qa_retry_cnt :: u8
  qa_rnr_retry :: u8
  qa_dlid :: u16
  qa_ah_port :: u8
  qa_is_global :: bool
  qa_dgid :: "u8 list"
  qa_sgid_index :: int
  qa_hop_limit :: u8

definition zero_qp_attr :: qp_attr where
  "zero_qp_attr = \<lparr>qa_state = QPS_RESET, qa_pkey_index = 0, qa_access = [], qa_port = 0, qa_path_mtu = 0,
     qa_dest_qp_num = 0, qa_rq_psn = 0, qa_sq_psn = 0, qa_max_dest_rd_atomic = 0, qa_max_rd_atomic = 0,
     qa_min_rnr_timer = 0, qa_timeout = 0, qa_retry_cnt = 0, qa_rnr_retry = 0, qa_dlid = 0, qa_ah_port = 0,
     qa_is_global = False, qa_dgid = replicate 16 0, qa_sgid_index = 0, qa_hop_limit = 0\<rparr>"

text \<open>
  The three transitions: the attributes and the mask handed to \<open>ibv_modify_qp\<close>, whose result is
  \<open>ret\<close>.
\<close>

definition modify_qp_init :: "int \<Rightarrow> u8 \<Rightarrow> string + qp_attr \<times> qp_mask list" where
  "modify_qp_init ret port =
     rdma_check (ret = 0) ''modify_qp_init failed''
       (zero_qp_attr\<lparr>qa_state := QPS_INIT, qa_pkey_index := 0, qa_port := port,
          qa_access := [LOCAL_WRITE, REMOTE_WRITE, REMOTE_READ]\<rparr>,
        [M_STATE, M_PKEY_INDEX, M_PORT, M_ACCESS_FLAGS])"

definition has_gid :: "u8 list \<Rightarrow> bool" where
  "has_gid gid \<longleftrightarrow> (\<exists>i \<in> set [0..<16]. gid ! i \<noteq> 0)"

definition modify_qp_rtr :: "int \<Rightarrow> int \<Rightarrow> ConnectionInfo \<Rightarrow> u8 \<Rightarrow> string + qp_attr \<times> qp_mask list" where
  "modify_qp_rtr ret gid_index remote port =
     (let a = zero_qp_attr\<lparr>qa_state := QPS_RTR, qa_path_mtu := 4096, qa_dest_qp_num := ci_qp_num remote,
            qa_rq_psn := ci_psn remote, qa_max_dest_rd_atomic := 1, qa_min_rnr_timer := 12,
            qa_dlid := ci_lid remote, qa_ah_port := port\<rparr>;
          a' = (if has_gid (ci_gid remote)
                then a\<lparr>qa_is_global := True, qa_dgid := ci_gid remote, qa_sgid_index := gid_index,
                       qa_hop_limit := 64\<rparr>
                else a)
      in rdma_check (ret = 0) ''modify_qp_rtr failed''
           (a', [M_STATE, M_AV, M_PATH_MTU, M_DEST_QPN, M_RQ_PSN, M_MAX_DEST_RD_ATOMIC, M_MIN_RNR_TIMER]))"

definition modify_qp_rts :: "int \<Rightarrow> u32 \<Rightarrow> string + qp_attr \<times> qp_mask list" where
  "modify_qp_rts ret local_psn =
     rdma_check (ret = 0) ''modify_qp_rts failed''
       (zero_qp_attr\<lparr>qa_state := QPS_RTS, qa_timeout := 14, qa_retry_cnt := 7, qa_rnr_retry := 7,
          qa_sq_psn := local_psn, qa_max_rd_atomic := 1\<rparr>,
        [M_STATE, M_TIMEOUT, M_RETRY_CNT, M_RNR_RETRY, M_SQ_PSN, M_MAX_QP_RD_ATOMIC])"

text \<open>\<open>fill_local_info\<close>: the port's LID and the GID at the configured index are what the queries returned.\<close>

definition fill_local_info :: "u32 \<Rightarrow> u16 \<Rightarrow> (int \<Rightarrow> u8 list) \<Rightarrow> int \<Rightarrow> ConnectionInfo \<Rightarrow> ConnectionInfo" where
  "fill_local_info qp_num lid gid_at gid_index info =
     info\<lparr>ci_qp_num := qp_num, ci_psn := 0, ci_lid := lid, ci_gid := gid_at gid_index\<rparr>"

section \<open>Registering GPU memory\<close>

text \<open>
  \<^verbatim>\<open>rdma_gpu_mr.cuh\<close>: what each attempt of the two export paths and of \<open>ibv_reg_mr\<close> returned. A
  file descriptor is usable when the call succeeded and it is not negative.
\<close>

record 'mr mr_calls =
  mc_range_fd :: "int option"
  mc_range_mr :: "'mr option"
  mc_retained :: bool
  mc_export_fd :: "int option"
  mc_retain_mr :: "'mr option"
  mc_reg_mr :: "'mr option"

definition usable_fd :: "int option \<Rightarrow> bool" where
  "usable_fd fd = (case fd of None \<Rightarrow> False | Some n \<Rightarrow> n \<ge> 0)"

definition register_gpu_buffer_dmabuf_only :: "'mr mr_calls \<Rightarrow> ('mr \<times> string) option" where
  "register_gpu_buffer_dmabuf_only m =
     (case (if usable_fd (mc_range_fd m) then mc_range_mr m else None) of
        Some mr \<Rightarrow> Some (mr, ''addr_range'')
      | None \<Rightarrow>
          (case (if mc_retained m \<and> usable_fd (mc_export_fd m) then mc_retain_mr m else None) of
             Some mr \<Rightarrow> Some (mr, ''retain'')
           | None \<Rightarrow> None))"

text \<open>\<open>None\<close>: the process exits.\<close>

definition register_gpu_buffer :: "'mr mr_calls \<Rightarrow> 'mr option" where
  "register_gpu_buffer m =
     (if usable_fd (mc_range_fd m) \<and> mc_range_mr m \<noteq> None then mc_range_mr m
      else if mc_retained m \<and> usable_fd (mc_export_fd m) \<and> mc_retain_mr m \<noteq> None then mc_retain_mr m
      else mc_reg_mr m)"

record 'mr GpuRdmaBuffer =
  gb_ptr :: u64
  gb_size :: u64
  gb_mr :: "'mr option"

definition alloc_and_register :: "u64 option \<Rightarrow> 'mr mr_calls \<Rightarrow> u64 \<Rightarrow> 'mr GpuRdmaBuffer option" where
  "alloc_and_register ptr m n =
     (case ptr of
        None \<Rightarrow> None
      | Some p \<Rightarrow>
          (case register_gpu_buffer m of
             None \<Rightarrow> None
           | Some mr \<Rightarrow> Some \<lparr>gb_ptr = p, gb_size = n, gb_mr = Some mr\<rparr>))"

section \<open>Device names\<close>

definition is_prefix_of :: "string \<Rightarrow> string \<Rightarrow> bool" where
  "is_prefix_of p s \<longleftrightarrow> take (length p) s = p"

text \<open>Byte-wise order of names, as \<open>std::string\<close> compares, and the sort by name.\<close>

fun name_le :: "string \<Rightarrow> string \<Rightarrow> bool" where
  "name_le [] t = True"
| "name_le (c # s) [] = False"
| "name_le (c # s) (d # t) =
     (if (of_char c :: nat) = of_char d then name_le s t else (of_char c :: nat) < of_char d)"

fun insert_by_name :: "('d \<Rightarrow> string) \<Rightarrow> 'd \<Rightarrow> 'd list \<Rightarrow> 'd list" where
  "insert_by_name f n [] = [n]"
| "insert_by_name f n (m # ms) = (if name_le (f n) (f m) then n # m # ms else m # insert_by_name f n ms)"

definition sort_by_name :: "('d \<Rightarrow> string) \<Rightarrow> 'd list \<Rightarrow> 'd list" where
  "sort_by_name f ns = foldr (insert_by_name f) ns []"

lemma insert_by_name_props:
  "set (insert_by_name f n ms) = insert n (set ms)" "length (insert_by_name f n ms) = Suc (length ms)"
  "distinct (map f (insert_by_name f n ms)) \<longleftrightarrow> f n \<notin> f ` set ms \<and> distinct (map f ms)"
proof -
  show st: "set (insert_by_name f n ms) = insert n (set ms)" for ms by (induction ms) auto
  show "length (insert_by_name f n ms) = Suc (length ms)" by (induction ms) auto
  show "distinct (map f (insert_by_name f n ms)) \<longleftrightarrow> f n \<notin> f ` set ms \<and> distinct (map f ms)"
    by (induction ms) (auto simp: st)
qed

lemma sort_by_name_props [simp]:
  "set (sort_by_name f ns) = set ns" "length (sort_by_name f ns) = length ns"
  "distinct (map f (sort_by_name f ns)) \<longleftrightarrow> distinct (map f ns)"
  unfolding sort_by_name_def
proof -
  show st: "set (foldr (insert_by_name f) ns []) = set ns" for ns
    by (induction ns) (auto simp: insert_by_name_props)
  show "length (foldr (insert_by_name f) ns []) = length ns"
    by (induction ns) (auto simp: insert_by_name_props)
  show "distinct (map f (foldr (insert_by_name f) ns [])) \<longleftrightarrow> distinct (map f ns)"
    by (induction ns) (auto simp: insert_by_name_props st)
qed

section \<open>Integers from the environment\<close>

definition is_digit :: "char \<Rightarrow> bool" where
  "is_digit c \<longleftrightarrow> of_char c \<ge> (48 :: nat) \<and> of_char c \<le> (57 :: nat)"

definition digit_val :: "char \<Rightarrow> int" where
  "digit_val c = of_char c - 48"

definition is_space :: "char \<Rightarrow> bool" where
  "is_space c \<longleftrightarrow> of_char c = (32 :: nat) \<or> (of_char c \<ge> (9 :: nat) \<and> of_char c \<le> (13 :: nat))"

definition digits_val :: "string \<Rightarrow> int" where
  "digits_val ds = fold (\<lambda>c v. 10 * v + digit_val c) ds 0"

definition long_max :: int where "long_max = 2 ^ 63 - 1"
definition long_min :: int where "long_min = - (2 ^ 63)"

text \<open>
  \<open>strtol\<close> in base 10: the value, saturated to \<open>long\<close>, or \<open>None\<close> when no digits were
  found (\<open>end == str\<close>).
\<close>

definition strtol10 :: "string \<Rightarrow> int option" where
  "strtol10 s =
     (let body = dropWhile is_space s;
          neg = (case body of [] \<Rightarrow> False | c # _ \<Rightarrow> c = CHR ''-'');
          rest = (case body of [] \<Rightarrow> [] | c # cs \<Rightarrow> if c = CHR ''-'' \<or> c = CHR ''+'' then cs else body);
          ds = takeWhile is_digit rest
      in if ds = [] then None
         else Some (max long_min (min long_max (if neg then - digits_val ds else digits_val ds))))"

text \<open>\<open>env\<close> is what \<open>getenv\<close> returned.\<close>

definition roce_gid_index :: "string option \<Rightarrow> int" where
  "roce_gid_index env =
     (case env of
        None \<Rightarrow> 0
      | Some s \<Rightarrow>
          if s = [] then 0
          else case strtol10 s of
                 None \<Rightarrow> 0
               | Some v \<Rightarrow> if v < 0 \<or> v > 255 then 0 else v)"

section \<open>TCP bootstrap\<close>

text \<open>
  \<open>send_all\<close> and \<open>recv_all\<close>: \<open>rets\<close> lists what successive calls of \<open>send\<close> or
  \<open>recv\<close> return, each at most the number of bytes asked for. The result is the bytes moved,
  \<open>Inl\<close> the exception on a return of zero or less. A loop that needs more calls than
  \<open>rets\<close> has is still waiting (\<open>Inr None\<close>).
\<close>

fun send_all_from :: "u8 list \<Rightarrow> nat \<Rightarrow> int list \<Rightarrow> u8 list \<Rightarrow> string + u8 list option" where
  "send_all_from buf sent rets wire =
     (if sent < length buf then
        (case rets of
           [] \<Rightarrow> Inr None
         | n # rs \<Rightarrow>
             if n > 0 then
               send_all_from buf (sent + nat n) rs (wire @ take (nat n) (drop sent buf))
             else Inl ''RDMA: TCP send failed'')
      else Inr (Some wire))"

declare send_all_from.simps [simp del]

definition send_all :: "u8 list \<Rightarrow> int list \<Rightarrow> string + u8 list option" where
  "send_all buf rets = send_all_from buf 0 rets []"

fun recv_all_from :: "nat \<Rightarrow> u8 list \<Rightarrow> int list \<Rightarrow> u8 list \<Rightarrow> string + (u8 list \<times> u8 list) option" where
  "recv_all_from len buf rets wire =
     (if length buf < len then
        (case rets of
           [] \<Rightarrow> Inr None
         | n # rs \<Rightarrow>
             if n > 0 then
               recv_all_from len (buf @ take (nat n) wire) rs (drop (nat n) wire)
             else Inl ''RDMA: TCP recv failed'')
      else Inr (Some (buf, wire)))"

declare recv_all_from.simps [simp del]

text \<open>\<open>recv_all\<close> fills \<open>len\<close> bytes from the stream and leaves the rest of it.\<close>

definition recv_all :: "nat \<Rightarrow> u8 list \<Rightarrow> int list \<Rightarrow> string + (u8 list \<times> u8 list) option" where
  "recv_all len wire rets = recv_all_from len [] rets wire"

text \<open>
  The client's connect loop: \<open>conn\<close> and \<open>sock\<close> say whether attempt \<open>k\<close>'s
  \<open>connect\<close> and the re-created socket succeed. The result is the attempt that connected.
\<close>

definition max_retries :: nat where "max_retries = 1200"

function connect_from :: "(nat \<Rightarrow> bool) \<Rightarrow> (nat \<Rightarrow> bool) \<Rightarrow> nat \<Rightarrow> string + nat" where
  "connect_from conn sock attempt =
     (if attempt < max_retries then
        if conn attempt then Inr attempt
        else if sock attempt then connect_from conn sock (Suc attempt)
        else Inl ''RDMA: socket() retry failed''
      else Inl ''RDMA: TCP connect failed after 120s of retries'')"
  by pat_completeness auto
termination
  by (relation "measure (\<lambda>(c, s, k). max_retries - k)") auto

declare connect_from.simps [simp del]

text \<open>
  \<open>exchange_info_tcp\<close> over the results of its socket calls: both sides send their record, then
  receive the peer's. The result is what went out and what came in, \<open>None\<close> while a call waits.
\<close>

record tcp_calls =
  tc_socket :: bool
  tc_bind :: bool
  tc_listen :: bool
  tc_accept :: bool
  tc_connect :: "nat \<Rightarrow> bool"
  tc_resocket :: "nat \<Rightarrow> bool"
  tc_send :: "int list"
  tc_recv :: "int list"

definition tcp_transfer :: "u8 list \<Rightarrow> u8 list \<Rightarrow> tcp_calls \<Rightarrow> string + (u8 list \<times> u8 list) option" where
  "tcp_transfer local_info wire k =
     (case send_all local_info (tc_send k) of
        Inl e \<Rightarrow> Inl e
      | Inr None \<Rightarrow> Inr None
      | Inr (Some out) \<Rightarrow>
          (case recv_all (length local_info) wire (tc_recv k) of
             Inl e \<Rightarrow> Inl e
           | Inr None \<Rightarrow> Inr None
           | Inr (Some (remote, rest)) \<Rightarrow> Inr (Some (out, remote))))"

definition exchange_info_tcp :: "u8 list \<Rightarrow> u8 list \<Rightarrow> bool \<Rightarrow> tcp_calls \<Rightarrow> string + (u8 list \<times> u8 list) option" where
  "exchange_info_tcp local_info wire is_server k =
     (if is_server then
        if \<not> tc_socket k then Inl ''RDMA: socket() failed''
        else if \<not> tc_bind k then Inl ''RDMA: bind() failed''
        else if \<not> tc_listen k then Inl ''RDMA: listen() failed''
        else if \<not> tc_accept k then Inl ''RDMA: accept() failed''
        else tcp_transfer local_info wire k
      else
        if \<not> tc_socket k then Inl ''RDMA: socket() failed''
        else case connect_from (tc_connect k) (tc_resocket k) 0 of
               Inl e \<Rightarrow> Inl e
             | Inr attempt \<Rightarrow> tcp_transfer local_info wire k)"

section \<open>Lemmas\<close>

lemma post_write_chain [wr_simps]:
  "map remote_addr (post_write la lk ra rk n w sg) = [ra]"
  by (simp add: post_write_def wr_chain_def)

text \<open>The data request precedes the flag request, and only the flag asks for a completion.\<close>

lemma post_write_with_flag_chain:
  "map remote_addr (post_write_with_flag a b ra rk n fa fl fra frk w) = [ra, fra]"
  "map send_signaled (post_write_with_flag a b ra rk n fa fl fra frk w) = [False, True]"
  by (simp_all add: post_write_with_flag_def wr_chain_def Let_def numeral_2_eq_2)

lemma roce_gid_index_range: "0 \<le> roce_gid_index env \<and> roce_gid_index env \<le> 255"
  by (auto simp: roce_gid_index_def split: option.splits)

lemma send_all_from_prefix:
  assumes "send_all_from buf sent rets wire = Inr (Some w)" "wire = take sent buf"
    and "sent \<le> length buf"
  shows "w = buf"
  using assms
proof (induction buf sent rets wire rule: send_all_from.induct)
  case (1 buf sent rets wire)
  show ?case
  proof (cases "sent < length buf")
    case True
    then obtain n rs where r: "rets = n # rs" and n: "n > 0"
      using "1.prems"(1) by (auto simp: send_all_from.simps[of buf] split: list.splits if_splits)
    have step: "send_all_from buf (sent + nat n) rs (wire @ take (nat n) (drop sent buf)) = Inr (Some w)"
      using "1.prems"(1) True r n by (simp add: send_all_from.simps[of buf sent])
    have pre: "wire @ take (nat n) (drop sent buf) = take (sent + nat n) buf"
      using "1.prems"(2) by (simp add: take_add)
    show ?thesis
    proof (cases "sent + nat n \<le> length buf")
      case le: True
      show ?thesis by (rule "1.IH"[OF True r n step pre le])
    next
      case False
      then have "wire @ take (nat n) (drop sent buf) = buf" using pre by simp
      then show ?thesis using step False by (simp add: send_all_from.simps[of buf "sent + nat n"])
    qed
  next
    case False
    then show ?thesis using 1 by (simp add: send_all_from.simps[of buf])
  qed
qed

lemma send_all_exact: "send_all buf rets = Inr (Some w) \<Longrightarrow> w = buf"
  unfolding send_all_def using send_all_from_prefix[of buf 0 rets "[]" w] by simp

text \<open>Each call returns between one byte and the bytes still missing.\<close>

fun recv_sane :: "nat \<Rightarrow> nat \<Rightarrow> int list \<Rightarrow> bool" where
  "recv_sane missing avail [] = True"
| "recv_sane missing avail (n # rs) =
     (missing = 0 \<or> (n \<le> int (min missing avail) \<and> recv_sane (missing - nat n) (avail - nat n) rs))"

lemma recv_all_from_exact:
  assumes "recv_all_from len buf rets wire = Inr (Some (b, rest))"
    and "length buf \<le> len" "recv_sane (len - length buf) (length wire) rets"
  shows "length b = len \<and> b @ rest = buf @ wire"
  using assms
proof (induction len buf rets wire rule: recv_all_from.induct)
  case (1 len buf rets wire)
  show ?case
  proof (cases "length buf < len")
    case True
    then obtain n rs where r: "rets = n # rs" and n: "n > 0"
      using "1.prems"(1) by (auto simp: recv_all_from.simps[of len buf] split: list.splits if_splits)
    have step: "recv_all_from len (buf @ take (nat n) wire) rs (drop (nat n) wire) = Inr (Some (b, rest))"
      using "1.prems"(1) True r n by (simp add: recv_all_from.simps[of len buf])
    have s: "n \<le> int (len - length buf)" "n \<le> int (length wire)"
      "recv_sane (len - length buf - nat n) (length wire - nat n) rs"
      using "1.prems"(3) True r by auto
    have "length b = len \<and> b @ rest = (buf @ take (nat n) wire) @ drop (nat n) wire"
      by (rule "1.IH"[OF True r n step]) (use s n in auto)
    then show ?thesis by simp
  next
    case False
    then show ?thesis using 1 by (simp add: recv_all_from.simps[of len buf])
  qed
qed

lemma connect_from_result:
  assumes "k \<le> max_retries"
  shows "connect_from conn sock k = Inr a \<longleftrightarrow>
    k \<le> a \<and> a < max_retries \<and> conn a \<and> (\<forall>j. k \<le> j \<and> j < a \<longrightarrow> \<not> conn j \<and> sock j)"
  using assms
proof (induction conn sock k rule: connect_from.induct)
  case (1 conn sock k)
  show ?case
  proof (cases "k < max_retries \<and> \<not> conn k \<and> sock k")
    case True
    then have "connect_from conn sock k = Inr a \<longleftrightarrow> connect_from conn sock (Suc k) = Inr a"
      by (simp add: connect_from.simps[of conn sock k])
    then show ?thesis using 1 True
      by (auto simp: Suc_le_eq le_less) (metis not_less_eq not_less_iff_gr_or_eq less_Suc_eq)+
  next
    case False
    then show ?thesis
      using "1.prems" by (auto simp: connect_from.simps[of conn sock k] le_less)
  qed
qed

lemma find_device_first:
  assumes "find_device name i ds = Some j"
  shows "i \<le> j \<and> j - i < length ds \<and> ds ! (j - i) = name \<and> name \<notin> set (take (j - i) ds)"
  using assms
proof (induction ds arbitrary: i)
  case (Cons d ds)
  show ?case
  proof (cases "d = name")
    case True
    then show ?thesis using Cons.prems by simp
  next
    case False
    then have "find_device name (Suc i) ds = Some j" using Cons.prems by simp
    from Cons.IH[OF this] have r: "Suc i \<le> j" "j - Suc i < length ds" "ds ! (j - Suc i) = name"
      "name \<notin> set (take (j - Suc i) ds)" by auto
    have "j - i = Suc (j - Suc i)" using r(1) by simp
    then show ?thesis using r False by simp
  qed
qed simp

lemma find_device_none: "find_device name i ds = None \<longleftrightarrow> name \<notin> set ds"
  by (induction ds arbitrary: i) auto

lemma recv_all_prefix:
  assumes "recv_all len (sent @ after) rets = Inr (Some (b, rest))" "length sent = len"
    and "recv_sane len (length (sent @ after)) rets"
  shows "b = sent"
proof -
  have "length b = len \<and> b @ rest = [] @ sent @ after"
    using assms(1,3) unfolding recv_all_def by (intro recv_all_from_exact) simp_all
  then show ?thesis using assms(2) by (metis append_Nil append_eq_append_conv)
qed

lemma tcp_transfer_exact:
  assumes "tcp_transfer mine (theirs @ after) k = Inr (Some (out, inn))" "length theirs = length mine"
    and "recv_sane (length mine) (length (theirs @ after)) (tc_recv k)"
  shows "out = mine \<and> inn = theirs"
proof -
  obtain o' where o': "send_all mine (tc_send k) = Inr (Some o')"
    using assms(1) by (auto simp: tcp_transfer_def split: sum.splits option.splits)
  obtain b rest where b: "recv_all (length mine) (theirs @ after) (tc_recv k) = Inr (Some (b, rest))"
    using assms(1) o' by (auto simp: tcp_transfer_def split: sum.splits option.splits)
  have "out = o'" "inn = b" using assms(1) o' b by (simp_all add: tcp_transfer_def)
  then show ?thesis using send_all_exact[OF o'] recv_all_prefix[OF b assms(2,3)] by simp
qed

section \<open>Properties\<close>

text \<open>
  When the exchange returns on both sides, each has the record of the other,
  byte for byte, however \<open>send\<close> and \<open>recv\<close> cut the streams into pieces. What a side reads
  starts with what the other one wrote; \<open>recv_sane\<close> says that \<open>recv\<close> never returns after than
  was asked for or is there.
\<close>

theorem tcp_exchange_delivers:
  assumes "exchange_info_tcp server_info (client_info @ x) True ks = Inr (Some (out_s, in_s))"
    and "exchange_info_tcp client_info (server_info @ y) False kc = Inr (Some (out_c, in_c))"
    and "length client_info = length server_info"
    and "recv_sane (length server_info) (length (client_info @ x)) (tc_recv ks)"
    and "recv_sane (length client_info) (length (server_info @ y)) (tc_recv kc)"
  shows "in_s = client_info \<and> in_c = server_info \<and> out_s = server_info \<and> out_c = client_info"
proof -
  have s: "tcp_transfer server_info (client_info @ x) ks = Inr (Some (out_s, in_s))"
    using assms(1) by (auto simp: exchange_info_tcp_def split: if_splits)
  have c: "tcp_transfer client_info (server_info @ y) kc = Inr (Some (out_c, in_c))"
    using assms(2) by (auto simp: exchange_info_tcp_def split: if_splits sum.splits)
  show ?thesis
    using tcp_transfer_exact[OF s assms(3,4)] tcp_transfer_exact[OF c assms(3)[symmetric] assms(5)] by simp
qed

definition demo_calls :: tcp_calls where
  "demo_calls = \<lparr>tc_socket = True, tc_bind = True, tc_listen = True, tc_accept = True, tc_connect = (\<lambda>k. k = 3),
     tc_resocket = (\<lambda>_. True), tc_send = [1, 2], tc_recv = [2, 1]\<rparr>"

lemma demo_connect: "connect_from (\<lambda>k. k = 3) (\<lambda>_. True) 0 = Inr 3"
  by (subst connect_from_result) (auto simp: max_retries_def)

theorem tcp_exchange_delivers_witness:
  "exchange_info_tcp [1, 2, 3] ([4, 5, 6] @ []) True demo_calls = Inr (Some ([1, 2, 3], [4, 5, 6])) \<and>
   exchange_info_tcp [4, 5, 6] ([1, 2, 3] @ []) False demo_calls = Inr (Some ([4, 5, 6], [1, 2, 3]))"
proof -
  have r: "\<exists>a b. exchange_info_tcp [1, 2, 3] ([4, 5, 6] @ []) True demo_calls = Inr (Some (a, b))"
    "\<exists>a b. exchange_info_tcp [4, 5, 6] ([1, 2, 3] @ []) False demo_calls = Inr (Some (a, b))"
    by (simp_all add: exchange_info_tcp_def demo_calls_def demo_connect tcp_transfer_def send_all_def recv_all_def
        send_all_from.simps recv_all_from.simps)
  have "recv_sane (length [1, 2, 3 :: u8]) (length ([4, 5, 6] @ [] :: u8 list)) (tc_recv demo_calls)"
    "recv_sane (length [4, 5, 6 :: u8]) (length ([1, 2, 3] @ [] :: u8 list)) (tc_recv demo_calls)"
    by (simp_all add: demo_calls_def)
  then show ?thesis using r tcp_exchange_delivers[of "[1, 2, 3]" "[4, 5, 6]" "[]" demo_calls _ _ "[]" demo_calls] by force
qed

text \<open>
  Registering with a fallback is registering by DMA-BUF only, with
  \<open>ibv_reg_mr\<close> tried exactly when that gives nothing.
\<close>

theorem register_gpu_buffer_fallback:
  "register_gpu_buffer m =
    (case register_gpu_buffer_dmabuf_only m of Some (mr, path) \<Rightarrow> Some mr | None \<Rightarrow> mc_reg_mr m)"
  by (auto simp: register_gpu_buffer_def register_gpu_buffer_dmabuf_only_def split: option.splits)

text \<open>
  The client connects at the first attempt that is accepted, at most the 1200th,
  and only if every earlier attempt got a new socket; otherwise it fails.
\<close>

theorem connect_first_success:
  "connect_from conn sock 0 = Inr a \<longleftrightarrow>
    a < max_retries \<and> conn a \<and> list_all (\<lambda>j. \<not> conn j \<and> sock j) [0..<a]"
  using connect_from_result[of 0 conn sock a] by (auto simp: list_all_iff)

end
