(* ===== verification/Proxy_Diag.thy ===== *)
theory Proxy_Diag
  imports MKernel_Prelude
begin

text \<open>
  The counters of \<^verbatim>\<open>include/comm/internode/proxy_diagnostics.h\<close> and the updates the
  two proxies make to them. The counters do not influence what the proxies post; they are
  modelled because their values are read back through the Python interface.
\<close>

definition int64_min :: int where "int64_min = - (2 ^ 63)"
definition int64_max :: int where "int64_max = 2 ^ 63 - 1"

record ProxyTimestamps =
  proxy_start_ns :: u64
  ts_first_cmd_ns :: u64
  ts_first_post_ns :: u64
  ts_first_completion_ns :: u64
  recorded :: bool

definition ts_reset :: ProxyTimestamps where
  "ts_reset = \<lparr>proxy_start_ns = 0, ts_first_cmd_ns = 0, ts_first_post_ns = 0,
     ts_first_completion_ns = 0, recorded = False\<rparr>"

record ProxyDiagnostics =
  dg_qp_base_idx :: int
  dg_num_qps :: int
  loops :: u64
  empty_loops :: u64
  full_batches :: u64
  partial_batches :: u64
  inflight_limited_loops :: u64
  batches_posted :: u64
  cmds_posted :: u64
  cmds_completed :: u64
  backlog_samples :: u64
  backlog_nonzero_loops :: u64
  backlog_gt_batch_loops :: u64
  backlog_sum :: u64
  backlog_max :: u64
  batch_cmd_to_post_count :: u64
  batch_cmd_to_post_sum_ns :: u64
  batch_cmd_to_post_max_ns :: u64
  batch_completion_count :: u64
  batch_completion_sum_ns :: u64
  batch_completion_max_ns :: u64
  enqueue_to_seen_count :: u64
  enqueue_to_seen_raw_sum_ns :: int
  enqueue_to_seen_raw_max_ns :: int
  enqueue_to_seen_raw_min_ns :: int
  loop_gap_max_ns :: u64
  loop_gap_over_100us :: u64
  loop_gap_over_1ms :: u64
  first_cmd_ns :: u64
  last_cmd_ns :: u64
  first_post_ns :: u64
  last_post_ns :: u64
  first_completion_ns :: u64
  last_completion_ns :: u64

definition diag_reset :: ProxyDiagnostics where
  "diag_reset = \<lparr>dg_qp_base_idx = 0, dg_num_qps = 0, loops = 0, empty_loops = 0, full_batches = 0,
     partial_batches = 0, inflight_limited_loops = 0, batches_posted = 0, cmds_posted = 0,
     cmds_completed = 0, backlog_samples = 0, backlog_nonzero_loops = 0,
     backlog_gt_batch_loops = 0, backlog_sum = 0, backlog_max = 0,
     batch_cmd_to_post_count = 0, batch_cmd_to_post_sum_ns = 0, batch_cmd_to_post_max_ns = 0,
     batch_completion_count = 0, batch_completion_sum_ns = 0, batch_completion_max_ns = 0,
     enqueue_to_seen_count = 0, enqueue_to_seen_raw_sum_ns = 0,
     enqueue_to_seen_raw_max_ns = int64_min, enqueue_to_seen_raw_min_ns = int64_max,
     loop_gap_max_ns = 0, loop_gap_over_100us = 0, loop_gap_over_1ms = 0, first_cmd_ns = 0,
     last_cmd_ns = 0, first_post_ns = 0, last_post_ns = 0, first_completion_ns = 0,
     last_completion_ns = 0\<rparr>"

record ProxyTimeline =
  tl_signaled_post_ns :: "u64 list"
  tl_completion_ns :: "u64 list"

section \<open>Updates made by the proxy loops\<close>

text \<open>The gap between two iterations of the loop.\<close>

definition note_loop_gap :: "u64 \<Rightarrow> u64 \<Rightarrow> ProxyDiagnostics \<Rightarrow> ProxyDiagnostics" where
  "note_loop_gap prev_ns now_ns d =
     (if prev_ns \<noteq> 0 \<and> now_ns \<ge> prev_ns then
        let gap = now_ns - prev_ns;
            d1 = (if gap > loop_gap_max_ns d then d\<lparr>loop_gap_max_ns := gap\<rparr> else d);
            d2 = (if gap \<ge> 100000 then d1\<lparr>loop_gap_over_100us := loop_gap_over_100us d1 + 1\<rparr> else d1)
        in if gap \<ge> 1000000 then d2\<lparr>loop_gap_over_1ms := loop_gap_over_1ms d2 + 1\<rparr> else d2
      else d)"

text \<open>The latency from the device's enqueue to the host's poll of a command.\<close>

definition note_seen :: "u64 \<Rightarrow> u64 \<Rightarrow> int \<Rightarrow> ProxyDiagnostics \<Rightarrow> ProxyDiagnostics" where
  "note_seen enq_ns seen_ns offset d =
     (if enq_ns \<noteq> 0 then
        let raw = sint seen_ns - sint enq_ns - offset;
            delta = (if raw < 0 then 0 else raw);
            d1 = d\<lparr>enqueue_to_seen_count := enqueue_to_seen_count d + 1,
                   enqueue_to_seen_raw_sum_ns := enqueue_to_seen_raw_sum_ns d + delta\<rparr>;
            d2 = (if delta > enqueue_to_seen_raw_max_ns d1
                  then d1\<lparr>enqueue_to_seen_raw_max_ns := delta\<rparr> else d1)
        in if delta < enqueue_to_seen_raw_min_ns d2
           then d2\<lparr>enqueue_to_seen_raw_min_ns := delta\<rparr> else d2
      else d)"

text \<open>The backlog sample and the classification of a batch of \<open>count\<close> commands.\<close>

definition note_backlog :: "int \<Rightarrow> int \<Rightarrow> ProxyDiagnostics \<Rightarrow> ProxyDiagnostics" where
  "note_backlog batch_size backlog d =
     (let d0 = d\<lparr>loops := loops d + 1, backlog_samples := backlog_samples d + 1,
                 backlog_sum := backlog_sum d + word_of_int backlog\<rparr>;
          d1 = (if word_of_int backlog > backlog_max d0
                then d0\<lparr>backlog_max := word_of_int backlog\<rparr> else d0);
          d2 = (if backlog > 0 then d1\<lparr>backlog_nonzero_loops := backlog_nonzero_loops d1 + 1\<rparr> else d1)
      in if backlog > batch_size
         then d2\<lparr>backlog_gt_batch_loops := backlog_gt_batch_loops d2 + 1\<rparr> else d2)"

definition note_post ::
    "u64 \<Rightarrow> u64 \<Rightarrow> u64 \<Rightarrow> ProxyDiagnostics \<Rightarrow> ProxyDiagnostics" where
  "note_post cmd_ns post_ns count d =
     (let lat = (if post_ns \<ge> cmd_ns then post_ns - cmd_ns else 0);
          d1 = (if first_post_ns d = 0 then d\<lparr>first_post_ns := post_ns\<rparr> else d);
          d2 = d1\<lparr>last_post_ns := post_ns, batch_cmd_to_post_count := batch_cmd_to_post_count d1 + 1,
                  batch_cmd_to_post_sum_ns := batch_cmd_to_post_sum_ns d1 + lat\<rparr>;
          d3 = (if lat > batch_cmd_to_post_max_ns d2
                then d2\<lparr>batch_cmd_to_post_max_ns := lat\<rparr> else d2)
      in d3\<lparr>batches_posted := batches_posted d3 + 1, cmds_posted := cmds_posted d3 + count\<rparr>)"

definition note_completion_latency :: "u64 \<Rightarrow> ProxyDiagnostics \<Rightarrow> ProxyDiagnostics" where
  "note_completion_latency lat d =
     (let d1 = d\<lparr>batch_completion_count := batch_completion_count d + 1,
                 batch_completion_sum_ns := batch_completion_sum_ns d + lat\<rparr>
      in if lat > batch_completion_max_ns d1 then d1\<lparr>batch_completion_max_ns := lat\<rparr> else d1)"

end
