(* ===== verification/Ready_Queue.thy ===== *)
theory Ready_Queue
  imports Net_Types
begin

text \<open>
  The ready queue of \<^verbatim>\<open>include/comm/internode/ready_queue.cuh\<close>: a single-producer
  ring of work ids, and the arrival flags, staging words, stage barrier words and forward table
  of \<^verbatim>\<open>arrival.cuh\<close>.
\<close>

section \<open>The ready queue\<close>

record ReadyQueue =
  entries :: "u32 list"
  rq_tail :: u32
  rq_head :: u32
  rq_capacity :: u32
  rq_total :: u32
  local_tail :: u32

text \<open>The round-up of the capacity to a power of two, with its 32-bit wrap.\<close>

definition smear :: "nat \<Rightarrow> u32 \<Rightarrow> u32" where
  "smear n v = v OR drop_bit n v"

definition round_capacity :: "u32 \<Rightarrow> u32" where
  "round_capacity capacity0 =
     (let c = (if capacity0 = 0 then 256 else capacity0)
      in if c AND (c - 1) \<noteq> 0
         then smear 16 (smear 8 (smear 4 (smear 2 (smear 1 (c - 1))))) + 1
         else c)"

definition create_ready_queue :: "u32 \<Rightarrow> ReadyQueue" where
  "create_ready_queue capacity0 =
     (let c = round_capacity capacity0
      in \<lparr>entries = replicate (unat c) 0, rq_tail = 0, rq_head = 0, rq_capacity = c, rq_total = 0,
          local_tail = 0\<rparr>)"

definition reset_ready_queue :: "ReadyQueue \<Rightarrow> ReadyQueue" where
  "reset_ready_queue rq = rq\<lparr>entries := replicate (unat (rq_capacity rq)) 0, rq_tail := 0,
     local_tail := 0, rq_head := 0, rq_total := 0\<rparr>"

definition rq_slot :: "ReadyQueue \<Rightarrow> u32 \<Rightarrow> nat" where
  "rq_slot rq n = unat (n AND (rq_capacity rq - 1))"

definition ready_queue_push :: "ReadyQueue \<Rightarrow> u32 \<Rightarrow> ReadyQueue" where
  "ready_queue_push rq work_id =
     rq\<lparr>entries := (entries rq)[rq_slot rq (local_tail rq) := work_id],
        rq_tail := local_tail rq + 1, local_tail := local_tail rq + 1\<rparr>"

definition ready_queue_push_batch :: "ReadyQueue \<Rightarrow> u32 list \<Rightarrow> ReadyQueue" where
  "ready_queue_push_batch rq work_ids =
     (let es = fold (\<lambda>i es. es[rq_slot rq (local_tail rq + of_nat i) := work_ids ! i])
                 [0..<length work_ids] (entries rq);
          t = local_tail rq + of_nat (length work_ids)
      in rq\<lparr>entries := es, rq_tail := t, local_tail := t\<rparr>)"

section \<open>Arrival flags, staging words and tables\<close>

record ArrivalFlags =
  af_words :: "u32 list"
  af_count :: int
  af_tail_count :: int
  af_host_mapped :: bool

definition create_arrival_flags :: "int \<Rightarrow> int \<Rightarrow> ArrivalFlags" where
  "create_arrival_flags count tc =
     (let t = (if tc > 0 then tc else 0)
      in \<lparr>af_words = replicate (nat count + nat t) 0, af_count = count, af_tail_count = t,
          af_host_mapped = False\<rparr>)"

definition create_mapped_arrival_flags :: "int \<Rightarrow> int \<Rightarrow> ArrivalFlags" where
  "create_mapped_arrival_flags count tc =
     (let t = (if tc > 0 then tc else 0)
      in \<lparr>af_words = replicate (nat count + nat t) 0, af_count = count, af_tail_count = t,
          af_host_mapped = True\<rparr>)"

text \<open>Both branches of the reset clear flags and tails alike.\<close>

definition reset_arrival_flags :: "ArrivalFlags \<Rightarrow> ArrivalFlags" where
  "reset_arrival_flags f =
     (let total_words = nat (af_count f) + nat (af_tail_count f)
      in f\<lparr>af_words := replicate total_words 0 @ drop total_words (af_words f)\<rparr>)"

text \<open>The tail counters are the words behind the flags.\<close>

definition af_tail :: "ArrivalFlags \<Rightarrow> nat \<Rightarrow> u32" where
  "af_tail f q = af_words f ! (nat (af_count f) + q)"

definition create_flag_staging :: "int \<Rightarrow> u32 list" where
  "create_flag_staging count = replicate (nat (if count > 0 then count else 1)) 0"

definition create_stage_barrier_flags :: "int \<Rightarrow> u32 list" where
  "create_stage_barrier_flags count = replicate (nat count) 0"

definition reset_stage_barrier_flags :: "u32 list \<Rightarrow> u32 list" where
  "reset_stage_barrier_flags f = replicate (length f) 0"

definition create_forward_notify_table :: "int \<Rightarrow> ForwardNotify list" where
  "create_forward_notify_table count = replicate (nat (if count > 0 then count else 0)) zero_notify"

definition reset_forward_notify_table :: "ForwardNotify list \<Rightarrow> ForwardNotify list" where
  "reset_forward_notify_table t = (if t \<noteq> [] then replicate (length t) zero_notify else t)"

text \<open>
  \<open>wait_arrival\<close>: \<open>seen\<close> lists the values successive polls of the flag read; the result is
  the number of polls after which the loop ends, \<open>None\<close> when it is still spinning.
\<close>

fun wait_arrival :: "u32 list \<Rightarrow> u32 \<Rightarrow> nat option" where
  "wait_arrival [] expected = None"
| "wait_arrival (v # vs) expected =
     (if v = expected then Some 1 else map_option Suc (wait_arrival vs expected))"

section \<open>Lemmas\<close>

text \<open>\<open>smears n v w\<close>: every bit of \<open>w\<close> is set iff one of the \<open>n\<close> bits of \<open>v\<close> from it on is.\<close>

definition smears :: "nat \<Rightarrow> u32 \<Rightarrow> u32 \<Rightarrow> bool" where
  "smears n v w \<longleftrightarrow> (\<forall>i. bit w i \<longleftrightarrow> (\<exists>j < n. bit v (i + j)))"

lemma smears_double:
  assumes "smears n v w" "m = n + n"
  shows "smears m v (smear n w)"
proof -
  have split: "(\<exists>j < n + n. P j) \<longleftrightarrow> (\<exists>j < n. P j) \<or> (\<exists>j < n. P (n + j))" for P :: "nat \<Rightarrow> bool"
    by (metis add_diff_inverse_nat less_diff_conv2 nat_add_left_cancel_less not_less trans_less_add1)
  have "bit (smear n w) i \<longleftrightarrow> (\<exists>j < n. bit v (i + j)) \<or> (\<exists>j < n. bit v (n + i + j))" for i
    using assms(1) by (simp add: smear_def smears_def bit_or_iff bit_drop_bit_eq)
  then show ?thesis
    unfolding smears_def assms(2) by (simp add: split add.assoc add.left_commute)
qed

lemma smear_all: "smears 32 v (smear 16 (smear 8 (smear 4 (smear 2 (smear 1 v)))))"
proof -
  have "smears 1 v v" by (simp add: smears_def)
  then have "smears 2 v (smear 1 v)" by (rule smears_double) simp
  then have "smears 4 v (smear 2 (smear 1 v))" by (rule smears_double) simp
  then have "smears 8 v (smear 4 (smear 2 (smear 1 v)))" by (rule smears_double) simp
  then have "smears 16 v (smear 8 (smear 4 (smear 2 (smear 1 v))))" by (rule smears_double) simp
  then show ?thesis by (rule smears_double) simp
qed

text \<open>A non-zero word has a topmost bit.\<close>

lemma top_bit:
  assumes "(v :: u32) \<noteq> 0"
  obtains l where "l < 32" "bit v l" "\<And>i. l < i \<Longrightarrow> \<not> bit v i"
proof -
  let ?l = "GREATEST i. bit v i"
  obtain i where i: "bit v i" using assms by (auto simp: bit_eq_iff)
  have bound: "bit v j \<Longrightarrow> j \<le> 32" for j using bit_imp_le_length[of v j] by simp
  have l: "bit v ?l" by (rule GreatestI_nat[of "bit v" i 32, OF i]) (use bound in blast)
  have "?l < 32" using bit_imp_le_length[OF l] by simp
  moreover have "\<not> bit v j" if "?l < j" for j
    using Greatest_le_nat[of "bit v" j 32] bound that by fastforce
  ultimately show ?thesis using that l by blast
qed

lemma smear_all_mask:
  assumes l: "l < 32" "bit v l" and top: "\<And>i. l < i \<Longrightarrow> \<not> bit v i"
  shows "smear 16 (smear 8 (smear 4 (smear 2 (smear 1 v)))) = mask (Suc l)"
proof (rule bit_word_eqI)
  fix i :: nat
  assume "i < LENGTH(32)"
  have "(\<exists>j < 32. bit v (i + j)) \<longleftrightarrow> i \<le> l"
  proof
    assume "\<exists>j < 32. bit v (i + j)"
    then show "i \<le> l" using top by (metis le_add1 le_less_trans not_le)
  next
    assume "i \<le> l"
    then have "bit v (i + (l - i)) \<and> l - i < 32" using l by simp
    then show "\<exists>j < 32. bit v (i + j)" by blast
  qed
  then show "bit (smear 16 (smear 8 (smear 4 (smear 2 (smear 1 v))))) i = bit (mask (Suc l) :: u32) i"
    using smear_all[of v] \<open>i < LENGTH(32)\<close> unfolding smears_def by (simp add: bit_mask_iff less_Suc_eq_le)
qed

lemma below_top:
  assumes "\<And>i. l < i \<Longrightarrow> \<not> bit (v :: u32) i"
  shows "unat v < 2 ^ Suc l"
proof -
  have "v = take_bit (Suc l) v"
    by (rule bit_word_eqI) (use assms in \<open>auto simp: bit_take_bit_iff not_less\<close>, meson Suc_le_eq not_less_eq_eq assms)
  then have "unat v = take_bit (Suc l) (unat v)" by (metis unsigned_take_bit_eq)
  then show ?thesis by (metis take_bit_nat_less_exp)
qed

lemma round_capacity_pow2:
  assumes "0 < unat c" "unat c \<le> 2 ^ 31"
  shows "\<exists>k \<le> 31. unat (round_capacity c) = 2 ^ k \<and> unat c \<le> 2 ^ k \<and> 2 ^ k < 2 * unat c"
proof -
  have c0: "c \<noteq> 0" using assms(1) by auto
  show ?thesis
  proof (cases "c AND (c - 1) = 0")
    case True
    have "unat (c AND (c - 1)) = unat c AND (unat c - 1)"
      using c0 by (simp add: unsigned_and_eq unat_minus_one)
    then have "unat c AND (unat c - 1) = 0" using True by simp
    then obtain k where k: "unat c = 2 ^ k" using nat_and_pred_pow2[OF assms(1)] by blast
    have "k \<le> 31" using assms(2) k by (metis one_less_numeral_iff power_le_imp_le_exp semiring_norm(76))
    then show ?thesis using True c0 k by (auto simp: round_capacity_def Let_def)
  next
    case False
    have v0: "c - 1 \<noteq> 0" using False by auto
    obtain l where l: "l < 32" "bit (c - 1) l" and top: "\<And>i. l < i \<Longrightarrow> \<not> bit (c - 1) i"
      using top_bit[OF v0] by blast
    have hi: "unat (c - 1) < 2 ^ Suc l" by (rule below_top[OF top])
    have lo: "2 ^ l \<le> unat (c - 1)"
    proof (rule ccontr)
      assume "\<not> 2 ^ l \<le> unat (c - 1)"
      then have "even (unat (c - 1) div 2 ^ l)" by simp
      moreover have "bit (unat (c - 1)) l" using l by (simp add: bit_unsigned_iff)
      ultimately show False by (simp add: bit_iff_odd)
    qed
    have u: "unat (c - 1) = unat c - 1" using c0 by (simp add: unat_minus_one)
    have "(2::nat) ^ l < 2 ^ 31" using lo u assms by (metis diff_less le_less_trans less_le_trans zero_less_one)
    then have l31: "l < 31" by (metis one_less_numeral_iff power_less_imp_less_exp semiring_norm(76))
    have "round_capacity c = mask (Suc l) + 1"
      using smear_all_mask[OF l top] False c0 by (simp add: round_capacity_def Let_def)
    then have "round_capacity c = 2 ^ Suc l" by (simp only: mask_eq_exp_minus_1) simp
    moreover have "unat ((2 :: u32) ^ Suc l) = 2 ^ Suc l"
      by (rule unat_pow2) (use l31 in simp)
    ultimately show ?thesis
      using hi lo u assms(1) l31 by (intro exI[of _ "Suc l"]) auto
  qed
qed

lemma push_fields [simp]:
  "local_tail (ready_queue_push rq w) = local_tail rq + 1" "rq_capacity (ready_queue_push rq w) = rq_capacity rq"
  by (simp_all add: ready_queue_push_def)

lemma rq_slot_push [simp]: "rq_slot (ready_queue_push rq w) n = rq_slot rq n"
  by (simp add: rq_slot_def)

text \<open>The batch append is the iterated single append.\<close>

lemma push_batch_snoc:
  "ready_queue_push_batch rq (ws @ [w]) = ready_queue_push (ready_queue_push_batch rq ws) w"
proof -
  let ?es = "\<lambda>xs n. fold (\<lambda>i es. es[rq_slot rq (local_tail rq + of_nat i) := xs ! i]) [0..<n] (entries rq)"
  have "?es (ws @ [w]) (length ws) = ?es ws (length ws)"
    by (rule fold_cong) (auto simp: nth_append)
  then show ?thesis
    by (simp add: ready_queue_push_batch_def ready_queue_push_def Let_def rq_slot_def add.assoc)
qed

lemma push_batch_fold: "ready_queue_push_batch rq ws = fold (\<lambda>w q. ready_queue_push q w) ws
    (rq\<lparr>rq_tail := local_tail rq\<rparr>)"
proof (induction ws rule: rev_induct)
  case Nil
  then show ?case by (simp add: ready_queue_push_batch_def)
next
  case (snoc w ws)
  then show ?case by (simp only: push_batch_snoc fold_append fold_Cons fold_Nil comp_apply id_apply)
qed

lemma wait_arrival_returns:
  "wait_arrival vs e = Some n \<longleftrightarrow> 0 < n \<and> n \<le> length vs \<and> vs ! (n - 1) = e \<and> (\<forall>i < n - 1. vs ! i \<noteq> e)"
proof (induction vs arbitrary: n)
  case (Cons v vs)
  show ?case
  proof (cases "v = e")
    case True
    then show ?thesis by (cases n) (auto simp: less_Suc_eq_0_disj split: nat.splits)
  next
    case False
    then show ?thesis
      using Cons.IH[of "n - 1"] by (cases n) (auto simp: nth_Cons less_Suc_eq_0_disj split: nat.splits)
  qed
qed auto

section \<open>Properties\<close>

text \<open>
  Pushing a batch of work ids and publishing the tail once leaves the queue as
  pushing them one by one does.
\<close>

theorem push_batch_as_pushes:
  assumes "rq_tail rq = local_tail rq"
  shows "ready_queue_push_batch rq ws = foldl ready_queue_push rq ws"
proof -
  have "rq\<lparr>rq_tail := local_tail rq\<rparr> = rq" using assms by simp
  then show ?thesis by (simp add: push_batch_fold foldl_conv_fold)
qed

theorem push_batch_as_pushes_witness:
  "ready_queue_push_batch (create_ready_queue 4) [7, 8] = foldl ready_queue_push (create_ready_queue 4) [7, 8]"
  by (rule push_batch_as_pushes) (simp add: create_ready_queue_def Let_def)

text \<open>
  A requested capacity of 1 to \<open>2^31\<close> is rounded up to the next power of two, less
  than twice what was asked for.
\<close>

theorem round_capacity_next_pow2:
  assumes "0 < unat c" "unat c \<le> 2 ^ 31"
  shows "\<exists>k \<le> 31. unat (round_capacity c) = 2 ^ k \<and> unat c \<le> 2 ^ k \<and> 2 ^ k < 2 * unat c"
  by (rule round_capacity_pow2[OF assms])

theorem round_capacity_next_pow2_witness:
  "unat (round_capacity 5) \<in> (\<lambda>k. 2 ^ k) ` {..31} \<and> 5 \<le> unat (round_capacity 5) \<and> unat (round_capacity 5) < 10"
  using round_capacity_next_pow2[of 5] by auto

text \<open>Above \<open>2^31\<close> the rounding wraps to an empty ring.\<close>

lemma round_capacity_wraps: "round_capacity 0x80000001 = 0"
  by code_simp

end
