(* ===== verification/Proxy_CX7.thy ===== *)
theory Proxy_CX7
  imports Rdma_Verbs D2H_Fifo Proxy_Diag Ready_Queue
begin

text \<open>
  The CPU proxy of the ConnectX-7 backend, \<^verbatim>\<open>include/comm/internode/proxy.h\<close>: its
  configuration and constructor, the work request ids, the routing of commands to queue pairs,
  the stage barrier, the strided gather, store-and-forward, and one iteration of the main loop
  step by step. Queue pairs are named by their local index. The verbs library and the clock are
  the parameter \<open>world\<close>: what the \<open>k\<close>-th post returned and the \<open>k\<close>-th clock reading.
  Every post is recorded, with the staging words as they were when it was made, because inline
  payloads are copied at that moment.
\<close>

section \<open>Configuration\<close>

definition BATCH_SIZE :: nat where "BATCH_SIZE = 8"

record ProxyConfig =
  cf_num_qps :: int
  cf_qp_base_idx :: int
  cf_global_num_qps :: int
  cf_gpu_to_host_offset_ns :: int
  cf_local_data_addr :: u64
  cf_local_data_lkey :: u32
  cf_clocal_data_addr :: u64
  cf_clocal_data_lkey :: u32
  cf_clocal_data_bytes :: u64
  cf_direct_dmabuf_enabled :: bool
  cf_row_stride_bytes :: u64
  cf_max_send_sge :: u32
  cf_remote_data_addr :: u64
  cf_remote_data_rkey :: u32
  cf_remote_data_addr_by_qp :: "u64 list"
  cf_remote_data_rkey_by_qp :: "u32 list"
  cf_staging_addr :: u64
  cf_staging_lkey :: u32
  cf_remote_flags_addr :: u64
  cf_remote_flags_rkey :: u32
  cf_remote_tail_addr :: u64
  cf_remote_tail_rkey :: u32
  cf_remote_flags_addr_by_qp :: "u64 list"
  cf_remote_flags_rkey_by_qp :: "u32 list"
  cf_remote_tail_addr_by_qp :: "u64 list"
  cf_remote_tail_rkey_by_qp :: "u32 list"
  cf_use_arrival_queue :: bool
  cf_remote_queue_stride :: u32
  cf_logical_queues_per_qp :: int
  cf_channelize_gpu_peers :: bool
  cf_enable_remote_tail :: bool
  cf_remote_barrier_addr :: u64
  cf_remote_barrier_rkey :: u32
  cf_remote_barrier_addr_by_qp :: "u64 list"
  cf_remote_barrier_rkey_by_qp :: "u32 list"
  cf_enable_forward_notify :: bool
  cf_has_local_forward_notify :: bool
  cf_forward_notify_slots :: int
  cf_remote_forward_notify_addr :: u64
  cf_remote_forward_notify_rkey :: u32
  cf_remote_forward_notify_addr_by_qp :: "u64 list"
  cf_remote_forward_notify_rkey_by_qp :: "u32 list"
  cf_rank :: int
  cf_num_nodes :: int
  cf_total_chunks :: int
  cf_a_half_bytes :: u64
  cf_epoch :: u32
  cf_max_inflight :: int
  cf_device_id :: int
  cf_pin_proxy :: bool

section \<open>State\<close>

record post =
  po_qp :: int
  po_chain :: "ibv_send_wr list"
  po_ret :: int
  po_staging :: "u32 list"
  po_notify :: "ForwardNotify list"
  po_token :: u32

record world =
  w_ret :: "nat \<Rightarrow> int"
  w_clock :: "nat \<Rightarrow> u64"
  w_notify_addr :: u64
  w_token_addr :: u64

record Proxy =
  cfg :: ProxyConfig
  inflight :: int
  qp_rr_idx :: int
  effective_max_inflight :: int
  ts :: ProxyTimestamps
  sender_seq :: "u32 list"
  barrier_token :: u32
  pending_cmd :: TransferCmd
  has_pending_cmd :: bool
  wrs :: "ibv_send_wr list"
  sges :: "ibv_sge list"
  notify_payload :: "ForwardNotify list"
  wrs_initialized :: bool
  diag :: ProxyDiagnostics
  batch_post_ns :: "u64 list list"
  signaled_post_ns :: "u64 list"
  completion_ns :: "u64 list"
  forward_seen_epoch :: "u32 list"
  forward_scan_cursor :: int
  diag_total_loops :: u64
  diag_empty_loops :: u64
  diag_inflight_limited :: u64
  diag_full_batches :: u64
  diag_partial_batches :: u64
  fifo :: D2HFifo
  staging :: "u32 list"
  posts :: "post list"
  ticks :: nat

text \<open>\<open>now_ns\<close> and \<open>ibv_post_send\<close>.\<close>

definition read_clock :: "world \<Rightarrow> Proxy \<Rightarrow> u64 \<times> Proxy" where
  "read_clock W s = (w_clock W (ticks s), s\<lparr>ticks := Suc (ticks s)\<rparr>)"

definition post_send :: "world \<Rightarrow> int \<Rightarrow> ibv_send_wr list \<Rightarrow> Proxy \<Rightarrow> int \<times> Proxy" where
  "post_send W qp chain s =
     (let ret = w_ret W (length (posts s))
      in (ret, s\<lparr>posts := posts s @ [\<lparr>po_qp = qp, po_chain = chain, po_ret = ret,
            po_staging = staging s, po_notify = notify_payload s, po_token = barrier_token s\<rparr>]\<rparr>))"

section \<open>Construction and epoch operations\<close>

definition kQpSqDepth :: int where "kQpSqDepth = 2048"
definition kSafetyMargin :: int where "kSafetyMargin = 64"

definition wrs_per_chunk :: "ProxyConfig \<Rightarrow> int" where
  "wrs_per_chunk c = 2 + (if cf_enable_remote_tail c then 1 else 0) + (if cf_enable_forward_notify c then 1 else 0)"

definition per_qp_chunk_cap :: "ProxyConfig \<Rightarrow> int" where
  "per_qp_chunk_cap c = max 1 (c_div kQpSqDepth (wrs_per_chunk c) - kSafetyMargin)"

text \<open>\<open>env_channelize\<close> is the value of \<open>MKERNEL_CHANNELIZE_GPU_PEERS\<close>, if set.\<close>

definition clamp_config :: "string option \<Rightarrow> ProxyConfig \<Rightarrow> ProxyConfig" where
  "clamp_config env_channelize c0 =
     (let c1 = (if cf_max_inflight c0 \<le> 0 then c0\<lparr>cf_max_inflight := 512\<rparr> else c0);
          c2 = (if cf_num_qps c1 \<le> 0 then c1\<lparr>cf_num_qps := 1\<rparr> else c1);
          c3 = (if cf_global_num_qps c2 \<le> 0 then c2\<lparr>cf_global_num_qps := cf_num_qps c2\<rparr> else c2);
          c4 = (if cf_logical_queues_per_qp c3 \<le> 0 then c3\<lparr>cf_logical_queues_per_qp := 1\<rparr> else c3);
          c5 = (if cf_logical_queues_per_qp c4 > 16 then c4\<lparr>cf_logical_queues_per_qp := 16\<rparr> else c4)
      in case env_channelize of
           None \<Rightarrow> c5
         | Some e \<Rightarrow> c5\<lparr>cf_channelize_gpu_peers := (e \<noteq> [] \<and> hd e \<noteq> CHR ''0'')\<rparr>)"

definition new_proxy :: "string option \<Rightarrow> ProxyConfig \<Rightarrow> D2HFifo \<Rightarrow> u32 list \<Rightarrow> Proxy" where
  "new_proxy env_channelize c0 f st =
     (let c = clamp_config env_channelize c0;
          requested = min (cf_max_inflight c) (per_qp_chunk_cap c)
      in \<lparr>cfg = c, inflight = 0, qp_rr_idx = 0, effective_max_inflight = requested * cf_num_qps c,
          ts = ts_reset, sender_seq = replicate (nat kMaxExchangeQPs * 16) 0, barrier_token = 0,
          pending_cmd = zero_cmd, has_pending_cmd = False,
          wrs = replicate (BATCH_SIZE * 4) zero_wr, sges = replicate (BATCH_SIZE * 4) zero_sge,
          notify_payload = replicate BATCH_SIZE zero_notify, wrs_initialized = False,
          diag = diag_reset\<lparr>dg_qp_base_idx := cf_qp_base_idx c, dg_num_qps := cf_num_qps c\<rparr>,
          batch_post_ns = replicate (nat kMaxExchangeQPs) [], signaled_post_ns = [], completion_ns = [],
          forward_seen_epoch =
            (if cf_enable_forward_notify c \<and> cf_forward_notify_slots c > 0
             then replicate (nat (cf_forward_notify_slots c)) 0 else []),
          forward_scan_cursor = 0, diag_total_loops = 0, diag_empty_loops = 0,
          diag_inflight_limited = 0, diag_full_batches = 0, diag_partial_batches = 0,
          fifo = f, staging = st, posts = [], ticks = 0\<rparr>)"

definition set_epoch :: "u32 \<Rightarrow> Proxy \<Rightarrow> Proxy" where
  "set_epoch e s = s\<lparr>cfg := (cfg s)\<lparr>cf_epoch := e\<rparr>, sender_seq := replicate (length (sender_seq s)) 0\<rparr>"

definition reset_inflight :: "Proxy \<Rightarrow> Proxy" where
  "reset_inflight s = s\<lparr>inflight := 0\<rparr>"

definition get_timeline :: "Proxy \<Rightarrow> ProxyTimeline" where
  "get_timeline s = \<lparr>tl_signaled_post_ns = signaled_post_ns s, tl_completion_ns = completion_ns s\<rparr>"

definition reset_timestamps :: "Proxy \<Rightarrow> Proxy" where
  "reset_timestamps s =
     s\<lparr>ts := ts_reset,
       diag := diag_reset\<lparr>dg_qp_base_idx := cf_qp_base_idx (cfg s), dg_num_qps := cf_num_qps (cfg s)\<rparr>,
       batch_post_ns := replicate (length (batch_post_ns s)) [], signaled_post_ns := [], completion_ns := []\<rparr>"

section \<open>Work request ids and routing\<close>

definition encode_wr_id :: "int \<Rightarrow> int \<Rightarrow> u64" where
  "encode_wr_id local_qp wr_count =
     push_bit 32 (ucast (word_of_int local_qp :: u32)) OR ucast (word_of_int wr_count :: u32)"

definition decode_wr_local_qp :: "u64 \<Rightarrow> int" where
  "decode_wr_local_qp w = sint (ucast (drop_bit 32 w AND 0xffffffff) :: u32)"

definition decode_wr_count :: "u64 \<Rightarrow> int" where
  "decode_wr_count w = sint (ucast (w AND 0xffffffff) :: u32)"

definition route_global_qp :: "ProxyConfig \<Rightarrow> TransferCmd \<Rightarrow> int" where
  "route_global_qp c cmd =
     (if cf_global_num_qps c \<le> 0 then 0
      else if cf_channelize_gpu_peers c
      then uint (reserved0 cmd) mod uint (word_of_int (cf_global_num_qps c) :: u8)
      else uint (lane_id cmd) mod cf_global_num_qps c)"

text \<open>The per-queue-pair override of a remote address or key, zero meaning unset.\<close>

definition for_qp :: "ProxyConfig \<Rightarrow> 'w::len word list \<Rightarrow> 'w word \<Rightarrow> int \<Rightarrow> 'w word" where
  "for_qp c by_qp dflt local_qp =
     (let g = cf_qp_base_idx c + local_qp;
          v = (if 0 \<le> g \<and> g < kMaxExchangeQPs then by_qp ! nat g else 0)
      in if v \<noteq> 0 then v else dflt)"

definition remote_data_addr_for_qp :: "ProxyConfig \<Rightarrow> int \<Rightarrow> u64" where
  "remote_data_addr_for_qp c = for_qp c (cf_remote_data_addr_by_qp c) (cf_remote_data_addr c)"
definition remote_data_rkey_for_qp :: "ProxyConfig \<Rightarrow> int \<Rightarrow> u32" where
  "remote_data_rkey_for_qp c = for_qp c (cf_remote_data_rkey_by_qp c) (cf_remote_data_rkey c)"
definition remote_flags_addr_for_qp :: "ProxyConfig \<Rightarrow> int \<Rightarrow> u64" where
  "remote_flags_addr_for_qp c = for_qp c (cf_remote_flags_addr_by_qp c) (cf_remote_flags_addr c)"
definition remote_flags_rkey_for_qp :: "ProxyConfig \<Rightarrow> int \<Rightarrow> u32" where
  "remote_flags_rkey_for_qp c = for_qp c (cf_remote_flags_rkey_by_qp c) (cf_remote_flags_rkey c)"
definition remote_tail_addr_for_qp :: "ProxyConfig \<Rightarrow> int \<Rightarrow> u64" where
  "remote_tail_addr_for_qp c = for_qp c (cf_remote_tail_addr_by_qp c) (cf_remote_tail_addr c)"
definition remote_tail_rkey_for_qp :: "ProxyConfig \<Rightarrow> int \<Rightarrow> u32" where
  "remote_tail_rkey_for_qp c = for_qp c (cf_remote_tail_rkey_by_qp c) (cf_remote_tail_rkey c)"
definition remote_forward_notify_addr_for_qp :: "ProxyConfig \<Rightarrow> int \<Rightarrow> u64" where
  "remote_forward_notify_addr_for_qp c =
     for_qp c (cf_remote_forward_notify_addr_by_qp c) (cf_remote_forward_notify_addr c)"
definition remote_forward_notify_rkey_for_qp :: "ProxyConfig \<Rightarrow> int \<Rightarrow> u32" where
  "remote_forward_notify_rkey_for_qp c =
     for_qp c (cf_remote_forward_notify_rkey_by_qp c) (cf_remote_forward_notify_rkey c)"

section \<open>Stage barrier\<close>

definition barrier_wr :: "world \<Rightarrow> int \<Rightarrow> u64 \<Rightarrow> u32 \<Rightarrow> int \<Rightarrow> ibv_send_wr" where
  "barrier_wr W qp_idx raddr rk slot =
     zero_wr\<lparr>wr_id := encode_wr_id qp_idx 1,
        sg_list := [\<lparr>sge_addr = w_token_addr W, sge_length = 4, sge_lkey = 0\<rparr>],
        opcode := IBV_WR_RDMA_WRITE, send_inline := True, send_signaled := True,
        remote_addr := raddr + word_of_int slot * 4, rkey := rk, next_wr := None\<rparr>"

text \<open>The turn of the fan-out for peer \<open>p\<close>.\<close>

definition barrier_to_peer :: "world \<Rightarrow> int \<Rightarrow> bool \<Rightarrow> int \<Rightarrow> nat \<Rightarrow> Proxy \<Rightarrow> Proxy" where
  "barrier_to_peer W slot channelize qps_per_peer p s =
     (let c = cfg s;
          qp_idx = (if channelize then int p * qps_per_peer else 0);
          raddr = (if channelize then cf_remote_barrier_addr_by_qp c ! nat qp_idx
                   else cf_remote_barrier_addr c);
          rk = (if channelize then cf_remote_barrier_rkey_by_qp c ! nat qp_idx
                else cf_remote_barrier_rkey c);
          (ret, s') = post_send W qp_idx (wr_chain [barrier_wr W qp_idx raddr rk slot]) s
      in if ret \<noteq> 0 then s' else s'\<lparr>inflight := inflight s' + 1\<rparr>)"

definition barrier_channelize :: "ProxyConfig \<Rightarrow> bool" where
  "barrier_channelize c \<longleftrightarrow>
     cf_channelize_gpu_peers c \<and> cf_num_nodes c - 1 > 1 \<and> cf_num_qps c \<ge> cf_num_nodes c - 1"

definition post_stage_barrier :: "world \<Rightarrow> int \<Rightarrow> u32 \<Rightarrow> Proxy \<Rightarrow> Proxy" where
  "post_stage_barrier W slot token s0 =
     (let s1 = s0\<lparr>barrier_token := token\<rparr>;
          c = cfg s1;
          n_peers = cf_num_nodes c - 1;
          channelize = barrier_channelize c;
          num_iters = (if channelize then n_peers else 1);
          qps_per_peer = (if channelize then c_div (cf_num_qps c) n_peers else cf_num_qps c)
      in fold (barrier_to_peer W slot channelize qps_per_peer) [0..<nat num_iters] s1)"

section \<open>Strided gather\<close>

definition kMaxRows :: u32 where "kMaxRows = 256"
definition kMaxDataWrs :: nat where "kMaxDataWrs = 16"

text \<open>
  The data requests: request \<open>w\<close> gathers the next \<open>n = min (rows - row_cursor) max_sge\<close> rows
  and writes them one after another behind the previous request's.
\<close>

definition strided_sges :: "ProxyConfig \<Rightarrow> u64 \<Rightarrow> u32 \<Rightarrow> u32 \<Rightarrow> u32 \<Rightarrow> ibv_sge list" where
  "strided_sges c base span row_cursor n =
     map (\<lambda>k. \<lparr>sge_addr = base + ucast (row_cursor + of_nat k) * ucast (ucast (cf_row_stride_bytes c) :: u32),
               sge_length = span, sge_lkey = cf_clocal_data_lkey c\<rparr>) [0..<unat n]"

fun strided_data_wrs ::
    "ProxyConfig \<Rightarrow> u64 \<Rightarrow> u32 \<Rightarrow> u32 \<Rightarrow> u32 \<Rightarrow> u32 \<Rightarrow> nat \<Rightarrow> nat \<Rightarrow> u32 \<Rightarrow> u64 \<Rightarrow> ibv_send_wr list" where
  "strided_data_wrs c base span rows max_sge rk w 0 row_cursor remote_cursor = []"
| "strided_data_wrs c base span rows max_sge rk w (Suc left) row_cursor remote_cursor =
     (let n = min (rows - row_cursor) max_sge
      in zero_wr\<lparr>sg_list := strided_sges c base span row_cursor n, opcode := IBV_WR_RDMA_WRITE,
           remote_addr := remote_cursor, rkey := rk, next_wr := Some (Suc w)\<rparr>
         # strided_data_wrs c base span rows max_sge rk (Suc w) left
             (row_cursor + n) (remote_cursor + ucast n * ucast span))"

definition logical_queue :: "u32 \<Rightarrow> TransferCmd \<Rightarrow> u32" where
  "logical_queue total_lq cmd = (if total_lq > 0 then ucast (lane_id cmd) mod total_lq else 0)"

text \<open>\<open>sender_seq_[q]++\<close>\<close>

definition take_seq :: "u32 \<Rightarrow> Proxy \<Rightarrow> u32 \<times> Proxy" where
  "take_seq q s = (sender_seq s ! unat q,
     s\<lparr>sender_seq := (sender_seq s)[unat q := sender_seq s ! unat q + 1]\<rparr>)"

definition set_staging :: "nat \<Rightarrow> u32 \<Rightarrow> Proxy \<Rightarrow> Proxy" where
  "set_staging i v s = s\<lparr>staging := (staging s)[i := v]\<rparr>"

definition staging_word :: "ProxyConfig \<Rightarrow> nat \<Rightarrow> ibv_sge" where
  "staging_word c i =
     \<lparr>sge_addr = cf_staging_addr c + of_nat i * 4, sge_length = 4, sge_lkey = cf_staging_lkey c\<rparr>"

definition queue_slot_addr :: "ProxyConfig \<Rightarrow> u64 \<Rightarrow> u32 \<Rightarrow> u32 \<Rightarrow> u64" where
  "queue_slot_addr c flags lq q_slot = flags + ucast (lq * cf_remote_queue_stride c + q_slot) * 4"

text \<open>The number of gather elements a request may have, and the data requests a command needs.\<close>

definition strided_max_sge :: "ProxyConfig \<Rightarrow> u32" where
  "strided_max_sge c = (if cf_max_send_sge c > 0 then cf_max_send_sge c else 1)"

definition strided_n :: "ProxyConfig \<Rightarrow> TransferCmd \<Rightarrow> nat" where
  "strided_n c cmd = unat ((ucast (row_count cmd) + strided_max_sge c - 1) div strided_max_sge c)"

definition strided_rejected :: "ProxyConfig \<Rightarrow> TransferCmd \<Rightarrow> bool" where
  "strided_rejected c cmd \<longleftrightarrow>
     (ucast (cf_row_stride_bytes c) :: u32) = 0 \<or> row_count cmd = 0 \<or> row_span cmd = 0 \<or>
     ucast (row_count cmd) > kMaxRows \<or> strided_n c cmd > kMaxDataWrs"

definition strided_data :: "ProxyConfig \<Rightarrow> TransferCmd \<Rightarrow> int \<Rightarrow> ibv_send_wr list" where
  "strided_data c cmd batch_qp =
     strided_data_wrs c (cf_clocal_data_addr c + local_offset cmd) (ucast (row_span cmd))
       (ucast (row_count cmd)) (strided_max_sge c) (remote_data_rkey_for_qp c batch_qp)
       0 (strided_n c cmd) 0 (remote_data_addr_for_qp c batch_qp + remote_offset cmd)"

definition strided_tailed :: "ProxyConfig \<Rightarrow> bool" where
  "strided_tailed c \<longleftrightarrow> cf_use_arrival_queue c \<and> cf_enable_remote_tail c"

text \<open>The return value: the send queue slots the chain takes.\<close>

definition strided_slots :: "ProxyConfig \<Rightarrow> TransferCmd \<Rightarrow> int" where
  "strided_slots c cmd = (if strided_tailed c then int (strided_n c cmd) + 2 else int (strided_n c cmd) + 1)"

definition strided_flag_slot :: "ProxyConfig \<Rightarrow> nat" where
  "strided_flag_slot c = (if cf_use_arrival_queue c then BATCH_SIZE * 2 else 0)"

definition strided_flag :: "ProxyConfig \<Rightarrow> TransferCmd \<Rightarrow> int \<Rightarrow> u32 \<Rightarrow> u32 \<Rightarrow> ibv_send_wr" where
  "strided_flag c cmd batch_qp lq q_slot =
     zero_wr\<lparr>sg_list := [staging_word c (strided_flag_slot c)], opcode := IBV_WR_RDMA_WRITE,
       remote_addr := (if cf_use_arrival_queue c
                       then queue_slot_addr c (remote_flags_addr_for_qp c batch_qp) lq q_slot
                       else remote_flags_addr_for_qp c batch_qp + ucast (tile_id cmd) * 4),
       rkey := remote_flags_rkey_for_qp c batch_qp, send_inline := True\<rparr>"

definition strided_ending :: "ProxyConfig \<Rightarrow> TransferCmd \<Rightarrow> int \<Rightarrow> u32 \<Rightarrow> u32 \<Rightarrow> ibv_send_wr list" where
  "strided_ending c cmd batch_qp lq q_slot =
     (if strided_tailed c then
        [(strided_flag c cmd batch_qp lq q_slot)\<lparr>next_wr := Some (strided_n c cmd + 1)\<rparr>,
         zero_wr\<lparr>sg_list := [staging_word c (BATCH_SIZE * 2 + 1)], opcode := IBV_WR_RDMA_WRITE,
           remote_addr := remote_tail_addr_for_qp c batch_qp + ucast lq * 4,
           rkey := remote_tail_rkey_for_qp c batch_qp, send_inline := True, send_signaled := True,
           wr_id := encode_wr_id batch_qp (int (strided_n c cmd) + 2), next_wr := None\<rparr>]
      else
        [(strided_flag c cmd batch_qp lq q_slot)\<lparr>send_signaled := True,
           wr_id := encode_wr_id batch_qp (int (strided_n c cmd) + 1), next_wr := None\<rparr>])"

text \<open>The staging words and the slot the flag goes to.\<close>

definition stage_strided :: "TransferCmd \<Rightarrow> u32 \<Rightarrow> Proxy \<Rightarrow> u32 \<times> u32 \<times> Proxy" where
  "stage_strided cmd total_lq s =
     (let c = cfg s
      in if cf_use_arrival_queue c then
           let s1 = set_staging (strided_flag_slot c) (pack_arrival_work (tile_id cmd) (run_tiles (bytes cmd))) s;
               lq = logical_queue total_lq cmd;
               (q_slot, s2) = take_seq lq s1
           in (lq, q_slot, if cf_enable_remote_tail c then set_staging (BATCH_SIZE * 2 + 1) (q_slot + 1) s2 else s2)
         else (0, 0, set_staging (strided_flag_slot c) (cf_epoch c) s))"

definition post_strided_direct :: "world \<Rightarrow> TransferCmd \<Rightarrow> int \<Rightarrow> u32 \<Rightarrow> Proxy \<Rightarrow> int \<times> Proxy" where
  "post_strided_direct W cmd batch_qp total_lq s =
     (let c = cfg s
      in if strided_rejected c cmd then (0, s)
         else
           let (lq, q_slot, s1) = stage_strided cmd total_lq s;
               (ret, s2) = post_send W batch_qp
                 (wr_chain (strided_data c cmd batch_qp @ strided_ending c cmd batch_qp lq q_slot)) s1
           in if ret \<noteq> 0 then (0, s2) else (strided_slots c cmd, s2))"

section \<open>Store and forward\<close>

text \<open>\<open>(int)cmd.tile_id\<close> reinterprets the 32 bits as signed.\<close>

definition forward_notify_enabled_for_cmd :: "ProxyConfig \<Rightarrow> TransferCmd \<Rightarrow> bool" where
  "forward_notify_enabled_for_cmd c cmd =
     (if \<not> cf_enable_forward_notify c \<or> cf_total_chunks c \<le> 0 \<or> cf_a_half_bytes c = 0 then False
      else if tile_id cmd \<ge> word_of_int (cf_forward_notify_slots c) then False
      else
        let n_peers = cf_num_nodes c - 1
        in if n_peers < 1 then False
           else
             let src_virtual = c_div (sint (tile_id cmd)) (cf_total_chunks c);
                 src_bank = c_div src_virtual n_peers
             in src_bank + 1 < n_peers)"

definition make_forward_cmd_from_notify :: "ProxyConfig \<Rightarrow> ForwardNotify \<Rightarrow> TransferCmd" where
  "make_forward_cmd_from_notify c n =
     (let next_rank = peer_rank_for_slot (cf_rank c) (cf_num_nodes c) 0;
          n_peers = cf_num_nodes c - 1;
          src_virtual = c_div (sint (fn_tile_id n)) (cf_total_chunks c);
          src_slot = c_mod src_virtual n_peers;
          src_bank = c_div src_virtual n_peers;
          origin_rank = peer_rank_for_slot (cf_rank c) (cf_num_nodes c) src_slot;
          dst_slot = slot_at_peer origin_rank next_rank (cf_num_nodes c);
          dst_virtual = dst_slot + n_peers * (src_bank + 1);
          chunk = fn_tile_id n mod (word_of_int (cf_total_chunks c) :: u32);
          base = ucast (fn_local_offset n mod cf_a_half_bytes c) :: u32
      in zero_cmd\<lparr>cmd_type := WRITE, dst_rank := word_of_int next_rank, bytes := fn_bytes n,
           local_offset := fn_local_offset n, src_view := 0, lane_id := fn_lane_id n,
           reserved0 := word_of_int (cf_device_id c),
           tile_id := word_of_int (dst_virtual * cf_total_chunks c) + chunk,
           remote_offset := word_of_int dst_virtual * cf_a_half_bytes c + ucast base\<rparr>)"

definition post_single_write_flat :: "world \<Rightarrow> TransferCmd \<Rightarrow> Proxy \<Rightarrow> bool \<times> Proxy" where
  "post_single_write_flat W cmd s =
     (let c = cfg s;
          batch_qp = route_global_qp c cmd - cf_qp_base_idx c
      in if batch_qp < 0 \<or> batch_qp \<ge> cf_num_qps c then (False, s)
         else
           let data = zero_wr\<lparr>sg_list := [\<lparr>sge_addr = cf_local_data_addr c + local_offset cmd,
                        sge_length = bytes cmd, sge_lkey = cf_local_data_lkey c\<rparr>],
                 opcode := IBV_WR_RDMA_WRITE,
                 remote_addr := remote_data_addr_for_qp c batch_qp + remote_offset cmd,
                 rkey := remote_data_rkey_for_qp c batch_qp, next_wr := Some 1\<rparr>;
               s1 = set_staging (BATCH_SIZE * 2) (cf_epoch c) s;
               flag = zero_wr\<lparr>sg_list := [staging_word c (BATCH_SIZE * 2)], opcode := IBV_WR_RDMA_WRITE,
                 remote_addr := remote_flags_addr_for_qp c batch_qp + ucast (tile_id cmd) * 4,
                 rkey := remote_flags_rkey_for_qp c batch_qp, send_inline := True, send_signaled := True,
                 wr_id := encode_wr_id batch_qp 1\<rparr>;
               (ret, s2) = post_send W batch_qp (wr_chain [data, flag]) s1
           in if ret \<noteq> 0 then (False, s2) else (True, s2\<lparr>inflight := inflight s2 + 1\<rparr>))"

definition kScanPerLoop :: nat where "kScanPerLoop = 256"

text \<open>One slot of the scan; \<open>table\<close> is the local notice table the peer writes.\<close>

definition forward_scan_step :: "world \<Rightarrow> ForwardNotify list \<Rightarrow> Proxy \<Rightarrow> Proxy" where
  "forward_scan_step W table s =
     (let slot = nat (forward_scan_cursor s);
          cur = forward_scan_cursor s + 1;
          s1 = s\<lparr>forward_scan_cursor := (if cur \<ge> cf_forward_notify_slots (cfg s) then 0 else cur)\<rparr>
      in if forward_seen_epoch s1 ! slot = cf_epoch (cfg s1) then s1
         else
           let n = table ! slot
           in if fn_epoch n \<noteq> cf_epoch (cfg s1) then s1
              else if fn_tile_id n \<noteq> of_nat slot then s1
              else
                let (ok, s2) = post_single_write_flat W (make_forward_cmd_from_notify (cfg s1) n) s1
                in if ok then s2\<lparr>forward_seen_epoch := (forward_seen_epoch s2)[slot := cf_epoch (cfg s2)]\<rparr>
                   else s2)"

definition poll_forward_notifications :: "world \<Rightarrow> ForwardNotify list \<Rightarrow> Proxy \<Rightarrow> Proxy" where
  "poll_forward_notifications W table s =
     (if \<not> cf_enable_forward_notify (cfg s) \<or> \<not> cf_has_local_forward_notify (cfg s) \<or>
         cf_forward_notify_slots (cfg s) \<le> 0 \<or> forward_seen_epoch s = [] then s
      else (forward_scan_step W table ^^ kScanPerLoop) s)"

section \<open>Collecting a batch\<close>

text \<open>
  \<open>fifo->poll(&cmd)\<close>. A record whose type byte is no enumerator, which \<open>push\<close> never
  writes, reads as a command that is not a \<open>WRITE\<close>.
\<close>

definition read_cmd :: "u64 list \<Rightarrow> TransferCmd" where
  "read_cmd ws = (case words_cmd ws of Some c \<Rightarrow> c | None \<Rightarrow> zero_cmd)"

definition poll_cmd :: "Proxy \<Rightarrow> TransferCmd option \<times> Proxy" where
  "poll_cmd s = (case poll (fifo s) of (r, f) \<Rightarrow> (map_option read_cmd r, s\<lparr>fifo := f\<rparr>))"

definition note_cmd_seen :: "world \<Rightarrow> TransferCmd \<Rightarrow> Proxy \<Rightarrow> Proxy" where
  "note_cmd_seen W cmd s =
     (let (seen_ns, s1) = read_clock W s
      in s1\<lparr>diag := note_seen (enqueue_device_ns cmd) seen_ns (cf_gpu_to_host_offset_ns (cfg s1)) (diag s1)\<rparr>)"

definition may_take :: "int \<Rightarrow> nat \<Rightarrow> Proxy \<Rightarrow> bool" where
  "may_take pre count s \<longleftrightarrow> count < BATCH_SIZE \<and> pre + int count < effective_max_inflight s"

text \<open>
  The two collect loops. Every turn but the last takes a record out of the ring, so the fuel of
  one more than the ring's slots is never used up (\<open>None\<close> would be a loop still running).
\<close>

fun collect_queue ::
    "world \<Rightarrow> nat \<Rightarrow> int \<Rightarrow> TransferCmd list \<Rightarrow> int \<Rightarrow> Proxy \<Rightarrow> (TransferCmd list \<times> int \<times> Proxy) option" where
  "collect_queue W 0 pre batch bq s = None"
| "collect_queue W (Suc fuel) pre batch bq s =
     (if \<not> may_take pre (length batch) s then Some (batch, bq, s)
      else
        case poll_cmd s of
          (None, s1) \<Rightarrow> Some (batch, bq, s1)
        | (Some cmd, s1) \<Rightarrow>
            let s2 = note_cmd_seen W cmd s1
            in if cmd_type cmd = BARRIER_NOTIFY
               then collect_queue W fuel pre batch bq (post_stage_barrier W 0 (cf_epoch (cfg s2)) s2)
               else if cmd_type cmd \<noteq> WRITE then collect_queue W fuel pre batch bq s2
               else
                 let cmd_qp = route_global_qp (cfg s2) cmd - cf_qp_base_idx (cfg s2)
                 in if cmd_qp < 0 \<or> cmd_qp \<ge> cf_num_qps (cfg s2) then collect_queue W fuel pre batch bq s2
                    else
                      let bq' = (if length batch = 0 then cmd_qp else bq)
                      in if cmd_qp \<noteq> bq'
                         then Some (batch, bq', s2\<lparr>pending_cmd := cmd, has_pending_cmd := True\<rparr>)
                         else collect_queue W fuel pre (batch @ [cmd]) bq' s2)"

fun collect_flat ::
    "world \<Rightarrow> nat \<Rightarrow> int \<Rightarrow> TransferCmd list \<Rightarrow> int \<Rightarrow> Proxy \<Rightarrow> (TransferCmd list \<times> int \<times> Proxy) option" where
  "collect_flat W 0 pre batch bq s = None"
| "collect_flat W (Suc fuel) pre batch bq s =
     (if \<not> may_take pre (length batch) s then Some (batch, bq, s)
      else
        case poll_cmd s of
          (None, s1) \<Rightarrow> Some (batch, bq, s1)
        | (Some cmd, s1) \<Rightarrow>
            let s2 = note_cmd_seen W cmd s1
            in if cmd_type cmd = BARRIER_NOTIFY
               then collect_flat W fuel pre batch bq (post_stage_barrier W 0 (cf_epoch (cfg s2)) s2)
               else if cmd_type cmd = WRITE then
                 if cf_channelize_gpu_peers (cfg s2) then
                   let cmd_qp = route_global_qp (cfg s2) cmd - cf_qp_base_idx (cfg s2)
                   in if cmd_qp < 0 \<or> cmd_qp \<ge> cf_num_qps (cfg s2) then collect_flat W fuel pre batch bq s2
                      else
                        let bq' = (if length batch = 0 then cmd_qp else bq)
                        in if cmd_qp \<noteq> bq'
                           then Some (batch, bq', s2\<lparr>pending_cmd := cmd, has_pending_cmd := True\<rparr>)
                           else collect_flat W fuel pre (batch @ [cmd]) bq' s2
                 else collect_flat W fuel pre (batch @ [cmd]) bq s2
               else collect_flat W fuel pre batch bq s2)"

definition take_pending :: "int \<Rightarrow> Proxy \<Rightarrow> TransferCmd list \<times> int \<times> Proxy" where
  "take_pending pre s =
     (if (cf_use_arrival_queue (cfg s) \<or> cf_channelize_gpu_peers (cfg s)) \<and> has_pending_cmd s \<and>
         pre < effective_max_inflight s
      then ([pending_cmd s], route_global_qp (cfg s) (pending_cmd s) - cf_qp_base_idx (cfg s),
            s\<lparr>has_pending_cmd := False\<rparr>)
      else ([], qp_rr_idx s, s))"

definition collect :: "world \<Rightarrow> Proxy \<Rightarrow> (TransferCmd list \<times> int \<times> Proxy) option" where
  "collect W s =
     (let pre = inflight s;
          (batch, bq, s1) = take_pending pre s;
          fuel = Suc (length (triggers (fifo s)))
      in if cf_use_arrival_queue (cfg s) then collect_queue W fuel pre batch bq s1
         else collect_flat W fuel pre batch bq s1)"

section \<open>Diagnostics of an iteration\<close>

definition kBacklogProbeCap :: int where "kBacklogProbeCap = 128"

definition sample_backlog :: "int \<Rightarrow> nat \<Rightarrow> Proxy \<Rightarrow> Proxy" where
  "sample_backlog pre count s =
     (let v0 = int count + (if has_pending_cmd s then 1 else 0);
          visible = (if v0 < kBacklogProbeCap then v0 + count_ready (fifo s) (kBacklogProbeCap - v0) else v0);
          s1 = s\<lparr>diag_total_loops := diag_total_loops s + 1,
                 diag := note_backlog (int BATCH_SIZE) visible (diag s)\<rparr>
      in if count = 0
         then s1\<lparr>diag_empty_loops := diag_empty_loops s1 + 1,
                 diag := (diag s1)\<lparr>empty_loops := empty_loops (diag s1) + 1\<rparr>\<rparr>
         else if count = BATCH_SIZE
         then s1\<lparr>diag_full_batches := diag_full_batches s1 + 1,
                 diag := (diag s1)\<lparr>full_batches := full_batches (diag s1) + 1\<rparr>\<rparr>
         else if pre + int count \<ge> effective_max_inflight s1
         then s1\<lparr>diag_inflight_limited := diag_inflight_limited s1 + 1,
                 diag := (diag s1)\<lparr>inflight_limited_loops := inflight_limited_loops (diag s1) + 1\<rparr>\<rparr>
         else s1\<lparr>diag_partial_batches := diag_partial_batches s1 + 1,
                 diag := (diag s1)\<lparr>partial_batches := partial_batches (diag s1) + 1\<rparr>\<rparr>)"

section \<open>Strided commands of a batch\<close>

definition filter_strided_step ::
    "world \<Rightarrow> int \<Rightarrow> u32 \<Rightarrow> TransferCmd \<Rightarrow> TransferCmd list \<times> int \<times> Proxy \<Rightarrow> TransferCmd list \<times> int \<times> Proxy" where
  "filter_strided_step W bq total_lq cmd acc =
     (let (kept, posted, s) = acc
      in if src_view cmd = 2
         then let (n, s') = post_strided_direct W cmd bq total_lq s in (kept, posted + n, s')
         else (kept @ [cmd], posted, s))"

definition filter_strided ::
    "world \<Rightarrow> TransferCmd list \<Rightarrow> int \<Rightarrow> u32 \<Rightarrow> Proxy \<Rightarrow> TransferCmd list \<times> int \<times> Proxy" where
  "filter_strided W batch bq total_lq s =
     (if batch \<noteq> [] \<and> cf_direct_dmabuf_enabled (cfg s)
      then fold (filter_strided_step W bq total_lq) batch ([], 0, s)
      else (batch, 0, s))"

section \<open>Building and posting a batch\<close>

definition upd_wr :: "nat \<Rightarrow> (ibv_send_wr \<Rightarrow> ibv_send_wr) \<Rightarrow> Proxy \<Rightarrow> Proxy" where
  "upd_wr k g s = s\<lparr>wrs := (wrs s)[k := g (wrs s ! k)]\<rparr>"

definition upd_sge :: "nat \<Rightarrow> (ibv_sge \<Rightarrow> ibv_sge) \<Rightarrow> Proxy \<Rightarrow> Proxy" where
  "upd_sge k g s = s\<lparr>sges := (sges s)[k := g (sges s ! k)]\<rparr>"

text \<open>
  The templates. Request \<open>k\<close> has the single element \<open>sges_[k]\<close> as its list, whose contents
  are read when the chain is posted (\<open>resolve_sges\<close>).
\<close>

definition template_wr :: "ProxyConfig \<Rightarrow> nat \<Rightarrow> ibv_send_wr" where
  "template_wr c k =
     (let w = zero_wr\<lparr>opcode := IBV_WR_RDMA_WRITE\<rparr>
      in if k mod 4 = 0 then w\<lparr>rkey := cf_remote_data_rkey c, next_wr := Some (k + 1)\<rparr>
         else if k mod 4 = 1 then w\<lparr>rkey := cf_remote_flags_rkey c\<rparr>
         else if k mod 4 = 2 then w
         else w\<lparr>rkey := cf_remote_tail_rkey c\<rparr>)"

definition template_sge :: "world \<Rightarrow> ProxyConfig \<Rightarrow> nat \<Rightarrow> ibv_sge" where
  "template_sge W c k =
     (if k mod 4 = 0 then zero_sge\<lparr>sge_lkey := cf_local_data_lkey c\<rparr>
      else if k mod 4 = 1 then staging_word c 0
      else if k mod 4 = 2 then
        \<lparr>sge_addr = w_notify_addr W + of_nat (k div 4) * 32, sge_length = 32, sge_lkey = 0\<rparr>
      else staging_word c BATCH_SIZE)"

definition init_wr_templates :: "world \<Rightarrow> Proxy \<Rightarrow> Proxy" where
  "init_wr_templates W s =
     s\<lparr>wrs := map (template_wr (cfg s)) [0..<BATCH_SIZE * 4],
       sges := map (template_sge W (cfg s)) [0..<BATCH_SIZE * 4], wrs_initialized := True\<rparr>"

definition resolve_sges :: "ibv_send_wr list \<Rightarrow> ibv_sge list \<Rightarrow> ibv_send_wr list" where
  "resolve_sges ws es = map2 (\<lambda>w e. w\<lparr>sg_list := [e]\<rparr>) ws es"

definition build_cmd :: "int \<Rightarrow> nat \<Rightarrow> u32 \<Rightarrow> nat \<Rightarrow> TransferCmd \<Rightarrow> Proxy \<Rightarrow> Proxy" where
  "build_cmd bq count total_lq i cmd s =
     (let c = cfg s;
          di = i * 4; fi = i * 4 + 1; ni = i * 4 + 2; ti = i * 4 + 3;
          is_last = (i + 1 = count);
          last_id = (if is_last then encode_wr_id bq (int count) else 0);
          link = (if is_last then None else Some ((i + 1) * 4));
          do_forward_notify = forward_notify_enabled_for_cmd c cmd;
          direct = (cf_direct_dmabuf_enabled c \<and> src_view cmd = 1);
          s1 = upd_sge di (\<lambda>e. e\<lparr>
                 sge_addr := (if direct then cf_clocal_data_addr c else cf_local_data_addr c) + local_offset cmd,
                 sge_lkey := (if direct then cf_clocal_data_lkey c else cf_local_data_lkey c),
                 sge_length := bytes cmd\<rparr>) s;
          s2 = upd_wr di (\<lambda>w. w\<lparr>remote_addr := remote_data_addr_for_qp c bq + remote_offset cmd,
                 rkey := remote_data_rkey_for_qp c bq\<rparr>) s1;
          flags = remote_flags_addr_for_qp c bq;
          fkey = remote_flags_rkey_for_qp c bq
      in if cf_use_arrival_queue c then
           let s3 = set_staging i (pack_arrival_work (tile_id cmd) (run_tiles (bytes cmd))) s2;
               s4 = upd_sge fi (\<lambda>e. e\<lparr>sge_addr := cf_staging_addr c + of_nat i * 4\<rparr>) s3;
               lq = logical_queue total_lq cmd;
               (q_slot, s5) = take_seq lq s4;
               s6 = upd_wr fi (\<lambda>w. w\<lparr>rkey := fkey, remote_addr := queue_slot_addr c flags lq q_slot\<rparr>) s5
           in if cf_enable_remote_tail c then
                let s7 = set_staging (BATCH_SIZE + i) (q_slot + 1) s6;
                    s8 = upd_sge ti (\<lambda>e. e\<lparr>sge_addr := cf_staging_addr c + of_nat (BATCH_SIZE + i) * 4\<rparr>) s7;
                    s9 = upd_wr fi (\<lambda>w. w\<lparr>wr_id := 0, send_inline := True, send_signaled := False,
                           next_wr := Some ti\<rparr>) s8
                in upd_wr ti (\<lambda>w. w\<lparr>wr_id := last_id, send_inline := True, send_signaled := is_last,
                     remote_addr := remote_tail_addr_for_qp c bq + ucast lq * 4,
                     rkey := remote_tail_rkey_for_qp c bq, next_wr := link\<rparr>) s9
              else
                upd_wr fi (\<lambda>w. w\<lparr>wr_id := last_id, send_inline := True, send_signaled := is_last,
                  next_wr := link\<rparr>) s6
         else
           let s3 = upd_sge fi (\<lambda>e. e\<lparr>sge_addr := cf_staging_addr c\<rparr>) s2;
               s4 = upd_wr fi (\<lambda>w. w\<lparr>rkey := fkey, remote_addr := flags + ucast (tile_id cmd) * 4\<rparr>) s3
           in if do_forward_notify then
                let s5 = s4\<lparr>notify_payload := (notify_payload s4)[i :=
                           \<lparr>fn_bytes = bytes cmd, fn_local_offset = remote_offset cmd, fn_tile_id = tile_id cmd,
                            fn_lane_id = lane_id cmd, fn_reserved0 = reserved0 cmd, fn_src_view = src_view cmd,
                            fn_epoch = cf_epoch c, fn_reserved1 = 0\<rparr>]\<rparr>;
                    s6 = upd_wr fi (\<lambda>w. w\<lparr>wr_id := 0, send_inline := True, send_signaled := False,
                           next_wr := Some ni\<rparr>) s5
                in upd_wr ni (\<lambda>w. w\<lparr>wr_id := last_id, send_inline := True, send_signaled := is_last,
                     rkey := remote_forward_notify_rkey_for_qp c bq,
                     remote_addr := remote_forward_notify_addr_for_qp c bq + ucast (tile_id cmd) * 32,
                     next_wr := link\<rparr>) s6
              else
                upd_wr fi (\<lambda>w. w\<lparr>wr_id := last_id, send_inline := True, send_signaled := is_last,
                  next_wr := link\<rparr>) s4)"

definition build_batch :: "int \<Rightarrow> u32 \<Rightarrow> TransferCmd list \<Rightarrow> Proxy \<Rightarrow> Proxy" where
  "build_batch bq total_lq batch s =
     fold (\<lambda>i. build_cmd bq (length batch) total_lq i (batch ! i)) [0..<length batch] s"

definition total_logical_queues :: "ProxyConfig \<Rightarrow> u32" where
  "total_logical_queues c = word_of_int (cf_global_num_qps c * cf_logical_queues_per_qp c)"

definition note_batch_posted :: "world \<Rightarrow> u64 \<Rightarrow> int \<Rightarrow> nat \<Rightarrow> Proxy \<Rightarrow> Proxy" where
  "note_batch_posted W cmd_ns bq count s =
     (let (post_ns, s1) = read_clock W s;
          s2 = (if \<not> recorded (ts s1) then s1\<lparr>ts := (ts s1)\<lparr>ts_first_post_ns := post_ns\<rparr>\<rparr> else s1);
          s3 = s2\<lparr>diag := note_post cmd_ns post_ns (of_nat count) (diag s2),
                  batch_post_ns := (batch_post_ns s2)[nat bq := batch_post_ns s2 ! nat bq @ [post_ns]],
                  signaled_post_ns := signaled_post_ns s2 @ [post_ns]\<rparr>
      in s3\<lparr>inflight := inflight s3 + int count\<rparr>)"

text \<open>Step 2 of the loop, for a batch that is not empty.\<close>

definition first_cmd_time :: "world \<Rightarrow> Proxy \<Rightarrow> u64 \<times> Proxy" where
  "first_cmd_time W s =
     (let s1 = (if \<not> recorded (ts s)
                then let (t, u) = read_clock W s in u\<lparr>ts := (ts u)\<lparr>ts_first_cmd_ns := t\<rparr>\<rparr> else s);
          (cmd_ns, s2) = read_clock W s1;
          d = (if first_cmd_ns (diag s2) = 0 then (diag s2)\<lparr>first_cmd_ns := cmd_ns\<rparr> else diag s2)
      in (cmd_ns, s2\<lparr>diag := d\<lparr>last_cmd_ns := cmd_ns\<rparr>\<rparr>))"

definition prepare_batch :: "world \<Rightarrow> TransferCmd list \<Rightarrow> int \<Rightarrow> Proxy \<Rightarrow> Proxy" where
  "prepare_batch W batch bq s =
     (let s1 = (if \<not> wrs_initialized s then init_wr_templates W s else s);
          s2 = set_staging 0 (cf_epoch (cfg s1)) s1
      in build_batch bq (total_logical_queues (cfg s)) batch s2)"

definition post_batch :: "world \<Rightarrow> TransferCmd list \<Rightarrow> int \<Rightarrow> Proxy \<Rightarrow> Proxy" where
  "post_batch W batch bq s =
     (let (cmd_ns, s1) = first_cmd_time W s;
          s2 = prepare_batch W batch bq s1;
          (ret, s3) = post_send W bq (wr_chain (resolve_sges (wrs s2) (sges s2))) s2;
          s4 = (if ret \<noteq> 0 then s3 else note_batch_posted W cmd_ns bq (length batch) s3)
      in if \<not> cf_use_arrival_queue (cfg s4)
         then s4\<lparr>qp_rr_idx := c_mod (qp_rr_idx s4 + 1) (cf_num_qps (cfg s4))\<rparr> else s4)"

section \<open>Completions\<close>

record ibv_wc =
  wc_wr_id :: u64
  wc_ok :: bool

text \<open>\<open>wcs\<close> is what \<open>ibv_poll_cq\<close> returned, \<open>[]\<close> when it returned zero or an error.\<close>

definition reap_one :: "Proxy \<Rightarrow> ibv_wc \<Rightarrow> Proxy" where
  "reap_one s wc =
     (let local_qp = decode_wr_local_qp (wc_wr_id wc);
          wr_count = decode_wr_count (wc_wr_id wc);
          s1 = s\<lparr>completion_ns := completion_ns s @ [last_completion_ns (diag s)]\<rparr>;
          s2 = (if 0 \<le> local_qp \<and> local_qp < kMaxExchangeQPs \<and> batch_post_ns s1 ! nat local_qp \<noteq> []
                then let q = batch_post_ns s1 ! nat local_qp
                     in s1\<lparr>batch_post_ns := (batch_post_ns s1)[nat local_qp := tl q],
                           diag := note_completion_latency (last_completion_ns (diag s1) - hd q) (diag s1)\<rparr>
                else s1)
      in s2\<lparr>diag := (diag s2)\<lparr>cmds_completed := cmds_completed (diag s2) + word_of_int wr_count\<rparr>,
            inflight := inflight s2 - wr_count\<rparr>)"

definition reap_completions :: "world \<Rightarrow> ibv_wc list \<Rightarrow> Proxy \<Rightarrow> Proxy" where
  "reap_completions W wcs s =
     (let s1 = (if wcs \<noteq> [] \<and> \<not> recorded (ts s)
                then let (t, u) = read_clock W s
                     in u\<lparr>ts := (ts u)\<lparr>ts_first_completion_ns := t, recorded := True\<rparr>\<rparr> else s);
          s2 = (if wcs \<noteq> []
                then let (t, u) = read_clock W s1;
                         d = (if first_completion_ns (diag u) = 0
                              then (diag u)\<lparr>first_completion_ns := t\<rparr> else diag u)
                     in u\<lparr>diag := d\<lparr>last_completion_ns := t\<rparr>\<rparr> else s1)
      in foldl reap_one s2 wcs)"

text \<open>
  \<open>drain_cq\<close>: \<open>polls\<close> lists what successive polls of the queue return; \<open>None\<close> when the
  loop is still waiting after all of them. The result is the number of commands retired.
\<close>

definition drain_one :: "int \<times> Proxy \<Rightarrow> ibv_wc \<Rightarrow> int \<times> Proxy" where
  "drain_one acc wc =
     (let (retired, s) = acc;
          local_qp = decode_wr_local_qp (wc_wr_id wc);
          wr_count = decode_wr_count (wc_wr_id wc);
          s1 = (if 0 \<le> local_qp \<and> local_qp < kMaxExchangeQPs \<and> batch_post_ns s ! nat local_qp \<noteq> []
                then s\<lparr>batch_post_ns := (batch_post_ns s)[nat local_qp := tl (batch_post_ns s ! nat local_qp)]\<rparr>
                else s)
      in (retired + wr_count, s1\<lparr>inflight := inflight s1 - wr_count\<rparr>))"

fun drain_cq :: "ibv_wc list list \<Rightarrow> int \<times> Proxy \<Rightarrow> (int \<times> Proxy) option" where
  "drain_cq polls (retired, s) =
     (if inflight s > 0 then
        (case polls of [] \<Rightarrow> None | wcs # rest \<Rightarrow> drain_cq rest (foldl drain_one (retired, s) wcs))
      else Some (retired, s))"

declare drain_cq.simps [simp del]

section \<open>The main loop\<close>

definition pass_gate :: "world \<Rightarrow> Proxy \<Rightarrow> Proxy" where
  "pass_gate W s =
     (if \<not> recorded (ts s)
      then let (t, u) = read_clock W s in u\<lparr>ts := (ts u)\<lparr>proxy_start_ns := t\<rparr>\<rparr> else s)"

text \<open>
  What an iteration finds: the commands the GPU has pushed since the last one, the pause flag,
  the notice table and the completions. A push that finds the ring full has not happened yet.
\<close>

record loop_in =
  in_cmds :: "TransferCmd list"
  in_paused :: bool
  in_table :: "ForwardNotify list"
  in_wcs :: "ibv_wc list"

definition loop_head :: "world \<Rightarrow> u64 \<Rightarrow> Proxy \<Rightarrow> u64 \<times> Proxy" where
  "loop_head W prev_ns s =
     (let (t, s1) = read_clock W s in (t, s1\<lparr>diag := note_loop_gap prev_ns t (diag s1)\<rparr>))"

definition forward_step :: "world \<Rightarrow> ForwardNotify list \<Rightarrow> Proxy \<Rightarrow> Proxy" where
  "forward_step W table s =
     (if inflight s < effective_max_inflight s then poll_forward_notifications W table s else s)"

definition loop_post :: "world \<Rightarrow> int \<Rightarrow> TransferCmd list \<Rightarrow> int \<Rightarrow> Proxy \<Rightarrow> nat \<times> Proxy" where
  "loop_post W pre batch bq s =
     (let s1 = sample_backlog pre (length batch) s;
          (kept, strided_posted, s2) = filter_strided W batch bq (total_logical_queues (cfg s1)) s1;
          s3 = (if kept \<noteq> [] then post_batch W kept bq s2 else s2);
          s4 = (if strided_posted > 0
                then s3\<lparr>inflight := inflight s3 + strided_posted,
                        diag := (diag s3)\<lparr>cmds_posted := cmds_posted (diag s3) + word_of_int strided_posted\<rparr>\<rparr>
                else s3)
      in (length kept, s4))"

definition loop_body :: "world \<Rightarrow> loop_in \<Rightarrow> u64 \<Rightarrow> Proxy \<Rightarrow> (u64 \<times> Proxy) option" where
  "loop_body W io prev_ns s0 =
     (let (t, s1) = loop_head W prev_ns s0
      in if in_paused io then Some (t, pass_gate W s1)
         else
           let s2 = forward_step W (in_table io) s1;
               pre = inflight s2
           in case collect W s2 of
                None \<Rightarrow> None
              | Some (batch, bq, s3) \<Rightarrow>
                  let (count, s4) = loop_post W pre batch bq s3;
                      s5 = reap_completions W (in_wcs io) s4
                  in Some (t, if count > 0 then s5\<lparr>fifo := advance_tail (fifo s5) (cpu_head (fifo s5))\<rparr> else s5))"

definition gpu_pushes :: "TransferCmd list \<Rightarrow> D2HFifo \<Rightarrow> D2HFifo" where
  "gpu_pushes cmds f = fold (\<lambda>c g. case push c g of None \<Rightarrow> g | Some (slot, g') \<Rightarrow> g') cmds f"

fun run_loop :: "world \<Rightarrow> loop_in list \<Rightarrow> u64 \<Rightarrow> Proxy \<Rightarrow> (u64 \<times> Proxy) option" where
  "run_loop W [] prev_ns s = Some (prev_ns, s)"
| "run_loop W (io # ios) prev_ns s =
     (case loop_body W io prev_ns (s\<lparr>fifo := gpu_pushes (in_cmds io) (fifo s)\<rparr>) of None \<Rightarrow> None | Some (t, s') \<Rightarrow> run_loop W ios t s')"

text \<open>The drain before the thread exits.\<close>

fun exit_drain :: "ibv_wc list list \<Rightarrow> Proxy \<Rightarrow> Proxy option" where
  "exit_drain polls s =
     (if inflight s > 0 then
        (case polls of
           [] \<Rightarrow> None
         | wcs # rest \<Rightarrow>
             exit_drain rest (s\<lparr>inflight := inflight s - (\<Sum>wc \<leftarrow> wcs. decode_wr_count (wc_wr_id wc))\<rparr>))
      else Some s)"

declare exit_drain.simps [simp del]

end
