(* ===== verification/Proxy_CX7_Chains.thy ===== *)
theory Proxy_CX7_Chains
  imports Proxy_CX7
begin

text \<open>
  The work request chains of \<^verbatim>\<open>proxy.h\<close>: what a request id carries, what posting a
  chain is worth against the \<open>inflight\<close> counter, the links of a batch built in the template
  arrays, and the rows a strided gather covers.
\<close>

section \<open>Work request ids\<close>

lemma mask32_u64: "(0xffffffff :: u64) = mask 32"
  by (simp add: mask_eq_exp_minus_1)

lemma decode_encode_low: "ucast (encode_wr_id q n AND 0xffffffff) = (word_of_int n :: u32)"
  unfolding encode_wr_id_def mask32_u64
  by (auto intro!: bit_word_eqI simp: bit_simps bit_out)

lemma decode_encode_high: "ucast (drop_bit 32 (encode_wr_id q n) AND 0xffffffff) = (word_of_int q :: u32)"
  unfolding encode_wr_id_def mask32_u64
  by (auto intro!: bit_word_eqI simp: bit_simps bit_out)

lemma sint_u32: "0 \<le> n \<Longrightarrow> n < 2 ^ 31 \<Longrightarrow> sint (word_of_int n :: u32) = n"
  by (simp add: signed_of_int signed_take_bit_int_eq_self)

lemma decode_count_encode [simp]: "0 \<le> n \<Longrightarrow> n < 2 ^ 31 \<Longrightarrow> decode_wr_count (encode_wr_id q n) = n"
  by (simp only: decode_wr_count_def decode_encode_low sint_u32)

lemma decode_qp_encode [simp]: "0 \<le> q \<Longrightarrow> q < 2 ^ 31 \<Longrightarrow> decode_wr_local_qp (encode_wr_id q n) = q"
  by (simp only: decode_wr_local_qp_def decode_encode_high sint_u32)

section \<open>Chains\<close>

lemma follow_drop:
  assumes "\<And>k. k + 1 < length ws \<Longrightarrow> next_wr (ws ! k) = Some (Suc k)" "next_wr (last ws) = None"
    and "i < length ws" "length ws - i \<le> n"
  shows "follow ws n i = drop i ws"
  using assms(3,4)
proof (induction n arbitrary: i)
  case (Suc n)
  show ?case
  proof (cases "i + 1 < length ws")
    case True
    then show ?thesis using Suc assms(1)[OF True] by (simp add: Cons_nth_drop_Suc)
  next
    case False
    then have i: "i = length ws - 1" using Suc.prems(1) by simp
    have "ws \<noteq> []" using Suc.prems(1) by auto
    then have "ws ! i = last ws" using i by (simp add: last_conv_nth)
    then show ?thesis using assms(2) i Suc.prems(1) by (simp add: Cons_nth_drop_Suc[symmetric])
  qed
qed simp

lemma wr_chain_consecutive:
  assumes "ws \<noteq> []" "\<And>k. k + 1 < length ws \<Longrightarrow> next_wr (ws ! k) = Some (Suc k)" "next_wr (last ws) = None"
  shows "wr_chain ws = ws"
  using follow_drop[OF assms(2,3), of 0 "length ws"] assms(1) by (simp add: wr_chain_def)

lemma wr_chain_single [simp]: "next_wr w = None \<Longrightarrow> wr_chain [w] = [w]"
  by (simp add: wr_chain_def)

section \<open>What a post is worth\<close>

text \<open>
  The ledger: the counts that the completions of the successful posts will give back, against
  the proxy's own \<open>inflight\<close> counter.
\<close>

definition credit_wr :: "ibv_send_wr \<Rightarrow> int" where
  "credit_wr w = (if send_signaled w then decode_wr_count (wr_id w) else 0)"

definition credit_post :: "post \<Rightarrow> int" where
  "credit_post p = (if po_ret p = 0 then \<Sum>w \<leftarrow> po_chain p. credit_wr w else 0)"

definition ledger :: "Proxy \<Rightarrow> int" where
  "ledger s = inflight s - (\<Sum>p \<leftarrow> posts s. credit_post p)"

definition retired :: "ibv_wc list \<Rightarrow> int" where
  "retired wcs = (\<Sum>wc \<leftarrow> wcs. decode_wr_count (wc_wr_id wc))"

lemma ledger_post_send:
  assumes "post_send W q ch s = (ret, t)"
  shows "ledger t = ledger s - (if ret = 0 then \<Sum>w \<leftarrow> ch. credit_wr w else 0)" "inflight t = inflight s"
  using assms by (auto simp: post_send_def Let_def ledger_def credit_post_def)

lemma ledger_cong:
  assumes "inflight t = inflight s" "posts t = posts s"
  shows "ledger t = ledger s"
  using assms by (simp add: ledger_def)

text \<open>Updates the ledger does not see.\<close>

lemma read_clock_frame:
  assumes "read_clock W s = (t, u)"
  shows "u = s\<lparr>ticks := Suc (ticks s)\<rparr>"
  using assms by (auto simp: read_clock_def)

lemma take_seq_frame:
  assumes "take_seq q s = (v, t)"
  shows "t = s\<lparr>sender_seq := (sender_seq s)[unat q := sender_seq s ! unat q + 1]\<rparr>" "v = sender_seq s ! unat q"
  using assms by (auto simp: take_seq_def)

lemma barrier_credit [simp]:
  "(\<Sum>w \<leftarrow> wr_chain [barrier_wr W q a k sl]. credit_wr w) = 1"
  by (simp add: barrier_wr_def credit_wr_def)

lemma fold_ledger:
  assumes "\<And>x s. x \<in> set xs \<Longrightarrow> ledger (f x s) = ledger s"
  shows "ledger (fold f xs s) = ledger s"
  using assms by (induction xs arbitrary: s) auto

lemma ledger_counted_post:
  assumes "(\<Sum>w \<leftarrow> ch. credit_wr w) = k"
  shows "ledger (case post_send W q ch s of (ret, t) \<Rightarrow>
    if ret \<noteq> 0 then t else t\<lparr>inflight := inflight t + k\<rparr>) = ledger s"
  using assms by (simp add: post_send_def Let_def ledger_def credit_post_def)

lemma ledger_barrier_to_peer [simp]: "ledger (barrier_to_peer W sl ch k p s) = ledger s"
  unfolding barrier_to_peer_def Let_def by (rule ledger_counted_post[OF barrier_credit])

lemma ledger_stage_barrier [simp]: "ledger (post_stage_barrier W sl tok s) = ledger s"
proof -
  have "ledger (s\<lparr>barrier_token := tok\<rparr>) = ledger s" by (rule ledger_cong) simp_all
  then show ?thesis
    unfolding post_stage_barrier_def Let_def by (subst fold_ledger) simp_all
qed

section \<open>The strided gather\<close>

lemma length_strided_data_wrs [simp]:
  "length (strided_data_wrs c b sp rows m rk w n rc ra) = n"
  by (induction n arbitrary: w rc ra) (simp_all add: Let_def)

lemma strided_data_next:
  "k < n \<Longrightarrow> next_wr (strided_data_wrs c b sp rows m rk w n rc ra ! k) = Some (Suc (w + k))"
proof (induction n arbitrary: w rc ra k)
  case (Suc n)
  then show ?case by (cases k) (simp_all add: Let_def)
qed simp

lemma strided_data_credit [simp]:
  "(\<Sum>x \<leftarrow> strided_data_wrs c b sp rows m rk w n rc ra. credit_wr x) = 0"
  by (induction n arbitrary: w rc ra) (simp_all add: Let_def credit_wr_def zero_wr_def)

lemma strided_chain:
  assumes "ending \<noteq> []" "\<And>k. k + 1 < length ending \<Longrightarrow> next_wr (ending ! k) = Some (n + Suc k)"
    and "next_wr (last ending) = None"
  shows "wr_chain (strided_data_wrs c b sp rows m rk 0 n rc ra @ ending) =
    strided_data_wrs c b sp rows m rk 0 n rc ra @ ending"
proof (rule wr_chain_consecutive)
  fix k assume k: "k + 1 < length (strided_data_wrs c b sp rows m rk 0 n rc ra @ ending)"
  show "next_wr ((strided_data_wrs c b sp rows m rk 0 n rc ra @ ending) ! k) = Some (Suc k)"
  proof (cases "k < n")
    case True
    then show ?thesis by (simp add: nth_append strided_data_next)
  next
    case False
    then show ?thesis using k assms(2)[of "k - n"] by (simp add: nth_append)
  qed
qed (use assms in simp_all)

lemma ledger_set_staging [simp]: "ledger (set_staging i v s) = ledger s"
  by (rule ledger_cong) (simp_all add: set_staging_def)

lemma ledger_take_seq: "take_seq q s = (v, t) \<Longrightarrow> ledger t = ledger s"
  by (auto simp: take_seq_def intro!: ledger_cong)

lemma strided_ending_links:
  shows "strided_ending c cmd bq lq qs \<noteq> []"
    and "\<And>k. k + 1 < length (strided_ending c cmd bq lq qs) \<Longrightarrow>
      next_wr (strided_ending c cmd bq lq qs ! k) = Some (strided_n c cmd + Suc k)"
    and "next_wr (last (strided_ending c cmd bq lq qs)) = None"
  by (auto simp: strided_ending_def)

lemma strided_whole_chain:
  "wr_chain (strided_data c cmd bq @ strided_ending c cmd bq lq qs) =
     strided_data c cmd bq @ strided_ending c cmd bq lq qs"
  unfolding strided_data_def by (rule strided_chain) (use strided_ending_links in auto)

lemma strided_credit:
  assumes "\<not> strided_rejected c cmd"
  shows "(\<Sum>w \<leftarrow> strided_data c cmd bq. credit_wr w) = 0"
    "(\<Sum>w \<leftarrow> strided_ending c cmd bq lq qs. credit_wr w) = strided_slots c cmd"
proof -
  show "(\<Sum>w \<leftarrow> strided_data c cmd bq. credit_wr w) = 0" by (simp add: strided_data_def)
  show "(\<Sum>w \<leftarrow> strided_ending c cmd bq lq qs. credit_wr w) = strided_slots c cmd"
    using assms by (simp add: strided_ending_def strided_slots_def credit_wr_def strided_flag_def
      zero_wr_def strided_rejected_def kMaxDataWrs_def not_less)
qed

text \<open>The gather returns what its completion will retire, and zero when nothing was posted.\<close>

lemma ledger_stage_strided: "stage_strided cmd tlq s = (lq, qs, t) \<Longrightarrow> ledger t = ledger s"
  by (auto simp: stage_strided_def Let_def ledger_take_seq split: if_splits prod.splits)

lemma ledger_post_strided:
  assumes "post_strided_direct W cmd bq tlq s = (n, t)"
  shows "ledger t = ledger s - n"
  using assms unfolding post_strided_direct_def Let_def
  by (auto simp: strided_whole_chain strided_credit ledger_stage_strided
      split: if_splits prod.splits dest!: ledger_post_send(1))

section \<open>The requests of a batch\<close>

lemma upd_fields [simp]:
  "wrs (upd_wr k g s) = (wrs s)[k := g (wrs s ! k)]" "sges (upd_wr k g s) = sges s"
  "sges (upd_sge k h s) = (sges s)[k := h (sges s ! k)]" "wrs (upd_sge k h s) = wrs s"
  "cfg (upd_wr k g s) = cfg s" "cfg (upd_sge k h s) = cfg s"
  "sender_seq (upd_wr k g s) = sender_seq s" "sender_seq (upd_sge k h s) = sender_seq s"
  "staging (upd_wr k g s) = staging s" "staging (upd_sge k h s) = staging s"
  "notify_payload (upd_wr k g s) = notify_payload s" "notify_payload (upd_sge k h s) = notify_payload s"
  "posts (upd_wr k g s) = posts s" "posts (upd_sge k h s) = posts s"
  "inflight (upd_wr k g s) = inflight s" "inflight (upd_sge k h s) = inflight s"
  "wrs_initialized (upd_wr k g s) = wrs_initialized s" "wrs_initialized (upd_sge k h s) = wrs_initialized s"
  "fifo (upd_wr k g s) = fifo s" "fifo (upd_sge k h s) = fifo s"
  by (simp_all add: upd_wr_def upd_sge_def)

lemma set_staging_fields [simp]:
  "wrs (set_staging k v s) = wrs s" "sges (set_staging k v s) = sges s"
  "cfg (set_staging k v s) = cfg s" "sender_seq (set_staging k v s) = sender_seq s"
  "staging (set_staging k v s) = (staging s)[k := v]" "notify_payload (set_staging k v s) = notify_payload s"
  "posts (set_staging k v s) = posts s" "inflight (set_staging k v s) = inflight s"
  "wrs_initialized (set_staging k v s) = wrs_initialized s" "fifo (set_staging k v s) = fifo s"
  by (simp_all add: set_staging_def)

text \<open>What an index of the template arrays always holds.\<close>

definition wr_slot_ok :: "nat \<Rightarrow> ibv_send_wr \<Rightarrow> bool" where
  "wr_slot_ok k w \<longleftrightarrow> opcode w = IBV_WR_RDMA_WRITE \<and> sg_list w = [] \<and>
     (k mod 4 = 0 \<longrightarrow> next_wr w = Some (k + 1) \<and> wr_id w = 0 \<and> \<not> send_inline w \<and> \<not> send_signaled w)"

definition sge_slot_ok :: "world \<Rightarrow> ProxyConfig \<Rightarrow> nat \<Rightarrow> ibv_sge \<Rightarrow> bool" where
  "sge_slot_ok W c k e \<longleftrightarrow>
     (k mod 4 = 1 \<or> k mod 4 = 3 \<longrightarrow> sge_length e = 4 \<and> sge_lkey e = cf_staging_lkey c) \<and>
     (k mod 4 = 2 \<longrightarrow> e = template_sge W c k)"

definition templates_ok :: "world \<Rightarrow> Proxy \<Rightarrow> bool" where
  "templates_ok W s \<longleftrightarrow> length (wrs s) = BATCH_SIZE * 4 \<and> length (sges s) = BATCH_SIZE * 4 \<and>
     (\<forall>k < BATCH_SIZE * 4. wr_slot_ok k (wrs s ! k) \<and> sge_slot_ok W (cfg s) k (sges s ! k))"

lemma templates_init: "templates_ok W (init_wr_templates W s)"
  by (auto simp: templates_ok_def init_wr_templates_def wr_slot_ok_def sge_slot_ok_def template_wr_def
      template_sge_def zero_wr_def staging_word_def Let_def)

text \<open>The requests one command contributes, in chain order.\<close>

definition data_wr :: "ProxyConfig \<Rightarrow> int \<Rightarrow> nat \<Rightarrow> TransferCmd \<Rightarrow> ibv_send_wr" where
  "data_wr c bq i cmd =
     (let direct = (cf_direct_dmabuf_enabled c \<and> src_view cmd = 1)
      in zero_wr\<lparr>opcode := IBV_WR_RDMA_WRITE,
           sg_list := [\<lparr>sge_addr = (if direct then cf_clocal_data_addr c else cf_local_data_addr c) + local_offset cmd,
                        sge_length = bytes cmd,
                        sge_lkey = (if direct then cf_clocal_data_lkey c else cf_local_data_lkey c)\<rparr>],
           remote_addr := remote_data_addr_for_qp c bq + remote_offset cmd,
           rkey := remote_data_rkey_for_qp c bq, next_wr := Some (i * 4 + 1)\<rparr>)"

definition meta_wr :: "u64 \<Rightarrow> bool \<Rightarrow> nat option \<Rightarrow> ibv_sge \<Rightarrow> u64 \<Rightarrow> u32 \<Rightarrow> ibv_send_wr" where
  "meta_wr wid sig link e raddr rk =
     zero_wr\<lparr>opcode := IBV_WR_RDMA_WRITE, sg_list := [e], wr_id := wid, send_inline := True,
       send_signaled := sig, remote_addr := raddr, rkey := rk, next_wr := link\<rparr>"

definition cmd_segment ::
    "world \<Rightarrow> ProxyConfig \<Rightarrow> int \<Rightarrow> nat \<Rightarrow> u32 \<Rightarrow> nat \<Rightarrow> TransferCmd \<Rightarrow> u32 \<Rightarrow> ibv_send_wr list" where
  "cmd_segment W c bq count total_lq i cmd q_slot =
     (let is_last = (i + 1 = count);
          last_id = (if is_last then encode_wr_id bq (int count) else 0);
          link = (if is_last then None else Some ((i + 1) * 4));
          lq = logical_queue total_lq cmd;
          flags = remote_flags_addr_for_qp c bq;
          fkey = remote_flags_rkey_for_qp c bq
      in data_wr c bq i cmd #
         (if cf_use_arrival_queue c then
            if cf_enable_remote_tail c then
              [meta_wr 0 False (Some (i * 4 + 3)) (staging_word c i) (queue_slot_addr c flags lq q_slot) fkey,
               meta_wr last_id is_last link (staging_word c (BATCH_SIZE + i))
                 (remote_tail_addr_for_qp c bq + ucast lq * 4) (remote_tail_rkey_for_qp c bq)]
            else
              [meta_wr last_id is_last link (staging_word c i) (queue_slot_addr c flags lq q_slot) fkey]
          else if forward_notify_enabled_for_cmd c cmd then
            [meta_wr 0 False (Some (i * 4 + 2)) (staging_word c 0) (flags + ucast (tile_id cmd) * 4) fkey,
             meta_wr last_id is_last link (template_sge W c (i * 4 + 2))
               (remote_forward_notify_addr_for_qp c bq + ucast (tile_id cmd) * 32)
               (remote_forward_notify_rkey_for_qp c bq)]
          else
            [meta_wr last_id is_last link (staging_word c 0) (flags + ucast (tile_id cmd) * 4) fkey]))"

text \<open>The array indices of the segment.\<close>

definition segment_idx :: "ProxyConfig \<Rightarrow> nat \<Rightarrow> TransferCmd \<Rightarrow> nat list" where
  "segment_idx c i cmd =
     (if cf_use_arrival_queue c then
        if cf_enable_remote_tail c then [i * 4, i * 4 + 1, i * 4 + 3] else [i * 4, i * 4 + 1]
      else if forward_notify_enabled_for_cmd c cmd then [i * 4, i * 4 + 1, i * 4 + 2] else [i * 4, i * 4 + 1])"

lemma take_seq_eq: "take_seq q s = (sender_seq s ! unat q,
    s\<lparr>sender_seq := (sender_seq s)[unat q := sender_seq s ! unat q + 1]\<rparr>)"
  by (simp add: take_seq_def)

lemma build_cmd_frame [simp]:
  "cfg (build_cmd bq n tlq i cmd s) = cfg s" "posts (build_cmd bq n tlq i cmd s) = posts s"
  "inflight (build_cmd bq n tlq i cmd s) = inflight s"
  "length (wrs (build_cmd bq n tlq i cmd s)) = length (wrs s)"
  "length (sges (build_cmd bq n tlq i cmd s)) = length (sges s)"
  "fifo (build_cmd bq n tlq i cmd s) = fifo s"
  "wrs_initialized (build_cmd bq n tlq i cmd s) = wrs_initialized s"
  by (simp_all add: build_cmd_def Let_def take_seq_eq)

lemma build_cmd_seq:
  "sender_seq (build_cmd bq n tlq i cmd s) =
     (if cf_use_arrival_queue (cfg s)
      then let q = unat (logical_queue tlq cmd) in (sender_seq s)[q := sender_seq s ! q + 1]
      else sender_seq s)"
  by (simp add: build_cmd_def Let_def take_seq_eq)

lemma build_cmd_other:
  assumes "k div 4 \<noteq> i"
  shows "wrs (build_cmd bq n tlq i cmd s) ! k = wrs s ! k" "sges (build_cmd bq n tlq i cmd s) ! k = sges s ! k"
proof -
  have "k \<noteq> i * 4" "k \<noteq> i * 4 + 1" "k \<noteq> i * 4 + 2" "k \<noteq> i * 4 + 3" using assms by auto
  then show "wrs (build_cmd bq n tlq i cmd s) ! k = wrs s ! k" "sges (build_cmd bq n tlq i cmd s) ! k = sges s ! k"
    by (simp_all add: build_cmd_def Let_def take_seq_eq)
qed

definition entry :: "Proxy \<Rightarrow> nat \<Rightarrow> ibv_send_wr" where
  "entry s k = (wrs s ! k)\<lparr>sg_list := [sges s ! k]\<rparr>"

lemma wr_eqI:
  fixes a b :: ibv_send_wr
  assumes "wr_id a = wr_id b" "next_wr a = next_wr b" "sg_list a = sg_list b" "opcode a = opcode b"
    "send_inline a = send_inline b" "send_signaled a = send_signaled b" "remote_addr a = remote_addr b"
    "rkey a = rkey b"
  shows "a = b"
  using assms by (cases a; cases b) simp

lemma sge_eqI:
  fixes a b :: ibv_sge
  assumes "sge_addr a = sge_addr b" "sge_length a = sge_length b" "sge_lkey a = sge_lkey b"
  shows "a = b"
  using assms by (cases a; cases b) simp

lemma templates_slots:
  assumes "templates_ok W s" "i < BATCH_SIZE"
  shows "i * 4 + 3 < length (wrs s)" "i * 4 + 3 < length (sges s)"
    "wr_slot_ok (i * 4) (wrs s ! (i * 4))" "wr_slot_ok (i * 4 + 1) (wrs s ! (i * 4 + 1))"
    "wr_slot_ok (i * 4 + 2) (wrs s ! (i * 4 + 2))" "wr_slot_ok (i * 4 + 3) (wrs s ! (i * 4 + 3))"
    "sge_slot_ok W (cfg s) (i * 4 + 1) (sges s ! (i * 4 + 1))"
    "sge_slot_ok W (cfg s) (i * 4 + 2) (sges s ! (i * 4 + 2))"
    "sge_slot_ok W (cfg s) (i * 4 + 3) (sges s ! (i * 4 + 3))"
proof -
  have k: "i * 4 + j < BATCH_SIZE * 4" if "j \<le> 3" for j using assms(2) that by simp
  show "i * 4 + 3 < length (wrs s)" "i * 4 + 3 < length (sges s)"
    "wr_slot_ok (i * 4) (wrs s ! (i * 4))" "wr_slot_ok (i * 4 + 1) (wrs s ! (i * 4 + 1))"
    "wr_slot_ok (i * 4 + 2) (wrs s ! (i * 4 + 2))" "wr_slot_ok (i * 4 + 3) (wrs s ! (i * 4 + 3))"
    "sge_slot_ok W (cfg s) (i * 4 + 1) (sges s ! (i * 4 + 1))"
    "sge_slot_ok W (cfg s) (i * 4 + 2) (sges s ! (i * 4 + 2))"
    "sge_slot_ok W (cfg s) (i * 4 + 3) (sges s ! (i * 4 + 3))"
    using assms(1) k[of 0] k[of 1] k[of 2] k[of 3] unfolding templates_ok_def by auto
qed

lemmas build_simps = entry_def build_cmd_def meta_wr_def Let_def take_seq_eq wr_slot_ok_def sge_slot_ok_def
  zero_wr_def nth_list_update staging_word_def

lemma build_cmd_data:
  assumes "templates_ok W s" "i < BATCH_SIZE"
  shows "entry (build_cmd bq n tlq i cmd s) (i * 4) = data_wr (cfg s) bq i cmd"
  using templates_slots[OF assms]
  by (intro wr_eqI) (auto simp: build_simps data_wr_def intro!: sge_eqI)

lemma build_cmd_queue:
  assumes "templates_ok W s" "i < BATCH_SIZE" "cf_use_arrival_queue (cfg s)"
  shows "entry (build_cmd bq n tlq i cmd s) (i * 4 + 1) =
    (let lq = logical_queue tlq cmd;
         a = queue_slot_addr (cfg s) (remote_flags_addr_for_qp (cfg s) bq) lq (sender_seq s ! unat lq);
         k = remote_flags_rkey_for_qp (cfg s) bq
     in if cf_enable_remote_tail (cfg s) then meta_wr 0 False (Some (i * 4 + 3)) (staging_word (cfg s) i) a k
        else meta_wr (if i + 1 = n then encode_wr_id bq (int n) else 0) (i + 1 = n)
          (if i + 1 = n then None else Some ((i + 1) * 4)) (staging_word (cfg s) i) a k)"
proof -
  have m: "(i * 4 + 1) mod 4 = 1" by presburger
  show ?thesis
    using templates_slots(1,2,4,7)[OF assms(1,2)] assms(3) m
    by (intro wr_eqI) (simp_all add: build_simps)
qed

lemma build_cmd_tail:
  assumes "templates_ok W s" "i < BATCH_SIZE" "cf_use_arrival_queue (cfg s)" "cf_enable_remote_tail (cfg s)"
  shows "entry (build_cmd bq n tlq i cmd s) (i * 4 + 3) =
    meta_wr (if i + 1 = n then encode_wr_id bq (int n) else 0) (i + 1 = n)
      (if i + 1 = n then None else Some ((i + 1) * 4)) (staging_word (cfg s) (BATCH_SIZE + i))
      (remote_tail_addr_for_qp (cfg s) bq + ucast (logical_queue tlq cmd) * 4)
      (remote_tail_rkey_for_qp (cfg s) bq)"
proof -
  have m: "(i * 4 + 3) mod 4 = 3" by presburger
  show ?thesis
    using templates_slots(1,2,6,9)[OF assms(1,2)] assms(3,4) m
    by (intro wr_eqI) (simp_all add: build_simps)
qed

lemma build_cmd_flat:
  assumes "templates_ok W s" "i < BATCH_SIZE" "\<not> cf_use_arrival_queue (cfg s)"
  shows "entry (build_cmd bq n tlq i cmd s) (i * 4 + 1) =
    (let a = remote_flags_addr_for_qp (cfg s) bq + ucast (tile_id cmd) * 4;
         k = remote_flags_rkey_for_qp (cfg s) bq
     in if forward_notify_enabled_for_cmd (cfg s) cmd
        then meta_wr 0 False (Some (i * 4 + 2)) (staging_word (cfg s) 0) a k
        else meta_wr (if i + 1 = n then encode_wr_id bq (int n) else 0) (i + 1 = n)
          (if i + 1 = n then None else Some ((i + 1) * 4)) (staging_word (cfg s) 0) a k)"
proof -
  have m: "(i * 4 + 1) mod 4 = 1" by presburger
  show ?thesis
    using templates_slots(1,2,4,7)[OF assms(1,2)] assms(3) m
    by (intro wr_eqI) (simp_all add: build_simps)
qed

lemma build_cmd_notify:
  assumes "templates_ok W s" "i < BATCH_SIZE" "\<not> cf_use_arrival_queue (cfg s)"
    and "forward_notify_enabled_for_cmd (cfg s) cmd"
  shows "entry (build_cmd bq n tlq i cmd s) (i * 4 + 2) =
    meta_wr (if i + 1 = n then encode_wr_id bq (int n) else 0) (i + 1 = n)
      (if i + 1 = n then None else Some ((i + 1) * 4)) (template_sge W (cfg s) (i * 4 + 2))
      (remote_forward_notify_addr_for_qp (cfg s) bq + ucast (tile_id cmd) * 32)
      (remote_forward_notify_rkey_for_qp (cfg s) bq)"
proof -
  have m: "(i * 4 + 2) mod 4 = 2" by presburger
  show ?thesis
    using templates_slots(1,2,5,8)[OF assms(1,2)] assms(3,4) m
    by (intro wr_eqI) (simp_all add: build_simps)
qed

lemma build_cmd_segment:
  assumes "templates_ok W s" "i < BATCH_SIZE"
  shows "map (entry (build_cmd bq n tlq i cmd s)) (segment_idx (cfg s) i cmd) =
    cmd_segment W (cfg s) bq n tlq i cmd (sender_seq s ! unat (logical_queue tlq cmd))"
  using build_cmd_data[OF assms] build_cmd_queue[OF assms] build_cmd_tail[OF assms]
    build_cmd_flat[OF assms] build_cmd_notify[OF assms]
  unfolding segment_idx_def cmd_segment_def Let_def by simp

lemma build_cmd_templates:
  assumes ok: "templates_ok W s" and i: "i < BATCH_SIZE"
  shows "templates_ok W (build_cmd bq n tlq i cmd s)"
proof -
  have m: "(i * 4 + 1) mod 4 = 1" "(i * 4 + 2) mod 4 = 2" "(i * 4 + 3) mod 4 = 3" by presburger+
  note t = templates_slots[OF ok i]
  have own: "wr_slot_ok k (wrs (build_cmd bq n tlq i cmd s) ! k) \<and>
      sge_slot_ok W (cfg s) k (sges (build_cmd bq n tlq i cmd s) ! k)"
    if k: "k = i * 4 \<or> k = i * 4 + 1 \<or> k = i * 4 + 2 \<or> k = i * 4 + 3" for k
    using k t m unfolding wr_slot_ok_def sge_slot_ok_def
    by (elim disjE) (simp_all add: build_cmd_def Let_def take_seq_eq nth_list_update)
  have "wr_slot_ok k (wrs (build_cmd bq n tlq i cmd s) ! k) \<and>
      sge_slot_ok W (cfg s) k (sges (build_cmd bq n tlq i cmd s) ! k)" if "k < BATCH_SIZE * 4" for k
  proof (cases "k div 4 = i")
    case True
    then have "k = i * 4 \<or> k = i * 4 + 1 \<or> k = i * 4 + 2 \<or> k = i * 4 + 3" by presburger
    then show ?thesis by (rule own)
  next
    case False
    then show ?thesis using build_cmd_other[OF False] ok that by (simp add: templates_ok_def)
  qed
  then show ?thesis using ok by (simp add: templates_ok_def)
qed

text \<open>The sequence counters after commands have taken their slots.\<close>

definition seqs_after :: "u32 \<Rightarrow> TransferCmd list \<Rightarrow> u32 list \<Rightarrow> u32 list" where
  "seqs_after tlq cmds seqs =
     fold (\<lambda>cmd q. let k = unat (logical_queue tlq cmd) in q[k := q ! k + 1]) cmds seqs"

definition slot_of_cmd :: "ProxyConfig \<Rightarrow> u32 \<Rightarrow> TransferCmd list \<Rightarrow> u32 list \<Rightarrow> nat \<Rightarrow> u32" where
  "slot_of_cmd c tlq cmds seqs i =
     (if cf_use_arrival_queue c then seqs_after tlq (take i cmds) seqs else seqs)
       ! unat (logical_queue tlq (cmds ! i))"

text \<open>The state after the first \<open>j\<close> commands of a batch are built.\<close>

definition built :: "int \<Rightarrow> u32 \<Rightarrow> TransferCmd list \<Rightarrow> nat \<Rightarrow> Proxy \<Rightarrow> Proxy" where
  "built bq tlq batch j s = fold (\<lambda>i. build_cmd bq (length batch) tlq i (batch ! i)) [0..<j] s"

lemma built_Suc: "built bq tlq b (Suc j) s = build_cmd bq (length b) tlq j (b ! j) (built bq tlq b j s)"
  by (simp add: built_def)

lemma build_batch_built: "build_batch bq tlq b s = built bq tlq b (length b) s"
  by (simp add: build_batch_def built_def)

lemma built_frame [simp]:
  "cfg (built bq tlq b j s) = cfg s" "posts (built bq tlq b j s) = posts s"
  "inflight (built bq tlq b j s) = inflight s" "fifo (built bq tlq b j s) = fifo s"
  "wrs_initialized (built bq tlq b j s) = wrs_initialized s"
  by (induction j) (simp_all add: built_Suc, simp_all add: built_def)

lemma built_templates:
  assumes "templates_ok W s" "j \<le> BATCH_SIZE"
  shows "templates_ok W (built bq tlq b j s)"
  using assms(2) by (induction j) (simp add: built_def assms(1), simp add: built_Suc build_cmd_templates)

lemma built_seq:
  assumes "j \<le> length b"
  shows "sender_seq (built bq tlq b j s) =
    (if cf_use_arrival_queue (cfg s) then seqs_after tlq (take j b) (sender_seq s) else sender_seq s)"
  using assms
proof (induction j)
  case (Suc j)
  then show ?case
    by (simp add: built_Suc build_cmd_seq seqs_after_def take_Suc_conv_app_nth Let_def)
qed (simp add: built_def seqs_after_def)

lemma segment_idx_div: "k \<in> set (segment_idx c i cmd) \<Longrightarrow> k div 4 = i"
  by (auto simp: segment_idx_def split: if_splits)

lemma built_segments:
  assumes ok: "templates_ok W s" and "j \<le> length b" "length b \<le> BATCH_SIZE" "i < j"
  shows "map (entry (built bq tlq b j s)) (segment_idx (cfg s) i (b ! i)) =
    cmd_segment W (cfg s) bq (length b) tlq i (b ! i) (slot_of_cmd (cfg s) tlq b (sender_seq s) i)"
  using assms(2,4)
proof (induction j)
  case (Suc j)
  show ?case
  proof (cases "i = j")
    case True
    have "templates_ok W (built bq tlq b j s)" using built_templates[OF ok] Suc.prems assms(3) by simp
    then show ?thesis
      using build_cmd_segment[of W "built bq tlq b j s" j bq "length b" tlq "b ! j"] Suc.prems assms(3) True
        built_seq[of j b bq tlq s]
      by (simp add: built_Suc slot_of_cmd_def)
  next
    case False
    have "map (entry (built bq tlq b (Suc j) s)) (segment_idx (cfg s) i (b ! i)) =
        map (entry (built bq tlq b j s)) (segment_idx (cfg s) i (b ! i))"
      unfolding built_Suc entry_def
      by (rule map_cong) (use False in \<open>auto dest!: segment_idx_div simp: build_cmd_other\<close>)
    then show ?thesis using Suc False by simp
  qed
qed simp

subsection \<open>Following the links\<close>

lemma resolve_nth:
  "k < length ws \<Longrightarrow> length ws = length es \<Longrightarrow> resolve_sges ws es ! k = (ws ! k)\<lparr>sg_list := [es ! k]\<rparr>"
  by (simp add: resolve_sges_def)

text \<open>A list laid out at given indices whose links lead from each index to the next.\<close>

fun laid_out :: "ibv_send_wr list \<Rightarrow> nat list \<Rightarrow> ibv_send_wr list \<Rightarrow> nat option \<Rightarrow> bool" where
  "laid_out R [] xs out \<longleftrightarrow> False"
| "laid_out R [k] xs out \<longleftrightarrow> (\<exists>x. xs = [x] \<and> R ! k = x \<and> next_wr x = out)"
| "laid_out R (k # l # ks) xs out \<longleftrightarrow>
     (\<exists>x ys. xs = x # ys \<and> R ! k = x \<and> next_wr x = Some l \<and> laid_out R (l # ks) ys out)"

lemma follow_laid_out:
  assumes "laid_out R ks xs out" "length ks \<le> n"
  shows "follow R n (hd ks) =
    xs @ (case out of None \<Rightarrow> [] | Some k \<Rightarrow> follow R (n - length ks) k)"
  using assms
proof (induction R ks xs out arbitrary: n rule: laid_out.induct)
  case (2 R k xs out)
  then show ?case by (cases n) (auto split: option.splits)
next
  case (3 R k l ks xs out)
  then show ?case by (cases n) (auto split: option.splits)
qed simp

lemma segment_laid_out:
  assumes "map (\<lambda>k. R ! k) (segment_idx c i cmd) = cmd_segment W c bq n tlq i cmd q"
  shows "laid_out R (segment_idx c i cmd) (cmd_segment W c bq n tlq i cmd q)
    (if i + 1 = n then None else Some ((i + 1) * 4))"
  using assms by (auto simp: segment_idx_def cmd_segment_def Let_def data_wr_def meta_wr_def)

lemma segment_idx_hd: "segment_idx c i cmd \<noteq> []" "hd (segment_idx c i cmd) = i * 4"
    "length (segment_idx c i cmd) \<le> 4"
  by (auto simp: segment_idx_def)

lemma follow_segments:
  assumes seg: "\<And>i. i < n \<Longrightarrow> map (\<lambda>k. R ! k) (segment_idx c i (b ! i)) = cmd_segment W c bq n tlq i (b ! i) (q i)"
    and "i < n" "(n - i) * 4 \<le> fuel"
  shows "follow R fuel (i * 4) = concat (map (\<lambda>i. cmd_segment W c bq n tlq i (b ! i) (q i)) [i..<n])"
  using assms(2,3)
proof (induction "n - i" arbitrary: i fuel)
  case (Suc m)
  let ?ks = "segment_idx c i (b ! i)"
  note lo = segment_laid_out[OF seg[OF Suc.prems(1)]]
  have fuel: "length ?ks \<le> fuel" using segment_idx_hd(3)[of c i "b ! i"] Suc.prems by simp
  have f: "follow R fuel (i * 4) = cmd_segment W c bq n tlq i (b ! i) (q i) @
      (case (if i + 1 = n then None else Some ((i + 1) * 4)) of
         None \<Rightarrow> [] | Some k \<Rightarrow> follow R (fuel - length ?ks) k)"
    using follow_laid_out[OF lo fuel] segment_idx_hd(2)[of c i "b ! i"] by simp
  show ?case
  proof (cases "i + 1 = n")
    case True
    then have "[i..<n] = [i]" by (simp flip: True)
    then show ?thesis using f True by simp
  next
    case False
    have "follow R (fuel - length ?ks) ((i + 1) * 4) =
        concat (map (\<lambda>i. cmd_segment W c bq n tlq i (b ! i) (q i)) [i + 1..<n])"
      by (rule Suc.hyps(1)) (use Suc.hyps(2) Suc.prems False segment_idx_hd(3)[of c i "b ! i"] in auto)
    then show ?thesis using f False Suc.prems(1) by (simp add: upt_conv_Cons)
  qed
qed simp

lemma batch_chain:
  assumes ok: "templates_ok W s" and b: "b \<noteq> []" "length b \<le> BATCH_SIZE"
    and t: "t = build_batch bq tlq b s"
  shows "wr_chain (resolve_sges (wrs t) (sges t)) =
    concat (map (\<lambda>i. cmd_segment W (cfg s) bq (length b) tlq i (b ! i)
      (slot_of_cmd (cfg s) tlq b (sender_seq s) i)) [0..<length b])"
proof -
  have tb: "t = built bq tlq b (length b) s" using t by (simp add: build_batch_built)
  have ok': "templates_ok W t" unfolding tb using built_templates[OF ok] b(2) by simp
  then have len: "length (wrs t) = 32" "length (sges t) = 32" by (simp_all add: templates_ok_def BATCH_SIZE_def)
  let ?R = "resolve_sges (wrs t) (sges t)"
  have idx: "k < 32" if "k \<in> set (segment_idx (cfg s) i (b ! i))" "i < length b" for k i
    using segment_idx_div[OF that(1)] that(2) b(2) by (simp add: BATCH_SIZE_def)
  have "map (\<lambda>k. ?R ! k) (segment_idx (cfg s) i (b ! i)) =
      cmd_segment W (cfg s) bq (length b) tlq i (b ! i) (slot_of_cmd (cfg s) tlq b (sender_seq s) i)"
    if i: "i < length b" for i
  proof -
    have "map (\<lambda>k. ?R ! k) (segment_idx (cfg s) i (b ! i)) = map (entry t) (segment_idx (cfg s) i (b ! i))"
      using len idx[OF _ i] by (intro map_cong) (auto simp: resolve_nth entry_def)
    then show ?thesis using built_segments[OF ok _ b(2) i, of bq tlq] unfolding tb by simp
  qed
  from follow_segments[of "length b" ?R "cfg s" b W bq tlq "slot_of_cmd (cfg s) tlq b (sender_seq s)" 0 32, OF this]
  show ?thesis
    using b by (simp add: wr_chain_def resolve_sges_def len BATCH_SIZE_def)
qed

lemma unat_ucast_u16_u32: "unat (ucast (x :: u16) :: u32) = unat x"
proof -
  have "unat x < 2 ^ 16" using unsigned_less[where 'a = nat, of x] by simp
  then show ?thesis by (simp add: unsigned_ucast_eq take_bit_nat_eq_self)
qed

section \<open>The rows of a strided gather\<close>

definition row_sge :: "ProxyConfig \<Rightarrow> u64 \<Rightarrow> u32 \<Rightarrow> nat \<Rightarrow> ibv_sge" where
  "row_sge c base span r =
     \<lparr>sge_addr = base + of_nat r * ucast (ucast (cf_row_stride_bytes c) :: u32), sge_length = span,
      sge_lkey = cf_clocal_data_lkey c\<rparr>"

lemma strided_sges_rows:
  assumes "unat rc + unat n < 2 ^ 32"
  shows "strided_sges c base span rc n = map (row_sge c base span) [unat rc..<unat rc + unat n]"
proof (rule nth_equalityI)
  fix k assume "k < length (strided_sges c base span rc n)"
  then have k: "k < unat n" by (simp add: strided_sges_def)
  then have "unat (rc + of_nat k) = unat rc + k"
    using assms by (simp add: unat_word_ariths unsigned_of_nat take_bit_nat_eq_self)
  then have "(ucast (rc + of_nat k) :: u64) = of_nat (unat rc + k)"
    by (metis of_nat_unat)
  then show "strided_sges c base span rc n ! k = map (row_sge c base span) [unat rc..<unat rc + unat n] ! k"
    using k by (simp add: strided_sges_def row_sge_def)
qed (simp add: strided_sges_def)

definition data_row_wr ::
    "ProxyConfig \<Rightarrow> u64 \<Rightarrow> u32 \<Rightarrow> nat \<Rightarrow> nat \<Rightarrow> u32 \<Rightarrow> nat \<Rightarrow> nat \<Rightarrow> u64 \<Rightarrow> nat \<Rightarrow> ibv_send_wr" where
  "data_row_wr c base span R m rk w rc ra j =
     zero_wr\<lparr>sg_list := map (row_sge c base span) [rc + j * m..<min R (rc + Suc j * m)],
       opcode := IBV_WR_RDMA_WRITE, remote_addr := ra + of_nat (j * m) * ucast span, rkey := rk,
       next_wr := Some (Suc (w + j))\<rparr>"

lemma strided_data_rows:
  assumes "unat rows \<le> 256" "0 < unat ms" "unat rc \<le> unat rows"
    and "unat rows - unat rc \<le> left * unat ms" "left = 0 \<or> (left - 1) * unat ms < unat rows - unat rc"
  shows "strided_data_wrs c base span rows ms rk w left rc ra =
    map (data_row_wr c base span (unat rows) (unat ms) rk w (unat rc) ra) [0..<left]"
  using assms(3-5)
proof (induction left arbitrary: w rc ra)
  case (Suc left)
  let ?R = "unat rows" and ?m = "unat ms" and ?r = "unat rc"
  let ?n = "min (rows - rc) ms"
  have sub: "unat (rows - rc) = ?R - ?r" using Suc.prems(1) by (simp add: unat_sub word_le_nat_alt)
  have n: "unat ?n = min (?R - ?r) ?m" using sub by (simp add: min_def word_le_nat_alt)
  have rn: "?r + unat ?n \<le> ?R" using n Suc.prems(1) by simp
  have sm: "?r + unat ?n < 2 ^ 32" using rn assms(1) by simp
  have r': "unat (rc + ?n) = ?r + unat ?n" using sm by (simp add: unat_word_ariths)
  have head: "strided_sges c base span rc ?n = map (row_sge c base span) [?r..<min ?R (?r + ?m)]"
    unfolding strided_sges_rows[OF sm] using n Suc.prems(1) by (simp add: min_def)
  show ?case
  proof (cases "left = 0")
    case True
    then show ?thesis
      by (simp add: Let_def head data_row_wr_def del: upt_Suc) (simp add: upt_conv_Cons data_row_wr_def)
  next
    case False
    then obtain l where l: "left = Suc l" by (cases left) auto
    have mlt: "?m < ?R - ?r" using Suc.prems(3) l by simp
    then have nm: "unat ?n = ?m" using n by simp
    have un: "(ucast ?n :: u64) = of_nat ?m" using nm by (metis of_nat_unat)
    have IH: "strided_data_wrs c base span rows ms rk (Suc w) left (rc + ?n) (ra + ucast ?n * ucast span) =
        map (data_row_wr c base span ?R ?m rk (Suc w) (unat (rc + ?n)) (ra + ucast ?n * ucast span)) [0..<left]"
      by (rule Suc.IH) (use Suc.prems r' nm mlt l in \<open>auto simp: algebra_simps\<close>)
    have shift: "data_row_wr c base span ?R ?m rk (Suc w) (unat (rc + ?n)) (ra + ucast ?n * ucast span) j =
        data_row_wr c base span ?R ?m rk w ?r ra (Suc j)" for j
      using r' nm un by (simp add: data_row_wr_def algebra_simps)
    have "[0..<Suc left] = 0 # map Suc [0..<left]" by (simp add: upt_conv_Cons map_Suc_upt del: upt_Suc)
    then show ?thesis
      by (simp add: Let_def IH shift head data_row_wr_def[of c base span ?R ?m rk w ?r ra 0] del: upt_Suc)
  qed
qed simp

lemma ceil_nat:
  fixes R m :: nat
  assumes "0 < R" "0 < m"
  shows "R \<le> (R + m - 1) div m * m" "((R + m - 1) div m - 1) * m < R"
proof -
  let ?q = "(R + m - 1) div m"
  have e: "?q * m + (R + m - 1) mod m = R + m - 1" by simp
  have "(R + m - 1) mod m < m" using assms(2) by simp
  then show "R \<le> ?q * m" using e by linarith
  show "(?q - 1) * m < R" 
  proof -
    have "?q * m < R + m" using e assms by linarith
    then show ?thesis using assms(1) by (cases ?q) auto
  qed
qed

lemma strided_data_closed:
  assumes "\<not> strided_rejected c cmd" "unat (cf_max_send_sge c) < 2 ^ 31"
  shows "strided_data c cmd bq = map (data_row_wr c (cf_clocal_data_addr c + local_offset cmd)
      (ucast (row_span cmd)) (unat (row_count cmd)) (unat (strided_max_sge c))
      (remote_data_rkey_for_qp c bq) 0 0 (remote_data_addr_for_qp c bq + remote_offset cmd))
    [0..<strided_n c cmd]"
    and "strided_n c cmd = (unat (row_count cmd) + unat (strided_max_sge c) - 1) div unat (strided_max_sge c)"
proof -
  let ?rows = "ucast (row_count cmd) :: u32" and ?m = "strided_max_sge c"
  have R: "unat ?rows = unat (row_count cmd)" by (rule unat_ucast_u16_u32)
  have rej: "0 < unat (row_count cmd)" "unat ?rows \<le> 256"
    using assms(1) by (auto simp: strided_rejected_def kMaxRows_def word_less_nat_alt not_less unat_gt_0)
  have m: "0 < unat ?m" "unat ?m < 2 ^ 31"
    using assms(2) by (auto simp: strided_max_sge_def word_less_nat_alt)
  have "unat (?rows + ?m - 1) = unat ?rows + unat ?m - 1"
  proof -
    have "unat (?rows + ?m) = unat ?rows + unat ?m" using rej m by (simp add: unat_word_ariths)
    moreover from this have "?rows + ?m \<noteq> 0" using m(1) by (metis add_is_0 less_irrefl unat_0)
    ultimately show ?thesis by (simp add: unat_minus_one)
  qed
  then show n: "strided_n c cmd = (unat (row_count cmd) + unat ?m - 1) div unat ?m"
    by (simp add: strided_n_def unat_div R)
  show "strided_data c cmd bq = map (data_row_wr c (cf_clocal_data_addr c + local_offset cmd)
      (ucast (row_span cmd)) (unat (row_count cmd)) (unat (strided_max_sge c))
      (remote_data_rkey_for_qp c bq) 0 0 (remote_data_addr_for_qp c bq + remote_offset cmd))
    [0..<strided_n c cmd]"
    unfolding strided_data_def R[symmetric]
    by (subst strided_data_rows) (use rej m ceil_nat[of "unat (row_count cmd)" "unat ?m"] R n in auto)
qed

lemma concat_blocks:
  assumes "R \<le> n * m" "n = 0 \<or> (n - 1) * m < R"
  shows "concat (map (\<lambda>j. [j * m..<min R (Suc j * m)]) [0..<n]) = [0..<R]"
proof -
  have "concat (map (\<lambda>j. [j * m..<min R (Suc j * m)]) [0..<k]) = [0..<min R (k * m)]" if "k \<le> n" for k
    using that
  proof (induction k)
    case (Suc k)
    have "k * m \<le> (n - 1) * m" using Suc.prems by (intro mult_right_mono) auto
    then have "k * m \<le> R" using assms(2) Suc.prems by linarith
    then have "[0..<min R (k * m)] @ [k * m..<min R (Suc k * m)] = [0..<min R (Suc k * m)]"
      using upt_add_eq_append[of 0 "k * m" "min R (Suc k * m) - k * m"] by (simp add: min_def)
    then show ?case using Suc by simp
  qed simp
  from this[of n] show ?thesis using assms(1) by (simp add: min_def)
qed

lemma strided_gather_rows:
  assumes "\<not> strided_rejected c cmd" "unat (cf_max_send_sge c) < 2 ^ 31"
  shows "concat (map sg_list (strided_data c cmd bq)) =
    map (row_sge c (cf_clocal_data_addr c + local_offset cmd) (ucast (row_span cmd))) [0..<unat (row_count cmd)]"
proof -
  note n = strided_data_closed(2)[OF assms]
  let ?R = "unat (row_count cmd)" and ?m = "unat (strided_max_sge c)"
  have R: "0 < ?R" using assms(1) by (auto simp: strided_rejected_def unat_gt_0)
  have m: "0 < ?m" by (auto simp: strided_max_sge_def word_less_nat_alt)
  have "concat (map sg_list (strided_data c cmd bq)) =
      map (row_sge c (cf_clocal_data_addr c + local_offset cmd) (ucast (row_span cmd)))
        (concat (map (\<lambda>j. [j * ?m..<min ?R (Suc j * ?m)]) [0..<strided_n c cmd]))"
    unfolding strided_data_closed(1)[OF assms] by (simp add: data_row_wr_def map_concat o_def)
  also have "concat (map (\<lambda>j. [j * ?m..<min ?R (Suc j * ?m)]) [0..<strided_n c cmd]) = [0..<?R]"
    by (rule concat_blocks) (use ceil_nat[OF R m] n in auto)
  finally show ?thesis .
qed

end
