(* ===== verification/Proxy_CX7_Loop.thy ===== *)
theory Proxy_CX7_Loop
  imports Proxy_CX7_Chains
begin

text \<open>
  The loop of \<^verbatim>\<open>proxy.h\<close> as a whole: an iteration ends, posts what it collected, and
  keeps the \<open>inflight\<close> counter in step with the requests posted and completed; arrival slots,
  payloads, limits, routing and store-and-forward. The properties of the proxy are at the end.
\<close>

section \<open>Signals and credit of a batch\<close>

lemma segment_not_last:
  assumes "i + 1 \<noteq> n"
  shows "\<forall>w \<in> set (cmd_segment W c bq n tlq i cmd q). \<not> send_signaled w"
  using assms by (auto simp: cmd_segment_def data_wr_def meta_wr_def zero_wr_def Let_def)

lemma segment_last:
  assumes "i + 1 = n"
  shows "(\<forall>w \<in> set (butlast (cmd_segment W c bq n tlq i cmd q)). \<not> send_signaled w) \<and>
    send_signaled (last (cmd_segment W c bq n tlq i cmd q)) \<and>
    wr_id (last (cmd_segment W c bq n tlq i cmd q)) = encode_wr_id bq (int n) \<and>
    cmd_segment W c bq n tlq i cmd q \<noteq> []"
  using assms by (auto simp: cmd_segment_def data_wr_def meta_wr_def zero_wr_def Let_def)

lemma credit_unsignaled: "\<forall>w \<in> set ws. \<not> send_signaled w \<Longrightarrow> (\<Sum>w \<leftarrow> ws. credit_wr w) = 0"
  by (induction ws) (auto simp: credit_wr_def)

definition batch_segments ::
    "world \<Rightarrow> ProxyConfig \<Rightarrow> int \<Rightarrow> u32 \<Rightarrow> TransferCmd list \<Rightarrow> u32 list \<Rightarrow> ibv_send_wr list" where
  "batch_segments W c bq tlq b seqs =
     concat (map (\<lambda>i. cmd_segment W c bq (length b) tlq i (b ! i) (slot_of_cmd c tlq b seqs i)) [0..<length b])"

lemma batch_segments_split:
  assumes "b \<noteq> []"
  obtains pre m where "batch_segments W c bq tlq b seqs = pre @ [m]" "\<forall>w \<in> set pre. \<not> send_signaled w"
    "send_signaled m" "wr_id m = encode_wr_id bq (int (length b))"
proof -
  let ?g = "\<lambda>i. cmd_segment W c bq (length b) tlq i (b ! i) (slot_of_cmd c tlq b seqs i)"
  obtain n where n: "length b = Suc n" using assms by (cases b) auto
  have l: "n + 1 = length b" using n by simp
  note last = segment_last[OF l, of W c bq tlq "b ! n" "slot_of_cmd c tlq b seqs n"]
  have early: "\<forall>w \<in> set (concat (map ?g [0..<n])). \<not> send_signaled w"
    using segment_not_last[of _ "length b"] n by (simp only: set_concat set_map) force
  have "batch_segments W c bq tlq b seqs = concat (map ?g [0..<n]) @ ?g n"
    unfolding batch_segments_def by (simp add: n)
  also have "\<dots> = (concat (map ?g [0..<n]) @ butlast (?g n)) @ [last (?g n)]"
    using last by simp
  finally have e: "batch_segments W c bq tlq b seqs =
      (concat (map ?g [0..<n]) @ butlast (?g n)) @ [last (?g n)]" .
  have "\<forall>w \<in> set (concat (map ?g [0..<n]) @ butlast (?g n)). \<not> send_signaled w"
    using early last by (simp only: set_append ball_Un) simp
  then show ?thesis using that[OF e] last by blast
qed

lemma batch_credit:
  assumes "b \<noteq> []" "length b \<le> BATCH_SIZE"
  shows "(\<Sum>w \<leftarrow> batch_segments W c bq tlq b seqs. credit_wr w) = int (length b)"
proof -
  obtain pre m where s: "batch_segments W c bq tlq b seqs = pre @ [m]"
    "\<forall>w \<in> set pre. \<not> send_signaled w" "send_signaled m" "wr_id m = encode_wr_id bq (int (length b))"
    using batch_segments_split[OF assms(1)] by metis
  have "decode_wr_count (encode_wr_id bq (int (length b))) = int (length b)"
    using assms(2) by (intro decode_count_encode) (simp_all add: BATCH_SIZE_def)
  then show ?thesis using s credit_unsignaled[OF s(2)] by (simp add: credit_wr_def)
qed

section \<open>The ledger through an iteration\<close>

text \<open>The templates are filled in whenever the proxy says so.\<close>

definition proxy_ok :: "world \<Rightarrow> Proxy \<Rightarrow> bool" where
  "proxy_ok W s \<longleftrightarrow> (wrs_initialized s \<longrightarrow> templates_ok W s)"

lemma proxy_ok_cong:
  assumes "wrs t = wrs s" "sges t = sges s" "cfg t = cfg s" "wrs_initialized t = wrs_initialized s"
  shows "proxy_ok W t = proxy_ok W s"
  using assms by (simp add: proxy_ok_def templates_ok_def)

text \<open>Fields most operations leave alone.\<close>

definition same_build :: "Proxy \<Rightarrow> Proxy \<Rightarrow> bool" where
  "same_build s t \<longleftrightarrow> wrs t = wrs s \<and> sges t = sges s \<and> cfg t = cfg s \<and> wrs_initialized t = wrs_initialized s \<and>
     effective_max_inflight t = effective_max_inflight s"

lemma same_build_refl [simp]: "same_build s s"
  by (simp add: same_build_def)

lemma same_build_trans [trans]: "same_build s t \<Longrightarrow> same_build t u \<Longrightarrow> same_build s u"
  by (simp add: same_build_def)

lemma same_build_ok: "same_build s t \<Longrightarrow> proxy_ok W t = proxy_ok W s"
  unfolding same_build_def by (rule proxy_ok_cong) auto

lemma post_send_frame:
  assumes "post_send W q ch s = (r, t)"
  shows "same_build s t" "fifo t = fifo s"
  using assms by (auto simp: post_send_def Let_def same_build_def)

lemma barrier_to_peer_frame:
  "same_build s (barrier_to_peer W sl ch k p s) \<and> fifo (barrier_to_peer W sl ch k p s) = fifo s"
  unfolding barrier_to_peer_def Let_def post_send_def by (simp add: same_build_def)

lemma barrier_fold_frame:
  "same_build s (fold (barrier_to_peer W sl ch k) ps s) \<and>
   fifo (fold (barrier_to_peer W sl ch k) ps s) = fifo s"
proof (induction ps arbitrary: s)
  case (Cons p ps)
  then show ?case using same_build_trans barrier_to_peer_frame by (metis fold_simps(2))
qed simp

lemma stage_barrier_frame [simp]:
  "same_build s (post_stage_barrier W sl tok s)" "fifo (post_stage_barrier W sl tok s) = fifo s"
proof -
  have t: "same_build s (s\<lparr>barrier_token := tok\<rparr>)" "fifo (s\<lparr>barrier_token := tok\<rparr>) = fifo s"
    by (simp_all add: same_build_def)
  show "same_build s (post_stage_barrier W sl tok s)"
    unfolding post_stage_barrier_def Let_def using same_build_trans[OF t(1)] barrier_fold_frame by blast
  show "fifo (post_stage_barrier W sl tok s) = fifo s"
    unfolding post_stage_barrier_def Let_def using t(2) barrier_fold_frame by metis
qed

lemma poll_cmd_frame:
  assumes "poll_cmd s = (r, t)"
  shows "same_build s t" "ledger t = ledger s" "inflight t = inflight s" "fifo t = snd (poll (fifo s))"
    "r = map_option read_cmd (fst (poll (fifo s)))"
  using assms by (auto simp: poll_cmd_def same_build_def split: prod.splits intro!: ledger_cong)

lemma note_cmd_seen_frame [simp]:
  "same_build s (note_cmd_seen W cmd s)" "ledger (note_cmd_seen W cmd s) = ledger s"
  "fifo (note_cmd_seen W cmd s) = fifo s" "cfg (note_cmd_seen W cmd s) = cfg s"
  by (auto simp: note_cmd_seen_def read_clock_def same_build_def intro!: ledger_cong)

lemma ledger_set_pending [simp]:
  "ledger (s\<lparr>pending_cmd := c, has_pending_cmd := b\<rparr>) = ledger s"
  "same_build s (s\<lparr>pending_cmd := c, has_pending_cmd := b\<rparr>)"
  by (auto simp: same_build_def intro!: ledger_cong)

declare collect_queue.simps(2) [simp del] collect_flat.simps(2) [simp del]

text \<open>What every step of a collect loop preserves, the loop preserves.\<close>

definition collect_stable :: "world \<Rightarrow> (Proxy \<Rightarrow> bool) \<Rightarrow> bool" where
  "collect_stable W Q \<longleftrightarrow>
     (\<forall>s r t. Q s \<and> poll_cmd s = (r, t) \<longrightarrow> Q t) \<and> (\<forall>s cmd. Q s \<longrightarrow> Q (note_cmd_seen W cmd s)) \<and>
     (\<forall>s e. Q s \<longrightarrow> Q (post_stage_barrier W 0 e s)) \<and>
     (\<forall>s c. Q s \<longrightarrow> Q (s\<lparr>pending_cmd := c, has_pending_cmd := True\<rparr>))"

lemma collect_stableD:
  assumes "collect_stable W Q" "Q s"
  shows "poll_cmd s = (r, t) \<Longrightarrow> Q t" "Q (note_cmd_seen W cmd s)" "Q (post_stage_barrier W 0 e s)"
    "Q (s\<lparr>pending_cmd := c, has_pending_cmd := True\<rparr>)"
  using assms unfolding collect_stable_def by blast+

lemma collect_queue_preserves:
  assumes st: "collect_stable W Q"
  shows "collect_queue W fuel pre b bq s = Some (b', bq', t) \<Longrightarrow> Q s \<Longrightarrow> length b \<le> BATCH_SIZE \<Longrightarrow>
    Q t \<and> length b' \<le> BATCH_SIZE"
proof (induction fuel arbitrary: b bq s)
  case (Suc fuel)
  show ?case
  proof (cases "may_take pre (length b) s")
    case True
    then have room: "length (b @ [cmd]) \<le> BATCH_SIZE" for cmd by (simp add: may_take_def)
    obtain r s1 where p: "poll_cmd s = (r, s1)" by force
    have q1: "Q s1" using collect_stableD(1)[OF st Suc.prems(2) p] .
    show ?thesis
    proof (cases r)
      case None
      then show ?thesis using Suc.prems True p q1 by (simp add: collect_queue.simps(2))
    next
      case (Some cmd)
      note q2 = collect_stableD(2)[OF st q1, of cmd]
      note q3 = collect_stableD(3)[OF st q2] and q4 = collect_stableD(4)[OF st q2]
      show ?thesis
        using Suc.prems True p Some q2 q3 q4 room Suc.IH by (auto simp: collect_queue.simps(2) Let_def split: if_splits)
    qed
  qed (use Suc.prems in \<open>simp add: collect_queue.simps(2)\<close>)
qed simp

lemma collect_flat_preserves:
  assumes st: "collect_stable W Q"
  shows "collect_flat W fuel pre b bq s = Some (b', bq', t) \<Longrightarrow> Q s \<Longrightarrow> length b \<le> BATCH_SIZE \<Longrightarrow>
    Q t \<and> length b' \<le> BATCH_SIZE"
proof (induction fuel arbitrary: b bq s)
  case (Suc fuel)
  show ?case
  proof (cases "may_take pre (length b) s")
    case True
    then have room: "length (b @ [cmd]) \<le> BATCH_SIZE" for cmd by (simp add: may_take_def)
    obtain r s1 where p: "poll_cmd s = (r, s1)" by force
    have q1: "Q s1" using collect_stableD(1)[OF st Suc.prems(2) p] .
    show ?thesis
    proof (cases r)
      case None
      then show ?thesis using Suc.prems True p q1 by (simp add: collect_flat.simps(2))
    next
      case (Some cmd)
      note q2 = collect_stableD(2)[OF st q1, of cmd]
      note q3 = collect_stableD(3)[OF st q2] and q4 = collect_stableD(4)[OF st q2]
      show ?thesis
        using Suc.prems True p Some q2 q3 q4 room Suc.IH by (auto simp: collect_flat.simps(2) Let_def split: if_splits)
    qed
  qed (use Suc.prems in \<open>simp add: collect_flat.simps(2)\<close>)
qed simp

lemma collect_preserves:
  assumes st: "collect_stable W Q" and c: "collect W s = Some (b, bq, t)" and "Q s"
    and pend: "Q (s\<lparr>has_pending_cmd := False\<rparr>)"
  shows "Q t \<and> length b \<le> BATCH_SIZE"
proof -
  obtain b0 bq0 s0 where p: "take_pending (inflight s) s = (b0, bq0, s0)" by (metis prod_cases3)
  then have "Q s0" "length b0 \<le> BATCH_SIZE"
    using assms(3) pend by (auto simp: take_pending_def BATCH_SIZE_def split: if_splits)
  then show ?thesis
    using c p collect_queue_preserves[OF st] collect_flat_preserves[OF st]
    by (auto simp: collect_def Let_def split: if_splits)
qed

lemma collect_facts:
  assumes "collect W s = Some (b, bq, t)"
  shows "same_build s t \<and> ledger t = ledger s \<and> length b \<le> BATCH_SIZE"
proof -
  let ?Q = "\<lambda>u. same_build s u \<and> ledger u = ledger s"
  have "collect_stable W ?Q"
    unfolding collect_stable_def
    by (auto dest: poll_cmd_frame same_build_trans intro: same_build_trans[OF _ note_cmd_seen_frame(1)]
        same_build_trans[OF _ stage_barrier_frame(1)] same_build_trans[OF _ ledger_set_pending(2)]
        simp: poll_cmd_frame(2))
  moreover have "?Q (s\<lparr>has_pending_cmd := False\<rparr>)"
    by (auto simp: same_build_def intro!: ledger_cong)
  ultimately show ?thesis using collect_preserves[OF _ assms, of ?Q] by simp
qed

lemma single_write_frame:
  assumes "post_single_write_flat W cmd s = (ok, t)"
  shows "ledger t = ledger s \<and> same_build s t \<and> fifo t = fifo s"
proof (cases "route_global_qp (cfg s) cmd - cf_qp_base_idx (cfg s) < 0 \<or>
    route_global_qp (cfg s) cmd - cf_qp_base_idx (cfg s) \<ge> cf_num_qps (cfg s)")
  case True
  then show ?thesis using assms by (simp add: post_single_write_flat_def Let_def)
next
  case False
  then show ?thesis
    using assms
    by (auto simp: post_single_write_flat_def Let_def post_send_def set_staging_def wr_chain_def
        numeral_2_eq_2 same_build_def ledger_def credit_post_def credit_wr_def zero_wr_def
        split: if_splits)
qed

definition forward_frame :: "Proxy \<Rightarrow> Proxy \<Rightarrow> bool" where
  "forward_frame s t \<longleftrightarrow> ledger t = ledger s \<and> same_build s t \<and> fifo t = fifo s"

lemma forward_frame_trans: "forward_frame s t \<Longrightarrow> forward_frame t u \<Longrightarrow> forward_frame s u"
  by (auto simp: forward_frame_def intro: same_build_trans)

lemma forward_frame_refl [simp]: "forward_frame s s"
  by (simp add: forward_frame_def)

lemma forward_frame_upd [simp]:
  "forward_frame s (s\<lparr>forward_scan_cursor := c\<rparr>)" "forward_frame s (s\<lparr>forward_seen_epoch := e\<rparr>)"
  by (simp_all add: forward_frame_def same_build_def ledger_def)

lemma forward_scan_step_frame: "forward_frame s (forward_scan_step W table s)"
proof -
  let ?s1 = "s\<lparr>forward_scan_cursor := (if forward_scan_cursor s + 1 \<ge> cf_forward_notify_slots (cfg s)
    then 0 else forward_scan_cursor s + 1)\<rparr>"
  obtain ok s2 where p: "post_single_write_flat W
      (make_forward_cmd_from_notify (cfg ?s1) (table ! nat (forward_scan_cursor s))) ?s1 = (ok, s2)" by force
  have f1: "forward_frame s ?s1" by (rule forward_frame_upd)
  have f2: "forward_frame s s2"
    using forward_frame_trans[OF f1] single_write_frame[OF p] by (simp add: forward_frame_def)
  then have "forward_frame s (s2\<lparr>forward_seen_epoch := e\<rparr>)" for e
    using forward_frame_trans forward_frame_upd(2) by blast
  then show ?thesis
    using f1 f2 p unfolding forward_scan_step_def Let_def by (simp del: forward_frame_upd)
qed

lemma forward_step_frame: "forward_frame s (forward_step W table s)"
proof -
  have "forward_frame s ((forward_scan_step W table ^^ n) s)" for n
    by (induction n) (auto intro: forward_frame_trans forward_scan_step_frame)
  then show ?thesis
    unfolding forward_step_def poll_forward_notifications_def by simp
qed

section \<open>Posting\<close>

lemma sample_backlog_frame [simp]:
  "ledger (sample_backlog pre n s) = ledger s" "same_build s (sample_backlog pre n s)"
  "cfg (sample_backlog pre n s) = cfg s" "fifo (sample_backlog pre n s) = fifo s"
  by (simp_all add: sample_backlog_def Let_def ledger_def same_build_def)

lemma stage_strided_frame:
  "stage_strided cmd tlq s = (lq, qs, t) \<Longrightarrow> same_build s t \<and> fifo t = fifo s"
  by (auto simp: stage_strided_def Let_def take_seq_def set_staging_def same_build_def split: if_splits)

lemma post_strided_frame:
  assumes "post_strided_direct W cmd bq tlq s = (n, t)"
  shows "same_build s t \<and> fifo t = fifo s"
proof (cases "strided_rejected (cfg s) cmd")
  case True
  then show ?thesis using assms by (simp add: post_strided_direct_def)
next
  case False
  obtain lq qs s1 where st: "stage_strided cmd tlq s = (lq, qs, s1)" by (metis prod_cases3)
  obtain r s2 where p: "post_send W bq
      (wr_chain (strided_data (cfg s) cmd bq @ strided_ending (cfg s) cmd bq lq qs)) s1 = (r, s2)" by force
  have "t = s2" using assms False st p by (auto simp: post_strided_direct_def Let_def split: if_splits)
  then show ?thesis
    using stage_strided_frame[OF st] post_send_frame[OF p] same_build_trans by auto
qed

lemma filter_strided_step_simps:
  "src_view c = 2 \<Longrightarrow> post_strided_direct W c bq tlq s = (m, u) \<Longrightarrow>
     filter_strided_step W bq tlq c (kept, n, s) = (kept, n + m, u)"
  "src_view c \<noteq> 2 \<Longrightarrow> filter_strided_step W bq tlq c (kept, n, s) = (kept @ [c], n, s)"
  by (simp_all add: filter_strided_step_def)

lemma filter_strided_fold:
  "fold (filter_strided_step W bq tlq) b (kept, n, s) = (kept', n', t) \<Longrightarrow>
    ledger t + n' = ledger s + n \<and> same_build s t \<and> fifo t = fifo s \<and>
    kept' = kept @ filter (\<lambda>c. src_view c \<noteq> 2) b"
proof (induction b arbitrary: kept n s)
  case (Cons c b)
  show ?case
  proof (cases "src_view c = 2")
    case True
    obtain m u where p: "post_strided_direct W c bq tlq s = (m, u)" by force
    have "fold (filter_strided_step W bq tlq) b (kept, n + m, u) = (kept', n', t)"
      using Cons.prems True p by (simp add: filter_strided_step_simps)
    then show ?thesis
      using Cons.IH[of kept "n + m" u] ledger_post_strided[OF p] post_strided_frame[OF p] True same_build_trans by auto
  next
    case False
    then show ?thesis using Cons.IH[of "kept @ [c]" n s] Cons.prems by (simp add: filter_strided_step_simps)
  qed
qed simp

lemma filter_strided_facts:
  assumes "filter_strided W b bq tlq s = (kept, n, t)"
  shows "ledger t + n = ledger s \<and> same_build s t \<and> fifo t = fifo s \<and>
    kept = (if cf_direct_dmabuf_enabled (cfg s) then filter (\<lambda>c. src_view c \<noteq> 2) b else b)"
  using assms filter_strided_fold[of W bq tlq b "[]" 0 s] by (auto simp: filter_strided_def split: if_splits)

lemma strided_slots_pos: "strided_slots c cmd > 0"
  by (simp add: strided_slots_def)

lemma post_strided_nonneg: "post_strided_direct W cmd bq tlq s = (n, t) \<Longrightarrow> 0 \<le> n"
  using strided_slots_pos[of "cfg s" cmd]
  by (auto simp: post_strided_direct_def Let_def split: if_splits prod.splits)

lemma filter_strided_nonneg: "filter_strided W b bq tlq s = (kept, n, t) \<Longrightarrow> 0 \<le> n"
proof -
  have "fold (filter_strided_step W bq tlq) b (kept0, n0, s0) = (kept, n, t) \<Longrightarrow> 0 \<le> n0 \<Longrightarrow> 0 \<le> n"
    for kept0 n0 s0
  proof (induction b arbitrary: kept0 n0 s0)
    case (Cons c b)
    obtain m u where p: "post_strided_direct W c bq tlq s0 = (m, u)" by force
    then show ?case
      using Cons post_strided_nonneg[OF p] by (cases "src_view c = 2") (auto simp: filter_strided_step_simps)
  qed simp
  then show "filter_strided W b bq tlq s = (kept, n, t) \<Longrightarrow> 0 \<le> n"
    by (auto simp: filter_strided_def split: if_splits)
qed

lemma first_cmd_time_frame:
  assumes "first_cmd_time W s = (ns, t)"
  shows "ledger t = ledger s" "same_build s t" "fifo t = fifo s" "sender_seq t = sender_seq s" "posts t = posts s"
proof -
  define s1 where "s1 = (if \<not> recorded (ts s)
    then let (t, u) = read_clock W s in u\<lparr>ts := (ts u)\<lparr>ts_first_cmd_ns := t\<rparr>\<rparr> else s)"
  have f: "ledger s1 = ledger s" "same_build s s1" "fifo s1 = fifo s" "sender_seq s1 = sender_seq s"
    "posts s1 = posts s" "inflight s1 = inflight s"
    by (simp_all add: s1_def read_clock_def ledger_def same_build_def)
  obtain d where "t = s1\<lparr>ticks := Suc (ticks s1), diag := d\<rparr>"
    using assms unfolding first_cmd_time_def s1_def[symmetric] by (auto simp: read_clock_def Let_def)
  then show "ledger t = ledger s" "same_build s t" "fifo t = fifo s" "sender_seq t = sender_seq s"
    "posts t = posts s"
    using f by (simp_all add: ledger_def same_build_def)
qed

lemma prepare_batch_frame:
  "ledger (prepare_batch W b bq s) = ledger s" "cfg (prepare_batch W b bq s) = cfg s"
  "fifo (prepare_batch W b bq s) = fifo s" "wrs_initialized (prepare_batch W b bq s)"
  by (simp_all add: prepare_batch_def Let_def build_batch_built ledger_def init_wr_templates_def)

lemma prepare_batch_ok:
  assumes "proxy_ok W s" "length b \<le> BATCH_SIZE"
  shows "templates_ok W (prepare_batch W b bq s)"
proof -
  let ?s1 = "if \<not> wrs_initialized s then init_wr_templates W s else s"
  have "templates_ok W ?s1" using assms(1) templates_init by (simp add: proxy_ok_def)
  then have "templates_ok W (set_staging 0 (cf_epoch (cfg ?s1)) ?s1)" by (simp add: templates_ok_def)
  then show ?thesis
    unfolding prepare_batch_def Let_def build_batch_built by (rule built_templates) (rule assms(2))
qed

lemma prepare_batch_chain:
  assumes "proxy_ok W s" "b \<noteq> []" "length b \<le> BATCH_SIZE" "t = prepare_batch W b bq s"
  shows "wr_chain (resolve_sges (wrs t) (sges t)) =
    batch_segments W (cfg s) bq (total_logical_queues (cfg s)) b (sender_seq s)"
proof -
  let ?s1 = "if \<not> wrs_initialized s then init_wr_templates W s else s"
  let ?s2 = "set_staging 0 (cf_epoch (cfg ?s1)) ?s1"
  have "templates_ok W ?s1" using assms(1) templates_init by (simp add: proxy_ok_def)
  then have ok: "templates_ok W ?s2" by (simp add: templates_ok_def)
  have e: "cfg ?s2 = cfg s" "sender_seq ?s2 = sender_seq s" by (simp_all add: init_wr_templates_def)
  have "t = build_batch bq (total_logical_queues (cfg s)) b ?s2"
    using assms(4) by (simp add: prepare_batch_def Let_def)
  from batch_chain[OF ok assms(2,3) this] show ?thesis unfolding batch_segments_def e .
qed

lemma note_batch_posted_frame:
  "posts (note_batch_posted W ns bq n s) = posts s" "inflight (note_batch_posted W ns bq n s) = inflight s + int n"
  "same_build s (note_batch_posted W ns bq n s)" "fifo (note_batch_posted W ns bq n s) = fifo s"
  by (simp_all add: note_batch_posted_def read_clock_def Let_def same_build_def)

lemma post_batch_facts:
  assumes ok: "proxy_ok W s" and b: "b \<noteq> []" "length b \<le> BATCH_SIZE"
  shows "ledger (post_batch W b bq s) = ledger s \<and> proxy_ok W (post_batch W b bq s) \<and>
    cfg (post_batch W b bq s) = cfg s \<and> fifo (post_batch W b bq s) = fifo s"
proof -
  obtain ns s1 where f: "first_cmd_time W s = (ns, s1)" by force
  note F = first_cmd_time_frame[OF f]
  define s2 where "s2 = prepare_batch W b bq s1"
  have ok1: "proxy_ok W s1" using same_build_ok[OF F(2)] ok by simp
  have c1: "cfg s1 = cfg s" using F(2) by (simp add: same_build_def)
  note P = prepare_batch_frame[of W b bq s1, folded s2_def]
  have t2: "templates_ok W s2" unfolding s2_def by (rule prepare_batch_ok[OF ok1 b(2)])
  define ch where "ch = wr_chain (resolve_sges (wrs s2) (sges s2))"
  have cr: "(\<Sum>w \<leftarrow> ch. credit_wr w) = int (length b)"
    unfolding ch_def prepare_batch_chain[OF ok1 b s2_def] by (rule batch_credit[OF b])
  obtain r s3 where p: "post_send W bq ch s2 = (r, s3)" by force
  define s4 where "s4 = (if r \<noteq> 0 then s3 else note_batch_posted W ns bq (length b) s3)"
  have "ledger s4 = ledger s2"
    using ledger_post_send[OF p] cr note_batch_posted_frame(1,2)[of W ns bq "length b" s3]
    by (auto simp: s4_def ledger_def)
  moreover have sb: "same_build s2 s4 \<and> fifo s4 = fifo s2"
    unfolding s4_def using post_send_frame[OF p] note_batch_posted_frame same_build_trans by auto
  moreover have "post_batch W b bq s = (if \<not> cf_use_arrival_queue (cfg s4)
      then s4\<lparr>qp_rr_idx := c_mod (qp_rr_idx s4 + 1) (cf_num_qps (cfg s4))\<rparr> else s4)"
    unfolding post_batch_def Let_def f by (simp add: s2_def[symmetric] ch_def[symmetric] p s4_def)
  moreover have "proxy_ok W s4" using t2 sb by (simp add: proxy_ok_def same_build_def templates_ok_def)
  ultimately show ?thesis
    using F(1,3) P c1 by (auto simp: ledger_def proxy_ok_def templates_ok_def same_build_def)
qed

section \<open>The collect loops end\<close>

lemma collect_queue_total:
  assumes "ring_ok (fifo s)" "ready (fifo s) < fuel"
  shows "collect_queue W fuel pre b bq s \<noteq> None"
  using assms
proof (induction fuel arbitrary: b bq s)
  case (Suc fuel)
  obtain r s1 where p: "poll_cmd s = (r, s1)" by force
  have f: "fifo s1 = snd (poll (fifo s))" "r = map_option read_cmd (fst (poll (fifo s)))"
    using poll_cmd_frame(4,5)[OF p] .
  show ?case
  proof (cases r)
    case None
    then show ?thesis using p by (simp add: collect_queue.simps(2))
  next
    case (Some cmd)
    then obtain ws where "poll (fifo s) = (Some ws, fifo s1)" using f by (cases "poll (fifo s)") auto
    from poll_some[OF Suc.prems(1) this] have n: "ring_ok (fifo s1)" "ready (fifo s1) < fuel"
      using Suc.prems(2) by simp_all
    have "collect_queue W fuel pre b' bq' s' \<noteq> None" if "fifo s' = fifo s1" for b' bq' s'
      using Suc.IH[of s'] n that by simp
    then show ?thesis using p Some by (simp add: collect_queue.simps(2) Let_def del: not_None_eq)
  qed
qed simp

lemma collect_flat_total:
  assumes "ring_ok (fifo s)" "ready (fifo s) < fuel"
  shows "collect_flat W fuel pre b bq s \<noteq> None"
  using assms
proof (induction fuel arbitrary: b bq s)
  case (Suc fuel)
  obtain r s1 where p: "poll_cmd s = (r, s1)" by force
  have f: "fifo s1 = snd (poll (fifo s))" "r = map_option read_cmd (fst (poll (fifo s)))"
    using poll_cmd_frame(4,5)[OF p] .
  show ?case
  proof (cases r)
    case None
    then show ?thesis using p by (simp add: collect_flat.simps(2))
  next
    case (Some cmd)
    then obtain ws where "poll (fifo s) = (Some ws, fifo s1)" using f by (cases "poll (fifo s)") auto
    from poll_some[OF Suc.prems(1) this] have n: "ring_ok (fifo s1)" "ready (fifo s1) < fuel"
      using Suc.prems(2) by simp_all
    have "collect_flat W fuel pre b' bq' s' \<noteq> None" if "fifo s' = fifo s1" for b' bq' s'
      using Suc.IH[of s'] n that by simp
    then show ?thesis using p Some by (simp add: collect_flat.simps(2) Let_def del: not_None_eq)
  qed
qed simp

lemma collect_total:
  assumes "ring_ok (fifo s)"
  shows "\<exists>b bq t. collect W s = Some (b, bq, t)"
proof -
  obtain b0 bq0 s0 where p: "take_pending (inflight s) s = (b0, bq0, s0)" by (metis prod_cases3)
  then have f: "fifo s0 = fifo s" by (auto simp: take_pending_def split: if_splits)
  have "ready (fifo s0) < Suc (length (triggers (fifo s)))" using ready_le[of "fifo s"] f by simp
  then have "collect W s \<noteq> None"
    using collect_queue_total[of s0] collect_flat_total[of s0] assms f p
    by (simp add: collect_def Let_def del: not_None_eq)
  then show ?thesis by auto
qed

lemma collect_ring:
  assumes "ring_ok (fifo s)" "collect W s = Some (b, bq, t)"
  shows "ring_ok (fifo t)"
proof -
  have "collect_stable W (\<lambda>u. ring_ok (fifo u))"
    unfolding collect_stable_def
  proof (intro conjI allI impI)
    fix u r v assume a: "ring_ok (fifo u) \<and> poll_cmd u = (r, v)"
    then have f: "fifo v = snd (poll (fifo u))" using poll_cmd_frame(4) by blast
    obtain o' g where p: "poll (fifo u) = (o', g)" by force
    show "ring_ok (fifo v)"
      using a f p poll_some(2)[of "fifo u"] poll_none[of "fifo u" g] by (cases o') auto
  qed simp_all
  then show ?thesis using collect_preserves[OF _ assms(2)] assms(1) by fastforce
qed

section \<open>One iteration\<close>

lemma reap_one_facts:
  "ledger (reap_one s wc) = ledger s - decode_wr_count (wc_wr_id wc)" "same_build s (reap_one s wc)"
  "fifo (reap_one s wc) = fifo s" "posts (reap_one s wc) = posts s"
  by (simp_all add: reap_one_def Let_def ledger_def same_build_def)

lemma reap_fold_facts:
  "ledger (foldl reap_one s wcs) = ledger s - retired wcs \<and> same_build s (foldl reap_one s wcs) \<and>
   fifo (foldl reap_one s wcs) = fifo s \<and> posts (foldl reap_one s wcs) = posts s"
proof (induction wcs arbitrary: s)
  case (Cons wc wcs)
  show ?case
    using Cons.IH[of "reap_one s wc"] reap_one_facts[of s wc] same_build_trans[of s "reap_one s wc"]
    by (auto simp: retired_def)
qed (simp add: retired_def)

lemma reap_facts:
  "ledger (reap_completions W wcs s) = ledger s - retired wcs \<and> same_build s (reap_completions W wcs s) \<and>
   fifo (reap_completions W wcs s) = fifo s \<and> posts (reap_completions W wcs s) = posts s"
proof -
  define s1 where "s1 = (if wcs \<noteq> [] \<and> \<not> recorded (ts s)
    then let (t, u) = read_clock W s
         in u\<lparr>ts := (ts u)\<lparr>ts_first_completion_ns := t, recorded := True\<rparr>\<rparr> else s)"
  define s2 where "s2 = (if wcs \<noteq> []
    then let (t, u) = read_clock W s1;
             d = (if first_completion_ns (diag u) = 0 then (diag u)\<lparr>first_completion_ns := t\<rparr> else diag u)
         in u\<lparr>diag := d\<lparr>last_completion_ns := t\<rparr>\<rparr> else s1)"
  have s1: "ledger s1 = ledger s" "same_build s s1" "fifo s1 = fifo s" "posts s1 = posts s" "inflight s1 = inflight s"
    by (simp_all add: s1_def read_clock_def ledger_def same_build_def)
  have s2: "ledger s2 = ledger s" "same_build s s2" "fifo s2 = fifo s" "posts s2 = posts s"
    using s1 by (simp_all add: s2_def read_clock_def Let_def ledger_def same_build_def)
  have "reap_completions W wcs s = foldl reap_one s2 wcs"
    unfolding reap_completions_def s1_def[symmetric] by (simp add: Let_def s2_def)
  then show ?thesis using reap_fold_facts[of s2 wcs] s2 same_build_trans by auto
qed

lemma loop_post_facts:
  assumes ok: "proxy_ok W s" and b: "length b \<le> BATCH_SIZE" and e: "loop_post W pre b bq s = (n, t)"
  shows "ledger t = ledger s \<and> proxy_ok W t \<and> cfg t = cfg s \<and> fifo t = fifo s \<and>
    n = length (if cf_direct_dmabuf_enabled (cfg s) then filter (\<lambda>c. src_view c \<noteq> 2) b else b)"
proof -
  define s1 where "s1 = sample_backlog pre (length b) s"
  have f1: "ledger s1 = ledger s" "same_build s s1" "fifo s1 = fifo s" "cfg s1 = cfg s" by (simp_all add: s1_def)
  obtain kept m s2 where fs: "filter_strided W b bq (total_logical_queues (cfg s1)) s1 = (kept, m, s2)"
    by (metis prod_cases3)
  note F = filter_strided_facts[OF fs] and m = filter_strided_nonneg[OF fs]
  have klen: "length kept \<le> BATCH_SIZE"
    using F b le_trans[OF length_filter_le[of "\<lambda>c. src_view c \<noteq> 2" b] b] by auto
  have sb2: "same_build s s2" using f1(2) F same_build_trans by blast
  then have ok2: "proxy_ok W s2" using same_build_ok ok by blast
  have c2: "cfg s2 = cfg s" using sb2 by (simp add: same_build_def)
  define s3 where "s3 = (if kept \<noteq> [] then post_batch W kept bq s2 else s2)"
  have f3: "ledger s3 = ledger s2" "proxy_ok W s3" "cfg s3 = cfg s" "fifo s3 = fifo s"
    using post_batch_facts[OF ok2 _ klen, of bq] ok2 c2 F f1(3) by (auto simp: s3_def)
  define s4 where "s4 = (if m > 0 then s3\<lparr>inflight := inflight s3 + m,
      diag := (diag s3)\<lparr>cmds_posted := cmds_posted (diag s3) + word_of_int m\<rparr>\<rparr> else s3)"
  have e4: "t = s4" "n = length kept"
    using e unfolding loop_post_def Let_def s1_def[symmetric] fs prod.case s3_def[symmetric] s4_def[symmetric]
    by simp_all
  have "ledger s4 = ledger s" using f3 F f1 m by (auto simp: s4_def ledger_def)
  moreover have "proxy_ok W s4 \<and> cfg s4 = cfg s \<and> fifo s4 = fifo s"
    using f3 by (simp add: s4_def proxy_ok_def templates_ok_def)
  ultimately show ?thesis using e4 F f1(4) by simp
qed

lemma loop_head_facts:
  assumes "loop_head W p s = (t, u)"
  shows "ledger u = ledger s" "same_build s u" "fifo u = fifo s"
  using assms by (auto simp: loop_head_def read_clock_def ledger_def same_build_def)

lemma pass_gate_facts:
  "ledger (pass_gate W s) = ledger s" "same_build s (pass_gate W s)" "fifo (pass_gate W s) = fifo s"
  by (simp_all add: pass_gate_def read_clock_def ledger_def same_build_def)

definition reaped :: "loop_in \<Rightarrow> int" where
  "reaped io = (if in_paused io then 0 else retired (in_wcs io))"

lemma ring_ok_advance [simp]: "ring_ok (advance_tail f v) = ring_ok f"
  by (simp add: advance_tail_def)

lemma loop_body_facts:
  assumes ok: "proxy_ok W s" and ring: "ring_ok (fifo s)"
  shows "\<exists>t u. loop_body W io p s = Some (t, u) \<and> ledger u = ledger s - reaped io \<and> proxy_ok W u \<and>
    ring_ok (fifo u) \<and> cfg u = cfg s"
proof -
  obtain t s1 where h: "loop_head W p s = (t, s1)" by force
  note H = loop_head_facts[OF h]
  show ?thesis
  proof (cases "in_paused io")
    case True
    then have "loop_body W io p s = Some (t, pass_gate W s1)" by (simp add: loop_body_def h)
    moreover have sb: "same_build s (pass_gate W s1)" using H(2) pass_gate_facts(2) same_build_trans by blast
    moreover have "cfg (pass_gate W s1) = cfg s" using sb by (simp add: same_build_def)
    ultimately show ?thesis
      using True H(1,3) pass_gate_facts(1,3)[where W = W and s = s1] same_build_ok[OF sb] ok ring
      by (simp add: reaped_def)
  next
    case False
    define s2 where "s2 = forward_step W (in_table io) s1"
    have f2: "ledger s2 = ledger s" "same_build s s2" "fifo s2 = fifo s"
      using forward_step_frame[where s = s1 and W = W and table = "in_table io"] H same_build_trans
      by (auto simp: s2_def forward_frame_def)
    obtain b bq s3 where c: "collect W s2 = Some (b, bq, s3)" using collect_total f2(3) ring by metis
    note C = collect_facts[OF c]
    have ok3: "proxy_ok W s3" using same_build_ok ok f2(2) C by blast
    have ring3: "ring_ok (fifo s3)" using collect_ring[OF _ c] f2(3) ring by simp
    obtain n s4 where l: "loop_post W (inflight s2) b bq s3 = (n, s4)" by force
    note L = loop_post_facts[OF ok3 _ l]
    define s5 where "s5 = reap_completions W (in_wcs io) s4"
    note R = reap_facts[of W "in_wcs io" s4, folded s5_def]
    let ?u = "if n > 0 then s5\<lparr>fifo := advance_tail (fifo s5) (cpu_head (fifo s5))\<rparr> else s5"
    have "loop_body W io p s = Some (t, ?u)"
      unfolding loop_body_def h using False c l by (simp add: s2_def Let_def s5_def)
    moreover have "ledger ?u = ledger s5" by (simp add: ledger_def)
    moreover have "ledger s5 = ledger s - reaped io"
      using R L C f2 False by (simp add: reaped_def)
    moreover have "proxy_ok W ?u \<and> cfg ?u = cfg s \<and> ring_ok (fifo ?u)"
      using same_build_ok[of s4 s5 W] R L C f2 ring3
      by (auto simp: same_build_def proxy_ok_def templates_ok_def)
    ultimately show ?thesis by (metis (no_types, lifting))
  qed
qed

lemma ring_ok_push:
  assumes "ring_ok f" "push c f = Some (sl, g)"
  shows "ring_ok g"
proof -
  have fold: "ring_ok (fold (\<lambda>wi g. store_word g sl wi (ws ! wi)) ks h)" if "ring_ok h" for ks h sl and ws :: "u64 list"
    using that by (induction ks arbitrary: h) auto
  show ?thesis
    using assms fold
    by (auto simp: push_def push_claim_def store_payload_def Let_def split: if_splits)
qed

lemma ring_ok_gpu_pushes: "ring_ok f \<Longrightarrow> ring_ok (gpu_pushes cmds f)"
  unfolding gpu_pushes_def
  by (induction cmds arbitrary: f) (auto split: option.splits prod.splits dest: ring_ok_push)

lemma run_loop_facts:
  assumes "proxy_ok W s" "ring_ok (fifo s)"
  shows "\<exists>t u. run_loop W ios p s = Some (t, u) \<and> ledger u = ledger s - (\<Sum>io \<leftarrow> ios. reaped io) \<and>
    proxy_ok W u \<and> ring_ok (fifo u)"
  using assms
proof (induction ios arbitrary: p s)
  case (Cons io ios)
  let ?s = "s\<lparr>fifo := gpu_pushes (in_cmds io) (fifo s)\<rparr>"
  have "proxy_ok W ?s" "ring_ok (fifo ?s)" "ledger ?s = ledger s"
    using Cons.prems ring_ok_gpu_pushes by (simp_all add: proxy_ok_def templates_ok_def ledger_def)
  then obtain t u where u: "loop_body W io p ?s = Some (t, u)" "ledger u = ledger s - reaped io" "proxy_ok W u"
    "ring_ok (fifo u)" using loop_body_facts[of W ?s io p] by auto
  from Cons.IH[OF u(3,4), of t] show ?case using u(1,2) by auto
qed simp

section \<open>Draining\<close>

lemma drain_one_facts:
  "fst (drain_one (n, s) wc) = n + decode_wr_count (wc_wr_id wc)"
  "inflight (snd (drain_one (n, s) wc)) = inflight s - decode_wr_count (wc_wr_id wc)"
  by (simp_all add: drain_one_def Let_def)

lemma drain_fold_facts:
  "fst (foldl drain_one (n, s) wcs) = n + retired wcs \<and>
   inflight (snd (foldl drain_one (n, s) wcs)) = inflight s - retired wcs"
proof (induction wcs arbitrary: n s)
  case (Cons wc wcs)
  obtain n' s' where d: "drain_one (n, s) wc = (n', s')" by force
  show ?case using Cons.IH[of n' s'] drain_one_facts[of n s wc] d by (simp add: retired_def)
qed (simp add: retired_def)

lemma drain_cq_returns:
  assumes "\<And>wc. wc \<in> set (concat polls) \<Longrightarrow> 0 < decode_wr_count (wc_wr_id wc)"
    and "retired (concat polls) = inflight s"
  shows "\<exists>t. drain_cq polls (n, s) = Some (n + inflight s, t) \<and> inflight t = 0"
  using assms
proof (induction polls arbitrary: n s)
  case Nil
  then show ?case by (simp add: drain_cq.simps retired_def)
next
  case (Cons wcs polls)
  have split: "retired (concat (wcs # polls)) = retired wcs + retired (concat polls)"
    by (simp add: retired_def)
  have nonneg: "0 \<le> retired xs" if "set xs \<subseteq> set (concat (wcs # polls))" for xs
    unfolding retired_def
    by (rule sum_list_nonneg) (use Cons.prems(1) that in \<open>fastforce intro: less_imp_le\<close>)
  show ?case
  proof (cases "inflight s > 0")
    case True
    obtain n' s' where d: "foldl drain_one (n, s) wcs = (n', s')" by force
    have e: "n' = n + retired wcs" "inflight s' = inflight s - retired wcs"
      using drain_fold_facts[of n s wcs] d by simp_all
    have "\<exists>t. drain_cq polls (n', s') = Some (n' + inflight s', t) \<and> inflight t = 0"
      by (rule Cons.IH) (use Cons.prems split e in auto)
    then show ?thesis using True d e by (simp add: drain_cq.simps[of "wcs # polls"])
  next
    case False
    have "inflight s = 0" using nonneg[of "concat (wcs # polls)"] Cons.prems(2) False by simp
    then show ?thesis by (simp add: drain_cq.simps)
  qed
qed

section \<open>Arrival slots\<close>

definition lq_of :: "u32 \<Rightarrow> TransferCmd \<Rightarrow> nat" where
  "lq_of tlq cmd = unat (logical_queue tlq cmd)"

lemma lq_of_less: "0 < unat tlq \<Longrightarrow> lq_of tlq cmd < unat tlq"
  by (auto simp: lq_of_def logical_queue_def word_greater_zero_iff unat_mod)

lemma length_seqs_after [simp]: "length (seqs_after tlq cmds seqs) = length seqs"
  unfolding seqs_after_def by (induction cmds arbitrary: seqs) (auto simp: Let_def)

lemma seqs_after_nth:
  assumes "q < length seqs"
  shows "seqs_after tlq cmds seqs ! q = seqs ! q + of_nat (length (filter (\<lambda>c. lq_of tlq c = q) cmds))"
  using assms
proof (induction cmds arbitrary: seqs)
  case (Cons c cmds)
  let ?k = "lq_of tlq c"
  have "seqs_after tlq (c # cmds) seqs = seqs_after tlq cmds (seqs[?k := seqs ! ?k + 1])"
    by (simp add: seqs_after_def Let_def lq_of_def)
  then show ?case
    using Cons.IH[of "seqs[?k := seqs ! ?k + 1]"] Cons.prems by (simp add: nth_list_update)
qed (simp add: seqs_after_def)

text \<open>Commands of one logical queue take consecutive slots, in batch order.\<close>

lemma slot_of_cmd_nth:
  assumes "cf_use_arrival_queue c" "lq_of tlq (cmds ! i) < length seqs" "i < length cmds"
  shows "slot_of_cmd c tlq cmds seqs i = seqs ! lq_of tlq (cmds ! i) +
    of_nat (length (filter (\<lambda>d. lq_of tlq d = lq_of tlq (cmds ! i)) (take i cmds)))"
  using assms seqs_after_nth[OF assms(2), of tlq "take i cmds"] by (simp add: slot_of_cmd_def lq_of_def)

lemma earlier_count_less:
  assumes "i < j" "j < length cmds" "P (cmds ! i)"
  shows "length (filter P (take i cmds)) < length (filter P (take j cmds))"
proof -
  have "take j cmds = take i cmds @ cmds ! i # drop (Suc i) (take j cmds)"
    using assms(1,2) id_take_nth_drop[of i "take j cmds"] by simp
  then have "filter P (take j cmds) = filter P (take i cmds) @ cmds ! i # filter P (drop (Suc i) (take j cmds))"
    using assms(3) by (metis filter.simps(2) filter_append)
  then show ?thesis by simp
qed

lemma slot_of_cmd_unat:
  assumes "cf_use_arrival_queue c" "lq_of tlq (cmds ! i) < length seqs" "i < length cmds"
    and "unat (seqs ! lq_of tlq (cmds ! i)) + length cmds < 2 ^ 32"
  shows "unat (slot_of_cmd c tlq cmds seqs i) = unat (seqs ! lq_of tlq (cmds ! i)) +
    length (filter (\<lambda>d. lq_of tlq d = lq_of tlq (cmds ! i)) (take i cmds))"
proof -
  let ?n = "length (filter (\<lambda>d. lq_of tlq d = lq_of tlq (cmds ! i)) (take i cmds))"
  have "?n \<le> length cmds" by (metis length_filter_le length_take min.cobounded1 le_trans)
  then have "unat (seqs ! lq_of tlq (cmds ! i)) + ?n < 2 ^ 32" using assms(4) by linarith
  then show ?thesis
    unfolding slot_of_cmd_nth[OF assms(1-3)]
    by (simp add: unat_word_ariths unsigned_of_nat take_bit_nat_eq_self)
qed

text \<open>Within the stride of a queue, slot addresses determine queue and slot.\<close>

lemma queue_slot_addr_inj:
  assumes "unat a < m" "unat b < m" "unat x < unat st" "unat y < unat st" "m * unat st \<le> 2 ^ 32"
    and st: "st = cf_remote_queue_stride c"
    and eq: "queue_slot_addr c F a x = queue_slot_addr c F b y"
  shows "a = b \<and> x = y"
proof -
  have idx: "unat (q * st + z) = unat q * unat st + unat z"
    if "unat q < m" "unat z < unat st" for q z :: u32
  proof -
    have "Suc (unat q) * unat st \<le> m * unat st" using that(1) by (intro mult_right_mono) auto
    then have "unat q * unat st + unat z < 2 ^ 32" using that(2) assms(5) by simp
    then show ?thesis by (simp add: unat_word_ariths)
  qed
  have small: "unat (ucast (w :: u32) * 4 :: u64) = unat w * 4" for w
  proof -
    have "unat w < 2 ^ 32" using unsigned_less[of w] by simp
    then show ?thesis by (simp add: unat_word_ariths unsigned_ucast_eq take_bit_nat_eq_self)
  qed
  have "ucast (a * st + x) * 4 = (ucast (b * st + y) * 4 :: u64)"
    using eq unfolding queue_slot_addr_def st by simp
  then have "unat (a * st + x) = unat (b * st + y)" using small by (metis mult_right_cancel zero_neq_numeral)
  then have e: "unat a * unat st + unat x = unat b * unat st + unat y" using idx assms(1-4) by simp
  have "(unat a * unat st + unat x) div unat st = unat a" "(unat b * unat st + unat y) div unat st = unat b"
    using assms(3,4) by simp_all
  then have "unat a = unat b" using e by simp
  moreover have "unat x = unat y" using e \<open>unat a = unat b\<close> by simp
  ultimately show ?thesis by (simp add: word_unat_eq_iff)
qed

lemma batch_slots_distinct:
  assumes q: "cf_use_arrival_queue c" and tlq: "0 < unat tlq" "unat tlq \<le> length seqs"
    and room: "\<And>k. k < length seqs \<Longrightarrow> unat (seqs ! k) + length cmds \<le> unat (cf_remote_queue_stride c)"
    and space: "unat tlq * unat (cf_remote_queue_stride c) \<le> 2 ^ 32"
    and ij: "i < j" "j < length cmds"
  shows "queue_slot_addr c F (logical_queue tlq (cmds ! i)) (slot_of_cmd c tlq cmds seqs i) \<noteq>
    queue_slot_addr c F (logical_queue tlq (cmds ! j)) (slot_of_cmd c tlq cmds seqs j)"
proof
  let ?st = "cf_remote_queue_stride c"
  assume eq: "queue_slot_addr c F (logical_queue tlq (cmds ! i)) (slot_of_cmd c tlq cmds seqs i) =
    queue_slot_addr c F (logical_queue tlq (cmds ! j)) (slot_of_cmd c tlq cmds seqs j)"
  have lq: "lq_of tlq d < length seqs" "unat (logical_queue tlq d) < unat tlq" for d
    using lq_of_less[OF tlq(1), of d] tlq(2) by (simp_all add: lq_of_def)
  have st32: "unat ?st < 2 ^ 32" using unsigned_less[of ?st] by simp
  have r32: "unat (seqs ! lq_of tlq (cmds ! k)) + length cmds < 2 ^ 32" for k
    using room[OF lq(1), of "cmds ! k"] st32 by linarith
  have u: "unat (slot_of_cmd c tlq cmds seqs k) = unat (seqs ! lq_of tlq (cmds ! k)) +
      length (filter (\<lambda>d. lq_of tlq d = lq_of tlq (cmds ! k)) (take k cmds))" if "k < length cmds" for k
    by (rule slot_of_cmd_unat[OF q lq(1) that r32])
  have lt: "unat (slot_of_cmd c tlq cmds seqs k) < unat ?st" if "k < length cmds" for k
  proof -
    have "length (filter (\<lambda>d. lq_of tlq d = lq_of tlq (cmds ! k)) (take k cmds)) \<le> k"
      by (metis length_filter_le length_take min.cobounded2 le_trans)
    then show ?thesis using u[OF that] room[OF lq(1), of "cmds ! k"] that by linarith
  qed
  have "logical_queue tlq (cmds ! i) = logical_queue tlq (cmds ! j) \<and>
      slot_of_cmd c tlq cmds seqs i = slot_of_cmd c tlq cmds seqs j"
    by (rule queue_slot_addr_inj[OF lq(2) lq(2) _ _ space refl eq]) (use lt ij in auto)
  then have same: "lq_of tlq (cmds ! i) = lq_of tlq (cmds ! j)"
    and "unat (slot_of_cmd c tlq cmds seqs i) = unat (slot_of_cmd c tlq cmds seqs j)"
    by (simp_all add: lq_of_def)
  then have "length (filter (\<lambda>d. lq_of tlq d = lq_of tlq (cmds ! j)) (take i cmds)) =
      length (filter (\<lambda>d. lq_of tlq d = lq_of tlq (cmds ! j)) (take j cmds))"
    using u[of i] u[of j] ij by simp
  then show False using earlier_count_less[of i j cmds "\<lambda>d. lq_of tlq d = lq_of tlq (cmds ! j)"] ij same by simp
qed

section \<open>Payloads\<close>

lemma build_cmd_staging:
  "staging (build_cmd bq n tlq i cmd s) =
     (if cf_use_arrival_queue (cfg s) then
        let st = (staging s)[i := pack_arrival_work (tile_id cmd) (run_tiles (bytes cmd))]
        in if cf_enable_remote_tail (cfg s)
           then st[BATCH_SIZE + i := sender_seq s ! lq_of tlq cmd + 1] else st
      else staging s)"
  by (simp add: build_cmd_def Let_def take_seq_eq lq_of_def)

lemma built_staging:
  assumes "cf_use_arrival_queue (cfg s)" "j \<le> length b" "length b \<le> BATCH_SIZE" "2 * BATCH_SIZE \<le> length (staging s)"
    and "i < j"
  shows "length (staging (built bq tlq b j s)) = length (staging s) \<and>
    staging (built bq tlq b j s) ! i = pack_arrival_work (tile_id (b ! i)) (run_tiles (bytes (b ! i))) \<and>
    (cf_enable_remote_tail (cfg s) \<longrightarrow>
       staging (built bq tlq b j s) ! (BATCH_SIZE + i) = slot_of_cmd (cfg s) tlq b (sender_seq s) i + 1)"
  using assms(2,5)
proof (induction j)
  case (Suc j)
  have len: "length (staging (built bq tlq b j s)) = length (staging s)"
  proof (cases j)
    case 0
    then show ?thesis by (simp add: built_def)
  next
    case (Suc k)
    have "length (staging (built bq tlq b m s)) = length (staging s)" for m
      by (induction m) (simp_all add: built_Suc build_cmd_staging Let_def, simp_all add: built_def)
    then show ?thesis .
  qed
  have seq: "sender_seq (built bq tlq b j s) ! lq_of tlq (b ! j) = slot_of_cmd (cfg s) tlq b (sender_seq s) j"
    using built_seq[of j b bq tlq s] Suc.prems assms(1) by (simp add: slot_of_cmd_def lq_of_def)
  have ij: "i < length (staging s)" "BATCH_SIZE + i < length (staging s)" "i < BATCH_SIZE" "j < BATCH_SIZE"
    using Suc.prems assms(3,4) by simp_all
  show ?case
  proof (cases "i = j")
    case True
    then show ?thesis using len seq ij assms(1) by (simp add: built_Suc build_cmd_staging Let_def nth_list_update)
  next
    case False
    then have "i < j" using Suc.prems by simp
    with Suc have "staging (built bq tlq b j s) ! i = pack_arrival_work (tile_id (b ! i)) (run_tiles (bytes (b ! i))) \<and>
      (cf_enable_remote_tail (cfg s) \<longrightarrow>
       staging (built bq tlq b j s) ! (BATCH_SIZE + i) = slot_of_cmd (cfg s) tlq b (sender_seq s) i + 1)" by simp
    then show ?thesis using len False ij assms(1) by (simp add: built_Suc build_cmd_staging Let_def nth_list_update)
  qed
qed simp

lemma built_staging_flat:
  assumes "\<not> cf_use_arrival_queue (cfg s)"
  shows "staging (built bq tlq b j s) = staging s"
  by (induction j) (simp_all add: built_Suc build_cmd_staging assms, simp add: built_def)

lemma prepare_batch_staging:
  assumes "length b \<le> BATCH_SIZE" "2 * BATCH_SIZE \<le> length (staging s)"
  shows "if cf_use_arrival_queue (cfg s)
    then \<forall>i < length b. staging (prepare_batch W b bq s) ! i = pack_arrival_work (tile_id (b ! i)) (run_tiles (bytes (b ! i))) \<and>
      (cf_enable_remote_tail (cfg s) \<longrightarrow> staging (prepare_batch W b bq s) ! (BATCH_SIZE + i) =
         slot_of_cmd (cfg s) (total_logical_queues (cfg s)) b (sender_seq s) i + 1)
    else staging (prepare_batch W b bq s) ! 0 = cf_epoch (cfg s)"
proof -
  let ?s1 = "if \<not> wrs_initialized s then init_wr_templates W s else s"
  let ?s2 = "set_staging 0 (cf_epoch (cfg ?s1)) ?s1"
  have e: "cfg ?s2 = cfg s" "sender_seq ?s2 = sender_seq s" "staging ?s2 = (staging s)[0 := cf_epoch (cfg s)]"
    by (simp_all add: init_wr_templates_def)
  have p: "prepare_batch W b bq s = built bq (total_logical_queues (cfg s)) b (length b) ?s2"
    by (simp add: prepare_batch_def Let_def build_batch_built)
  show ?thesis
  proof (cases "cf_use_arrival_queue (cfg s)")
    case True
    then show ?thesis
      using built_staging[of ?s2 "length b" b _ bq "total_logical_queues (cfg s)"] assms unfolding p e by simp
  next
    case False
    then show ?thesis
      using built_staging_flat[of ?s2 bq "total_logical_queues (cfg s)" b "length b"] assms(2) unfolding p e
      by (cases "staging s") (simp_all add: BATCH_SIZE_def)
  qed
qed

text \<open>The one post of a batch.\<close>

lemma post_batch_post:
  assumes ok: "proxy_ok W s" and b: "b \<noteq> []" "length b \<le> BATCH_SIZE"
  shows "\<exists>p s1. posts (post_batch W b bq s) = posts s @ [p] \<and> po_qp p = bq \<and>
    po_chain p = batch_segments W (cfg s) bq (total_logical_queues (cfg s)) b (sender_seq s) \<and>
    po_staging p = staging (prepare_batch W b bq s1) \<and>
    cfg s1 = cfg s \<and> sender_seq s1 = sender_seq s \<and> staging s1 = staging s"
proof -
  obtain ns s1 where f: "first_cmd_time W s = (ns, s1)" by force
  note F = first_cmd_time_frame[OF f]
  have st1: "staging s1 = staging s"
    using f by (auto simp: first_cmd_time_def read_clock_def Let_def split: if_splits)
  have ok1: "proxy_ok W s1" using same_build_ok[OF F(2)] ok by simp
  have c1: "cfg s1 = cfg s" using F(2) by (simp add: same_build_def)
  define s2 where "s2 = prepare_batch W b bq s1"
  have posts2: "posts s2 = posts s" using F(5) by (simp add: s2_def prepare_batch_def Let_def build_batch_built init_wr_templates_def)
  define ch where "ch = wr_chain (resolve_sges (wrs s2) (sges s2))"
  have ch: "ch = batch_segments W (cfg s) bq (total_logical_queues (cfg s)) b (sender_seq s)"
    unfolding ch_def prepare_batch_chain[OF ok1 b s2_def] c1 F(4) ..
  obtain r s3 where p: "post_send W bq ch s2 = (r, s3)" by force
  then obtain q where q: "posts s3 = posts s2 @ [q]" "po_qp q = bq" "po_chain q = ch" "po_staging q = staging s2"
    by (auto simp: post_send_def Let_def)
  define s4 where "s4 = (if r \<noteq> 0 then s3 else note_batch_posted W ns bq (length b) s3)"
  have "posts s4 = posts s3" by (simp add: s4_def note_batch_posted_frame)
  moreover have "post_batch W b bq s = (if \<not> cf_use_arrival_queue (cfg s4)
      then s4\<lparr>qp_rr_idx := c_mod (qp_rr_idx s4 + 1) (cf_num_qps (cfg s4))\<rparr> else s4)"
    unfolding post_batch_def Let_def f by (simp add: s2_def[symmetric] ch_def[symmetric] p s4_def)
  ultimately have "posts (post_batch W b bq s) = posts s @ [q]" using q(1) posts2 by simp
  then show ?thesis using q ch c1 F(4) st1 s2_def by blast
qed

section \<open>The arrival words of successive batches\<close>

text \<open>
  The addresses of the arrival writes of a posted chain of the queue layout, in chain order: the
  request after each data write.
\<close>

definition arrival_addrs :: "ProxyConfig \<Rightarrow> post \<Rightarrow> u64 list" where
  "arrival_addrs c p =
     (let k = (if cf_enable_remote_tail c then 3 else 2)
      in map (\<lambda>i. remote_addr (po_chain p ! (k * i + 1))) [0..<length (po_chain p) div k])"

lemma length_concat_blocks:
  "(\<And>i. i < n \<Longrightarrow> length (f i) = k) \<Longrightarrow> length (concat (map f [0..<n])) = k * n"
  by (induction n) auto

lemma concat_blocks_nth:
  assumes "\<And>i. i < n \<Longrightarrow> length (f i) = k" "i < n" "j < k"
  shows "concat (map f [0..<n]) ! (k * i + j) = f i ! j"
  using assms
proof (induction n)
  case (Suc n)
  have len: "length (concat (map f [0..<n])) = k * n"
    by (rule length_concat_blocks) (use Suc.prems(1) in simp)
  show ?case
  proof (cases "i < n")
    case True
    have "k * i + j < k * Suc i" using Suc.prems(3) by simp
    also have "\<dots> \<le> k * n" using True by (intro mult_left_mono) auto
    finally show ?thesis using Suc.IH[OF _ True Suc.prems(3)] Suc.prems(1) len by (simp add: nth_append)
  next
    case False
    then have "i = n" using Suc.prems(2) by simp
    then show ?thesis using len Suc.prems(3) by (simp add: nth_append)
  qed
qed simp

lemma segment_arrival:
  assumes "cf_use_arrival_queue c"
  shows "length (cmd_segment W c bq n tlq i cmd q) = (if cf_enable_remote_tail c then 3 else 2)"
    "remote_addr (cmd_segment W c bq n tlq i cmd q ! 1) =
       queue_slot_addr c (remote_flags_addr_for_qp c bq) (logical_queue tlq cmd) q"
  using assms by (auto simp: cmd_segment_def Let_def meta_wr_def)

lemma arrival_addrs_batch:
  assumes q: "cf_use_arrival_queue c" and ch: "po_chain p = batch_segments W c bq tlq b seqs"
  shows "arrival_addrs c p = map (\<lambda>i. queue_slot_addr c (remote_flags_addr_for_qp c bq)
    (logical_queue tlq (b ! i)) (slot_of_cmd c tlq b seqs i)) [0..<length b]"
proof (cases "b = []")
  case True
  then show ?thesis using ch by (simp add: arrival_addrs_def batch_segments_def Let_def)
next
  case False
  define k :: nat where "k = (if cf_enable_remote_tail c then 3 else 2)"
  have k: "1 < k" by (simp add: k_def)
  let ?f = "\<lambda>i. cmd_segment W c bq (length b) tlq i (b ! i) (slot_of_cmd c tlq b seqs i)"
  have len: "length (?f i) = k" for i using segment_arrival(1)[OF q] by (simp add: k_def)
  have n: "length (po_chain p) = k * length b"
    unfolding ch batch_segments_def by (rule length_concat_blocks) (rule len)
  have e: "po_chain p ! (k * i + 1) = ?f i ! 1" if "i < length b" for i
    unfolding ch batch_segments_def using concat_blocks_nth[of "length b" ?f k i 1] len k that by simp
  have "arrival_addrs c p = map (\<lambda>i. remote_addr (po_chain p ! (k * i + 1))) [0..<length b]"
    using n k unfolding arrival_addrs_def Let_def k_def[symmetric] by simp
  also have "\<dots> = map (\<lambda>i. remote_addr (?f i ! 1)) [0..<length b]" using e by auto
  finally show ?thesis using segment_arrival(2)[OF q] by simp
qed

lemma note_batch_posted_seq: "sender_seq (note_batch_posted W ns bq n s) = sender_seq s"
  by (auto simp: note_batch_posted_def note_post_def read_clock_def Let_def split: prod.splits)

lemma post_batch_seq:
  "sender_seq (post_batch W b bq s) =
    (if cf_use_arrival_queue (cfg s) then seqs_after (total_logical_queues (cfg s)) b (sender_seq s)
     else sender_seq s)"
proof -
  obtain ns s1 where f: "first_cmd_time W s = (ns, s1)" by force
  note F = first_cmd_time_frame[OF f]
  have c1: "cfg s1 = cfg s" using F(2) by (simp add: same_build_def)
  define s2 where "s2 = prepare_batch W b bq s1"
  have q2: "sender_seq s2 = (if cf_use_arrival_queue (cfg s)
      then seqs_after (total_logical_queues (cfg s)) b (sender_seq s) else sender_seq s)"
    unfolding s2_def using F(4) c1
    by (simp add: prepare_batch_def Let_def build_batch_built init_wr_templates_def built_seq)
  obtain r s3 where p: "post_send W bq (wr_chain (resolve_sges (wrs s2) (sges s2))) s2 = (r, s3)" by force
  then have q3: "sender_seq s3 = sender_seq s2" by (auto simp: post_send_def Let_def)
  show ?thesis
    unfolding post_batch_def Let_def f using q2 q3 F(4) c1
    by (simp add: s2_def[symmetric] p note_batch_posted_seq)
qed

text \<open>The slots two batches take one after the other are those their concatenation takes.\<close>

lemma seqs_after_append: "seqs_after tlq (xs @ ys) seqs = seqs_after tlq ys (seqs_after tlq xs seqs)"
  by (simp add: seqs_after_def)

lemma seqs_after_Nil [simp]: "seqs_after tlq [] seqs = seqs"
  by (simp add: seqs_after_def)

lemma slot_of_cmd_append:
  assumes "cf_use_arrival_queue c" "i < length xs + length ys"
  shows "slot_of_cmd c tlq (xs @ ys) seqs i =
    (if i < length xs then slot_of_cmd c tlq xs seqs i
     else slot_of_cmd c tlq ys (seqs_after tlq xs seqs) (i - length xs))"
  using assms by (auto simp: slot_of_cmd_def nth_append seqs_after_append)

lemma fold_post_batch:
  assumes "proxy_ok W s" "cf_use_arrival_queue (cfg s)"
    and "\<forall>b \<in> set bs. b \<noteq> [] \<and> length b \<le> BATCH_SIZE"
  shows "\<exists>ps. posts (fold (\<lambda>b. post_batch W b bq) bs s) = posts s @ ps \<and> length ps = length bs \<and>
    concat (map (arrival_addrs (cfg s)) ps) =
      map (\<lambda>i. queue_slot_addr (cfg s) (remote_flags_addr_for_qp (cfg s) bq)
        (logical_queue (total_logical_queues (cfg s)) (concat bs ! i))
        (slot_of_cmd (cfg s) (total_logical_queues (cfg s)) (concat bs) (sender_seq s) i)) [0..<length (concat bs)]"
  using assms
proof (induction bs arbitrary: s)
  case (Cons b bs)
  let ?t = "post_batch W b bq s" and ?l = "total_logical_queues (cfg s)"
  let ?a = "\<lambda>xs seqs i. queue_slot_addr (cfg s) (remote_flags_addr_for_qp (cfg s) bq)
        (logical_queue ?l (xs ! i)) (slot_of_cmd (cfg s) ?l xs seqs i)"
  have b: "b \<noteq> []" "length b \<le> BATCH_SIZE" using Cons.prems(3) by auto
  obtain p where p: "posts ?t = posts s @ [p]" "po_chain p = batch_segments W (cfg s) bq ?l b (sender_seq s)"
    using post_batch_post[OF Cons.prems(1) b, of bq] by blast
  note t = post_batch_facts[OF Cons.prems(1) b, of bq]
  have q: "sender_seq ?t = seqs_after ?l b (sender_seq s)" using post_batch_seq[of W b bq s] Cons.prems(2) by simp
  from Cons.IH[of ?t] t Cons.prems(2,3) obtain ps where ps: "posts (fold (\<lambda>b. post_batch W b bq) bs ?t) = posts ?t @ ps"
    "length ps = length bs" "concat (map (arrival_addrs (cfg s)) ps) =
      map (?a (concat bs) (seqs_after ?l b (sender_seq s))) [0..<length (concat bs)]"
    using q by auto
  have "map (?a (b @ concat bs) (sender_seq s)) [0..<length b + length (concat bs)] =
      map (?a b (sender_seq s)) [0..<length b] @
      map (?a (concat bs) (seqs_after ?l b (sender_seq s))) [0..<length (concat bs)]"
    by (rule nth_equalityI)
      (auto simp: nth_append slot_of_cmd_append[OF Cons.prems(2)] less_diff_conv2)
  then show ?case
    using p(1) ps arrival_addrs_batch[OF Cons.prems(2) p(2)] by (intro exI[of _ "p # ps"]) simp
qed simp

section \<open>Limits set at construction\<close>

lemma clamp_config_fields:
  "0 < cf_num_qps (clamp_config e c)" "0 < cf_max_inflight (clamp_config e c)"
  "0 < cf_global_num_qps (clamp_config e c)" "0 < cf_logical_queues_per_qp (clamp_config e c)"
  "cf_logical_queues_per_qp (clamp_config e c) \<le> 16"
  by (cases e; simp add: clamp_config_def Let_def)+

lemma wrs_per_chunk_range: "2 \<le> wrs_per_chunk c \<and> wrs_per_chunk c \<le> 4"
  by (simp add: wrs_per_chunk_def)

lemma per_qp_cap_fits: "1 \<le> per_qp_chunk_cap c \<and> per_qp_chunk_cap c * wrs_per_chunk c \<le> kQpSqDepth"
proof -
  have "wrs_per_chunk c = 2 \<or> wrs_per_chunk c = 3 \<or> wrs_per_chunk c = 4"
    by (simp add: wrs_per_chunk_def)
  then show ?thesis by (auto simp: per_qp_chunk_cap_def kQpSqDepth_def kSafetyMargin_def)
qed

lemma effective_limit:
  fixes e c f st
  defines "s \<equiv> new_proxy e c f st"
  shows "0 < effective_max_inflight s" "effective_max_inflight s \<le> per_qp_chunk_cap (cfg s) * cf_num_qps (cfg s)"
    "effective_max_inflight s * wrs_per_chunk (cfg s) \<le> kQpSqDepth * cf_num_qps (cfg s)"
proof -
  let ?c = "clamp_config e c"
  have e: "effective_max_inflight s = min (cf_max_inflight ?c) (per_qp_chunk_cap ?c) * cf_num_qps ?c" "cfg s = ?c"
    by (simp_all add: s_def new_proxy_def Let_def)
  note q = clamp_config_fields(1,2)[of e c] and p = per_qp_cap_fits[of ?c] and w = wrs_per_chunk_range[of ?c]
  show "0 < effective_max_inflight s" unfolding e using q p by simp
  show le: "effective_max_inflight s \<le> per_qp_chunk_cap (cfg s) * cf_num_qps (cfg s)"
    unfolding e using q by (intro mult_right_mono) auto
  have "effective_max_inflight s * wrs_per_chunk ?c \<le> per_qp_chunk_cap ?c * cf_num_qps ?c * wrs_per_chunk ?c"
    using le w unfolding e(2) by (intro mult_right_mono) auto
  also have "\<dots> = (per_qp_chunk_cap ?c * wrs_per_chunk ?c) * cf_num_qps ?c" by (simp add: mult.commute mult.left_commute)
  also have "\<dots> \<le> kQpSqDepth * cf_num_qps ?c" using p q by (intro mult_right_mono) auto
  finally show "effective_max_inflight s * wrs_per_chunk (cfg s) \<le> kQpSqDepth * cf_num_qps (cfg s)"
    unfolding e(2) .
qed

section \<open>Routing\<close>

lemma route_range:
  assumes "0 < cf_global_num_qps c" "cf_global_num_qps c < 256"
  shows "0 \<le> route_global_qp c cmd" "route_global_qp c cmd < cf_global_num_qps c"
proof -
  have "uint (word_of_int (cf_global_num_qps c) :: u8) = cf_global_num_qps c"
    using assms by (simp add: word_of_int_inverse)
  then show "0 \<le> route_global_qp c cmd" "route_global_qp c cmd < cf_global_num_qps c"
    using assms by (simp_all add: route_global_qp_def)
qed

text \<open>Every batch collected in the queue layout goes to one queue pair, the one its commands route to.\<close>

definition routed :: "ProxyConfig \<Rightarrow> TransferCmd list \<Rightarrow> int \<Rightarrow> bool" where
  "routed c b bq \<longleftrightarrow> (\<forall>cmd \<in> set b. route_global_qp c cmd - cf_qp_base_idx c = bq) \<and>
     (b \<noteq> [] \<longrightarrow> 0 \<le> bq \<and> bq < cf_num_qps c)"

lemma routed_take:
  assumes "routed c b bq" "route_global_qp c cmd - cf_qp_base_idx c = q" "0 \<le> q" "q < cf_num_qps c"
    and "q = (if length b = 0 then q else bq)"
  shows "routed c (b @ [cmd]) q"
  using assms by (auto simp: routed_def split: if_splits)

lemma routed_first: "routed c b bq \<Longrightarrow> routed c b (if length b = 0 then q else bq)"
  by (simp add: routed_def)

lemma collect_queue_route:
  assumes "collect_queue W fuel pre b bq s = Some (b', bq', t)" "routed (cfg s) b bq"
  shows "routed (cfg s) b' bq'"
  using assms
proof (induction fuel arbitrary: b bq s)
  case (Suc fuel)
  show ?case
  proof (cases "may_take pre (length b) s")
    case True
    obtain r s1 where p: "poll_cmd s = (r, s1)" by force
    have c1: "cfg s1 = cfg s" using poll_cmd_frame(1)[OF p] by (simp add: same_build_def)
    show ?thesis
    proof (cases r)
      case None
      then show ?thesis using Suc.prems True p by (simp add: collect_queue.simps(2))
    next
      case (Some cmd)
      let ?s2 = "note_cmd_seen W cmd s1" and ?q = "route_global_qp (cfg s) cmd - cf_qp_base_idx (cfg s)"
      have IH: "routed (cfg s) b' bq'"
        if "collect_queue W fuel pre b0 bq0 u = Some (b', bq', t)" "cfg u = cfg s" "routed (cfg s) b0 bq0" for b0 bq0 u
        using Suc.IH[OF that(1)] that(2,3) by simp
      have cb: "cfg (post_stage_barrier W 0 e u) = cfg u" for e u
        using stage_barrier_frame(1)[of u W 0 e] by (simp add: same_build_def)
      have c2: "cfg ?s2 = cfg s" using c1 by simp
      let ?bq = "if length b = 0 then ?q else bq"
      consider (skip) u where "collect_queue W fuel pre b bq u = Some (b', bq', t)" "cfg u = cfg s"
        | (stash) "b' = b" "bq' = ?bq"
        | (take) "collect_queue W fuel pre (b @ [cmd]) ?bq ?s2 = Some (b', bq', t)" "0 \<le> ?q" "?q < cf_num_qps (cfg s)" "?q = ?bq"
        using Suc.prems(1) True p Some c2 cb
        by (simp add: collect_queue.simps(2) Let_def c1 not_less not_le split: if_splits)
      then show ?thesis
      proof cases
        case (skip u)
        then show ?thesis using IH Suc.prems(2) by blast
      next
        case stash
        then show ?thesis using routed_first Suc.prems(2) by blast
      next
        case take
        have "routed (cfg s) (b @ [cmd]) ?bq"
          using routed_take[OF Suc.prems(2) refl take(2,3,4)] take(4) by argo
        then show ?thesis using IH[OF take(1) c2] by blast
      qed
    qed
  qed (use Suc.prems in \<open>simp add: collect_queue.simps(2)\<close>)
qed simp

section \<open>Store and forward around the ring\<close>

lemma uint_add_u32: "uint (a :: u32) + uint b < 2 ^ 32 \<Longrightarrow> uint (a + b) = uint a + uint b"
  by (simp add: uint_plus_if_size word_size)

lemma forward_cmd_step:
  fixes c :: ProxyConfig
  defines "N \<equiv> cf_num_nodes c" and "C \<equiv> cf_total_chunks c"
  assumes rank: "0 \<le> cf_rank c" "cf_rank c < N" and C: "0 < C"
    and tile: "uint (fn_tile_id n) = (slot + (N - 1) * bank) * C + chunk"
    and slot: "1 \<le> slot" "slot < N - 1" and bank: "0 \<le> bank" and chunk: "0 \<le> chunk" "chunk < C"
    and fits: "(N - 1) * (bank + 2) * C < 2 ^ 31"
  defines "f \<equiv> make_forward_cmd_from_notify c n" and "nxt \<equiv> peer_rank_for_slot (cf_rank c) N 0"
  shows "uint (tile_id f) = ((slot - 1) + (N - 1) * (bank + 1)) * C + chunk"
    and "peer_rank_for_slot nxt N (slot - 1) = peer_rank_for_slot (cf_rank c) N slot"
    and "remote_offset f = word_of_int ((slot - 1) + (N - 1) * (bank + 1)) * cf_a_half_bytes c +
      ucast (ucast (fn_local_offset n mod cf_a_half_bytes c) :: u32)"
    and "dst_rank f = word_of_int nxt" and "cmd_type f = WRITE"
proof -
  let ?n = "N - 1"
  have npos: "0 < ?n" using slot by simp
  have sv: "0 \<le> slot + ?n * bank" using slot bank npos by simp
  have "slot + ?n * bank + 1 \<le> ?n * (bank + 1)" using slot by (simp add: algebra_simps)
  then have "(slot + ?n * bank + 1) * C \<le> ?n * (bank + 1) * C" using C by (intro mult_right_mono) auto
  moreover have "?n * (bank + 1) * C \<le> ?n * (bank + 2) * C"
    using C npos by (intro mult_right_mono mult_left_mono) auto
  moreover have "(slot + ?n * bank + 1) * C = (slot + ?n * bank) * C + C" by (simp add: algebra_simps)
  ultimately have T31: "uint (fn_tile_id n) < 2 ^ 31"
    using tile chunk fits by linarith
  then have sT: "sint (fn_tile_id n) = uint (fn_tile_id n)"
  proof -
    have "- (2 ^ 31) \<le> uint (fn_tile_id n)" by (rule order_trans[of _ 0]) simp_all
    then show ?thesis using T31 by (simp add: sint_uint signed_take_bit_int_eq_self)
  qed
  have virt: "c_div (sint (fn_tile_id n)) C = slot + ?n * bank"
    using C chunk sv unfolding sT tile by (simp add: div_add1_eq)
  have sl: "c_mod (slot + ?n * bank) ?n = slot" "c_div (slot + ?n * bank) ?n = bank"
    using sv npos slot bank by (simp_all add: div_add1_eq)
  have C32: "uint (word_of_int C :: u32) = C"
  proof -
    have "1 * C \<le> ?n * (bank + 2) * C"
      using C npos bank by (intro mult_right_mono) (auto simp: mult_pos_pos int_one_le_iff_zero_less)
    then have "C < 2 ^ 31" using fits by linarith
    then show ?thesis using C by (simp add: word_of_int_inverse)
  qed
  have ch: "uint (fn_tile_id n mod (word_of_int C :: u32)) = chunk"
    using chunk C unfolding uint_mod C32 tile by (simp add: mod_add_eq)
  let ?d = "(slot - 1) + ?n * (bank + 1)"
  have origin: "slot_at_peer (peer_rank_for_slot (cf_rank c) N slot) nxt N = slot - 1"
    unfolding nxt_def using rank slot by (auto simp: slot_at_peer_def peer_rank_for_slot_def Let_def)
  have f: "f = zero_cmd\<lparr>cmd_type := WRITE, dst_rank := word_of_int nxt, bytes := fn_bytes n,
      local_offset := fn_local_offset n, src_view := 0, lane_id := fn_lane_id n,
      reserved0 := word_of_int (cf_device_id c),
      tile_id := word_of_int (?d * C) + (fn_tile_id n mod (word_of_int C :: u32)),
      remote_offset := word_of_int ?d * cf_a_half_bytes c + ucast (ucast (fn_local_offset n mod cf_a_half_bytes c) :: u32)\<rparr>"
    unfolding f_def make_forward_cmd_from_notify_def Let_def
      N_def[symmetric] C_def[symmetric] nxt_def[symmetric] virt sl origin ..
  have d0: "0 \<le> ?d * C" using slot npos bank C by simp
  have "?d + 1 \<le> ?n * (bank + 2)" using slot by (simp add: algebra_simps)
  then have "(?d + 1) * C \<le> ?n * (bank + 2) * C" using C by (intro mult_right_mono) auto
  moreover have "(?d + 1) * C = ?d * C + C" by (simp add: algebra_simps)
  ultimately have dlt: "?d * C + chunk < 2 ^ 31" using chunk fits by linarith
  have big: "(2 :: int) ^ 31 < 2 ^ 32" by simp
  have "?d * C < 2 ^ 32" using dlt chunk big by linarith
  then have dw: "uint (word_of_int (?d * C) :: u32) = ?d * C"
    using d0 by (intro word_of_int_inverse[OF refl]) simp_all
  have "tile_id f = word_of_int (?d * C) + (fn_tile_id n mod (word_of_int C :: u32))" unfolding f by simp
  then show "uint (tile_id f) = ?d * C + chunk"
    using uint_add_u32[of "word_of_int (?d * C)" "fn_tile_id n mod word_of_int C"] less_trans[OF dlt big]
    unfolding dw ch by simp
  show "peer_rank_for_slot nxt N (slot - 1) = peer_rank_for_slot (cf_rank c) N slot"
    unfolding nxt_def using rank slot by (auto simp: peer_rank_for_slot_def Let_def)
  show "remote_offset f = word_of_int ?d * cf_a_half_bytes c +
      ucast (ucast (fn_local_offset n mod cf_a_half_bytes c) :: u32)"
    "dst_rank f = word_of_int nxt" "cmd_type f = WRITE"
    unfolding f by simp_all
qed

section \<open>A concrete proxy\<close>

definition demo_config :: ProxyConfig where
  "demo_config = \<lparr>cf_num_qps = 1, cf_qp_base_idx = 0, cf_global_num_qps = 1, cf_gpu_to_host_offset_ns = 0,
     cf_local_data_addr = 0x1000, cf_local_data_lkey = 1, cf_clocal_data_addr = 0x2000, cf_clocal_data_lkey = 2,
     cf_clocal_data_bytes = 0x10000, cf_direct_dmabuf_enabled = True, cf_row_stride_bytes = 1024,
     cf_max_send_sge = 4, cf_remote_data_addr = 0x100000, cf_remote_data_rkey = 3,
     cf_remote_data_addr_by_qp = replicate 24 0, cf_remote_data_rkey_by_qp = replicate 24 0,
     cf_staging_addr = 0x5000, cf_staging_lkey = 4, cf_remote_flags_addr = 0x200000, cf_remote_flags_rkey = 5,
     cf_remote_tail_addr = 0x300000, cf_remote_tail_rkey = 6,
     cf_remote_flags_addr_by_qp = replicate 24 0, cf_remote_flags_rkey_by_qp = replicate 24 0,
     cf_remote_tail_addr_by_qp = replicate 24 0, cf_remote_tail_rkey_by_qp = replicate 24 0,
     cf_use_arrival_queue = True, cf_remote_queue_stride = 64, cf_logical_queues_per_qp = 4,
     cf_channelize_gpu_peers = False, cf_enable_remote_tail = True, cf_remote_barrier_addr = 0x400000,
     cf_remote_barrier_rkey = 7, cf_remote_barrier_addr_by_qp = replicate 24 0,
     cf_remote_barrier_rkey_by_qp = replicate 24 0, cf_enable_forward_notify = False,
     cf_has_local_forward_notify = False, cf_forward_notify_slots = 0, cf_remote_forward_notify_addr = 0,
     cf_remote_forward_notify_rkey = 0, cf_remote_forward_notify_addr_by_qp = replicate 24 0,
     cf_remote_forward_notify_rkey_by_qp = replicate 24 0, cf_rank = 0, cf_num_nodes = 4,
     cf_total_chunks = 2, cf_a_half_bytes = 4096, cf_epoch = 1, cf_max_inflight = 512, cf_device_id = 0,
     cf_pin_proxy = False\<rparr>"

definition demo_world :: world where
  "demo_world = \<lparr>w_ret = (\<lambda>_. 0), w_clock = of_nat, w_notify_addr = 0x6000, w_token_addr = 0x7000\<rparr>"

definition demo_proxy :: Proxy where
  "demo_proxy = new_proxy None demo_config demo_ring (replicate 18 0)"

definition demo_in :: loop_in where
  "demo_in = \<lparr>in_cmds = [demo_cmd], in_paused = False, in_table = [],
     in_wcs = [\<lparr>wc_wr_id = encode_wr_id 0 1, wc_ok = True\<rparr>]\<rparr>"

lemma demo_proxy_ok: "proxy_ok demo_world demo_proxy"
  by (simp add: demo_proxy_def new_proxy_def Let_def proxy_ok_def)

section \<open>Properties\<close>



text \<open>
  C4 (functional): a batch is handed to the verbs library as one chain that holds, for each
  command in order, the data write, then its arrival write, then its tail or forward write;
  only the last request of the chain is signaled and its id carries the number of commands;
  the staging words the inline writes copy are the packed arrival words and the new tails.
\<close>

theorem batch_post_exact:
  assumes "proxy_ok W s" "b \<noteq> []" "length b \<le> BATCH_SIZE" "2 * BATCH_SIZE \<le> length (staging s)"
  shows "\<exists>p. posts (post_batch W b bq s) = posts s @ [p] \<and> po_qp p = bq \<and>
    po_chain p = concat (map (\<lambda>i. cmd_segment W (cfg s) bq (length b) (total_logical_queues (cfg s)) i (b ! i)
      (slot_of_cmd (cfg s) (total_logical_queues (cfg s)) b (sender_seq s) i)) [0..<length b]) \<and>
    map send_signaled (po_chain p) = replicate (length (po_chain p) - 1) False @ [True] \<and>
    decode_wr_count (wr_id (last (po_chain p))) = int (length b) \<and>
    map (\<lambda>i. po_staging p ! i) [0..<if cf_use_arrival_queue (cfg s) then length b else 1] =
      (if cf_use_arrival_queue (cfg s)
       then map (\<lambda>cmd. pack_arrival_work (tile_id cmd) (run_tiles (bytes cmd))) b else [cf_epoch (cfg s)])"
proof -
  let ?S = "batch_segments W (cfg s) bq (total_logical_queues (cfg s)) b (sender_seq s)"
  obtain p s1 where p: "posts (post_batch W b bq s) = posts s @ [p]" "po_qp p = bq" "po_chain p = ?S"
    "po_staging p = staging (prepare_batch W b bq s1)" "cfg s1 = cfg s" "staging s1 = staging s"
    using post_batch_post[OF assms(1-3), of bq] by blast
  obtain pre m where s: "?S = pre @ [m]" "\<forall>w \<in> set pre. \<not> send_signaled w" "send_signaled m"
    "wr_id m = encode_wr_id bq (int (length b))" using batch_segments_split[OF assms(2)] by metis
  have sig: "map send_signaled (po_chain p) = replicate (length (po_chain p) - 1) False @ [True]"
    unfolding p(3) s(1) using s(2,3) by (auto intro!: nth_equalityI simp: nth_append)
  have cnt: "decode_wr_count (wr_id (last (po_chain p))) = int (length b)"
    unfolding p(3) s(1) using s(4) assms(3) by (simp add: BATCH_SIZE_def)
  have "map (\<lambda>i. po_staging p ! i) [0..<if cf_use_arrival_queue (cfg s) then length b else 1] =
      (if cf_use_arrival_queue (cfg s)
       then map (\<lambda>cmd. pack_arrival_work (tile_id cmd) (run_tiles (bytes cmd))) b else [cf_epoch (cfg s)])"
    using prepare_batch_staging[of b s1 W bq] assms(3,4) unfolding p(4-6)
    by (auto intro!: nth_equalityI split: if_splits)
  then show ?thesis using p(1-3) sig cnt unfolding batch_segments_def by blast
qed

theorem batch_post_exact_witness:
  "\<exists>p. posts (post_batch demo_world [demo_cmd] 0 demo_proxy) = posts demo_proxy @ [p] \<and>
    decode_wr_count (wr_id (last (po_chain p))) = 1"
  using batch_post_exact[OF demo_proxy_ok, of "[demo_cmd]" 0]
  by (auto simp: BATCH_SIZE_def demo_proxy_def new_proxy_def Let_def)

text \<open>
  C29 (functional): in the queue layout, batches posted one after another on a queue pair write
  their arrival words, in the order of the commands across the batches, to consecutive slots of
  each command's logical queue: the slot is the queue's counter before the first batch plus the
  number of earlier commands for that queue, and no two of the writes have the same address. The
  queues exist, each has room for the commands within its stride, and the slot index of
  all queues together fits 32 bits.
\<close>

theorem arrival_words_consecutive:
  assumes "proxy_ok W s" "cf_use_arrival_queue (cfg s)" "tlq = total_logical_queues (cfg s)"
    and "0 < unat tlq" "unat tlq \<le> length (sender_seq s)"
    and "\<forall>b \<in> set bs. b \<noteq> [] \<and> length b \<le> BATCH_SIZE" "cmds = concat bs"
    and "\<forall>k < length (sender_seq s). unat (sender_seq s ! k) + length cmds \<le> unat (cf_remote_queue_stride (cfg s))"
    and "unat tlq * unat (cf_remote_queue_stride (cfg s)) \<le> 2 ^ 32"
  shows "\<exists>ps. posts (fold (\<lambda>b. post_batch W b bq) bs s) = posts s @ ps \<and> length ps = length bs \<and>
    concat (map (arrival_addrs (cfg s)) ps) = map (\<lambda>i.
      queue_slot_addr (cfg s) (remote_flags_addr_for_qp (cfg s) bq) (logical_queue tlq (cmds ! i))
        (sender_seq s ! unat (logical_queue tlq (cmds ! i)) + of_nat (length
          (filter (\<lambda>d. logical_queue tlq d = logical_queue tlq (cmds ! i)) (take i cmds))))) [0..<length cmds] \<and>
    distinct (concat (map (arrival_addrs (cfg s)) ps))"
proof -
  obtain ps where ps: "posts (fold (\<lambda>b. post_batch W b bq) bs s) = posts s @ ps" "length ps = length bs"
    "concat (map (arrival_addrs (cfg s)) ps) =
      map (\<lambda>i. queue_slot_addr (cfg s) (remote_flags_addr_for_qp (cfg s) bq)
        (logical_queue tlq (cmds ! i)) (slot_of_cmd (cfg s) tlq cmds (sender_seq s) i)) [0..<length cmds]"
    using fold_post_batch[OF assms(1,2,6), of bq] assms(3,7) by blast
  have lt: "lq_of tlq d < length (sender_seq s)" for d
    using lq_of_less[OF assms(4), of d] assms(5) by (simp add: lq_of_def)
  have slot: "slot_of_cmd (cfg s) tlq cmds (sender_seq s) i =
      sender_seq s ! unat (logical_queue tlq (cmds ! i)) + of_nat (length
          (filter (\<lambda>d. logical_queue tlq d = logical_queue tlq (cmds ! i)) (take i cmds)))" if "i < length cmds" for i
    using slot_of_cmd_nth[OF assms(2) lt that] by (simp add: lq_of_def word_unat_eq_iff)
  have "distinct (concat (map (arrival_addrs (cfg s)) ps))"
    unfolding ps(3) distinct_map
    using batch_slots_distinct[OF assms(2,4,5) _ assms(9), of cmds] assms(8)
    by (auto simp: inj_on_def) (metis linorder_neqE_nat)
  then show ?thesis using ps slot by (intro exI[of _ ps]) auto
qed

theorem arrival_words_consecutive_witness:
  "\<exists>ps. posts (fold (\<lambda>b. post_batch demo_world b 0) [[demo_cmd, demo_cmd], [demo_cmd]] demo_proxy) =
      posts demo_proxy @ ps \<and> length ps = 2 \<and> length (concat (map (arrival_addrs (cfg demo_proxy)) ps)) = 3 \<and>
    distinct (concat (map (arrival_addrs (cfg demo_proxy)) ps))"
proof -
  have "\<exists>ps. posts (fold (\<lambda>b. post_batch demo_world b 0) [[demo_cmd, demo_cmd], [demo_cmd]] demo_proxy) = posts demo_proxy @ ps \<and>
      length ps = length [[demo_cmd, demo_cmd], [demo_cmd]] \<and>
      concat (map (arrival_addrs (cfg demo_proxy)) ps) = map (\<lambda>i.
      queue_slot_addr (cfg demo_proxy) (remote_flags_addr_for_qp (cfg demo_proxy) 0)
        (logical_queue (total_logical_queues (cfg demo_proxy)) ([demo_cmd, demo_cmd, demo_cmd] ! i))
        (sender_seq demo_proxy ! unat (logical_queue (total_logical_queues (cfg demo_proxy)) ([demo_cmd, demo_cmd, demo_cmd] ! i)) + of_nat (length
          (filter (\<lambda>d. logical_queue (total_logical_queues (cfg demo_proxy)) d =
             logical_queue (total_logical_queues (cfg demo_proxy)) ([demo_cmd, demo_cmd, demo_cmd] ! i)) (take i [demo_cmd, demo_cmd, demo_cmd])))))
        [0..<length [demo_cmd, demo_cmd, demo_cmd]] \<and>
    distinct (concat (map (arrival_addrs (cfg demo_proxy)) ps))" (is "\<exists>ps. ?A ps \<and> ?B ps \<and> ?C ps = map ?f ?l \<and> ?D ps")
    by (rule arrival_words_consecutive[OF demo_proxy_ok _ refl])
      (simp_all add: BATCH_SIZE_def demo_proxy_def new_proxy_def Let_def demo_config_def clamp_config_def
        total_logical_queues_def kMaxExchangeQPs_def)
  then obtain ps where ps: "?A ps" "?B ps" "?C ps = map ?f ?l" "?D ps" by blast
  have "length (?C ps) = 3" unfolding ps(3) by simp
  then show ?thesis using ps(1,2,4) by (intro exI[of _ ps]) simp
qed

text \<open>
  C27 (functional): a strided gather covers each row of the command exactly once and in order,
  and its requests write the rows back to back at the destination.
\<close>

theorem strided_gather_exact:
  assumes "\<not> strided_rejected c cmd" "unat (cf_max_send_sge c) < 2 ^ 31"
  shows "concat (map sg_list (strided_data c cmd bq)) =
      map (row_sge c (cf_clocal_data_addr c + local_offset cmd) (ucast (row_span cmd))) [0..<unat (row_count cmd)] \<and>
    map remote_addr (strided_data c cmd bq) =
      map (\<lambda>w. remote_data_addr_for_qp c bq + remote_offset cmd +
        of_nat (w * unat (strided_max_sge c)) * ucast (ucast (row_span cmd) :: u32)) [0..<strided_n c cmd] \<and>
    strided_n c cmd \<le> kMaxDataWrs"
  using strided_gather_rows[OF assms, of bq] strided_data_closed(1)[OF assms, of bq] assms(1)
  by (simp add: data_row_wr_def strided_rejected_def)

theorem strided_gather_exact_witness:
  "map remote_addr (strided_data demo_config (demo_cmd\<lparr>row_count := 6, row_span := 64\<rparr>) 0) =
     map (\<lambda>w. remote_data_addr_for_qp demo_config 0 + 4096 + of_nat (w * 4) * 64) [0..<2]"
proof -
  let ?c = "demo_cmd\<lparr>row_count := 6, row_span := 64\<rparr>"
  have n: "strided_n demo_config ?c = 2" by (simp add: strided_n_def strided_max_sge_def demo_config_def)
  have ok: "\<not> strided_rejected demo_config ?c"
    unfolding strided_rejected_def n by (simp add: demo_config_def demo_cmd_def kMaxRows_def kMaxDataWrs_def)
  have m: "unat (strided_max_sge demo_config) = 4" by (simp add: strided_max_sge_def demo_config_def)
  show ?thesis
    using strided_gather_exact[OF ok, of 0] unfolding n m by (simp add: demo_config_def demo_cmd_def)
qed

text \<open>
  The inflight limit is positive and the requests it admits fit the send queues of
  the proxy's queue pairs taken together.
\<close>

theorem inflight_limit_fits_send_queues:
  "0 < effective_max_inflight (new_proxy env c f st) \<and>
   effective_max_inflight (new_proxy env c f st) * wrs_per_chunk (cfg (new_proxy env c f st))
     \<le> kQpSqDepth * cf_num_qps (cfg (new_proxy env c f st))"
  using effective_limit[of env c f st] by blast

text \<open>
  With two queue pairs the limit admits more requests than one send queue holds, so
  when all lanes route to the same queue pair the per-queue throttle the constructor's comment
  promises is not there.
\<close>

theorem one_send_queue_can_overflow:
  "kQpSqDepth < effective_max_inflight (new_proxy None (demo_config\<lparr>cf_num_qps := 2, cf_global_num_qps := 2\<rparr>) f st)
     * wrs_per_chunk (cfg (new_proxy None (demo_config\<lparr>cf_num_qps := 2, cf_global_num_qps := 2\<rparr>) f st)) \<and>
   route_global_qp (cfg (new_proxy None (demo_config\<lparr>cf_num_qps := 2, cf_global_num_qps := 2\<rparr>) f st)) demo_cmd = 0"
  by (simp add: new_proxy_def clamp_config_def Let_def demo_config_def wrs_per_chunk_def per_qp_chunk_cap_def
      kQpSqDepth_def kSafetyMargin_def route_global_qp_def demo_cmd_def zero_cmd_def)

text \<open>
  When the counts in the ids of the completions the queue delivers add up to
  exactly what is in flight, each of them positive, \<open>drain_cq\<close> returns and leaves nothing in
  flight. What it returns is the sum of those counts, not the number of completions
  drained which the comment at \<^verbatim>\<open>proxy.h:400\<close> promises: in the witness one completion of a batch
  of three gives 3.
\<close>

theorem drain_cq_terminates:
  assumes "\<forall>wc \<in> set (concat polls). 0 < decode_wr_count (wc_wr_id wc)"
    and "retired (concat polls) = inflight s"
  shows "\<exists>t. drain_cq polls (0, s) = Some (inflight s, t) \<and> inflight t = 0"
  using drain_cq_returns[of polls s 0] assms by auto

theorem drain_cq_terminates_witness:
  "\<exists>t. drain_cq [[], [\<lparr>wc_wr_id = encode_wr_id 0 3, wc_ok = True\<rparr>]] (0, demo_proxy\<lparr>inflight := 3\<rparr>) = Some (3, t) \<and>
     inflight t = 0"
  using drain_cq_terminates[of "[[], [\<lparr>wc_wr_id = encode_wr_id 0 3, wc_ok = True\<rparr>]]" "demo_proxy\<lparr>inflight := 3\<rparr>"]
  by (simp add: retired_def)

text \<open>
  C37 (functional): a notice for the tile of slot \<open>slot\<close>, bank \<open>bank\<close>, chunk \<open>chunk\<close> is
  forwarded to the next rank as slot \<open>slot - 1\<close> of bank \<open>bank + 1\<close>, which names the same
  origin there, with the same chunk.
\<close>

theorem forward_keeps_origin:
  assumes "0 \<le> cf_rank c" "cf_rank c < cf_num_nodes c" "0 < cf_total_chunks c"
    and "uint (fn_tile_id n) = (slot + (cf_num_nodes c - 1) * bank) * cf_total_chunks c + chunk"
    and "1 \<le> slot" "slot < cf_num_nodes c - 1" "0 \<le> bank" "0 \<le> chunk" "chunk < cf_total_chunks c"
    and "(cf_num_nodes c - 1) * (bank + 2) * cf_total_chunks c < 2 ^ 31"
  shows "uint (tile_id (make_forward_cmd_from_notify c n)) =
      ((slot - 1) + (cf_num_nodes c - 1) * (bank + 1)) * cf_total_chunks c + chunk \<and>
    peer_rank_for_slot (peer_rank_for_slot (cf_rank c) (cf_num_nodes c) 0) (cf_num_nodes c) (slot - 1) =
      peer_rank_for_slot (cf_rank c) (cf_num_nodes c) slot \<and>
    dst_rank (make_forward_cmd_from_notify c n) = word_of_int (peer_rank_for_slot (cf_rank c) (cf_num_nodes c) 0)"
  using forward_cmd_step(1,2,4)[OF assms] by blast

theorem forward_keeps_origin_witness:
  "uint (tile_id (make_forward_cmd_from_notify demo_config (zero_notify\<lparr>fn_tile_id := 5\<rparr>))) = 9"
  using forward_keeps_origin[of demo_config "zero_notify\<lparr>fn_tile_id := 5\<rparr>" 2 0 1]
  by (simp add: demo_config_def)

text \<open>
  In the queue layout a collected batch goes to one local queue pair, the one
  every command of it routes to.
\<close>

theorem collected_batch_single_qp:
  assumes "collect_queue W fuel pre [] bq0 s = Some (b, bq, t)" "b \<noteq> []"
  shows "map (\<lambda>cmd. route_global_qp (cfg s) cmd - cf_qp_base_idx (cfg s)) b = replicate (length b) bq \<and>
    0 \<le> bq \<and> bq < cf_num_qps (cfg s)"
proof -
  have r: "routed (cfg s) b bq" by (rule collect_queue_route[OF assms(1)]) (simp add: routed_def)
  then show ?thesis using assms(2) by (auto simp: routed_def intro!: nth_equalityI)
qed

theorem collected_batch_single_qp_witness:
  "map (\<lambda>cmd. route_global_qp (cfg demo_proxy) cmd - cf_qp_base_idx (cfg demo_proxy)) [demo_cmd] = replicate 1 0 \<and>
    0 \<le> (0 :: int) \<and> 0 < cf_num_qps (cfg demo_proxy)"
proof -
  let ?s = "demo_proxy\<lparr>fifo := demo_pushed\<rparr>"
  have "map_option (\<lambda>r. (fst r, fst (snd r))) (collect_queue demo_world 3 0 [] 0 ?s) = Some ([demo_cmd], 0)"
    by code_simp
  then have "\<exists>t. collect_queue demo_world 3 0 [] 0 ?s = Some ([demo_cmd], 0, t)" by auto
  then show ?thesis using collected_batch_single_qp[of demo_world 3 0 0 ?s "[demo_cmd]" 0] by auto
qed

end
