(* ===== verification/Pause_Gate.thy ===== *)
theory Pause_Gate
  imports MKernel_Prelude
begin

text \<open>
  The pause gate both proxies use (\<open>pause\<close>, \<open>resume\<close> and the head of \<open>run\<close> in
  \<^verbatim>\<open>proxy.h\<close> and \<^verbatim>\<open>proxy_efa.h\<close>): the controlling thread and the proxy
  thread share two flags, and every load and store of a flag is one step.
\<close>

text \<open>The controller: outside, spinning in \<open>pause\<close>, paused, between the stores of \<open>resume\<close>.\<close>

datatype ctl_pc = CIdle | CWait | CPaused | CResuming

text \<open>
  The proxy: before the load of \<open>paused_\<close> at the loop head, in the loop body, before the store
  of the acknowledgement, in the inner loop, after it.
\<close>

datatype px_pc = XCheck | XBody | XAck | XSpin | XLeave

record gate =
  paused :: bool
  ack_paused :: bool
  ctl :: ctl_pc
  px :: px_pc

definition gate_start :: gate where
  "gate_start = \<lparr>paused = False, ack_paused = False, ctl = CIdle, px = XCheck\<rparr>"

inductive gate_step :: "gate \<Rightarrow> gate \<Rightarrow> bool" where
  pause_store: "ctl g = CIdle \<Longrightarrow> gate_step g (g\<lparr>paused := True, ctl := CWait\<rparr>)"
| pause_return: "\<lbrakk>ctl g = CWait; ack_paused g\<rbrakk> \<Longrightarrow> gate_step g (g\<lparr>ctl := CPaused\<rparr>)"
| pause_spin: "\<lbrakk>ctl g = CWait; \<not> ack_paused g\<rbrakk> \<Longrightarrow> gate_step g g"
| resume_ack: "ctl g = CPaused \<Longrightarrow> gate_step g (g\<lparr>ack_paused := False, ctl := CResuming\<rparr>)"
| resume_store: "ctl g = CResuming \<Longrightarrow> gate_step g (g\<lparr>paused := False, ctl := CIdle\<rparr>)"
| enter_body: "\<lbrakk>px g = XCheck; \<not> paused g\<rbrakk> \<Longrightarrow> gate_step g (g\<lparr>px := XBody\<rparr>)"
| leave_body: "px g = XBody \<Longrightarrow> gate_step g (g\<lparr>px := XCheck\<rparr>)"
| see_pause: "\<lbrakk>px g = XCheck; paused g\<rbrakk> \<Longrightarrow> gate_step g (g\<lparr>px := XAck\<rparr>)"
| acknowledge: "px g = XAck \<Longrightarrow> gate_step g (g\<lparr>ack_paused := True, px := XSpin\<rparr>)"
| gate_spin: "\<lbrakk>px g = XSpin; paused g\<rbrakk> \<Longrightarrow> gate_step g g"
| see_resume: "\<lbrakk>px g = XSpin; \<not> paused g\<rbrakk> \<Longrightarrow> gate_step g (g\<lparr>px := XLeave\<rparr>)"
| clear_ack: "px g = XLeave \<Longrightarrow> gate_step g (g\<lparr>ack_paused := False, px := XCheck\<rparr>)"

inductive_cases gate_stepE: "gate_step g h"

inductive gate_reachable :: "gate \<Rightarrow> bool" where
  start: "gate_reachable gate_start"
| step: "\<lbrakk>gate_reachable g; gate_step g h\<rbrakk> \<Longrightarrow> gate_reachable h"

definition gate_inv :: "gate \<Rightarrow> bool" where
  "gate_inv g \<longleftrightarrow>
     (case ctl g of
        CIdle \<Rightarrow> \<not> paused g \<and> \<not> ack_paused g \<and> px g \<noteq> XAck
      | CWait \<Rightarrow> paused g \<and> (ack_paused g \<longrightarrow> px g = XSpin)
      | CPaused \<Rightarrow> paused g \<and> ack_paused g \<and> px g = XSpin
      | CResuming \<Rightarrow> paused g \<and> \<not> ack_paused g \<and> px g = XSpin)"

lemma gate_inv_step: "gate_step g h \<Longrightarrow> gate_inv g \<Longrightarrow> gate_inv h"
  by (induction rule: gate_step.induct) (auto simp: gate_inv_def split: ctl_pc.splits)

lemma gate_reachable_inv: "gate_reachable g \<Longrightarrow> gate_inv g"
  by (induction rule: gate_reachable.induct) (auto simp: gate_inv_step, simp add: gate_inv_def gate_start_def)

lemma gate_reachable_steps: "gate_step\<^sup>*\<^sup>* g h \<Longrightarrow> gate_reachable g \<Longrightarrow> gate_reachable h"
  by (induction rule: rtranclp_induct) (auto intro: gate_reachable.step)

text \<open>
  The state of a lost resume: the controller has resumed and paused again before the proxy
  looked at the flag; the proxy waits in the inner loop of the first pause and the controller
  for an acknowledgement nobody will send.
\<close>

definition lost :: "gate \<Rightarrow> bool" where
  "lost g \<longleftrightarrow> ctl g = CWait \<and> paused g \<and> \<not> ack_paused g \<and> px g = XSpin"

lemma lost_stable: "gate_step g h \<Longrightarrow> lost g \<Longrightarrow> h = g"
  by (erule gate_stepE) (auto simp: lost_def)

lemma lost_forever: "gate_step\<^sup>*\<^sup>* g h \<Longrightarrow> lost g \<Longrightarrow> h = g"
  by (induction rule: rtranclp_induct) (auto dest: lost_stable)

lemma lost_reachable: "gate_reachable \<lparr>paused = True, ack_paused = False, ctl = CWait, px = XSpin\<rparr>"
proof -
  let ?g = "\<lambda>p a c x. \<lparr>paused = p, ack_paused = a, ctl = c, px = x\<rparr>"
  have 0: "gate_reachable (?g False False CIdle XCheck)"
    using gate_reachable.start by (simp add: gate_start_def)
  have 1: "gate_reachable (?g True False CWait XCheck)"
    using gate_reachable.step[OF 0 gate_step.pause_store] by simp
  have 2: "gate_reachable (?g True False CWait XAck)"
    using gate_reachable.step[OF 1 gate_step.see_pause] by simp
  have 3: "gate_reachable (?g True True CWait XSpin)"
    using gate_reachable.step[OF 2 gate_step.acknowledge] by simp
  have 4: "gate_reachable (?g True True CPaused XSpin)"
    using gate_reachable.step[OF 3 gate_step.pause_return] by simp
  have 5: "gate_reachable (?g True False CResuming XSpin)"
    using gate_reachable.step[OF 4 gate_step.resume_ack] by simp
  have 6: "gate_reachable (?g False False CIdle XSpin)"
    using gate_reachable.step[OF 5 gate_step.resume_store] by simp
  show ?thesis
    using gate_reachable.step[OF 6 gate_step.pause_store] by simp
qed

text \<open>Unless the resume was lost, the proxy alone can bring \<open>pause\<close> to its return.\<close>

lemma pause_completes:
  assumes "gate_inv g" "ctl g = CWait" "\<not> lost g"
  shows "\<exists>h. gate_step\<^sup>*\<^sup>* g h \<and> ctl h = CPaused"
proof -
  have ret: "\<exists>h. gate_step\<^sup>*\<^sup>* k h \<and> ctl h = CPaused" if "ctl k = CWait" "ack_paused k" for k
    using gate_step.pause_return[OF that] by (intro exI[of _ "k\<lparr>ctl := CPaused\<rparr>"]) auto
  have ack: "\<exists>h. gate_step\<^sup>*\<^sup>* k h \<and> ctl h = CPaused" if "ctl k = CWait" "px k = XAck" for k
    using gate_step.acknowledge[OF that(2)] ret[of "k\<lparr>ack_paused := True, px := XSpin\<rparr>"] that(1)
    by (auto intro: converse_rtranclp_into_rtranclp)
  have chk: "\<exists>h. gate_step\<^sup>*\<^sup>* k h \<and> ctl h = CPaused" if "ctl k = CWait" "px k = XCheck" "paused k" for k
    using gate_step.see_pause[OF that(2,3)] ack[of "k\<lparr>px := XAck\<rparr>"] that(1)
    by (auto intro: converse_rtranclp_into_rtranclp)
  have p: "paused g" using assms(1,2) by (simp add: gate_inv_def)
  show ?thesis
  proof (cases "px g")
    case XCheck
    then show ?thesis using chk assms(2) p by blast
  next
    case XBody
    from gate_step.leave_body[OF XBody] chk[of "g\<lparr>px := XCheck\<rparr>"] assms(2) p show ?thesis
      by (auto intro: converse_rtranclp_into_rtranclp)
  next
    case XAck
    then show ?thesis using ack assms(2) by blast
  next
    case XSpin
    then have "ack_paused g" using assms(2,3) p by (simp add: lost_def)
    then show ?thesis using ret assms(2) by blast
  next
    case XLeave
    from gate_step.clear_ack[OF XLeave] chk[of "g\<lparr>ack_paused := False, px := XCheck\<rparr>"] assms(2) p show ?thesis
      by (auto intro: converse_rtranclp_into_rtranclp)
  qed
qed

section \<open>Properties\<close>

text \<open>
  C13 (safety): whenever \<open>pause\<close> has returned, the proxy thread is inside the gate, not in the
  loop body, and it stays there until \<open>resume\<close>.
\<close>

theorem pause_excludes_body:
  assumes "gate_reachable g" "ctl g = CPaused \<or> ctl g = CResuming"
  shows "px g = XSpin \<and> paused g"
  using gate_reachable_inv[OF assms(1)] assms(2) by (auto simp: gate_inv_def)

theorem pause_excludes_body_witness:
  "px \<lparr>paused = True, ack_paused = True, ctl = CPaused, px = XSpin\<rparr> = XSpin \<and>
   paused \<lparr>paused = True, ack_paused = True, ctl = CPaused, px = XSpin\<rparr>"
proof (rule pause_excludes_body)
  let ?g = "\<lambda>p a c x. \<lparr>paused = p, ack_paused = a, ctl = c, px = x\<rparr>"
  have 0: "gate_reachable (?g False False CIdle XCheck)"
    using gate_reachable.start by (simp add: gate_start_def)
  have 1: "gate_reachable (?g True False CWait XCheck)"
    using gate_reachable.step[OF 0 gate_step.pause_store] by simp
  have 2: "gate_reachable (?g True False CWait XAck)"
    using gate_reachable.step[OF 1 gate_step.see_pause] by simp
  have 3: "gate_reachable (?g True True CWait XSpin)"
    using gate_reachable.step[OF 2 gate_step.acknowledge] by simp
  show "gate_reachable (?g True True CPaused XSpin)"
    using gate_reachable.step[OF 3 gate_step.pause_return] by simp
qed simp

text \<open>
  C36 (liveness): a waiting \<open>pause\<close> can return from every reachable state except the one of a
  lost resume, which is reachable and which no step ever leaves: a second \<open>pause\<close> issued
  before the proxy has observed the \<open>resume\<close> blocks both threads for good.
\<close>

theorem pause_returns_unless_resume_lost:
  "(\<forall>g. gate_reachable g \<longrightarrow> ctl g = CWait \<longrightarrow> \<not> lost g \<longrightarrow> (\<exists>h. gate_step\<^sup>*\<^sup>* g h \<and> ctl h = CPaused)) \<and>
   (\<exists>g. gate_reachable g \<and> lost g \<and> (\<forall>h. gate_step\<^sup>*\<^sup>* g h \<longrightarrow> h = g))"
proof (intro conjI allI impI)
  fix g assume "gate_reachable g" "ctl g = CWait" "\<not> lost g"
  then show "\<exists>h. gate_step\<^sup>*\<^sup>* g h \<and> ctl h = CPaused" using pause_completes gate_reachable_inv by blast
next
  have "lost \<lparr>paused = True, ack_paused = False, ctl = CWait, px = XSpin\<rparr>" by (simp add: lost_def)
  then show "\<exists>g. gate_reachable g \<and> lost g \<and> (\<forall>h. gate_step\<^sup>*\<^sup>* g h \<longrightarrow> h = g)"
    using lost_reachable lost_forever by blast
qed

theorem pause_returns_unless_resume_lost_witness:
  "\<exists>g. gate_reachable g \<and> ctl g = CWait \<and> gate_step g g \<and> px g = XSpin"
  using pause_returns_unless_resume_lost gate_step.pause_spin unfolding lost_def by blast

end
