(* ===== verification/Proxy_EFA.thy ===== *)
theory Proxy_EFA
  imports Rdma_Verbs D2H_Fifo Proxy_Diag Ready_Queue
begin

text \<open>
  The CPU proxy of the EFA backend, \<^verbatim>\<open>include/comm/internode/proxy_efa.h\<close>: SRD queue
  pairs without ordering between them, per-peer endpoints, the two notification modes, the
  staging ring, the barrier that drains the completion queue first, and one iteration of the
  loop with its two collection phases and its retry of a failed post. What successive polls of
  the completion queue return is part of the state (\<open>e_cq\<close>); the result of the \<open>k\<close>-th
  \<open>ibv_wr_complete\<close> and the \<open>k\<close>-th clock reading are parameters.
\<close>

section \<open>Configuration and state\<close>

record PerPeerProxyData =
  pp_dst_ah :: nat
  pp_dst_qpns :: "u32 list"
  pp_remote_data_addr :: u64
  pp_remote_data_rkey :: u32
  pp_remote_flags_addr :: u64
  pp_remote_flags_rkey :: u32
  pp_remote_tail_addr :: u64
  pp_remote_tail_rkey :: u32
  pp_remote_barrier_addr :: u64
  pp_remote_barrier_rkey :: u32

record EfaConfig =
  ec_num_fifos :: int
  ec_num_qps :: int
  ec_qp_base_idx :: int
  ec_global_num_qps :: int
  ec_logical_queues_per_qp :: int
  ec_local_data_addr :: u64
  ec_local_data_lkey :: u32
  ec_clocal_data_addr :: u64
  ec_clocal_data_lkey :: u32
  ec_direct_dmabuf_enabled :: bool
  ec_has_local_arrival :: bool
  ec_local_arrival_count :: int
  ec_staging_ok :: bool
  ec_staging_addr :: u64
  ec_staging_lkey :: u32
  ec_staging_count :: u32
  ec_use_arrival_queue :: bool
  ec_remote_queue_stride :: u32
  ec_enable_remote_tail :: bool
  ec_epoch :: u32
  ec_max_inflight :: int
  ec_sq_depth :: int
  ec_pipeline_enabled :: bool
  ec_per_peer :: "PerPeerProxyData list"
  ec_peer_slot_by_rank :: "int list option"

datatype NotifyMode = WriteImm | RemoteFlag

datatype efa_op = EfaWrite | EfaWriteImm u32

record efa_wr =
  ew_id :: u64
  ew_op :: efa_op
  ew_remote_addr :: u64
  ew_rkey :: u32
  ew_ah :: nat
  ew_qpn :: u32
  ew_sge :: ibv_sge

text \<open>
  One \<open>ibv_wr_start\<close> / \<open>ibv_wr_complete\<close> block; \<open>ep_before\<close> is a ghost, the inflight
  count when the block, or the fan-out the block belongs to, was begun.
\<close>

record efa_post =
  ep_qp :: nat
  ep_barrier :: bool
  ep_wrs :: "efa_wr list"
  ep_ret :: int
  ep_before :: int

datatype efa_wc_op = WC_OTHER | WC_RECV_RDMA_WITH_IMM

record efa_wc =
  ewc_wr_id :: u64
  ewc_opcode :: efa_wc_op
  ewc_imm :: u32

record efa_world =
  ew_ret :: "nat \<Rightarrow> int"
  ew_clock :: "nat \<Rightarrow> u64"

record EfaProxy =
  e_cfg :: EfaConfig
  e_inflight :: int
  e_ts :: ProxyTimestamps
  e_mode :: NotifyMode
  e_limit :: int
  e_sender_seq :: "u32 list"
  e_cursor :: u32
  e_pending_cmd :: TransferCmd
  e_has_pending_cmd :: bool
  e_has_pending_barrier :: bool
  e_total_loops :: u64
  e_empty_loops :: u64
  e_inflight_limited :: u64
  e_full_batches :: u64
  e_partial_batches :: u64
  e_post_calls :: u64
  e_total_cmds :: u64
  e_pending_post_ns :: "u64 list"
  e_pending_post_head :: nat
  e_pending_post_tail :: nat
  e_pending_post_count :: nat
  e_completion_count :: u64
  e_completion_sum_ns :: u64
  e_completion_max_ns :: u64
  e_use_adaptive_batch :: bool
  e_batch_size_current :: u32
  e_accum_spins_current :: u32
  e_signaled_post_ns :: "u64 list"
  e_completion_ns :: "u64 list"
  e_retry :: "TransferCmd list"
  e_retry_qp :: int
  e_pending_cpu_head :: u64
  e_fifo_idx :: nat
  e_fifos :: "D2HFifo list"
  e_staging :: "u32 list"
  e_arrival :: "u32 list"
  e_cq :: "efa_wc list list"
  e_posts :: "efa_post list"
  e_ticks :: nat

definition efa_BATCH_SIZE :: int where "efa_BATCH_SIZE = 8"
definition ACCUMULATE_SPINS :: int where "ACCUMULATE_SPINS = 128"
definition ACCUMULATE_MISS_BUDGET :: int where "ACCUMULATE_MISS_BUDGET = 8"
definition SRD_SQ_DEPTH :: int where "SRD_SQ_DEPTH = 512"
definition BATCH_SIZE_MAX :: u32 where "BATCH_SIZE_MAX = 8"
definition kMaxPendingBatches :: nat where "kMaxPendingBatches = 256"

section \<open>Construction and epoch operations\<close>

definition detect_notify_mode :: "string option \<Rightarrow> NotifyMode" where
  "detect_notify_mode env =
     (case env of
        None \<Rightarrow> WriteImm
      | Some e \<Rightarrow> if e = [] then WriteImm else if e = ''remote_flag'' then RemoteFlag else WriteImm)"

definition efa_clamp :: "EfaConfig \<Rightarrow> EfaConfig" where
  "efa_clamp c0 =
     (let c1 = (if ec_max_inflight c0 \<le> 0 then c0\<lparr>ec_max_inflight := 128\<rparr> else c0);
          c2 = (if ec_num_qps c1 \<le> 0 then c1\<lparr>ec_num_qps := 1\<rparr> else c1);
          c3 = (if ec_num_qps c2 > kMaxExchangeQPs then c2\<lparr>ec_num_qps := kMaxExchangeQPs\<rparr> else c2);
          c4 = (if ec_global_num_qps c3 \<le> 0 then c3\<lparr>ec_global_num_qps := ec_num_qps c3\<rparr> else c3);
          c5 = (if ec_logical_queues_per_qp c4 \<le> 0 then c4\<lparr>ec_logical_queues_per_qp := 1\<rparr> else c4)
      in if ec_logical_queues_per_qp c5 > 16 then c5\<lparr>ec_logical_queues_per_qp := 16\<rparr> else c5)"

definition efa_per_qp_cap :: "NotifyMode \<Rightarrow> EfaConfig \<Rightarrow> int" where
  "efa_per_qp_cap mode c =
     (let sq_depth = (if ec_sq_depth c > 0 then ec_sq_depth c else SRD_SQ_DEPTH);
          cap0 = (if mode = RemoteFlag then
                    let q = c_div sq_depth 4 in if q > efa_BATCH_SIZE then q - efa_BATCH_SIZE else q
                  else ec_max_inflight c);
          cap1 = min cap0 (ec_max_inflight c)
      in if cap1 \<le> 0 then 1 else cap1)"

definition new_efa_proxy ::
    "string option \<Rightarrow> EfaConfig \<Rightarrow> D2HFifo list \<Rightarrow> u32 list \<Rightarrow> u32 list \<Rightarrow> efa_wc list list \<Rightarrow> EfaProxy" where
  "new_efa_proxy env c0 fs st arr cq =
     (let c = efa_clamp c0; mode = detect_notify_mode env
      in \<lparr>e_cfg = c, e_inflight = 0, e_ts = ts_reset, e_mode = mode,
          e_limit = efa_per_qp_cap mode c * ec_num_qps c,
          e_sender_seq = replicate (nat kMaxExchangeQPs * 16) 0, e_cursor = 0, e_pending_cmd = zero_cmd,
          e_has_pending_cmd = False, e_has_pending_barrier = False, e_total_loops = 0, e_empty_loops = 0,
          e_inflight_limited = 0, e_full_batches = 0, e_partial_batches = 0, e_post_calls = 0, e_total_cmds = 0,
          e_pending_post_ns = replicate kMaxPendingBatches 0, e_pending_post_head = 0, e_pending_post_tail = 0,
          e_pending_post_count = 0, e_completion_count = 0, e_completion_sum_ns = 0, e_completion_max_ns = 0,
          e_use_adaptive_batch = ec_pipeline_enabled c, e_batch_size_current = BATCH_SIZE_MAX,
          e_accum_spins_current = word_of_int ACCUMULATE_SPINS, e_signaled_post_ns = [], e_completion_ns = [],
          e_retry = [], e_retry_qp = 0, e_pending_cpu_head = 0, e_fifo_idx = 0, e_fifos = fs,
          e_staging = st, e_arrival = arr, e_cq = cq, e_posts = [], e_ticks = 0\<rparr>)"

definition efa_set_epoch :: "u32 \<Rightarrow> EfaProxy \<Rightarrow> EfaProxy" where
  "efa_set_epoch ep s =
     s\<lparr>e_cfg := (e_cfg s)\<lparr>ec_epoch := ep\<rparr>, e_sender_seq := replicate (length (e_sender_seq s)) 0, e_cursor := 0\<rparr>"

definition efa_reset_inflight :: "EfaProxy \<Rightarrow> EfaProxy" where
  "efa_reset_inflight s = s\<lparr>e_inflight := 0, e_has_pending_barrier := False\<rparr>"

definition efa_reset_timestamps :: "EfaProxy \<Rightarrow> EfaProxy" where
  "efa_reset_timestamps s =
     s\<lparr>e_ts := ts_reset, e_total_loops := 0, e_empty_loops := 0, e_inflight_limited := 0,
       e_full_batches := 0, e_partial_batches := 0, e_post_calls := 0, e_total_cmds := 0,
       e_pending_post_head := 0, e_pending_post_tail := 0, e_pending_post_count := 0,
       e_completion_count := 0, e_completion_sum_ns := 0, e_completion_max_ns := 0,
       e_signaled_post_ns := [], e_completion_ns := []\<rparr>"

definition efa_get_diagnostics :: "EfaProxy \<Rightarrow> ProxyDiagnostics" where
  "efa_get_diagnostics s = diag_reset\<lparr>dg_qp_base_idx := ec_qp_base_idx (e_cfg s), dg_num_qps := ec_num_qps (e_cfg s),
     loops := e_total_loops s, empty_loops := e_empty_loops s, full_batches := e_full_batches s,
     partial_batches := e_partial_batches s, inflight_limited_loops := e_inflight_limited s,
     batches_posted := e_post_calls s, cmds_posted := e_total_cmds s, first_cmd_ns := ts_first_cmd_ns (e_ts s),
     first_post_ns := ts_first_post_ns (e_ts s), first_completion_ns := ts_first_completion_ns (e_ts s),
     batch_completion_count := e_completion_count s, batch_completion_sum_ns := e_completion_sum_ns s,
     batch_completion_max_ns := e_completion_max_ns s\<rparr>"

definition efa_get_timeline :: "EfaProxy \<Rightarrow> ProxyTimeline" where
  "efa_get_timeline s = \<lparr>tl_signaled_post_ns = e_signaled_post_ns s, tl_completion_ns = e_completion_ns s\<rparr>"

section \<open>Clock, posts and the staging ring\<close>

definition efa_clock :: "efa_world \<Rightarrow> EfaProxy \<Rightarrow> u64 \<times> EfaProxy" where
  "efa_clock W s = (ew_clock W (e_ticks s), s\<lparr>e_ticks := Suc (e_ticks s)\<rparr>)"

definition wr_complete :: "efa_world \<Rightarrow> nat \<Rightarrow> bool \<Rightarrow> int \<Rightarrow> efa_wr list \<Rightarrow> EfaProxy \<Rightarrow> int \<times> EfaProxy" where
  "wr_complete W qp barrier before wrs s =
     (let ret = ew_ret W (length (e_posts s))
      in (ret, s\<lparr>e_posts := e_posts s @ [\<lparr>ep_qp = qp, ep_barrier = barrier, ep_wrs = wrs, ep_ret = ret,
            ep_before = before\<rparr>]\<rparr>))"

text \<open>\<open>(staging_cursor_++) % count\<close>, and the store into the slot.\<close>

definition stage_word :: "u32 \<Rightarrow> EfaProxy \<Rightarrow> nat \<times> EfaProxy" where
  "stage_word v s =
     (let slot = unat (e_cursor s mod ec_staging_count (e_cfg s))
      in (slot, s\<lparr>e_cursor := e_cursor s + 1, e_staging := (e_staging s)[slot := v]\<rparr>))"

definition efa_staging_sge :: "EfaConfig \<Rightarrow> nat \<Rightarrow> ibv_sge" where
  "efa_staging_sge c i =
     \<lparr>sge_addr = ec_staging_addr c + of_nat i * 4, sge_length = 4, sge_lkey = ec_staging_lkey c\<rparr>"

section \<open>Draining and the stage barrier\<close>

text \<open>The count a completion takes off \<open>inflight_\<close>: \<open>(int)wc.wr_id\<close>, none for a received immediate.\<close>

definition wc_credit :: "NotifyMode \<Rightarrow> efa_wc \<Rightarrow> int" where
  "wc_credit mode wc =
     (if mode = WriteImm \<and> ewc_opcode wc = WC_RECV_RDMA_WITH_IMM then 0
      else sint (ucast (ewc_wr_id wc) :: u32))"

text \<open>\<open>None\<close>: still spinning when the polls are used up.\<close>

fun efa_drain_from :: "efa_wc list list \<Rightarrow> int \<Rightarrow> EfaProxy \<Rightarrow> (int \<times> EfaProxy) option" where
  "efa_drain_from polls retired s =
     (if e_inflight s > 0 then
        (case polls of
           [] \<Rightarrow> None
         | wcs # rest \<Rightarrow>
             let n = (\<Sum>wc \<leftarrow> wcs. wc_credit (e_mode s) wc)
             in efa_drain_from rest (retired + n) (s\<lparr>e_inflight := e_inflight s - n\<rparr>))
      else Some (retired, s\<lparr>e_cq := polls\<rparr>))"

declare efa_drain_from.simps [simp del]

definition efa_drain_cq :: "EfaProxy \<Rightarrow> (int \<times> EfaProxy) option" where
  "efa_drain_cq s = efa_drain_from (e_cq s) 0 s"

definition efa_barrier_to_peer :: "efa_world \<Rightarrow> int \<Rightarrow> u32 \<Rightarrow> int \<Rightarrow> PerPeerProxyData \<Rightarrow> EfaProxy \<Rightarrow> EfaProxy" where
  "efa_barrier_to_peer W slot token before peer s =
     (if pp_remote_barrier_addr peer = 0 then s
      else
        let (st, s1) = stage_word token s;
            wr = \<lparr>ew_id = 1, ew_op = EfaWrite,
                  ew_remote_addr = pp_remote_barrier_addr peer + word_of_int slot * 4,
                  ew_rkey = pp_remote_barrier_rkey peer, ew_ah = pp_dst_ah peer, ew_qpn = pp_dst_qpns peer ! 0,
                  ew_sge = efa_staging_sge (e_cfg s) st\<rparr>;
            (ret, s2) = wr_complete W 0 True before [wr] s1
        in if ret \<noteq> 0 then s2 else s2\<lparr>e_inflight := e_inflight s2 + 1\<rparr>)"

definition efa_post_stage_barrier :: "efa_world \<Rightarrow> int \<Rightarrow> u32 \<Rightarrow> EfaProxy \<Rightarrow> EfaProxy" where
  "efa_post_stage_barrier W slot token s =
     (if \<not> ec_staging_ok (e_cfg s) then s
      else if ec_per_peer (e_cfg s) = [] then s
      else fold (efa_barrier_to_peer W slot token (e_inflight s)) (ec_per_peer (e_cfg s)) s)"

section \<open>Building a batch\<close>

definition efa_data_sge :: "EfaConfig \<Rightarrow> TransferCmd \<Rightarrow> ibv_sge" where
  "efa_data_sge c cmd =
     (if ec_direct_dmabuf_enabled c \<and> src_view cmd = 1
      then \<lparr>sge_addr = ec_clocal_data_addr c + local_offset cmd, sge_length = bytes cmd,
            sge_lkey = ec_clocal_data_lkey c\<rparr>
      else \<lparr>sge_addr = ec_local_data_addr c + local_offset cmd, sge_length = bytes cmd,
            sge_lkey = ec_local_data_lkey c\<rparr>)"

text \<open>\<open>htonl\<close> and \<open>ntohl\<close> on a little-endian host.\<close>

definition byte_swap32 :: "u32 \<Rightarrow> u32" where
  "byte_swap32 w = push_bit 24 (w AND 0xFF) OR push_bit 8 (w AND 0xFF00) OR
     (drop_bit 8 w AND 0xFF00) OR (drop_bit 24 w AND 0xFF)"

definition write_imm_wr :: "EfaConfig \<Rightarrow> u32 \<Rightarrow> PerPeerProxyData \<Rightarrow> TransferCmd \<Rightarrow> efa_wr" where
  "write_imm_wr c qpn peer cmd =
     \<lparr>ew_id = 1, ew_op = EfaWriteImm (byte_swap32 (tile_id cmd)),
      ew_remote_addr = pp_remote_data_addr peer + remote_offset cmd, ew_rkey = pp_remote_data_rkey peer,
      ew_ah = pp_dst_ah peer, ew_qpn = qpn, ew_sge = efa_data_sge c cmd\<rparr>"

definition post_write_imm_batch :: "u32 \<Rightarrow> PerPeerProxyData \<Rightarrow> TransferCmd list \<Rightarrow> EfaProxy \<Rightarrow> efa_wr list \<times> EfaProxy" where
  "post_write_imm_batch qpn peer batch s = (map (write_imm_wr (e_cfg s) qpn peer) batch, s)"

definition efa_total_lq :: "EfaConfig \<Rightarrow> u32" where
  "efa_total_lq c =
     (if ec_use_arrival_queue c then word_of_int (ec_global_num_qps c * ec_logical_queues_per_qp c) else 0)"

definition efa_logical_queue :: "EfaConfig \<Rightarrow> TransferCmd \<Rightarrow> u32" where
  "efa_logical_queue c cmd = (if efa_total_lq c > 0 then ucast (lane_id cmd) mod efa_total_lq c else 0)"

definition efa_has_tail :: "EfaConfig \<Rightarrow> PerPeerProxyData \<Rightarrow> bool" where
  "efa_has_tail c peer \<longleftrightarrow> ec_enable_remote_tail c \<and> pp_remote_tail_addr peer \<noteq> 0"

definition efa_slot_addr :: "EfaConfig \<Rightarrow> PerPeerProxyData \<Rightarrow> u32 \<Rightarrow> u32 \<Rightarrow> u64" where
  "efa_slot_addr c peer lq q_slot =
     pp_remote_flags_addr peer + ucast (lq * ec_remote_queue_stride c + q_slot) * 4"

definition remote_flag_cmd :: "u32 \<Rightarrow> PerPeerProxyData \<Rightarrow> TransferCmd \<Rightarrow> EfaProxy \<Rightarrow> efa_wr list \<times> EfaProxy" where
  "remote_flag_cmd qpn peer cmd s =
     (let c = e_cfg s;
          mk = (\<lambda>wid a k e. \<lparr>ew_id = wid, ew_op = EfaWrite, ew_remote_addr = a, ew_rkey = k,
                 ew_ah = pp_dst_ah peer, ew_qpn = qpn, ew_sge = e\<rparr>);
          data = mk 0 (pp_remote_data_addr peer + remote_offset cmd) (pp_remote_data_rkey peer) (efa_data_sge c cmd)
      in if \<not> ec_use_arrival_queue c
         then ([data, mk 1 (pp_remote_flags_addr peer + ucast (tile_id cmd) * 4) (pp_remote_flags_rkey peer)
                  (efa_staging_sge c 0)], s)
         else
           let (fslot, s1) = stage_word (pack_arrival_work (tile_id cmd) (run_tiles (bytes cmd))) s;
               lq = efa_logical_queue c cmd;
               q_slot = e_sender_seq s1 ! unat lq;
               s2 = s1\<lparr>e_sender_seq := (e_sender_seq s1)[unat lq := q_slot + 1]\<rparr>;
               tailed = efa_has_tail c peer;
               flag = mk (if tailed then 0 else 1) (efa_slot_addr c peer lq q_slot)
                        (pp_remote_flags_rkey peer) (efa_staging_sge c fslot)
           in if tailed then
                let (tslot, s3) = stage_word (q_slot + 1) s2
                in ([data, flag, mk 1 (pp_remote_tail_addr peer + ucast lq * 4) (pp_remote_tail_rkey peer)
                       (efa_staging_sge c tslot)], s3)
              else ([data, flag], s2))"

fun remote_flag_cmds :: "u32 \<Rightarrow> PerPeerProxyData \<Rightarrow> TransferCmd list \<Rightarrow> EfaProxy \<Rightarrow> efa_wr list \<times> EfaProxy" where
  "remote_flag_cmds qpn peer [] s = ([], s)"
| "remote_flag_cmds qpn peer (cmd # cmds) s =
     (let (ws, s1) = remote_flag_cmd qpn peer cmd s;
          (rest, s2) = remote_flag_cmds qpn peer cmds s1
      in (ws @ rest, s2))"

definition post_remote_flag_batch ::
    "u32 \<Rightarrow> PerPeerProxyData \<Rightarrow> TransferCmd list \<Rightarrow> EfaProxy \<Rightarrow> efa_wr list \<times> EfaProxy" where
  "post_remote_flag_batch qpn peer batch s =
     (let s1 = (if ec_use_arrival_queue (e_cfg s) then s
                else s\<lparr>e_staging := (e_staging s)[0 := ec_epoch (e_cfg s)]\<rparr>)
      in remote_flag_cmds qpn peer batch s1)"

section \<open>Collecting a batch\<close>

definition map_to_local_qp :: "EfaConfig \<Rightarrow> TransferCmd \<Rightarrow> int" where
  "map_to_local_qp c cmd = (if ec_num_qps c \<le> 0 then 0 else uint (ucast (lane_id cmd) mod (word_of_int (ec_num_qps c) :: u32)))"

definition efa_fifo :: "EfaProxy \<Rightarrow> nat" where
  "efa_fifo s = (if ec_num_fifos (e_cfg s) > 1 then e_fifo_idx s else 0)"

definition efa_read_cmd :: "u64 list \<Rightarrow> TransferCmd" where
  "efa_read_cmd ws = (case words_cmd ws of Some c \<Rightarrow> c | None \<Rightarrow> zero_cmd)"

definition efa_poll_cmd :: "EfaProxy \<Rightarrow> TransferCmd option \<times> EfaProxy" where
  "efa_poll_cmd s =
     (case poll (e_fifos s ! efa_fifo s) of
        (r, f) \<Rightarrow> (map_option efa_read_cmd r, s\<lparr>e_fifos := (e_fifos s)[efa_fifo s := f]\<rparr>))"

definition batch_cap :: "EfaProxy \<Rightarrow> int" where
  "batch_cap s = (if e_use_adaptive_batch s then uint (e_batch_size_current s) else efa_BATCH_SIZE)"

definition spin_cap :: "EfaProxy \<Rightarrow> int" where
  "spin_cap s = (if e_use_adaptive_batch s then uint (e_accum_spins_current s) else ACCUMULATE_SPINS)"

definition efa_room :: "int \<Rightarrow> nat \<Rightarrow> EfaProxy \<Rightarrow> bool" where
  "efa_room pre count s \<longleftrightarrow> int count < batch_cap s \<and> pre + int count < e_limit s"

definition same_lane_group :: "EfaConfig \<Rightarrow> TransferCmd list \<Rightarrow> int \<Rightarrow> TransferCmd \<Rightarrow> bool" where
  "same_lane_group c batch bq cmd \<longleftrightarrow> map_to_local_qp c cmd = bq \<and> dst_rank cmd = dst_rank (hd batch)"

definition stash_cmd :: "TransferCmd \<Rightarrow> EfaProxy \<Rightarrow> EfaProxy" where
  "stash_cmd cmd s = s\<lparr>e_pending_cmd := cmd, e_has_pending_cmd := True\<rparr>"

text \<open>
  The seeding loop. Each turn takes a record from the ring, so a fuel of one more than its
  slots is enough; \<open>None\<close> is the loop, or the drain inside it, still running.
\<close>

fun efa_collect :: "efa_world \<Rightarrow> nat \<Rightarrow> int \<Rightarrow> TransferCmd list \<Rightarrow> int \<Rightarrow> EfaProxy \<Rightarrow> (TransferCmd list \<times> int \<times> EfaProxy) option" where
  "efa_collect W 0 pre batch bq s = None"
| "efa_collect W (Suc fuel) pre batch bq s =
     (if \<not> efa_room pre (length batch) s then Some (batch, bq, s)
      else
        case efa_poll_cmd s of
          (None, s1) \<Rightarrow> Some (batch, bq, s1)
        | (Some cmd, s1) \<Rightarrow>
            if cmd_type cmd = BARRIER_NOTIFY then
              if batch \<noteq> [] then Some (batch, bq, s1\<lparr>e_has_pending_barrier := True\<rparr>)
              else
                (case efa_drain_cq s1 of
                   None \<Rightarrow> None
                 | Some (n, s2) \<Rightarrow>
                     efa_collect W fuel pre batch bq (efa_post_stage_barrier W 0 (ec_epoch (e_cfg s2)) s2))
            else if cmd_type cmd \<noteq> WRITE then efa_collect W fuel pre batch bq s1
            else if map_to_local_qp (e_cfg s1) cmd < 0 then efa_collect W fuel pre batch bq s1
            else if batch = [] then efa_collect W fuel pre [cmd] (map_to_local_qp (e_cfg s1) cmd) s1
            else if same_lane_group (e_cfg s1) batch bq cmd then efa_collect W fuel pre (batch @ [cmd]) bq s1
            else Some (batch, bq, stash_cmd cmd s1))"

text \<open>The accumulate phase: at most \<open>spins\<close> turns, ended by eight misses in a row.\<close>

fun efa_accumulate :: "nat \<Rightarrow> int \<Rightarrow> int \<Rightarrow> TransferCmd list \<Rightarrow> int \<Rightarrow> EfaProxy \<Rightarrow> TransferCmd list \<times> EfaProxy" where
  "efa_accumulate 0 misses pre batch bq s = (batch, s)"
| "efa_accumulate (Suc spins) misses pre batch bq s =
     (if misses \<ge> ACCUMULATE_MISS_BUDGET \<or> \<not> efa_room pre (length batch) s then (batch, s)
      else
        case efa_poll_cmd s of
          (None, s1) \<Rightarrow> efa_accumulate spins (misses + 1) pre batch bq s1
        | (Some cmd, s1) \<Rightarrow>
            if cmd_type cmd = BARRIER_NOTIFY then (batch, s1\<lparr>e_has_pending_barrier := True\<rparr>)
            else if cmd_type cmd \<noteq> WRITE then efa_accumulate spins 0 pre batch bq s1
            else if map_to_local_qp (e_cfg s1) cmd < 0 then efa_accumulate spins 0 pre batch bq s1
            else if \<not> same_lane_group (e_cfg s1) batch bq cmd then (batch, stash_cmd cmd s1)
            else efa_accumulate spins 0 pre (batch @ [cmd]) bq s1)"

definition efa_note_head :: "TransferCmd list \<Rightarrow> EfaProxy \<Rightarrow> EfaProxy" where
  "efa_note_head batch s =
     (if batch \<noteq> [] then s\<lparr>e_pending_cpu_head := cpu_head (e_fifos s ! efa_fifo s)\<rparr> else s)"

definition efa_seed :: "int \<Rightarrow> EfaProxy \<Rightarrow> TransferCmd list \<times> int \<times> EfaProxy" where
  "efa_seed pre s =
     (if e_has_pending_cmd s \<and> pre < e_limit s then
        let q = map_to_local_qp (e_cfg s) (e_pending_cmd s); s1 = s\<lparr>e_has_pending_cmd := False\<rparr>
        in if q \<ge> 0 then ([e_pending_cmd s], q, s1) else ([], 0, s1)
      else ([], 0, s))"

definition efa_rotate :: "EfaProxy \<Rightarrow> EfaProxy" where
  "efa_rotate s =
     (if ec_num_fifos (e_cfg s) > 1
      then s\<lparr>e_fifo_idx := (e_fifo_idx s + 1) mod nat (ec_num_fifos (e_cfg s))\<rparr> else s)"

definition efa_gather :: "efa_world \<Rightarrow> EfaProxy \<Rightarrow> (TransferCmd list \<times> int \<times> EfaProxy) option" where
  "efa_gather W s =
     (if e_retry s \<noteq> [] then Some (e_retry s, e_retry_qp s, s)
      else
        let pre = e_inflight s;
            s1 = efa_rotate s;
            (batch0, bq0, s2) = efa_seed pre s1;
            fuel = Suc (length (triggers (e_fifos s2 ! efa_fifo s2)))
        in case efa_collect W fuel pre batch0 bq0 s2 of
             None \<Rightarrow> None
           | Some (batch, bq, s3) \<Rightarrow>
               let s4 = efa_note_head batch s3
               in if batch \<noteq> [] \<and> int (length batch) < batch_cap s4 \<and> \<not> e_has_pending_cmd s4 then
                    let (batch', s5) = efa_accumulate (nat (spin_cap s4)) 0 pre batch bq s4
                    in Some (batch', bq, efa_note_head batch' s5)
                  else Some (batch, bq, s4))"

section \<open>Posting, completions and the loop\<close>

definition efa_note_loop :: "int \<Rightarrow> nat \<Rightarrow> EfaProxy \<Rightarrow> EfaProxy" where
  "efa_note_loop pre count s =
     (let s1 = s\<lparr>e_total_loops := e_total_loops s + 1\<rparr>
      in if count = 0 then s1\<lparr>e_empty_loops := e_empty_loops s1 + 1\<rparr>
         else if int count = efa_BATCH_SIZE then s1\<lparr>e_full_batches := e_full_batches s1 + 1\<rparr>
         else if pre + int count \<ge> e_limit s1 then s1\<lparr>e_inflight_limited := e_inflight_limited s1 + 1\<rparr>
         else s1\<lparr>e_partial_batches := e_partial_batches s1 + 1\<rparr>)"

text \<open>The endpoint of the first command's destination.\<close>

definition resolve_peer_slot :: "EfaConfig \<Rightarrow> TransferCmd \<Rightarrow> nat" where
  "resolve_peer_slot c cmd =
     (case ec_peer_slot_by_rank c of
        None \<Rightarrow> 0
      | Some t \<Rightarrow> let v = t ! unat (dst_rank cmd) in if v \<ge> 0 then nat v else 0)"

definition efa_build :: "TransferCmd list \<Rightarrow> int \<Rightarrow> EfaProxy \<Rightarrow> efa_wr list \<times> EfaProxy" where
  "efa_build batch bq s =
     (let peer = ec_per_peer (e_cfg s) ! resolve_peer_slot (e_cfg s) (hd batch);
          qpn = pp_dst_qpns peer ! nat bq
      in if e_mode s = RemoteFlag then post_remote_flag_batch qpn peer batch s
         else post_write_imm_batch qpn peer batch s)"

definition efa_note_posted :: "u64 \<Rightarrow> nat \<Rightarrow> EfaProxy \<Rightarrow> EfaProxy" where
  "efa_note_posted post_ns count s =
     (let s1 = (if \<not> recorded (e_ts s) then s\<lparr>e_ts := (e_ts s)\<lparr>ts_first_post_ns := post_ns\<rparr>\<rparr> else s);
          s2 = s1\<lparr>e_post_calls := e_post_calls s1 + 1, e_total_cmds := e_total_cmds s1 + of_nat count,
                  e_inflight := e_inflight s1 + int count, e_retry := [],
                  e_signaled_post_ns := e_signaled_post_ns s1 @ [post_ns]\<rparr>
      in if e_pending_post_count s2 < kMaxPendingBatches
         then s2\<lparr>e_pending_post_ns := (e_pending_post_ns s2)[e_pending_post_head s2 := post_ns],
                 e_pending_post_head := (e_pending_post_head s2 + 1) mod kMaxPendingBatches,
                 e_pending_post_count := e_pending_post_count s2 + 1\<rparr>
         else s2)"

definition efa_post_batch :: "efa_world \<Rightarrow> TransferCmd list \<Rightarrow> int \<Rightarrow> EfaProxy \<Rightarrow> bool \<times> EfaProxy" where
  "efa_post_batch W batch bq s0 =
     (let s1 = (if \<not> recorded (e_ts s0)
                then let (t, u) = efa_clock W s0 in u\<lparr>e_ts := (e_ts u)\<lparr>ts_first_cmd_ns := t\<rparr>\<rparr> else s0);
          (wrs, s2) = efa_build batch bq s1;
          (ret, s3) = wr_complete W (nat bq) False (e_inflight s2) wrs s2
      in if ret \<noteq> 0 then (False, s3\<lparr>e_retry := batch, e_retry_qp := bq\<rparr>)
         else let (post_ns, s4) = efa_clock W s3 in (True, efa_note_posted post_ns (length batch) s4))"

definition efa_note_latency :: "u64 \<Rightarrow> EfaProxy \<Rightarrow> efa_wc \<Rightarrow> EfaProxy" where
  "efa_note_latency poll_ns s wc =
     (if ewc_wr_id wc > 0 \<and> e_pending_post_count s > 0 then
        let lat = poll_ns - e_pending_post_ns s ! e_pending_post_tail s;
            s1 = s\<lparr>e_pending_post_tail := (e_pending_post_tail s + 1) mod kMaxPendingBatches,
                   e_pending_post_count := e_pending_post_count s - 1,
                   e_completion_count := e_completion_count s + 1,
                   e_completion_sum_ns := e_completion_sum_ns s + lat\<rparr>
        in if lat > e_completion_max_ns s1 then s1\<lparr>e_completion_max_ns := lat\<rparr> else s1
      else s)"

definition efa_reap_one :: "EfaProxy \<Rightarrow> efa_wc \<Rightarrow> EfaProxy" where
  "efa_reap_one s wc =
     (if e_mode s = WriteImm \<and> ewc_opcode wc = WC_RECV_RDMA_WITH_IMM then
        let t = byte_swap32 (ewc_imm wc)
        in if ec_has_local_arrival (e_cfg s) \<and> t < word_of_int (ec_local_arrival_count (e_cfg s))
           then s\<lparr>e_arrival := (e_arrival s)[unat t := ec_epoch (e_cfg s)]\<rparr> else s
      else s\<lparr>e_inflight := e_inflight s - sint (ucast (ewc_wr_id wc) :: u32)\<rparr>)"

definition efa_poll_cq :: "EfaProxy \<Rightarrow> efa_wc list \<times> EfaProxy" where
  "efa_poll_cq s = (case e_cq s of [] \<Rightarrow> ([], s) | wcs # rest \<Rightarrow> (wcs, s\<lparr>e_cq := rest\<rparr>))"

definition efa_reap :: "efa_world \<Rightarrow> EfaProxy \<Rightarrow> EfaProxy" where
  "efa_reap W s0 =
     (let (wcs, s1) = efa_poll_cq s0;
          s2 = (if wcs = [] then s1
                else
                  let (t, u) = efa_clock W s1;
                      u1 = (if \<not> recorded (e_ts u)
                            then u\<lparr>e_ts := (e_ts u)\<lparr>ts_first_completion_ns := t, recorded := True\<rparr>\<rparr> else u);
                      u2 = u1\<lparr>e_completion_ns := e_completion_ns u1 @ [t]\<rparr>
                  in foldl (efa_note_latency t) u2 wcs)
      in foldl efa_reap_one s2 wcs)"

definition efa_advance :: "bool \<Rightarrow> EfaProxy \<Rightarrow> EfaProxy" where
  "efa_advance posted s =
     (if posted then s\<lparr>e_fifos := (e_fifos s)[efa_fifo s := advance_tail (e_fifos s ! efa_fifo s) (e_pending_cpu_head s)]\<rparr>
      else s)"

definition efa_gate :: "efa_world \<Rightarrow> EfaProxy \<Rightarrow> EfaProxy" where
  "efa_gate W s =
     (if \<not> recorded (e_ts s)
      then let (t, u) = efa_clock W s in u\<lparr>e_ts := (e_ts u)\<lparr>proxy_start_ns := t\<rparr>\<rparr> else s)"

definition efa_loop_body :: "efa_world \<Rightarrow> bool \<Rightarrow> EfaProxy \<Rightarrow> EfaProxy option" where
  "efa_loop_body W paused_now s =
     (if paused_now then Some (efa_gate W s)
      else if e_has_pending_barrier s \<and> e_retry s = [] \<and> \<not> e_has_pending_cmd s then
        (case efa_drain_cq (s\<lparr>e_has_pending_barrier := False\<rparr>) of
           None \<Rightarrow> None
         | Some (n, s1) \<Rightarrow> Some (efa_post_stage_barrier W 0 (ec_epoch (e_cfg s1)) s1))
      else
        let pre = e_inflight s
        in case efa_gather W s of
             None \<Rightarrow> None
           | Some (batch, bq, s1) \<Rightarrow>
               let s2 = efa_note_loop pre (length batch) s1;
                   (posted, s3) = (if batch \<noteq> [] then efa_post_batch W batch bq s2 else (False, s2))
               in Some (efa_advance posted (efa_reap W s3)))"

text \<open>Iterations in sequence; \<open>ins\<close> gives the pause flag and the commands the GPU pushed to each FIFO.\<close>

definition efa_gpu_pushes :: "(nat \<times> TransferCmd) list \<Rightarrow> D2HFifo list \<Rightarrow> D2HFifo list" where
  "efa_gpu_pushes cmds fs =
     fold (\<lambda>(i, c) gs. case push c (gs ! i) of None \<Rightarrow> gs | Some (slot, g) \<Rightarrow> gs[i := g]) cmds fs"

fun efa_run :: "efa_world \<Rightarrow> (bool \<times> (nat \<times> TransferCmd) list) list \<Rightarrow> EfaProxy \<Rightarrow> EfaProxy option" where
  "efa_run W [] s = Some s"
| "efa_run W ((p, cmds) # ins) s =
     (case efa_loop_body W p (s\<lparr>e_fifos := efa_gpu_pushes cmds (e_fifos s)\<rparr>) of
        None \<Rightarrow> None | Some s' \<Rightarrow> efa_run W ins s')"

text \<open>The drain before the thread exits.\<close>

fun efa_exit_drain :: "efa_wc list list \<Rightarrow> EfaProxy \<Rightarrow> EfaProxy option" where
  "efa_exit_drain polls s =
     (if e_inflight s > 0 then
        (case polls of
           [] \<Rightarrow> None
         | wcs # rest \<Rightarrow>
             efa_exit_drain rest (s\<lparr>e_inflight := e_inflight s - (\<Sum>wc \<leftarrow> wcs. wc_credit (e_mode s) wc)\<rparr>))
      else Some s)"

declare efa_exit_drain.simps [simp del]

end
