(* ===== verification/Proxy_EFA_Ledger.thy ===== *)
theory Proxy_EFA_Ledger
  imports Proxy_EFA
begin

text \<open>
  Lemmas on the EFA proxy's accounts. \<open>efa_ledger\<close> sets the inflight count against the commands
  of the successful posts and the completions still ahead; \<open>balanced s t\<close> says that the step from
  \<open>s\<close> to \<open>t\<close> keeps it, and keeps every barrier behind a drained queue. Steps that touch none of
  the accounts are \<open>quiet\<close>. Each operation of the loop is shown balanced, hence every run.
\<close>

section \<open>The ledger\<close>

definition wr_credit :: "efa_wr \<Rightarrow> int" where
  "wr_credit w = sint (ucast (ew_id w) :: u32)"

definition post_credit :: "efa_post \<Rightarrow> int" where
  "post_credit p = (if ep_ret p = 0 then \<Sum>w \<leftarrow> ep_wrs p. wr_credit w else 0)"

definition polls_credit :: "NotifyMode \<Rightarrow> efa_wc list list \<Rightarrow> int" where
  "polls_credit m polls = (\<Sum>wcs \<leftarrow> polls. \<Sum>wc \<leftarrow> wcs. wc_credit m wc)"

definition efa_ledger :: "EfaProxy \<Rightarrow> int" where
  "efa_ledger s = e_inflight s - polls_credit (e_mode s) (e_cq s) - (\<Sum>p \<leftarrow> e_posts s. post_credit p)"

definition barriers_drained :: "EfaProxy \<Rightarrow> bool" where
  "barriers_drained s \<longleftrightarrow> (\<forall>p \<in> set (e_posts s). ep_barrier p \<longrightarrow> ep_before p \<le> 0)"

definition balanced :: "EfaProxy \<Rightarrow> EfaProxy \<Rightarrow> bool" where
  "balanced s t \<longleftrightarrow> efa_ledger t = efa_ledger s \<and> e_mode t = e_mode s \<and> e_cfg t = e_cfg s \<and>
     (barriers_drained s \<longrightarrow> barriers_drained t)"

definition quiet :: "EfaProxy \<Rightarrow> EfaProxy \<Rightarrow> bool" where
  "quiet s t \<longleftrightarrow> e_inflight t = e_inflight s \<and> e_cq t = e_cq s \<and> e_posts t = e_posts s \<and>
     e_mode t = e_mode s \<and> e_cfg t = e_cfg s"

lemma balanced_refl [simp]: "balanced s s"
  by (simp add: balanced_def)

lemma balanced_trans: "balanced s t \<Longrightarrow> balanced t u \<Longrightarrow> balanced s u"
  by (simp add: balanced_def)

lemma quiet_balanced: "quiet s t \<Longrightarrow> balanced s t"
  by (simp add: quiet_def balanced_def efa_ledger_def barriers_drained_def)

lemma quiet_refl [simp]: "quiet s s"
  by (simp add: quiet_def)

lemma quiet_trans: "quiet s t \<Longrightarrow> quiet t u \<Longrightarrow> quiet s u"
  by (simp add: quiet_def)

lemma quiet_gate: "quiet s (efa_gate W s)"
  by (simp add: quiet_def efa_gate_def efa_clock_def)

lemma quiet_poll: "quiet s (snd (efa_poll_cmd s))"
  by (simp add: quiet_def efa_poll_cmd_def split: prod.splits)

lemma quiet_note_head: "quiet s (efa_note_head b s)"
  by (simp add: quiet_def efa_note_head_def)

lemma quiet_rotate: "quiet s (efa_rotate s)"
  by (simp add: quiet_def efa_rotate_def)

lemma quiet_seed: "quiet s (snd (snd (efa_seed pre s)))"
  by (simp add: quiet_def efa_seed_def Let_def)

lemma quiet_stash: "quiet s (stash_cmd c s)"
  by (simp add: quiet_def stash_cmd_def)

lemma quiet_note_loop: "quiet s (efa_note_loop pre n s)"
  by (simp add: quiet_def efa_note_loop_def Let_def)

lemma quiet_advance: "quiet s (efa_advance b s)"
  by (simp add: quiet_def efa_advance_def)

lemma quiet_stage_word: "quiet s (snd (stage_word v s))"
  by (simp add: quiet_def stage_word_def Let_def)

lemma quiet_accumulate: "quiet s (snd (efa_accumulate n m pre b q s))"
proof (induction n m pre b q s rule: efa_accumulate.induct)
  case (2 spins misses pre batch bq s)
  obtain r s1 where p: "efa_poll_cmd s = (r, s1)" by fastforce
  have q1: "quiet s s1" using quiet_poll[of s] p by simp
  have f: "quiet s1 (s1\<lparr>e_has_pending_barrier := True\<rparr>)" by (simp add: quiet_def)
  show ?case
    using "2.IH"[OF _ p[symmetric]] q1 f quiet_stash[of s1]
    by (auto simp: p split: option.splits intro: quiet_trans)
qed simp

lemma quiet_remote_flag_cmd: "quiet s (snd (remote_flag_cmd qpn peer cmd s))"
  by (simp add: quiet_def remote_flag_cmd_def stage_word_def Let_def)

lemma quiet_remote_flag_cmds: "quiet s (snd (remote_flag_cmds qpn peer cmds s))"
proof (induction cmds arbitrary: s)
  case (Cons cmd cmds)
  obtain ws s1 where r: "remote_flag_cmd qpn peer cmd s = (ws, s1)" by fastforce
  have "quiet s s1" using quiet_remote_flag_cmd[of s qpn peer cmd] r by simp
  then show ?case using Cons.IH[of s1] r by (auto split: prod.splits intro: quiet_trans)
qed simp

lemma quiet_build: "quiet s (snd (efa_build b q s))"
proof -
  have "quiet s (s\<lparr>e_staging := x\<rparr>)" for x by (simp add: quiet_def)
  then show ?thesis
    by (auto simp: efa_build_def Let_def post_remote_flag_batch_def post_write_imm_batch_def
        intro: quiet_remote_flag_cmds quiet_trans)
qed

text \<open>A batch of \<open>n\<close> commands carries the credit \<open>n\<close>.\<close>

lemma credit_remote_flag_cmd: "(\<Sum>w \<leftarrow> fst (remote_flag_cmd qpn peer cmd s). wr_credit w) = 1"
  by (simp add: remote_flag_cmd_def stage_word_def Let_def wr_credit_def)

lemma credit_remote_flag_cmds: "(\<Sum>w \<leftarrow> fst (remote_flag_cmds qpn peer cmds s). wr_credit w) = int (length cmds)"
proof (induction cmds arbitrary: s)
  case (Cons cmd cmds)
  obtain ws s1 where r: "remote_flag_cmd qpn peer cmd s = (ws, s1)" by fastforce
  have "(\<Sum>w \<leftarrow> ws. wr_credit w) = 1" using credit_remote_flag_cmd[of qpn peer cmd s] r by simp
  then show ?case using Cons.IH[of s1] r by (auto split: prod.splits)
qed simp

lemma credit_build: "(\<Sum>w \<leftarrow> fst (efa_build b q s). wr_credit w) = int (length b)"
proof -
  have "(\<Sum>c \<leftarrow> b. wr_credit (write_imm_wr cf qpn peer c)) = int (length b)" for cf qpn peer
    by (induction b) (simp_all add: wr_credit_def write_imm_wr_def)
  then show ?thesis
    by (simp add: efa_build_def Let_def post_remote_flag_batch_def post_write_imm_batch_def
        credit_remote_flag_cmds o_def)
qed

section \<open>Operations keep the ledger\<close>

lemma drain_from_splits:
  assumes "efa_drain_from polls r s = Some (n, s')"
  shows "\<exists>used rest. polls = used @ rest \<and> n = r + polls_credit (e_mode s) used \<and> e_inflight s' \<le> 0 \<and>
    s' = s\<lparr>e_inflight := e_inflight s - polls_credit (e_mode s) used, e_cq := rest\<rparr>"
  using assms
proof (induction polls r s rule: efa_drain_from.induct)
  case (1 polls r s)
  show ?case
  proof (cases "e_inflight s > 0")
    case True
    then obtain wcs rest where p: "polls = wcs # rest"
      using "1.prems" by (auto simp: efa_drain_from.simps[of polls] split: list.splits)
    define k where "k = (\<Sum>wc \<leftarrow> wcs. wc_credit (e_mode s) wc)"
    define s1 where "s1 = s\<lparr>e_inflight := e_inflight s - k\<rparr>"
    have step: "efa_drain_from rest (r + k) s1 = Some (n, s')"
      using "1.prems" True efa_drain_from.simps[of "wcs # rest" r s] by (simp add: p k_def s1_def Let_def)
    have "\<exists>used rest'. rest = used @ rest' \<and> n = (r + k) + polls_credit (e_mode s1) used \<and> e_inflight s' \<le> 0 \<and>
        s' = s1\<lparr>e_inflight := e_inflight s1 - polls_credit (e_mode s1) used, e_cq := rest'\<rparr>"
      using "1.IH"[OF True p k_def] step unfolding s1_def by simp
    then obtain used rest' where u: "rest = used @ rest'" "n = r + k + polls_credit (e_mode s1) used"
        "e_inflight s' \<le> 0" "s' = s1\<lparr>e_inflight := e_inflight s1 - polls_credit (e_mode s1) used, e_cq := rest'\<rparr>"
      by blast
    show ?thesis
      by (rule exI[of _ "wcs # used"], rule exI[of _ rest'])
        (use u p in \<open>simp add: polls_credit_def k_def s1_def\<close>)
  next
    case False
    then have "n = r" "s' = s\<lparr>e_cq := polls\<rparr>" using "1.prems" by (simp_all add: efa_drain_from.simps[of polls])
    then show ?thesis
      by (intro exI[of _ "[]"] exI[of _ polls]) (use False in \<open>simp add: polls_credit_def\<close>)
  qed
qed

lemma polls_credit_append: "polls_credit m (a @ b) = polls_credit m a + polls_credit m b"
  by (simp add: polls_credit_def)

lemma drain_cq_effect:
  assumes "efa_drain_cq s = Some (n, s')"
  shows "balanced s s' \<and> e_inflight s' \<le> 0 \<and> e_inflight s' = e_inflight s - n \<and> e_posts s' = e_posts s"
proof -
  obtain used rest where u: "e_cq s = used @ rest" "n = polls_credit (e_mode s) used" "e_inflight s' \<le> 0"
      "s' = s\<lparr>e_inflight := e_inflight s - polls_credit (e_mode s) used, e_cq := rest\<rparr>"
    using drain_from_splits[OF assms[unfolded efa_drain_cq_def]] by (metis add_0)
  then show ?thesis
    by (simp add: balanced_def efa_ledger_def barriers_drained_def polls_credit_append)
qed

lemma balanced_barrier_to_peer:
  assumes "before \<le> 0"
  shows "balanced s (efa_barrier_to_peer W slot tok before peer s)"
  using assms
  by (auto simp: efa_barrier_to_peer_def stage_word_def wr_complete_def balanced_def efa_ledger_def
      barriers_drained_def post_credit_def wr_credit_def Let_def)

lemma balanced_post_stage_barrier:
  assumes "e_inflight s \<le> 0"
  shows "balanced s (efa_post_stage_barrier W slot tok s)"
proof -
  have "balanced s (fold (efa_barrier_to_peer W slot tok (e_inflight s)) ps s)" for ps
  proof -
    have "balanced s t \<Longrightarrow> balanced s (fold (efa_barrier_to_peer W slot tok (e_inflight s)) ps t)" for t
    proof (induction ps arbitrary: t)
      case (Cons p ps)
      show ?case
        using Cons.IH[OF balanced_trans[OF Cons.prems balanced_barrier_to_peer[OF assms]]] by simp
    qed simp
    then show ?thesis by simp
  qed
  then show ?thesis by (simp add: efa_post_stage_barrier_def)
qed

lemma balanced_drained_barrier:
  assumes "efa_drain_cq s = Some (n, s1)"
  shows "balanced s (efa_post_stage_barrier W slot tok s1)"
  using drain_cq_effect[OF assms] balanced_post_stage_barrier balanced_trans by blast

lemma balanced_collect:
  assumes "efa_collect W fuel pre batch bq s = Some (b, q, s')"
  shows "balanced s s'"
  using assms
proof (induction fuel arbitrary: batch bq s)
  case (Suc fuel)
  obtain r s1 where p: "efa_poll_cmd s = (r, s1)" by fastforce
  have q1: "balanced s s1" using quiet_balanced[OF quiet_poll[of s]] p by simp
  have flag: "balanced s1 (s1\<lparr>e_has_pending_barrier := True\<rparr>)" and st: "balanced s1 (stash_cmd c s1)" for c
    by (auto simp: quiet_def intro: quiet_balanced quiet_stash)
  show ?case
  proof (cases r)
    case None
    then show ?thesis using Suc.prems p q1 by (auto split: if_splits)
  next
    case (Some cmd)
    have rec: "efa_collect W fuel pre b' q' t = Some (b, q, s') \<Longrightarrow> balanced s1 t \<Longrightarrow> balanced s s'" for b' q' t
      using Suc.IH[of b' q' t] q1 balanced_trans by blast
    show ?thesis
    proof (cases "efa_room pre (length batch) s \<and> cmd_type cmd = BARRIER_NOTIFY \<and> batch = []")
      case True
      then obtain n s2 where d: "efa_drain_cq s1 = Some (n, s2)"
        using Suc.prems p Some by (auto split: option.splits)
      show ?thesis
        using Suc.prems True p Some d by (auto intro!: rec[OF _ balanced_drained_barrier[OF d]])
    next
      case False
      then show ?thesis
        using Suc.prems p Some q1 flag st
        by (auto split: if_splits intro: rec[OF _ balanced_refl] balanced_trans)
    qed
  qed
qed simp

lemma balanced_gather:
  assumes "efa_gather W s = Some (b, q, s')"
  shows "balanced s s'"
proof (cases "e_retry s = []")
  case True
  define s1 where "s1 = efa_rotate s"
  obtain b0 q0 s2 where sd: "efa_seed (e_inflight s) s1 = (b0, q0, s2)" by (metis prod_cases3)
  have q2: "quiet s s2"
    using quiet_rotate[of s] quiet_seed[of s1 "e_inflight s"] sd quiet_trans unfolding s1_def by fastforce
  obtain b1 q1 s3 where c: "efa_collect W (Suc (length (triggers (e_fifos s2 ! efa_fifo s2)))) (e_inflight s) b0 q0 s2
      = Some (b1, q1, s3)"
    using assms True sd unfolding efa_gather_def s1_def by (auto simp: Let_def split: option.splits)
  define s4 where "s4 = efa_note_head b1 s3"
  obtain b2 s5 where a: "efa_accumulate (nat (spin_cap s4)) 0 (e_inflight s) b1 q1 s4 = (b2, s5)" by fastforce
  have "s' = s4 \<or> s' = efa_note_head b2 s5"
    using assms True sd c a unfolding efa_gather_def s1_def s4_def by (auto simp: Let_def split: if_splits)
  moreover have "balanced s s4"
    using balanced_collect[OF c] quiet_balanced[OF q2] quiet_balanced[OF quiet_note_head, of s3 b1] balanced_trans
    unfolding s4_def by blast
  moreover have "balanced s4 (efa_note_head b2 s5)"
    using quiet_accumulate[of s4 "nat (spin_cap s4)" 0 "e_inflight s" b1 q1] a quiet_note_head[of s5 b2]
    by (auto intro: quiet_balanced quiet_trans)
  ultimately show ?thesis by (auto intro: balanced_trans)
next
  case False
  then show ?thesis using assms by (simp add: efa_gather_def)
qed

lemma balanced_note_posted:
  "efa_ledger (efa_note_posted t n s) = efa_ledger s + int n \<and> e_mode (efa_note_posted t n s) = e_mode s \<and>
   e_cfg (efa_note_posted t n s) = e_cfg s \<and> e_posts (efa_note_posted t n s) = e_posts s"
  by (simp add: efa_note_posted_def Let_def efa_ledger_def)

lemma balanced_post_batch: "balanced s (snd (efa_post_batch W b q s))"
proof -
  define s1 where "s1 = (if \<not> recorded (e_ts s)
     then let (t, u) = efa_clock W s in u\<lparr>e_ts := (e_ts u)\<lparr>ts_first_cmd_ns := t\<rparr>\<rparr> else s)"
  obtain ws s2 where bd: "efa_build b q s1 = (ws, s2)" by fastforce
  have q2: "quiet s s2"
  proof -
    have "quiet s s1" by (simp add: s1_def quiet_def efa_clock_def)
    moreover have "quiet s1 s2" using quiet_build[of s1 b q] bd by simp
    ultimately show ?thesis by (rule quiet_trans)
  qed
  have cr: "(\<Sum>w \<leftarrow> ws. wr_credit w) = int (length b)" using credit_build[of b q s1] bd by simp
  define ret where "ret = ew_ret W (length (e_posts s2))"
  define s3 where "s3 = s2\<lparr>e_posts := e_posts s2 @ [\<lparr>ep_qp = nat q, ep_barrier = False, ep_wrs = ws, ep_ret = ret,
      ep_before = e_inflight s2\<rparr>]\<rparr>"
  have r: "efa_post_batch W b q s = (if ret \<noteq> 0 then (False, s3\<lparr>e_retry := b, e_retry_qp := q\<rparr>)
      else (True, efa_note_posted (ew_clock W (e_ticks s3)) (length b) (s3\<lparr>e_ticks := Suc (e_ticks s3)\<rparr>)))"
    using bd by (simp add: efa_post_batch_def s1_def[symmetric] wr_complete_def ret_def s3_def efa_clock_def Let_def)
  have l3: "efa_ledger s3 = efa_ledger s - (if ret = 0 then int (length b) else 0)"
    using q2 cr by (simp add: s3_def efa_ledger_def quiet_def post_credit_def)
  have b3: "barriers_drained s \<Longrightarrow> barriers_drained s3" and m3: "e_mode s3 = e_mode s" "e_cfg s3 = e_cfg s"
    using q2 by (auto simp: s3_def barriers_drained_def quiet_def)
  show ?thesis
  proof (cases "ret = 0")
    case True
    have l4: "efa_ledger (s3\<lparr>e_ticks := Suc (e_ticks s3)\<rparr>) = efa_ledger s3" by (simp add: efa_ledger_def)
    show ?thesis
      using True l3 b3 m3 by (simp add: r balanced_def balanced_note_posted l4 barriers_drained_def)
  next
    case False
    then show ?thesis
      using l3 b3 m3 by (simp add: r balanced_def efa_ledger_def barriers_drained_def)
  qed
qed

lemma reap_one_effect:
  "e_inflight (efa_reap_one s wc) = e_inflight s - wc_credit (e_mode s) wc"
  "e_mode (efa_reap_one s wc) = e_mode s" "e_cfg (efa_reap_one s wc) = e_cfg s"
  "e_posts (efa_reap_one s wc) = e_posts s" "e_cq (efa_reap_one s wc) = e_cq s"
  by (auto simp: efa_reap_one_def wc_credit_def Let_def)

lemma reap_fold_effect:
  "e_inflight (foldl efa_reap_one s wcs) = e_inflight s - (\<Sum>wc \<leftarrow> wcs. wc_credit (e_mode s) wc) \<and>
   e_mode (foldl efa_reap_one s wcs) = e_mode s \<and> e_cfg (foldl efa_reap_one s wcs) = e_cfg s \<and>
   e_posts (foldl efa_reap_one s wcs) = e_posts s \<and> e_cq (foldl efa_reap_one s wcs) = e_cq s"
  by (induction wcs arbitrary: s) (simp_all add: reap_one_effect)

lemma quiet_note_latency: "quiet s (foldl (efa_note_latency t) s wcs)"
proof (induction wcs arbitrary: s)
  case (Cons wc wcs)
  have "quiet s (efa_note_latency t s wc)" by (simp add: efa_note_latency_def quiet_def Let_def)
  then show ?case using Cons.IH quiet_trans by fastforce
qed simp

lemma balanced_reap: "balanced s (efa_reap W s)"
proof -
  obtain wcs s1 where p: "efa_poll_cq s = (wcs, s1)" by fastforce
  have s1: "e_inflight s1 = e_inflight s \<and> e_mode s1 = e_mode s \<and> e_cfg s1 = e_cfg s \<and> e_posts s1 = e_posts s"
    "polls_credit (e_mode s) (e_cq s) = (\<Sum>wc \<leftarrow> wcs. wc_credit (e_mode s) wc) + polls_credit (e_mode s) (e_cq s1)"
    using p by (auto simp: efa_poll_cq_def polls_credit_def split: list.splits)
  obtain s2 where r: "efa_reap W s = foldl efa_reap_one s2 wcs" and q: "quiet s1 s2"
  proof (cases "wcs = []")
    case True
    then show ?thesis using that[of s1] p by (simp add: efa_reap_def)
  next
    case False
    define u2 where "u2 = (let (t, u) = efa_clock W s1;
        u1 = (if \<not> recorded (e_ts u) then u\<lparr>e_ts := (e_ts u)\<lparr>ts_first_completion_ns := t, recorded := True\<rparr>\<rparr> else u)
      in u1\<lparr>e_completion_ns := e_completion_ns u1 @ [t]\<rparr>)"
    have "quiet s1 u2" by (simp add: u2_def quiet_def efa_clock_def Let_def)
    moreover have "efa_reap W s = foldl efa_reap_one (foldl (efa_note_latency (ew_clock W (e_ticks s1))) u2 wcs) wcs"
      using p False by (simp add: efa_reap_def u2_def efa_clock_def Let_def)
    ultimately show ?thesis using that quiet_note_latency quiet_trans by blast
  qed
  show ?thesis
    using s1 q reap_fold_effect[of s2 wcs] r
    by (simp add: balanced_def efa_ledger_def quiet_def barriers_drained_def)
qed

lemma balanced_loop_body:
  assumes "efa_loop_body W pz s = Some s'"
  shows "balanced s s'"
proof -
  consider (gate) "pz" | (barrier) "\<not> pz" "e_has_pending_barrier s \<and> e_retry s = [] \<and> \<not> e_has_pending_cmd s"
    | (work) "\<not> pz" "\<not> (e_has_pending_barrier s \<and> e_retry s = [] \<and> \<not> e_has_pending_cmd s)" by blast
  then show ?thesis
  proof cases
    case gate
    then show ?thesis using assms quiet_balanced[OF quiet_gate] by (auto simp: efa_loop_body_def)
  next
    case barrier
    define t where "t = s\<lparr>e_has_pending_barrier := False\<rparr>"
    have "balanced s t" by (rule quiet_balanced) (simp add: t_def quiet_def)
    moreover obtain n s1 where d: "efa_drain_cq t = Some (n, s1)" and s': "s' = efa_post_stage_barrier W 0 (ec_epoch (e_cfg s1)) s1"
      using assms barrier by (auto simp: efa_loop_body_def t_def split: option.splits)
    ultimately show ?thesis using balanced_drained_barrier[OF d] balanced_trans by blast
  next
    case work
    then obtain b q s1 where g: "efa_gather W s = Some (b, q, s1)"
      using assms by (auto simp: efa_loop_body_def split: option.splits)
    define s2 where "s2 = efa_note_loop (e_inflight s) (length b) s1"
    define r where "r = (if b \<noteq> [] then efa_post_batch W b q s2 else (False, s2))"
    have s': "s' = efa_advance (fst r) (efa_reap W (snd r))"
      using assms work g unfolding efa_loop_body_def Let_def s2_def r_def
      by (cases "b = []") (simp_all add: split_beta)
    have "balanced s s2" using balanced_gather[OF g] quiet_balanced[OF quiet_note_loop] balanced_trans unfolding s2_def by blast
    moreover have "balanced s2 (snd r)" by (simp add: r_def balanced_post_batch)
    ultimately have "balanced s (snd r)" by (rule balanced_trans)
    then have "balanced s (efa_reap W (snd r))" using balanced_reap balanced_trans by blast
    then show ?thesis unfolding s' using quiet_balanced[OF quiet_advance] balanced_trans by blast
  qed
qed

lemma balanced_run:
  assumes "efa_run W ins s = Some s'"
  shows "balanced s s'"
  using assms
proof (induction W ins s rule: efa_run.induct)
  case (2 W p cmds ins s)
  define t where "t = s\<lparr>e_fifos := efa_gpu_pushes cmds (e_fifos s)\<rparr>"
  obtain u where u: "efa_loop_body W p t = Some u" "efa_run W ins u = Some s'"
    using "2.prems" by (auto simp: t_def split: option.splits)
  have "balanced s t" by (rule quiet_balanced) (simp add: t_def quiet_def)
  then show ?case
    using balanced_loop_body[OF u(1)] "2.IH"[of u] u balanced_trans unfolding t_def by blast
qed simp

end
