(* ===== verification/Proxy_EFA_Loop.thy ===== *)
theory Proxy_EFA_Loop
  imports Proxy_EFA_Ledger
begin

text \<open>
  Lemmas and properties of the EFA proxy loop: what a gathered batch holds (\<open>grouped\<close>), the fuel
  of the collection loop, the byte order of the immediate, the payloads of the staging ring
  against the plan \<open>flag_plan\<close>, the limit against the send queues, and the order of barriers.
\<close>

section \<open>One endpoint per batch\<close>

definition grouped :: "EfaConfig \<Rightarrow> TransferCmd list \<Rightarrow> int \<Rightarrow> bool" where
  "grouped c b q \<longleftrightarrow> length b \<le> 8 \<and>
     (\<forall>cmd \<in> set b. cmd_type cmd = WRITE \<and> map_to_local_qp c cmd = q \<and> dst_rank cmd = dst_rank (hd b))"

definition stash_ok :: "EfaProxy \<Rightarrow> bool" where
  "stash_ok s \<longleftrightarrow> (e_has_pending_cmd s \<longrightarrow> cmd_type (e_pending_cmd s) = WRITE)"

definition steady :: "EfaProxy \<Rightarrow> EfaProxy \<Rightarrow> bool" where
  "steady s t \<longleftrightarrow> e_cfg t = e_cfg s \<and> batch_cap t = batch_cap s \<and> e_retry t = e_retry s \<and>
     e_retry_qp t = e_retry_qp s \<and> (stash_ok s \<longrightarrow> stash_ok t)"

definition efa_ok :: "EfaProxy \<Rightarrow> bool" where
  "efa_ok s \<longleftrightarrow> batch_cap s \<le> 8 \<and> stash_ok s \<and> grouped (e_cfg s) (e_retry s) (e_retry_qp s)"

lemmas steady_simps = steady_def batch_cap_def stash_ok_def

lemma steady_refl [simp]: "steady s s"
  by (simp add: steady_def)

lemma steady_trans: "steady s t \<Longrightarrow> steady t u \<Longrightarrow> steady s u"
  by (simp add: steady_def)

lemma steady_ok: "steady s t \<Longrightarrow> efa_ok s \<Longrightarrow> efa_ok t"
  by (simp add: steady_def efa_ok_def)

lemma steady_poll: "steady s (snd (efa_poll_cmd s))"
  by (simp add: steady_simps efa_poll_cmd_def split: prod.splits)

lemma steady_stash: "cmd_type c = WRITE \<Longrightarrow> steady s (stash_cmd c s)"
  by (simp add: steady_simps stash_cmd_def)

lemma steady_drain: "efa_drain_cq s = Some (n, s') \<Longrightarrow> steady s s'"
  using drain_from_splits[of "e_cq s" 0 s n s'] by (force simp: efa_drain_cq_def steady_simps)

lemma steady_barrier: "steady s (efa_post_stage_barrier W slot tok s)"
proof -
  have one: "steady t (efa_barrier_to_peer W slot tok b p t)" for b p t
    by (simp add: efa_barrier_to_peer_def stage_word_def wr_complete_def steady_simps Let_def)
  have "steady s t \<Longrightarrow> steady s (fold (efa_barrier_to_peer W slot tok b) ps t)" for b ps t
  proof (induction ps arbitrary: t)
    case (Cons p ps)
    show ?case using Cons.IH[OF steady_trans[OF Cons.prems one]] by simp
  qed simp
  then show ?thesis by (simp add: efa_post_stage_barrier_def)
qed

lemma grouped_single: "cmd_type cmd = WRITE \<Longrightarrow> grouped c [cmd] (map_to_local_qp c cmd)"
  by (simp add: grouped_def)

lemma grouped_snoc:
  assumes "grouped c b q" "b \<noteq> []" "cmd_type cmd = WRITE" "same_lane_group c b q cmd" "length b < 8"
  shows "grouped c (b @ [cmd]) q"
proof -
  have "cmd_type x = WRITE \<and> map_to_local_qp c x = q \<and> dst_rank x = dst_rank (hd b)" if "x \<in> set (b @ [cmd])" for x
  proof -
    have "x = cmd \<or> x \<in> set b" using that by auto
    then show ?thesis using assms(1,3,4) unfolding grouped_def same_lane_group_def by blast
  qed
  moreover have "hd (b @ [cmd]) = hd b" "length (b @ [cmd]) \<le> 8" using assms(2,5) by simp_all
  ultimately show ?thesis unfolding grouped_def by metis
qed

lemma room_bound: "efa_room pre n s \<Longrightarrow> batch_cap s \<le> 8 \<Longrightarrow> n < 8"
  by (simp add: efa_room_def)

lemma collect_grouped:
  assumes "efa_collect W fuel pre batch bq s = Some (b, q, s')"
    and "batch_cap s \<le> 8" "grouped (e_cfg s) batch bq"
  shows "steady s s' \<and> grouped (e_cfg s) b q"
  using assms
proof (induction fuel arbitrary: batch bq s)
  case (Suc fuel)
  obtain r s1 where p: "efa_poll_cmd s = (r, s1)" by fastforce
  have q1: "steady s s1" using steady_poll[of s] p by simp
  show ?case
  proof (cases "\<not> efa_room pre (length batch) s \<or> r = None")
    case True
    then show ?thesis using Suc.prems p q1 by (auto split: if_splits)
  next
    case False
    then obtain cmd where r: "r = Some cmd" and room: "efa_room pre (length batch) s" by auto
    have len: "length batch < 8" using room_bound[OF room Suc.prems(2)] .
    have rec: "efa_collect W fuel pre b' q' t = Some (b, q, s') \<Longrightarrow> steady s1 t \<Longrightarrow> grouped (e_cfg s) b' q' \<Longrightarrow>
        steady s s' \<and> grouped (e_cfg s) b q" for b' q' t
      using Suc.IH[of b' q' t] Suc.prems(2) steady_trans[OF q1] unfolding steady_def by force
    have c1: "e_cfg s1 = e_cfg s" using q1 by (simp add: steady_def)
    consider (bar0) "cmd_type cmd = BARRIER_NOTIFY" "batch = []"
      | (bar1) "cmd_type cmd = BARRIER_NOTIFY" "batch \<noteq> []"
      | (skip) "cmd_type cmd \<noteq> BARRIER_NOTIFY" "cmd_type cmd \<noteq> WRITE \<or> map_to_local_qp (e_cfg s) cmd < 0"
      | (seed) "cmd_type cmd = WRITE" "\<not> map_to_local_qp (e_cfg s) cmd < 0" "batch = []"
      | (more) "cmd_type cmd = WRITE" "\<not> map_to_local_qp (e_cfg s) cmd < 0" "batch \<noteq> []" "same_lane_group (e_cfg s) batch bq cmd"
      | (other) "cmd_type cmd = WRITE" "\<not> map_to_local_qp (e_cfg s) cmd < 0" "batch \<noteq> []" "\<not> same_lane_group (e_cfg s) batch bq cmd"
      by (cases "cmd_type cmd") auto
    then show ?thesis
    proof cases
      case bar0
      then obtain n s2 where d: "efa_drain_cq s1 = Some (n, s2)"
          and c: "efa_collect W fuel pre batch bq (efa_post_stage_barrier W 0 (ec_epoch (e_cfg s2)) s2) = Some (b, q, s')"
        using Suc.prems(1) p r room by (auto split: option.splits)
      show ?thesis by (rule rec[OF c steady_trans[OF steady_drain[OF d] steady_barrier] Suc.prems(3)])
    next
      case bar1
      then have "s' = s1\<lparr>e_has_pending_barrier := True\<rparr>" "b = batch" "q = bq"
        using Suc.prems(1) p r room by auto
      moreover have "steady s1 (s1\<lparr>e_has_pending_barrier := True\<rparr>)" by (simp add: steady_simps)
      ultimately show ?thesis using q1 Suc.prems(3) steady_trans by blast
    next
      case skip
      then have "efa_collect W fuel pre batch bq s1 = Some (b, q, s')"
        using Suc.prems(1) p r room c1 by (auto split: if_splits)
      then show ?thesis by (rule rec) (simp_all add: Suc.prems(3))
    next
      case seed
      then have "efa_collect W fuel pre [cmd] (map_to_local_qp (e_cfg s) cmd) s1 = Some (b, q, s')"
        using Suc.prems(1) p r room c1 by auto
      then show ?thesis by (rule rec) (simp_all add: grouped_single seed)
    next
      case more
      then have "efa_collect W fuel pre (batch @ [cmd]) bq s1 = Some (b, q, s')"
        using Suc.prems(1) p r room c1 by auto
      then show ?thesis by (rule rec) (simp_all add: grouped_snoc more Suc.prems(3) len)
    next
      case other
      then have "s' = stash_cmd cmd s1" "b = batch" "q = bq"
        using Suc.prems(1) p r room c1 by auto
      then show ?thesis using steady_trans[OF q1 steady_stash[OF other(1)]] Suc.prems(3) by simp
    qed
  qed
qed simp

lemma accumulate_grouped:
  assumes "efa_accumulate n m pre batch bq s = (b, s')"
    and "batch_cap s \<le> 8" "grouped (e_cfg s) batch bq" "batch \<noteq> []"
  shows "steady s s' \<and> grouped (e_cfg s) b bq"
  using assms
proof (induction n arbitrary: m batch s)
  case (Suc n)
  obtain r s1 where p: "efa_poll_cmd s = (r, s1)" by fastforce
  have q1: "steady s s1" using steady_poll[of s] p by simp
  have c1: "e_cfg s1 = e_cfg s" and cap1: "batch_cap s1 = batch_cap s" using q1 by (simp_all add: steady_def)
  have rec: "efa_accumulate n m' pre b' bq s1 = (b, s') \<Longrightarrow> grouped (e_cfg s) b' bq \<Longrightarrow> b' \<noteq> [] \<Longrightarrow>
      steady s s' \<and> grouped (e_cfg s) b bq" for b' m'
    using Suc.IH[of m' b' s1] Suc.prems(2) cap1 c1 steady_trans[OF q1] by simp
  show ?case
  proof (cases "m \<ge> ACCUMULATE_MISS_BUDGET \<or> \<not> efa_room pre (length batch) s")
    case True
    then show ?thesis using Suc.prems by auto
  next
    case room: False
    have len: "length batch < 8" using room room_bound[OF _ Suc.prems(2)] by blast
    show ?thesis
    proof (cases r)
      case None
      then have "efa_accumulate n (m + 1) pre batch bq s1 = (b, s')" using Suc.prems(1) p room by auto
      then show ?thesis by (rule rec[OF _ Suc.prems(3,4)])
    next
      case (Some cmd)
      have fl: "steady s1 (s1\<lparr>e_has_pending_barrier := True\<rparr>)" by (simp add: steady_simps)
      consider (bar) "cmd_type cmd = BARRIER_NOTIFY"
        | (skip) "cmd_type cmd \<noteq> BARRIER_NOTIFY" "cmd_type cmd \<noteq> WRITE \<or> map_to_local_qp (e_cfg s) cmd < 0"
        | (more) "cmd_type cmd = WRITE" "\<not> map_to_local_qp (e_cfg s) cmd < 0" "same_lane_group (e_cfg s) batch bq cmd"
        | (other) "cmd_type cmd = WRITE" "\<not> map_to_local_qp (e_cfg s) cmd < 0" "\<not> same_lane_group (e_cfg s) batch bq cmd"
        by (cases "cmd_type cmd") auto
      then show ?thesis
      proof cases
        case bar
        then have "s' = s1\<lparr>e_has_pending_barrier := True\<rparr>" "b = batch" using Suc.prems(1) p Some room by auto
        then show ?thesis using q1 fl Suc.prems(3) steady_trans by blast
      next
        case skip
        then have "efa_accumulate n 0 pre batch bq s1 = (b, s')"
          using Suc.prems(1) p Some room c1 by (auto split: if_splits)
        then show ?thesis by (rule rec[OF _ Suc.prems(3,4)])
      next
        case more
        then have "efa_accumulate n 0 pre (batch @ [cmd]) bq s1 = (b, s')"
          using Suc.prems(1) p Some room c1 by auto
        then show ?thesis by (rule rec) (simp_all add: grouped_snoc more Suc.prems(3,4) len)
      next
        case other
        then have "s' = stash_cmd cmd s1" "b = batch" using Suc.prems(1) p Some room c1 by auto
        then show ?thesis using steady_trans[OF q1 steady_stash[OF other(1)]] Suc.prems(3) by simp
      qed
    qed
  qed
qed simp

lemma steady_note_head: "steady s (efa_note_head b s)"
  by (simp add: steady_simps efa_note_head_def)

lemma steady_rotate: "steady s (efa_rotate s)"
  by (simp add: steady_simps efa_rotate_def)

lemma seed_grouped:
  assumes "efa_seed pre s = (b, q, s')" "stash_ok s"
  shows "steady s s' \<and> grouped (e_cfg s) b q"
  using assms by (auto simp: efa_seed_def steady_simps grouped_def Let_def split: if_splits)

lemma gather_grouped:
  assumes "efa_gather W s = Some (b, q, s')" "efa_ok s"
  shows "steady s s' \<and> grouped (e_cfg s) b q"
proof (cases "e_retry s = []")
  case True
  define s1 where "s1 = efa_rotate s"
  have ok: "batch_cap s \<le> 8" "stash_ok s" using assms(2) by (auto simp: efa_ok_def)
  have st1: "steady s s1" by (simp add: s1_def steady_rotate)
  then have c1: "e_cfg s1 = e_cfg s" "stash_ok s1" using ok by (simp_all add: steady_def)
  obtain b0 q0 s2 where sd: "efa_seed (e_inflight s) s1 = (b0, q0, s2)" by (metis prod_cases3)
  have st2: "steady s s2" and g0: "grouped (e_cfg s) b0 q0"
    using seed_grouped[OF sd c1(2)] steady_trans[OF st1] c1(1) by auto
  have k2: "e_cfg s2 = e_cfg s" "batch_cap s2 \<le> 8" using st2 ok by (simp_all add: steady_def)
  obtain b1 q1 s3 where c: "efa_collect W (Suc (length (triggers (e_fifos s2 ! efa_fifo s2)))) (e_inflight s) b0 q0 s2
      = Some (b1, q1, s3)"
    using assms(1) True sd unfolding efa_gather_def s1_def by (auto simp: Let_def split: option.splits)
  have st3: "steady s s3" and g1: "grouped (e_cfg s) b1 q1"
    using collect_grouped[OF c k2(2)] g0 k2(1) steady_trans[OF st2] by auto
  define s4 where "s4 = efa_note_head b1 s3"
  have st4: "steady s s4" unfolding s4_def by (rule steady_trans[OF st3 steady_note_head])
  have k4: "e_cfg s4 = e_cfg s" "batch_cap s4 \<le> 8" using st4 ok by (simp_all add: steady_def)
  obtain b2 s5 where a: "efa_accumulate (nat (spin_cap s4)) 0 (e_inflight s) b1 q1 s4 = (b2, s5)" by fastforce
  have "efa_gather W s = (if b1 \<noteq> [] \<and> int (length b1) < batch_cap s4 \<and> \<not> e_has_pending_cmd s4
      then Some (b2, q1, efa_note_head b2 s5) else Some (b1, q1, s4))"
    unfolding efa_gather_def Let_def s1_def[symmetric] sd prod.case c option.case s4_def[symmetric] a using True by simp
  then have e: "Some (b, q, s') = (if b1 \<noteq> [] \<and> int (length b1) < batch_cap s4 \<and> \<not> e_has_pending_cmd s4
      then Some (b2, q1, efa_note_head b2 s5) else Some (b1, q1, s4))" using assms(1) by metis
  consider (seeded) "s' = s4" "b = b1" "q = q1" | (more) "b1 \<noteq> []" "s' = efa_note_head b2 s5" "b = b2" "q = q1"
    using e by (cases "b1 \<noteq> [] \<and> int (length b1) < batch_cap s4 \<and> \<not> e_has_pending_cmd s4") (metis option.inject prod.inject)+
  then show ?thesis
  proof cases
    case seeded
    then show ?thesis using st4 g1 by simp
  next
    case more
    then show ?thesis
      using accumulate_grouped[OF a k4(2)] g1 k4(1) st4 steady_trans steady_note_head by metis
  qed
next
  case False
  then show ?thesis using assms by (auto simp add: efa_gather_def efa_ok_def)
qed

lemma note_posted_ok: "e_cfg (efa_note_posted t n s) = e_cfg s \<and> batch_cap (efa_note_posted t n s) = batch_cap s \<and>
    stash_ok (efa_note_posted t n s) = stash_ok s \<and> e_retry (efa_note_posted t n s) = []"
  by (simp add: efa_note_posted_def batch_cap_def stash_ok_def Let_def)

lemma steady_build: "steady s (snd (efa_build b q s))"
proof -
  have one: "steady t (snd (remote_flag_cmd qpn peer cmd t))" for t qpn peer cmd
    by (simp add: steady_simps remote_flag_cmd_def stage_word_def Let_def)
  have many: "steady t (snd (remote_flag_cmds qpn peer cmds t))" for t qpn peer cmds
  proof (induction cmds arbitrary: t)
    case (Cons cmd cmds)
    obtain ws s1 where r: "remote_flag_cmd qpn peer cmd t = (ws, s1)" by fastforce
    have "steady t s1" using one[of t qpn peer cmd] r by simp
    then show ?case using Cons.IH[of s1] r by (auto split: prod.splits intro: steady_trans)
  qed simp
  have "steady s (s\<lparr>e_staging := x\<rparr>)" for x by (simp add: steady_simps)
  then show ?thesis
    by (auto simp: efa_build_def Let_def post_remote_flag_batch_def post_write_imm_batch_def
        intro: many steady_trans)
qed

lemma post_batch_ok:
  assumes "efa_ok s" "grouped (e_cfg s) b q"
  shows "efa_ok (snd (efa_post_batch W b q s))"
proof -
  define s1 where "s1 = (if \<not> recorded (e_ts s)
     then let (t, u) = efa_clock W s in u\<lparr>e_ts := (e_ts u)\<lparr>ts_first_cmd_ns := t\<rparr>\<rparr> else s)"
  obtain ws s2 where bd: "efa_build b q s1 = (ws, s2)" by fastforce
  have "steady s s1" by (simp add: s1_def steady_simps efa_clock_def)
  then have st2: "steady s s2" using steady_build[of s1 b q] bd steady_trans by fastforce
  define s3 where "s3 = s2\<lparr>e_posts := e_posts s2 @ [\<lparr>ep_qp = nat q, ep_barrier = False, ep_wrs = ws,
      ep_ret = ew_ret W (length (e_posts s2)), ep_before = e_inflight s2\<rparr>]\<rparr>"
  have "steady s2 s3" by (simp add: s3_def steady_simps)
  then have st3: "steady s s3" using st2 steady_trans by blast
  have r: "efa_post_batch W b q s = (if ew_ret W (length (e_posts s2)) \<noteq> 0 then (False, s3\<lparr>e_retry := b, e_retry_qp := q\<rparr>)
      else (True, efa_note_posted (ew_clock W (e_ticks s3)) (length b) (s3\<lparr>e_ticks := Suc (e_ticks s3)\<rparr>)))"
    using bd by (simp add: efa_post_batch_def s1_def[symmetric] wr_complete_def s3_def efa_clock_def Let_def)
  have k: "e_cfg s3 = e_cfg s" "batch_cap s3 \<le> 8" "stash_ok s3" using st3 assms(1) by (simp_all add: steady_def efa_ok_def)
  show ?thesis
  proof (cases "ew_ret W (length (e_posts s2)) = 0")
    case True
    have "batch_cap (s3\<lparr>e_ticks := n\<rparr>) = batch_cap s3" "stash_ok (s3\<lparr>e_ticks := n\<rparr>) = stash_ok s3" for n
      by (simp_all add: batch_cap_def stash_ok_def)
    then show ?thesis using True k by (simp add: r efa_ok_def note_posted_ok grouped_def)
  next
    case False
    have "batch_cap (s3\<lparr>e_retry := b, e_retry_qp := q\<rparr>) = batch_cap s3" "stash_ok (s3\<lparr>e_retry := b, e_retry_qp := q\<rparr>) = stash_ok s3"
      by (simp_all add: batch_cap_def stash_ok_def)
    then show ?thesis using False k assms(2) by (simp add: r efa_ok_def)
  qed
qed

lemma steady_reap: "steady s (efa_reap W s)"
proof -
  have lat: "steady t (foldl (efa_note_latency n) t wcs)" for t n wcs
  proof (induction wcs arbitrary: t)
    case (Cons wc wcs)
    have "steady t (efa_note_latency n t wc)" by (simp add: efa_note_latency_def steady_simps Let_def)
    then show ?case using Cons.IH steady_trans by fastforce
  qed simp
  have one: "steady t (foldl efa_reap_one t wcs)" for t wcs
  proof (induction wcs arbitrary: t)
    case (Cons wc wcs)
    have "steady t (efa_reap_one t wc)" by (simp add: efa_reap_one_def steady_simps Let_def)
    then show ?case using Cons.IH steady_trans by fastforce
  qed simp
  obtain wcs s1 where p: "efa_poll_cq s = (wcs, s1)" by fastforce
  have q1: "steady s s1" using p by (auto simp: efa_poll_cq_def steady_simps split: list.splits)
  define u2 where "u2 = (let (t, u) = efa_clock W s1;
      u1 = (if \<not> recorded (e_ts u) then u\<lparr>e_ts := (e_ts u)\<lparr>ts_first_completion_ns := t, recorded := True\<rparr>\<rparr> else u)
    in u1\<lparr>e_completion_ns := e_completion_ns u1 @ [t]\<rparr>)"
  have "steady s1 u2" by (simp add: u2_def steady_simps efa_clock_def Let_def)
  moreover have "efa_reap W s = foldl efa_reap_one
      (if wcs = [] then s1 else foldl (efa_note_latency (ew_clock W (e_ticks s1))) u2 wcs) wcs"
    using p by (simp add: efa_reap_def u2_def efa_clock_def Let_def)
  moreover have "steady s (if wcs = [] then s1 else foldl (efa_note_latency n) u2 wcs)" for n
    using q1 lat[of u2 n wcs] steady_trans[OF steady_trans[OF q1]] calculation(1) by simp
  ultimately show ?thesis using one steady_trans by metis
qed

lemma loop_body_ok:
  assumes "efa_loop_body W pz s = Some s'" "efa_ok s"
  shows "efa_ok s'"
proof -
  consider (gate) "pz" | (barrier) "\<not> pz" "e_has_pending_barrier s \<and> e_retry s = [] \<and> \<not> e_has_pending_cmd s"
    | (work) "\<not> pz" "\<not> (e_has_pending_barrier s \<and> e_retry s = [] \<and> \<not> e_has_pending_cmd s)" by blast
  then show ?thesis
  proof cases
    case gate
    have "steady s (efa_gate W s)" by (simp add: efa_gate_def efa_clock_def steady_simps)
    then show ?thesis using assms gate steady_ok by (auto simp: efa_loop_body_def)
  next
    case barrier
    define t where "t = s\<lparr>e_has_pending_barrier := False\<rparr>"
    have "steady s t" by (simp add: t_def steady_simps)
    moreover obtain n s1 where d: "efa_drain_cq t = Some (n, s1)" and s': "s' = efa_post_stage_barrier W 0 (ec_epoch (e_cfg s1)) s1"
      using assms barrier by (auto simp: efa_loop_body_def t_def split: option.splits)
    ultimately show ?thesis using steady_drain[OF d] steady_barrier steady_trans steady_ok assms(2) by blast
  next
    case work
    then obtain b q s1 where g: "efa_gather W s = Some (b, q, s1)"
      using assms by (auto simp: efa_loop_body_def split: option.splits)
    define s2 where "s2 = efa_note_loop (e_inflight s) (length b) s1"
    define r where "r = (if b \<noteq> [] then efa_post_batch W b q s2 else (False, s2))"
    have s': "s' = efa_advance (fst r) (efa_reap W (snd r))"
      using assms work g unfolding efa_loop_body_def Let_def s2_def r_def
      by (cases "b = []") (simp_all add: split_beta)
    have gg: "steady s s1" "grouped (e_cfg s) b q" using gather_grouped[OF g assms(2)] by auto
    have "steady s1 s2" by (simp add: s2_def efa_note_loop_def steady_simps Let_def)
    then have st2: "steady s s2" using gg(1) steady_trans by blast
    then have "efa_ok s2" "grouped (e_cfg s2) b q" using gg(2) steady_ok assms(2) by (auto simp: steady_def)
    then have "efa_ok (snd r)" using post_batch_ok by (simp add: r_def)
    then have "efa_ok (efa_reap W (snd r))" using steady_reap steady_ok by blast
    moreover have "steady t (efa_advance x t)" for x t by (simp add: efa_advance_def steady_simps)
    ultimately show ?thesis unfolding s' using steady_ok by blast
  qed
qed

lemma run_ok:
  assumes "efa_run W ins s = Some s'" "efa_ok s"
  shows "efa_ok s'"
  using assms
proof (induction W ins s rule: efa_run.induct)
  case (2 W p cmds ins s)
  define t where "t = s\<lparr>e_fifos := efa_gpu_pushes cmds (e_fifos s)\<rparr>"
  obtain u where u: "efa_loop_body W p t = Some u" "efa_run W ins u = Some s'"
    using "2.prems"(1) by (auto simp: t_def split: option.splits)
  have "steady s t" by (simp add: t_def steady_simps)
  then have "efa_ok u" using loop_body_ok[OF u(1)] steady_ok "2.prems"(2) by blast
  then show ?case using "2.IH"[of u] u unfolding t_def by blast
qed simp

lemma new_efa_ok: "efa_ok (new_efa_proxy env c fs st arr cq)"
  by (simp add: efa_ok_def new_efa_proxy_def batch_cap_def stash_ok_def grouped_def BATCH_SIZE_MAX_def
      efa_BATCH_SIZE_def Let_def)

section \<open>The collection loop has fuel enough\<close>

definition same_ring :: "EfaProxy \<Rightarrow> EfaProxy \<Rightarrow> bool" where
  "same_ring s t \<longleftrightarrow> e_fifos t = e_fifos s \<and> efa_fifo t = efa_fifo s"

definition ring_here :: "EfaProxy \<Rightarrow> bool" where
  "ring_here s \<longleftrightarrow> efa_fifo s < length (e_fifos s) \<and> ring_ok (e_fifos s ! efa_fifo s)"

definition left :: "EfaProxy \<Rightarrow> nat" where
  "left s = ready (e_fifos s ! efa_fifo s)"

lemma same_ring_trans: "same_ring s t \<Longrightarrow> same_ring t u \<Longrightarrow> same_ring s u"
  by (simp add: same_ring_def)

lemma same_ring_drain: "efa_drain_cq s = Some (n, s') \<Longrightarrow> same_ring s s'"
  using drain_from_splits[of "e_cq s" 0 s n s'] by (force simp: efa_drain_cq_def same_ring_def efa_fifo_def)

lemma same_ring_barrier: "same_ring s (efa_post_stage_barrier W slot tok s)"
proof -
  have one: "same_ring t (efa_barrier_to_peer W slot tok b p t)" for b p t
    by (simp add: efa_barrier_to_peer_def stage_word_def wr_complete_def same_ring_def efa_fifo_def Let_def)
  have "same_ring s t \<Longrightarrow> same_ring s (fold (efa_barrier_to_peer W slot tok b) ps t)" for b ps t
  proof (induction ps arbitrary: t)
    case (Cons p ps)
    show ?case using Cons.IH[OF same_ring_trans[OF Cons.prems one]] by simp
  qed simp
  from this[of s] show ?thesis by (simp add: efa_post_stage_barrier_def same_ring_def)
qed

lemma poll_cmd_some:
  assumes "efa_poll_cmd s = (Some cmd, s1)" "ring_here s"
  shows "ring_here s1 \<and> Suc (left s1) = left s"
proof -
  obtain o' g where p: "poll (e_fifos s ! efa_fifo s) = (o', g)" by fastforce
  then obtain ws where o': "o' = Some ws" and s1: "s1 = s\<lparr>e_fifos := (e_fifos s)[efa_fifo s := g]\<rparr>"
    using assms(1) by (auto simp: efa_poll_cmd_def)
  have f: "efa_fifo s1 = efa_fifo s" by (simp add: s1 efa_fifo_def)
  show ?thesis
    using poll_some(1,2)[of "e_fifos s ! efa_fifo s" ws g] p o' assms(2) f
    by (simp add: ring_here_def left_def s1)
qed

lemma same_ring_left: "same_ring s t \<Longrightarrow> left t = left s \<and> ring_here t = ring_here s"
  by (simp add: same_ring_def left_def ring_here_def)

text \<open>More fuel than the ring has committed records does not change the result.\<close>

lemma collect_fuel:
  assumes "ring_here s" "left s < fuel"
  shows "efa_collect W (fuel + k) pre b q s = efa_collect W fuel pre b q s"
  using assms
proof (induction fuel arbitrary: b q s)
  case (Suc fuel)
  obtain r s1 where p: "efa_poll_cmd s = (r, s1)" by fastforce
  show ?case
  proof (cases r)
    case None
    then show ?thesis using p by simp
  next
    case (Some cmd)
    have n: "ring_here s1" "left s1 < fuel" using poll_cmd_some[of s cmd s1] p Some Suc.prems by auto
    have rec: "efa_collect W (fuel + k) pre b' q' t = efa_collect W fuel pre b' q' t" if "same_ring s1 t" for b' q' t
      using Suc.IH[of t b' q'] same_ring_left[OF that] n by simp
    have r1: "same_ring s1 s1" by (simp add: same_ring_def)
    have "same_ring s1 (efa_post_stage_barrier W 0 tok s2)" if "efa_drain_cq s1 = Some (m, s2)" for m s2 tok
      using same_ring_trans[OF same_ring_drain[OF that] same_ring_barrier] .
    then show ?thesis using p Some rec r1 by (simp split: option.splits)
  qed
qed simp

definition barrier_free :: "D2HFifo \<Rightarrow> bool" where
  "barrier_free f \<longleftrightarrow> list_all (\<lambda>ws. type_byte (ws ! 0) \<noteq> cmd_byte BARRIER_NOTIFY) (triggers f)"

lemma read_barrier: "cmd_type (efa_read_cmd ws) = BARRIER_NOTIFY \<Longrightarrow> type_byte (ws ! 0) = cmd_byte BARRIER_NOTIFY"
  by (auto simp: efa_read_cmd_def words_cmd_def type_byte_def zero_cmd_def cmd_of_byte_def split: list.splits option.splits if_splits)

lemma barrier_free_poll:
  assumes "ring_ok f" "barrier_free f" "poll f = (Some ws, g)"
  shows "barrier_free g \<and> cmd_type (efa_read_cmd ws) \<noteq> BARRIER_NOTIFY"
proof -
  let ?i = "slot_index f (cpu_head f)"
  have g: "g = (clear_slot f)\<lparr>cpu_head := cpu_head f + 1\<rparr>" and ws: "ws = triggers f ! ?i"
    using assms(3) by (auto simp: poll_def split: if_splits)
  have i: "?i < length (triggers f)" using ring_okD(1,4,5)[OF assms(1)] by simp
  then have "length (triggers f ! ?i) = 6" using assms(1) by (simp add: ring_ok_def)
  then have "type_byte (triggers g ! n ! 0) \<noteq> cmd_byte BARRIER_NOTIFY" if "n < length (triggers f)" for n
    using assms(2) that i unfolding barrier_free_def list_all_length
    by (cases "n = ?i") (simp_all add: g clear_slot_def store_word_def)
  moreover have "length (triggers g) = length (triggers f)" by (simp add: g clear_slot_def store_word_def)
  ultimately have "barrier_free g" unfolding barrier_free_def list_all_length by simp
  moreover have "cmd_type (efa_read_cmd ws) \<noteq> BARRIER_NOTIFY"
    using assms(2) i read_barrier[of ws] ws unfolding barrier_free_def list_all_length by blast
  ultimately show ?thesis by blast
qed

text \<open>Without barriers in the ring nothing is drained, and the loop returns.\<close>

lemma collect_returns:
  assumes "ring_here s" "left s < fuel" "barrier_free (e_fifos s ! efa_fifo s)"
  shows "efa_collect W fuel pre b q s \<noteq> None"
  using assms
proof (induction fuel arbitrary: b q s)
  case (Suc fuel)
  obtain r s1 where p: "efa_poll_cmd s = (r, s1)" by fastforce
  show ?case
  proof (cases r)
    case None
    then show ?thesis using p by simp
  next
    case (Some cmd)
    obtain ws g where po: "poll (e_fifos s ! efa_fifo s) = (Some ws, g)" and c: "cmd = efa_read_cmd ws"
        and s1: "s1 = s\<lparr>e_fifos := (e_fifos s)[efa_fifo s := g]\<rparr>"
      using p Some by (auto simp: efa_poll_cmd_def split: prod.splits)
    have nb: "barrier_free g" "cmd_type cmd \<noteq> BARRIER_NOTIFY"
      using barrier_free_poll[OF _ Suc.prems(3) po] Suc.prems(1) c by (auto simp: ring_here_def)
    have n: "ring_here s1" "left s1 < fuel" using poll_cmd_some[of s cmd s1] p Some Suc.prems by auto
    have "barrier_free (e_fifos s1 ! efa_fifo s1)" proof -
      have "efa_fifo s1 = efa_fifo s" by (simp add: s1 efa_fifo_def)
      then show ?thesis using nb(1) Suc.prems(1) by (simp add: s1 ring_here_def)
    qed
    then have "efa_collect W fuel pre b' q' s1 \<noteq> None" for b' q' using Suc.IH[OF n] by blast
    then show ?thesis using p Some nb(2) by (simp del: not_None_eq)
  qed
qed simp

section \<open>Byte order and limits\<close>

lemma byte_masks: "(0xFF :: u32) = mask 8" "(0xFF00 :: u32) = push_bit 8 (mask 8)"
  by (simp_all add: mask_eq_exp_minus_1 push_bit_eq_mult)

lemma bit_byte_swap:
  assumes "i < 32"
  shows "bit (byte_swap32 w) i \<longleftrightarrow>
    bit w (if i < 8 then i + 24 else if i < 16 then i + 8 else if i < 24 then i - 8 else i - 24)"
  using assms unfolding byte_swap32_def byte_masks
  by (auto simp: bit_or_iff bit_and_iff bit_push_bit_iff bit_drop_bit_eq bit_mask_iff not_less add.commute)

lemma byte_swap_swap [simp]: "byte_swap32 (byte_swap32 w) = w"
proof (rule bit_word_eqI)
  fix i assume "i < LENGTH(32)"
  then have i: "i < 32" by simp
  then consider "i < 8" | "8 \<le> i" "i < 16" | "16 \<le> i" "i < 24" | "24 \<le> i" by linarith
  then show "bit (byte_swap32 (byte_swap32 w)) i = bit w i" using i
    by cases (simp add: bit_byte_swap, simp add: bit_byte_swap, simp add: bit_byte_swap less_diff_conv2,
        simp add: bit_byte_swap less_diff_conv2)
qed

lemma efa_cap_pos: "0 < efa_per_qp_cap m c"
proof -
  have "0 < (if x \<le> 0 then 1 else x)" for x :: int by simp
  then show ?thesis unfolding efa_per_qp_cap_def Let_def by blast
qed

lemma efa_cap_fits:
  assumes "m = RemoteFlag" "4 \<le> ec_sq_depth c \<or> ec_sq_depth c \<le> 0"
  shows "4 * efa_per_qp_cap m c \<le> (if ec_sq_depth c > 0 then ec_sq_depth c else SRD_SQ_DEPTH)"
proof -
  define d where "d = (if ec_sq_depth c > 0 then ec_sq_depth c else SRD_SQ_DEPTH)"
  have d: "4 \<le> d" using assms(2) by (auto simp: d_def SRD_SQ_DEPTH_def)
  then have q: "c_div d 4 = d div 4" by simp
  have "1 \<le> d div 4" "4 * (d div 4) \<le> d" using d by linarith+
  then show ?thesis
    unfolding efa_per_qp_cap_def Let_def d_def[symmetric] q using assms(1)
    by (auto simp: efa_BATCH_SIZE_def min_def)
qed

section \<open>Barrier fan-out\<close>

lemma stage_word_simps [simp]:
  "fst (stage_word v s) = unat (e_cursor s mod ec_staging_count (e_cfg s))"
  "e_cursor (snd (stage_word v s)) = e_cursor s + 1"
  "e_staging (snd (stage_word v s)) = (e_staging s)[unat (e_cursor s mod ec_staging_count (e_cfg s)) := v]"
  "e_cfg (snd (stage_word v s)) = e_cfg s" "e_posts (snd (stage_word v s)) = e_posts s"
  by (simp_all add: stage_word_def Let_def)

lemma barrier_fold_posts:
  "map (\<lambda>p. (ep_qp p, map (\<lambda>w. (ew_remote_addr w, ew_ah w, ew_qpn w)) (ep_wrs p)))
     (e_posts (fold (efa_barrier_to_peer W slot tok b) ps s)) =
   map (\<lambda>p. (ep_qp p, map (\<lambda>w. (ew_remote_addr w, ew_ah w, ew_qpn w)) (ep_wrs p))) (e_posts s) @
   map (\<lambda>peer. (0, [(pp_remote_barrier_addr peer + word_of_int slot * 4, pp_dst_ah peer, pp_dst_qpns peer ! 0)]))
     (filter (\<lambda>peer. pp_remote_barrier_addr peer \<noteq> 0) ps)"
proof (induction ps arbitrary: s)
  case (Cons peer ps)
  show ?case
    unfolding fold_simps Cons.IH
    by (simp add: efa_barrier_to_peer_def wr_complete_def split_beta Let_def)
qed simp

section \<open>Payloads of the staging ring\<close>

definition staged_per_cmd :: "EfaConfig \<Rightarrow> PerPeerProxyData \<Rightarrow> nat" where
  "staged_per_cmd c peer = (if efa_has_tail c peer then 2 else 1)"

fun flag_plan :: "EfaConfig \<Rightarrow> PerPeerProxyData \<Rightarrow> nat \<Rightarrow> u32 list \<Rightarrow> TransferCmd list \<Rightarrow> (TransferCmd \<times> nat \<times> u32) list" where
  "flag_plan c peer cur seqs [] = []"
| "flag_plan c peer cur seqs (cmd # cmds) =
     (let lq = unat (efa_logical_queue c cmd)
      in (cmd, cur, seqs ! lq) # flag_plan c peer (cur + staged_per_cmd c peer) (seqs[lq := seqs ! lq + 1]) cmds)"

definition flag_segment :: "EfaConfig \<Rightarrow> u32 \<Rightarrow> PerPeerProxyData \<Rightarrow> TransferCmd \<times> nat \<times> u32 \<Rightarrow> efa_wr list" where
  "flag_segment c qpn peer = (\<lambda>(cmd, cur, q).
     let n = unat (ec_staging_count c); lq = efa_logical_queue c cmd;
         mk = (\<lambda>wid a k e. \<lparr>ew_id = wid, ew_op = EfaWrite, ew_remote_addr = a, ew_rkey = k,
                 ew_ah = pp_dst_ah peer, ew_qpn = qpn, ew_sge = e\<rparr>);
         data = mk 0 (pp_remote_data_addr peer + remote_offset cmd) (pp_remote_data_rkey peer) (efa_data_sge c cmd)
     in if efa_has_tail c peer
        then [data, mk 0 (efa_slot_addr c peer lq q) (pp_remote_flags_rkey peer) (efa_staging_sge c (cur mod n)),
              mk 1 (pp_remote_tail_addr peer + ucast lq * 4) (pp_remote_tail_rkey peer) (efa_staging_sge c ((cur + 1) mod n))]
        else [data, mk 1 (efa_slot_addr c peer lq q) (pp_remote_flags_rkey peer) (efa_staging_sge c (cur mod n))])"

definition staged_ok :: "EfaConfig \<Rightarrow> PerPeerProxyData \<Rightarrow> u32 list \<Rightarrow> TransferCmd \<times> nat \<times> u32 \<Rightarrow> bool" where
  "staged_ok c peer st = (\<lambda>(cmd, cur, q). let n = unat (ec_staging_count c) in
     st ! (cur mod n) = pack_arrival_work (tile_id cmd) (run_tiles (bytes cmd)) \<and>
     (efa_has_tail c peer \<longrightarrow> st ! ((cur + 1) mod n) = q + 1))"

lemma mod_window_distinct:
  assumes "(a :: nat) < b" "b < a + n"
  shows "a mod n \<noteq> b mod n"
proof
  assume "a mod n = b mod n"
  then have "n dvd b - a" using assms(1) mod_eq_dvd_iff_nat[of a b n] by simp
  then show False using assms dvd_imp_le[of n "b - a"] by auto
qed

lemma cursor_slot:
  "unat (e_cursor s mod ec_staging_count (e_cfg s)) = unat (e_cursor s) mod unat (ec_staging_count (e_cfg s))"
  by (rule unat_mod)

lemma unat_cursor_add:
  assumes "unat (x :: u32) + m < 2 ^ 32"
  shows "unat (x + of_nat m) = unat x + m"
  using assms by (simp add: unat_word_ariths unat_of_nat)

lemma remote_flag_cmd_queue:
  assumes "ec_use_arrival_queue c" "e_cfg s = c" "unat (e_cursor s) + 2 < 2 ^ 32"
    and n: "n = unat (ec_staging_count c)" and cu: "cu = unat (e_cursor s)" and lq: "lq = unat (efa_logical_queue c cmd)"
  shows "remote_flag_cmd qpn peer cmd s = (flag_segment c qpn peer (cmd, cu, e_sender_seq s ! lq),
     s\<lparr>e_cursor := e_cursor s + of_nat (staged_per_cmd c peer),
       e_sender_seq := (e_sender_seq s)[lq := e_sender_seq s ! lq + 1],
       e_staging := (let st = (e_staging s)[cu mod n := pack_arrival_work (tile_id cmd) (run_tiles (bytes cmd))]
         in if efa_has_tail c peer then st[(cu + 1) mod n := e_sender_seq s ! lq + 1] else st)\<rparr>)"
proof -
  have "unat (e_cursor s + 1) = cu + 1" using unat_cursor_add[of "e_cursor s" 1] assms(3) cu by simp
  then have t: "unat ((e_cursor s + 1) mod ec_staging_count c) = (cu + 1) mod n" by (simp add: unat_mod n)
  have f: "unat (e_cursor s mod ec_staging_count c) = cu mod n" by (simp add: unat_mod n cu)
  show ?thesis
    using assms(1,2)
    by (simp add: remote_flag_cmd_def flag_segment_def stage_word_def staged_per_cmd_def Let_def lq[symmetric] f t n[symmetric])
qed

text \<open>A word staged less than a whole ring before the batch is still there after it.\<close>

lemma remote_flag_cmds_keep:
  assumes "remote_flag_cmds qpn peer b s = (ws, s')" "ec_use_arrival_queue (e_cfg s)"
    and "unat (e_cursor s) + 2 * length b < 2 ^ 32" "a < unat (e_cursor s)"
    and "unat (e_cursor s) + staged_per_cmd (e_cfg s) peer * length b \<le> a + unat (ec_staging_count (e_cfg s))"
  shows "e_staging s' ! (a mod unat (ec_staging_count (e_cfg s))) = e_staging s ! (a mod unat (ec_staging_count (e_cfg s)))"
  using assms
proof (induction b arbitrary: s ws)
  case (Cons cmd b)
  define c where "c = e_cfg s"
  define n where "n = unat (ec_staging_count c)"
  define k where "k = staged_per_cmd c peer"
  define cu where "cu = unat (e_cursor s)"
  have k: "k = 1 \<or> k = 2" by (simp add: k_def staged_per_cmd_def)
  obtain w1 s1 where r: "remote_flag_cmd qpn peer cmd s = (w1, s1)" by fastforce
  obtain w2 where r2: "remote_flag_cmds qpn peer b s1 = (w2, s')" using Cons.prems(1) r by (auto split: prod.splits)
  have "unat (e_cursor s) + 2 < 2 ^ 32" using Cons.prems(3) by simp
  note one = remote_flag_cmd_queue[OF Cons.prems(2) refl this refl refl refl, of qpn peer cmd, unfolded r, folded c_def, folded n_def cu_def k_def]
  have c1: "e_cfg s1 = c" using one by (simp add: c_def)
  have cu1: "unat (e_cursor s1) = cu + k" using one unat_cursor_add[of "e_cursor s" k] Cons.prems(3) k by (auto simp: cu_def)
  have room: "cu + k * Suc (length b) \<le> a + n" "a < cu"
    using Cons.prems(4,5) by (simp_all add: cu_def n_def c_def k_def)
  have "e_staging s' ! (a mod n) = e_staging s1 ! (a mod n)"
    using Cons.IH[OF r2, unfolded c1, folded n_def k_def, unfolded cu1] Cons.prems(2,3) room k by (auto simp: c_def cu_def)
  moreover have "a mod n \<noteq> cu mod n" using mod_window_distinct[of a cu n] room k by auto
  moreover have "a mod n \<noteq> (cu + 1) mod n" if "k = 2" using mod_window_distinct[of a "cu + 1" n] room that by auto
  ultimately have "e_staging s' ! (a mod n) = e_staging s ! (a mod n)"
    using one by (auto simp: Let_def k_def staged_per_cmd_def split: if_splits)
  then show ?case by (simp add: n_def c_def)
qed simp

lemma remote_flag_cmds_payloads:
  assumes "remote_flag_cmds qpn peer b s = (ws, s')" "ec_use_arrival_queue (e_cfg s)" "e_cfg s = c"
    and "unat (e_cursor s) + 2 * length b < 2 ^ 32" "length (e_staging s) = unat (ec_staging_count c)"
    and "staged_per_cmd c peer * length b \<le> unat (ec_staging_count c)"
  shows "ws = concat (map (flag_segment c qpn peer) (flag_plan c peer (unat (e_cursor s)) (e_sender_seq s) b)) \<and>
    list_all (staged_ok c peer (e_staging s')) (flag_plan c peer (unat (e_cursor s)) (e_sender_seq s) b)"
  using assms
proof (induction b arbitrary: s ws)
  case (Cons cmd b)
  define n where "n = unat (ec_staging_count c)"
  define k where "k = staged_per_cmd c peer"
  define cu where "cu = unat (e_cursor s)"
  define q where "q = e_sender_seq s ! unat (efa_logical_queue c cmd)"
  have k: "k = 1 \<or> k = 2" by (simp add: k_def staged_per_cmd_def)
  obtain w1 s1 where r: "remote_flag_cmd qpn peer cmd s = (w1, s1)" by fastforce
  obtain w2 where r2: "remote_flag_cmds qpn peer b s1 = (w2, s')" and ws: "ws = w1 @ w2"
    using Cons.prems(1) r by (auto split: prod.splits)
  have uq: "ec_use_arrival_queue c" using Cons.prems(2,3) by simp
  have "unat (e_cursor s) + 2 < 2 ^ 32" using Cons.prems(4) by simp
  note one = remote_flag_cmd_queue[OF uq Cons.prems(3) this refl refl refl, of qpn peer cmd, unfolded r, folded n_def cu_def k_def q_def]
  have c1: "e_cfg s1 = c" and len1: "length (e_staging s1) = n" and n0: "0 < n"
    using one Cons.prems(3,5,6) k by (auto simp: Let_def n_def k_def)
  have cu1: "unat (e_cursor s1) = cu + k" using one unat_cursor_add[of "e_cursor s" k] Cons.prems(4) k by (auto simp: cu_def)
  have kb: "k * Suc (length b) \<le> n" using Cons.prems(6) by (simp add: k_def n_def)
  have bound: "unat (e_cursor s1) + 2 * length b < 2 ^ 32" using Cons.prems(4) cu1 k by (auto simp: cu_def)
  have rest: "w2 = concat (map (flag_segment c qpn peer) (flag_plan c peer (cu + k) (e_sender_seq s1) b)) \<and>
      list_all (staged_ok c peer (e_staging s')) (flag_plan c peer (cu + k) (e_sender_seq s1) b)"
    using Cons.IH[OF r2] c1 uq bound len1 kb cu1 by (simp add: n_def k_def)
  have keep: "e_staging s' ! (a mod n) = e_staging s1 ! (a mod n)" if "cu \<le> a" "a < cu + k" for a
    using remote_flag_cmds_keep[OF r2, unfolded c1, folded n_def k_def, OF uq bound, of a] cu1 kb that by simp
  have st1: "staged_ok c peer (e_staging s1) (cmd, cu, q)"
  proof -
    have "cu mod n \<noteq> (cu + 1) mod n" if "k = 2" using mod_window_distinct[of cu "cu + 1" n] kb that by simp
    moreover have "cu mod n < length (e_staging s)" "(cu + 1) mod n < length (e_staging s)"
      using n0 Cons.prems(5) by (simp_all add: n_def)
    ultimately show ?thesis using one
      by (auto simp: staged_ok_def Let_def n_def[symmetric] k_def staged_per_cmd_def split: if_splits)
  qed
  have "staged_ok c peer (e_staging s') (cmd, cu, q)"
    using st1 keep[of cu] keep[of "cu + 1"] k
    by (auto simp: staged_ok_def Let_def n_def[symmetric] k_def staged_per_cmd_def split: if_splits)
  then show ?case using ws one rest by (simp add: cu_def[symmetric] q_def[symmetric] k_def[symmetric] Let_def)
qed simp

section \<open>Properties\<close>

definition demo_peer :: PerPeerProxyData where
  "demo_peer = \<lparr>pp_dst_ah = 1, pp_dst_qpns = replicate 24 9, pp_remote_data_addr = 0x100000, pp_remote_data_rkey = 3,
     pp_remote_flags_addr = 0x200000, pp_remote_flags_rkey = 5, pp_remote_tail_addr = 0x300000, pp_remote_tail_rkey = 6,
     pp_remote_barrier_addr = 0x400000, pp_remote_barrier_rkey = 7\<rparr>"

definition demo_efa_config :: EfaConfig where
  "demo_efa_config = \<lparr>ec_num_fifos = 1, ec_num_qps = 1, ec_qp_base_idx = 0, ec_global_num_qps = 1,
     ec_logical_queues_per_qp = 1, ec_local_data_addr = 0x1000, ec_local_data_lkey = 1, ec_clocal_data_addr = 0x2000,
     ec_clocal_data_lkey = 2, ec_direct_dmabuf_enabled = False, ec_has_local_arrival = True,
     ec_local_arrival_count = 16, ec_staging_ok = True, ec_staging_addr = 0x5000, ec_staging_lkey = 4,
     ec_staging_count = 8, ec_use_arrival_queue = True, ec_remote_queue_stride = 32, ec_enable_remote_tail = True,
     ec_epoch = 5, ec_max_inflight = 4, ec_sq_depth = 0, ec_pipeline_enabled = False,
     ec_per_peer = [demo_peer], ec_peer_slot_by_rank = None\<rparr>"

definition demo_ring4 :: D2HFifo where
  "demo_ring4 = \<lparr>triggers = replicate 4 (replicate 6 0), head = 0, tail = 0, tail_cache = 0, capacity = 4, cpu_head = 0\<rparr>"

definition demo_efa_world :: efa_world where
  "demo_efa_world = \<lparr>ew_ret = (\<lambda>_. 0), ew_clock = of_nat\<rparr>"

definition demo_efa :: EfaProxy where
  "demo_efa = new_efa_proxy (Some ''remote_flag'') demo_efa_config [demo_ring4] (replicate 8 0) (replicate 16 0)
     [[], [\<lparr>ewc_wr_id = 1, ewc_opcode = WC_OTHER, ewc_imm = 0\<rparr>, \<lparr>ewc_wr_id = 1, ewc_opcode = WC_OTHER, ewc_imm = 0\<rparr>], []]"

definition demo_barrier_cmd :: TransferCmd where
  "demo_barrier_cmd = zero_cmd\<lparr>cmd_type := BARRIER_NOTIFY\<rparr>"

definition demo_efa_ins :: "(bool \<times> (nat \<times> TransferCmd) list) list" where
  "demo_efa_ins = [(False, [(0, demo_cmd), (0, demo_barrier_cmd), (0, demo_cmd\<lparr>tile_id := 8\<rparr>)]), (False, [])]"

text \<open>
  A write that the GPU pushed after a barrier is posted before it: the accumulate phase goes on
  with the ring after the seeding loop has stopped at the barrier.
\<close>

lemma late_write_overtakes_barrier:
  "map_option (\<lambda>s. (map (\<lambda>p. (ep_barrier p, map ew_remote_addr (ep_wrs p), ep_before p)) (e_posts s), e_inflight s, e_cq s))
     (efa_run demo_efa_world demo_efa_ins demo_efa) =
   Some ([(False, [0x101000, 0x200000, 0x300000, 0x101000, 0x200004, 0x300000], 0), (True, [0x400000], 0)], 1, [[]])"
  by code_simp

definition demo_efa_loaded :: EfaProxy where
  "demo_efa_loaded = new_efa_proxy (Some ''remote_flag'') demo_efa_config [demo_ring4\<lparr>triggers := [cmd_words demo_cmd], capacity := 1\<rparr>]
     (replicate 8 0) (replicate 16 0) []"

lemma demo_efa_runs: "\<exists>s. efa_run demo_efa_world demo_efa_ins demo_efa = Some s \<and> length (e_posts s) = 2 \<and> ep_barrier (e_posts s ! 1)"
proof -
  obtain s where s: "efa_run demo_efa_world demo_efa_ins demo_efa = Some s"
    and m: "map ep_barrier (e_posts s) = [False, True]"
  proof -
    let ?f = "\<lambda>s. (map (\<lambda>p. (ep_barrier p, map ew_remote_addr (ep_wrs p), ep_before p)) (e_posts s), e_inflight s, e_cq s)"
    obtain s where s: "efa_run demo_efa_world demo_efa_ins demo_efa = Some s" "?f s = ([(False, [0x101000, 0x200000, 0x300000, 0x101000, 0x200004, 0x300000], 0), (True, [0x400000], 0)], 1, [[]])"
      using late_write_overtakes_barrier by (auto simp: map_option_eq_Some)
    then have "map fst (map (\<lambda>p. (ep_barrier p, map ew_remote_addr (ep_wrs p), ep_before p)) (e_posts s)) = [False, True]" by simp
    then show ?thesis using that s(1) by (simp add: o_def)
  qed
  have "length (e_posts s) = 2" using arg_cong[OF m, of length] by simp
  moreover have "ep_barrier (e_posts s ! 1)" using arg_cong[OF m, of "\<lambda>xs. xs ! 1"] calculation by simp
  ultimately show ?thesis using s by blast
qed

text \<open>
  C6 (invariant): over every run of the loop, whatever is pushed and whatever the posts return,
  the inflight count is the commands of the successful posts less what the consumed completions
  retired; \<open>polls_credit\<close> of the polls still ahead is what was not consumed.
\<close>

theorem efa_inflight_accounts:
  assumes "efa_run W ins (new_efa_proxy env c fs st arr cq) = Some s"
  shows "e_inflight s = (\<Sum>p \<leftarrow> e_posts s. post_credit p) -
    (polls_credit (detect_notify_mode env) cq - polls_credit (detect_notify_mode env) (e_cq s))"
proof -
  have "efa_ledger s = efa_ledger (new_efa_proxy env c fs st arr cq)" "e_mode s = detect_notify_mode env"
    using balanced_run[OF assms] by (simp_all add: balanced_def new_efa_proxy_def Let_def)
  then show ?thesis by (simp add: efa_ledger_def new_efa_proxy_def Let_def)
qed

theorem efa_inflight_accounts_witness:
  "\<exists>s. efa_run demo_efa_world demo_efa_ins demo_efa = Some s \<and>
    e_inflight s = (\<Sum>p \<leftarrow> e_posts s. post_credit p) -
      (polls_credit RemoteFlag (e_cq demo_efa) - polls_credit RemoteFlag (e_cq s))"
proof -
  obtain s where s: "efa_run demo_efa_world demo_efa_ins demo_efa = Some s" using demo_efa_runs by blast
  have d: "detect_notify_mode (Some ''remote_flag'') = RemoteFlag" "e_cq demo_efa =
     [[], [\<lparr>ewc_wr_id = 1, ewc_opcode = WC_OTHER, ewc_imm = 0\<rparr>, \<lparr>ewc_wr_id = 1, ewc_opcode = WC_OTHER, ewc_imm = 0\<rparr>], []]"
    by (simp_all add: detect_notify_mode_def demo_efa_def new_efa_proxy_def Let_def)
  show ?thesis using efa_inflight_accounts[OF s[unfolded demo_efa_def]] s unfolding d by blast
qed

text \<open>
  C5 (safety): a stage barrier leaves the proxy only when every command it had posted before has
  completed: each barrier request in the log of posts was issued with no command in flight.
\<close>

theorem efa_barrier_after_drain:
  assumes "efa_run W ins (new_efa_proxy env c fs st arr cq) = Some s" "p \<in> set (e_posts s)" "ep_barrier p"
  shows "ep_before p \<le> 0"
proof -
  have "barriers_drained (new_efa_proxy env c fs st arr cq)"
    by (simp add: barriers_drained_def new_efa_proxy_def Let_def)
  then have "barriers_drained s" using balanced_run[OF assms(1)] by (simp add: balanced_def)
  then show ?thesis using assms(2,3) by (simp add: barriers_drained_def)
qed

theorem efa_barrier_after_drain_witness:
  "\<exists>s p. efa_run demo_efa_world demo_efa_ins demo_efa = Some s \<and> p \<in> set (e_posts s) \<and> ep_barrier p \<and> ep_before p \<le> 0"
proof -
  obtain s where s: "efa_run demo_efa_world demo_efa_ins demo_efa = Some s" "length (e_posts s) = 2" "ep_barrier (e_posts s ! 1)"
    using demo_efa_runs by blast
  have m: "e_posts s ! 1 \<in> set (e_posts s)" using s(2) by simp
  show ?thesis using efa_barrier_after_drain[OF s(1)[unfolded demo_efa_def] m s(3)] s m by blast
qed

text \<open>
  C28 (functional): in every state a run reaches, the batch that is gathered next, a retried one
  included, fits the batch array and holds only writes that go to one queue pair and one peer, so
  the endpoint resolved from its first command is right for all of them.
\<close>

theorem efa_batch_single_endpoint:
  assumes "efa_run W ins (new_efa_proxy env c fs st arr cq) = Some s" "efa_gather W s = Some (b, q, t)" "cmd \<in> set b"
  shows "int (length b) \<le> efa_BATCH_SIZE \<and> cmd_type cmd = WRITE \<and> map_to_local_qp (e_cfg s) cmd = q \<and>
    resolve_peer_slot (e_cfg s) cmd = resolve_peer_slot (e_cfg s) (hd b)"
proof -
  have "grouped (e_cfg s) b q"
    using gather_grouped[OF assms(2) run_ok[OF assms(1) new_efa_ok]] by simp
  then have "length b \<le> 8" "cmd_type cmd = WRITE" "map_to_local_qp (e_cfg s) cmd = q" "dst_rank cmd = dst_rank (hd b)"
    using assms(3) unfolding grouped_def by blast+
  moreover from this(4) have "resolve_peer_slot (e_cfg s) cmd = resolve_peer_slot (e_cfg s) (hd b)"
    by (simp only: resolve_peer_slot_def)
  ultimately show ?thesis by (simp add: efa_BATCH_SIZE_def)
qed

lemma demo_efa_gather:
  "map_option (\<lambda>(b, q, t). (b, q)) (efa_gather demo_efa_world demo_efa_loaded) = Some ([demo_cmd], 0)"
  by code_simp

theorem efa_batch_single_endpoint_witness:
  "\<exists>b q t. efa_gather demo_efa_world demo_efa_loaded = Some (b, q, t) \<and> demo_cmd \<in> set b \<and>
    int (length b) \<le> efa_BATCH_SIZE \<and> map_to_local_qp (e_cfg demo_efa_loaded) demo_cmd = q"
proof -
  obtain t where g: "efa_gather demo_efa_world demo_efa_loaded = Some ([demo_cmd], 0, t)"
    using demo_efa_gather by auto
  have r: "efa_run demo_efa_world [] (new_efa_proxy (Some ''remote_flag'') demo_efa_config
      [demo_ring4\<lparr>triggers := [cmd_words demo_cmd], capacity := 1\<rparr>] (replicate 8 0) (replicate 16 0) []) = Some demo_efa_loaded"
    by (simp add: demo_efa_loaded_def)
  show ?thesis using efa_batch_single_endpoint[OF r g, of demo_cmd] g by auto
qed

text \<open>
  In the queue layout every command of a batch claims staging slots of its own, and
  when the batch is complete each slot still holds the word its write is to deliver: the packed
  arrival word of that command and, with tails, the queue's new tail.
\<close>

theorem efa_flag_payloads:
  assumes "remote_flag_cmds qpn peer b s = (ws, t)" "ec_use_arrival_queue (e_cfg s)"
    and "unat (e_cursor s) + 2 * length b < 2 ^ 32" "length (e_staging s) = unat (ec_staging_count (e_cfg s))"
    and "staged_per_cmd (e_cfg s) peer * length b \<le> unat (ec_staging_count (e_cfg s))"
  shows "ws = concat (map (flag_segment (e_cfg s) qpn peer)
      (flag_plan (e_cfg s) peer (unat (e_cursor s)) (e_sender_seq s) b)) \<and>
    list_all (staged_ok (e_cfg s) peer (e_staging t)) (flag_plan (e_cfg s) peer (unat (e_cursor s)) (e_sender_seq s) b)"
  by (rule remote_flag_cmds_payloads[OF assms(1,2) refl assms(3-5)])

theorem efa_flag_payloads_witness:
  "list_all (staged_ok demo_efa_config demo_peer (e_staging (snd (remote_flag_cmds 9 demo_peer [demo_cmd, demo_cmd] demo_efa))))
     (flag_plan demo_efa_config demo_peer 0 (replicate 384 0) [demo_cmd, demo_cmd])"
proof -
  have d: "e_cfg demo_efa = demo_efa_config" "e_cursor demo_efa = 0" "e_staging demo_efa = replicate 8 0"
    "e_sender_seq demo_efa = replicate 384 0"
    by (simp_all add: demo_efa_def new_efa_proxy_def efa_clamp_def demo_efa_config_def Let_def kMaxExchangeQPs_def)
  obtain ws t where r: "remote_flag_cmds 9 demo_peer [demo_cmd, demo_cmd] demo_efa = (ws, t)" by fastforce
  show ?thesis
    using efa_flag_payloads[OF r] unfolding r d
    by (simp add: demo_efa_config_def staged_per_cmd_def)
qed

text \<open>
  C30 (termination): one more turn than the ring has slots is enough for the collection loop. A
  larger allowance changes nothing, so only a drain that never completes can hold it, and with no
  barrier in the ring it returns a batch.
\<close>

theorem efa_collect_terminates:
  assumes "efa_fifo s < length (e_fifos s)" "ring_ok (e_fifos s ! efa_fifo s)"
    and fuel: "fuel = Suc (length (triggers (e_fifos s ! efa_fifo s)))"
  shows "efa_collect W (fuel + k) pre b q s = efa_collect W fuel pre b q s \<and>
    (barrier_free (e_fifos s ! efa_fifo s) \<longrightarrow> (\<exists>b' q' t. efa_collect W fuel pre b q s = Some (b', q', t)))"
proof -
  have f: "left s < fuel" by (simp add: left_def ready_le less_Suc_eq_le fuel)
  have r: "ring_here s" using assms by (simp add: ring_here_def)
  have "\<exists>b' q' t. efa_collect W fuel pre b q s = Some (b', q', t)" if "barrier_free (e_fifos s ! efa_fifo s)"
    using collect_returns[OF r f that] by (metis option.exhaust prod_cases3)
  then show ?thesis using collect_fuel[OF r f] by blast
qed

theorem efa_collect_terminates_witness:
  "\<exists>b' q' t. efa_collect demo_efa_world 5 0 [] 0 demo_efa = Some (b', q', t)"
proof -
  have d: "efa_fifo demo_efa = 0" "e_fifos demo_efa = [demo_ring4]"
    by (simp_all add: demo_efa_def new_efa_proxy_def efa_clamp_def demo_efa_config_def Let_def efa_fifo_def)
  have "create_d2h_fifo 4 = Some demo_ring4" by (simp add: create_d2h_fifo_def demo_ring4_def)
  then have r: "ring_ok demo_ring4" by (rule create_ring(1)) simp
  have n: "5 = Suc (length (triggers demo_ring4))" by (simp add: demo_ring4_def)
  have bf: "barrier_free demo_ring4" by (simp add: barrier_free_def demo_ring4_def type_byte_def list_all_length)
  have h: "efa_fifo demo_efa < length (e_fifos demo_efa)" "ring_ok (e_fifos demo_efa ! efa_fifo demo_efa)"
    "5 = Suc (length (triggers (e_fifos demo_efa ! efa_fifo demo_efa)))" "barrier_free (e_fifos demo_efa ! efa_fifo demo_efa)"
    using r n bf unfolding d by simp_all
  show ?thesis using efa_collect_terminates[OF h(1-3), of demo_efa_world 100 0 "[]" 0] h(4) by blast
qed

text \<open>
  The immediate a write carries is the tile id in network order, and the proxy
  that receives it stores its epoch in the flag of exactly that tile.
\<close>

theorem imm_marks_tile:
  assumes "e_mode s = WriteImm" "ec_has_local_arrival (e_cfg s)"
    and "ew_op (write_imm_wr c qpn peer cmd) = EfaWriteImm imm"
    and "tile_id cmd < word_of_int (ec_local_arrival_count (e_cfg s))"
  shows "efa_reap_one s \<lparr>ewc_wr_id = w, ewc_opcode = WC_RECV_RDMA_WITH_IMM, ewc_imm = imm\<rparr> =
    s\<lparr>e_arrival := (e_arrival s)[unat (tile_id cmd) := ec_epoch (e_cfg s)]\<rparr>"
  using assms by (auto simp: efa_reap_one_def write_imm_wr_def Let_def)

theorem imm_marks_tile_witness:
  "e_arrival (efa_reap_one (demo_efa\<lparr>e_mode := WriteImm\<rparr>)
     \<lparr>ewc_wr_id = 0, ewc_opcode = WC_RECV_RDMA_WITH_IMM, ewc_imm = byte_swap32 7\<rparr>) ! 7 = 5"
proof -
  let ?s = "demo_efa\<lparr>e_mode := WriteImm\<rparr>"
  have d: "e_cfg ?s = demo_efa_config" "e_mode ?s = WriteImm" "e_arrival ?s = replicate 16 0"
    by (simp_all add: demo_efa_def new_efa_proxy_def efa_clamp_def demo_efa_config_def Let_def kMaxExchangeQPs_def)
  have w: "ew_op (write_imm_wr demo_efa_config 9 demo_peer demo_cmd) = EfaWriteImm (byte_swap32 7)"
    by (simp add: write_imm_wr_def demo_cmd_def)
  have a: "ec_has_local_arrival (e_cfg ?s)" "tile_id demo_cmd < word_of_int (ec_local_arrival_count (e_cfg ?s))"
    unfolding d by (simp_all add: demo_efa_config_def demo_cmd_def)
  have "efa_reap_one ?s \<lparr>ewc_wr_id = 0, ewc_opcode = WC_RECV_RDMA_WITH_IMM, ewc_imm = byte_swap32 7\<rparr> =
      ?s\<lparr>e_arrival := (e_arrival ?s)[unat (tile_id demo_cmd) := ec_epoch (e_cfg ?s)]\<rparr>"
    by (rule imm_marks_tile[OF d(2) a(1) w a(2)])
  then show ?thesis unfolding d by (simp add: demo_cmd_def demo_efa_config_def)
qed

text \<open>
  In remote-flag mode, where a command takes up to three requests, the requests the
  limit admits fit the send queues of the proxy's queue pairs together, and the limit is positive.
\<close>

theorem efa_limit_fits_send_queues:
  assumes "4 \<le> ec_sq_depth c \<or> ec_sq_depth c \<le> 0"
  shows "0 < e_limit (new_efa_proxy (Some ''remote_flag'') c fs st arr cq) \<and>
    3 * e_limit (new_efa_proxy (Some ''remote_flag'') c fs st arr cq) \<le>
      (if ec_sq_depth c > 0 then ec_sq_depth c else SRD_SQ_DEPTH) * ec_num_qps (efa_clamp c)"
proof -
  have q: "0 < ec_num_qps (efa_clamp c)" and d: "ec_sq_depth (efa_clamp c) = ec_sq_depth c"
    by (simp_all add: efa_clamp_def Let_def kMaxExchangeQPs_def)
  let ?cap = "efa_per_qp_cap RemoteFlag (efa_clamp c)"
  have l: "e_limit (new_efa_proxy (Some ''remote_flag'') c fs st arr cq) = ?cap * ec_num_qps (efa_clamp c)"
    by (simp add: new_efa_proxy_def Let_def detect_notify_mode_def)
  have p: "0 < ?cap" by (rule efa_cap_pos)
  have "4 * ?cap \<le> (if ec_sq_depth c > 0 then ec_sq_depth c else SRD_SQ_DEPTH)"
    using efa_cap_fits[OF refl, of "efa_clamp c"] assms unfolding d by blast
  then have "3 * ?cap \<le> (if ec_sq_depth c > 0 then ec_sq_depth c else SRD_SQ_DEPTH)" using p by linarith
  then have "3 * ?cap * ec_num_qps (efa_clamp c) \<le> (if ec_sq_depth c > 0 then ec_sq_depth c else SRD_SQ_DEPTH) * ec_num_qps (efa_clamp c)"
    using q by (intro mult_right_mono) simp_all
  then show ?thesis unfolding l using p q by (simp add: mult.assoc)
qed

theorem efa_limit_fits_send_queues_witness:
  "0 < e_limit demo_efa \<and> 3 * e_limit demo_efa \<le> 512 * ec_num_qps (efa_clamp demo_efa_config)"
proof -
  have "4 \<le> ec_sq_depth demo_efa_config \<or> ec_sq_depth demo_efa_config \<le> 0" by (simp add: demo_efa_config_def)
  note f = efa_limit_fits_send_queues[OF this]
  have "(if ec_sq_depth demo_efa_config > 0 then ec_sq_depth demo_efa_config else SRD_SQ_DEPTH) = 512"
    by (simp add: SRD_SQ_DEPTH_def demo_efa_config_def)
  then show ?thesis unfolding demo_efa_def using f by (simp only:)
qed

text \<open>
  C31 (functional): a stage barrier is written, on the first queue pair, to the barrier slot of
  every peer that announced a barrier address, once each and in the order of the peer table.
\<close>

theorem efa_barrier_reaches_peers:
  assumes "ec_staging_ok (e_cfg s)"
  shows "map (\<lambda>p. (ep_qp p, map (\<lambda>w. (ew_remote_addr w, ew_ah w, ew_qpn w)) (ep_wrs p)))
      (e_posts (efa_post_stage_barrier W slot tok s)) =
    map (\<lambda>p. (ep_qp p, map (\<lambda>w. (ew_remote_addr w, ew_ah w, ew_qpn w)) (ep_wrs p))) (e_posts s) @
    map (\<lambda>peer. (0, [(pp_remote_barrier_addr peer + word_of_int slot * 4, pp_dst_ah peer, pp_dst_qpns peer ! 0)]))
      (filter (\<lambda>peer. pp_remote_barrier_addr peer \<noteq> 0) (ec_per_peer (e_cfg s)))"
  using assms by (simp add: efa_post_stage_barrier_def barrier_fold_posts)

theorem efa_barrier_reaches_peers_witness:
  "map (\<lambda>p. (ep_qp p, map ew_remote_addr (ep_wrs p))) (e_posts (efa_post_stage_barrier demo_efa_world 2 7 demo_efa)) =
    [(0, [0x400008])]"
proof -
  have d: "e_cfg demo_efa = demo_efa_config" "e_posts demo_efa = []"
    by (simp_all add: demo_efa_def new_efa_proxy_def efa_clamp_def demo_efa_config_def Let_def kMaxExchangeQPs_def)
  have "ec_staging_ok (e_cfg demo_efa)" unfolding d by (simp add: demo_efa_config_def)
  from efa_barrier_reaches_peers[OF this, of demo_efa_world 2 7]
  have "map (\<lambda>p. (ep_qp p, map (\<lambda>w. (ew_remote_addr w, ew_ah w, ew_qpn w)) (ep_wrs p)))
      (e_posts (efa_post_stage_barrier demo_efa_world 2 7 demo_efa)) = [(0, [(0x400008, 1, 9)])]"
    unfolding d by (simp add: demo_efa_config_def demo_peer_def)
  from arg_cong[OF this, of "map (\<lambda>(q, ws). (q, map fst ws))"] show ?thesis by (simp add: o_def)
qed

end
