(* ===== verification/Session_Bootstrap.thy ===== *)
theory Session_Bootstrap
  imports Net_Types "HOL-Library.Product_Lexorder"
begin

text \<open>
  The TCP bootstrap of the sessions (\<^verbatim>\<open>session.h\<close> and \<^verbatim>\<open>session_efa.h\<close>): every node walks
  the unordered pairs of nodes in one global order and exchanges its connection record with its
  peers one by one. An exchange blocks until both nodes are at it, which \<open>meet\<close> models: a pair is
  taken off the lists of both its nodes once it is first on both. The client gives up and the process
  fails after 120 s of refused connections (\<^verbatim>\<open>rdma_transport.h:365-380\<close>); the model has no time, so it
  speaks of runs in which no node is that late.
\<close>

section \<open>The order of the pairs\<close>

definition pair_order :: "int \<Rightarrow> (int \<times> int) list" where
  "pair_order n = concat (map (\<lambda>lo. map (Pair lo) [lo + 1..n - 1]) [0..n - 1])"

definition exchange_plan :: "int \<Rightarrow> int \<Rightarrow> (int \<times> int) list" where
  "exchange_plan n rank = filter (\<lambda>(lo, hi). rank = lo \<or> rank = hi) (pair_order n)"

definition peer_of :: "int \<Rightarrow> int \<times> int \<Rightarrow> int" where
  "peer_of rank = (\<lambda>(lo, hi). if rank = lo then hi else lo)"

section \<open>Blocking exchanges\<close>

inductive meet :: "(int \<Rightarrow> (int \<times> int) list) \<Rightarrow> (int \<Rightarrow> (int \<times> int) list) \<Rightarrow> bool" where
  meet: "todo lo = (lo, hi) # xs \<Longrightarrow> todo hi = (lo, hi) # ys \<Longrightarrow> lo \<noteq> hi \<Longrightarrow>
    meet todo (todo(lo := xs, hi := ys))"

inductive_cases meetE: "meet t u"

inductive meets :: "(int \<Rightarrow> (int \<times> int) list) \<Rightarrow> (int \<Rightarrow> (int \<times> int) list) \<Rightarrow> bool" for plan where
  start: "meets plan plan"
| step: "meets plan t \<Longrightarrow> meet t u \<Longrightarrow> meets plan u"

text \<open>
  The contract of a bootstrap plan: every node visits its pairs in one global order, and a pair
  is on the list of both of its nodes.
\<close>

locale global_order =
  fixes plan :: "int \<Rightarrow> (int \<times> int) list" and nodes :: "int set"
  assumes finite_nodes: "finite nodes"
    and ordered: "sorted_wrt (<) (plan r)"
    and both: "(lo, hi) \<in> set (plan r) \<Longrightarrow>
      lo \<noteq> hi \<and> lo \<in> nodes \<and> hi \<in> nodes \<and> (r = lo \<or> r = hi) \<and> (lo, hi) \<in> set (plan lo) \<and> (lo, hi) \<in> set (plan hi)"
begin

definition waiting_ok :: "(int \<Rightarrow> (int \<times> int) list) \<Rightarrow> bool" where
  "waiting_ok t \<longleftrightarrow> (\<forall>r. sorted_wrt (<) (t r)) \<and>
     (\<forall>r lo hi. (lo, hi) \<in> set (t r) \<longrightarrow> lo \<noteq> hi \<and> lo \<in> nodes \<and> hi \<in> nodes \<and> (r = lo \<or> r = hi) \<and>
        (lo, hi) \<in> set (t lo) \<and> (lo, hi) \<in> set (t hi))"

lemma waiting_start: "waiting_ok plan"
  unfolding waiting_ok_def using ordered both by blast

lemma waiting_meet:
  assumes "waiting_ok t" "meet t u"
  shows "waiting_ok u"
  using assms(2)
proof cases
  case (meet lo hi xs ys)
  note ok = assms(1)[unfolded waiting_ok_def]
  have s: "sorted_wrt (<) ((lo, hi) # xs)" "sorted_wrt (<) ((lo, hi) # ys)" using ok meet(2,3) by metis+
  have gone: "(lo, hi) \<notin> set xs" "(lo, hi) \<notin> set ys" using s by auto
  have sub: "set (u r) \<subseteq> set (t r)" for r using meet by auto
  have left: "p \<in> set (u r) \<longleftrightarrow> p \<in> set (t r) \<and> p \<noteq> (lo, hi)" for p r
  proof (cases "r = lo \<or> r = hi")
    case True
    then show ?thesis using meet gone by auto
  next
    case False
    then have "(lo, hi) \<notin> set (t r)" using ok by blast
    then show ?thesis using meet False by auto
  qed
  have "sorted_wrt (<) (u r)" for r using ok s meet(1) by (cases "r = lo \<or> r = hi") auto
  moreover have "a \<noteq> b \<and> a \<in> nodes \<and> b \<in> nodes \<and> (r = a \<or> r = b) \<and> (a, b) \<in> set (u a) \<and> (a, b) \<in> set (u b)"
    if "(a, b) \<in> set (u r)" for r a b
    using ok that unfolding left by blast
  ultimately show ?thesis unfolding waiting_ok_def by blast
qed

lemma waiting_reachable: "meets plan t \<Longrightarrow> waiting_ok t"
  by (induction rule: meets.induct) (auto intro: waiting_start waiting_meet)

text \<open>The least pair still waited for is first on the lists of both its nodes.\<close>

lemma progress:
  assumes "meets plan t" "t r \<noteq> []"
  shows "\<exists>u. meet t u"
proof -
  have ok: "waiting_ok t" by (rule waiting_reachable[OF assms(1)])
  note ok' = ok[unfolded waiting_ok_def]
  define W where "W = (\<Union>q \<in> nodes. set (t q))"
  obtain a b where ab: "(a, b) \<in> set (t r)" using assms(2) by (cases "t r") auto
  have "finite W" by (simp add: W_def finite_nodes)
  moreover have "(a, b) \<in> W" using ok' ab unfolding W_def by blast
  ultimately have m: "Min W \<in> W" "\<And>p. p \<in> W \<Longrightarrow> Min W \<le> p" by (auto intro: Min_in)
  obtain lo hi where p: "Min W = (lo, hi)" by fastforce
  have w: "(lo, hi) \<in> set (t lo)" "(lo, hi) \<in> set (t hi)" "lo \<in> nodes" "hi \<in> nodes" "lo \<noteq> hi"
  proof -
    obtain q where "(lo, hi) \<in> set (t q)" using m(1) p unfolding W_def by auto
    then show "(lo, hi) \<in> set (t lo)" "(lo, hi) \<in> set (t hi)" "lo \<in> nodes" "hi \<in> nodes" "lo \<noteq> hi"
      using ok' by blast+
  qed
  have first: "\<exists>xs. t q = (lo, hi) # xs" if q: "q \<in> nodes" "(lo, hi) \<in> set (t q)" for q
  proof (cases "t q")
    case Nil
    then show ?thesis using q by simp
  next
    case (Cons x xs)
    have "x \<in> W" using q(1) Cons unfolding W_def by (auto intro!: bexI[of _ q])
    then have "(lo, hi) \<le> x" using m(2) p by metis
    moreover have "x = (lo, hi) \<or> x < (lo, hi)" using ok' q(2) Cons by (metis set_ConsD sorted_wrt.simps(2))
    ultimately show ?thesis using Cons by auto
  qed
  then obtain xs ys where "t lo = (lo, hi) # xs" "t hi = (lo, hi) # ys" using w by blast
  then show ?thesis using w(5) meet.intros by blast
qed

text \<open>Each exchange shortens the lists, so the bootstrap ends.\<close>

lemma shorter:
  assumes "meets plan t" "meet t u"
  shows "(\<Sum>r \<in> nodes. length (u r)) < (\<Sum>r \<in> nodes. length (t r))"
  using assms(2)
proof cases
  case (meet lo hi xs ys)
  have "lo \<in> nodes" using waiting_reachable[OF assms(1)] meet(2) unfolding waiting_ok_def by (metis list.set_intros(1))
  moreover have "length (u r) \<le> length (t r)" for r using meet by auto
  moreover have "length (u lo) < length (t lo)" using meet by simp
  ultimately show ?thesis using finite_nodes by (intro sum_strict_mono_ex1) auto
qed

lemma completes:
  assumes "meets plan t"
  shows "\<exists>u. meet\<^sup>*\<^sup>* t u \<and> (\<forall>r. u r = [])"
  using assms
proof (induction "\<Sum>r \<in> nodes. length (t r)" arbitrary: t rule: less_induct)
  case less
  show ?case
  proof (cases "\<forall>r. t r = []")
    case False
    then obtain v where v: "meet t v" using progress[OF less.prems] by blast
    obtain u where "meet\<^sup>*\<^sup>* v u" "\<forall>r. u r = []"
      using less.hyps[OF shorter[OF less.prems v] meets.step[OF less.prems v]] by blast
    then show ?thesis using v by (meson converse_rtranclp_into_rtranclp)
  qed blast
qed

end

lemma pair_order_set: "(lo, hi) \<in> set (pair_order n) \<longleftrightarrow> 0 \<le> lo \<and> lo < hi \<and> hi < n"
  by (auto simp: pair_order_def image_iff)

lemma pair_order_sorted: "sorted_wrt (<) (pair_order n)"
proof -
  have row: "sorted_wrt (<) (map (Pair lo) [a..b])" for lo a b :: int
    by (simp add: sorted_wrt_map less_prod_def)
  have "sorted_wrt (<) (concat (map (\<lambda>lo. map (Pair lo) [lo + 1..n - 1]) xs))" if "sorted_wrt (<) xs" for xs
    using that
  proof (induction xs)
    case (Cons x xs)
    have "p < q" if "p \<in> set (map (Pair x) [x + 1..n - 1])" "q \<in> set (concat (map (\<lambda>lo. map (Pair lo) [lo + 1..n - 1]) xs))" for p q
      using that Cons.prems by (auto simp: less_prod_def)
    then show ?case using row[of x] Cons by (simp add: sorted_wrt_append)
  qed simp
  then show ?thesis by (simp add: pair_order_def)
qed

interpretation bootstrap: global_order "exchange_plan n" "{0..<n}"
proof
  show "finite {0..<n}" by simp
  show "sorted_wrt (<) (exchange_plan n r)" for r
    unfolding exchange_plan_def by (intro sorted_wrt_filter pair_order_sorted)
  show "lo \<noteq> hi \<and> lo \<in> {0..<n} \<and> hi \<in> {0..<n} \<and> (r = lo \<or> r = hi) \<and>
      (lo, hi) \<in> set (exchange_plan n lo) \<and> (lo, hi) \<in> set (exchange_plan n hi)"
    if "(lo, hi) \<in> set (exchange_plan n r)" for lo hi r
    using that by (auto simp: exchange_plan_def pair_order_set)
qed

text \<open>
  In the order of the peer slots the nodes of a ring of three would wait for each other in a
  circle, which is why the sources visit the pairs in a global order.
\<close>

definition slot_order_plan :: "int \<Rightarrow> int \<Rightarrow> (int \<times> int) list" where
  "slot_order_plan n rank = map (\<lambda>slot. let p = peer_rank_for_slot rank n slot in (min rank p, max rank p)) [0..n - 2]"

lemma slot_order_deadlocks: "\<nexists>u. meet (\<lambda>r. if r \<in> {0, 1, 2} then slot_order_plan 3 r else []) u"
proof
  assume "\<exists>u. meet (\<lambda>r. if r \<in> {0, 1, 2} then slot_order_plan 3 r else []) u"
  then show False
    by (auto elim!: meetE simp: slot_order_plan_def peer_rank_for_slot_def upto.simps Let_def split: if_splits)
qed

text \<open>
  C33 (liveness): the TCP bootstrap of any number of nodes, each exchanging with its peers one
  after the other and waiting for the other side, does not deadlock: from every state it can
  reach all exchanges can complete, and a state in which nobody can go on is a completed one.
\<close>

theorem bootstrap_completes:
  assumes "meets (exchange_plan n) t"
  shows "(\<exists>u. meet\<^sup>*\<^sup>* t u \<and> (\<forall>r. u r = [])) \<and> ((\<nexists>u. meet t u) \<longrightarrow> (\<forall>r. t r = []))"
  using bootstrap.completes[OF assms] bootstrap.progress[OF assms] by blast

theorem bootstrap_completes_witness:
  "\<exists>u. meet\<^sup>*\<^sup>* (exchange_plan 4) u \<and> (\<forall>r. u r = [])"
  using bootstrap_completes[OF meets.start[of "exchange_plan 4"]] by blast

end
