(* ===== verification/Session_Common.thy ===== *)
theory Session_Common
  imports D2H_Fifo
begin

text \<open>
  What the sessions of both backends share: how a step of theirs can end, the table of proxy
  threads with its holes, the loop that waits for the proxies to drain, the loop that waits for a
  barrier token, and doing something with every proxy in turn.
\<close>

section \<open>Errors\<close>

datatype session_error = Exited string | NullSession string | NullProxy | Thrown string

definition thrown :: "string + 'a \<Rightarrow> session_error + 'a" where
  "thrown r = map_sum Thrown id r"

lemma thrown_Inr_iff: "thrown r = Inr x \<longleftrightarrow> r = Inr x"
  by (cases r) (auto simp: thrown_def)

section \<open>Proxy threads\<close>

text \<open>
  A proxy thread, which holds its rings, or \<open>Unserved\<close>: the rings that were created for a thread
  to which no proxy was given (\<open>proxies[t] == nullptr\<close>).
\<close>

datatype ('p, 'f) proxy_thread = Running 'p | Unserved 'f

definition is_served :: "('p, 'f) proxy_thread \<Rightarrow> bool" where
  "is_served th = (case th of Running p \<Rightarrow> True | Unserved f \<Rightarrow> False)"

text \<open>
  \<open>f t p\<close> is done with every proxy in turn: a null proxy is an error, \<open>Inr None\<close> a step that still
  waits.
\<close>

fun on_proxies :: "(nat \<Rightarrow> 'p \<Rightarrow> 'p option) \<Rightarrow> nat \<Rightarrow> ('p, 'f) proxy_thread list \<Rightarrow>
    session_error + ('p, 'f) proxy_thread list option" where
  "on_proxies f t [] = Inr (Some [])"
| "on_proxies f t (Unserved g # ths) = Inl NullProxy"
| "on_proxies f t (Running p # ths) =
     (case f t p of
        None \<Rightarrow> Inr None
      | Some q \<Rightarrow>
          (case on_proxies f (Suc t) ths of
             Inl e \<Rightarrow> Inl e
           | Inr None \<Rightarrow> Inr None
           | Inr (Some qs) \<Rightarrow> Inr (Some (Running q # qs))))"

lemma on_proxies_Inr:
  assumes "on_proxies f t ths = Inr (Some ths')"
  shows "length ths' = length ths" "i < length ths \<Longrightarrow> \<exists>p q. ths ! i = Running p \<and> ths' ! i = Running q \<and> f (t + i) p = Some q"
proof -
  have "length ths' = length ths \<and> (\<forall>i < length ths. \<exists>p q. ths ! i = Running p \<and> ths' ! i = Running q \<and> f (t + i) p = Some q)"
    using assms
  proof (induction f t ths arbitrary: ths' rule: on_proxies.induct)
    case (3 f t p ths)
    then obtain q qs where q: "f t p = Some q" "on_proxies f (Suc t) ths = Inr (Some qs)" "ths' = Running q # qs"
      by (auto split: option.splits sum.splits)
    note IH = "3.IH"[OF q(1) q(2)]
    show ?case
    proof (intro conjI allI impI)
      fix i assume "i < length (Running p # ths)"
      then show "\<exists>p' q. (Running p # ths) ! i = Running p' \<and> ths' ! i = Running q \<and> f (t + i) p' = Some q"
        using IH q by (cases i) auto
    qed (use IH q in simp)
  qed auto
  then show "length ths' = length ths" "i < length ths \<Longrightarrow> \<exists>p q. ths ! i = Running p \<and> ths' ! i = Running q \<and> f (t + i) p = Some q"
    by auto
qed

lemma on_proxies_served:
  assumes "list_all is_served ths" "\<And>i p. i < length ths \<Longrightarrow> ths ! i = Running p \<Longrightarrow> f (t + i) p \<noteq> None"
  shows "\<exists>ths'. on_proxies f t ths = Inr (Some ths')"
  using assms
proof (induction f t ths rule: on_proxies.induct)
  case (3 f t p ths)
  obtain q where q: "f t p = Some q" using "3.prems"(2)[of 0 p] by auto
  have "f (Suc t + i) p' \<noteq> None" if "i < length ths" "ths ! i = Running p'" for i p'
    using "3.prems"(2)[of "Suc i" p'] that by simp
  then obtain qs where "on_proxies f (Suc t) ths = Inr (Some qs)" using "3.IH"[OF q] "3.prems"(1) by auto
  then show ?case using q by simp
qed (auto simp: is_served_def)

section \<open>Queue pairs in slices\<close>

text \<open>
  Both backends give each of \<open>T\<close> threads the slice of \<open>w\<close> consecutive queue pairs of \<open>n\<close> that starts at
  \<open>t * w\<close>; the last slices may be short or empty.
\<close>

locale qp_slices =
  fixes n T w :: int
  assumes threads: "1 \<le> T" "T \<le> n"
    and width: "w = max 1 (ceil_div n T)"
begin

lemma counts: "1 \<le> n" "1 \<le> w" "w \<le> n" "n \<le> T * w"
proof -
  show "1 \<le> n" using threads by simp
  show "1 \<le> w" by (simp add: width)
  have p: "0 < ceil_div n T" using threads by (intro ceil_div_pos) auto
  show "n \<le> T * w" using ceil_div_bounds(1)[of n T] p threads by (simp add: width mult.commute)
  have "n * 1 \<le> n * T" using threads by (intro mult_left_mono) auto
  then have "ceil_div n T \<le> n" using threads by (intro ceil_div_le) auto
  then show "w \<le> n" using threads by (simp add: width)
qed

lemma owner:
  assumes "0 \<le> q" "q < n"
  shows "min (T - 1) (c_div q w) = q div w" "0 \<le> q div w" "q div w < T"
    "q div w * w \<le> q" "q < q div w * w + min w (n - q div w * w)" "0 < min w (n - q div w * w)"
proof -
  have lt: "q div w < T" using assms counts by (intro div_less_of_mult) auto
  then show "min (T - 1) (c_div q w) = q div w" "q div w < T" using assms counts by simp_all
  show "0 \<le> q div w" using assms counts by (simp add: pos_imp_zdiv_nonneg_iff)
  have b: "q div w * w \<le> q" "q < (q div w + 1) * w" using div_bounds[of w q] counts by auto
  then show "q div w * w \<le> q" "q < q div w * w + min w (n - q div w * w)" "0 < min w (n - q div w * w)"
    using assms by (auto simp: algebra_simps)
qed

text \<open>A bundle with one ring for each thread selects the owner of the queue pair.\<close>

lemma ring_of_owner:
  assumes "n < 2 ^ 31" "num_fifos b = T" "global_num_qps b = n" "qps_per_fifo b = w"
  shows "int (select_fifo_index b key) = (uint key mod n) div w"
proof -
  have q: "0 \<le> uint key mod n" "uint key mod n < n" using counts by auto
  note o = owner[OF q]
  show ?thesis
  proof (cases "T = 1")
    case True
    then show ?thesis using o(2,3) assms(2) by (simp add: select_fifo_index_def)
  next
    case False
    then have "1 < T" using threads by simp
    then show ?thesis using select_fifo_index_nat[of b key] assms threads counts o(3) by simp
  qed
qed

end

section \<open>Rings\<close>

definition reset_fifo :: "D2HFifo \<Rightarrow> D2HFifo" where
  "reset_fifo f = f\<lparr>head := 0, tail_cache := 0, tail := 0, cpu_head := 0,
     triggers := replicate (nat (capacity f)) (replicate 6 0)\<rparr>"

lemma reset_fifo_fresh: "create_d2h_fifo (capacity f) = Some g \<Longrightarrow> create_d2h_fifo (capacity (reset_fifo f)) = Some (reset_fifo f)"
  by (auto simp: create_d2h_fifo_def reset_fifo_def split: if_splits)

section \<open>Waiting\<close>

definition drain_limit :: nat where "drain_limit = 50000"

text \<open>
  \<open>check i\<close> is the \<open>i\<close>-th look of \<open>drain_proxy\<close> at all threads; the result is the look at which the
  loop was left, \<open>drain_limit\<close> when it gave up.
\<close>

function drain_from :: "(nat \<Rightarrow> session_error + bool) \<Rightarrow> nat \<Rightarrow> session_error + nat" where
  "drain_from check i =
     (if i < drain_limit then
        (case check i of
           Inl e \<Rightarrow> Inl e
         | Inr d \<Rightarrow> if d then Inr i else drain_from check (Suc i))
      else Inr i)"
  by pat_completeness auto
termination
  by (relation "measure (\<lambda>(check, i). drain_limit - i)") auto

declare drain_from.simps [simp del]

lemma drain_from_returns: "(\<And>i. \<exists>d. check i = Inr d) \<Longrightarrow> \<exists>k. drain_from check i = Inr k"
proof (induction check i rule: drain_from.induct)
  case (1 check i)
  obtain d where d: "check i = Inr d" using "1.prems" by blast
  show ?case
  proof (cases "i < drain_limit \<and> \<not> d")
    case True
    then have "\<exists>k. drain_from check (Suc i) = Inr k" using "1.IH"[OF _ d] "1.prems" by simp
    then show ?thesis using True d by (simp add: drain_from.simps[of check i])
  next
    case False
    then show ?thesis using d by (auto simp: drain_from.simps[of check i])
  qed
qed

text \<open>\<open>seen i\<close> is what the \<open>i\<close>-th look at the local barrier word reads.\<close>

function wait_token :: "(nat \<Rightarrow> u32) \<Rightarrow> u32 \<Rightarrow> nat \<Rightarrow> nat option" where
  "wait_token seen token i =
     (if i < drain_limit then (if seen i = token then Some i else wait_token seen token (Suc i)) else None)"
  by pat_completeness auto
termination
  by (relation "measure (\<lambda>(seen, token, i). drain_limit - i)") auto

declare wait_token.simps [simp del]

end
