(* ===== verification/Session_CX7.thy ===== *)
theory Session_CX7
  imports Proxy_CX7 Session_Bootstrap Session_Common
begin

text \<open>
  The session of the CX7 backend, \<^verbatim>\<open>include/comm/internode/session.h\<close>: the counts derived from
  the configuration, the steps of \<open>create_session\<close> with their exits, the pairing of the queue
  pairs, the configuration of every proxy, the epoch transitions, the host-side stage barrier and
  the release of resources. What the CUDA and verbs libraries, the environment and the peers
  return is the record \<open>session_env\<close>; what concurrently running proxies have done at a point where
  the host looks at them is an argument.
\<close>

section \<open>Configuration\<close>

record SessionConfig =
  sc_rank :: int
  sc_num_peers :: int
  sc_peer_ranks :: "int list option"
  sc_local_gpu_buf :: u64
  sc_local_gpu_buf_size :: u64
  sc_clocal_gpu_buf :: u64
  sc_clocal_gpu_buf_size :: u64
  sc_direct_dmabuf_enabled :: bool
  sc_row_stride_bytes :: u64
  sc_recv_buf_size :: u64
  sc_external_recv_buf :: u64
  sc_num_tiles :: int
  sc_fifo_capacity :: int
  sc_device_id :: int
  sc_max_inflight :: int
  sc_num_qps :: int
  sc_logical_queues_per_qp :: int
  sc_num_proxy_threads :: int
  sc_channelize_gpu_peers :: bool
  sc_use_arrival_queue :: bool
  sc_enable_forward_notify :: bool
  sc_nic_name :: string
  sc_pin_proxy :: bool

definition kMaxQPs :: int where "kMaxQPs = 24"
definition kStageBarrierSlots :: int where "kStageBarrierSlots = 2"

section \<open>Derived counts\<close>

definition effective_num_qps :: "SessionConfig \<Rightarrow> int" where
  "effective_num_qps c =
     (let q0 = (if sc_num_qps c \<le> 0 then 1 else sc_num_qps c);
          q1 = (if sc_channelize_gpu_peers c \<and> sc_num_peers c > 1 then max q0 (sc_num_peers c * 8) else q0)
      in if q1 > kMaxQPs then kMaxQPs else q1)"

definition session_proxy_threads :: "SessionConfig \<Rightarrow> int" where
  "session_proxy_threads c =
     (let r0 = (if sc_num_proxy_threads c \<le> 0 then 1 else sc_num_proxy_threads c);
          r1 = (if r0 > kMaxProxyThreads then kMaxProxyThreads else r0);
          r2 = (if r1 > effective_num_qps c then effective_num_qps c else r1)
      in max 1 r2)"

definition session_lqs :: "SessionConfig \<Rightarrow> int" where
  "session_lqs c =
     (let l0 = (if sc_logical_queues_per_qp c \<le> 0 then 1 else sc_logical_queues_per_qp c)
      in if l0 > 16 then 16 else l0)"

definition session_total_lqs :: "SessionConfig \<Rightarrow> int" where
  "session_total_lqs c = effective_num_qps c * session_lqs c"

definition logical_queue_stride :: "SessionConfig \<Rightarrow> int" where
  "logical_queue_stride c = max 1 (ceil_div (sc_num_tiles c) (session_total_lqs c))"

definition total_arrival_slots :: "SessionConfig \<Rightarrow> int" where
  "total_arrival_slots c = logical_queue_stride c * session_total_lqs c"

definition qps_per_proxy :: "SessionConfig \<Rightarrow> int" where
  "qps_per_proxy c = max 1 (ceil_div (effective_num_qps c) (session_proxy_threads c))"

definition owner_thread :: "SessionConfig \<Rightarrow> int \<Rightarrow> int" where
  "owner_thread c i = min (session_proxy_threads c - 1) (c_div i (qps_per_proxy c))"

definition qps_per_peer :: "SessionConfig \<Rightarrow> int" where
  "qps_per_peer c =
     (if sc_channelize_gpu_peers c then max 1 (c_div (effective_num_qps c) (sc_num_peers c))
      else effective_num_qps c)"

section \<open>Clock calibration and NIC selection\<close>

text \<open>Each sample is the host time before, the device timer read, and the host time after.\<close>

definition calibrate_step :: "u64 \<times> u64 \<times> u64 \<Rightarrow> u64 \<times> int \<Rightarrow> u64 \<times> int" where
  "calibrate_step = (\<lambda>(before, gpu, after) (best_window, best_offset).
     let window = after - before
     in if window < best_window
        then (window, sint (before + window div 2) - sint gpu)
        else (best_window, best_offset))"

definition calibrate_gpu_to_host_offset_ns :: "(u64 \<times> u64 \<times> u64) list \<Rightarrow> int" where
  "calibrate_gpu_to_host_offset_ns samples = snd (fold calibrate_step samples (- 1, 0))"

text \<open>A directory entry of \<open>/sys/class/infiniband\<close>: its name, whether port 1 is active, its NUMA node.\<close>

record nic_entry =
  ne_name :: string
  ne_active :: bool
  ne_numa :: int

text \<open>\<open>gpu_numa\<close> is \<open>None\<close> when the PCI attributes of the GPU cannot be read.\<close>

definition select_nic_for_device :: "int option \<Rightarrow> nic_entry list \<Rightarrow> int \<Rightarrow> string" where
  "select_nic_for_device gpu_numa dir device_id =
     (case gpu_numa of
        None \<Rightarrow> []
      | Some g \<Rightarrow>
          let nics = filter (\<lambda>n. is_prefix_of ''mlx5_'' (ne_name n) \<and> ne_active n) dir
          in if nics = [] then []
             else
               let m0 = filter (\<lambda>n. ne_numa n = g \<or> g < 0 \<or> ne_numa n < 0) nics;
                   m = sort_by_name ne_name (if m0 = [] then nics else m0)
               in ne_name (m ! (unat (word_of_int device_id :: u64) mod length m)))"

section \<open>State\<close>

datatype resource =
    RCtx | RPd | RCq nat | RQp nat | RLocalMr | RClocalMr | RRecvMr | RRecvMem | RFifo nat
  | RArrival | RArrivalMr | RStaging nat | RStagingMr nat | RBarrier | RBarrierMr | RForward | RForwardMr
  | RProxy nat

type_synonym cx7_thread = "(Proxy, D2HFifo) proxy_thread"

definition thread_fifo :: "cx7_thread \<Rightarrow> D2HFifo" where
  "thread_fifo th = (case th of Running p \<Rightarrow> fifo p | Unserved f \<Rightarrow> f)"

record Session =
  ss_rank :: int
  ss_epoch :: u32
  ss_num_qps :: int
  ss_qps :: "qp_init_attr list"
  ss_bundle :: "nat D2HFifoDeviceBundle"
  ss_threads :: "cx7_thread list"
  ss_arrival :: ArrivalFlags
  ss_barrier :: "u32 list"
  ss_forward :: "ForwardNotify list"
  ss_remote_infos :: "ConnectionInfo list"
  ss_has_clocal :: bool
  ss_recv_external :: bool
  ss_links :: "(int \<times> qp_attr \<times> qp_attr) list"
  ss_resources :: "resource list"

record session_env =
  en_pd :: bool
  en_cq :: "int \<Rightarrow> bool"
  en_qp :: "int \<Rightarrow> bool"
  en_qp_init :: "int \<Rightarrow> int"
  en_gpu_numa :: "int option"
  en_nic_dir :: "nic_entry list"
  en_devices :: "string list option"
  en_opens :: "nat \<Rightarrow> bool"
  en_max_sge :: "int option"
  en_local_mr :: "u32 mr_calls"
  en_clocal_mr :: "u32 mr_calls"
  en_recv_ptr :: "u64 option"
  en_recv_mr :: "u32 mr_calls"
  en_qp_nums :: "u32 list"
  en_lid :: u16
  en_gid_at :: "int \<Rightarrow> u8 list"
  en_gid_env :: "string option"
  en_arrival_addr :: u64
  en_arrival_mr :: "u32 option"
  en_staging_addr :: "int \<Rightarrow> u64"
  en_staging_mr :: "int \<Rightarrow> u32 option"
  en_barrier_addr :: u64
  en_barrier_mr :: "u32 option"
  en_forward_addr :: u64
  en_forward_mr :: "u32 option"
  en_exchange :: "int \<Rightarrow> ConnectionInfo \<Rightarrow> string + ConnectionInfo"
  en_modify :: "int \<Rightarrow> int"
  en_samples :: "(u64 \<times> u64 \<times> u64) list"
  en_tail_env :: "string option"
  en_channelize_env :: "string option"

section \<open>The steps of \<open>create_session\<close>\<close>

function dec_text :: "nat \<Rightarrow> string" where
  "dec_text n = (if n < 10 then [char_of (48 + n)] else dec_text (n div 10) @ [char_of (48 + n mod 10)])"
  by pat_completeness auto
termination
  by (relation "measure id") auto

declare dec_text.simps [simp del]

definition nat_text :: "int \<Rightarrow> string" where
  "nat_text d = (if d < 0 then ''-'' else []) @ dec_text (nat \<bar>d\<bar>)"

definition session_nic :: "SessionConfig \<Rightarrow> session_env \<Rightarrow> string" where
  "session_nic c E =
     (if sc_nic_name c \<noteq> [] then sc_nic_name c
      else let auto_nic = select_nic_for_device (en_gpu_numa E) (en_nic_dir E) (sc_device_id c)
           in if auto_nic \<noteq> [] then auto_nic else ''mlx5_'' @ nat_text (sc_device_id c))"

definition session_send_sge :: "SessionConfig \<Rightarrow> session_env \<Rightarrow> session_error + int" where
  "session_send_sge c E =
     (if \<not> sc_direct_dmabuf_enabled c then Inr 2
      else case en_max_sge E of
             None \<Rightarrow> Inr 32
           | Some m \<Rightarrow>
               let k = min 32 m
               in if k < 8 then Inl (Exited ''device max_sge < 8'') else Inr k)"

text \<open>The completion queues, one for each thread.\<close>

definition session_cqs :: "SessionConfig \<Rightarrow> session_env \<Rightarrow> session_error + int list" where
  "session_cqs c E = all_ok (map (\<lambda>t. thrown (create_cq (en_cq E t) 4096)) [0..session_proxy_threads c - 1])"

text \<open>The queue pairs: each is created on the completion queue of its owner and moved to INIT.\<close>

definition session_qps :: "SessionConfig \<Rightarrow> session_env \<Rightarrow> int \<Rightarrow> session_error + qp_init_attr list" where
  "session_qps c E sge =
     all_ok (map (\<lambda>i. thrown
       (and_then (create_rc_qp (en_qp E i) (if i = 0 then 0 else nat (owner_thread c i)) 2048 sge)
          (\<lambda>qp. and_then (modify_qp_init (en_qp_init E i) 1) (\<lambda>_. Inr qp))))
       [0..effective_num_qps c - 1])"

text \<open>The tables registered for the peers and the NIC: arrival flags, staging, barrier, forward notices.\<close>

record session_tables =
  tb_arrival :: u32
  tb_staging :: "u32 list"
  tb_barrier :: u32
  tb_forward :: "u32 option"

definition register_tables :: "SessionConfig \<Rightarrow> session_env \<Rightarrow> session_error + session_tables" where
  "register_tables c E =
     thrown (and_then (reg_mr (en_arrival_mr E)) (\<lambda>a.
       and_then (all_ok (map (\<lambda>t. reg_mr (en_staging_mr E t)) [0..session_proxy_threads c - 1])) (\<lambda>st.
       and_then (reg_mr (en_barrier_mr E)) (\<lambda>b.
       if sc_enable_forward_notify c
       then and_then (reg_mr (en_forward_mr E)) (\<lambda>f.
              Inr \<lparr>tb_arrival = a, tb_staging = st, tb_barrier = b, tb_forward = Some f\<rparr>)
       else Inr \<lparr>tb_arrival = a, tb_staging = st, tb_barrier = b, tb_forward = None\<rparr>))))"

definition session_clocal :: "SessionConfig \<Rightarrow> session_env \<Rightarrow> session_error + u32 option" where
  "session_clocal c E =
     (if \<not> sc_direct_dmabuf_enabled c then Inr None
      else if sc_clocal_gpu_buf c = 0 \<or> sc_clocal_gpu_buf_size c = 0
      then Inl (Exited ''clocal_gpu_buf not provided'')
      else case register_gpu_buffer_dmabuf_only (en_clocal_mr E) of
             None \<Rightarrow> Inl (Exited ''DMA-BUF-only registration of C_local failed'')
           | Some (lkey, path) \<Rightarrow> Inr (Some lkey))"

definition session_recv :: "SessionConfig \<Rightarrow> session_env \<Rightarrow> session_error + u32 GpuRdmaBuffer" where
  "session_recv c E =
     (if sc_external_recv_buf c \<noteq> 0 then
        (case register_gpu_buffer (en_recv_mr E) of
           None \<Rightarrow> Inl (Exited ''ibv_reg_mr(gpu) failed'')
         | Some rk \<Rightarrow> Inr \<lparr>gb_ptr = sc_external_recv_buf c, gb_size = sc_recv_buf_size c, gb_mr = Some rk\<rparr>)
      else
        (case alloc_and_register (en_recv_ptr E) (en_recv_mr E) (sc_recv_buf_size c) of
           None \<Rightarrow> Inl (Exited ''receive buffer'')
         | Some b \<Rightarrow> Inr b))"

definition session_fifo_cap :: "SessionConfig \<Rightarrow> int" where
  "session_fifo_cap c = (if sc_fifo_capacity c > 0 then sc_fifo_capacity c else 1024)"

definition session_bundle :: "SessionConfig \<Rightarrow> nat D2HFifoDeviceBundle" where
  "session_bundle c =
     \<lparr>fifos = [0..<nat (session_proxy_threads c)], num_fifos = session_proxy_threads c,
      global_num_qps = effective_num_qps c, logical_queues_per_qp = session_lqs c,
      qps_per_fifo = qps_per_proxy c\<rparr>"

definition zero_info :: ConnectionInfo where
  "zero_info = \<lparr>ci_qp_num = 0, ci_psn = 0, ci_lid = 0, ci_gid = replicate 16 0, ci_data_rkey = 0,
     ci_data_addr = 0, ci_data_len = 0, ci_flags_rkey = 0, ci_flags_addr = 0, ci_tail_rkey = 0, ci_tail_addr = 0,
     ci_barrier_rkey = 0, ci_barrier_addr = 0, ci_forward_notify_rkey = 0, ci_forward_notify_addr = 0,
     ci_forward_notify_count = 0, ci_num_qps = 0, ci_extra_qp_nums = replicate 23 0, ci_extra_psns = replicate 23 0,
     ci_num_rails = 0, ci_qp_to_rail = replicate 24 0, ci_extra_rails = []\<rparr>"

definition session_local_info ::
    "SessionConfig \<Rightarrow> session_env \<Rightarrow> u32 GpuRdmaBuffer \<Rightarrow> session_tables \<Rightarrow> ConnectionInfo" where
  "session_local_info c E recv tb =
     (let i0 = fill_local_info (en_qp_nums E ! 0) (en_lid E) (en_gid_at E) (roce_gid_index (en_gid_env E)) zero_info;
          i1 = i0\<lparr>ci_data_rkey := the (gb_mr recv), ci_data_addr := gb_ptr recv, ci_data_len := gb_size recv,
                  ci_flags_rkey := tb_arrival tb, ci_flags_addr := en_arrival_addr E,
                  ci_tail_rkey := tb_arrival tb,
                  ci_tail_addr := en_arrival_addr E + 4 * word_of_int (total_arrival_slots c),
                  ci_barrier_rkey := tb_barrier tb, ci_barrier_addr := en_barrier_addr E\<rparr>;
          i2 = (case tb_forward tb of
                  Some k \<Rightarrow> i1\<lparr>ci_forward_notify_rkey := k, ci_forward_notify_addr := en_forward_addr E,
                              ci_forward_notify_count := word_of_int (total_arrival_slots c)\<rparr>
                | None \<Rightarrow> i1)
      in i2\<lparr>ci_num_qps := effective_num_qps c,
            ci_extra_qp_nums := map (\<lambda>i. if i < nat (effective_num_qps c) - 1 then en_qp_nums E ! Suc i else 0) [0..<23]\<rparr>)"

text \<open>The peer behind a slot and the slot of a peer.\<close>

definition peer_rank_for_local_slot :: "SessionConfig \<Rightarrow> int \<Rightarrow> int" where
  "peer_rank_for_local_slot c slot =
     (case sc_peer_ranks c of
        Some rs \<Rightarrow> rs ! nat slot
      | None \<Rightarrow> peer_rank_for_slot (sc_rank c) (sc_num_peers c + 1) slot)"

definition peer_slot_for_rank :: "SessionConfig \<Rightarrow> int \<Rightarrow> int" where
  "peer_slot_for_rank c peer_rank =
     (case find (\<lambda>slot. peer_rank_for_local_slot c slot = peer_rank) [0..sc_num_peers c - 1] of
        Some slot \<Rightarrow> slot | None \<Rightarrow> - 1)"

text \<open>The exchanges of this rank in the global order of the pairs.\<close>

fun exchange_all :: "SessionConfig \<Rightarrow> session_env \<Rightarrow> ConnectionInfo \<Rightarrow> (int \<times> int) list \<Rightarrow> ConnectionInfo list \<Rightarrow>
    session_error + ConnectionInfo list" where
  "exchange_all c E me [] infos = Inr infos"
| "exchange_all c E me (p # ps) infos =
     (let slot = peer_slot_for_rank c (peer_of (sc_rank c) p)
      in if slot < 0 then Inl (NullSession ''could not map peer_rank'')
         else case en_exchange E slot me of
                Inl e \<Rightarrow> Inl (Thrown e)
              | Inr info \<Rightarrow> exchange_all c E me ps (infos[nat slot := info]))"

text \<open>Which remote queue pair each local one is connected to, in the order of the transitions.\<close>

definition qp_pairs :: "SessionConfig \<Rightarrow> (int \<times> int \<times> int) list" where
  "qp_pairs c =
     concat (map (\<lambda>peer_slot.
       let peer_rank = peer_rank_for_local_slot c peer_slot;
           remote_slot = (if sc_num_peers c = 1 then 0
                          else slot_at_peer (sc_rank c) peer_rank (sc_num_peers c + 1));
           q = qps_per_peer c;
           local_base = (if sc_channelize_gpu_peers c then peer_slot * q else 0);
           remote_base = (if sc_channelize_gpu_peers c then remote_slot * q else 0);
           local_end = (if sc_channelize_gpu_peers c then min (effective_num_qps c) (local_base + q)
                        else effective_num_qps c)
       in map (\<lambda>l. (peer_slot, l, remote_base + (l - local_base))) [local_base..local_end - 1])
     [0..sc_num_peers c - 1])"

definition remote_qp_info :: "ConnectionInfo \<Rightarrow> int \<Rightarrow> ConnectionInfo" where
  "remote_qp_info info r =
     (if r = 0 then info
      else info\<lparr>ci_qp_num := ci_extra_qp_nums info ! nat (r - 1), ci_psn := ci_extra_psns info ! nat (r - 1)\<rparr>)"

fun link_qps :: "session_env \<Rightarrow> ConnectionInfo \<Rightarrow> ConnectionInfo list \<Rightarrow> (int \<times> int \<times> int) list \<Rightarrow>
    (int \<times> qp_attr \<times> qp_attr) list \<Rightarrow> session_error + (int \<times> qp_attr \<times> qp_attr) list" where
  "link_qps E me infos [] links = Inr links"
| "link_qps E me infos ((slot, l, r) # ps) links =
     (let k = 2 * int (length links); psn = (if l = 0 then ci_psn me else ci_extra_psns me ! nat (l - 1))
      in case modify_qp_rtr (en_modify E k) (roce_gid_index (en_gid_env E)) (remote_qp_info (infos ! nat slot) r) 1 of
           Inl e \<Rightarrow> Inl (Thrown e)
         | Inr (rtr, m) \<Rightarrow>
             (case modify_qp_rts (en_modify E (k + 1)) psn of
                Inl e \<Rightarrow> Inl (Thrown e)
              | Inr (rts, m') \<Rightarrow> link_qps E me infos ps (links @ [(l, rtr, rts)])))"

text \<open>The configuration of the proxy of thread \<open>t\<close>.\<close>

definition local_qps :: "SessionConfig \<Rightarrow> int \<Rightarrow> int" where
  "local_qps c t = min (qps_per_proxy c) (effective_num_qps c - t * qps_per_proxy c)"

definition peer_slot_of_qp :: "SessionConfig \<Rightarrow> int \<Rightarrow> int" where
  "peer_slot_of_qp c q = (if sc_channelize_gpu_peers c then min (sc_num_peers c - 1) (c_div q (qps_per_peer c)) else 0)"

definition by_qp :: "SessionConfig \<Rightarrow> ConnectionInfo list \<Rightarrow> (ConnectionInfo \<Rightarrow> 'w::len word) \<Rightarrow> 'w word list" where
  "by_qp c infos f =
     map (\<lambda>q. if q < effective_num_qps c then f (infos ! nat (peer_slot_of_qp c q)) else 0) [0..kMaxExchangeQPs - 1]"

definition ring_banks :: "SessionConfig \<Rightarrow> int" where
  "ring_banks c =
     (if sc_enable_forward_notify c \<and> \<not> sc_use_arrival_queue c \<and> sc_num_peers c > 1 then sc_num_peers c else 1)"

definition session_proxy_config ::
    "SessionConfig \<Rightarrow> session_env \<Rightarrow> u32 \<Rightarrow> u32 option \<Rightarrow> int \<Rightarrow> u32 list \<Rightarrow> ConnectionInfo list \<Rightarrow> int \<Rightarrow> ProxyConfig" where
  "session_proxy_config c E local_lkey clocal sge st_keys infos t =
     (let r = infos ! 0; parts = max 1 (sc_num_peers c * ring_banks c); d = (clocal \<noteq> None)
      in \<lparr>cf_num_qps = local_qps c t, cf_qp_base_idx = t * qps_per_proxy c,
          cf_global_num_qps = effective_num_qps c,
          cf_gpu_to_host_offset_ns = calibrate_gpu_to_host_offset_ns (en_samples E),
          cf_local_data_addr = sc_local_gpu_buf c, cf_local_data_lkey = local_lkey,
          cf_clocal_data_addr = (if d then sc_clocal_gpu_buf c else 0),
          cf_clocal_data_lkey = (case clocal of Some k \<Rightarrow> k | None \<Rightarrow> 0),
          cf_clocal_data_bytes = (if d then sc_clocal_gpu_buf_size c else 0),
          cf_direct_dmabuf_enabled = d,
          cf_row_stride_bytes = (if d then sc_row_stride_bytes c else 0),
          cf_max_send_sge = (if d then word_of_int sge else 0),
          cf_remote_data_addr = ci_data_addr r, cf_remote_data_rkey = ci_data_rkey r,
          cf_remote_data_addr_by_qp = by_qp c infos ci_data_addr, cf_remote_data_rkey_by_qp = by_qp c infos ci_data_rkey,
          cf_staging_addr = en_staging_addr E t, cf_staging_lkey = st_keys ! nat t,
          cf_remote_flags_addr = ci_flags_addr r, cf_remote_flags_rkey = ci_flags_rkey r,
          cf_remote_tail_addr = ci_tail_addr r, cf_remote_tail_rkey = ci_tail_rkey r,
          cf_remote_flags_addr_by_qp = by_qp c infos ci_flags_addr, cf_remote_flags_rkey_by_qp = by_qp c infos ci_flags_rkey,
          cf_remote_tail_addr_by_qp = by_qp c infos ci_tail_addr, cf_remote_tail_rkey_by_qp = by_qp c infos ci_tail_rkey,
          cf_use_arrival_queue = sc_use_arrival_queue c,
          cf_remote_queue_stride = word_of_int (logical_queue_stride c), cf_logical_queues_per_qp = session_lqs c,
          cf_channelize_gpu_peers = sc_channelize_gpu_peers c,
          cf_enable_remote_tail = (case en_tail_env E of Some e \<Rightarrow> e \<noteq> [] \<and> hd e = CHR ''1'' | None \<Rightarrow> False),
          cf_remote_barrier_addr = ci_barrier_addr r, cf_remote_barrier_rkey = ci_barrier_rkey r,
          cf_remote_barrier_addr_by_qp = by_qp c infos ci_barrier_addr, cf_remote_barrier_rkey_by_qp = by_qp c infos ci_barrier_rkey,
          cf_enable_forward_notify = (sc_enable_forward_notify c \<and> \<not> sc_use_arrival_queue c),
          cf_has_local_forward_notify = (sc_enable_forward_notify c \<and> total_arrival_slots c > 0),
          cf_forward_notify_slots = (if sc_enable_forward_notify c then total_arrival_slots c else 0),
          cf_remote_forward_notify_addr = ci_forward_notify_addr r, cf_remote_forward_notify_rkey = ci_forward_notify_rkey r,
          cf_remote_forward_notify_addr_by_qp = by_qp c infos ci_forward_notify_addr,
          cf_remote_forward_notify_rkey_by_qp = by_qp c infos ci_forward_notify_rkey,
          cf_rank = sc_rank c, cf_num_nodes = sc_num_peers c + 1,
          cf_total_chunks = c_div (total_arrival_slots c) parts,
          cf_a_half_bytes = sc_local_gpu_buf_size c div word_of_int parts,
          cf_epoch = 1, cf_max_inflight = (if sc_max_inflight c > 0 then sc_max_inflight c else 512),
          cf_device_id = sc_device_id c, cf_pin_proxy = sc_pin_proxy c\<rparr>)"

text \<open>The loop that starts the proxies stops at the first thread that would get no queue pair.\<close>

fun spawn_proxies :: "SessionConfig \<Rightarrow> session_env \<Rightarrow> (int \<Rightarrow> ProxyConfig) \<Rightarrow> D2HFifo \<Rightarrow> nat \<Rightarrow> nat \<Rightarrow> cx7_thread list" where
  "spawn_proxies c E pc f t 0 = []"
| "spawn_proxies c E pc f t (Suc n) =
     (if local_qps c (int t) \<le> 0 then replicate (Suc n) (Unserved f)
      else Running (new_proxy (en_channelize_env E) (pc (int t)) f
                      (create_flag_staging (int (BATCH_SIZE * 2 + 2)))) # spawn_proxies c E pc f (Suc t) n)"

definition thread_resources :: "nat \<Rightarrow> cx7_thread \<Rightarrow> resource list" where
  "thread_resources t th = (case th of Running p \<Rightarrow> [RProxy t] | Unserved f \<Rightarrow> [])"

definition session_resources :: "SessionConfig \<Rightarrow> bool \<Rightarrow> bool \<Rightarrow> cx7_thread list \<Rightarrow> resource list" where
  "session_resources c has_clocal external ths =
     (let n = nat (session_proxy_threads c)
      in [RCtx, RPd] @ map RCq [0..<n] @ map RQp [0..<nat (effective_num_qps c)] @ [RLocalMr] @
         (if has_clocal then [RClocalMr] else []) @ (if external then [RRecvMr] else [RRecvMem, RRecvMr]) @
         map RFifo [0..<n] @ [RArrival, RArrivalMr] @ concat (map (\<lambda>t. [RStaging t, RStagingMr t]) [0..<n]) @
         [RBarrier, RBarrierMr] @
         (if sc_enable_forward_notify c then [RForward, RForwardMr] else []) @
         concat (map (\<lambda>t. thread_resources t (ths ! t)) [0..<length ths]))"

definition session_fifos :: "SessionConfig \<Rightarrow> session_error + D2HFifo" where
  "session_fifos c =
     (case create_d2h_fifo (session_fifo_cap c) of
        None \<Rightarrow> Inl (Exited ''d2h_fifo: capacity must be power of 2'')
      | Some f \<Rightarrow> Inr f)"

definition session_local_mr :: "session_env \<Rightarrow> session_error + u32" where
  "session_local_mr E =
     (case register_gpu_buffer (en_local_mr E) of
        None \<Rightarrow> Inl (Exited ''register_gpu_buffer(local_gpu_buf) failed'')
      | Some lkey \<Rightarrow> Inr lkey)"

definition check_peers :: "SessionConfig \<Rightarrow> session_error + unit" where
  "check_peers c =
     (if sc_num_peers c \<le> 0 \<or> sc_num_peers c > kMaxPeers then Inl (NullSession ''num_peers out of range'')
      else Inr ())"

definition create_session :: "SessionConfig \<Rightarrow> session_env \<Rightarrow> session_error + Session" where
  "create_session c E =
     and_then (thrown (open_device (en_devices E) (en_opens E) (session_nic c E))) (\<lambda>dev.
     and_then (thrown (alloc_pd (en_pd E))) (\<lambda>_.
     and_then (session_cqs c E) (\<lambda>_.
     and_then (session_send_sge c E) (\<lambda>sge.
     and_then (session_qps c E sge) (\<lambda>qps.
     and_then (session_local_mr E) (\<lambda>local_lkey.
     and_then (session_clocal c E) (\<lambda>clocal.
     and_then (session_recv c E) (\<lambda>recv.
     and_then (session_fifos c) (\<lambda>f.
     and_then (register_tables c E) (\<lambda>tb.
     and_then (check_peers c) (\<lambda>_.
     let me = session_local_info c E recv tb
     in and_then (exchange_all c E me (exchange_plan (sc_num_peers c + 1) (sc_rank c))
                    (replicate (nat kMaxPeers) zero_info)) (\<lambda>infos.
        and_then (link_qps E me infos (qp_pairs c) []) (\<lambda>links.
        let ths = spawn_proxies c E (session_proxy_config c E local_lkey clocal sge (tb_staging tb) infos) f 0
                    (nat (session_proxy_threads c))
        in Inr \<lparr>ss_rank = sc_rank c, ss_epoch = 1, ss_num_qps = effective_num_qps c,
                ss_qps = qps, ss_bundle = session_bundle c, ss_threads = ths,
                ss_arrival = create_arrival_flags (total_arrival_slots c) (session_total_lqs c),
                ss_barrier = create_stage_barrier_flags kStageBarrierSlots,
                ss_forward = (if sc_enable_forward_notify c
                  then create_forward_notify_table (total_arrival_slots c) else []),
                ss_remote_infos = infos, ss_has_clocal = (clocal \<noteq> None),
                ss_recv_external = (sc_external_recv_buf c \<noteq> 0), ss_links = links,
                ss_resources = session_resources c (clocal \<noteq> None) (sc_external_recv_buf c \<noteq> 0) ths\<rparr>)))))))))))))"

section \<open>Draining and the epoch transitions\<close>

text \<open>
  One look of \<open>drain_proxy\<close> at a thread. The second operand of the disjunction is evaluated only
  when the ring has been consumed, and dereferences the proxy.
\<close>

definition thread_busy :: "u64 \<Rightarrow> cx7_thread \<Rightarrow> session_error + bool" where
  "thread_busy h th =
     (if cpu_head (thread_fifo th) < h then Inr True
      else case th of Running p \<Rightarrow> Inr (inflight p \<noteq> 0) | Unserved f \<Rightarrow> Inl NullProxy)"

fun threads_drained :: "u64 list \<Rightarrow> cx7_thread list \<Rightarrow> session_error + bool" where
  "threads_drained hs [] = Inr True"
| "threads_drained hs (th # ths) =
     (case thread_busy (hd hs) th of
        Inl e \<Rightarrow> Inl e
      | Inr b \<Rightarrow> if b then Inr False else threads_drained (tl hs) ths)"

text \<open>\<open>snap i\<close> is the state of the threads at the \<open>i\<close>-th check.\<close>

definition drain_proxy :: "(nat \<Rightarrow> cx7_thread list) \<Rightarrow> Session \<Rightarrow> session_error + nat" where
  "drain_proxy snap s = drain_from (\<lambda>i. threads_drained (map (head \<circ> thread_fifo) (ss_threads s)) (snap i)) 0"

text \<open>
  What the host does to a paused proxy. \<open>polls\<close> is what its completion queue returns; \<open>Inr None\<close>
  is a drain that still waits.
\<close>

definition quiesce :: "ibv_wc list list \<Rightarrow> Proxy \<Rightarrow> Proxy option" where
  "quiesce polls p = map_option (\<lambda>(n, q). reset_inflight q) (drain_cq polls (0, p))"

text \<open>
  \<open>prepare_epoch\<close>: \<open>s\<close> is the session when every proxy has acknowledged the pause, the first
  loop, which dereferences every proxy. The loops after it run one after the other; each acts on
  one proxy at a time, so they are done per proxy here.
\<close>

definition prepare_epoch ::
    "(nat \<Rightarrow> cx7_thread list) \<Rightarrow> (nat \<Rightarrow> ibv_wc list list) \<Rightarrow> Session \<Rightarrow> session_error + Session option" where
  "prepare_epoch snap polls s =
     (case drain_proxy snap s of
        Inl e \<Rightarrow> Inl e
      | Inr i \<Rightarrow>
          if \<not> list_all is_served (ss_threads s) then Inl NullProxy
          else case on_proxies (\<lambda>t p. map_option reset_timestamps (quiesce (polls t) p)) 0 (ss_threads s) of
             Inl e \<Rightarrow> Inl e
           | Inr None \<Rightarrow> Inr None
           | Inr (Some ths) \<Rightarrow> Inr (Some (s\<lparr>ss_threads := ths\<rparr>)))"

text \<open>\<open>skip_env\<close>: the variable \<open>MKERNEL_COMMIT_EPOCH_SKIP_ARRIVAL_RESET\<close> is set.\<close>

definition commit_epoch :: "bool \<Rightarrow> u32 \<Rightarrow> Session \<Rightarrow> session_error + Session option" where
  "commit_epoch skip_env e s =
     (case on_proxies (\<lambda>t p. let q = set_epoch e p in Some (q\<lparr>fifo := reset_fifo (fifo q)\<rparr>)) 0 (ss_threads s) of
        Inl err \<Rightarrow> Inl err
      | Inr None \<Rightarrow> Inr None
      | Inr (Some ths) \<Rightarrow>
          Inr (Some (s\<lparr>ss_epoch := e, ss_threads := ths,
            ss_arrival := (if skip_env then ss_arrival s else reset_arrival_flags (ss_arrival s)),
            ss_forward := reset_forward_notify_table (ss_forward s)\<rparr>)))"

definition session_set_epoch ::
    "(nat \<Rightarrow> cx7_thread list) \<Rightarrow> (nat \<Rightarrow> ibv_wc list list) \<Rightarrow> bool \<Rightarrow> u32 \<Rightarrow> Session \<Rightarrow> session_error + Session option" where
  "session_set_epoch snap polls skip_env e s =
     (case prepare_epoch snap polls s of
        Inl err \<Rightarrow> Inl err | Inr None \<Rightarrow> Inr None | Inr (Some s') \<Rightarrow> commit_epoch skip_env e s')"

section \<open>The stage barrier of the host\<close>

definition stage_barrier ::
    "world \<Rightarrow> (nat \<Rightarrow> cx7_thread list) \<Rightarrow> (nat \<Rightarrow> ibv_wc list list) \<Rightarrow> ibv_wc list list \<Rightarrow> (nat \<Rightarrow> u32) \<Rightarrow>
     int \<Rightarrow> u32 \<Rightarrow> Session \<Rightarrow> session_error + Session option" where
  "stage_barrier W snap polls polls0 seen slot token s =
     (if slot < 0 \<or> slot \<ge> int (length (ss_barrier s)) then Inl (Exited ''stage_barrier: invalid slot'')
      else
        case drain_proxy snap s of
          Inl e \<Rightarrow> Inl e
        | Inr i \<Rightarrow>
            (case on_proxies (\<lambda>t p. quiesce (polls t) p) 0 (ss_threads s) of
               Inl e \<Rightarrow> Inl e
             | Inr None \<Rightarrow> Inr None
             | Inr (Some ths) \<Rightarrow>
                 (case ths of
                    Running p # rest \<Rightarrow>
                      (case quiesce polls0 (post_stage_barrier W slot token p) of
                         None \<Rightarrow> Inr None
                       | Some q \<Rightarrow>
                           (case wait_token seen token 0 of
                              None \<Rightarrow> Inl (Exited ''stage_barrier timeout'')
                            | Some k \<Rightarrow> Inr (Some (s\<lparr>ss_threads := Running q # rest\<rparr>))))
                  | _ \<Rightarrow> Inl NullProxy)))"

section \<open>Release and queries\<close>

text \<open>
  What \<open>destroy_session\<close> gives back, in its order; the proxies are drained first when there is one.
\<close>

definition release_all :: "Session \<Rightarrow> resource list" where
  "release_all s =
     (let n = length (ss_threads s); q = nat (ss_num_qps s)
      in [RArrivalMr] @ map RStagingMr [0..<n] @ [RBarrierMr] @
         (if ss_forward s \<noteq> [] then [RForwardMr] else []) @
         (if ss_has_clocal s then [RClocalMr] else []) @ [RLocalMr] @
         (if ss_recv_external s then [RRecvMr] else [RRecvMr, RRecvMem]) @
         map RFifo [0..<n] @ [RArrival] @ map RStaging [0..<n] @ [RBarrier] @
         (if ss_forward s \<noteq> [] then [RForward] else []) @
         map RQp (rev [1..<q]) @ map RCq (rev [1..<n]) @ [RQp 0, RCq 0, RPd, RCtx])"

definition destroy_session :: "(nat \<Rightarrow> cx7_thread list) \<Rightarrow> Session \<Rightarrow> session_error + resource list" where
  "destroy_session snap s =
     (if ss_threads s \<noteq> [] \<and> is_served (hd (ss_threads s)) then
        (case drain_proxy snap s of
           Inl e \<Rightarrow> Inl e
         | Inr i \<Rightarrow>
             Inr (concat (map (\<lambda>t. thread_resources t (ss_threads s ! t)) [0..<length (ss_threads s)]) @ release_all s))
      else Inr (release_all s))"

definition get_num_qps :: "Session option \<Rightarrow> int" where
  "get_num_qps s = (case s of Some t \<Rightarrow> ss_num_qps t | None \<Rightarrow> 1)"

definition get_fifo_device_handle :: "Session \<Rightarrow> nat D2HFifoDeviceBundle" where
  "get_fifo_device_handle s = ss_bundle s"

definition get_proxy_timestamps :: "Session \<Rightarrow> session_error + ProxyTimestamps" where
  "get_proxy_timestamps s =
     (case ss_threads s of Running p # _ \<Rightarrow> Inr (ts p) | _ \<Rightarrow> Inl NullProxy)"

definition running_proxies :: "Session \<Rightarrow> Proxy list" where
  "running_proxies s =
     concat (map (\<lambda>th. case th of Running p \<Rightarrow> [p] | Unserved f \<Rightarrow> []) (ss_threads s))"

definition get_proxy_diagnostics :: "Session option \<Rightarrow> ProxyDiagnostics list" where
  "get_proxy_diagnostics s = (case s of None \<Rightarrow> [] | Some t \<Rightarrow> map diag (running_proxies t))"

definition get_proxy_timelines :: "Session option \<Rightarrow> ProxyTimeline list" where
  "get_proxy_timelines s = (case s of None \<Rightarrow> [] | Some t \<Rightarrow> map get_timeline (running_proxies t))"

end
