(* ===== verification/Session_CX7_Links.thy ===== *)
theory Session_CX7_Links
  imports Session_CX7
begin

text \<open>
  The queue pairs of a CX7 session: which proxy owns them, how the rings are routed to the owners,
  how two nodes connect their queue pairs, and a cluster of three nodes as a concrete instance.
\<close>

section \<open>Counts and owners\<close>

lemma kMax_eq [simp]: "kMaxQPs = 24" "kMaxProxyThreads = 24"
  by (simp_all add: kMaxQPs_def kMaxProxyThreads_def)

lemma effective_num_qps_range: "1 \<le> effective_num_qps c" "effective_num_qps c \<le> 24"
  by (auto simp: effective_num_qps_def Let_def)

lemma session_proxy_threads_range:
  "1 \<le> session_proxy_threads c" "session_proxy_threads c \<le> effective_num_qps c"
  using effective_num_qps_range[of c] by (auto simp: session_proxy_threads_def Let_def)

interpretation cx7: qp_slices "effective_num_qps c" "session_proxy_threads c" "qps_per_proxy c" for c
  by unfold_locales (use session_proxy_threads_range in \<open>simp_all add: qps_per_proxy_def\<close>)

lemmas count_ranges = effective_num_qps_range session_proxy_threads_range cx7.counts(2-4)

text \<open>The thread a key selects is the owner of the queue pair the key is taken to.\<close>

lemma select_is_owner:
  "int (select_fifo_index (session_bundle c) key) = owner_thread c (uint key mod effective_num_qps c)"
  using cx7.ring_of_owner[of c "session_bundle c" key] cx7.owner[of "uint key mod effective_num_qps c" c]
    effective_num_qps_range[of c] by (simp add: session_bundle_def owner_thread_def)

lemma owner_range:
  assumes "0 \<le> q" "q < effective_num_qps c"
  shows "owner_thread c q = q div qps_per_proxy c" "0 \<le> owner_thread c q"
    "owner_thread c q < session_proxy_threads c"
    "owner_thread c q * qps_per_proxy c \<le> q" "q < owner_thread c q * qps_per_proxy c + local_qps c (owner_thread c q)"
    "0 < local_qps c (owner_thread c q)"
  using cx7.owner[OF assms] by (simp_all add: owner_thread_def local_qps_def)

lemma spawn_proxies_nth:
  assumes "i < n" "0 < local_qps c (int t + int i)"
  shows "spawn_proxies c E pc f t n ! i =
    Running (new_proxy (en_channelize_env E) (pc (int t + int i)) f (create_flag_staging (int (BATCH_SIZE * 2 + 2))))"
  using assms
proof (induction n arbitrary: t i)
  case (Suc n)
  have "local_qps c (int t + int i) \<le> local_qps c (int t)"
    using mult_nonneg_nonneg[of "int i" "qps_per_proxy c"] count_ranges(5)[of c]
    unfolding local_qps_def distrib_right by linarith
  then have "0 < local_qps c (int t)" using Suc.prems by simp
  then show ?case using Suc by (cases i) (auto simp: algebra_simps)
qed simp

lemma spawn_proxies_length [simp]: "length (spawn_proxies c E pc f t n) = n"
  by (induction n arbitrary: t) auto

lemma create_session_cases [consumes 1, case_names created]:
  assumes "create_session c E = Inr s"
  obtains qps local_lkey clocal sge tb infos f links recv where
    "session_qps c E sge = Inr qps" "create_d2h_fifo (session_fifo_cap c) = Some f"
    "session_clocal c E = Inr clocal" "1 \<le> sc_num_peers c" "sc_num_peers c \<le> kMaxPeers"
    "exchange_all c E (session_local_info c E recv tb) (exchange_plan (sc_num_peers c + 1) (sc_rank c))
       (replicate (nat kMaxPeers) zero_info) = Inr infos"
    "link_qps E (session_local_info c E recv tb) infos (qp_pairs c) [] = Inr links"
    "ss_num_qps s = effective_num_qps c" "ss_qps s = qps" "ss_bundle s = session_bundle c"
    "ss_threads s = spawn_proxies c E (session_proxy_config c E local_lkey clocal sge (tb_staging tb) infos) f 0
       (nat (session_proxy_threads c))"
    "ss_forward s = (if sc_enable_forward_notify c then create_forward_notify_table (total_arrival_slots c) else [])"
    "ss_has_clocal s \<longleftrightarrow> clocal \<noteq> None" "ss_recv_external s \<longleftrightarrow> sc_external_recv_buf c \<noteq> 0" "ss_links s = links"
    "ss_resources s = session_resources c (ss_has_clocal s) (ss_recv_external s) (ss_threads s)"
  using assms unfolding create_session_def and_then_Inr_iff Let_def session_fifos_def check_peers_def
  by (auto split: option.splits if_splits)

lemma session_qps_nth:
  assumes "session_qps c E sge = Inr qps" "0 \<le> q" "q < effective_num_qps c"
  shows "qi_send_cq (qps ! nat q) = nat (owner_thread c q)" "length qps = nat (effective_num_qps c)"
proof -
  let ?mk = "\<lambda>i. thrown (and_then (create_rc_qp (en_qp E i) (if i = 0 then 0 else nat (owner_thread c i)) 2048 sge)
          (\<lambda>qp. and_then (modify_qp_init (en_qp_init E i) 1) (\<lambda>_. Inr qp)))"
  define mk where "mk = ?mk"
  have e: "map mk [0..effective_num_qps c - 1] = map Inr qps"
    using assms(1) unfolding session_qps_def all_ok_Inr_iff mk_def .
  from arg_cong[OF e, of length] show l: "length qps = nat (effective_num_qps c)" by simp
  from arg_cong[OF e, of "\<lambda>xs. xs ! nat q"] have "mk q = Inr (qps ! nat q)"
    using assms l by simp
  moreover have "qi_send_cq a = (if q = 0 then 0 else nat (owner_thread c q))" if "mk q = Inr a" for a
    using that by (auto simp: mk_def thrown_Inr_iff and_then_Inr_iff create_rc_qp_def rdma_check_def modify_qp_init_def split: if_splits)
  ultimately show "qi_send_cq (qps ! nat q) = nat (owner_thread c q)"
    using owner_range[of 0 c] effective_num_qps_range[of c] assms by (auto simp: owner_thread_def)
qed

text \<open>Whether the proxies route by channel: the environment overrides the configuration.\<close>

definition channel_routing :: "SessionConfig \<Rightarrow> session_env \<Rightarrow> bool" where
  "channel_routing c E =
     (case en_channelize_env E of None \<Rightarrow> sc_channelize_gpu_peers c | Some e \<Rightarrow> e \<noteq> [] \<and> hd e \<noteq> CHR ''0'')"

lemma clamp_session_config:
  assumes "0 < local_qps c t"
  shows "cf_num_qps (clamp_config (en_channelize_env E) (session_proxy_config c E k cl sge st infos t)) = local_qps c t"
    "cf_qp_base_idx (clamp_config (en_channelize_env E) (session_proxy_config c E k cl sge st infos t)) = t * qps_per_proxy c"
    "cf_global_num_qps (clamp_config (en_channelize_env E) (session_proxy_config c E k cl sge st infos t)) = effective_num_qps c"
    "cf_channelize_gpu_peers (clamp_config (en_channelize_env E) (session_proxy_config c E k cl sge st infos t))
      = channel_routing c E"
  using assms effective_num_qps_range[of c]
  by (simp_all add: clamp_config_def session_proxy_config_def Let_def channel_routing_def split: option.splits)

definition route_key :: "bool \<Rightarrow> TransferCmd \<Rightarrow> u32" where
  "route_key channels cmd = (if channels then ucast (reserved0 cmd) else ucast (lane_id cmd))"

lemma route_by_key:
  assumes "cf_global_num_qps pc = effective_num_qps c"
  shows "route_global_qp pc cmd = uint (route_key (cf_channelize_gpu_peers pc) cmd) mod effective_num_qps c"
proof -
  note r = effective_num_qps_range[of c]
  have "uint (word_of_int (effective_num_qps c) :: u8) = effective_num_qps c"
    using r by (simp add: word_of_int_inverse)
  then show ?thesis
    using assms r by (simp add: route_global_qp_def route_key_def uint_up_ucast is_up)
qed

text \<open>
  C15 (safety): in a created session the ring that a command's routing key selects belongs to a
  running proxy that owns the queue pair the proxy routes the command to, and that queue pair
  completes on the completion queue of this proxy: no command is refused as out of range. The key is
  the channel when the proxies route by channel and the lane otherwise.
\<close>

theorem command_reaches_owner:
  assumes "create_session c E = Inr s"
  shows "let t = select_fifo_index (ss_bundle s) (route_key (channel_routing c E) cmd)
    in t < length (ss_threads s) \<and>
       (\<exists>p. ss_threads s ! t = Running p \<and>
          (let q = route_global_qp (cfg p) cmd
           in cf_qp_base_idx (cfg p) \<le> q \<and> q < cf_qp_base_idx (cfg p) + cf_num_qps (cfg p) \<and>
              qi_send_cq (ss_qps s ! nat q) = t))"
  using assms
proof (cases rule: create_session_cases)
  case (created qps local_lkey clocal sge tb infos f links recv)
  define q where "q = uint (route_key (channel_routing c E) cmd) mod effective_num_qps c"
  have q: "0 \<le> q" "q < effective_num_qps c" using effective_num_qps_range[of c] by (auto simp: q_def)
  note o = owner_range[OF q]
  define t where "t = select_fifo_index (ss_bundle s) (route_key (channel_routing c E) cmd)"
  have t: "int t = owner_thread c q"
    using select_is_owner[of c "route_key (channel_routing c E) cmd"] o(1,3)
    by (simp add: t_def created(10) flip: q_def)
  let ?pc = "clamp_config (en_channelize_env E)
    (session_proxy_config c E local_lkey clocal sge (tb_staging tb) infos (int t))"
  have pos: "0 < local_qps c (int t)" using o(6) t by simp
  note cl = clamp_session_config[OF pos, of E local_lkey clocal sge "tb_staging tb" infos]
  obtain p where p: "ss_threads s ! t = Running p" "cfg p = ?pc"
    using spawn_proxies_nth[of t "nat (session_proxy_threads c)" c 0] created(11) pos t o(3)
    by (simp add: new_proxy_def Let_def)
  have r: "route_global_qp (cfg p) cmd = q"
    unfolding p(2) using route_by_key[OF cl(3)] cl(4) by (simp add: q_def)
  have "qi_send_cq (ss_qps s ! nat q) = t" using session_qps_nth(1)[OF created(1) q] created(9) t by simp
  moreover have "t < length (ss_threads s)" using created(11) t o(3) by simp
  ultimately show ?thesis
    unfolding Let_def t_def[symmetric] using p(1) r o(4,5) cl(1,2)[folded p(2)] t by auto
qed

section \<open>Queue pairs\<close>

text \<open>The configurations the pairing is for: skip-self slots, one block of queue pairs for each peer.\<close>

definition paired_config :: "SessionConfig \<Rightarrow> bool" where
  "paired_config c \<longleftrightarrow> sc_peer_ranks c = None \<and> (sc_channelize_gpu_peers c \<or> sc_num_peers c = 1) \<and>
     1 \<le> sc_num_peers c \<and> sc_num_peers c \<le> kMaxPeers \<and> 0 \<le> sc_rank c \<and> sc_rank c \<le> sc_num_peers c"

lemma blocks_fit:
  assumes "paired_config c"
  shows "1 \<le> qps_per_peer c" "sc_num_peers c * qps_per_peer c \<le> effective_num_qps c"
proof -
  let ?Q = "effective_num_qps c" and ?P = "sc_num_peers c"
  note r = effective_num_qps_range[of c]
  show "1 \<le> qps_per_peer c" using r by (simp add: qps_per_peer_def)
  show "?P * qps_per_peer c \<le> ?Q"
  proof (cases "?P = 1")
    case True
    then show ?thesis using r by (simp add: qps_per_peer_def)
  next
    case False
    then have P: "1 < ?P" "?P \<le> 16" "sc_channelize_gpu_peers c"
      using assms by (auto simp: paired_config_def kMaxPeers_def)
    then have "?P \<le> ?Q" by (auto simp: effective_num_qps_def Let_def)
    then have "1 \<le> ?Q div ?P" using P by (simp add: pos_imp_zdiv_pos_iff int_one_le_iff_zero_less)
    then have "qps_per_peer c = ?Q div ?P" using P r by (simp add: qps_per_peer_def)
    then show ?thesis using P div_bounds(1)[of ?P ?Q] by (simp add: mult.commute)
  qed
qed

lemma block_end:
  assumes "paired_config c" "0 \<le> slot" "slot < sc_num_peers c"
  shows "slot * qps_per_peer c + qps_per_peer c \<le> effective_num_qps c"
proof -
  have "(slot + 1) * qps_per_peer c \<le> sc_num_peers c * qps_per_peer c"
    using assms blocks_fit(1)[of c] by (intro mult_right_mono) auto
  then show ?thesis using blocks_fit(2)[OF assms(1)] by (simp add: algebra_simps)
qed

definition remote_slot :: "SessionConfig \<Rightarrow> int \<Rightarrow> int" where
  "remote_slot c slot =
     slot_at_peer (sc_rank c) (peer_rank_for_local_slot c slot) (sc_num_peers c + 1)"

lemma remote_slot_one:
  assumes "paired_config c" "sc_num_peers c = 1"
  shows "remote_slot c 0 = 0"
  using assms by (auto simp: remote_slot_def paired_config_def peer_rank_for_local_slot_def peer_rank_for_slot_def
      slot_at_peer_def Let_def)

lemma qp_pairs_blocks:
  assumes "paired_config c"
  shows "qp_pairs c = concat (map (\<lambda>slot. map (\<lambda>l. (slot, l, remote_slot c slot * qps_per_peer c + (l - slot * qps_per_peer c)))
    [slot * qps_per_peer c..slot * qps_per_peer c + qps_per_peer c - 1]) [0..sc_num_peers c - 1])"
proof (cases "sc_num_peers c = 1")
  case True
  have "min (effective_num_qps c) (qps_per_peer c) = qps_per_peer c" "\<not> sc_channelize_gpu_peers c \<Longrightarrow> effective_num_qps c = qps_per_peer c"
    using block_end[OF assms, of 0] True by (simp_all add: qps_per_peer_def)
  then show ?thesis using True remote_slot_one[OF assms] by (simp add: qp_pairs_def Let_def)
next
  case False
  then have ch: "sc_channelize_gpu_peers c" using assms by (simp add: paired_config_def)
  have "min (effective_num_qps c) (slot * qps_per_peer c + qps_per_peer c) = slot * qps_per_peer c + qps_per_peer c"
    if "slot \<in> {0..<sc_num_peers c}" for slot
    using block_end[OF assms, of slot] that by auto
  then show ?thesis
    unfolding qp_pairs_def Let_def using False ch
    by (intro arg_cong[of _ _ concat] map_cong refl) (simp_all add: remote_slot_def)
qed

lemma in_qp_pairs:
  assumes "paired_config c"
  shows "(slot, l, r) \<in> set (qp_pairs c) \<longleftrightarrow> 0 \<le> slot \<and> slot < sc_num_peers c \<and>
    slot * qps_per_peer c \<le> l \<and> l < slot * qps_per_peer c + qps_per_peer c \<and>
    r = remote_slot c slot * qps_per_peer c + (l - slot * qps_per_peer c)"
  unfolding qp_pairs_blocks[OF assms] by (auto intro!: bexI[of _ slot])

lemma qp_pairs_locals:
  assumes "paired_config c"
  shows "map (\<lambda>(slot, l, r). l) (qp_pairs c) = [0..sc_num_peers c * qps_per_peer c - 1]"
proof -
  have b: "map (\<lambda>(slot, l, r). l) (qp_pairs c)
      = concat (map (\<lambda>slot. [slot * qps_per_peer c..slot * qps_per_peer c + qps_per_peer c - 1]) [0..sc_num_peers c - 1])"
    by (simp add: qp_pairs_blocks[OF assms] map_concat comp_def case_prod_unfold)
  have "concat (map (\<lambda>slot. [slot * k..slot * k + k - 1]) [0..int n - 1]) = [0..int n * k - 1]" if "1 \<le> k" for n and k :: int
  proof (induction n)
    case (Suc n)
    have "[0..int (Suc n) - 1] = [0..int n - 1] @ [int n]" by (simp add: upto_rec2)
    moreover have "[0..int (Suc n) * k - 1] = [0..int n * k - 1] @ [int n * k..int n * k + k - 1]"
      using that upto_split1[of 0 "int n * k" "int n * k + k - 1"] by (simp add: algebra_simps)
    ultimately show ?case using Suc by simp
  qed simp
  from this[of "qps_per_peer c" "nat (sc_num_peers c)"] show ?thesis
    unfolding b using blocks_fit(1)[OF assms] assms by (simp add: paired_config_def)
qed

lemma remote_slot_inverse:
  assumes "paired_config c1" "paired_config c2" "sc_num_peers c2 = sc_num_peers c1"
    and "0 \<le> slot" "slot < sc_num_peers c1" "peer_rank_for_local_slot c1 slot = sc_rank c2"
  shows "0 \<le> remote_slot c1 slot" "remote_slot c1 slot < sc_num_peers c1"
    "peer_rank_for_local_slot c2 (remote_slot c1 slot) = sc_rank c1" "remote_slot c2 (remote_slot c1 slot) = slot"
proof -
  let ?n = "sc_num_peers c1 + 1"
  have p: "peer_rank_for_slot (sc_rank c1) ?n slot = sc_rank c2"
    using assms(1,6) by (simp add: peer_rank_for_local_slot_def paired_config_def)
  have ne: "sc_rank c2 \<noteq> sc_rank c1"
    using skip_self.rank_range[of "sc_rank c1" ?n slot] assms p by (auto simp: paired_config_def)
  have rng: "0 \<le> sc_rank c1" "sc_rank c1 < ?n" "0 \<le> sc_rank c2" "sc_rank c2 < ?n"
    using assms by (auto simp: paired_config_def)
  have e: "remote_slot c1 slot = slot_at_peer (sc_rank c1) (sc_rank c2) ?n"
    using assms(6) by (simp add: remote_slot_def)
  show "0 \<le> remote_slot c1 slot" "remote_slot c1 slot < sc_num_peers c1"
    unfolding e using skip_self.slot_range[of "sc_rank c1" ?n "sc_rank c2"] rng ne by auto
  show home: "peer_rank_for_local_slot c2 (remote_slot c1 slot) = sc_rank c1"
    using skip_self.rank_of_slot_of[of "sc_rank c1" ?n "sc_rank c2"] rng ne assms
    by (simp add: e peer_rank_for_local_slot_def paired_config_def)
  show "remote_slot c2 (remote_slot c1 slot) = slot"
    using skip_self.slot_of_rank_of[of "sc_rank c1" ?n slot] rng assms p home
    by (simp add: remote_slot_def)
qed

lemma qp_pairs_symmetric:
  assumes "paired_config c1" "paired_config c2" "sc_num_peers c2 = sc_num_peers c1" "qps_per_peer c2 = qps_per_peer c1"
    and "(slot, l, r) \<in> set (qp_pairs c1)" "peer_rank_for_local_slot c1 slot = sc_rank c2"
  shows "(remote_slot c1 slot, r, l) \<in> set (qp_pairs c2)"
  using remote_slot_inverse[OF assms(1-3) _ _ assms(6)] assms(5)
  unfolding in_qp_pairs[OF assms(1)] in_qp_pairs[OF assms(2)] assms(3,4) by auto

text \<open>The address tables of a queue pair are those of the peer it is connected to.\<close>

lemma peer_slot_of_paired:
  assumes "paired_config c" "(slot, l, r) \<in> set (qp_pairs c)"
  shows "peer_slot_of_qp c l = slot" "0 \<le> l" "l < effective_num_qps c"
proof -
  note p = assms(2)[unfolded in_qp_pairs[OF assms(1)]]
  have k: "1 \<le> qps_per_peer c" using blocks_fit(1)[OF assms(1)] .
  show l: "0 \<le> l" using p k mult_nonneg_nonneg[of slot "qps_per_peer c"] by linarith
  show "l < effective_num_qps c" using p block_end[OF assms(1), of slot] by linarith
  have "l div qps_per_peer c = slot"
    using p k by (intro int_div_pos_eq[of _ _ _ "l - slot * qps_per_peer c"]) auto
  then show "peer_slot_of_qp c l = slot"
    using p k l assms(1) by (auto simp: peer_slot_of_qp_def paired_config_def)
qed

section \<open>What the exchanges and the transitions leave behind\<close>

lemma exchange_all_length:
  "exchange_all c E me ps infos = Inr infos' \<Longrightarrow> length infos' = length infos"
  by (induction ps arbitrary: infos) (auto simp: Let_def split: if_splits sum.splits)

lemma exchange_all_heard:
  assumes "exchange_all c E me ps infos = Inr infos'" "0 \<le> slot" "nat slot < length infos"
    and "(\<exists>p \<in> set ps. peer_slot_for_rank c (peer_of (sc_rank c) p) = slot) \<or>
      (\<exists>i. en_exchange E slot me = Inr i \<and> infos ! nat slot = i)"
  shows "\<exists>i. en_exchange E slot me = Inr i \<and> infos' ! nat slot = i"
  using assms
proof (induction ps arbitrary: infos)
  case (Cons p ps)
  let ?s = "peer_slot_for_rank c (peer_of (sc_rank c) p)"
  obtain i where i: "0 \<le> ?s" "en_exchange E ?s me = Inr i"
    "exchange_all c E me ps (infos[nat ?s := i]) = Inr infos'"
    using Cons.prems(1) by (auto simp: Let_def split: if_splits sum.splits)
  have "(\<exists>q \<in> set ps. peer_slot_for_rank c (peer_of (sc_rank c) q) = slot) \<or>
      (\<exists>j. en_exchange E slot me = Inr j \<and> infos[nat ?s := i] ! nat slot = j)"
  proof (cases "?s = slot")
    case True
    then show ?thesis using i Cons.prems(3) by simp
  next
    case False
    then have "nat ?s \<noteq> nat slot" using i(1) Cons.prems(2) by linarith
    then show ?thesis using Cons.prems(4) False by simp
  qed
  then show ?case using Cons.IH[OF i(3)] Cons.prems(2,3) by simp
qed simp

lemma plan_visits:
  assumes "paired_config c" "0 \<le> slot" "slot < sc_num_peers c"
  shows "\<exists>p \<in> set (exchange_plan (sc_num_peers c + 1) (sc_rank c)).
    peer_slot_for_rank c (peer_of (sc_rank c) p) = slot"
proof -
  let ?n = "sc_num_peers c + 1" and ?r = "sc_rank c"
  let ?q = "peer_rank_for_local_slot c slot"
  have loc: "peer_rank_for_local_slot c = peer_rank_for_slot ?r ?n"
    using assms(1) by (auto simp: fun_eq_iff peer_rank_for_local_slot_def paired_config_def)
  have rng: "0 \<le> ?r" "?r < ?n" using assms(1) by (auto simp: paired_config_def)
  have q: "0 \<le> ?q" "?q < ?n" "?q \<noteq> ?r"
    using skip_self.rank_range[OF rng assms(2), folded loc] assms(3) by auto
  have "(min ?r ?q, max ?r ?q) \<in> set (exchange_plan ?n ?r)"
    using q rng by (auto simp: exchange_plan_def pair_order_set min_def max_def)
  moreover have "peer_of ?r (min ?r ?q, max ?r ?q) = ?q"
    using q by (auto simp: peer_of_def min_def max_def)
  moreover have "peer_slot_for_rank c ?q = slot"
  proof -
    have "find (\<lambda>s. peer_rank_for_local_slot c s = ?q) [0..sc_num_peers c - 1] = Some slot"
      unfolding find_Some_iff
    proof (intro exI[of _ "nat slot"] conjI allI impI)
      fix j assume j: "j < nat slot"
      show "peer_rank_for_local_slot c ([0..sc_num_peers c - 1] ! j) \<noteq> ?q"
        using skip_self.rank_of_inj_on[OF rng, folded loc] j assms unfolding inj_on_def by fastforce
    qed (use assms in auto)
    then show ?thesis by (simp add: peer_slot_for_rank_def)
  qed
  ultimately show ?thesis by (intro bexI[of _ "(min ?r ?q, max ?r ?q)"]) auto
qed

lemma link_qps_locals:
  "link_qps E me infos ps links = Inr links' \<Longrightarrow> map fst links' = map fst links @ map (\<lambda>(slot, l, r). l) ps"
  by (induction ps arbitrary: links) (auto simp: Let_def split: sum.splits prod.splits)

lemma link_qps_keeps: "link_qps E me infos ps links = Inr links' \<Longrightarrow> set links \<subseteq> set links'"
  by (induction ps arbitrary: links) (fastforce simp: Let_def split: sum.splits prod.splits)+

lemma link_qps_member:
  assumes "link_qps E me infos ps links = Inr links'" "(slot, l, r) \<in> set ps"
  shows "\<exists>rtr rts. (l, rtr, rts) \<in> set links' \<and>
    qa_dest_qp_num rtr = ci_qp_num (remote_qp_info (infos ! nat slot) r) \<and>
    qa_rq_psn rtr = ci_psn (remote_qp_info (infos ! nat slot) r) \<and>
    qa_sq_psn rts = (if l = 0 then ci_psn me else ci_extra_psns me ! nat (l - 1))"
  using assms
proof (induction ps arbitrary: links)
  case (Cons p ps)
  obtain s l' r' where p: "p = (s, l', r')" by (cases p)
  obtain rtr m rts m' where x:
    "modify_qp_rtr (en_modify E (2 * int (length links))) (roce_gid_index (en_gid_env E)) (remote_qp_info (infos ! nat s) r') 1 = Inr (rtr, m)"
    "modify_qp_rts (en_modify E (2 * int (length links) + 1)) (if l' = 0 then ci_psn me else ci_extra_psns me ! nat (l' - 1)) = Inr (rts, m')"
    "link_qps E me infos ps (links @ [(l', rtr, rts)]) = Inr links'"
    using Cons.prems(1) by (auto simp: p Let_def split: sum.splits prod.splits)
  show ?case
  proof (cases "(slot, l, r) = p")
    case True
    then have "(l, rtr, rts) \<in> set links'" using link_qps_keeps[OF x(3)] p by auto
    moreover have "qa_dest_qp_num rtr = ci_qp_num (remote_qp_info (infos ! nat slot) r) \<and>
      qa_rq_psn rtr = ci_psn (remote_qp_info (infos ! nat slot) r)"
      using x(1) True by (auto simp: p modify_qp_rtr_def rdma_check_def Let_def split: if_splits)
    moreover have "qa_sq_psn rts = (if l = 0 then ci_psn me else ci_extra_psns me ! nat (l - 1))"
      using x(2) True by (auto simp: p modify_qp_rts_def rdma_check_def Let_def split: if_splits)
    ultimately show ?thesis by blast
  qed (use Cons.IH[OF x(3)] Cons.prems(2) in auto)
qed simp

text \<open>Node 1 hears node 2: whatever it sends, it receives the record of the session of node 2.\<close>

definition hears :: "session_env \<Rightarrow> int \<Rightarrow> SessionConfig \<Rightarrow> session_env \<Rightarrow> bool" where
  "hears E slot c' E' \<longleftrightarrow> (\<forall>me. \<exists>recv tb. en_exchange E slot me = Inr (session_local_info c' E' recv tb))"

lemma local_info_qp:
  assumes "0 \<le> r" "r < effective_num_qps c"
  shows "ci_qp_num (remote_qp_info (session_local_info c E recv tb) r) = en_qp_nums E ! nat r"
    "ci_psn (remote_qp_info (session_local_info c E recv tb) r) = 0"
    "(if r = 0 then ci_psn (session_local_info c E recv tb) else ci_extra_psns (session_local_info c E recv tb) ! nat (r - 1)) = 0"
proof -
  have n: "nat (r - 1) < 23" "Suc (nat (r - 1)) = nat r" "nat (r - 1) < nat (effective_num_qps c) - Suc 0" if "r \<noteq> 0"
    using that assms effective_num_qps_range[of c] by auto
  show "ci_qp_num (remote_qp_info (session_local_info c E recv tb) r) = en_qp_nums E ! nat r"
    "ci_psn (remote_qp_info (session_local_info c E recv tb) r) = 0"
    "(if r = 0 then ci_psn (session_local_info c E recv tb) else ci_extra_psns (session_local_info c E recv tb) ! nat (r - 1)) = 0"
    using n by (auto simp: remote_qp_info_def session_local_info_def fill_local_info_def zero_info_def Let_def split: option.splits)
qed

lemma created_link:
  assumes "create_session c E = Inr s" "paired_config c" "(slot, l, r) \<in> set (qp_pairs c)"
    and "hears E slot c' E'" "0 \<le> r" "r < effective_num_qps c'"
  shows "\<exists>rtr rts. (l, rtr, rts) \<in> set (ss_links s) \<and> qa_dest_qp_num rtr = en_qp_nums E' ! nat r \<and>
    qa_rq_psn rtr = 0 \<and> qa_sq_psn rts = 0"
  using assms(1)
proof (cases rule: create_session_cases)
  case (created qps local_lkey clocal sge tb infos f links recv)
  note p = assms(3)[unfolded in_qp_pairs[OF assms(2)]]
  note l = peer_slot_of_paired[OF assms(2,3)]
  let ?me = "session_local_info c E recv tb"
  have "nat slot < length (replicate (nat kMaxPeers) zero_info)"
    using p assms(2) by (simp add: paired_config_def)
  then have "\<exists>i. en_exchange E slot ?me = Inr i \<and> infos ! nat slot = i"
    using exchange_all_heard[OF created(6)] plan_visits[OF assms(2)] p by blast
  then obtain recv' tb' where "infos ! nat slot = session_local_info c' E' recv' tb'"
    using assms(4) unfolding hears_def by (metis Inr_inject)
  then show ?thesis
    using link_qps_member[OF created(7) assms(3)] local_info_qp(1,2)[OF assms(5,6)] local_info_qp(3)[OF l(2,3)]
    by (auto simp: created(15))
qed

text \<open>
  C16 (functional): take two nodes whose ranks follow the default order and that have one peer each or
  split the queue pairs over the peers (\<open>paired_config\<close>), with the same numbers of peers and of
  queue pairs and the same splitting on both. When both have created their sessions and each heard the
  record of the other, the pair that connects local queue pair \<open>l\<close> with remote queue pair \<open>r\<close> has the
  peer's number of \<open>r\<close>, the peer connects \<open>r\<close> with \<open>l\<close>, the packet sequence numbers agree, and no queue
  pair of the node is connected twice. Without the splitting, and with several peers, a queue
  pair is connected once for each peer (\<open>unchannelized_links_twice\<close>).
\<close>

theorem qps_connected_pairwise:
  assumes "create_session c1 E1 = Inr s1" "create_session c2 E2 = Inr s2"
    and "paired_config c1" "paired_config c2"
    and "sc_num_peers c2 = sc_num_peers c1" "effective_num_qps c2 = effective_num_qps c1"
    and "sc_channelize_gpu_peers c2 = sc_channelize_gpu_peers c1"
    and "peer_rank_for_local_slot c1 slot = sc_rank c2"
    and "hears E1 slot c2 E2" "hears E2 (remote_slot c1 slot) c1 E1"
    and "(slot, l, r) \<in> set (qp_pairs c1)"
  shows "distinct (map fst (ss_links s1)) \<and>
    (\<exists>rtr rts rtr' rts'. (l, rtr, rts) \<in> set (ss_links s1) \<and> (r, rtr', rts') \<in> set (ss_links s2) \<and>
      qa_dest_qp_num rtr = en_qp_nums E2 ! nat r \<and> qa_dest_qp_num rtr' = en_qp_nums E1 ! nat l \<and>
      qa_rq_psn rtr = qa_sq_psn rts' \<and> qa_rq_psn rtr' = qa_sq_psn rts)"
proof -
  have q: "qps_per_peer c2 = qps_per_peer c1" using assms(5-7) by (simp add: qps_per_peer_def)
  have back_pair: "(remote_slot c1 slot, r, l) \<in> set (qp_pairs c2)"
    by (rule qp_pairs_symmetric[OF assms(3,4,5) q assms(11,8)])
  note l = peer_slot_of_paired[OF assms(3,11)] and r = peer_slot_of_paired[OF assms(4) back_pair]
  have "distinct (map fst (ss_links s1))"
    using assms(1)
  proof (cases rule: create_session_cases)
    case (created qps local_lkey clocal sge tb infos f links recv)
    then show ?thesis using link_qps_locals[OF created(7)] qp_pairs_locals[OF assms(3)] by simp
  qed
  then show ?thesis
    using created_link[OF assms(1,3,11,9) r(2,3)] created_link[OF assms(2,4) back_pair assms(10) l(2,3)] by metis
qed

section \<open>A cluster of three nodes\<close>

definition cluster_config :: "int \<Rightarrow> SessionConfig" where
  "cluster_config r =
     \<lparr>sc_rank = r, sc_num_peers = 2, sc_peer_ranks = None, sc_local_gpu_buf = 4096, sc_local_gpu_buf_size = 1024,
      sc_clocal_gpu_buf = 0, sc_clocal_gpu_buf_size = 0, sc_direct_dmabuf_enabled = False, sc_row_stride_bytes = 0,
      sc_recv_buf_size = 1024, sc_external_recv_buf = 8192, sc_num_tiles = 4, sc_fifo_capacity = 2, sc_device_id = 0,
      sc_max_inflight = 0, sc_num_qps = 1, sc_logical_queues_per_qp = 1, sc_num_proxy_threads = 2,
      sc_channelize_gpu_peers = True, sc_use_arrival_queue = False, sc_enable_forward_notify = False,
      sc_nic_name = ''mlx5_0'', sc_pin_proxy = False\<rparr>"

definition cluster_mr :: "u32 mr_calls" where
  "cluster_mr = \<lparr>mc_range_fd = None, mc_range_mr = None, mc_retained = False, mc_export_fd = None, mc_retain_mr = None,
     mc_reg_mr = Some 5\<rparr>"

definition cluster_base :: "int \<Rightarrow> session_env" where
  "cluster_base r =
     \<lparr>en_pd = True, en_cq = (\<lambda>t. True), en_qp = (\<lambda>i. True), en_qp_init = (\<lambda>i. 0),
      en_gpu_numa = None, en_nic_dir = [], en_devices = Some [''mlx5_0''], en_opens = (\<lambda>i. True), en_max_sge = None,
      en_local_mr = cluster_mr, en_clocal_mr = cluster_mr, en_recv_ptr = None, en_recv_mr = cluster_mr,
      en_qp_nums = map (\<lambda>i. word_of_int (100 * (r + 1) + i)) [0..15], en_lid = 0,
      en_gid_at = (\<lambda>i. replicate 16 0), en_gid_env = None,
      en_arrival_addr = 65536, en_arrival_mr = Some 7, en_staging_addr = (\<lambda>t. 70000), en_staging_mr = (\<lambda>t. Some 8),
      en_barrier_addr = 80000, en_barrier_mr = Some 9, en_forward_addr = 90000, en_forward_mr = Some 10,
      en_exchange = (\<lambda>slot me. Inl []), en_modify = (\<lambda>k. 0), en_samples = [(0, 0, 2)], en_tail_env = None,
      en_channelize_env = None\<rparr>"

definition cluster_env :: "int \<Rightarrow> session_env" where
  "cluster_env r = (cluster_base r)\<lparr>en_exchange := (\<lambda>slot me.
     let q = peer_rank_for_slot r 3 slot
     in Inr (session_local_info (cluster_config q) (cluster_base q)
          \<lparr>gb_ptr = 8192, gb_size = 1024, gb_mr = Some 5\<rparr>
          \<lparr>tb_arrival = 7, tb_staging = [], tb_barrier = 9, tb_forward = None\<rparr>))\<rparr>"

lemma cluster_hears:
  assumes "q = peer_rank_for_slot r 3 slot"
  shows "hears (cluster_env r) slot (cluster_config q) (cluster_env q)"
  unfolding hears_def assms
  by (intro allI exI[of _ "\<lparr>gb_ptr = 8192, gb_size = 1024, gb_mr = Some 5\<rparr>"]
      exI[of _ "\<lparr>tb_arrival = 7, tb_staging = [], tb_barrier = 9, tb_forward = None\<rparr>"])
    (simp add: cluster_env_def session_local_info_def cluster_base_def Let_def)

lemma cluster_counts [simp]:
  "effective_num_qps (cluster_config r) = 16" "sc_num_peers (cluster_config r) = 2" "sc_rank (cluster_config r) = r"
  "sc_channelize_gpu_peers (cluster_config r)" "sc_peer_ranks (cluster_config r) = None" "qps_per_peer (cluster_config r) = 8"
  by (simp_all add: cluster_config_def effective_num_qps_def qps_per_peer_def)

lemma cluster_threads [simp]: "session_proxy_threads (cluster_config r) = 2" "qps_per_proxy (cluster_config r) = 8"
proof -
  show "session_proxy_threads (cluster_config r) = 2"
    by (simp add: session_proxy_threads_def) (simp add: cluster_config_def)
  then show "qps_per_proxy (cluster_config r) = 8" by (simp add: qps_per_proxy_def ceil_div_def)
qed

lemma cluster_paired: "paired_config (cluster_config 0)" "paired_config (cluster_config 1)" "paired_config (cluster_config 2)"
  by (simp_all add: paired_config_def cluster_config_def kMaxPeers_def)

text \<open>A session is created when every call on the way succeeds.\<close>

lemma link_qps_succeeds:
  assumes "\<And>k. en_modify E k = 0"
  shows "\<exists>links'. link_qps E me infos ps links = Inr links'"
  using assms
  by (induction ps arbitrary: links)
    (auto simp: Let_def modify_qp_rtr_def modify_qp_rts_def rdma_check_def split: prod.splits)

lemma exchange_all_succeeds:
  assumes "\<And>slot. \<exists>i. en_exchange E slot me = Inr i"
    and "\<And>p. p \<in> set ps \<Longrightarrow> 0 \<le> peer_slot_for_rank c (peer_of (sc_rank c) p)"
  shows "\<exists>infos'. exchange_all c E me ps infos = Inr infos'"
  using assms(2)
proof (induction ps arbitrary: infos)
  case (Cons p ps)
  obtain i where "en_exchange E (peer_slot_for_rank c (peer_of (sc_rank c) p)) me = Inr i" using assms(1) by blast
  then show ?case using Cons.IH Cons.prems[of p] Cons.prems by (simp add: Let_def not_less)
qed simp

lemma plan_slots:
  assumes "paired_config c" "p \<in> set (exchange_plan (sc_num_peers c + 1) (sc_rank c))"
  shows "0 \<le> peer_slot_for_rank c (peer_of (sc_rank c) p)"
proof -
  let ?n = "sc_num_peers c + 1" and ?r = "sc_rank c" and ?q = "peer_of (sc_rank c) p"
  have loc: "peer_rank_for_local_slot c = peer_rank_for_slot ?r ?n"
    using assms(1) by (auto simp: fun_eq_iff peer_rank_for_local_slot_def paired_config_def)
  have rng: "0 \<le> ?r" "?r < ?n" using assms(1) by (auto simp: paired_config_def)
  have "?q \<in> {0..<?n} - {?r}"
    using assms(2) by (auto simp: exchange_plan_def peer_of_def pair_order_set split: if_splits)
  then obtain s where "s \<in> {0..<sc_num_peers c}" "peer_rank_for_local_slot c s = ?q"
    using skip_self.rank_of_image[OF rng, folded loc] by (metis add_diff_cancel_right' imageE)
  then have "\<exists>x \<in> set [0..sc_num_peers c - 1]. peer_rank_for_local_slot c x = ?q" by auto
  then obtain x where "find (\<lambda>s. peer_rank_for_local_slot c s = ?q) [0..sc_num_peers c - 1] = Some x"
    using find_None_iff[of "\<lambda>s. peer_rank_for_local_slot c s = ?q" "[0..sc_num_peers c - 1]"] by fastforce
  moreover from this have "x \<in> set [0..sc_num_peers c - 1]" by (metis find_Some_iff nth_mem)
  ultimately show ?thesis by (simp add: peer_slot_for_rank_def)
qed

lemma cluster_created: "\<exists>s. create_session (cluster_config r) (cluster_env r) = Inr s" if "0 \<le> r" "r \<le> 2"
proof -
  let ?c = "cluster_config r" and ?E = "cluster_env r"
  have p: "paired_config ?c" using that by (simp add: paired_config_def cluster_config_def kMaxPeers_def)
  have "\<exists>qps. session_qps ?c ?E 2 = Inr qps"
    unfolding session_qps_def
    by (rule all_ok_map_Inr) (simp add: cluster_env_def cluster_base_def create_rc_qp_def modify_qp_init_def rdma_check_def thrown_def)
  moreover have "\<exists>cqs. session_cqs ?c ?E = Inr cqs"
    unfolding session_cqs_def
    by (rule all_ok_map_Inr) (simp add: cluster_env_def cluster_base_def create_cq_def rdma_check_def thrown_def)
  moreover have "\<exists>st. all_ok (map (\<lambda>t. reg_mr (en_staging_mr ?E t)) [0..session_proxy_threads ?c - 1]) = Inr st"
    by (rule all_ok_map_Inr) (simp add: cluster_env_def cluster_base_def reg_mr_def)
  then have "\<exists>tb. register_tables ?c ?E = Inr tb"
    by (auto simp: register_tables_def cluster_config_def cluster_env_def cluster_base_def reg_mr_def thrown_def)
  moreover have "\<exists>links. link_qps ?E me infos ps [] = Inr links" for me infos ps
    by (rule link_qps_succeeds) (simp add: cluster_env_def cluster_base_def)
  moreover have "\<exists>infos. exchange_all ?c ?E me (exchange_plan (sc_num_peers ?c + 1) (sc_rank ?c)) i0 = Inr infos" for me i0
    by (rule exchange_all_succeeds[OF _ plan_slots[OF p]]) (simp_all add: cluster_env_def Let_def)
  moreover have "open_device (en_devices ?E) (en_opens ?E) (session_nic ?c ?E) = Inr 0" "en_pd ?E"
    "session_send_sge ?c ?E = Inr 2" "session_local_mr ?E = Inr 5" "session_clocal ?c ?E = Inr None"
    "\<exists>rv. session_recv ?c ?E = Inr rv" "\<exists>f. session_fifos ?c = Inr f" "check_peers ?c = Inr ()"
    by (simp_all add: cluster_env_def cluster_base_def cluster_config_def open_device_def session_nic_def rdma_check_def
        session_send_sge_def session_local_mr_def register_gpu_buffer_def cluster_mr_def usable_fd_def session_clocal_def
        session_recv_def session_fifos_def session_fifo_cap_def create_d2h_fifo_def check_peers_def kMaxPeers_def)
  ultimately show ?thesis
    unfolding create_session_def and_then_Inr_iff Let_def by (simp add: thrown_def alloc_pd_def rdma_check_def) metis
qed

theorem qps_connected_pairwise_witness:
  "\<exists>s0 s1. create_session (cluster_config 0) (cluster_env 0) = Inr s0 \<and> create_session (cluster_config 1) (cluster_env 1) = Inr s1 \<and>
    distinct (map fst (ss_links s0)) \<and>
    (\<exists>rtr rts rtr' rts'. (3, rtr, rts) \<in> set (ss_links s0) \<and> (11, rtr', rts') \<in> set (ss_links s1) \<and>
      qa_dest_qp_num rtr = 211 \<and> qa_dest_qp_num rtr' = 103 \<and>
      qa_rq_psn rtr = qa_sq_psn rts' \<and> qa_rq_psn rtr' = qa_sq_psn rts)"
proof -
  obtain s0 s1 where s: "create_session (cluster_config 0) (cluster_env 0) = Inr s0"
    "create_session (cluster_config 1) (cluster_env 1) = Inr s1" using cluster_created[of 0] cluster_created[of 1] by auto
  have slots: "peer_rank_for_local_slot (cluster_config 0) 0 = 1" "remote_slot (cluster_config 0) 0 = 1"
    by (simp_all add: remote_slot_def peer_rank_for_local_slot_def peer_rank_for_slot_def slot_at_peer_def)
  have pair: "(0, 3, 11) \<in> set (qp_pairs (cluster_config 0))"
    unfolding in_qp_pairs[OF cluster_paired(1)] by (simp add: slots)
  have nums: "en_qp_nums (cluster_env 1) ! 11 = 211" "en_qp_nums (cluster_env 0) ! 3 = 103"
    by (simp_all add: cluster_env_def cluster_base_def)
  have h: "hears (cluster_env 0) 0 (cluster_config 1) (cluster_env 1)" "hears (cluster_env 1) (remote_slot (cluster_config 0) 0) (cluster_config 0) (cluster_env 0)"
    by (rule cluster_hears; simp add: slots peer_rank_for_slot_def)+
  show ?thesis
    using qps_connected_pairwise[OF s cluster_paired(1,2), of 0 3 11] slots pair h s by (simp add: nums)
qed

theorem command_reaches_owner_witness:
  "\<exists>s p. create_session (cluster_config 0) (cluster_env 0) = Inr s \<and> ss_threads s ! 1 = Running p \<and>
    cf_qp_base_idx (cfg p) \<le> route_global_qp (cfg p) (zero_cmd\<lparr>reserved0 := 11, lane_id := 2\<rparr>) \<and>
    route_global_qp (cfg p) (zero_cmd\<lparr>reserved0 := 11, lane_id := 2\<rparr>) < cf_qp_base_idx (cfg p) + cf_num_qps (cfg p) \<and>
    qi_send_cq (ss_qps s ! nat (route_global_qp (cfg p) (zero_cmd\<lparr>reserved0 := 11, lane_id := 2\<rparr>))) = 1"
proof -
  let ?cmd = "zero_cmd\<lparr>reserved0 := 11, lane_id := 2\<rparr>"
  obtain s where s: "create_session (cluster_config 0) (cluster_env 0) = Inr s" using cluster_created[of 0] by auto
  have k: "route_key (channel_routing (cluster_config 0) (cluster_env 0)) ?cmd = 11"
    by (simp add: route_key_def channel_routing_def cluster_env_def cluster_base_def)
  have t: "select_fifo_index (ss_bundle s) 11 = 1"
    using s by (cases rule: create_session_cases) (simp add: session_bundle_def select_fifo_index_def Let_def)
  show ?thesis using command_reaches_owner[OF s, of ?cmd] s unfolding k t Let_def by blast
qed

end
