(* ===== verification/Session_CX7_Epoch.thy ===== *)
theory Session_CX7_Epoch
  imports Session_CX7_Links Proxy_CX7_Loop
begin

text \<open>
  The life of a CX7 session after its creation: draining, the epoch transition, the release of its
  resources, the clock calibration, and concrete configurations outside the conditions of the
  theorems.
\<close>

section \<open>Epochs\<close>

lemma set_epoch_Inr:
  assumes "session_set_epoch snap polls skip_env e s = Inr (Some s')"
  obtains s1 where "prepare_epoch snap polls s = Inr (Some s1)" "commit_epoch skip_env e s1 = Inr (Some s')"
  using assms by (auto simp: session_set_epoch_def split: sum.splits option.splits)

text \<open>
  The proxy \<open>p\<close> in a new epoch, with the ring \<open>f\<close>: everything an epoch transition sets.
  What is not listed is kept, \<open>pending_cmd\<close> and \<open>has_pending_cmd\<close> included.
\<close>

definition epoch_proxy :: "u32 \<Rightarrow> D2HFifo \<Rightarrow> Proxy \<Rightarrow> Proxy" where
  "epoch_proxy e f p = p\<lparr>cfg := (cfg p)\<lparr>cf_epoch := e\<rparr>, inflight := 0, ts := ts_reset,
     sender_seq := replicate (length (sender_seq p)) 0,
     diag := diag_reset\<lparr>dg_qp_base_idx := cf_qp_base_idx (cfg p), dg_num_qps := cf_num_qps (cfg p)\<rparr>,
     batch_post_ns := replicate (length (batch_post_ns p)) [], signaled_post_ns := [], completion_ns := [],
     fifo := f\<rparr>"

text \<open>Draining changes the inflight count and the times of the posts still open, nothing else.\<close>

definition undrained :: "Proxy \<Rightarrow> Proxy \<Rightarrow> bool" where
  "undrained p q \<longleftrightarrow> q = p\<lparr>inflight := inflight q, batch_post_ns := batch_post_ns q\<rparr> \<and>
     length (batch_post_ns q) = length (batch_post_ns p)"

lemma undrained_refl: "undrained p p"
  by (simp add: undrained_def)

lemma undrained_trans: "undrained p q \<Longrightarrow> undrained q r \<Longrightarrow> undrained p r"
  unfolding undrained_def by (cases p; cases q; cases r) simp

lemma undrained_fields:
  assumes "undrained p q"
  shows "cfg q = cfg p" "fifo q = fifo p" "posts q = posts p" "pending_cmd q = pending_cmd p"
    "has_pending_cmd q = has_pending_cmd p"
  using assms unfolding undrained_def by (cases p; cases q; simp)+

lemma drain_one_undrained: "undrained p (snd (drain_one (n, p) w))"
  by (simp add: undrained_def drain_one_def Let_def)

lemma drain_fold_undrained: "undrained p (snd acc) \<Longrightarrow> undrained p (snd (foldl drain_one acc wcs))"
proof (induction wcs arbitrary: acc)
  case (Cons w wcs)
  then show ?case by (cases acc) (simp add: undrained_trans[OF _ drain_one_undrained])
qed simp

lemma drain_cq_undrained:
  assumes "drain_cq polls acc = Some (m, q)"
  shows "undrained (snd acc) q"
  using assms
proof (induction polls acc arbitrary: m q rule: drain_cq.induct)
  case (1 polls n p)
  show ?case
  proof (cases "inflight p > 0")
    case True
    then obtain wcs rest where w: "polls = wcs # rest" "drain_cq rest (foldl drain_one (n, p) wcs) = Some (m, q)"
      using "1.prems" by (auto simp: drain_cq.simps[of polls] split: list.splits)
    have "undrained p (snd (foldl drain_one (n, p) wcs))"
      by (rule drain_fold_undrained) (simp add: undrained_refl)
    then show ?thesis using undrained_trans "1.IH"[OF True w] by simp
  next
    case False
    then show ?thesis using "1.prems" by (simp add: drain_cq.simps undrained_refl)
  qed
qed

text \<open>Draining returns for a session without null proxies.\<close>

lemma threads_drained_served: "list_all is_served ths \<Longrightarrow> \<exists>d. threads_drained hs ths = Inr d"
  by (induction hs ths rule: threads_drained.induct)
    (auto simp: thread_busy_def is_served_def split: sum.splits proxy_thread.splits)

lemma drain_proxy_served:
  assumes "\<And>i. list_all is_served (snap i)"
  shows "\<exists>k. drain_proxy snap s = Inr k"
  unfolding drain_proxy_def by (rule drain_from_returns) (rule threads_drained_served[OF assms])

text \<open>One proxy over a transition.\<close>

lemma reset_fifo_created:
  assumes "create_d2h_fifo (capacity f) \<noteq> None"
  shows "create_d2h_fifo (capacity f) = Some (reset_fifo f)"
proof -
  have "capacity (reset_fifo f) = capacity f" by (simp add: reset_fifo_def)
  then show ?thesis using assms reset_fifo_fresh[of f] by auto
qed

lemma transition_one:
  assumes "map_option reset_timestamps (quiesce pl p) = Some q"
  shows "(set_epoch e q)\<lparr>fifo := reset_fifo (fifo (set_epoch e q))\<rparr> = epoch_proxy e (reset_fifo (fifo p)) p"
proof -
  obtain m r where r: "drain_cq pl (0, p) = Some (m, r)" "q = reset_timestamps (reset_inflight r)"
    using assms by (auto simp: quiesce_def)
  have "undrained p r" using drain_cq_undrained[OF r(1)] by simp
  then show ?thesis
    unfolding r(2) undrained_def
    by (cases p; cases r) (simp add: epoch_proxy_def set_epoch_def reset_timestamps_def reset_inflight_def)
qed


lemma created_thread:
  assumes "create_session c E = Inr s" "int t < session_proxy_threads c" "0 < local_qps c (int t)"
  obtains p where "ss_threads s ! t = Running p" "t < length (ss_threads s)" "inflight p = 0" "has_pending_cmd p = False"
    "create_d2h_fifo (session_fifo_cap c) = Some (fifo p)"
  using assms(1)
proof (cases rule: create_session_cases)
  case (created qps local_lkey clocal sge tb infos f links recv)
  let ?p = "new_proxy (en_channelize_env E) (session_proxy_config c E local_lkey clocal sge (tb_staging tb) infos (int t)) f
    (create_flag_staging (int (BATCH_SIZE * 2 + 2)))"
  have "fifo ?p = f" "inflight ?p = 0" "has_pending_cmd ?p = False" by (simp_all add: new_proxy_def Let_def)
  then show ?thesis
    using spawn_proxies_nth[of t "nat (session_proxy_threads c)" c 0] assms(2,3) created(2,11)
    by (intro that[of ?p]) simp_all
qed

lemma cluster_thread:
  assumes "create_session (cluster_config r) (cluster_env r) = Inr s"
  shows "length (ss_threads s) = 2" "t < 2 \<Longrightarrow> \<exists>p. ss_threads s ! t = Running p \<and> inflight p = 0 \<and> capacity (fifo p) = 2"
proof -
  show "length (ss_threads s) = 2" using assms by (cases rule: create_session_cases) simp
  assume "t < 2"
  then have "int t < session_proxy_threads (cluster_config r)" "0 < local_qps (cluster_config r) (int t)"
    by (auto simp: local_qps_def)
  then obtain p where "ss_threads s ! t = Running p" "inflight p = 0" "create_d2h_fifo (session_fifo_cap (cluster_config r)) = Some (fifo p)"
    using created_thread[OF assms] by metis
  then show "\<exists>p. ss_threads s ! t = Running p \<and> inflight p = 0 \<and> capacity (fifo p) = 2"
    by (auto simp: session_fifo_cap_def cluster_config_def create_d2h_fifo_def split: if_splits dest!: sym[of _ "fifo p"])
qed


section \<open>Release\<close>

text \<open>\<open>uses c a b\<close>: resource \<open>a\<close> must be gone before \<open>b\<close> is released.\<close>

definition uses :: "SessionConfig \<Rightarrow> resource \<Rightarrow> resource \<Rightarrow> bool" where
  "uses c a b =
     (case a of
        RProxy t \<Rightarrow> (case b of RProxy u \<Rightarrow> False | _ \<Rightarrow> True)
      | RQp i \<Rightarrow> (case b of RCq t \<Rightarrow> int t = owner_thread c (int i) | _ \<Rightarrow> b = RPd \<or> b = RCtx)
      | RCq t \<Rightarrow> b = RCtx
      | RPd \<Rightarrow> b = RCtx
      | RLocalMr \<Rightarrow> b = RPd \<or> b = RCtx
      | RClocalMr \<Rightarrow> b = RPd \<or> b = RCtx
      | RRecvMr \<Rightarrow> b = RRecvMem \<or> b = RPd \<or> b = RCtx
      | RArrivalMr \<Rightarrow> b = RArrival \<or> b = RPd \<or> b = RCtx
      | RStagingMr t \<Rightarrow> b = RStaging t \<or> b = RPd \<or> b = RCtx
      | RBarrierMr \<Rightarrow> b = RBarrier \<or> b = RPd \<or> b = RCtx
      | RForwardMr \<Rightarrow> b = RForward \<or> b = RPd \<or> b = RCtx
      | _ \<Rightarrow> False)"

lemma total_arrival_slots_pos: "0 < total_arrival_slots c"
proof -
  have "1 \<le> session_lqs c" by (simp add: session_lqs_def Let_def)
  then have "0 < session_total_lqs c" using count_ranges(1)[of c] by (simp add: session_total_lqs_def)
  then show ?thesis by (simp add: total_arrival_slots_def logical_queue_stride_def)
qed

definition thread_list :: "cx7_thread list \<Rightarrow> resource list" where
  "thread_list ths = concat (map (\<lambda>t. thread_resources t (ths ! t)) [0..<length ths])"

lemma thread_resources_served: "thread_resources t th = (if is_served th then [RProxy t] else [])"
  by (simp add: thread_resources_def is_served_def split: proxy_thread.splits)

lemma thread_list_props:
  "set (thread_list ths) = RProxy ` {t. t < length ths \<and> is_served (ths ! t)}" "distinct (thread_list ths)"
  "sorted_wrt (\<lambda>a b. \<not> uses c b a) (thread_list ths)"
proof -
  have e: "thread_list ths = map RProxy (filter (\<lambda>t. is_served (ths ! t)) [0..<length ths])"
    by (simp add: thread_list_def thread_resources_served concat_map_if)
  show "set (thread_list ths) = RProxy ` {t. t < length ths \<and> is_served (ths ! t)}" "distinct (thread_list ths)"
    "sorted_wrt (\<lambda>a b. \<not> uses c b a) (thread_list ths)"
    unfolding e by (auto simp: distinct_map inj_on_def sorted_wrt_map uses_def)
qed

lemma uses_proxy: "\<not> uses c a (RProxy t)"
  by (cases a) (simp_all add: uses_def)

lemma release_sorted: "sorted_wrt (\<lambda>a b. \<not> uses c b a) (release_all s)"
  if "ss_num_qps s = effective_num_qps c" "length (ss_threads s) = nat (session_proxy_threads c)"
proof -
  have o: "owner_thread c 0 = 0"
    using count_ranges(3,5)[of c] by (simp add: owner_thread_def)
  show ?thesis
    unfolding release_all_def Let_def
    by (auto simp: sorted_wrt_append sorted_wrt_map uses_def o)
qed

lemma release_contents:
  assumes "ss_num_qps s = effective_num_qps c" "length (ss_threads s) = nat (session_proxy_threads c)"
    and "ss_forward s \<noteq> [] \<longleftrightarrow> sc_enable_forward_notify c"
  shows "set (release_all s) \<union> set (thread_list ths) = set (session_resources c (ss_has_clocal s) (ss_recv_external s) ths)"
    "distinct (thread_list ths @ release_all s)"
proof -
  have n: "1 \<le> nat (effective_num_qps c)" "1 \<le> nat (session_proxy_threads c)"
    using count_ranges[of c] by auto
  have z: "set [0..<k] = insert 0 {1..<k}" if "1 \<le> k" for k :: nat using that by auto
  have "set (release_all s) \<union> set (thread_list ths) = set (session_resources c (ss_has_clocal s) (ss_recv_external s) ths)"
    using z[OF n(1)] z[OF n(2)] assms n
    unfolding release_all_def session_resources_def Let_def thread_list_def[symmetric] by auto
  then show "set (release_all s) \<union> set (thread_list ths) = set (session_resources c (ss_has_clocal s) (ss_recv_external s) ths)" .
  show "distinct (thread_list ths @ release_all s)"
    using n by (auto simp: thread_list_props release_all_def Let_def distinct_map inj_on_def)
qed

lemma session_resources_distinct: "distinct (session_resources c h x ths)"
proof -
  have "distinct (concat (map (\<lambda>t. [RStaging t, RStagingMr t]) [0..<n]))" for n by (induction n) auto
  then show ?thesis
    by (auto simp: session_resources_def Let_def distinct_map inj_on_def thread_list_props simp flip: thread_list_def)
qed

text \<open>
  \<open>destroy_session\<close> releases exactly what \<open>create_session\<close> acquired, each resource once,
  and never a resource that another one still held depends on.
\<close>

theorem destroy_releases:
  assumes "create_session c E = Inr s" "map is_served ths = map is_served (ss_threads s)"
    and "destroy_session snap (s\<lparr>ss_threads := ths\<rparr>) = Inr rs"
  shows "set rs = set (ss_resources s) \<and> distinct rs \<and> sorted_wrt (\<lambda>a b. \<not> uses c b a) rs"
  using assms(1)
proof (cases rule: create_session_cases)
  case (created qps local_lkey clocal sge tb infos f links recv)
  let ?s = "s\<lparr>ss_threads := ths\<rparr>"
  have len: "length ths = nat (session_proxy_threads c)" using arg_cong[OF assms(2), of length] created(11) by simp
  have "ths \<noteq> []" using len count_ranges(3)[of c] by auto
  moreover have "0 < local_qps c 0" using count_ranges[of c] by (simp add: local_qps_def)
  then have "is_served (ss_threads s ! 0)"
    using spawn_proxies_nth[of 0 "nat (session_proxy_threads c)" c 0] count_ranges(3)[of c] created(11)
    by (simp add: is_served_def)
  then have "is_served (ths ! 0)"
    using arg_cong[OF assms(2), of "\<lambda>xs. xs ! 0"] nth_map[of 0 ths is_served] nth_map[of 0 "ss_threads s" is_served]
      \<open>ths \<noteq> []\<close> len created(11) count_ranges(3)[of c] by auto
  ultimately have sv: "ths \<noteq> []" "is_served (hd ths)" by (simp_all add: hd_conv_nth)
  have each: "is_served (ths ! t) = is_served (ss_threads s ! t)" if "t < length ths" for t
    using arg_cong[OF assms(2), of "\<lambda>xs. xs ! t"] arg_cong[OF assms(2), of length] that by simp
  have tl: "thread_list ths = thread_list (ss_threads s)"
    unfolding thread_list_def thread_resources_served
    using arg_cong[OF assms(2), of length] each by (intro arg_cong[of _ _ concat] map_cong) auto
  have rs: "rs = thread_list ths @ release_all ?s"
    using assms(3) sv by (simp add: destroy_session_def thread_list_def split: sum.splits)
  have fw: "ss_forward ?s \<noteq> [] \<longleftrightarrow> sc_enable_forward_notify c"
    using created(12) total_arrival_slots_pos[of c] by (simp add: create_forward_notify_table_def)
  have res: "ss_resources s = session_resources c (ss_has_clocal s) (ss_recv_external s) ths"
    using created(16) tl by (simp add: session_resources_def Let_def thread_list_def)
  have "set rs = set (ss_resources s)" "distinct rs"
    using release_contents[of ?s c, OF _ _ fw, of ths] created(8) len unfolding rs res by (simp_all add: Un_commute)
  moreover have "sorted_wrt (\<lambda>a b. \<not> uses c b a) rs"
    using thread_list_props(1)[of ths] thread_list_props(3)[of c ths] release_sorted[of ?s c] created(8) len unfolding rs
    by (auto simp: sorted_wrt_append uses_proxy)
  ultimately show ?thesis by blast
qed

theorem destroy_releases_witness:
  "\<exists>s rs. create_session (cluster_config 0) (cluster_env 0) = Inr s \<and> destroy_session (\<lambda>i. ss_threads s) s = Inr rs \<and>
    set rs = set (ss_resources s) \<and> distinct rs \<and> sorted_wrt (\<lambda>a b. \<not> uses (cluster_config 0) b a) rs"
proof -
  obtain s where s: "create_session (cluster_config 0) (cluster_env 0) = Inr s" using cluster_created[of 0] by auto
  have "list_all is_served (ss_threads s)" using cluster_thread[OF s] by (fastforce simp: list_all_length is_served_def)
  then obtain k where "drain_proxy (\<lambda>i. ss_threads s) s = Inr k"
    using drain_proxy_served[of "\<lambda>i. ss_threads s"] by blast
  then obtain rs where "destroy_session (\<lambda>i. ss_threads s) s = Inr rs"
    by (cases "ss_threads s \<noteq> [] \<and> is_served (hd (ss_threads s))") (auto simp: destroy_session_def)
  then show ?thesis using destroy_releases[OF s refl, of "\<lambda>i. ss_threads s" rs] s by auto
qed

section \<open>Clock calibration\<close>

text \<open>
  A sample taken while the device timer is \<open>off\<close> behind the host clock: the timer was read at host
  time \<open>m\<close>, between the two readings of the host clock.
\<close>

definition sample_ok :: "int \<Rightarrow> u64 \<times> u64 \<times> u64 \<Rightarrow> bool" where
  "sample_ok off = (\<lambda>(before, timer, after). uint before \<le> uint after \<and> uint after < 2 ^ 63 \<and>
     uint before \<le> sint timer + off \<and> sint timer + off \<le> uint after)"

lemma calibrate_step_cases:
  assumes "sample_ok off x" "calibrate_step x (w, d) = (w', d')"
  shows "w' \<le> w" "w' \<le> snd (snd x) - fst x" "(w', d') = (w, d) \<or> 2 * \<bar>d' - off\<bar> \<le> uint w' + 1"
proof -
  obtain b g a where x: "x = (b, g, a)" by (cases x)
  note ok = assms(1)[unfolded x sample_ok_def prod.case]
  have wd: "uint (a - b) = uint a - uint b" using ok by (simp add: uint_sub_if')
  have mid: "uint (b + (a - b) div 2) = uint b + (uint a - uint b) div 2"
  proof -
    have "uint ((a - b) div 2) = (uint a - uint b) div 2" by (simp add: uint_div wd)
    moreover have "uint b + (uint a - uint b) div 2 < 2 ^ 64" "0 \<le> uint b + (uint a - uint b) div 2" using ok by auto
    ultimately show ?thesis by (simp add: uint_word_ariths(1))
  qed
  have "sint (b + (a - b) div 2) = uint b + (uint a - uint b) div 2"
  proof -
    have "- (2 ^ 63) \<le> uint b + (uint a - uint b) div 2" "uint b + (uint a - uint b) div 2 < 2 ^ 63"
      using ok uint_ge_0[of b] by (simp_all, presburger+)
    then show ?thesis using mid signed_take_bit_int_eq_self[of 63] by (simp add: sint_uint)
  qed
  then have "2 * \<bar>sint (b + (a - b) div 2) - sint g - off\<bar> \<le> uint (a - b) + 1"
    unfolding wd \<open>sint (b + (a - b) div 2) = uint b + (uint a - uint b) div 2\<close> using ok by (simp add: abs_if) presburger
  then show "w' \<le> w" "w' \<le> snd (snd x) - fst x" "(w', d') = (w, d) \<or> 2 * \<bar>d' - off\<bar> \<le> uint w' + 1"
    using assms(2) by (auto simp: x calibrate_step_def Let_def split: if_splits)
qed


lemma calibrate_fold:
  assumes "list_all (sample_ok off) xs" "fold calibrate_step xs (w, d) = (w', d')"
  shows "w' \<le> w \<and> (\<forall>x \<in> set xs. w' \<le> snd (snd x) - fst x) \<and> ((w', d') = (w, d) \<or> 2 * \<bar>d' - off\<bar> \<le> uint w' + 1)"
  using assms
proof (induction xs arbitrary: w d)
  case (Cons x xs)
  obtain w1 d1 where s: "calibrate_step x (w, d) = (w1, d1)" by fastforce
  note c = calibrate_step_cases[OF _ s, of off]
  have "w' \<le> w1 \<and> (\<forall>x \<in> set xs. w' \<le> snd (snd x) - fst x) \<and> ((w', d') = (w1, d1) \<or> 2 * \<bar>d' - off\<bar> \<le> uint w' + 1)"
    using Cons s by simp
  then show ?case using c Cons.prems(1) by (auto intro: order_trans)
qed simp

text \<open>
  C40 (bounds): the calibrated offset between the device timer and the host clock is off by at most
  half of every sampled window, rounded up, hence of the narrowest.
\<close>

theorem calibration_error:
  assumes "list_all (sample_ok off) samples" "(before, timer, after) \<in> set samples"
  shows "2 * \<bar>calibrate_gpu_to_host_offset_ns samples - off\<bar> \<le> uint (after - before) + 1"
proof -
  obtain w d where f: "fold calibrate_step samples (- 1, 0) = (w, d)" by fastforce
  note c = calibrate_fold[OF assms(1) f]
  have ok: "sample_ok off (before, timer, after)" using assms by (auto simp: list_all_iff)
  then have u: "uint (after - before) = uint after - uint before" by (simp add: sample_ok_def uint_sub_if')
  have le: "uint w \<le> uint (after - before)" using c assms(2) by (force simp: word_le_def)
  then have "uint w < 2 ^ 63" using ok uint_ge_0[of before] unfolding u sample_ok_def prod.case by linarith
  then have "w \<noteq> - 1" by (auto simp: unsigned_minus_1_eq_mask mask_eq_exp_minus_1)
  then have "2 * \<bar>d - off\<bar> \<le> uint w + 1" using c by simp
  then show ?thesis using le by (simp add: calibrate_gpu_to_host_offset_ns_def f)
qed

theorem calibration_error_witness:
  "2 * \<bar>calibrate_gpu_to_host_offset_ns [(1000, 50, 1090), (2000, 1010, 2021)] - 1000\<bar> \<le> 22"
  using calibration_error[of 1000 "[(1000, 50, 1090), (2000, 1010, 2021)]" 2000 1010 2021]
  by (simp add: sample_ok_def)

section \<open>Routing and pairing outside their conditions\<close>

text \<open>
  A session of two proxies that route by channel, and a kernel that picks the ring by lane: the
  command with lane 2 and channel 11 reaches the proxy of the queue pairs 0 to 7, which drops it.
\<close>

lemma lane_misses_channel:
  "let c = cluster_config 0; cmd = zero_cmd\<lparr>reserved0 := 11, lane_id := 2\<rparr>;
       t = select_fifo_index (session_bundle c) (ucast (lane_id cmd));
       pc = clamp_config None (session_proxy_config c (cluster_base 0) 0 None 2 [0, 0] (replicate 16 zero_info) (int t))
   in cf_qp_base_idx pc + cf_num_qps pc \<le> route_global_qp pc cmd"
  by code_simp

text \<open>Without channels and with two peers, every queue pair is moved to RTR twice, for both peers.\<close>

lemma unchannelized_links_twice:
  "map (\<lambda>(slot, l, r). (slot, l)) (qp_pairs ((cluster_config 0)\<lparr>sc_channelize_gpu_peers := False, sc_num_qps := 2\<rparr>)) =
    [(0, 0), (0, 1), (1, 0), (1, 1)]"
  by code_simp

text \<open>With four peers the blocks have six queue pairs, and channel \<open>8 * 1 + 0\<close> is a queue pair of peer slot 1 only by luck: channel 8 + 4 is one of slot 2.\<close>

lemma channel_of_other_peer:
  "let c = (cluster_config 0)\<lparr>sc_num_peers := 4\<rparr> in peer_slot_of_qp c (1 * 8 + 4) = 2"
  by code_simp

text \<open>Five queue pairs on four threads leave the last thread without a proxy, and draining dereferences it.\<close>

lemma unserved_thread:
  "let c = (cluster_config 0)\<lparr>sc_num_peers := 1, sc_channelize_gpu_peers := False, sc_num_qps := 5, sc_num_proxy_threads := 4\<rparr>
   in session_proxy_threads c = 4 \<and> local_qps c 2 = 1 \<and> local_qps c 3 \<le> 0"
  by code_simp

text \<open>
  An iteration that reads two commands for different queue pairs takes the first and keeps the
  second aside, with the ring consumed. Once the first is complete nothing is in flight, so the
  look of \<open>drain_proxy\<close> calls the proxy drained, and the command kept aside crosses the epoch
  transition.
\<close>

definition stash_proxy :: Proxy where
  "stash_proxy = demo_proxy\<lparr>cfg := Proxy_CX7_Loop.demo_config\<lparr>cf_num_qps := 2, cf_global_num_qps := 2, cf_use_arrival_queue := True\<rparr>,
     fifo := gpu_pushes [demo_cmd\<lparr>lane_id := 0\<rparr>, demo_cmd\<lparr>lane_id := 1\<rparr>]
       \<lparr>triggers = replicate 2 (replicate 6 0), head = 0, tail = 0, tail_cache = 0, capacity = 2, cpu_head = 0\<rparr>\<rparr>"

lemma drained_with_stash:
  "map_option (\<lambda>(b, bq, p). (length b, has_pending_cmd p, uint (lane_id (pending_cmd p)),
      thread_busy (head (fifo p)) (Running p))) (collect_queue demo_world 3 0 [] 0 stash_proxy) =
    Some (1, True, 1, Inr False)"
  by code_simp

lemma epoch_keeps_stash:
  assumes "session_set_epoch snap polls skip_env e s = Inr (Some s')" "t < length (ss_threads s)"
  shows "\<exists>p q. ss_threads s ! t = Running p \<and> ss_threads s' ! t = Running q \<and>
    has_pending_cmd q = has_pending_cmd p \<and> pending_cmd q = pending_cmd p"
proof -
  obtain s1 where a: "prepare_epoch snap polls s = Inr (Some s1)" "commit_epoch skip_env e s1 = Inr (Some s')"
    using assms(1) by (rule set_epoch_Inr)
  have f: "on_proxies (\<lambda>t p. map_option reset_timestamps (quiesce (polls t) p)) 0 (ss_threads s) = Inr (Some (ss_threads s1))"
    using a(1) by (auto simp: prepare_epoch_def split: sum.splits option.splits if_splits)
  have g: "on_proxies (\<lambda>t p. let q = set_epoch e p in Some (q\<lparr>fifo := reset_fifo (fifo q)\<rparr>)) 0 (ss_threads s1)
      = Inr (Some (ss_threads s'))"
    using a(2) by (auto simp: commit_epoch_def split: sum.splits option.splits)
  obtain p m where p: "ss_threads s ! t = Running p" "ss_threads s1 ! t = Running m"
      "map_option reset_timestamps (quiesce (polls t) p) = Some m"
    using on_proxies_Inr(2)[OF f assms(2)] by auto
  obtain q where q: "ss_threads s' ! t = Running q" "q = (set_epoch e m)\<lparr>fifo := reset_fifo (fifo (set_epoch e m))\<rparr>"
    using on_proxies_Inr(2)[OF g, of t] on_proxies_Inr(1)[OF f] assms(2) p(2) by (auto simp: Let_def)
  obtain k r where r: "drain_cq (polls t) (0, p) = Some (k, r)" "m = reset_timestamps (reset_inflight r)"
    using p(3) by (auto simp: quiesce_def)
  have "undrained p r" using drain_cq_undrained[OF r(1)] by simp
  then show ?thesis
    using p(1) q r(2) by (simp add: undrained_fields set_epoch_def reset_timestamps_def reset_inflight_def)
qed

end
