(* ===== verification/Rdma_Efa.thy ===== *)
theory Rdma_Efa
  imports Rdma_Verbs
begin

text \<open>
  The EFA extensions of the transport, \<^verbatim>\<open>include/comm/internode/rdma_transport_efa.h\<close>: integers and
  device lists from the environment, the choice of the NICs of a GPU by PCIe topology, SRD queue
  pairs and address handles. What the machine looks like (devices, roots, NUMA nodes, GPUs) is the
  record \<open>efa_host\<close>.
\<close>

section \<open>The environment\<close>

definition QKEY :: u32 where "QKEY = 0x11111111"

text \<open>\<open>strtol\<close> with its end pointer: the value and what is left of the string.\<close>

definition strtol10_end :: "string \<Rightarrow> (int \<times> string) option" where
  "strtol10_end s =
     (let body = dropWhile is_space s;
          rest = (case body of [] \<Rightarrow> [] | c # cs \<Rightarrow> if c = CHR ''-'' \<or> c = CHR ''+'' then cs else body)
      in map_option (\<lambda>v. (v, dropWhile is_digit rest)) (strtol10 s))"

definition int32_max :: int where "int32_max = 2 ^ 31 - 1"

definition parse_positive_env_int :: "string option \<Rightarrow> int \<Rightarrow> int" where
  "parse_positive_env_int env default_value =
     (case env of
        None \<Rightarrow> default_value
      | Some s \<Rightarrow>
          if s = [] then default_value
          else case strtol10_end s of
                 None \<Rightarrow> default_value
               | Some (v, rest) \<Rightarrow> if rest \<noteq> [] \<or> v \<le> 0 \<or> v > int32_max then default_value else v)"

text \<open>\<open>attr\<close> is what \<open>efadv_query_device\<close> reported, \<open>None\<close> when it failed.\<close>

definition query_efa_max_sq_wr :: "int option \<Rightarrow> int" where
  "query_efa_max_sq_wr attr = (case attr of None \<Rightarrow> 0 | Some n \<Rightarrow> n)"

text \<open>\<open>std::getline\<close> with a comma as the delimiter.\<close>

function comma_items :: "string \<Rightarrow> string list" where
  "comma_items [] = []"
| "comma_items (c # s) =
     takeWhile (\<lambda>d. d \<noteq> CHR '','') (c # s) #
     (case dropWhile (\<lambda>d. d \<noteq> CHR '','') (c # s) of [] \<Rightarrow> [] | d # rest \<Rightarrow> comma_items rest)"
  by pat_completeness auto
termination
proof (relation "measure length", simp)
  fix c d :: char and s rest :: string
  assume "dropWhile (\<lambda>d. d \<noteq> CHR '','') (c # s) = d # rest"
  then have "length (d # rest) \<le> length (c # s)" by (metis length_dropWhile_le)
  then show "(rest, c # s) \<in> measure length" by simp
qed

declare comma_items.simps(2) [simp del]

definition trim_spaces :: "string \<Rightarrow> string" where
  "trim_spaces s = rev (dropWhile (\<lambda>c. c = CHR '' '') (rev (dropWhile (\<lambda>c. c = CHR '' '') s)))"

definition strip_rdm :: "string \<Rightarrow> string" where
  "strip_rdm s =
     (if length s \<ge> 4 \<and> drop (length s - 4) s = ''-rdm'' then take (length s - 4) s else s)"

definition parse_efa_domain_map :: "string option \<Rightarrow> string list" where
  "parse_efa_domain_map env =
     (case env of
        None \<Rightarrow> []
      | Some s \<Rightarrow> filter (\<lambda>n. n \<noteq> []) (map (\<lambda>i. strip_rdm (trim_spaces i)) (comma_items s)))"

section \<open>Topology\<close>

text \<open>\<open>resolved\<close> is what \<open>realpath\<close> gave.\<close>

definition get_pcie_root_id :: "string option \<Rightarrow> string" where
  "get_pcie_root_id resolved =
     (case resolved of
        None \<Rightarrow> []
      | Some path \<Rightarrow>
          if \<not> is_prefix_of ''/sys/devices/'' path then []
          else
            let rel = drop (length ''/sys/devices/'') path;
                first = takeWhile (\<lambda>c. c \<noteq> CHR ''/'') rel;
                after = drop (length first + 1) rel
            in if length first = length rel then rel
               else if CHR ''/'' \<notin> set after then rel
               else first @ [CHR ''/''] @ takeWhile (\<lambda>c. c \<noteq> CHR ''/'') after)"

record EfaDeviceEntry =
  ed_name :: string
  ed_dev :: nat
  ed_numa_node :: int
  ed_pcie_root :: string

record efa_host =
  eh_names :: "string list"
  eh_numa :: "string \<Rightarrow> int"
  eh_path :: "string \<Rightarrow> string option"
  eh_gpu_path :: "int \<Rightarrow> string option"
  eh_gpu_numa :: "int \<Rightarrow> int"
  eh_gpu_count :: "int option"
  eh_opens :: "nat \<Rightarrow> bool"
  eh_domain_map :: "string option"

definition enumerate_efa_devices :: "efa_host \<Rightarrow> EfaDeviceEntry list" where
  "enumerate_efa_devices h =
     sort_by_name ed_name
       (map (\<lambda>i. \<lparr>ed_name = eh_names h ! i, ed_dev = i, ed_numa_node = eh_numa h (eh_names h ! i),
                  ed_pcie_root = get_pcie_root_id (eh_path h (eh_names h ! i))\<rparr>)
          (filter (\<lambda>i. is_prefix_of ''rdmap'' (eh_names h ! i)) [0..<length (eh_names h)]))"

text \<open>\<open>get_gpu_topology\<close>: the path is \<open>None\<close> also when the GPU could not be queried.\<close>

definition gpu_root :: "efa_host \<Rightarrow> int \<Rightarrow> string" where
  "gpu_root h r = get_pcie_root_id (eh_gpu_path h r)"

definition select_topology_local_nics :: "EfaDeviceEntry list \<Rightarrow> string \<Rightarrow> int \<Rightarrow> EfaDeviceEntry list" where
  "select_topology_local_nics nics root numa =
     (let tier1 = filter (\<lambda>n. ed_pcie_root n = root) nics;
          tier2 = filter (\<lambda>n. ed_numa_node n < 0 \<or> ed_numa_node n = numa) nics
      in if root \<noteq> [] \<and> tier1 \<noteq> [] then tier1
         else if numa \<ge> 0 \<and> tier2 \<noteq> [] then tier2 else nics)"

definition count_gpus_on_same_root :: "efa_host \<Rightarrow> string \<Rightarrow> int \<Rightarrow> int" where
  "count_gpus_on_same_root h root total_gpus =
     (if root = [] then 1
      else let n = int (length (filter (\<lambda>r. gpu_root h r = root) [0..total_gpus - 1]))
           in if n > 0 then n else 1)"

definition rank_within_pcie_root :: "efa_host \<Rightarrow> int \<Rightarrow> string \<Rightarrow> int" where
  "rank_within_pcie_root h local_rank root =
     (if root = [] then local_rank
      else int (length (filter (\<lambda>r. gpu_root h r = root) [0..local_rank - 1])))"

definition efa_total_gpus :: "efa_host \<Rightarrow> int" where
  "efa_total_gpus h = (case eh_gpu_count h of Some n \<Rightarrow> if n > 0 then n else 8 | None \<Rightarrow> 8)"

definition local_nics :: "efa_host \<Rightarrow> int \<Rightarrow> EfaDeviceEntry list" where
  "local_nics h local_rank =
     select_topology_local_nics (enumerate_efa_devices h) (gpu_root h local_rank) (eh_gpu_numa h local_rank)"

section \<open>Opening devices\<close>

definition open_entry :: "efa_host \<Rightarrow> EfaDeviceEntry \<Rightarrow> string + EfaDeviceEntry" where
  "open_entry h e = rdma_check (eh_opens h (ed_dev e)) ''ibv_open_device failed'' e"

definition first_device :: "efa_host \<Rightarrow> EfaDeviceEntry" where
  "first_device h = \<lparr>ed_name = eh_names h ! 0, ed_dev = 0, ed_numa_node = - 1, ed_pcie_root = []\<rparr>"

definition open_efa_device :: "efa_host \<Rightarrow> int \<Rightarrow> string + EfaDeviceEntry" where
  "open_efa_device h local_rank =
     (let devs = enumerate_efa_devices h; env_names = parse_efa_domain_map (eh_domain_map h)
      in if eh_names h = [] then Inl ''RDMA: no IB/EFA devices found''
         else if devs = [] then open_entry h (first_device h)
         else
           let selected =
                 (if env_names \<noteq> [] then env_names ! nat (c_mod local_rank (int (length env_names)))
                  else
                    let matches = local_nics h local_rank
                    in ed_name (matches ! nat (c_mod (rank_within_pcie_root h local_rank (gpu_root h local_rank)) (int (length matches)))))
           in open_entry h
                (case find (\<lambda>e. ed_name e = selected) devs of
                   Some e \<Rightarrow> e
                 | None \<Rightarrow> devs ! nat (c_mod local_rank (int (length devs)))))"

definition nic_indices :: "efa_host \<Rightarrow> int \<Rightarrow> int \<Rightarrow> int list" where
  "nic_indices h local_rank count =
     (let n = int (length (local_nics h local_rank));
          root = gpu_root h local_rank;
          gpus_on_root = count_gpus_on_same_root h root (efa_total_gpus h);
          rank_in_root = rank_within_pcie_root h local_rank root;
          nics_per_gpu = max 1 (c_div n (max 1 gpus_on_root));
          actual_count = min (min count nics_per_gpu) n
      in map (\<lambda>r. c_mod (rank_in_root + r * gpus_on_root) n) [0..actual_count - 1])"

definition open_efa_devices :: "efa_host \<Rightarrow> int \<Rightarrow> int \<Rightarrow> string + EfaDeviceEntry list" where
  "open_efa_devices h local_rank count =
     (if eh_names h = [] then Inl ''RDMA: no IB/EFA devices found''
      else if enumerate_efa_devices h = []
      then and_then (open_entry h (first_device h)) (\<lambda>e. Inr [e])
      else
        and_then (all_ok (map (\<lambda>i. open_entry h (local_nics h local_rank ! nat i)) (nic_indices h local_rank count)))
          (\<lambda>es. rdma_check (es \<noteq> []) ''open_efa_devices: no devices opened'' es))"

section \<open>SRD queue pairs and address handles\<close>

record srd_attr =
  sa_max_send_wr :: int
  sa_max_recv_wr :: int
  sa_max_send_sge :: int
  sa_max_recv_sge :: int
  sa_max_inline_data :: int
  sa_cq :: nat
  sa_sq_sig_all :: bool

text \<open>\<open>env\<close> is \<open>MKERNEL_EFA_SQ_DEPTH\<close>; the second component is the depth reported to the caller.\<close>

definition create_srd_qp :: "bool \<Rightarrow> string option \<Rightarrow> int option \<Rightarrow> nat \<Rightarrow> int \<Rightarrow> string + srd_attr \<times> int" where
  "create_srd_qp ok env dev_attr send_cq sq_depth =
     (let env_sq_depth = parse_positive_env_int env sq_depth;
          provider_max_sq_wr = query_efa_max_sq_wr dev_attr;
          depth = (if provider_max_sq_wr > 0 then min env_sq_depth provider_max_sq_wr else env_sq_depth)
      in rdma_check ok ''efadv_create_qp_ex(SRD) failed''
           (\<lparr>sa_max_send_wr = depth, sa_max_recv_wr = 1, sa_max_send_sge = 1, sa_max_recv_sge = 1,
             sa_max_inline_data = 32, sa_cq = send_cq, sa_sq_sig_all = False\<rparr>, depth))"

text \<open>The transitions of an SRD queue pair need no remote; the middle component is the queue key.\<close>

definition modify_srd_qp_init :: "int \<Rightarrow> string + qp_state \<times> u32 \<times> qp_mask list" where
  "modify_srd_qp_init ret =
     rdma_check (ret = 0) ''modify_srd_qp_init failed'' (QPS_INIT, QKEY, [M_STATE, M_PKEY_INDEX, M_PORT, M_QKEY])"

definition modify_srd_qp_rtr :: "int \<Rightarrow> string + qp_state \<times> qp_mask list" where
  "modify_srd_qp_rtr ret = rdma_check (ret = 0) ''modify_srd_qp_rtr failed'' (QPS_RTR, [M_STATE])"

definition modify_srd_qp_rts :: "int \<Rightarrow> string + qp_state \<times> u32 \<times> qp_mask list" where
  "modify_srd_qp_rts ret = rdma_check (ret = 0) ''modify_srd_qp_rts failed'' (QPS_RTS, 0, [M_STATE, M_SQ_PSN])"

record ah_attr =
  ah_is_global :: bool
  ah_port_num :: u8
  ah_sgid_index :: int
  ah_dgid :: "u8 list"
  ah_hop_limit :: u8

definition create_ah :: "bool \<Rightarrow> u8 list \<Rightarrow> string + ah_attr" where
  "create_ah ok remote_gid =
     rdma_check ok ''ibv_create_ah failed''
       \<lparr>ah_is_global = True, ah_port_num = 1, ah_sgid_index = 0, ah_dgid = remote_gid, ah_hop_limit = 255\<rparr>"

section \<open>The list of domains\<close>

text \<open>A written item: spaces before and after, and the suffix \<open>-rdm\<close> or not.\<close>

definition written_item :: "nat \<times> string \<times> bool \<times> nat \<Rightarrow> string" where
  "written_item = (\<lambda>(a, n, rdm, b).
     replicate a (CHR '' '') @ n @ (if rdm then ''-rdm'' else []) @ replicate b (CHR '' ''))"

fun comma_join :: "string list \<Rightarrow> string" where
  "comma_join [] = []"
| "comma_join [i] = i"
| "comma_join (i # j # is) = i @ [CHR '',''] @ comma_join (j # is)"

text \<open>A device name as it can be written: not empty, no comma, no spaces at its ends, no suffix \<open>-rdm\<close>.\<close>

definition plain_name :: "string \<Rightarrow> bool" where
  "plain_name n \<longleftrightarrow> n \<noteq> [] \<and> CHR '','' \<notin> set n \<and> hd n \<noteq> CHR '' '' \<and> last n \<noteq> CHR '' '' \<and> strip_rdm n = n"

lemma comma_items_last: "i \<noteq> [] \<Longrightarrow> CHR '','' \<notin> set i \<Longrightarrow> comma_items i = [i]"
proof (cases i)
  case (Cons c s)
  assume "CHR '','' \<notin> set i"
  then have "takeWhile (\<lambda>d. d \<noteq> CHR '','') (c # s) = c # s" "dropWhile (\<lambda>d. d \<noteq> CHR '','') (c # s) = []"
    using Cons by (auto simp: takeWhile_eq_all_conv)
  then show ?thesis by (simp add: Cons comma_items.simps(2))
qed simp

lemma comma_items_step:
  assumes "i \<noteq> []" "CHR '','' \<notin> set i"
  shows "comma_items (i @ [CHR '',''] @ rest) = i # comma_items rest"
proof -
  have "takeWhile (\<lambda>d. d \<noteq> CHR '','') (i @ [CHR '',''] @ rest) = i"
    "dropWhile (\<lambda>d. d \<noteq> CHR '','') (i @ [CHR '',''] @ rest) = CHR '','' # rest"
    using assms(2) by (induction i) auto
  moreover obtain c s where i: "i = c # s" using assms(1) by (cases i) auto
  ultimately show ?thesis by (simp add: comma_items.simps(2))
qed

lemma comma_items_join:
  assumes "\<And>i. i \<in> set is \<Longrightarrow> i \<noteq> [] \<and> CHR '','' \<notin> set i"
  shows "comma_items (comma_join is) = is"
  using assms by (induction "is" rule: comma_join.induct) (simp_all add: comma_items_last comma_items_step[simplified])

lemma trim_written:
  assumes "m \<noteq> []" "hd m \<noteq> CHR '' ''" "last m \<noteq> CHR '' ''"
  shows "trim_spaces (replicate a (CHR '' '') @ m @ replicate b (CHR '' '')) = m"
proof -
  have d: "dropWhile (\<lambda>c. c = x) (replicate k x @ ys) = ys" if "ys \<noteq> []" "hd ys \<noteq> x" for k x and ys :: string
    using that by (induction k) (auto simp: dropWhile_eq_self_iff)
  have "dropWhile (\<lambda>c. c = CHR '' '') (replicate a (CHR '' '') @ m @ replicate b (CHR '' '')) = m @ replicate b (CHR '' '')"
    using assms by (intro d) auto
  moreover have "dropWhile (\<lambda>c. c = CHR '' '') (replicate b (CHR '' '') @ rev m) = rev m"
    using assms by (intro d) (auto simp: hd_rev)
  ultimately show ?thesis by (simp add: trim_spaces_def)
qed

lemma strip_written: "plain_name n \<Longrightarrow> strip_rdm (n @ (if rdm then ''-rdm'' else [])) = n"
  by (auto simp: strip_rdm_def plain_name_def)

text \<open>
  A list of device names written with commas, with spaces around the items and with or
  without the suffix \<open>-rdm\<close>, is read back as exactly these names.
\<close>

theorem domain_map_roundtrip:
  assumes "list_all (\<lambda>(a, n, rdm, b). plain_name n) items"
  shows "parse_efa_domain_map (Some (comma_join (map written_item items))) = map (\<lambda>(a, n, rdm, b). n) items"
proof -
  have one: "written_item i \<noteq> [] \<and> CHR '','' \<notin> set (written_item i) \<and>
      strip_rdm (trim_spaces (written_item i)) = (\<lambda>(a, n, rdm, b). n) i \<and> (\<lambda>(a, n, rdm, b). n) i \<noteq> []" if "i \<in> set items" for i
  proof -
    obtain a n rdm b where i: "i = (a, n, rdm, b)" by (cases i)
    have n: "plain_name n" using assms that by (auto simp: list_all_iff i)
    have "hd (n @ (if rdm then ''-rdm'' else [])) \<noteq> CHR '' ''" "last (n @ (if rdm then ''-rdm'' else [])) \<noteq> CHR '' ''"
      using n by (auto simp: plain_name_def)
    then have "trim_spaces (written_item i) = n @ (if rdm then ''-rdm'' else [])"
      using trim_written[of "n @ (if rdm then ''-rdm'' else [])" a b] n by (simp add: i written_item_def plain_name_def)
    then show ?thesis using strip_written[OF n] n by (auto simp: i written_item_def plain_name_def)
  qed
  have "comma_items (comma_join (map written_item items)) = map written_item items"
    using one by (intro comma_items_join) auto
  then show ?thesis using one by (auto simp: parse_efa_domain_map_def comp_def filter_id_conv cong: map_cong)
qed

theorem domain_map_roundtrip_witness:
  "parse_efa_domain_map (Some '' rdmap0-rdm,rdmap1 '') = [''rdmap0'', ''rdmap1'']"
  using domain_map_roundtrip[of "[(1, ''rdmap0'', True, 0), (0, ''rdmap1'', False, 1)]"]
  by (simp add: written_item_def plain_name_def strip_rdm_def)

section \<open>The NICs of a GPU\<close>

lemma enumerate_distinct: "distinct (eh_names h) \<Longrightarrow> distinct (map ed_name (enumerate_efa_devices h))"
  unfolding enumerate_efa_devices_def sort_by_name_props
  by (auto simp: comp_def distinct_map inj_on_def nth_eq_iff_index_eq)

lemma local_nics_distinct: "distinct (eh_names h) \<Longrightarrow> distinct (map ed_name (local_nics h r))"
  using enumerate_distinct[of h]
  by (auto simp: local_nics_def select_topology_local_nics_def Let_def distinct_map_filter)

lemma upto_split: "0 \<le> a \<Longrightarrow> a < b \<Longrightarrow> [0..b - 1] = [0..a - 1] @ [a..b - 1]" for a b :: int
  using upto_split1[of 0 a "b - 1"] by simp

text \<open>GPUs on one root are numbered from zero, in the order of their ranks.\<close>

lemma rank_within_less:
  assumes "0 \<le> a" "a < b" "gpu_root h a = root" "root \<noteq> []"
  shows "rank_within_pcie_root h a root < rank_within_pcie_root h b root"
proof -
  have "[a..b - 1] = a # [a + 1..b - 1]" using assms by (simp add: upto_rec1)
  then show ?thesis using assms by (simp add: rank_within_pcie_root_def upto_split[of a b])
qed

lemma rank_within_count:
  assumes "0 \<le> a" "a < n" "gpu_root h a = root" "root \<noteq> []"
  shows "0 \<le> rank_within_pcie_root h a root" "rank_within_pcie_root h a root < count_gpus_on_same_root h root n"
proof -
  have c: "count_gpus_on_same_root h root n = rank_within_pcie_root h n root"
    using rank_within_less[OF assms] assms
    by (auto simp: count_gpus_on_same_root_def rank_within_pcie_root_def simp del: filter_False)
  show "rank_within_pcie_root h a root < count_gpus_on_same_root h root n"
    unfolding c by (rule rank_within_less[OF assms])
  show "0 \<le> rank_within_pcie_root h a root" using assms by (simp add: rank_within_pcie_root_def)
qed

text \<open>An index is the rank of the GPU within its root plus a multiple of their number, not wrapped.\<close>

lemma nic_indices_form:
  assumes "0 \<le> a" "a < efa_total_gpus h" "gpu_root h a = root" "root \<noteq> []"
    and "count_gpus_on_same_root h root (efa_total_gpus h) \<le> int (length (local_nics h a))"
  shows "\<exists>m. nic_indices h a k = map (\<lambda>r. rank_within_pcie_root h a root + r * count_gpus_on_same_root h root (efa_total_gpus h)) [0..m - 1]"
    "i \<in> set (nic_indices h a k) \<Longrightarrow> 0 \<le> i \<and> i < int (length (local_nics h a))"
proof -
  define n where "n = int (length (local_nics h a))"
  define G where "G = count_gpus_on_same_root h root (efa_total_gpus h)"
  define j where "j = rank_within_pcie_root h a root"
  define m where "m = min (min k (max 1 (n div G))) n"
  have j: "0 \<le> j" "j < G" using rank_within_count[OF assms(1-4)] by (auto simp: j_def G_def)
  have nG: "G \<le> n" using assms(5) by (simp add: n_def G_def)
  then have q: "1 \<le> n div G" using j by (simp add: pos_imp_zdiv_pos_iff int_one_le_iff_zero_less)
  have fit: "0 \<le> j + r * G \<and> j + r * G < n" if "0 \<le> r" "r \<le> m - 1" for r
  proof -
    have "r + 1 \<le> n div G" using that q by (simp add: m_def)
    then have "(r + 1) * G \<le> n div G * G" using j by (intro mult_right_mono) auto
    then show ?thesis using that j div_bounds(1)[of G n] mult_nonneg_nonneg[of r G] by (simp add: algebra_simps)
  qed
  have e: "nic_indices h a k = map (\<lambda>r. j + r * G) [0..m - 1]"
  proof -
    have "c_div n (max 1 G) = n div G" using j nG by (simp add: max_def)
    then have "nic_indices h a k = map (\<lambda>r. c_mod (j + r * G) n) [0..m - 1]"
      unfolding nic_indices_def Let_def assms(3) n_def[symmetric] G_def[symmetric] j_def[symmetric] m_def by simp
    also have "\<dots> = map (\<lambda>r. j + r * G) [0..m - 1]"
    proof (rule map_cong[OF refl])
      fix r assume "r \<in> set [0..m - 1]"
      then show "c_mod (j + r * G) n = j + r * G" using fit[of r] by simp
    qed
    finally show ?thesis .
  qed
  show "\<exists>m. nic_indices h a k = map (\<lambda>r. rank_within_pcie_root h a root + r * count_gpus_on_same_root h root (efa_total_gpus h)) [0..m - 1]"
    using e by (auto simp: j_def G_def)
  show "i \<in> set (nic_indices h a k) \<Longrightarrow> 0 \<le> i \<and> i < int (length (local_nics h a))"
    using fit by (auto simp: e n_def)
qed

lemma checked_map: "map (\<lambda>x. rdma_check (P x) msg (f x)) xs = map Inr es \<Longrightarrow> es = map f xs"
proof (induction xs arbitrary: es)
  case (Cons x xs)
  then show ?case by (cases es) (auto simp: rdma_check_def split: if_splits)
qed simp

lemma opened_entries:
  assumes "open_efa_devices h a k = Inr es" "enumerate_efa_devices h \<noteq> []"
  shows "es = map (\<lambda>i. local_nics h a ! nat i) (nic_indices h a k)"
proof -
  have "all_ok (map (\<lambda>i. open_entry h (local_nics h a ! nat i)) (nic_indices h a k)) = Inr es"
    using assms by (auto simp: open_efa_devices_def and_then_Inr_iff rdma_check_def split: if_splits)
  then show ?thesis unfolding all_ok_Inr_iff open_entry_def by (rule checked_map)
qed

text \<open>
  Two GPUs below the same PCIe root never open the same NIC, and no GPU opens one twice,
  when the root has at least as many NICs as GPUs, whatever number of NICs each asks for.
\<close>

theorem efa_nics_disjoint:
  assumes "distinct (eh_names h)"
    and "0 \<le> a" "a < efa_total_gpus h" "0 \<le> b" "b < efa_total_gpus h" "a \<noteq> b"
    and "gpu_root h a = root" "gpu_root h b = root" "root \<noteq> []" "eh_gpu_numa h a = eh_gpu_numa h b"
    and "count_gpus_on_same_root h root (efa_total_gpus h) \<le> int (length (local_nics h a))"
    and "open_efa_devices h a k = Inr A" "open_efa_devices h b k' = Inr B"
  shows "distinct (map ed_name A) \<and> set (map ed_name A) \<inter> set (map ed_name B) = {}"
proof -
  define G where "G = count_gpus_on_same_root h root (efa_total_gpus h)"
  have nics: "local_nics h b = local_nics h a" using assms(7,8,10) by (simp add: local_nics_def)
  obtain m m' where m: "nic_indices h a k = map (\<lambda>r. rank_within_pcie_root h a root + r * G) [0..m - 1]"
    "nic_indices h b k' = map (\<lambda>r. rank_within_pcie_root h b root + r * G) [0..m' - 1]"
    using nic_indices_form(1)[OF assms(2,3,7,9,11), of k] nic_indices_form(1)[OF assms(4,5,8,9), of k'] assms(11)
    by (auto simp: nics G_def)
  have ra: "0 \<le> rank_within_pcie_root h a root" "rank_within_pcie_root h a root < G"
    and rb: "0 \<le> rank_within_pcie_root h b root" "rank_within_pcie_root h b root < G"
    using rank_within_count[OF assms(2,3,7,9)] rank_within_count[OF assms(4,5,8,9)] by (auto simp: G_def)
  have ne: "rank_within_pcie_root h a root \<noteq> rank_within_pcie_root h b root"
    using rank_within_less[OF assms(2) _ assms(7,9), of b] rank_within_less[OF assms(4) _ assms(8,9), of a] assms(6)
    by (cases "a < b") auto
  have dis: "i \<noteq> i'" if "i \<in> set (nic_indices h a k)" "i' \<in> set (nic_indices h b k')" for i i'
  proof
    assume "i = i'"
    then have "i mod G = i' mod G" by simp
    then show False using that ra rb ne by (auto simp: m)
  qed
  have rng: "0 \<le> i \<and> i < int (length (local_nics h a))" if "i \<in> set (nic_indices h a k) \<union> set (nic_indices h b k')" for i
    using that nic_indices_form(2)[OF assms(2,3,7,9,11)] nic_indices_form(2)[OF assms(4,5,8,9)] assms(11) by (auto simp: nics)
  have inj: "ed_name (local_nics h a ! nat i) = ed_name (local_nics h a ! nat i') \<longleftrightarrow> i = i'"
    if "0 \<le> i \<and> i < int (length (local_nics h a))" "0 \<le> i' \<and> i' < int (length (local_nics h a))" for i i'
    using that nth_eq_iff_index_eq[OF local_nics_distinct[OF assms(1), of a], of "nat i" "nat i'"]
    by (auto simp: nat_less_iff eq_nat_nat_iff)
  have "enumerate_efa_devices h \<noteq> []" using assms(11) ra by (auto simp: local_nics_def select_topology_local_nics_def Let_def G_def)
  then have AB: "A = map (\<lambda>i. local_nics h a ! nat i) (nic_indices h a k)" "B = map (\<lambda>i. local_nics h a ! nat i) (nic_indices h b k')"
    using opened_entries[OF assms(12)] opened_entries[OF assms(13)] nics by auto
  have "distinct (nic_indices h a k)" using ra by (auto simp: m distinct_map inj_on_def)
  then have "distinct (map ed_name A)" using inj rng by (auto simp: AB distinct_map inj_on_def)
  moreover have "set (map ed_name A) \<inter> set (map ed_name B) = {}" using inj rng dis by (auto simp: AB)
  ultimately show ?thesis by blast
qed

text \<open>Two GPUs and four NICs on one root, as in the comment of \<open>open_efa_devices\<close>.\<close>

definition root_host :: efa_host where
  "root_host = \<lparr>eh_names = [''rdmap0'', ''rdmap1'', ''rdmap2'', ''rdmap3''], eh_numa = (\<lambda>n. 0),
     eh_path = (\<lambda>n. Some ''/sys/devices/pci0/0000/x''), eh_gpu_path = (\<lambda>r. Some ''/sys/devices/pci0/0000/g''),
     eh_gpu_numa = (\<lambda>r. 0), eh_gpu_count = Some 2, eh_opens = (\<lambda>i. True), eh_domain_map = None\<rparr>"

theorem efa_nics_disjoint_witness:
  "\<exists>A B. open_efa_devices root_host 0 2 = Inr A \<and> open_efa_devices root_host 1 2 = Inr B \<and>
    map ed_name A = [''rdmap0'', ''rdmap2''] \<and> distinct (map ed_name A) \<and> set (map ed_name A) \<inter> set (map ed_name B) = {}"
proof -
  have "map_sum id (map ed_name) (open_efa_devices root_host 0 2) = Inr [''rdmap0'', ''rdmap2'']"
    "map_sum id (map ed_name) (open_efa_devices root_host 1 2) = Inr [''rdmap1'', ''rdmap3'']" by code_simp+
  then obtain A B where r: "open_efa_devices root_host 0 2 = Inr A" "open_efa_devices root_host 1 2 = Inr B"
    and A: "map ed_name A = [''rdmap0'', ''rdmap2'']"
    by (cases "open_efa_devices root_host 0 2"; cases "open_efa_devices root_host 1 2") auto
  have "distinct (eh_names root_host)" "efa_total_gpus root_host = 2" "gpu_root root_host 0 = ''pci0/0000''"
    "gpu_root root_host 1 = ''pci0/0000''" "eh_gpu_numa root_host 0 = eh_gpu_numa root_host 1"
    "count_gpus_on_same_root root_host ''pci0/0000'' 2 \<le> int (length (local_nics root_host 0))" by code_simp+
  then have d: "distinct (map ed_name A) \<and> set (map ed_name A) \<inter> set (map ed_name B) = {}"
    using efa_nics_disjoint[of root_host 0 1 "''pci0/0000''", OF _ _ _ _ _ _ _ _ _ _ _ r] by simp
  show ?thesis by (rule exI[of _ A], rule exI[of _ B]) (intro conjI r A conjunct1[OF d] conjunct2[OF d])
qed

end
