(* ===== verification/Session_EFA.thy ===== *)
theory Session_EFA
  imports Proxy_EFA Rdma_Efa Session_Bootstrap Session_Common
begin

text \<open>
  The session of the EFA backend, \<^verbatim>\<open>include/comm/internode/session_efa.h\<close>: several rails (NICs)
  for one GPU, queue pairs and completion queues bound to rails, per-peer endpoints, rings for each
  proxy or for each queue pair, the epoch transitions with their shortcuts, the priming of the
  transport before the first launch, and the release of resources. What CUDA, the verbs library,
  the environment and the peers return is the record \<open>efa_env\<close>.
\<close>

section \<open>Configuration\<close>

record EfaSessionConfig =
  fc_rank :: int
  fc_num_peers :: int
  fc_peer_ranks :: "int list option"
  fc_local_gpu_buf :: u64
  fc_local_gpu_buf_size :: u64
  fc_recv_buf_size :: u64
  fc_external_recv_buf :: u64
  fc_num_tiles :: int
  fc_fifo_capacity :: int
  fc_device_id :: int
  fc_max_inflight :: int
  fc_clocal_gpu_buf :: u64
  fc_clocal_gpu_buf_size :: u64
  fc_direct_dmabuf_enabled :: bool
  fc_num_qps :: int
  fc_logical_queues_per_qp :: int
  fc_num_proxy_threads :: int
  fc_use_arrival_queue :: bool
  fc_num_rails :: int

definition kEfaMaxQPs :: int where "kEfaMaxQPs = kMaxExchangeQPs"
definition kEfaStageBarrierSlots :: int where "kEfaStageBarrierSlots = 2"

text \<open>\<open>std::atoi\<close>: zero when there is no number.\<close>

definition c_atoi :: "string \<Rightarrow> int" where
  "c_atoi s = (case strtol10 s of None \<Rightarrow> 0 | Some v \<Rightarrow> v)"

section \<open>Derived counts\<close>

definition efa_num_qps :: "EfaSessionConfig \<Rightarrow> int" where
  "efa_num_qps c =
     (let q = (if fc_num_qps c \<le> 0 then 1 else fc_num_qps c) in if q > kEfaMaxQPs then kEfaMaxQPs else q)"

text \<open>\<open>env\<close> is \<open>MKERNEL_EFA_NUM_RAILS\<close>.\<close>

definition requested_rails :: "string option \<Rightarrow> EfaSessionConfig \<Rightarrow> int" where
  "requested_rails env c =
     (let r0 = (if fc_num_rails c \<le> 0 then 1 else fc_num_rails c);
          r1 = (if r0 > kMaxRails then kMaxRails else r0);
          r2 = (case env of
                  None \<Rightarrow> r1
                | Some e \<Rightarrow> if e \<noteq> [] \<and> c_atoi e \<ge> 1 \<and> c_atoi e \<le> kMaxRails then c_atoi e else r1)
      in if r2 > efa_num_qps c then efa_num_qps c else r2)"

definition efa_proxy_threads :: "string option \<Rightarrow> EfaSessionConfig \<Rightarrow> int" where
  "efa_proxy_threads env c =
     (let t0 = (if fc_num_proxy_threads c \<le> 0 then 1 else fc_num_proxy_threads c);
          t1 = (if t0 < requested_rails env c then requested_rails env c else t0);
          t2 = (if t1 > kMaxProxyThreads then kMaxProxyThreads else t1);
          t3 = (if t2 > efa_num_qps c then efa_num_qps c else t2)
      in max 1 t3)"

definition efa_lqs :: "EfaSessionConfig \<Rightarrow> int" where
  "efa_lqs c =
     (let l = (if fc_logical_queues_per_qp c \<le> 0 then 1 else fc_logical_queues_per_qp c) in if l > 16 then 16 else l)"

definition efa_total_lqs :: "EfaSessionConfig \<Rightarrow> int" where
  "efa_total_lqs c = efa_num_qps c * efa_lqs c"

definition efa_queue_stride :: "EfaSessionConfig \<Rightarrow> int" where
  "efa_queue_stride c = max 1 (ceil_div (fc_num_tiles c) (efa_total_lqs c))"

definition efa_arrival_slots :: "EfaSessionConfig \<Rightarrow> int" where
  "efa_arrival_slots c = efa_queue_stride c * efa_total_lqs c"

definition efa_qps_per_proxy :: "string option \<Rightarrow> EfaSessionConfig \<Rightarrow> int" where
  "efa_qps_per_proxy env c = max 1 (ceil_div (efa_num_qps c) (efa_proxy_threads env c))"

definition efa_owner_thread :: "string option \<Rightarrow> EfaSessionConfig \<Rightarrow> int \<Rightarrow> int" where
  "efa_owner_thread env c i = min (efa_proxy_threads env c - 1) (c_div i (efa_qps_per_proxy env c))"

section \<open>Rails\<close>

definition block_rail :: "EfaSessionConfig \<Rightarrow> int \<Rightarrow> int \<Rightarrow> int" where
  "block_rail c rails i = c_div (i * rails) (efa_num_qps c)"

text \<open>The slice of queue pairs of proxy \<open>t\<close>, and whether one of them is on another rail than the first.\<close>

definition proxy_slice :: "string option \<Rightarrow> EfaSessionConfig \<Rightarrow> int \<Rightarrow> int list" where
  "proxy_slice env c t =
     (let qp_base = t * efa_qps_per_proxy env c
      in [qp_base..min (qp_base + efa_qps_per_proxy env c) (efa_num_qps c) - 1])"

definition slice_misaligned :: "string option \<Rightarrow> EfaSessionConfig \<Rightarrow> int \<Rightarrow> int \<Rightarrow> bool" where
  "slice_misaligned env c rails t =
     (let qp_base = t * efa_qps_per_proxy env c
      in qp_base < efa_num_qps c \<and>
         list_ex (\<lambda>i. block_rail c rails i \<noteq> block_rail c rails qp_base) (proxy_slice env c t))"

text \<open>The rails and the rail of each queue pair after the check: all on rail 0 when a slice is misaligned.\<close>

definition assign_rails :: "string option \<Rightarrow> EfaSessionConfig \<Rightarrow> int \<Rightarrow> int \<times> int list" where
  "assign_rails env c rails =
     (if list_ex (slice_misaligned env c rails) [0..efa_proxy_threads env c - 1]
      then (1, map (\<lambda>i. 0) [0..efa_num_qps c - 1])
      else (rails, map (block_rail c rails) [0..efa_num_qps c - 1]))"

definition proxy_rail :: "string option \<Rightarrow> EfaSessionConfig \<Rightarrow> int list \<Rightarrow> int \<Rightarrow> int" where
  "proxy_rail env c qp_rail t =
     (let qp_base = t * efa_qps_per_proxy env c in if qp_base < efa_num_qps c then qp_rail ! nat qp_base else 0)"

section \<open>State\<close>

type_synonym efa_thread = "(EfaProxy, D2HFifo list) proxy_thread"

datatype efa_resource =
    FCtx nat | FPd nat | FCq nat | FQp nat | FLocalMr nat | FClocalMr nat | FRecvMr nat | FRecvMem | FFifo nat
  | FArrival | FArrivalMr nat | FStaging nat | FStagingMr nat | FBarrier | FBarrierMr nat | FAh nat nat | FProxy nat

record EfaSession =
  fs_rank :: int
  fs_epoch :: u32
  fs_num_rails :: int
  fs_num_qps :: int
  fs_num_peers :: int
  fs_qps_per_proxy :: int
  fs_qp_rail :: "int list"
  fs_cq_rail :: "int list"
  fs_qp_cq :: "nat list"
  fs_recv_size :: u64
  fs_recv_external :: bool
  fs_has_clocal :: bool
  fs_bundle :: "nat D2HFifoDeviceBundle"
  fs_threads :: "efa_thread list"
  fs_spare :: "D2HFifo list"
  fs_arrival :: ArrivalFlags
  fs_barrier :: "u32 list"
  fs_remote_infos :: "ConnectionInfo list"
  fs_ahs :: "ah_attr list"
  fs_resources :: "efa_resource list"

record efa_env =
  fe_rails_env :: "string option"
  fe_host :: efa_host
  fe_pd :: "int \<Rightarrow> bool"
  fe_cq :: "int \<Rightarrow> bool"
  fe_qp :: "int \<Rightarrow> bool"
  fe_modify :: "int \<Rightarrow> int"
  fe_sq_env :: "string option"
  fe_sq_attr :: "int \<Rightarrow> int option"
  fe_local_mr :: "int \<Rightarrow> u32 mr_calls"
  fe_clocal_mr :: "int \<Rightarrow> u32 mr_calls"
  fe_recv_ptr :: "u64 option"
  fe_recv_mr :: "int \<Rightarrow> u32 mr_calls"
  fe_fifo_env :: "string option"
  fe_arrival_addr :: u64
  fe_arrival_mr :: "int \<Rightarrow> u32 option"
  fe_staging_addr :: "int \<Rightarrow> u64"
  fe_staging_mr :: "int \<Rightarrow> u32 option"
  fe_barrier_addr :: u64
  fe_barrier_mr :: "int \<Rightarrow> u32 option"
  fe_qp_nums :: "u32 list"
  fe_lid :: u16
  fe_gid_at :: "int \<Rightarrow> u8 list"
  fe_gid_env :: "string option"
  fe_rail_gid :: "int \<Rightarrow> u8 list"
  fe_exchange :: "int \<Rightarrow> ConnectionInfo \<Rightarrow> string + ConnectionInfo"
  fe_ah :: "int \<Rightarrow> bool"
  fe_tail_env :: "string option"
  fe_pipe_env :: "string option"
  fe_notify_env :: "string option"
  fe_polls :: "int \<Rightarrow> efa_wc list list"

definition is_one :: "string option \<Rightarrow> bool" where
  "is_one env = (case env of Some e \<Rightarrow> e \<noteq> [] \<and> hd e = CHR ''1'' | None \<Rightarrow> False)"

section \<open>The steps of \<open>create_session\<close>\<close>

definition efa_pds :: "efa_env \<Rightarrow> int \<Rightarrow> session_error + unit list" where
  "efa_pds E rails = all_ok (map (\<lambda>r. thrown (alloc_pd (fe_pd E r))) [0..rails - 1])"

definition efa_cqs :: "EfaSessionConfig \<Rightarrow> efa_env \<Rightarrow> int list \<Rightarrow> session_error + int list" where
  "efa_cqs c E qp_rail =
     all_ok (map (\<lambda>t. and_then (thrown (create_cq (fe_cq E t) 4096)) (\<lambda>_. Inr (proxy_rail (fe_rails_env E) c qp_rail t)))
       [0..efa_proxy_threads (fe_rails_env E) c - 1])"

definition efa_qps :: "EfaSessionConfig \<Rightarrow> efa_env \<Rightarrow> int list \<Rightarrow> session_error + srd_attr list" where
  "efa_qps c E qp_rail =
     all_ok (map (\<lambda>i. thrown
       (and_then (create_srd_qp (fe_qp E i) (fe_sq_env E) (fe_sq_attr E (qp_rail ! nat i))
                    (nat (efa_owner_thread (fe_rails_env E) c i)) 512)
          (\<lambda>(qp, depth_out). and_then (modify_srd_qp_init (fe_modify E (3 * i)))
             (\<lambda>_. and_then (modify_srd_qp_rtr (fe_modify E (3 * i + 1)))
             (\<lambda>_. and_then (modify_srd_qp_rts (fe_modify E (3 * i + 2))) (\<lambda>_. Inr qp))))))
       [0..efa_num_qps c - 1])"

definition must_register :: "string \<Rightarrow> 'k option \<Rightarrow> session_error + 'k" where
  "must_register msg r = (case r of None \<Rightarrow> Inl (Exited msg) | Some k \<Rightarrow> Inr k)"

definition efa_local_mrs :: "efa_env \<Rightarrow> int \<Rightarrow> session_error + u32 list" where
  "efa_local_mrs E rails =
     all_ok (map (\<lambda>r. must_register ''ibv_reg_mr(gpu) failed'' (register_gpu_buffer (fe_local_mr E r))) [0..rails - 1])"

definition efa_clocal :: "EfaSessionConfig \<Rightarrow> efa_env \<Rightarrow> int \<Rightarrow> session_error + u32 list option" where
  "efa_clocal c E rails =
     (if fc_direct_dmabuf_enabled c \<and> fc_clocal_gpu_buf c \<noteq> 0 \<and> fc_clocal_gpu_buf_size c > 0
      then and_then
             (all_ok (map (\<lambda>r. must_register ''direct-DMA-BUF registration failed''
                (map_option fst (register_gpu_buffer_dmabuf_only (fe_clocal_mr E r)))) [0..rails - 1]))
             (\<lambda>ks. Inr (Some ks))
      else Inr None)"

definition efa_recv :: "EfaSessionConfig \<Rightarrow> efa_env \<Rightarrow> int \<Rightarrow> session_error + u64 \<times> u32 list" where
  "efa_recv c E rails =
     (let reg = (\<lambda>r. must_register ''ibv_reg_mr(gpu) failed'' (register_gpu_buffer (fe_recv_mr E r)))
      in if fc_external_recv_buf c \<noteq> 0
         then and_then (all_ok (map reg [0..rails - 1])) (\<lambda>ks. Inr (fc_external_recv_buf c, ks))
         else and_then (must_register ''receive buffer'' (alloc_and_register (fe_recv_ptr E) (fe_recv_mr E 0) (fc_recv_buf_size c)))
                (\<lambda>b. and_then (all_ok (map reg [1..rails - 1])) (\<lambda>ks. Inr (gb_ptr b, the (gb_mr b) # ks))))"

definition efa_fifo_per_qp :: "efa_env \<Rightarrow> bool" where
  "efa_fifo_per_qp E = (case fe_fifo_env E of Some e \<Rightarrow> c_atoi e \<noteq> 0 | None \<Rightarrow> False)"

definition efa_num_fifos :: "EfaSessionConfig \<Rightarrow> efa_env \<Rightarrow> int" where
  "efa_num_fifos c E =
     (let n = (if efa_fifo_per_qp E then efa_num_qps c else efa_proxy_threads (fe_rails_env E) c)
      in if n > kMaxProxyThreads then kMaxProxyThreads else n)"

definition fifos_per_proxy :: "EfaSessionConfig \<Rightarrow> efa_env \<Rightarrow> int" where
  "fifos_per_proxy c E = c_div (efa_num_fifos c E) (efa_proxy_threads (fe_rails_env E) c)"

definition efa_bundle :: "EfaSessionConfig \<Rightarrow> efa_env \<Rightarrow> nat D2HFifoDeviceBundle" where
  "efa_bundle c E =
     \<lparr>fifos = [0..<nat (efa_num_fifos c E)], num_fifos = efa_num_fifos c E, global_num_qps = efa_num_qps c,
      logical_queues_per_qp = efa_lqs c,
      qps_per_fifo = (if efa_fifo_per_qp E then 1 else efa_qps_per_proxy (fe_rails_env E) c)\<rparr>"

definition efa_create_fifo :: "EfaSessionConfig \<Rightarrow> session_error + D2HFifo" where
  "efa_create_fifo c =
     must_register ''d2h_fifo: capacity must be power of 2''
       (create_d2h_fifo (if fc_fifo_capacity c > 0 then fc_fifo_capacity c else 1024))"

record efa_tables =
  et_arrival :: "u32 list"
  et_staging :: "u32 list"
  et_barrier :: "u32 list"

definition efa_register_tables :: "EfaSessionConfig \<Rightarrow> efa_env \<Rightarrow> int \<Rightarrow> session_error + efa_tables" where
  "efa_register_tables c E rails =
     thrown (and_then (all_ok (map (\<lambda>r. reg_mr (fe_arrival_mr E r)) [0..rails - 1])) (\<lambda>a.
       and_then (all_ok (map (\<lambda>t. reg_mr (fe_staging_mr E t)) [0..efa_proxy_threads (fe_rails_env E) c - 1])) (\<lambda>st.
       and_then (all_ok (map (\<lambda>r. reg_mr (fe_barrier_mr E r)) [0..rails - 1])) (\<lambda>b.
       Inr \<lparr>et_arrival = a, et_staging = st, et_barrier = b\<rparr>))))"

definition blank_info :: ConnectionInfo where
  "blank_info = \<lparr>ci_qp_num = 0, ci_psn = 0, ci_lid = 0, ci_gid = replicate 16 0, ci_data_rkey = 0,
     ci_data_addr = 0, ci_data_len = 0, ci_flags_rkey = 0, ci_flags_addr = 0, ci_tail_rkey = 0, ci_tail_addr = 0,
     ci_barrier_rkey = 0, ci_barrier_addr = 0, ci_forward_notify_rkey = 0, ci_forward_notify_addr = 0,
     ci_forward_notify_count = 0, ci_num_qps = 0, ci_extra_qp_nums = replicate 23 0, ci_extra_psns = replicate 23 0,
     ci_num_rails = 0, ci_qp_to_rail = replicate 24 0, ci_extra_rails = []\<rparr>"

definition efa_local_info ::
    "EfaSessionConfig \<Rightarrow> efa_env \<Rightarrow> int \<Rightarrow> int list \<Rightarrow> u64 \<times> u32 list \<Rightarrow> efa_tables \<Rightarrow> ConnectionInfo" where
  "efa_local_info c E rails qp_rail recv tb =
     (let i0 = fill_local_info (fe_qp_nums E ! 0) (fe_lid E) (fe_gid_at E) (roce_gid_index (fe_gid_env E)) blank_info;
          i1 = i0\<lparr>ci_data_rkey := snd recv ! 0, ci_data_addr := fst recv, ci_data_len := fc_recv_buf_size c,
                  ci_flags_rkey := et_arrival tb ! 0, ci_flags_addr := fe_arrival_addr E,
                  ci_tail_rkey := et_arrival tb ! 0,
                  ci_tail_addr := fe_arrival_addr E + 4 * word_of_int (efa_arrival_slots c),
                  ci_barrier_rkey := et_barrier tb ! 0, ci_barrier_addr := fe_barrier_addr E,
                  ci_num_qps := efa_num_qps c\<rparr>
      in i1\<lparr>ci_extra_qp_nums := map (\<lambda>i. if i < nat (efa_num_qps c) - 1 then fe_qp_nums E ! Suc i else 0) [0..<23],
            ci_num_rails := rails,
            ci_qp_to_rail := map (\<lambda>i. if i < nat (efa_num_qps c) then qp_rail ! i else 0) [0..<24],
            ci_extra_rails := map (\<lambda>r. \<lparr>rx_gid = fe_rail_gid E r, rx_data_rkey = snd recv ! nat r,
               rx_flags_rkey = et_arrival tb ! nat r, rx_tail_rkey = et_arrival tb ! nat r,
               rx_barrier_rkey = et_barrier tb ! nat r\<rparr>) [1..rails - 1]\<rparr>)"

section \<open>Peers\<close>

definition efa_check_peers :: "EfaSessionConfig \<Rightarrow> session_error + unit" where
  "efa_check_peers c =
     (if fc_num_peers c \<le> 0 \<or> fc_num_peers c > kMaxPeers then Inl (NullSession ''num_peers out of range'') else Inr ())"

definition sess_peer_ranks :: "EfaSessionConfig \<Rightarrow> int list" where
  "sess_peer_ranks c =
     map (\<lambda>p. case fc_peer_ranks c of
                 Some rs \<Rightarrow> rs ! nat p | None \<Rightarrow> c_mod (fc_rank c + 1 + p) (fc_num_peers c + 1)) [0..fc_num_peers c - 1]"

definition peer_slot_table :: "EfaSessionConfig \<Rightarrow> int list" where
  "peer_slot_table c =
     fold (\<lambda>(p, r) table. if 0 \<le> r \<and> r \<le> kMaxPeers then table[nat r := int p] else table)
       (enumerate 0 (sess_peer_ranks c)) (replicate (nat kMaxPeers + 1) (- 1))"

definition peer_slot_of_rank :: "int list \<Rightarrow> int \<Rightarrow> int" where
  "peer_slot_of_rank table dst =
     (if dst < 0 \<or> dst > kMaxPeers then 0 else let v = table ! nat dst in if v < 0 then 0 else v)"

definition efa_slot_of :: "EfaSessionConfig \<Rightarrow> int \<Rightarrow> nat option" where
  "efa_slot_of c peer = find (\<lambda>p. sess_peer_ranks c ! p = peer) [0..<nat (fc_num_peers c)]"

text \<open>A pair whose peer has no slot is skipped.\<close>

fun efa_exchange_all :: "EfaSessionConfig \<Rightarrow> efa_env \<Rightarrow> ConnectionInfo \<Rightarrow> (int \<times> int) list \<Rightarrow> ConnectionInfo list \<Rightarrow>
    session_error + ConnectionInfo list" where
  "efa_exchange_all c E me [] infos = Inr infos"
| "efa_exchange_all c E me (q # qs) infos =
     (case efa_slot_of c (peer_of (fc_rank c) q) of
        None \<Rightarrow> efa_exchange_all c E me qs infos
      | Some p \<Rightarrow>
          (case fe_exchange E (int p) me of
             Inl e \<Rightarrow> Inl (Thrown e)
           | Inr info \<Rightarrow> efa_exchange_all c E me qs (infos[p := info])))"

definition dst_qpn :: "ConnectionInfo \<Rightarrow> int \<Rightarrow> u32" where
  "dst_qpn info i = (if i = 0 then ci_qp_num info else ci_extra_qp_nums info ! nat (i - 1))"

definition rail_gid :: "ConnectionInfo \<Rightarrow> int \<Rightarrow> u8 list" where
  "rail_gid info r =
     (if r = 0 then ci_gid info
      else if ci_num_rails info > 1 then rx_gid (ci_extra_rails info ! nat (r - 1)) else ci_gid info)"

text \<open>The address handles, peer by peer, one on every rail.\<close>

definition efa_ahs :: "EfaSessionConfig \<Rightarrow> efa_env \<Rightarrow> int \<Rightarrow> ConnectionInfo list \<Rightarrow> session_error + ah_attr list" where
  "efa_ahs c E rails infos =
     all_ok (concat (map (\<lambda>p. map (\<lambda>r. thrown (create_ah (fe_ah E (p * rails + r)) (rail_gid (infos ! nat p) r)))
       [0..rails - 1]) [0..fc_num_peers c - 1]))"

section \<open>Proxies\<close>

definition peer_rail :: "ConnectionInfo \<Rightarrow> int \<Rightarrow> RailExchangeInfo option" where
  "peer_rail info qp_base =
     (let r = (if ci_num_rails info > 1 then ci_qp_to_rail info ! nat qp_base else 0)
      in if ci_num_rails info > 1 \<and> r \<ge> 1 then Some (ci_extra_rails info ! nat (r - 1)) else None)"

definition efa_peer_data :: "int \<Rightarrow> int \<Rightarrow> int \<Rightarrow> int \<Rightarrow> nat \<Rightarrow> ConnectionInfo \<Rightarrow> PerPeerProxyData" where
  "efa_peer_data rails rail qp_base qps p info =
     (let x = peer_rail info qp_base
      in \<lparr>pp_dst_ah = p * nat rails + nat rail,
          pp_dst_qpns = map (\<lambda>i. if i < qps then dst_qpn info (qp_base + i) else 0) [0..kMaxExchangeQPs - 1],
          pp_remote_data_addr = ci_data_addr info,
          pp_remote_data_rkey = (case x of Some k \<Rightarrow> rx_data_rkey k | None \<Rightarrow> ci_data_rkey info),
          pp_remote_flags_addr = ci_flags_addr info,
          pp_remote_flags_rkey = (case x of Some k \<Rightarrow> rx_flags_rkey k | None \<Rightarrow> ci_flags_rkey info),
          pp_remote_tail_addr = ci_tail_addr info,
          pp_remote_tail_rkey = (case x of Some k \<Rightarrow> rx_tail_rkey k | None \<Rightarrow> ci_tail_rkey info),
          pp_remote_barrier_addr = ci_barrier_addr info,
          pp_remote_barrier_rkey = (case x of Some k \<Rightarrow> rx_barrier_rkey k | None \<Rightarrow> ci_barrier_rkey info)\<rparr>)"

definition efa_local_qps :: "string option \<Rightarrow> EfaSessionConfig \<Rightarrow> int \<Rightarrow> int" where
  "efa_local_qps env c t = min (efa_qps_per_proxy env c) (efa_num_qps c - t * efa_qps_per_proxy env c)"

definition efa_proxy_config ::
    "EfaSessionConfig \<Rightarrow> efa_env \<Rightarrow> int \<Rightarrow> int list \<Rightarrow> u32 list \<Rightarrow> u32 list option \<Rightarrow> efa_tables \<Rightarrow> ConnectionInfo list \<Rightarrow>
     int \<Rightarrow> EfaConfig" where
  "efa_proxy_config c E rails qp_rail local_keys clocal tb infos t =
     (let env = fe_rails_env E; base = t * efa_qps_per_proxy env c; rail = proxy_rail env c qp_rail t;
          d = (fc_direct_dmabuf_enabled c \<and> fc_clocal_gpu_buf c \<noteq> 0 \<and> clocal \<noteq> None)
      in \<lparr>ec_num_fifos = (if efa_num_fifos c E > efa_proxy_threads env c then fifos_per_proxy c E else 1),
          ec_num_qps = efa_local_qps env c t, ec_qp_base_idx = base, ec_global_num_qps = efa_num_qps c,
          ec_logical_queues_per_qp = efa_lqs c,
          ec_local_data_addr = fc_local_gpu_buf c, ec_local_data_lkey = local_keys ! nat rail,
          ec_clocal_data_addr = (if d then fc_clocal_gpu_buf c else 0),
          ec_clocal_data_lkey = (if d then the clocal ! nat rail else 0),
          ec_direct_dmabuf_enabled = d,
          ec_has_local_arrival = True, ec_local_arrival_count = efa_arrival_slots c,
          ec_staging_ok = True, ec_staging_addr = fe_staging_addr E t, ec_staging_lkey = et_staging tb ! nat t,
          ec_staging_count = 8192, ec_use_arrival_queue = fc_use_arrival_queue c,
          ec_remote_queue_stride = word_of_int (efa_queue_stride c), ec_enable_remote_tail = is_one (fe_tail_env E),
          ec_epoch = 1, ec_max_inflight = (if fc_max_inflight c > 0 then fc_max_inflight c else 512),
          ec_sq_depth = 512, ec_pipeline_enabled = is_one (fe_pipe_env E),
          ec_per_peer = map (\<lambda>p. efa_peer_data rails rail base (efa_local_qps env c t) p (infos ! p)) [0..<nat (fc_num_peers c)],
          ec_peer_slot_by_rank = Some (peer_slot_table c)\<rparr>)"

text \<open>The rings of thread \<open>t\<close>, and the loop that starts the proxies.\<close>

definition thread_rings :: "EfaSessionConfig \<Rightarrow> efa_env \<Rightarrow> D2HFifo \<Rightarrow> D2HFifo list" where
  "thread_rings c E f =
     replicate (nat (if efa_num_fifos c E > efa_proxy_threads (fe_rails_env E) c then fifos_per_proxy c E else 1)) f"

fun efa_spawn :: "EfaSessionConfig \<Rightarrow> efa_env \<Rightarrow> (int \<Rightarrow> EfaConfig) \<Rightarrow> D2HFifo \<Rightarrow> ArrivalFlags \<Rightarrow> nat \<Rightarrow> nat \<Rightarrow> efa_thread list" where
  "efa_spawn c E pc f af t 0 = []"
| "efa_spawn c E pc f af t (Suc n) =
     (if efa_local_qps (fe_rails_env E) c (int t) \<le> 0 then replicate (Suc n) (Unserved (thread_rings c E f))
      else Running (new_efa_proxy (fe_notify_env E) (pc (int t)) (thread_rings c E f) (create_flag_staging 8192)
                      (take (nat (af_count af)) (af_words af)) (fe_polls E (int t)))
           # efa_spawn c E pc f af (Suc t) n)"

section \<open>Creation\<close>

definition served_proxies :: "efa_thread list \<Rightarrow> efa_resource list" where
  "served_proxies ths = map FProxy (filter (\<lambda>t. is_served (ths ! t)) [0..<length ths])"

definition efa_acquired :: "int \<Rightarrow> int \<Rightarrow> int \<Rightarrow> int \<Rightarrow> int \<Rightarrow> int \<Rightarrow> bool \<Rightarrow> bool \<Rightarrow> efa_thread list \<Rightarrow> efa_resource list" where
  "efa_acquired opened rails threads qps num_rings peers has_clocal external ths =
     (let rs = [0..<nat rails]
      in map FCtx [0..<nat opened] @ map FPd [0..<nat opened] @ map FCq [0..<nat threads] @ map FQp [0..<nat qps] @
         map FLocalMr rs @ (if has_clocal then map FClocalMr rs else []) @
         (if external then [] else [FRecvMem]) @ map FRecvMr rs @ map FFifo [0..<nat num_rings] @
         [FArrival] @ map FArrivalMr rs @ concat (map (\<lambda>t. [FStaging t, FStagingMr t]) [0..<nat threads]) @
         [FBarrier] @ map FBarrierMr rs @ concat (map (\<lambda>p. map (FAh p) rs) [0..<nat peers]) @ served_proxies ths)"

definition efa_create_session :: "EfaSessionConfig \<Rightarrow> efa_env \<Rightarrow> session_error + EfaSession" where
  "efa_create_session c E =
     (let env = fe_rails_env E
      in and_then (thrown (open_efa_devices (fe_host E) (fc_device_id c) (requested_rails env c))) (\<lambda>devs.
         and_then (efa_pds E (int (length devs))) (\<lambda>_.
         let (rails, qp_rail) = assign_rails env c (int (length devs))
         in and_then (efa_cqs c E qp_rail) (\<lambda>cq_rail.
            and_then (efa_qps c E qp_rail) (\<lambda>qps.
            and_then (efa_local_mrs E rails) (\<lambda>local_keys.
            and_then (efa_clocal c E rails) (\<lambda>clocal.
            and_then (efa_recv c E rails) (\<lambda>recv.
            and_then (efa_create_fifo c) (\<lambda>f.
            and_then (efa_register_tables c E rails) (\<lambda>tb.
            and_then (efa_check_peers c) (\<lambda>_.
            and_then (efa_exchange_all c E (efa_local_info c E rails qp_rail recv tb)
                        (exchange_plan (fc_num_peers c + 1) (fc_rank c)) (replicate (nat kMaxPeers) blank_info)) (\<lambda>infos.
            and_then (efa_ahs c E rails infos) (\<lambda>ahs.
            let af = create_mapped_arrival_flags (efa_arrival_slots c) (efa_total_lqs c);
                threads = efa_proxy_threads env c;
                ths = efa_spawn c E (efa_proxy_config c E rails qp_rail local_keys clocal tb infos) f af 0 (nat threads);
                rings = (if efa_num_fifos c E > threads then fifos_per_proxy c E else 1) * threads
            in Inr \<lparr>fs_rank = fc_rank c, fs_epoch = 1, fs_num_rails = rails, fs_num_qps = efa_num_qps c,
                    fs_num_peers = fc_num_peers c,
                    fs_qps_per_proxy = efa_qps_per_proxy env c, fs_qp_rail = qp_rail, fs_cq_rail = cq_rail,
                    fs_qp_cq = map sa_cq qps, fs_recv_size = fc_recv_buf_size c,
                    fs_recv_external = (fc_external_recv_buf c \<noteq> 0), fs_has_clocal = (clocal \<noteq> None),
                    fs_bundle = efa_bundle c E, fs_threads = ths,
                    fs_spare = replicate (nat (efa_num_fifos c E - rings)) f,
                    fs_arrival = af, fs_barrier = create_stage_barrier_flags kEfaStageBarrierSlots,
                    fs_remote_infos = infos, fs_ahs = ahs,
                    fs_resources = efa_acquired (int (length devs)) rails threads (efa_num_qps c) (efa_num_fifos c E)
                      (fc_num_peers c) (clocal \<noteq> None) (fc_external_recv_buf c \<noteq> 0) ths\<rparr>)))))))))))))"

end
