(* ===== verification/Session_EFA_Run.thy ===== *)
theory Session_EFA_Run
  imports Session_EFA
begin

text \<open>
  The life of an EFA session after its creation (\<^verbatim>\<open>session_efa.h\<close>): draining, both phases of the epoch
  transition with their environment switches, the stage barrier of the host, the dummy writes that
  prime the transport before the first launch, and the release of resources. What concurrently
  running proxies have done when the host looks at them is an argument (\<open>snap\<close>, \<open>work\<close>).
\<close>

section \<open>Rings\<close>

definition rings_of :: "efa_thread \<Rightarrow> D2HFifo list" where
  "rings_of th = (case th of Running p \<Rightarrow> e_fifos p | Unserved fs \<Rightarrow> fs)"

definition set_rings :: "efa_thread \<Rightarrow> D2HFifo list \<Rightarrow> efa_thread" where
  "set_rings th fs = (case th of Running p \<Rightarrow> Running (p\<lparr>e_fifos := fs\<rparr>) | Unserved _ \<Rightarrow> Unserved fs)"

text \<open>All rings in the order of the array \<open>fifos\<close>, and a change of the ring of each index.\<close>

definition all_rings :: "EfaSession \<Rightarrow> D2HFifo list" where
  "all_rings s = concat (map rings_of (fs_threads s)) @ fs_spare s"

fun map_rings :: "(nat \<Rightarrow> D2HFifo \<Rightarrow> D2HFifo) \<Rightarrow> nat \<Rightarrow> efa_thread list \<Rightarrow> efa_thread list" where
  "map_rings g k [] = []"
| "map_rings g k (th # ths) =
     (let n = length (rings_of th)
      in set_rings th (map2 g [k..<k + n] (rings_of th)) # map_rings g (k + n) ths)"

section \<open>Draining\<close>

definition efa_thread_busy :: "u64 \<Rightarrow> D2HFifo \<Rightarrow> efa_thread \<Rightarrow> session_error + bool" where
  "efa_thread_busy h f th =
     (if cpu_head f < h then Inr True
      else case th of Running p \<Rightarrow> Inr (e_inflight p \<noteq> 0) | Unserved _ \<Rightarrow> Inl NullProxy)"

fun efa_threads_drained :: "(u64 \<times> D2HFifo \<times> efa_thread) list \<Rightarrow> session_error + bool" where
  "efa_threads_drained [] = Inr True"
| "efa_threads_drained ((h, f, th) # xs) =
     and_then (efa_thread_busy h f th) (\<lambda>b. if b then Inr False else efa_threads_drained xs)"

text \<open>The loops run over as many rings as there are threads.\<close>

definition efa_heads :: "EfaSession \<Rightarrow> u64 list" where
  "efa_heads s = map head (take (length (fs_threads s)) (all_rings s))"

definition efa_drain_proxy :: "(nat \<Rightarrow> EfaSession) \<Rightarrow> EfaSession \<Rightarrow> session_error + nat" where
  "efa_drain_proxy snap s =
     drain_from (\<lambda>i. efa_threads_drained (zip (efa_heads s) (zip (all_rings (snap i)) (fs_threads (snap i))))) 0"

section \<open>Epochs\<close>

definition efa_quiesce :: "EfaProxy \<Rightarrow> EfaProxy option" where
  "efa_quiesce p = map_option (\<lambda>(n, q). efa_reset_inflight q) (efa_drain_cq p)"

definition fast_level :: "string option \<Rightarrow> nat" where
  "fast_level env =
     (case env of
        Some (ch # _) \<Rightarrow> if ch = CHR ''1'' then 1 else if ch = CHR ''2'' then 2 else if ch = CHR ''3'' then 3 else 0
      | _ \<Rightarrow> 0)"

text \<open>\<open>env\<close> is \<open>MKERNEL_PREP_EPOCH_FAST\<close>; \<open>s\<close> is the session once the proxies have acknowledged.\<close>

definition efa_prepare_epoch ::
    "string option \<Rightarrow> (nat \<Rightarrow> EfaSession) \<Rightarrow> EfaSession \<Rightarrow> session_error + EfaSession option" where
  "efa_prepare_epoch env snap s =
     and_then (if fast_level env < 3 then efa_drain_proxy snap s else Inr 0) (\<lambda>_.
       if fast_level env < 2 then
         if \<not> list_all is_served (fs_threads s) then Inl NullProxy
         else and_then (on_proxies (\<lambda>t p. map_option efa_reset_timestamps (efa_quiesce p)) 0 (fs_threads s))
                (\<lambda>r. Inr (map_option (\<lambda>ths. s\<lparr>fs_threads := ths\<rparr>) r))
       else Inr (Some s))"

text \<open>The proxies see the reset of the arrival words, which they share with the session.\<close>

definition clear_arrival :: "efa_thread \<Rightarrow> efa_thread" where
  "clear_arrival th =
     (case th of Running p \<Rightarrow> Running (p\<lparr>e_arrival := replicate (length (e_arrival p)) 0\<rparr>) | Unserved fs \<Rightarrow> Unserved fs)"

text \<open>\<open>env\<close> is \<open>MKERNEL_COMMIT_EPOCH_SKIP_ARRIVAL_RESET\<close>.\<close>

definition efa_commit_epoch :: "string option \<Rightarrow> u32 \<Rightarrow> EfaSession \<Rightarrow> session_error + EfaSession option" where
  "efa_commit_epoch env e s =
     and_then (on_proxies (\<lambda>t p. Some (efa_set_epoch e p)) 0 (fs_threads s)) (\<lambda>r. Inr (map_option (\<lambda>ths.
       if is_one env then s\<lparr>fs_epoch := e, fs_threads := ths\<rparr>
       else s\<lparr>fs_epoch := e,
              fs_threads := map clear_arrival (map_rings (\<lambda>k f. if k < length ths then reset_fifo f else f) 0 ths),
              fs_arrival := reset_arrival_flags (fs_arrival s),
              fs_barrier := reset_stage_barrier_flags (fs_barrier s)\<rparr>) r))"

section \<open>The stage barrier of the host\<close>

definition efa_stage_barrier ::
    "efa_world \<Rightarrow> (nat \<Rightarrow> EfaSession) \<Rightarrow> (nat \<Rightarrow> u32) \<Rightarrow> int \<Rightarrow> u32 \<Rightarrow> EfaSession \<Rightarrow> session_error + EfaSession option" where
  "efa_stage_barrier W snap seen slot token s =
     (if slot < 0 \<or> slot \<ge> int (length (fs_barrier s)) then Inl (Exited ''stage_barrier: invalid slot'')
      else
        and_then (efa_drain_proxy snap s) (\<lambda>_.
        and_then (on_proxies (\<lambda>t p. efa_quiesce p) 0 (fs_threads s)) (\<lambda>r.
          case r of
            None \<Rightarrow> Inr None
          | Some (Running p # rest) \<Rightarrow>
              (case efa_quiesce (efa_post_stage_barrier W slot token p) of
                 None \<Rightarrow> Inr None
               | Some q \<Rightarrow>
                   (case wait_token seen token 0 of
                      None \<Rightarrow> Inl (Exited ''stage_barrier timeout'')
                    | Some k \<Rightarrow> Inr (Some (s\<lparr>fs_threads := Running q # rest\<rparr>))))
          | Some _ \<Rightarrow> Inl NullProxy)))"

section \<open>Priming the transport\<close>

definition should_prime_first_launch :: "string option \<Rightarrow> string option \<Rightarrow> bool" where
  "should_prime_first_launch env fci =
     (case env of
        Some e \<Rightarrow> if e \<noteq> [] then hd e = CHR ''1'' else is_one fci
      | None \<Rightarrow> is_one fci)"

definition prime_first_launch_rounds :: "string option \<Rightarrow> int" where
  "prime_first_launch_rounds env = (case env of Some e \<Rightarrow> if e \<noteq> [] then max 1 (c_atoi e) else 4 | None \<Rightarrow> 4)"

text \<open>The bytes behind the type byte are copied first, the type byte is stored last.\<close>

definition host_publish_transfer_cmd :: "D2HFifo \<Rightarrow> u64 \<Rightarrow> TransferCmd \<Rightarrow> D2HFifo" where
  "host_publish_transfer_cmd f slot cmd = f\<lparr>triggers := (triggers f)[slot_index f slot := cmd_words cmd]\<rparr>"

definition prime_bytes :: "EfaSession \<Rightarrow> u32" where
  "prime_bytes s = ucast (max 4 (min (128 * 256 * 2) (fs_recv_size s div word_of_int (max 1 (fs_num_qps s)))))"

definition prime_cmd :: "EfaSession \<Rightarrow> nat \<Rightarrow> TransferCmd" where
  "prime_cmd s q =
     zero_cmd\<lparr>cmd_type := WRITE, dst_rank := (if fs_rank s = 0 then 1 else 0),
       tile_id := word_of_int (af_count (fs_arrival s)), bytes := prime_bytes s,
       local_offset := of_nat q * ucast (prime_bytes s), remote_offset := of_nat q * ucast (prime_bytes s),
       lane_id := of_nat q\<rparr>"

text \<open>One command for every queue pair: the rings, the next free slot of each, and how many each got.\<close>

definition prime_owner :: "EfaSession \<Rightarrow> nat \<Rightarrow> nat" where
  "prime_owner s q = min (length (fs_threads s) - 1) (q div nat (fs_qps_per_proxy s))"

definition prime_step :: "EfaSession \<Rightarrow> nat \<Rightarrow> D2HFifo list \<times> u64 list \<times> nat list \<Rightarrow> D2HFifo list \<times> u64 list \<times> nat list" where
  "prime_step s q = (\<lambda>(fs, targets, injected).
     let t = prime_owner s q
     in (fs[t := host_publish_transfer_cmd (fs ! t) (targets ! t) (prime_cmd s q)],
         targets[t := targets ! t + 1], injected[t := injected ! t + 1]))"

definition prime_inject :: "EfaSession \<Rightarrow> D2HFifo list \<times> u64 list \<times> nat list" where
  "prime_inject s =
     (let fs = take (length (fs_threads s)) (all_rings s)
      in fold (prime_step s) [0..<nat (fs_num_qps s)]
           (fs, map cpu_head fs, replicate (length (fs_threads s)) 0))"

fun prime_done :: "(u64 \<times> nat \<times> D2HFifo \<times> efa_thread) list \<Rightarrow> session_error + bool" where
  "prime_done [] = Inr True"
| "prime_done ((target, n, f, th) # xs) =
     (if n = 0 then prime_done xs
      else and_then (efa_thread_busy target f th) (\<lambda>b. if b then Inr False else prime_done xs))"

definition prime_set_heads :: "u64 list \<Rightarrow> nat list \<Rightarrow> EfaSession \<Rightarrow> EfaSession" where
  "prime_set_heads targets injected s =
     s\<lparr>fs_threads := map_rings (\<lambda>k f. if k < length injected \<and> injected ! k \<noteq> 0
        then f\<lparr>head := targets ! k, tail_cache := targets ! k\<rparr> else f) 0 (fs_threads s)\<rparr>"

text \<open>\<open>work k s i\<close>: the session at the \<open>i\<close>-th look of round \<open>k\<close>, begun in state \<open>s\<close>.\<close>

fun prime_rounds :: "(nat \<Rightarrow> EfaSession \<Rightarrow> nat \<Rightarrow> EfaSession) \<Rightarrow> nat \<Rightarrow> nat \<Rightarrow> EfaSession \<Rightarrow> session_error + EfaSession" where
  "prime_rounds work k 0 s = Inr s"
| "prime_rounds work k (Suc n) s =
     (case prime_inject s of
        (fs, targets, injected) \<Rightarrow>
          let s1 = s\<lparr>fs_threads := map_rings (\<lambda>j f. if j < length fs then fs ! j else f) 0 (fs_threads s)\<rparr>
          in and_then (drain_from (\<lambda>i. prime_done (zip targets (zip injected
                 (zip (all_rings (work k s1 i)) (fs_threads (work k s1 i)))))) 0) (\<lambda>i.
               if i = drain_limit then Inr (work k s1 i)
               else prime_rounds work (Suc k) n (prime_set_heads targets injected (work k s1 i))))"

definition reset_served :: "efa_thread \<Rightarrow> efa_thread" where
  "reset_served th = (case th of Running p \<Rightarrow> Running (efa_reset_timestamps p) | Unserved fs \<Rightarrow> Unserved fs)"

text \<open>The environment: \<open>Q5_PRIME_FIRST_LAUNCH\<close>, \<open>Q5_FUSE_COMPUTE_INTRA\<close>, \<open>Q5_PRIME_FIRST_LAUNCH_ROUNDS\<close>.\<close>

definition prime_first_launch_transport ::
    "string option \<Rightarrow> string option \<Rightarrow> string option \<Rightarrow> (nat \<Rightarrow> EfaSession \<Rightarrow> nat \<Rightarrow> EfaSession) \<Rightarrow> EfaSession \<Rightarrow>
     session_error + EfaSession" where
  "prime_first_launch_transport env fci rounds_env work s =
     (if \<not> should_prime_first_launch env fci \<or> fs_num_qps s \<le> 0 \<or> af_tail_count (fs_arrival s) \<le> 0 then Inr s
      else if (word_of_int (af_count (fs_arrival s)) :: u32) > 0xFFFF then Inr s
      else and_then (prime_rounds work 0 (nat (prime_first_launch_rounds rounds_env)) s)
             (\<lambda>s'. Inr (s'\<lparr>fs_threads := map reset_served (fs_threads s')\<rparr>)))"

record efa_epoch_env =
  ee_fast :: "string option"
  ee_skip :: "string option"
  ee_prime :: "string option"
  ee_fci :: "string option"
  ee_rounds :: "string option"

definition efa_session_set_epoch ::
    "efa_epoch_env \<Rightarrow> (nat \<Rightarrow> EfaSession) \<Rightarrow> (nat \<Rightarrow> EfaSession \<Rightarrow> nat \<Rightarrow> EfaSession) \<Rightarrow> u32 \<Rightarrow> EfaSession \<Rightarrow>
     session_error + EfaSession option" where
  "efa_session_set_epoch V snap work e s =
     and_then (efa_prepare_epoch (ee_fast V) snap s) (\<lambda>r.
       case r of
         None \<Rightarrow> Inr None
       | Some s1 \<Rightarrow> and_then (efa_commit_epoch (ee_skip V) e s1) (\<lambda>r'.
           case r' of
             None \<Rightarrow> Inr None
           | Some s2 \<Rightarrow>
               if e = 1
               then and_then (prime_first_launch_transport (ee_prime V) (ee_fci V) (ee_rounds V) work s2) (\<lambda>s3. Inr (Some s3))
               else Inr (Some s2)))"

section \<open>Release and queries\<close>

definition efa_release :: "EfaSession \<Rightarrow> efa_resource list" where
  "efa_release s =
     (let n = length (fs_threads s); rs = [0..<nat (fs_num_rails s)]
      in concat (map (\<lambda>r. [FArrivalMr r, FBarrierMr r, FLocalMr r] @ (if fs_has_clocal s then [FClocalMr r] else []) @
                          (if fs_recv_external s \<or> r > 0 then [FRecvMr r] else [])) rs) @
         map FStagingMr [0..<n] @
         (if fs_recv_external s then [] else [FRecvMr 0, FRecvMem]) @
         map FFifo [0..<n] @ [FArrival] @ map FStaging [0..<n] @ [FBarrier] @
         map (FAh 0) rs @
         map FQp (rev [1..<nat (fs_num_qps s)]) @ [FQp 0] @ map FCq (rev [0..<n]) @
         concat (map (\<lambda>r. [FPd r, FCtx r]) rs))"

definition efa_destroy_session :: "(nat \<Rightarrow> EfaSession) \<Rightarrow> EfaSession \<Rightarrow> session_error + efa_resource list" where
  "efa_destroy_session snap s =
     (if fs_threads s \<noteq> [] \<and> is_served (hd (fs_threads s))
      then and_then (efa_drain_proxy snap s) (\<lambda>_. Inr (served_proxies (fs_threads s) @ efa_release s))
      else Inr (efa_release s))"

definition efa_running :: "EfaSession \<Rightarrow> EfaProxy list" where
  "efa_running s = concat (map (\<lambda>th. case th of Running p \<Rightarrow> [p] | Unserved _ \<Rightarrow> []) (fs_threads s))"

definition efa_get_proxy_diagnostics :: "EfaSession option \<Rightarrow> ProxyDiagnostics list" where
  "efa_get_proxy_diagnostics s = (case s of None \<Rightarrow> [] | Some t \<Rightarrow> map efa_get_diagnostics (efa_running t))"

definition efa_get_proxy_timelines :: "EfaSession option \<Rightarrow> ProxyTimeline list" where
  "efa_get_proxy_timelines s = (case s of None \<Rightarrow> [] | Some t \<Rightarrow> map efa_get_timeline (efa_running t))"

definition efa_get_proxy_timestamps :: "EfaSession option \<Rightarrow> ProxyTimestamps" where
  "efa_get_proxy_timestamps s =
     (case s of
        Some t \<Rightarrow> (case fs_threads t of Running p # _ \<Rightarrow> e_ts p | _ \<Rightarrow> ts_reset)
      | None \<Rightarrow> ts_reset)"

end
