(* ===== verification/Session_EFA_Links.thy ===== *)
theory Session_EFA_Links
  imports Session_EFA_Run
begin

text \<open>
  The queue pairs of an EFA session: which proxy and rail own them, how the rings are routed to the
  owners, and that a command for a rank is posted to the endpoint this rank sent in the exchange; a
  node with two rails as a concrete instance.
\<close>

section \<open>Counts and owners\<close>

lemma kEfaMaxQPs_eq [simp]: "kEfaMaxQPs = 24" "kMaxExchangeQPs = 24"
  by (simp_all add: kEfaMaxQPs_def kMaxExchangeQPs_def)

lemma efa_num_qps_range: "1 \<le> efa_num_qps c" "efa_num_qps c \<le> 24"
  by (auto simp: efa_num_qps_def Let_def)

lemma efa_proxy_threads_range: "1 \<le> efa_proxy_threads env c" "efa_proxy_threads env c \<le> efa_num_qps c"
  using efa_num_qps_range[of c] by (auto simp: efa_proxy_threads_def Let_def)

interpretation efa: qp_slices "efa_num_qps c" "efa_proxy_threads env c" "efa_qps_per_proxy env c" for env c
  by unfold_locales (use efa_proxy_threads_range in \<open>simp_all add: efa_qps_per_proxy_def\<close>)

lemmas efa_ranges = efa_num_qps_range efa_proxy_threads_range efa.counts(2-4)

lemma efa_owner_range:
  assumes "0 \<le> q" "q < efa_num_qps c"
  shows "efa_owner_thread env c q = q div efa_qps_per_proxy env c" "0 \<le> efa_owner_thread env c q"
    "efa_owner_thread env c q < efa_proxy_threads env c"
    "efa_owner_thread env c q * efa_qps_per_proxy env c \<le> q"
    "q < efa_owner_thread env c q * efa_qps_per_proxy env c + efa_local_qps env c (efa_owner_thread env c q)"
    "0 < efa_local_qps env c (efa_owner_thread env c q)"
  using efa.owner[OF assms, of env] by (simp_all add: efa_owner_thread_def efa_local_qps_def)

section \<open>Rails\<close>

lemma opened_some: "open_efa_devices h r k = Inr devs \<Longrightarrow> devs \<noteq> []"
  by (auto simp: open_efa_devices_def and_then_Inr_iff rdma_check_def split: if_splits)

lemma block_rail_range:
  assumes "1 \<le> rails" "0 \<le> i" "i < efa_num_qps c"
  shows "0 \<le> block_rail c rails i" "block_rail c rails i < rails"
proof -
  have "i * rails < rails * efa_num_qps c" using assms by simp
  then show "0 \<le> block_rail c rails i" "block_rail c rails i < rails"
    using assms efa_num_qps_range[of c] unfolding block_rail_def by (auto intro: div_less_of_mult simp: pos_imp_zdiv_nonneg_iff)
qed

lemma assign_rails_range:
  assumes "assign_rails env c opened = (rails, qp_rail)" "1 \<le> opened"
  shows "1 \<le> rails" "rails \<le> opened" "length qp_rail = nat (efa_num_qps c)"
    "0 \<le> i \<Longrightarrow> i < efa_num_qps c \<Longrightarrow> 0 \<le> qp_rail ! nat i \<and> qp_rail ! nat i < rails"
  using assms block_rail_range[of opened i c] by (auto simp: assign_rails_def split: if_splits)

text \<open>Every queue pair is on the rail of the first queue pair of its owner.\<close>

lemma slice_on_one_rail:
  assumes "assign_rails env c opened = (rails, qp_rail)" "0 \<le> q" "q < efa_num_qps c"
  shows "qp_rail ! nat q = proxy_rail env c qp_rail (efa_owner_thread env c q)"
proof -
  let ?t = "efa_owner_thread env c q" and ?w = "efa_qps_per_proxy env c"
  note o = efa_owner_range[OF assms(2,3), of env]
  have "1 \<le> ?w" using efa_ranges(5) .
  then have first: "0 \<le> ?t * ?w" "?t * ?w < efa_num_qps c" using o(2,4) assms(3) by auto
  have pr: "proxy_rail env c qp_rail ?t = qp_rail ! nat (?t * ?w)" using first by (simp add: proxy_rail_def)
  show ?thesis
  proof (cases "list_ex (slice_misaligned env c opened) [0..efa_proxy_threads env c - 1]")
    case True
    then show ?thesis using assms first by (simp add: pr assign_rails_def split: if_splits) auto
  next
    case False
    then have "\<not> slice_misaligned env c opened ?t" using o by (auto simp: list_ex_iff)
    moreover have "q \<in> set (proxy_slice env c ?t)"
      using o assms by (auto simp: proxy_slice_def efa_local_qps_def Let_def)
    ultimately have "block_rail c opened q = block_rail c opened (?t * ?w)"
      using first by (auto simp: slice_misaligned_def list_ex_iff Let_def)
    then show ?thesis using False assms first by (simp add: pr assign_rails_def) auto
  qed
qed

section \<open>What a created session holds\<close>

lemma all_ok_nth: "all_ok (map f [0..n - 1]) = Inr ys \<Longrightarrow> 0 \<le> i \<Longrightarrow> i < n \<Longrightarrow> f i = Inr (ys ! nat i)"
proof -
  assume "all_ok (map f [0..n - 1]) = Inr ys" "0 \<le> i" "i < n"
  then have e: "map f [0..n - 1] = map Inr ys" by (simp add: all_ok_Inr_iff)
  have "length ys = nat n" using arg_cong[OF e, of length] by simp
  then show ?thesis using arg_cong[OF e, of "\<lambda>xs. xs ! nat i"] \<open>0 \<le> i\<close> \<open>i < n\<close> by simp
qed

lemma all_ok_length: "all_ok (map f xs) = Inr ys \<Longrightarrow> length ys = length xs"
  by (metis all_ok_Inr_iff length_map)

lemma efa_create_cases [consumes 1, case_names created]:
  assumes "efa_create_session c E = Inr s"
  obtains devs rails qp_rail cq_rail qps local_keys clocal recv f tb infos ahs where
    "open_efa_devices (fe_host E) (fc_device_id c) (requested_rails (fe_rails_env E) c) = Inr devs"
    "assign_rails (fe_rails_env E) c (int (length devs)) = (rails, qp_rail)"
    "efa_cqs c E qp_rail = Inr cq_rail" "efa_qps c E qp_rail = Inr qps" "efa_clocal c E rails = Inr clocal"
    "efa_create_fifo c = Inr f" "1 \<le> fc_num_peers c" "fc_num_peers c \<le> kMaxPeers"
    "efa_exchange_all c E (efa_local_info c E rails qp_rail recv tb) (exchange_plan (fc_num_peers c + 1) (fc_rank c))
       (replicate (nat kMaxPeers) blank_info) = Inr infos"
    "efa_ahs c E rails infos = Inr ahs"
    "fs_num_rails s = rails" "fs_qp_rail s = qp_rail" "fs_cq_rail s = cq_rail" "fs_qp_cq s = map sa_cq qps"
    "fs_num_qps s = efa_num_qps c" "fs_bundle s = efa_bundle c E"
    "fs_threads s = efa_spawn c E (efa_proxy_config c E rails qp_rail local_keys clocal tb infos) f
       (create_mapped_arrival_flags (efa_arrival_slots c) (efa_total_lqs c)) 0 (nat (efa_proxy_threads (fe_rails_env E) c))"
    "fs_ahs s = ahs" "fs_remote_infos s = infos" "fs_has_clocal s \<longleftrightarrow> clocal \<noteq> None"
    "fs_recv_external s \<longleftrightarrow> fc_external_recv_buf c \<noteq> 0"
    "fs_resources s = efa_acquired (int (length devs)) rails (efa_proxy_threads (fe_rails_env E) c) (efa_num_qps c)
       (efa_num_fifos c E) (fc_num_peers c) (clocal \<noteq> None) (fc_external_recv_buf c \<noteq> 0) (fs_threads s)"
proof -
  have "fc_num_peers c > 0 \<and> fc_num_peers c \<le> kMaxPeers" if "efa_check_peers c = Inr u" for u
    using that by (auto simp: efa_check_peers_def split: if_splits)
  moreover note assms[unfolded efa_create_session_def and_then_Inr_iff Let_def thrown_Inr_iff case_prod_unfold]
  ultimately show ?thesis
    apply (elim exE conjE)
    apply (rule that, assumption, rule prod.collapse[symmetric], assumption+)
    by (auto dest!: sym[of _ s])
qed

lemma create_srd_qp_cq: "create_srd_qp ok env attr cq depth = Inr (qp, out) \<Longrightarrow> sa_cq qp = cq"
  by (auto simp: create_srd_qp_def rdma_check_def Let_def split: if_splits)

lemma efa_qps_nth:
  assumes "efa_qps c E qp_rail = Inr qps" "0 \<le> q" "q < efa_num_qps c"
  shows "sa_cq (qps ! nat q) = nat (efa_owner_thread (fe_rails_env E) c q)" "nat q < length qps"
  using all_ok_nth[OF assms(1)[unfolded efa_qps_def] assms(2,3)] all_ok_length[OF assms(1)[unfolded efa_qps_def]] assms(2,3)
  by (auto simp: thrown_Inr_iff and_then_Inr_iff dest: create_srd_qp_cq)

lemma efa_cqs_nth:
  assumes "efa_cqs c E qp_rail = Inr cq_rail" "0 \<le> t" "t < efa_proxy_threads (fe_rails_env E) c"
  shows "cq_rail ! nat t = proxy_rail (fe_rails_env E) c qp_rail t"
  using all_ok_nth[OF assms(1)[unfolded efa_cqs_def] assms(2,3)] by (auto simp: and_then_Inr_iff)

lemma efa_spawn_nth:
  assumes "i < n" "0 < efa_local_qps (fe_rails_env E) c (int t + int i)"
  shows "efa_spawn c E pc f af t n ! i =
    Running (new_efa_proxy (fe_notify_env E) (pc (int t + int i)) (thread_rings c E f) (create_flag_staging 8192)
       (take (nat (af_count af)) (af_words af)) (fe_polls E (int t + int i)))"
  using assms
proof (induction n arbitrary: t i)
  case (Suc n)
  have "efa_local_qps (fe_rails_env E) c (int t + int i) \<le> efa_local_qps (fe_rails_env E) c (int t)"
    using mult_nonneg_nonneg[of "int i" "efa_qps_per_proxy (fe_rails_env E) c"] efa_ranges(5)[where env="fe_rails_env E" and c=c]
    unfolding efa_local_qps_def distrib_right by linarith
  then have "0 < efa_local_qps (fe_rails_env E) c (int t)" using Suc.prems by simp
  then show ?case using Suc by (cases i) (auto simp: algebra_simps)
qed simp

lemma efa_spawn_length [simp]: "length (efa_spawn c E pc f af t n) = n"
  by (induction n arbitrary: t) auto

lemma efa_spawn_running:
  assumes "i < n" "efa_spawn c E pc f af t n ! i = Running p"
  shows "0 < efa_local_qps (fe_rails_env E) c (int t + int i)"
  using assms
proof (induction n arbitrary: t i)
  case (Suc n)
  then show ?case
    using Suc.IH[of "i - 1" "Suc t"] by (cases i) (auto simp: algebra_simps nth_Cons' split: if_splits)
qed simp

definition rings_per_proxy :: "EfaSessionConfig \<Rightarrow> efa_env \<Rightarrow> nat" where
  "rings_per_proxy c E = nat (if efa_num_fifos c E > efa_proxy_threads (fe_rails_env E) c then fifos_per_proxy c E else 1)"

lemma efa_spawn_rings: "th \<in> set (efa_spawn c E pc f af t n) \<Longrightarrow> rings_of th = replicate (rings_per_proxy c E) f"
  by (induction n arbitrary: t)
    (auto simp: rings_of_def thread_rings_def rings_per_proxy_def new_efa_proxy_def Let_def split: if_splits)

lemma efa_clamp_session:
  assumes "0 < efa_local_qps (fe_rails_env E) c t"
  shows "ec_num_qps (efa_clamp (efa_proxy_config c E rails qp_rail ks cl tb infos t)) = efa_local_qps (fe_rails_env E) c t"
    "ec_qp_base_idx (efa_clamp (efa_proxy_config c E rails qp_rail ks cl tb infos t)) = t * efa_qps_per_proxy (fe_rails_env E) c"
    "ec_per_peer (efa_clamp (efa_proxy_config c E rails qp_rail ks cl tb infos t)) =
      map (\<lambda>p. efa_peer_data rails (proxy_rail (fe_rails_env E) c qp_rail t) (t * efa_qps_per_proxy (fe_rails_env E) c)
        (efa_local_qps (fe_rails_env E) c t) p (infos ! p)) [0..<nat (fc_num_peers c)]"
    "ec_peer_slot_by_rank (efa_clamp (efa_proxy_config c E rails qp_rail ks cl tb infos t)) = Some (peer_slot_table c)"
proof -
  have "efa_local_qps (fe_rails_env E) c t \<le> 24"
    using efa_ranges(6)[where env="fe_rails_env E" and c=c] efa_num_qps_range[of c] by (simp add: efa_local_qps_def)
  then show "ec_num_qps (efa_clamp (efa_proxy_config c E rails qp_rail ks cl tb infos t)) = efa_local_qps (fe_rails_env E) c t"
    "ec_qp_base_idx (efa_clamp (efa_proxy_config c E rails qp_rail ks cl tb infos t)) = t * efa_qps_per_proxy (fe_rails_env E) c"
    "ec_per_peer (efa_clamp (efa_proxy_config c E rails qp_rail ks cl tb infos t)) =
      map (\<lambda>p. efa_peer_data rails (proxy_rail (fe_rails_env E) c qp_rail t) (t * efa_qps_per_proxy (fe_rails_env E) c)
        (efa_local_qps (fe_rails_env E) c t) p (infos ! p)) [0..<nat (fc_num_peers c)]"
    "ec_peer_slot_by_rank (efa_clamp (efa_proxy_config c E rails qp_rail ks cl tb infos t)) = Some (peer_slot_table c)"
    using assms by (simp_all add: efa_clamp_def efa_proxy_config_def Let_def)
qed

text \<open>When the slices are full, the lane taken to the slice is the lane taken to the session.\<close>

lemma lane_in_slice:
  assumes "efa_qps_per_proxy env c dvd efa_num_qps c" "q = uint (lane_id cmd) mod efa_num_qps c"
    and "ec_num_qps pc = efa_local_qps env c (q div efa_qps_per_proxy env c)"
  shows "q div efa_qps_per_proxy env c * efa_qps_per_proxy env c + map_to_local_qp pc cmd = q"
proof -
  let ?w = "efa_qps_per_proxy env c" and ?n = "efa_num_qps c"
  note r = efa_num_qps_range[of c] efa_proxy_threads_range[of env c] efa.counts(2-4)[where env=env and c=c]
  have q: "0 \<le> q" "q < ?n" using r assms(2) by auto
  have "q div ?w * ?w + ?w \<le> ?n"
  proof -
    obtain m where m: "?n = m * ?w" using assms(1) by (auto simp: dvd_def mult.commute)
    then have "q div ?w < m" using q r by (intro div_less_of_mult) auto
    then have "(q div ?w + 1) * ?w \<le> m * ?w" using r by (intro mult_right_mono) auto
    then show ?thesis by (simp add: m algebra_simps)
  qed
  then have lw: "ec_num_qps pc = ?w" using assms(3) by (simp add: efa_local_qps_def)
  have "uint (word_of_int ?w :: u32) = ?w" using r by (simp add: word_of_int_inverse)
  then have "map_to_local_qp pc cmd = uint (lane_id cmd) mod ?w"
    using r by (simp add: map_to_local_qp_def lw uint_mod uint_up_ucast is_up)
  also have "\<dots> = q mod ?w" unfolding assms(2) using assms(1) by (simp add: mod_mod_cancel)
  finally show ?thesis by (simp only: div_mult_mod_eq)
qed

text \<open>The ring a lane selects lies in the slice of the owner of the queue pair.\<close>

lemma efa_ring_in_slice:
  assumes "efa_fifo_per_qp E \<longrightarrow> efa_proxy_threads (fe_rails_env E) c dvd efa_num_qps c" "q = uint key mod efa_num_qps c"
  shows "nat (q div efa_qps_per_proxy (fe_rails_env E) c) * rings_per_proxy c E \<le> select_fifo_index (efa_bundle c E) key"
    "select_fifo_index (efa_bundle c E) key < Suc (nat (q div efa_qps_per_proxy (fe_rails_env E) c)) * rings_per_proxy c E"
proof -
  let ?env = "fe_rails_env E"
  let ?n = "efa_num_qps c" and ?T = "efa_proxy_threads ?env c" and ?w = "efa_qps_per_proxy ?env c"
  note r = efa_num_qps_range[of c] efa_proxy_threads_range[of ?env c] efa.counts(2-4)[where env="?env" and c=c]
  have q: "0 \<le> q" "q < ?n" using r assms(2) by auto
  note o = efa.owner[OF q, of ?env]
  have "nat (q div ?w) * rings_per_proxy c E \<le> select_fifo_index (efa_bundle c E) key \<and>
    select_fifo_index (efa_bundle c E) key < Suc (nat (q div ?w)) * rings_per_proxy c E"
  proof (cases "efa_fifo_per_qp E")
    case False
    then have "efa_num_fifos c E = ?T" using r by (simp add: efa_num_fifos_def kMaxProxyThreads_def)
    moreover from this have "int (select_fifo_index (efa_bundle c E) key) = q div ?w"
      unfolding assms(2) using False r by (intro efa.ring_of_owner) (simp_all add: efa_bundle_def)
    ultimately show ?thesis using o(2) by (simp add: rings_per_proxy_def) linarith
  next
    case True
    then have num: "efa_num_fifos c E = ?n" using r by (simp add: efa_num_fifos_def kMaxProxyThreads_def)
    have sel: "int (select_fifo_index (efa_bundle c E) key) = q"
    proof (cases "?n = 1")
      case True
      then show ?thesis using num assms(2) by (simp add: select_fifo_index_def efa_bundle_def)
    next
      case False
      then show ?thesis
        using select_fifo_index_nat[of "efa_bundle c E" key] r q num True assms(2) by (simp add: efa_bundle_def)
    qed
    obtain m where m: "?n = ?T * m" using True assms(1) by (auto elim: dvdE)
    have m1: "1 \<le> m" using m r by (smt (verit) mult_nonneg_nonpos)
    have "ceil_div ?n ?T = m"
    proof -
      have "ceil_div ?n ?T = (?T * m + (?T - 1)) div ?T" using r by (simp add: ceil_div_def m algebra_simps)
      also have "\<dots> = m" using r by simp
      finally show ?thesis .
    qed
    then have w: "?w = m" using m1 by (simp add: efa_qps_per_proxy_def)
    have "rings_per_proxy c E = nat m"
    proof (cases "m = 1")
      case True
      then show ?thesis using m num by (simp add: rings_per_proxy_def)
    next
      case False
      then have "?T * 2 \<le> ?T * m" using m1 r by (intro mult_left_mono) auto
      then have "?T < ?n" using m r by simp
      then show ?thesis using num m r by (simp add: rings_per_proxy_def fifos_per_proxy_def)
    qed
    moreover have "int (nat (q div m) * nat m) = q div m * m" "int (Suc (nat (q div m)) * nat m) = (q div m + 1) * m"
      using o(2) m1 w by (simp_all add: algebra_simps)
    moreover have "q div m * m \<le> q" "q < (q div m + 1) * m" using div_bounds[of m q] m1 by auto
    ultimately show ?thesis using sel unfolding w by (metis of_nat_le_iff of_nat_less_iff)
  qed
  then show "nat (q div ?w) * rings_per_proxy c E \<le> select_fifo_index (efa_bundle c E) key"
    "select_fifo_index (efa_bundle c E) key < Suc (nat (q div ?w)) * rings_per_proxy c E" by auto
qed

text \<open>
  C18 (safety): let the queue pairs of a proxy divide the queue pairs of the session (all slices
  are full), and, when there is one ring for each queue pair, also the threads divide them.
  Then in a created session the ring that a lane selects is one of the rings of a running
  proxy, this proxy takes the lane to the queue pair \<open>lane mod num_qps\<close>, and the queue pair completes on
  the completion queue of this proxy and is on the rail of that completion queue. Without
  the conditions this is false: \<open>ring_misses_owner\<close> has rings that no proxy or the wrong one polls.
\<close>

theorem efa_lane_reaches_owner:
  assumes "efa_create_session c E = Inr s"
    and "efa_qps_per_proxy (fe_rails_env E) c dvd efa_num_qps c"
    and "efa_fifo_per_qp E \<longrightarrow> efa_proxy_threads (fe_rails_env E) c dvd efa_num_qps c"
  shows "let q = uint (lane_id cmd) mod efa_num_qps c; k = select_fifo_index (fs_bundle s) (ucast (lane_id cmd)) in
    \<exists>t p. t < length (fs_threads s) \<and> fs_threads s ! t = Running p \<and>
      length (concat (map rings_of (take t (fs_threads s)))) \<le> k \<and>
      k < length (concat (map rings_of (take t (fs_threads s)))) + length (e_fifos p) \<and>
      ec_qp_base_idx (e_cfg p) + map_to_local_qp (e_cfg p) cmd = q \<and>
      fs_qp_cq s ! nat q = t \<and> fs_qp_rail s ! nat q = fs_cq_rail s ! t \<and> fs_qp_rail s ! nat q < fs_num_rails s"
  using assms(1)
proof (cases rule: efa_create_cases)
  case (created devs rails qp_rail cq_rail qps local_keys clocal recv f tb infos ahs)
  let ?env = "fe_rails_env E"
  define q where "q = uint (lane_id cmd) mod efa_num_qps c"
  define t where "t = nat (q div efa_qps_per_proxy ?env c)"
  have q: "0 \<le> q" "q < efa_num_qps c" using efa_num_qps_range[of c] by (auto simp: q_def)
  note o = efa_owner_range[OF q, of ?env]
  have t: "int t = efa_owner_thread ?env c q" "t < length (fs_threads s)"
    using o(1-3) created(17) by (simp_all add: t_def nat_less_iff)
  let ?pc = "efa_proxy_config c E rails qp_rail local_keys clocal tb infos (int t)"
  have pos: "0 < efa_local_qps ?env c (int t)" using o(6) t by simp
  note cl = efa_clamp_session[OF pos, of rails qp_rail local_keys clocal tb infos]
  obtain p where p: "fs_threads s ! t = Running p" "e_cfg p = efa_clamp ?pc" "e_fifos p = replicate (rings_per_proxy c E) f"
    using efa_spawn_nth[of t "nat (efa_proxy_threads ?env c)" E c 0] created(17) pos t o(3)
    by (simp add: new_efa_proxy_def Let_def thread_rings_def rings_per_proxy_def)
  have "length (concat (map rings_of (take t (fs_threads s)))) = t * rings_per_proxy c E"
  proof -
    have "map (length \<circ> rings_of) (take t (fs_threads s)) = map (\<lambda>th. rings_per_proxy c E) (take t (fs_threads s))"
      using efa_spawn_rings by (intro map_cong) (auto simp: created(17) dest!: in_set_takeD)
    then show ?thesis using t by (simp add: length_concat comp_def map_replicate_const sum_list_replicate)
  qed
  moreover have "t * rings_per_proxy c E \<le> select_fifo_index (fs_bundle s) (ucast (lane_id cmd))"
    "select_fifo_index (fs_bundle s) (ucast (lane_id cmd)) < Suc t * rings_per_proxy c E"
    using efa_ring_in_slice[OF assms(3), of q "ucast (lane_id cmd)"]
    by (simp_all add: created(16) t_def q_def uint_up_ucast is_up)
  moreover have "ec_qp_base_idx (e_cfg p) + map_to_local_qp (e_cfg p) cmd = q"
    using lane_in_slice[OF assms(2) q_def, of "e_cfg p"] cl(1,2) o(1,2) by (simp add: p(2) t(1)[unfolded o(1)])
  moreover have "fs_qp_cq s ! nat q = t"
    using efa_qps_nth[OF created(4) q] t by (simp add: created(14))
  moreover have "fs_qp_rail s ! nat q = fs_cq_rail s ! t"
    using slice_on_one_rail[OF created(2) q] efa_cqs_nth[OF created(3), of "int t"] o(2,3)
    by (simp add: created(12,13) flip: t(1))
  moreover have "fs_qp_rail s ! nat q < fs_num_rails s"
    using assign_rails_range(4)[OF created(2) _ q] opened_some[OF created(1)] by (cases devs) (auto simp: created(11,12))
  ultimately show ?thesis
    unfolding Let_def q_def[symmetric] using p t(2) by (intro exI[of _ t] exI[of _ p]) (simp add: p(3))
qed

text \<open>The table of slots inverts the list of ranks, whatever other ranks it is asked for.\<close>

lemma slot_table_fold:
  "length (fold (\<lambda>(p, r) table. if 0 \<le> r \<and> r \<le> kMaxPeers then table[nat r := int p] else table) xs table) = length table"
  by (induction xs arbitrary: table) auto

lemma slot_table_untouched:
  assumes "nat r \<notin> (nat \<circ> snd) ` set xs"
  shows "fold (\<lambda>(p, r) table. if 0 \<le> r \<and> r \<le> kMaxPeers then table[nat r := int p] else table) xs table ! nat r = table ! nat r"
  using assms by (induction xs arbitrary: table) auto

lemma slot_table_hit:
  assumes "distinct rs" "set rs \<subseteq> {0..kMaxPeers}" "i < length rs" "length table = nat kMaxPeers + 1"
  shows "fold (\<lambda>(p, r) table. if 0 \<le> r \<and> r \<le> kMaxPeers then table[nat r := int p] else table)
    (enumerate k rs) table ! nat (rs ! i) = int (k + i)"
  using assms
proof (induction rs arbitrary: i k table)
  case (Cons r rs)
  have r: "0 \<le> r" "r \<le> kMaxPeers" using Cons.prems(2) by auto
  show ?case
  proof (cases i)
    case 0
    have "nat r \<notin> (nat \<circ> snd) ` set (enumerate (Suc k) rs)"
    proof
      assume "nat r \<in> (nat \<circ> snd) ` set (enumerate (Suc k) rs)"
      then obtain r' where "r' \<in> set rs" "nat r = nat r'" by (force simp: in_set_enumerate_eq)
      then show False using r Cons.prems(1,2) by (auto simp: eq_nat_nat_iff subset_iff)
    qed
    then show ?thesis using r 0 Cons.prems(4) slot_table_untouched by (simp add: nat_le_iff less_Suc_eq_le nat_le_eq_zle)
  next
    case (Suc j)
    then show ?thesis using r Cons.prems Cons.IH[of j "table[nat r := int k]" "Suc k"] by simp
  qed
qed simp

text \<open>Ranks and slots: every other rank of the cluster has one slot.\<close>

definition ranks_complete :: "EfaSessionConfig \<Rightarrow> bool" where
  "ranks_complete c \<longleftrightarrow> 0 \<le> fc_rank c \<and> fc_rank c \<le> fc_num_peers c \<and> distinct (sess_peer_ranks c) \<and>
     set (sess_peer_ranks c) = {0..fc_num_peers c} - {fc_rank c}"

lemma sess_peer_ranks_length [simp]: "length (sess_peer_ranks c) = nat (fc_num_peers c)"
  by (simp add: sess_peer_ranks_def)

text \<open>The ring order, used when no ranks are given.\<close>

lemma ring_ranks_complete:
  assumes "fc_peer_ranks c = None" "0 \<le> fc_rank c" "fc_rank c \<le> fc_num_peers c"
  shows "ranks_complete c"
proof -
  let ?P = "fc_num_peers c" and ?r = "fc_rank c"
  let ?f = "\<lambda>p. (?r + 1 + p) mod (?P + 1)"
  have f: "?f p = (if ?r + 1 + p \<le> ?P then ?r + 1 + p else ?r + p - ?P)" if "p \<in> {0..?P - 1}" for p
  proof (cases "?r + 1 + p \<le> ?P")
    case True
    then show ?thesis using that assms by simp
  next
    case False
    then have "?f p = (?r + 1 + p - (?P + 1)) mod (?P + 1)" by (metis mod_diff_right_eq mod_self diff_zero)
    then show ?thesis using False that assms by (simp add: algebra_simps)
  qed
  have e: "sess_peer_ranks c = map ?f [0..?P - 1]"
    using assms by (simp add: sess_peer_ranks_def)
  have inj: "inj_on ?f {0..?P - 1}" using assms by (auto simp: inj_on_def f split: if_splits)
  have sub: "?f ` {0..?P - 1} \<subseteq> {0..?P} - {?r}" using assms by (auto simp: f split: if_splits)
  have "card (?f ` {0..?P - 1}) = card ({0..?P} - {?r})" using assms by (simp add: card_image[OF inj])
  then have "?f ` {0..?P - 1} = {0..?P} - {?r}" using sub by (simp add: card_subset_eq)
  then show ?thesis using inj assms by (simp add: ranks_complete_def e distinct_map)
qed

lemma slot_of_rank:
  assumes "ranks_complete c" "fc_num_peers c \<le> kMaxPeers" "slot < nat (fc_num_peers c)"
  shows "peer_slot_table c ! nat (sess_peer_ranks c ! slot) = int slot"
proof -
  have d: "distinct (sess_peer_ranks c)" and e: "set (sess_peer_ranks c) = {0..fc_num_peers c} - {fc_rank c}"
    using assms(1) by (simp_all add: ranks_complete_def)
  have "set (sess_peer_ranks c) \<subseteq> {0..kMaxPeers}" unfolding e using assms(2) by (intro subsetI) simp
  with d have "fold (\<lambda>(p, r) table. if 0 \<le> r \<and> r \<le> kMaxPeers then table[nat r := int p] else table)
      (enumerate 0 (sess_peer_ranks c)) (replicate (nat kMaxPeers + 1) (- 1)) ! nat (sess_peer_ranks c ! slot) = int (0 + slot)"
    using assms(3) by (intro slot_table_hit) simp_all
  then show ?thesis unfolding peer_slot_table_def by simp
qed

section \<open>What the exchange leaves\<close>

lemma efa_exchange_heard:
  assumes "efa_exchange_all c E me ps infos = Inr infos'" "slot < length infos"
    and "(\<exists>p \<in> set ps. efa_slot_of c (peer_of (fc_rank c) p) = Some slot) \<or>
      (\<exists>i. fe_exchange E (int slot) me = Inr i \<and> infos ! slot = i)"
  shows "\<exists>i. fe_exchange E (int slot) me = Inr i \<and> infos' ! slot = i"
  using assms
proof (induction c E me ps infos rule: efa_exchange_all.induct)
  case (2 c E me q qs infos)
  show ?case
  proof (cases "efa_slot_of c (peer_of (fc_rank c) q)")
    case None
    then show ?thesis using "2.IH"(1)[OF None] "2.prems" by auto
  next
    case (Some p)
    then obtain i where i: "fe_exchange E (int p) me = Inr i" "efa_exchange_all c E me qs (infos[p := i]) = Inr infos'"
      using "2.prems"(1) by (auto split: sum.splits)
    have "(\<exists>q' \<in> set qs. efa_slot_of c (peer_of (fc_rank c) q') = Some slot) \<or>
      (\<exists>j. fe_exchange E (int slot) me = Inr j \<and> infos[p := i] ! slot = j)"
    proof (cases "p = slot")
      case True
      then show ?thesis using i(1) "2.prems"(2) by simp
    next
      case False
      then show ?thesis using Some "2.prems"(3) by auto
    qed
    then show ?thesis using "2.IH"(2)[OF Some i(1,2)] "2.prems"(2) by simp
  qed
qed simp

lemma efa_plan_visits:
  assumes "ranks_complete c" "slot < nat (fc_num_peers c)"
  shows "\<exists>p \<in> set (exchange_plan (fc_num_peers c + 1) (fc_rank c)). efa_slot_of c (peer_of (fc_rank c) p) = Some slot"
proof -
  let ?r = "fc_rank c" and ?q = "sess_peer_ranks c ! slot"
  have "?q \<in> set (sess_peer_ranks c)" using assms(2) by simp
  then have q: "0 \<le> ?q" "?q \<le> fc_num_peers c" "?q \<noteq> ?r" "0 \<le> ?r" "?r \<le> fc_num_peers c"
    using assms(1) by (auto simp: ranks_complete_def)
  have "(min ?r ?q, max ?r ?q) \<in> set (exchange_plan (fc_num_peers c + 1) ?r)"
    using q by (auto simp: exchange_plan_def pair_order_set min_def max_def)
  moreover have "peer_of ?r (min ?r ?q, max ?r ?q) = ?q" using q by (auto simp: peer_of_def min_def max_def)
  moreover have "efa_slot_of c ?q = Some slot"
    unfolding efa_slot_of_def find_Some_iff
    using assms nth_eq_iff_index_eq[of "sess_peer_ranks c"]
    by (intro exI[of _ slot]) (auto simp: ranks_complete_def)
  ultimately show ?thesis by (intro bexI[of _ "(min ?r ?q, max ?r ?q)"]) auto
qed

lemma concat_grid_nth:
  assumes "\<And>i. i < m \<Longrightarrow> length (g i) = k" "i < m" "j < k"
  shows "concat (map g [0..<m]) ! (i * k + j) = g i ! j"
  using assms
proof (induction m)
  case (Suc m)
  have len: "length (concat (map g [0..<m])) = m * k"
  proof -
    have "map (length \<circ> g) [0..<m] = replicate m k" using Suc.prems(1) by (intro nth_equalityI) auto
    then show ?thesis by (simp add: length_concat comp_def sum_list_replicate)
  qed
  show ?case
  proof (cases "i < m")
    case True
    have "i * k + j < m * k" 
    proof -
      have "(i + 1) * k \<le> m * k" using True by (intro mult_right_mono) auto
      then show ?thesis using Suc.prems(3) by simp
    qed
    then show ?thesis using Suc True len by (simp add: nth_append)
  next
    case False
    then have "i = m" using Suc.prems(2) by simp
    then show ?thesis using len Suc.prems by (simp add: nth_append)
  qed
qed simp

text \<open>The handle of a peer on a rail addresses the GID of this peer for this rail.\<close>

lemma create_ah_dgid: "create_ah ok gid = Inr a \<Longrightarrow> ah_dgid a = gid"
  by (auto simp: create_ah_def rdma_check_def split: if_splits)

lemma efa_ahs_nth:
  assumes "efa_ahs c E rails infos = Inr ahs" "p < nat (fc_num_peers c)" "r < nat rails"
  shows "ah_dgid (ahs ! (p * nat rails + r)) = rail_gid (infos ! p) (int r)"
proof -
  let ?g = "\<lambda>p. map (\<lambda>r. thrown (create_ah (fe_ah E (int p * rails + r)) (rail_gid (infos ! p) r))) [0..rails - 1]"
  have "[0..fc_num_peers c - 1] = map int [0..<nat (fc_num_peers c)]"
    by (intro nth_equalityI) auto
  then have e: "concat (map ?g [0..<nat (fc_num_peers c)]) = map Inr ahs"
    using assms(1) by (simp add: efa_ahs_def all_ok_Inr_iff comp_def)
  have i: "p * nat rails + r < length ahs"
  proof -
    have "length ahs = nat (fc_num_peers c) * nat rails"
      using arg_cong[OF e, of length] by (simp add: length_concat comp_def sum_list_triv)
    moreover have "(p + 1) * nat rails \<le> nat (fc_num_peers c) * nat rails" using assms(2) by (intro mult_right_mono) auto
    ultimately show ?thesis using assms(3) by simp
  qed
  have "Inr (ahs ! (p * nat rails + r)) = ?g p ! r"
    using concat_grid_nth[of "nat (fc_num_peers c)" ?g "nat rails" p r] assms(2,3) arg_cong[OF e, of "\<lambda>xs. xs ! (p * nat rails + r)"] i
    by simp
  then have "thrown (create_ah (fe_ah E (int p * rails + int r)) (rail_gid (infos ! p) (int r))) = Inr (ahs ! (p * nat rails + r))"
    using assms(3) by simp
  then show ?thesis unfolding thrown_Inr_iff by (rule create_ah_dgid)
qed

section \<open>Where the requests of a batch go\<close>

text \<open>
  A request through handle \<open>ah\<close> to queue pair \<open>qpn\<close> of a peer, into one of its three tables: data at the
  offset of a command of the batch, an arrival word, or a tail word, each with the key of the table.
\<close>

definition efa_addressed :: "PerPeerProxyData \<Rightarrow> u32 \<Rightarrow> TransferCmd list \<Rightarrow> efa_wr \<Rightarrow> bool" where
  "efa_addressed peer qpn b w \<longleftrightarrow> ew_ah w = pp_dst_ah peer \<and> ew_qpn w = qpn \<and>
     ((\<exists>d \<in> set b. ew_remote_addr w = pp_remote_data_addr peer + remote_offset d \<and> ew_rkey w = pp_remote_data_rkey peer) \<or>
      (\<exists>k :: u32. ew_remote_addr w = pp_remote_flags_addr peer + ucast k * 4 \<and> ew_rkey w = pp_remote_flags_rkey peer) \<or>
      (\<exists>k :: u32. ew_remote_addr w = pp_remote_tail_addr peer + ucast k * 4 \<and> ew_rkey w = pp_remote_tail_rkey peer))"

lemma addressed_data:
  "d \<in> set b \<Longrightarrow> efa_addressed peer qpn b \<lparr>ew_id = i, ew_op = oper, ew_remote_addr = pp_remote_data_addr peer + remote_offset d,
     ew_rkey = pp_remote_data_rkey peer, ew_ah = pp_dst_ah peer, ew_qpn = qpn, ew_sge = e\<rparr>"
  unfolding efa_addressed_def by force

lemma addressed_flag:
  "efa_addressed peer qpn b \<lparr>ew_id = i, ew_op = oper, ew_remote_addr = pp_remote_flags_addr peer + ucast (k :: u32) * 4,
     ew_rkey = pp_remote_flags_rkey peer, ew_ah = pp_dst_ah peer, ew_qpn = qpn, ew_sge = e\<rparr>"
  unfolding efa_addressed_def by force

lemma addressed_tail:
  "efa_addressed peer qpn b \<lparr>ew_id = i, ew_op = oper, ew_remote_addr = pp_remote_tail_addr peer + ucast (k :: u32) * 4,
     ew_rkey = pp_remote_tail_rkey peer, ew_ah = pp_dst_ah peer, ew_qpn = qpn, ew_sge = e\<rparr>"
  unfolding efa_addressed_def by force

lemma remote_flag_cmd_addressed:
  assumes "remote_flag_cmd qpn peer d s = (ws, t)"
  shows "\<forall>w \<in> set ws. efa_addressed peer qpn [d] w"
  using assms
  by (auto simp: remote_flag_cmd_def Let_def efa_slot_addr_def addressed_data addressed_flag addressed_tail
    split: if_splits prod.splits)

lemma efa_addressed_mono: "efa_addressed peer qpn b w \<Longrightarrow> set b \<subseteq> set b' \<Longrightarrow> efa_addressed peer qpn b' w"
  unfolding efa_addressed_def by blast

lemma remote_flag_cmds_addressed:
  "remote_flag_cmds qpn peer b s = (ws, t) \<Longrightarrow> \<forall>w \<in> set ws. efa_addressed peer qpn b w"
proof (induction b arbitrary: s ws t)
  case (Cons d b)
  obtain xs u where x: "remote_flag_cmd qpn peer d s = (xs, u)" by force
  obtain ys v where y: "remote_flag_cmds qpn peer b u = (ys, v)" by force
  have ws: "ws = xs @ ys" using Cons.prems x y by simp
  show ?case
    unfolding ws using remote_flag_cmd_addressed[OF x] Cons.IH[OF y]
    by (auto intro: efa_addressed_mono)
qed simp

lemma efa_build_addressed:
  assumes "efa_build b bq s = (ws, t)"
  defines "peer \<equiv> ec_per_peer (e_cfg s) ! resolve_peer_slot (e_cfg s) (hd b)"
  shows "\<forall>w \<in> set ws. efa_addressed peer (pp_dst_qpns peer ! nat bq) b w"
proof (cases "e_mode s = RemoteFlag")
  case True
  then show ?thesis
    using assms(1) remote_flag_cmds_addressed
    by (simp add: efa_build_def Let_def post_remote_flag_batch_def peer_def[symmetric] split: if_splits)
next
  case False
  then show ?thesis
    using assms(1)
    by (auto simp: efa_build_def Let_def post_write_imm_batch_def peer_def[symmetric] write_imm_wr_def addressed_data)
qed

lemma remote_flag_cmd_posts: "remote_flag_cmd qpn peer d s = (ws, t) \<Longrightarrow> e_posts t = e_posts s"
  by (auto simp: remote_flag_cmd_def Let_def stage_word_def split: if_splits)

lemma remote_flag_cmds_posts: "remote_flag_cmds qpn peer b s = (ws, t) \<Longrightarrow> e_posts t = e_posts s"
  by (induction b arbitrary: s ws t) (auto dest: remote_flag_cmd_posts split: prod.splits)

lemma efa_build_posts: "efa_build b bq s = (ws, t) \<Longrightarrow> e_posts t = e_posts s"
  by (auto simp: efa_build_def Let_def post_remote_flag_batch_def post_write_imm_batch_def
      dest: remote_flag_cmds_posts split: if_splits)

lemma efa_post_batch_addressed:
  fixes s :: EfaProxy and b :: "TransferCmd list"
  defines "peer \<equiv> ec_per_peer (e_cfg s) ! resolve_peer_slot (e_cfg s) (hd b)"
  shows "\<exists>po. e_posts (snd (efa_post_batch W b bq s)) = e_posts s @ [po] \<and> ep_qp po = nat bq \<and>
    (\<forall>w \<in> set (ep_wrs po). efa_addressed peer (pp_dst_qpns peer ! nat bq) b w)"
proof -
  define s1 where "s1 = (if \<not> recorded (e_ts s)
      then let (t, u) = efa_clock W s in u\<lparr>e_ts := (e_ts u)\<lparr>ts_first_cmd_ns := t\<rparr>\<rparr> else s)"
  have f1: "e_cfg s1 = e_cfg s" "e_posts s1 = e_posts s" by (simp_all add: s1_def efa_clock_def)
  obtain ws s2 where b: "efa_build b bq s1 = (ws, s2)" by force
  obtain r s3 where c: "wr_complete W (nat bq) False (e_inflight s2) ws s2 = (r, s3)" by force
  have p3: "e_posts s3 = e_posts s @ [\<lparr>ep_qp = nat bq, ep_barrier = False, ep_wrs = ws, ep_ret = r, ep_before = e_inflight s2\<rparr>]"
    using c efa_build_posts[OF b] f1(2) by (auto simp: wr_complete_def Let_def)
  have "e_posts (snd (efa_post_batch W b bq s)) = e_posts s3"
    by (simp add: efa_post_batch_def Let_def s1_def[symmetric] b c efa_note_posted_def efa_clock_def)
  then show ?thesis using p3 efa_build_addressed[OF b] f1(1) unfolding peer_def by auto
qed

text \<open>
  C19 (functional): let every rank other than the session's own be the rank of a slot. A running proxy
  resolves the rank of a batch's first command to the slot whose peer answered for this rank in the
  exchange, and posts the batch as one call whose requests all go where this peer said: through a
  handle for the address of its rail with the index of the rail of this proxy, to its queue pair with
  the number the session has for the proxy's queue pair, and into its data buffer, its arrival words
  or its tail words, each with the key of that table on the peer's rail that is paired with the first
  queue pair of the proxy. The barrier address and key the proxy keeps for the peer are the
  peer's too.
\<close>

theorem efa_endpoint_of_rank:
  assumes "efa_create_session c E = Inr s" "ranks_complete c" "slot < nat (fc_num_peers c)"
    and "t < length (fs_threads s)" "fs_threads s ! t = Running p"
    and "int (unat (dst_rank (hd b))) = sess_peer_ranks c ! slot"
    and "e_cfg u = e_cfg p" "0 \<le> bq" "bq < ec_num_qps (e_cfg p)"
  shows "resolve_peer_slot (e_cfg p) (hd b) = slot \<and>
    (\<exists>me info po. fe_exchange E (int slot) me = Inr info \<and>
      e_posts (snd (efa_post_batch W b bq u)) = e_posts u @ [po] \<and> ep_qp po = nat bq \<and>
      (let peer = ec_per_peer (e_cfg p) ! slot;
           key = (\<lambda>f g. case peer_rail info (ec_qp_base_idx (e_cfg p)) of None \<Rightarrow> f info | Some k \<Rightarrow> g k)
       in pp_remote_barrier_addr peer = ci_barrier_addr info \<and>
          pp_remote_barrier_rkey peer = key ci_barrier_rkey rx_barrier_rkey \<and>
          (\<forall>w \<in> set (ep_wrs po).
             ah_dgid (fs_ahs s ! ew_ah w) = rail_gid info (fs_cq_rail s ! t) \<and>
             ew_qpn w = dst_qpn info (ec_qp_base_idx (e_cfg p) + bq) \<and>
             ((\<exists>d \<in> set b. ew_remote_addr w = ci_data_addr info + remote_offset d \<and>
                 ew_rkey w = key ci_data_rkey rx_data_rkey) \<or>
              (\<exists>k :: u32. ew_remote_addr w = ci_flags_addr info + ucast k * 4 \<and>
                 ew_rkey w = key ci_flags_rkey rx_flags_rkey) \<or>
              (\<exists>k :: u32. ew_remote_addr w = ci_tail_addr info + ucast k * 4 \<and>
                 ew_rkey w = key ci_tail_rkey rx_tail_rkey)))))"
  using assms(1)
proof (cases rule: efa_create_cases)
  case (created devs rails qp_rail cq_rail qps local_keys clocal recv f tb infos ahs)
  let ?env = "fe_rails_env E"
  let ?pc = "efa_proxy_config c E rails qp_rail local_keys clocal tb infos (int t)"
  let ?me = "efa_local_info c E rails qp_rail recv tb"
  have t: "t < nat (efa_proxy_threads ?env c)" using assms(4) by (simp add: created(17))
  have pos: "0 < efa_local_qps ?env c (int t)"
    using efa_spawn_running[OF t, of c E _ f _ 0 p] assms(5) by (simp add: created(17))
  have cfg: "e_cfg p = efa_clamp ?pc"
    using efa_spawn_nth[OF t, of E c 0] assms(5) pos by (auto simp: created(17) new_efa_proxy_def Let_def)
  note cl = efa_clamp_session[OF pos, of rails qp_rail local_keys clocal tb infos, folded cfg]
  have base: "0 \<le> int t * efa_qps_per_proxy ?env c" "int t * efa_qps_per_proxy ?env c < efa_num_qps c"
    using pos efa_ranges(5)[where env="?env" and c=c] by (auto simp: efa_local_qps_def)
  have slot: "resolve_peer_slot (e_cfg p) (hd b) = slot"
    using slot_of_rank[OF assms(2) created(8) assms(3)] assms(6)[symmetric]
    by (simp add: resolve_peer_slot_def cl(4))
  have "\<exists>i. fe_exchange E (int slot) ?me = Inr i \<and> infos ! slot = i"
    using efa_exchange_heard[OF created(9), of slot] efa_plan_visits[OF assms(2,3)] assms(3) created(8) by fastforce
  then have heard: "fe_exchange E (int slot) ?me = Inr (infos ! slot)" by auto
  define peer where "peer = ec_per_peer (e_cfg p) ! slot"
  have peer: "peer = efa_peer_data rails (proxy_rail ?env c qp_rail (int t)) (int t * efa_qps_per_proxy ?env c)
    (efa_local_qps ?env c (int t)) slot (infos ! slot)"
    using assms(3) by (simp add: cl(3) peer_def)
  have cq: "fs_cq_rail s ! t = proxy_rail ?env c qp_rail (int t)"
    using efa_cqs_nth[OF created(3), of "int t"] t by (simp add: created(13))
  have rail: "0 \<le> proxy_rail ?env c qp_rail (int t)" "proxy_rail ?env c qp_rail (int t) < rails"
    using assign_rails_range(4)[OF created(2) _ base] opened_some[OF created(1)] base by (cases devs; simp add: proxy_rail_def)+
  have ah: "ah_dgid (fs_ahs s ! pp_dst_ah peer) = rail_gid (infos ! slot) (fs_cq_rail s ! t)"
    using efa_ahs_nth[OF created(10) assms(3), of "nat (proxy_rail ?env c qp_rail (int t))"] rail
    by (simp add: created(18) peer efa_peer_data_def cq Let_def)
  have n: "nat (efa_local_qps ?env c (int t)) \<le> 24"
    using efa_ranges(6)[where env="?env" and c=c] efa_num_qps_range[of c] by (simp add: efa_local_qps_def)
  have qpn: "pp_dst_qpns peer ! nat bq = dst_qpn (infos ! slot) (ec_qp_base_idx (e_cfg p) + bq)"
  proof -
    have "bq < efa_local_qps ?env c (int t)" using assms(9) by (simp add: cl(1))
    then show ?thesis using assms(8) n by (simp add: peer efa_peer_data_def Let_def cl(1,2))
  qed
  obtain po where po: "e_posts (snd (efa_post_batch W b bq u)) = e_posts u @ [po]" "ep_qp po = nat bq"
    "\<forall>w \<in> set (ep_wrs po). efa_addressed peer (pp_dst_qpns peer ! nat bq) b w"
    using efa_post_batch_addressed[of W b bq u] by (auto simp: assms(7) slot peer_def)
  show ?thesis
  proof (intro conjI slot exI[of _ ?me] exI[of _ "infos ! slot"] exI[of _ po] heard po(1,2), unfold Let_def, intro conjI ballI)
    fix w assume "w \<in> set (ep_wrs po)"
    then have w: "efa_addressed peer (pp_dst_qpns peer ! nat bq) b w" using po(3) by blast
    show "ah_dgid (fs_ahs s ! ew_ah w) = rail_gid (infos ! slot) (fs_cq_rail s ! t)"
      "ew_qpn w = dst_qpn (infos ! slot) (ec_qp_base_idx (e_cfg p) + bq)"
      using w ah qpn by (simp_all add: efa_addressed_def)
  next
    fix w assume "w \<in> set (ep_wrs po)"
    then have "efa_addressed peer (pp_dst_qpns peer ! nat bq) b w" using po(3) by blast
    then show "(\<exists>d \<in> set b. ew_remote_addr w = ci_data_addr (infos ! slot) + remote_offset d \<and>
         ew_rkey w = (case peer_rail (infos ! slot) (ec_qp_base_idx (e_cfg p)) of
           None \<Rightarrow> ci_data_rkey (infos ! slot) | Some k \<Rightarrow> rx_data_rkey k)) \<or>
      (\<exists>k :: u32. ew_remote_addr w = ci_flags_addr (infos ! slot) + ucast k * 4 \<and>
         ew_rkey w = (case peer_rail (infos ! slot) (ec_qp_base_idx (e_cfg p)) of
           None \<Rightarrow> ci_flags_rkey (infos ! slot) | Some k \<Rightarrow> rx_flags_rkey k)) \<or>
      (\<exists>k :: u32. ew_remote_addr w = ci_tail_addr (infos ! slot) + ucast k * 4 \<and>
         ew_rkey w = (case peer_rail (infos ! slot) (ec_qp_base_idx (e_cfg p)) of
           None \<Rightarrow> ci_tail_rkey (infos ! slot) | Some k \<Rightarrow> rx_tail_rkey k))"
      unfolding efa_addressed_def by (simp add: peer efa_peer_data_def Let_def cl(2) cong: option.case_cong)
  qed (simp_all add: peer_def[symmetric], simp_all add: peer efa_peer_data_def Let_def cl(2) split: option.split)
qed

section \<open>A node with two rails\<close>

text \<open>Rank 0 of two; four queue pairs, two proxies, two NICs below the root of the GPU.\<close>

definition duo_config :: EfaSessionConfig where
  "duo_config = \<lparr>fc_rank = 0, fc_num_peers = 1, fc_peer_ranks = None, fc_local_gpu_buf = 4096, fc_local_gpu_buf_size = 1024,
     fc_recv_buf_size = 1024, fc_external_recv_buf = 8192, fc_num_tiles = 8, fc_fifo_capacity = 4, fc_device_id = 0,
     fc_max_inflight = 0, fc_clocal_gpu_buf = 0, fc_clocal_gpu_buf_size = 0, fc_direct_dmabuf_enabled = False,
     fc_num_qps = 4, fc_logical_queues_per_qp = 1, fc_num_proxy_threads = 2, fc_use_arrival_queue = False, fc_num_rails = 2\<rparr>"

definition duo_mr :: "int \<Rightarrow> u32 mr_calls" where
  "duo_mr r = \<lparr>mc_range_fd = None, mc_range_mr = None, mc_retained = False, mc_export_fd = None, mc_retain_mr = None,
     mc_reg_mr = Some (word_of_int r + 5)\<rparr>"

definition duo_peer :: ConnectionInfo where
  "duo_peer = blank_info\<lparr>ci_qp_num := 200, ci_data_rkey := 21, ci_data_addr := 65536, ci_num_qps := 4, ci_num_rails := 2,
     ci_extra_qp_nums := [201, 202, 203] @ replicate 20 0, ci_qp_to_rail := [0, 0, 1, 1] @ replicate 20 0,
     ci_extra_rails := [\<lparr>rx_gid = replicate 16 7, rx_data_rkey = 22, rx_flags_rkey = 23, rx_tail_rkey = 23, rx_barrier_rkey = 24\<rparr>]\<rparr>"

definition duo_env :: efa_env where
  "duo_env =
     \<lparr>fe_rails_env = None, fe_host = root_host, fe_pd = (\<lambda>r. True), fe_cq = (\<lambda>t. True), fe_qp = (\<lambda>i. True),
      fe_modify = (\<lambda>k. 0), fe_sq_env = None, fe_sq_attr = (\<lambda>r. None), fe_local_mr = duo_mr, fe_clocal_mr = duo_mr,
      fe_recv_ptr = None, fe_recv_mr = duo_mr, fe_fifo_env = None, fe_arrival_addr = 70000, fe_arrival_mr = (\<lambda>r. Some 8),
      fe_staging_addr = (\<lambda>t. 80000), fe_staging_mr = (\<lambda>t. Some 9), fe_barrier_addr = 90000, fe_barrier_mr = (\<lambda>r. Some 10),
      fe_qp_nums = [100, 101, 102, 103], fe_lid = 0, fe_gid_at = (\<lambda>i. replicate 16 1), fe_gid_env = None,
      fe_rail_gid = (\<lambda>r. replicate 16 2), fe_exchange = (\<lambda>p me. Inr duo_peer), fe_ah = (\<lambda>k. True), fe_tail_env = None,
      fe_pipe_env = None, fe_notify_env = None, fe_polls = (\<lambda>t. [])\<rparr>"

lemma duo_counts [simp]:
  "efa_num_qps duo_config = 4" "efa_proxy_threads None duo_config = 2" "efa_qps_per_proxy None duo_config = 2"
  "fe_rails_env duo_env = None" "fc_num_peers duo_config = 1" "\<not> efa_fifo_per_qp duo_env" "requested_rails None duo_config = 2"
  by code_simp+

lemma not_ex_Inl: "(\<not> (\<exists>x. r = Inl x)) \<longleftrightarrow> (\<exists>y. r = Inr y)"
  by (cases r) auto

lemma duo_rails: "assign_rails None duo_config 2 = (2, [0, 0, 1, 1])" by code_simp

lemma duo_exchange: "\<exists>infos. efa_exchange_all duo_config duo_env me ps i0 = Inr infos"
  by (induction ps arbitrary: i0) (auto simp: duo_env_def split: option.split)

lemma duo_created: "\<exists>s. efa_create_session duo_config duo_env = Inr s"
proof -
  obtain devs where devs: "open_efa_devices root_host 0 2 = Inr devs" "length devs = 2"
  proof -
    have "map_sum id length (open_efa_devices root_host 0 2) = Inr 2" by code_simp
    then show thesis using that by (cases "open_efa_devices root_host 0 2") auto
  qed
  have ahs: "\<exists>ahs. efa_ahs duo_config duo_env 2 infos = Inr ahs" for infos
    by (auto simp: efa_ahs_def upto_rec1 create_ah_def rdma_check_def thrown_def duo_env_def)
  have "\<not> isl (efa_pds duo_env 2)" "\<not> isl (efa_cqs duo_config duo_env [0, 0, 1, 1])"
    "\<not> isl (efa_qps duo_config duo_env [0, 0, 1, 1])" "\<not> isl (efa_local_mrs duo_env 2)"
    "\<not> isl (efa_clocal duo_config duo_env 2)" "\<not> isl (efa_recv duo_config duo_env 2)"
    "\<not> isl (efa_create_fifo duo_config)" "\<not> isl (efa_register_tables duo_config duo_env 2)"
    "\<not> isl (efa_check_peers duo_config)"
    by code_simp+
  moreover have "fe_host duo_env = root_host" "fc_device_id duo_config = 0" by (simp_all add: duo_env_def duo_config_def)
  ultimately show ?thesis
    using devs duo_exchange ahs unfolding isl_def not_ex_Inl
    unfolding efa_create_session_def and_then_Inr_iff Let_def case_prod_unfold
    by (simp add: duo_rails thrown_def) metis
qed

theorem efa_lane_reaches_owner_witness:
  "\<exists>s t p. efa_create_session duo_config duo_env = Inr s \<and> fs_threads s ! t = Running p \<and>
    ec_qp_base_idx (e_cfg p) + map_to_local_qp (e_cfg p) (zero_cmd\<lparr>lane_id := 7\<rparr>) = 3 \<and>
    fs_qp_cq s ! 3 = t \<and> fs_qp_rail s ! 3 = fs_cq_rail s ! t"
proof -
  obtain s where s: "efa_create_session duo_config duo_env = Inr s" using duo_created by auto
  have "efa_qps_per_proxy (fe_rails_env duo_env) duo_config dvd efa_num_qps duo_config"
    "efa_fifo_per_qp duo_env \<longrightarrow> efa_proxy_threads (fe_rails_env duo_env) duo_config dvd efa_num_qps duo_config" by simp_all
  from efa_lane_reaches_owner[OF s this, of "zero_cmd\<lparr>lane_id := 7\<rparr>"] show ?thesis
    using s unfolding Let_def by auto
qed

theorem efa_endpoint_of_rank_witness:
  "\<exists>s p po. efa_create_session duo_config duo_env = Inr s \<and> fs_threads s ! 1 = Running p \<and>
    resolve_peer_slot (e_cfg p) (zero_cmd\<lparr>dst_rank := 1\<rparr>) = 0 \<and>
    e_posts (snd (efa_post_batch \<lparr>ew_ret = (\<lambda>_. 0), ew_clock = (\<lambda>_. 0)\<rparr> [zero_cmd\<lparr>dst_rank := 1\<rparr>] 0 p)) = e_posts p @ [po] \<and> ep_qp po = 0"
proof -
  obtain s where s: "efa_create_session duo_config duo_env = Inr s" using duo_created by auto
  have r: "ranks_complete duo_config" by (rule ring_ranks_complete) (simp_all add: duo_config_def)
  have ranks: "sess_peer_ranks duo_config ! 0 = 1" by code_simp
  obtain p where p: "1 < length (fs_threads s)" "fs_threads s ! 1 = Running p" "0 < ec_num_qps (e_cfg p)"
    using s
  proof (cases rule: efa_create_cases)
    case (created devs rails qp_rail cq_rail qps local_keys clocal recv f tb infos ahs)
    then show ?thesis
      using efa_spawn_nth[of 1 2 duo_env duo_config 0] that
      by (simp add: efa_local_qps_def new_efa_proxy_def Let_def efa_clamp_def)
  qed
  show ?thesis
    using efa_endpoint_of_rank[OF s r _ p(1,2), of 0 "[zero_cmd\<lparr>dst_rank := 1\<rparr>]" p 0 "\<lparr>ew_ret = (\<lambda>_. 0), ew_clock = (\<lambda>_. 0)\<rparr>"] ranks s p(2,3)
    by (auto simp: duo_config_def)
qed

end
