(* ===== verification/Session_EFA_Epoch.thy ===== *)
theory Session_EFA_Epoch
  imports Session_EFA_Links Proxy_EFA_Loop
begin

text \<open>
  The life of an EFA session after its creation: the epoch transition over all rings, the release of
  its resources with what it forgets, and concrete configurations outside the conditions of the
  theorems.
\<close>

section \<open>Rings of a session\<close>

lemma map_rings_length [simp]: "length (map_rings g k ths) = length ths"
  by (induction g k ths rule: map_rings.induct) (simp_all add: Let_def)

lemma rings_of_set [simp]: "rings_of (set_rings th fs) = fs"
  by (simp add: rings_of_def set_rings_def split: proxy_thread.splits)

lemma map_rings_rings:
  "concat (map rings_of (map_rings g k ths)) =
    map2 g [k..<k + length (concat (map rings_of ths))] (concat (map rings_of ths))"
proof (induction g k ths rule: map_rings.induct)
  case (2 g k th ths)
  let ?n = "length (rings_of th)" and ?m = "length (concat (map rings_of ths))"
  have u: "[k..<k + (?n + ?m)] = [k..<k + ?n] @ [k + ?n..<k + ?n + ?m]"
    by (metis add.assoc le_add1 upt_add_eq_append)
  have "map2 g [k..<k + (?n + ?m)] (rings_of th @ concat (map rings_of ths)) =
    map2 g [k..<k + ?n] (rings_of th) @ map2 g [k + ?n..<k + ?n + ?m] (concat (map rings_of ths))"
    unfolding u by (subst zip_append) simp_all
  then show ?case using "2.IH"[OF refl] by (simp add: Let_def)
qed simp

text \<open>One ring for each thread: the index of the ring is the index of the thread.\<close>

lemma map_rings_single:
  assumes "\<And>th. th \<in> set ths \<Longrightarrow> length (rings_of th) = 1" "i < length ths"
  shows "map_rings g k ths ! i = set_rings (ths ! i) (map (g (k + i)) (rings_of (ths ! i)))"
  using assms
proof (induction g k ths arbitrary: i rule: map_rings.induct)
  case (2 g k th ths)
  obtain f where f: "rings_of th = [f]" using "2.prems"(1)[of th] by (auto simp: length_Suc_conv)
  have l: "length (rings_of x) = 1" if "x \<in> set ths" for x using "2.prems"(1) that by simp
  show ?case
    using "2.IH"[OF refl l, of "i - 1"] "2.prems"(2) f by (cases i) (simp_all add: Let_def)
qed simp

section \<open>Epochs\<close>

text \<open>
  The proxy \<open>p\<close> in a new epoch, with the rest \<open>cq\<close> of what its completion queue will deliver: everything
  an epoch transition sets. What is not listed is kept, a command read and not posted, a batch to
  be retried and the place in the rotation over rings included.
\<close>

definition efa_epoch_proxy :: "u32 \<Rightarrow> efa_wc list list \<Rightarrow> EfaProxy \<Rightarrow> EfaProxy" where
  "efa_epoch_proxy e cq p = p\<lparr>e_cfg := (e_cfg p)\<lparr>ec_epoch := e\<rparr>, e_inflight := 0, e_ts := ts_reset,
     e_sender_seq := replicate (length (e_sender_seq p)) 0, e_cursor := 0,
     e_total_loops := 0, e_empty_loops := 0, e_inflight_limited := 0, e_full_batches := 0, e_partial_batches := 0,
     e_post_calls := 0, e_total_cmds := 0, e_pending_post_head := 0, e_pending_post_tail := 0, e_pending_post_count := 0,
     e_completion_count := 0, e_completion_sum_ns := 0, e_completion_max_ns := 0,
     e_signaled_post_ns := [], e_completion_ns := [],
     e_fifos := map reset_fifo (e_fifos p), e_arrival := replicate (length (e_arrival p)) 0, e_cq := cq\<rparr>"

lemma efa_quiesce_frame:
  assumes "efa_quiesce p = Some q"
  shows "q = p\<lparr>e_inflight := 0, e_has_pending_barrier := False, e_cq := e_cq q\<rparr>"
  using assms drain_from_splits[of "e_cq p" 0 p]
  by (fastforce simp: efa_quiesce_def efa_drain_cq_def efa_reset_inflight_def)

lemma efa_threads_drained_served:
  "list_all is_served (map (snd \<circ> snd) xs) \<Longrightarrow> \<exists>d. efa_threads_drained xs = Inr d"
  by (induction xs rule: efa_threads_drained.induct)
    (auto simp: efa_thread_busy_def is_served_def split: proxy_thread.splits)

lemma efa_drain_served:
  assumes "\<And>i. list_all is_served (fs_threads (snap i))"
  shows "\<exists>k. efa_drain_proxy snap s = Inr k"
  unfolding efa_drain_proxy_def
proof (rule drain_from_returns, rule efa_threads_drained_served)
  fix i
  have "set (map (snd \<circ> snd) (zip (efa_heads s) (zip (all_rings (snap i)) (fs_threads (snap i))))) \<subseteq> set (fs_threads (snap i))"
    by (auto dest!: set_zip_rightD)
  then show "list_all is_served (map (snd \<circ> snd) (zip (efa_heads s) (zip (all_rings (snap i)) (fs_threads (snap i)))))"
    using assms[of i] unfolding list_all_iff by blast
qed

text \<open>
  C20 (liveness): an epoch transition of an EFA session without null proxies returns once the
  completion queues have delivered what is in flight, provided the environment asks for none of the
  shortcuts (the fast levels 2 and 3, skipping the resets) and for no priming at this epoch, each thread
  has one ring, and no proxy holds a stage barrier it has read and not posted. Then each
  proxy is the proxy it was with the new epoch, nothing in flight, sequence numbers, staging cursor,
  statistics and timestamps cleared, its ring reset and its view of the arrival words cleared, nothing
  posted on the way, and everything else kept: a command read and not posted is neither waited for nor
  dropped. The arrival and barrier words of the session are cleared. With more rings than
  threads the later rings are not reset, and a barrier read and not posted is dropped.
\<close>

theorem efa_epoch_transition:
  assumes "list_all is_served (fs_threads s)" "\<And>i. list_all is_served (fs_threads (snap i))"
    and "\<And>t p. t < length (fs_threads s) \<Longrightarrow> fs_threads s ! t = Running p \<Longrightarrow>
      efa_drain_cq p \<noteq> None \<and> length (e_fifos p) = 1 \<and> \<not> e_has_pending_barrier p"
    and "fast_level (ee_fast V) < 2" "\<not> is_one (ee_skip V)"
    and "e \<noteq> 1 \<or> \<not> should_prime_first_launch (ee_prime V) (ee_fci V)"
  shows "\<exists>s'. efa_session_set_epoch V snap work e s = Inr (Some s') \<and> fs_epoch s' = e \<and>
    fs_arrival s' = reset_arrival_flags (fs_arrival s) \<and> fs_barrier s' = replicate (length (fs_barrier s)) 0 \<and>
    length (fs_threads s') = length (fs_threads s) \<and>
    (\<forall>t < length (fs_threads s). \<exists>p cq. fs_threads s ! t = Running p \<and>
       fs_threads s' ! t = Running (efa_epoch_proxy e cq p) \<and> e_posts (efa_epoch_proxy e cq p) = e_posts p)"
proof -
  let ?f = "\<lambda>(t :: nat) p. map_option efa_reset_timestamps (efa_quiesce p)" and ?g = "\<lambda>(t :: nat) p. Some (efa_set_epoch e p)"
  let ?r = "\<lambda>n k f. if k < n then reset_fifo f else f"
  obtain k where k: "efa_drain_proxy snap s = Inr k" using efa_drain_served[of snap, OF assms(2)] by blast
  obtain ths where ths: "on_proxies ?f 0 (fs_threads s) = Inr (Some ths)"
    using on_proxies_served[OF assms(1), of ?f 0] assms(3) by (auto simp: efa_quiesce_def)
  note f = on_proxies_Inr[OF ths]
  have "list_all is_served ths" using f by (fastforce simp: list_all_length is_served_def)
  then obtain ths' where ths': "on_proxies ?g 0 ths = Inr (Some ths')" using on_proxies_served[of ths ?g 0] by auto
  note g = on_proxies_Inr[OF ths']
  define n where "n = length (fs_threads s)"
  define ends where "ends = map clear_arrival (map_rings (?r n) 0 ths')"
  define s' where "s' = s\<lparr>fs_epoch := e, fs_threads := ends, fs_arrival := reset_arrival_flags (fs_arrival s),
    fs_barrier := reset_stage_barrier_flags (fs_barrier s)\<rparr>"
  have len: "length ths = n" "length ths' = n" "length ends = n" using f(1) g(1) by (simp_all add: n_def ends_def)
  have p: "efa_prepare_epoch (ee_fast V) snap s = Inr (Some (s\<lparr>fs_threads := ths\<rparr>))"
    using k ths assms(1,4) by (simp add: efa_prepare_epoch_def)
  have c: "efa_commit_epoch (ee_skip V) e (s\<lparr>fs_threads := ths\<rparr>) = Inr (Some s')"
    using ths' assms(5) len by (simp add: efa_commit_epoch_def s'_def ends_def)
  have r: "efa_session_set_epoch V snap work e s = Inr (Some s')"
    using assms(6) by (auto simp: efa_session_set_epoch_def p c prime_first_launch_transport_def)
  have two: "\<exists>p x. fs_threads s ! t = Running p \<and>
      ths' ! t = Running (efa_set_epoch e (efa_reset_timestamps (p\<lparr>e_inflight := 0, e_cq := x\<rparr>)))" if t: "t < n" for t
  proof -
    obtain p m where p: "fs_threads s ! t = Running p" "ths ! t = Running m" "?f t p = Some m"
      using f(2)[of t] t by (auto simp: n_def)
    have q: "ths' ! t = Running (efa_set_epoch e m)" using g(2)[of t] t p(2) len by auto
    obtain m' where m': "efa_quiesce p = Some m'" "m = efa_reset_timestamps m'" using p(3) by auto
    have "\<not> e_has_pending_barrier p" using assms(3)[of t p] t p(1) by (simp add: n_def)
    then have "m' = p\<lparr>e_inflight := 0, e_cq := e_cq m'\<rparr>" using efa_quiesce_frame[OF m'(1)] by (cases p) simp
    then show ?thesis using p(1) q m'(2) by metis
  qed
  have single: "length (rings_of th) = 1" if mem: "th \<in> set ths'" for th
  proof -
    obtain t where t: "t < n" "th = ths' ! t"
      using mem unfolding in_set_conv_nth len(2) by blast
    obtain p x where p: "fs_threads s ! t = Running p"
      "ths' ! t = Running (efa_set_epoch e (efa_reset_timestamps (p\<lparr>e_inflight := 0, e_cq := x\<rparr>)))"
      using two[OF t(1)] by blast
    have "length (e_fifos p) = 1" using assms(3) t(1) p(1) unfolding n_def by blast
    then show ?thesis
      unfolding t(2) p(2) by (simp add: rings_of_def efa_set_epoch_def efa_reset_timestamps_def)
  qed
  have each: "\<exists>p cq. fs_threads s ! t = Running p \<and> ends ! t = Running (efa_epoch_proxy e cq p)" if t: "t < n" for t
  proof -
    obtain p x where p: "fs_threads s ! t = Running p"
      "ths' ! t = Running (efa_set_epoch e (efa_reset_timestamps (p\<lparr>e_inflight := 0, e_cq := x\<rparr>)))" using two[OF t] by blast
    have "ends ! t = clear_arrival (set_rings (ths' ! t) (map reset_fifo (rings_of (ths' ! t))))"
      using map_rings_single[OF single, of ths' t "?r n" 0] t len by (simp add: ends_def)
    then have "ends ! t = Running (efa_epoch_proxy e x p)"
      unfolding p(2)
      by (simp add: set_rings_def rings_of_def clear_arrival_def efa_epoch_proxy_def efa_set_epoch_def efa_reset_timestamps_def)
    then show ?thesis using p(1) by blast
  qed
  show ?thesis
    using r each len by (intro exI[of _ s'])
      (simp add: s'_def n_def reset_stage_barrier_flags_def efa_epoch_proxy_def)
qed

section \<open>Release\<close>

text \<open>\<open>efa_uses a b\<close>: resource \<open>a\<close> must be gone before \<open>b\<close> is released.\<close>

definition efa_uses :: "efa_resource \<Rightarrow> efa_resource \<Rightarrow> bool" where
  "efa_uses a b =
     (case b of
        FCtx r \<Rightarrow> (case a of FPd r' \<Rightarrow> r' = r | FCq t \<Rightarrow> True | _ \<Rightarrow> False)
      | FPd r \<Rightarrow> (case a of FLocalMr r' \<Rightarrow> r' = r | FClocalMr r' \<Rightarrow> r' = r | FRecvMr r' \<Rightarrow> r' = r |
           FArrivalMr r' \<Rightarrow> r' = r | FBarrierMr r' \<Rightarrow> r' = r | FStagingMr t \<Rightarrow> True | FAh p r' \<Rightarrow> r' = r | FQp i \<Rightarrow> True | _ \<Rightarrow> False)
      | FCq t \<Rightarrow> (case a of FQp i \<Rightarrow> True | _ \<Rightarrow> False)
      | FRecvMem \<Rightarrow> (case a of FRecvMr r \<Rightarrow> True | _ \<Rightarrow> False)
      | FArrival \<Rightarrow> (case a of FArrivalMr r \<Rightarrow> True | FProxy t \<Rightarrow> True | _ \<Rightarrow> False)
      | FStaging t \<Rightarrow> (case a of FStagingMr t' \<Rightarrow> t' = t | FProxy t' \<Rightarrow> t' = t | _ \<Rightarrow> False)
      | FBarrier \<Rightarrow> (case a of FBarrierMr r \<Rightarrow> True | _ \<Rightarrow> False)
      | FFifo k \<Rightarrow> (case a of FProxy t \<Rightarrow> True | _ \<Rightarrow> False)
      | _ \<Rightarrow> (case a of FProxy t \<Rightarrow> (case b of FProxy u \<Rightarrow> False | _ \<Rightarrow> True) | _ \<Rightarrow> False))"

lemma efa_release_sorted: "sorted_wrt (\<lambda>a b. \<not> efa_uses b a) (served_proxies ths @ efa_release s)"
proof -
  let ?R = "\<lambda>a b. \<not> efa_uses b a"
  have mrs: "sorted_wrt ?R (concat (map (\<lambda>r. [FArrivalMr r, FBarrierMr r, FLocalMr r] @ (if x then [FClocalMr r] else []) @
      (if y \<or> r > 0 then [FRecvMr r] else [])) [0..<n]))" for x y n
    by (induction n) (auto simp: sorted_wrt_append efa_uses_def)
  have devs: "sorted_wrt ?R (concat (map (\<lambda>r. [FPd r, FCtx r]) [0..<n]))" for n
    by (induction n) (auto simp: sorted_wrt_append efa_uses_def)
  have proxies: "sorted_wrt ?R (served_proxies ths)"
    by (auto simp: served_proxies_def sorted_wrt_map efa_uses_def)
  show ?thesis
    unfolding efa_release_def Let_def
    apply (simp only: sorted_wrt_append mrs devs proxies)
    apply (auto simp: sorted_wrt_map efa_uses_def served_proxies_def split: if_splits)
    done
qed

lemma cover:
  fixes R D T F P Q :: nat
  assumes "1 \<le> R" "R \<le> D" "T \<le> F" "1 \<le> Q" "1 \<le> P"
  shows "x < T \<or> T \<le> x \<and> x < F \<longleftrightarrow> x < F" "x < R \<or> R \<le> x \<and> x < D \<longleftrightarrow> x < D"
    "x < R \<and> 0 < x \<or> x = 0 \<longleftrightarrow> x < R" "x = 0 \<or> Suc 0 \<le> x \<and> x < Q \<longleftrightarrow> x < Q"
    "x = 0 \<and> y < R \<or> Suc 0 \<le> x \<and> x < P \<and> y < R \<longleftrightarrow> x < P \<and> y < R"
  using assms by auto

text \<open>What \<open>create_session\<close> acquired and \<open>destroy_session\<close> forgets.\<close>

definition efa_leaked :: "nat \<Rightarrow> nat \<Rightarrow> nat \<Rightarrow> nat \<Rightarrow> nat \<Rightarrow> efa_resource set" where
  "efa_leaked opened rails threads rings peers =
     (\<lambda>(p, r). FAh p r) ` ({1..<peers} \<times> {0..<rails}) \<union> FFifo ` {threads..<rings} \<union> FCtx ` {rails..<opened} \<union> FPd ` {rails..<opened}"

lemma efa_num_fifos_range: "efa_proxy_threads (fe_rails_env E) c \<le> efa_num_fifos c E"
  using efa_num_qps_range[of c] efa_proxy_threads_range[of "fe_rails_env E" c]
  by (simp add: efa_num_fifos_def kMaxProxyThreads_def)

lemma served_proxies_set: "set (served_proxies ths) = FProxy ` {t. t < length ths \<and> is_served (ths ! t)}"
  by (auto simp: served_proxies_def)

lemma efa_release_distinct: "distinct (served_proxies ths @ efa_release s)"
proof -
  have mrs: "distinct (concat (map (\<lambda>r. [FArrivalMr r, FBarrierMr r, FLocalMr r] @ (if x then [FClocalMr r] else []) @
      (if y \<or> r > 0 then [FRecvMr r] else [])) [0..<n]))" for x y n
    by (induction n) auto
  have devs: "distinct (concat (map (\<lambda>r. [FPd r, FCtx r]) [0..<n]))" for n by (induction n) auto
  show ?thesis
    unfolding efa_release_def Let_def
    apply (simp only: distinct_append mrs devs)
    apply (auto simp: distinct_map inj_on_def served_proxies_def split: if_splits)
    done
qed

text \<open>
  \<open>destroy_session\<close> releases only what was acquired, each resource once, and never one that
  another released later depends on; it forgets exactly the address handles of all peers but the
  first, the rings beyond the number of threads, and the devices opened for rails that were given up.
\<close>

theorem efa_destroy_leaks:
  assumes "efa_create_session c E = Inr s" "map is_served ths = map is_served (fs_threads s)"
    and "open_efa_devices (fe_host E) (fc_device_id c) (requested_rails (fe_rails_env E) c) = Inr devs"
    and "efa_destroy_session snap (s\<lparr>fs_threads := ths\<rparr>) = Inr rs"
  shows "distinct rs \<and> sorted_wrt (\<lambda>a b. \<not> efa_uses b a) rs \<and>
    set rs \<union> efa_leaked (length devs) (nat (fs_num_rails s)) (nat (efa_proxy_threads (fe_rails_env E) c))
        (nat (efa_num_fifos c E)) (nat (fc_num_peers c)) = set (fs_resources s) \<and>
    set rs \<inter> efa_leaked (length devs) (nat (fs_num_rails s)) (nat (efa_proxy_threads (fe_rails_env E) c))
        (nat (efa_num_fifos c E)) (nat (fc_num_peers c)) = {}"
  using assms(1)
proof (cases rule: efa_create_cases)
  case (created devs' rails qp_rail cq_rail qps local_keys clocal recv f tb infos ahs)
  let ?s = "s\<lparr>fs_threads := ths\<rparr>" and ?T = "efa_proxy_threads (fe_rails_env E) c"
  have devs: "devs' = devs" using created(1) assms(3) by simp
  have len: "length ths = nat ?T" using arg_cong[OF assms(2), of length] created(17) by simp
  have one: "1 \<le> ?T" "1 \<le> efa_num_qps c" using efa_proxy_threads_range[of "fe_rails_env E" c] by auto
  have "0 < efa_local_qps (fe_rails_env E) c 0" using efa_ranges(5)[where env="fe_rails_env E" and c=c] one by (simp add: efa_local_qps_def)
  then have "is_served (fs_threads s ! 0)"
    using efa_spawn_nth[of 0 "nat ?T" E c 0] one created(17) by (simp add: is_served_def)
  moreover have each: "is_served (ths ! t) = is_served (fs_threads s ! t)" if "t < length ths" for t
    using arg_cong[OF assms(2), of "\<lambda>xs. xs ! t"] arg_cong[OF assms(2), of length] that by simp
  moreover have ne: "ths \<noteq> []" "0 < length ths" using len one by auto
  ultimately have sv: "ths \<noteq> []" "is_served (hd ths)" by (simp_all add: hd_conv_nth)
  have same: "served_proxies ths = served_proxies (fs_threads s)"
  proof -
    have "filter (\<lambda>t. is_served (ths ! t)) [0..<length ths] = filter (\<lambda>t. is_served (fs_threads s ! t)) [0..<length ths]"
      using each by (intro filter_cong) auto
    then show ?thesis using arg_cong[OF assms(2), of length] by (simp add: served_proxies_def)
  qed
  have rs: "rs = served_proxies ths @ efa_release ?s"
    using assms(4) sv by (auto simp: efa_destroy_session_def and_then_Inr_iff)
  have rails: "1 \<le> rails" "rails \<le> int (length devs)"
    using assign_rails_range[OF created(2)] opened_some[OF created(1)] by (cases devs'; simp add: devs)+
  have fifos: "nat ?T \<le> nat (efa_num_fifos c E)" using efa_num_fifos_range[of E c] by simp
  have nats: "1 \<le> nat rails" "nat rails \<le> length devs" "nat ?T \<le> nat (efa_num_fifos c E)" "1 \<le> nat (efa_num_qps c)"
    "1 \<le> nat (fc_num_peers c)"
    using rails fifos one created(7) by auto
  have "set rs \<union> efa_leaked (length devs) (nat (fs_num_rails s)) (nat ?T) (nat (efa_num_fifos c E)) (nat (fc_num_peers c)) = set (fs_resources s)"
  proof (rule set_eqI)
    fix x
    show "x \<in> set rs \<union> efa_leaked (length devs) (nat (fs_num_rails s)) (nat ?T) (nat (efa_num_fifos c E)) (nat (fc_num_peers c)) \<longleftrightarrow>
      x \<in> set (fs_resources s)"
      unfolding rs same created(22)[unfolded devs] efa_leaked_def efa_release_def efa_acquired_def Let_def
      by (cases x; simp add: len created(11,15,20,21) served_proxies_set image_iff cover[OF nats]; blast?)
  qed
  moreover have "set rs \<inter> efa_leaked (length devs) (nat (fs_num_rails s)) (nat ?T) (nat (efa_num_fifos c E)) (nat (fc_num_peers c)) = {}"
    unfolding rs efa_leaked_def efa_release_def Let_def
    by (auto simp: len served_proxies_set split: if_splits)
  ultimately show ?thesis using efa_release_distinct[of ths ?s] efa_release_sorted[of ths ?s] by (simp add: rs)
qed


lemma duo_thread:
  assumes "efa_create_session duo_config duo_env = Inr s"
  shows "length (fs_threads s) = 2"
    "t < 2 \<Longrightarrow> \<exists>p f. fs_threads s ! t = Running p \<and> e_inflight p = 0 \<and> \<not> e_has_pending_barrier p \<and>
      e_fifos p = [f] \<and> create_d2h_fifo 4 = Some f"
proof -
  show "length (fs_threads s) = 2" using assms by (cases rule: efa_create_cases) simp
  assume t: "t < 2"
  show "\<exists>p f. fs_threads s ! t = Running p \<and> e_inflight p = 0 \<and> \<not> e_has_pending_barrier p \<and>
      e_fifos p = [f] \<and> create_d2h_fifo 4 = Some f"
    using assms
  proof (cases rule: efa_create_cases)
  case (created devs rails qp_rail cq_rail qps local_keys clocal recv f tb infos ahs)
  have f: "create_d2h_fifo 4 = Some f"
    using created(6) by (auto simp: efa_create_fifo_def must_register_def duo_config_def split: option.splits)
  have "thread_rings duo_config duo_env f = [f]" by (simp add: thread_rings_def efa_num_fifos_def kMaxProxyThreads_def)
  moreover have "0 < efa_local_qps None duo_config (int t)" using t by (simp add: efa_local_qps_def)
  ultimately show ?thesis
    using efa_spawn_nth[of t 2 duo_env duo_config 0] t f by (simp add: created(17) new_efa_proxy_def Let_def)
  qed
qed

lemma duo_served:
  assumes "efa_create_session duo_config duo_env = Inr s"
  shows "list_all is_served (fs_threads s)"
  using duo_thread[OF assms] by (fastforce simp: list_all_length is_served_def)

theorem efa_destroy_leaks_witness:
  "\<exists>s rs. efa_create_session duo_config duo_env = Inr s \<and> efa_destroy_session (\<lambda>i. s) s = Inr rs \<and>
    distinct rs \<and> set rs = set (fs_resources s)"
proof -
  obtain s where s: "efa_create_session duo_config duo_env = Inr s" using duo_created by auto
  obtain devs where d: "open_efa_devices root_host 0 2 = Inr devs" "length devs = 2"
  proof -
    have "map_sum id length (open_efa_devices root_host 0 2) = Inr 2" by code_simp
    then show thesis using that by (cases "open_efa_devices root_host 0 2") auto
  qed
  have o: "open_efa_devices (fe_host duo_env) (fc_device_id duo_config) (requested_rails (fe_rails_env duo_env) duo_config) = Inr devs"
    using d by (simp add: duo_env_def duo_config_def duo_counts(7)[unfolded duo_config_def])
  obtain k where "efa_drain_proxy (\<lambda>i. s) s = Inr k" using efa_drain_served[of "\<lambda>i. s"] duo_served[OF s] by blast
  then obtain rs where rs: "efa_destroy_session (\<lambda>i. s) s = Inr rs"
    by (cases "fs_threads s \<noteq> [] \<and> is_served (hd (fs_threads s))") (auto simp: efa_destroy_session_def)
  have "fs_num_rails s = 2" using s
  proof (cases rule: efa_create_cases)
    case (created devs' rails qp_rail cq_rail qps local_keys clocal recv f tb infos ahs)
    then show ?thesis using o d duo_rails by simp
  qed
  then have "efa_leaked (length devs) (nat (fs_num_rails s)) (nat (efa_proxy_threads (fe_rails_env duo_env) duo_config))
      (nat (efa_num_fifos duo_config duo_env)) (nat (fc_num_peers duo_config)) = {}"
    using d by (simp add: efa_leaked_def efa_num_fifos_def kMaxProxyThreads_def)
  then show ?thesis using efa_destroy_leaks[OF s refl o, of "\<lambda>i. s" rs] rs s by auto
qed

theorem efa_epoch_transition_witness:
  "\<exists>s s' p cq. efa_create_session duo_config duo_env = Inr s \<and>
    efa_session_set_epoch \<lparr>ee_fast = None, ee_skip = None, ee_prime = None, ee_fci = None, ee_rounds = None\<rparr>
      (\<lambda>i. s) (\<lambda>k s i. s) 2 s = Inr (Some s') \<and> fs_epoch s' = 2 \<and> fs_threads s ! 1 = Running p \<and>
    fs_threads s' ! 1 = Running (efa_epoch_proxy 2 cq p)"
proof -
  let ?V = "\<lparr>ee_fast = None, ee_skip = None, ee_prime = None, ee_fci = None, ee_rounds = None\<rparr>"
  obtain s where s: "efa_create_session duo_config duo_env = Inr s" using duo_created by auto
  note th = duo_thread[OF s]
  have d: "efa_drain_cq p \<noteq> None \<and> length (e_fifos p) = 1 \<and> \<not> e_has_pending_barrier p"
    if "t < length (fs_threads s)" "fs_threads s ! t = Running p" for t p
    using th that by (fastforce simp: efa_drain_cq_def efa_drain_from.simps)
  have "\<exists>s'. efa_session_set_epoch ?V (\<lambda>i. s) (\<lambda>k s i. s) 2 s = Inr (Some s') \<and> fs_epoch s' = 2 \<and>
    fs_arrival s' = reset_arrival_flags (fs_arrival s) \<and> fs_barrier s' = replicate (length (fs_barrier s)) 0 \<and>
    length (fs_threads s') = length (fs_threads s) \<and>
    (\<forall>t < length (fs_threads s). \<exists>p cq. fs_threads s ! t = Running p \<and>
       fs_threads s' ! t = Running (efa_epoch_proxy 2 cq p) \<and> e_posts (efa_epoch_proxy 2 cq p) = e_posts p)"
    by (rule efa_epoch_transition) (use duo_served[OF s] d in \<open>simp_all add: fast_level_def is_one_def\<close>)
  then obtain s' where s': "efa_session_set_epoch ?V (\<lambda>i. s) (\<lambda>k s i. s) 2 s = Inr (Some s')" "fs_epoch s' = 2"
    "\<forall>t < length (fs_threads s). \<exists>p cq. fs_threads s ! t = Running p \<and>
       fs_threads s' ! t = Running (efa_epoch_proxy 2 cq p) \<and> e_posts (efa_epoch_proxy 2 cq p) = e_posts p"
    by blast
  have "1 < length (fs_threads s)" using th(1) by simp
  then have "\<exists>p cq. fs_threads s ! 1 = Running p \<and> fs_threads s' ! 1 = Running (efa_epoch_proxy 2 cq p)"
    using s'(3) by blast
  then show ?thesis using s s'(1,2) by blast
qed

section \<open>Outside the conditions\<close>

text \<open>Four queue pairs on three rails: the slice of the second proxy spans two rails, and the session falls back to one rail.\<close>

lemma misaligned_gives_up_rails:
  "assign_rails None (duo_config\<lparr>fc_num_rails := 3, fc_num_proxy_threads := 3\<rparr>) 3 = (1, [0, 0, 0, 0])"
  by code_simp

text \<open>
  One ring for each of five queue pairs and two threads: ring 2 is polled by thread 1 although queue
  pair 2 is of thread 0, and ring 4 is polled by no thread.
\<close>

lemma ring_misses_owner:
  "let c = duo_config\<lparr>fc_num_qps := 5, fc_num_rails := 1\<rparr>; E = duo_env\<lparr>fe_fifo_env := Some ''1''\<rparr>
   in select_fifo_index (efa_bundle c E) 2 = 2 \<and> rings_per_proxy c E = 2 \<and> efa_owner_thread None c 2 = 0 \<and>
      select_fifo_index (efa_bundle c E) 4 = 4 \<and> efa_proxy_threads None c = 2"
  by code_simp

text \<open>The commit of an epoch resets the rings with an index below the number of threads only.\<close>

lemma commit_leaves_later_rings:
  assumes "efa_commit_epoch None e s = Inr (Some s')" "k < length (concat (map rings_of (fs_threads s)))"
    and "length (fs_threads s) \<le> k"
  shows "all_rings s' ! k = all_rings s ! k"
proof -
  obtain ths where t: "on_proxies (\<lambda>t p. Some (efa_set_epoch e p)) 0 (fs_threads s) = Inr (Some ths)"
    "fs_threads s' = map clear_arrival (map_rings (\<lambda>k f. if k < length ths then reset_fifo f else f) 0 ths)"
    using assms(1) by (auto simp: efa_commit_epoch_def is_one_def and_then_Inr_iff)
  note f = on_proxies_Inr[OF t(1)]
  have r: "map rings_of ths = map rings_of (fs_threads s)"
  proof (rule nth_equalityI)
    fix i assume "i < length (map rings_of ths)"
    then show "map rings_of ths ! i = map rings_of (fs_threads s) ! i"
      using f(1) f(2)[of i] by (auto simp: rings_of_def efa_set_epoch_def)
  qed (use f(1) in simp)
  have "map rings_of (fs_threads s') = map rings_of (map_rings (\<lambda>k f. if k < length ths then reset_fifo f else f) 0 ths)"
    by (simp add: t(2) rings_of_def clear_arrival_def comp_def split: proxy_thread.splits)
  then show ?thesis
    using assms(2,3) f(1) by (simp add: all_rings_def map_rings_rings r nth_append)
qed

end
