(* ===== verification/Local_Barrier.thy ===== *)
theory Local_Barrier
  imports MKernel_Prelude
begin

text \<open>
  The barrier of \<open>src/include/comm/local_broker.cuh\<close>: the two counting phases of
  \<open>sync\<close> on the words \<open>barrier\<close> and \<open>sense\<close> of the shared vault, executed by
  the processes of one node in any interleaving. Each atomic access to the vault is a step of
  one process. \<open>phase_barrier\<close> is what the clients of the barrier rely on; the model of
  the code is an interpretation of it.
\<close>

section \<open>State and steps\<close>

text \<open>
  Where a process is: outside of \<open>sync\<close>, or in front of the access named by the
  constructor (local_broker.cuh:78-88).
\<close>

datatype bpc = Out | Add | Set_Sense | Wait_Set | Sub | Clear_Sense | Wait_Clear

text \<open>
  The two words of the vault, the program counter of every process and, as a ghost, the number
  of calls of \<open>sync\<close> each has returned from.
\<close>

record bar =
  count :: int
  sense :: bool
  pcs :: "nat \<Rightarrow> bpc"
  rounds :: "nat \<Rightarrow> nat"

definition goto_pc :: "nat \<Rightarrow> bpc \<Rightarrow> bar \<Rightarrow> bar" where
  "goto_pc p l b = b\<lparr>pcs := (pcs b)(p := l)\<rparr>"

text \<open>Entering \<open>sync\<close>; a process that is inside already does not enter again.\<close>

definition bar_enter :: "nat \<Rightarrow> bar \<Rightarrow> bar option" where
  "bar_enter p b = (if pcs b p = Out then Some (goto_pc p Add b) else None)"

text \<open>
  One access of process \<open>p\<close>, \<open>n\<close> being the number of processes the caller named.
  \<open>None\<close> is a process that goes on spinning (lines 80 and 88) or is not in
  \<open>sync\<close>.
\<close>

definition bar_advance :: "int \<Rightarrow> nat \<Rightarrow> bar \<Rightarrow> bar option" where
  "bar_advance n p b = (case pcs b p of
      Out \<Rightarrow> None
    | Add \<Rightarrow> (let arrived = count b + 1
        in Some (goto_pc p (if arrived = n then Set_Sense else Wait_Set) (b\<lparr>count := arrived\<rparr>)))
    | Set_Sense \<Rightarrow> Some (goto_pc p Wait_Set (b\<lparr>sense := True\<rparr>))
    | Wait_Set \<Rightarrow> (if sense b then Some (goto_pc p Sub b) else None)
    | Sub \<Rightarrow> (let arrived = count b - 1
        in Some (goto_pc p (if arrived = 0 then Clear_Sense else Wait_Clear) (b\<lparr>count := arrived\<rparr>)))
    | Clear_Sense \<Rightarrow> Some (goto_pc p Wait_Clear (b\<lparr>sense := False\<rparr>))
    | Wait_Clear \<Rightarrow> (if sense b then None
        else Some (goto_pc p Out (b\<lparr>rounds := (rounds b)(p := Suc (rounds b p))\<rparr>))))"

text \<open>The vault as \<open>init_sync\<close> leaves it.\<close>

definition bar_init :: bar where
  "bar_init = \<lparr>count = 0, sense = False, pcs = (\<lambda>_. Out), rounds = (\<lambda>_. 0)\<rparr>"

section \<open>Invariant\<close>

definition num_at :: "nat \<Rightarrow> (nat \<Rightarrow> bpc) \<Rightarrow> bpc set \<Rightarrow> int" where
  "num_at N f S = (\<Sum>p<N. of_bool (f p \<in> S))"

lemma sum_fun_upd:
  fixes g :: "'b \<Rightarrow> int"
  assumes "p < (N::nat)"
  shows "(\<Sum>q<N. g ((f(p := x)) q)) = (\<Sum>q<N. g (f q)) - g (f p) + g x"
proof -
  have "(\<Sum>q<N. g ((f(p := x)) q)) = g x + (\<Sum>q\<in>{..<N} - {p}. g ((f(p := x)) q))"
    using assms by (subst sum.remove[of _ p]) auto
  also have "(\<Sum>q\<in>{..<N} - {p}. g ((f(p := x)) q)) = (\<Sum>q\<in>{..<N} - {p}. g (f q))"
    by (rule sum.cong) auto
  also have "\<dots> = (\<Sum>q<N. g (f q)) - g (f p)"
    using assms by (subst sum.remove[of _ p]) auto
  finally show ?thesis by simp
qed

lemma num_at_upd:
  "p < N \<Longrightarrow> num_at N (f(p := x)) S = num_at N f S - of_bool (f p \<in> S) + of_bool (x \<in> S)"
  unfolding num_at_def by (rule sum_fun_upd[where g = "\<lambda>l. of_bool (l \<in> S)"])

lemma num_at_nonneg [simp]: "0 \<le> num_at N f S"
  by (simp add: num_at_def sum_nonneg)

lemma num_at_le: "num_at N f S \<le> int N"
proof -
  have "num_at N f S \<le> (\<Sum>p<N. 1)" unfolding num_at_def by (rule sum_mono) simp
  then show ?thesis by simp
qed

lemma num_at_all: "(\<forall>p<N. f p \<in> S) \<longleftrightarrow> num_at N f S = int N"
proof
  assume "\<forall>p<N. f p \<in> S"
  then have "num_at N f S = (\<Sum>p<N. 1)" unfolding num_at_def by (intro sum.cong) auto
  then show "num_at N f S = int N" by simp
next
  assume eq: "num_at N f S = int N"
  have "num_at N f S + (\<Sum>p<N. of_bool (f p \<notin> S)) = (\<Sum>p<N. 1)"
    unfolding num_at_def sum.distrib[symmetric] by (rule sum.cong) auto
  with eq have "(\<Sum>p<N. of_bool (f p \<notin> S)) = (0::int)" by simp
  then show "\<forall>p<N. f p \<in> S" by (subst (asm) sum_nonneg_eq_0_iff) auto
qed

lemma num_at_none: "num_at N f S = 0 \<longleftrightarrow> (\<forall>p<N. f p \<notin> S)"
  unfolding num_at_def by (subst sum_nonneg_eq_0_iff) auto

lemma num_at_pos: "p < N \<Longrightarrow> f p \<in> S \<Longrightarrow> 0 < num_at N f S"
  using num_at_none[of N f S] num_at_nonneg[of N f S] by (metis order_less_le)

text \<open>
  While \<open>sense\<close> is clear the processes of round \<open>R\<close> arrive, and those that have not
  seen the end of the round before may still leave it; while it is set all processes are in
  the same round and leave it.
\<close>

definition arriving :: "nat \<Rightarrow> nat \<Rightarrow> bar \<Rightarrow> bool" where
  "arriving N R b \<longleftrightarrow>
     (\<forall>p<N. rounds b p = R \<and> pcs b p \<in> {Out, Add, Set_Sense, Wait_Set}
        \<or> Suc (rounds b p) = R \<and> pcs b p = Wait_Clear)
     \<and> count b = num_at N (pcs b) {Set_Sense, Wait_Set}
     \<and> num_at N (pcs b) {Set_Sense} = of_bool (count b = int N)"

definition leaving :: "nat \<Rightarrow> nat \<Rightarrow> bar \<Rightarrow> bool" where
  "leaving N R b \<longleftrightarrow>
     (\<forall>p<N. rounds b p = R \<and> pcs b p \<in> {Wait_Set, Sub, Clear_Sense, Wait_Clear})
     \<and> count b = num_at N (pcs b) {Wait_Set, Sub}
     \<and> num_at N (pcs b) {Clear_Sense} = of_bool (count b = 0)"

definition bar_inv :: "nat \<Rightarrow> bar \<Rightarrow> bool" where
  "bar_inv N b \<longleftrightarrow> (\<exists>R. if sense b then leaving N R b else arriving N R b)"

lemma bar_inv_init: "0 < N \<Longrightarrow> bar_inv N bar_init"
  by (auto simp: bar_inv_def bar_init_def arriving_def num_at_def)

lemma bar_inv_cases:
  assumes "bar_inv N b"
  obtains (arrive) R where "\<not> sense b" "arriving N R b" | (leave) R where "sense b" "leaving N R b"
  using assms by (auto simp: bar_inv_def split: if_splits)

lemma bar_enter_inv:
  assumes "bar_inv N b" "p < N" "bar_enter p b = Some b'"
  shows "bar_inv N b'"
  using assms(1)
proof (cases rule: bar_inv_cases)
  case (arrive R)
  then have "arriving N R b'"
    using assms(2,3) by (auto simp: arriving_def bar_enter_def goto_pc_def num_at_upd split: if_splits)
  then show ?thesis using arrive(1) assms(3)
    by (auto simp: bar_inv_def bar_enter_def goto_pc_def split: if_splits)
next
  case (leave R)
  then show ?thesis using assms(2,3) by (auto simp: leaving_def bar_enter_def split: if_splits)
qed

lemma arriving_last:
  assumes "arriving N R b" "0 < N" "p < N" "pcs b p = Set_Sense"
  shows "leaving N R (goto_pc p Wait_Set (b\<lparr>sense := True\<rparr>))"
proof -
  have one: "num_at N (pcs b) {Set_Sense} = 1" and full: "count b = int N"
    using assms num_at_pos[of p N "pcs b" "{Set_Sense}"] by (auto simp: arriving_def split: if_splits)
  then have "num_at N (pcs b) {Set_Sense, Wait_Set} = int N" using assms(1) by (simp add: arriving_def)
  then have all: "\<forall>q<N. pcs b q \<in> {Set_Sense, Wait_Set}" by (simp only: num_at_all)
  have "num_at N ((pcs b)(p := Wait_Set)) {Set_Sense} = 0"
    using one assms(3,4) by (simp add: num_at_upd)
  then have "\<forall>q<N. ((pcs b)(p := Wait_Set)) q \<notin> {Set_Sense}" by (simp only: num_at_none)
  then have wait: "\<forall>q<N. ((pcs b)(p := Wait_Set)) q = Wait_Set" using all by (metis fun_upd_apply insert_iff singletonD)
  have "num_at N ((pcs b)(p := Wait_Set)) {Wait_Set, Sub} = int N"
    using wait num_at_all[of N "(pcs b)(p := Wait_Set)" "{Wait_Set, Sub}"] by simp
  moreover have "num_at N ((pcs b)(p := Wait_Set)) {Clear_Sense} = 0"
    using wait by (simp add: num_at_none)
  moreover have "rounds b q = R" if "q < N" for q
  proof -
    have "pcs b q \<noteq> Wait_Clear" using all that by fastforce
    then show ?thesis using assms(1) that unfolding arriving_def by blast
  qed
  ultimately show ?thesis using wait full assms(2) by (simp add: leaving_def goto_pc_def)
qed

lemma leaving_last:
  assumes "leaving N R b" "0 < N" "p < N" "pcs b p = Clear_Sense"
  shows "arriving N (Suc R) (goto_pc p Wait_Clear (b\<lparr>sense := False\<rparr>))"
proof -
  have one: "num_at N (pcs b) {Clear_Sense} = 1" and none: "count b = 0"
    using assms num_at_pos[of p N "pcs b" "{Clear_Sense}"] by (auto simp: leaving_def split: if_splits)
  then have "num_at N (pcs b) {Wait_Set, Sub} = 0" using assms(1) by (simp add: leaving_def)
  then have out: "\<forall>q<N. pcs b q \<notin> {Wait_Set, Sub}" by (simp only: num_at_none)
  have "num_at N ((pcs b)(p := Wait_Clear)) {Clear_Sense} = 0"
    using one assms(3,4) by (simp add: num_at_upd)
  then have "\<forall>q<N. ((pcs b)(p := Wait_Clear)) q \<notin> {Clear_Sense}" by (simp only: num_at_none)
  then have wait: "((pcs b)(p := Wait_Clear)) q = Wait_Clear" if "q < N" for q
    using out that assms(1) unfolding leaving_def
    by (metis fun_upd_apply insert_iff singletonD)
  have "num_at N ((pcs b)(p := Wait_Clear)) {Set_Sense, Wait_Set} = 0"
    "num_at N ((pcs b)(p := Wait_Clear)) {Set_Sense} = 0"
    using wait by (simp_all add: num_at_none)
  moreover have "\<forall>q<N. rounds b q = R" using assms(1) by (simp add: leaving_def)
  ultimately show ?thesis using wait none assms(2) by (simp add: arriving_def goto_pc_def)
qed


lemma bar_advance_inv:
  assumes "bar_inv N b" "0 < N" "p < N" "bar_advance (int N) p b = Some b'"
  shows "bar_inv N b'"
  using assms(1)
proof (cases rule: bar_inv_cases)
  case (arrive R)
  note A = arrive(2)
  show ?thesis
  proof (cases "pcs b p")
    case Add
    then have "arriving N R b'" using A assms(3,4) num_at_none[of N "pcs b" "{Set_Sense}"]
        num_at_le[of N "(pcs b)(p := Wait_Set)" "{Set_Sense, Wait_Set}"]
      by (auto simp: arriving_def bar_advance_def goto_pc_def Let_def num_at_upd split: if_splits)
    then show ?thesis using arrive(1) assms(4) Add
      by (auto simp: bar_inv_def bar_advance_def goto_pc_def Let_def)
  next
    case Set_Sense
    then show ?thesis using arriving_last[OF A assms(2,3) Set_Sense] assms(4)
      by (auto simp: bar_inv_def bar_advance_def goto_pc_def)
  next
    case Wait_Clear
    then have "arriving N R b'" using A assms(3,4)
      by (auto simp: arriving_def bar_advance_def goto_pc_def num_at_upd split: if_splits)
    then show ?thesis using arrive(1) assms(4) Wait_Clear
      by (auto simp: bar_inv_def bar_advance_def goto_pc_def split: if_splits)
  qed (use arrive assms(3,4) in \<open>auto simp: arriving_def bar_advance_def\<close>)
next
  case (leave R)
  note L = leave(2)
  show ?thesis
  proof (cases "pcs b p")
    case Wait_Set
    then have "leaving N R b'" using L leave(1) assms(3,4)
      by (auto simp: leaving_def bar_advance_def goto_pc_def num_at_upd split: if_splits)
    then show ?thesis using leave(1) assms(4) Wait_Set
      by (auto simp: bar_inv_def bar_advance_def goto_pc_def split: if_splits)
  next
    case Sub
    then have "0 < count b" using L assms(3) num_at_pos[of p N "pcs b" "{Wait_Set, Sub}"]
      by (auto simp: leaving_def)
    then have "leaving N R b'" using L Sub assms(3,4)
      by (auto simp: leaving_def bar_advance_def goto_pc_def Let_def num_at_upd split: if_splits)
    then show ?thesis using leave(1) assms(4) Sub
      by (auto simp: bar_inv_def bar_advance_def goto_pc_def Let_def)
  next
    case Clear_Sense
    then show ?thesis using leaving_last[OF L assms(2,3) Clear_Sense] assms(4)
      by (auto simp: bar_inv_def bar_advance_def goto_pc_def)
  qed (use leave assms(3,4) in \<open>auto simp: leaving_def bar_advance_def\<close>)
qed

section \<open>What a client relies on\<close>

text \<open>
  A process outside of the barrier has left exactly the rounds the others have left or are
  about to leave; a process that has not called the barrier is the only reason to block.
\<close>

lemma bar_separates:
  assumes "bar_inv N b" "p < N" "q < N" "pcs b p = Out"
  shows "rounds b q = rounds b p \<or> Suc (rounds b q) = rounds b p \<and> pcs b q = Wait_Clear"
  using assms(1)
proof (cases rule: bar_inv_cases)
  case (arrive R)
  then show ?thesis using assms(2-4) unfolding arriving_def by (metis bpc.distinct(11))
next
  case (leave R)
  then show ?thesis using assms(2-4) by (auto simp: leaving_def)
qed

lemma bar_progress:
  assumes "bar_inv N b" "0 < N" "p < N" "pcs b p \<noteq> Out"
    and "\<And>q. q < N \<Longrightarrow> bar_advance n q b = None"
  shows "\<exists>q<N. pcs b q = Out \<and> rounds b q = rounds b p"
  using assms(1)
proof (cases rule: bar_inv_cases)
  case (arrive R)
  have free: "pcs b q \<in> {Out, Wait_Set}" if "q < N" for q
    using assms(5)[OF that] arrive(1)
    by (auto simp: bar_advance_def Let_def split: bpc.splits)
  then have "num_at N (pcs b) {Set_Sense} = 0" by (fastforce simp: num_at_none)
  then have "num_at N (pcs b) {Set_Sense, Wait_Set} \<noteq> int N"
    using arrive(2) by (auto simp: arriving_def)
  then obtain q where q: "q < N" "pcs b q \<notin> {Set_Sense, Wait_Set}" using num_at_all by blast
  then have "pcs b q = Out" using free by blast
  moreover have "rounds b r = R" if "r < N" for r
  proof -
    have "pcs b r \<noteq> Wait_Clear" using free[OF that] by auto
    then show ?thesis using arrive(2) that unfolding arriving_def by blast
  qed
  ultimately have "pcs b q = Out \<and> rounds b q = rounds b p" using q(1) assms(3) by simp
  then show ?thesis using q(1) by blast
next
  case (leave R)
  have "pcs b q = Wait_Clear" if "q < N" for q
    using assms(5)[OF that] leave that
    by (auto simp: bar_advance_def leaving_def Let_def split: bpc.splits)
  then have "num_at N (pcs b) {Wait_Set, Sub} = 0" "num_at N (pcs b) {Clear_Sense} = 0"
    by (auto simp: num_at_none)
  then show ?thesis using leave(2) by (simp add: leaving_def)
qed

text \<open>
  The contract: processes \<open>{..<N}\<close>, their rounds, the state \<open>outside\<close> in which a
  process runs its own code, and the \<open>stuck\<close> states in which no process in the barrier moves.
\<close>

locale phase_barrier =
  fixes ok :: "'b \<Rightarrow> bool" and N :: nat and outside :: "'b \<Rightarrow> nat \<Rightarrow> bool"
    and done_rounds :: "'b \<Rightarrow> nat \<Rightarrow> nat" and stuck :: "'b \<Rightarrow> bool"
  assumes sep: "\<lbrakk>ok b; p < N; q < N; outside b p\<rbrakk>
      \<Longrightarrow> done_rounds b q = done_rounds b p \<or> Suc (done_rounds b q) = done_rounds b p \<and> \<not> outside b q"
    and live: "\<lbrakk>ok b; stuck b; p < N; \<not> outside b p\<rbrakk> \<Longrightarrow> \<exists>q<N. outside b q \<and> done_rounds b q = done_rounds b p"
begin

lemma outside_together:
  "\<lbrakk>ok b; p < N; q < N; outside b p; outside b q\<rbrakk> \<Longrightarrow> done_rounds b p = done_rounds b q"
  using sep[of b p q] by auto

lemma never_overtaken:
  "\<lbrakk>ok b; p < N; q < N; outside b p\<rbrakk> \<Longrightarrow> done_rounds b q \<le> done_rounds b p \<and> done_rounds b p \<le> Suc (done_rounds b q)"
  using sep[of b p q] by auto

lemma stuck_waits_for_client:
  assumes "ok b" "stuck b" "p < N"
  shows "\<exists>q<N. outside b q"
  using live[of b p] assms by (cases "outside b p") auto

text \<open>
  A client whose processes all call the barrier \<open>T\<close> times and leave its code only to
  call the barrier cannot get stuck before they are through.
\<close>

lemma no_deadlock:
  assumes "ok b" "stuck b" "\<And>q. q < N \<Longrightarrow> outside b q \<Longrightarrow> done_rounds b q = T"
    and "p < N" "done_rounds b p < T \<or> outside b p"
  shows "done_rounds b p = T"
proof (rule ccontr)
  assume no: "done_rounds b p \<noteq> T"
  then have "\<not> outside b p" using assms(3,4) by blast
  then obtain q where "q < N" "outside b q" "done_rounds b q = done_rounds b p"
    using live assms(1,2,4) by blast
  then show False using assms(3) no by metis
qed

end

interpretation vault_barrier: phase_barrier "bar_inv N" N "\<lambda>b p. pcs b p = Out" rounds
    "\<lambda>b. 0 < N \<and> (\<forall>q<N. bar_advance n q b = None)" for N n
proof unfold_locales
  fix b p q
  assume "bar_inv N b" "p < N" "q < N" "pcs b p = Out"
  then show "rounds b q = rounds b p \<or> Suc (rounds b q) = rounds b p \<and> pcs b q \<noteq> Out"
    using bar_separates[of N b p q] by auto
next
  fix b p
  assume "bar_inv N b" "0 < N \<and> (\<forall>q<N. bar_advance n q b = None)" "p < N" "pcs b p \<noteq> Out"
  then show "\<exists>q<N. pcs b q = Out \<and> rounds b q = rounds b p"
    using bar_progress[of N b p n] by blast
qed

end
