(* ===== verification/Local_Broker.thy ===== *)
theory Local_Broker
  imports Local_Barrier
begin

text \<open>
  \<open>exchange_data\<close> of \<open>src/include/comm/local_broker.cuh\<close>: every process of a node
  writes its block into its slot of the shared vault and reads the blocks of all, between two
  barriers. The processes are executed in any interleaving of their single accesses; a
  schedule is the list of the processes that move.
\<close>

section \<open>The vault\<close>

abbreviation MAX_LOCAL_WORLD_SIZE :: nat where "MAX_LOCAL_WORLD_SIZE \<equiv> 72"
abbreviation VAULT_SIZE_PER_RANK :: nat where "VAULT_SIZE_PER_RANK \<equiv> 64"

definition INIT_CODE :: int where "INIT_CODE = 0x44495354"

text \<open>\<open>memcpy\<close> into and out of the data of the vault.\<close>

definition copy_in :: "nat \<Rightarrow> u8 list \<Rightarrow> u8 list \<Rightarrow> u8 list" where
  "copy_in off bs d = take off d @ bs @ drop (off + length bs) d"

definition copy_out :: "nat \<Rightarrow> nat \<Rightarrow> u8 list \<Rightarrow> u8 list" where
  "copy_out off n d = take n (drop off d)"

lemma length_copy_in [simp]:
  "off + length bs \<le> length d \<Longrightarrow> length (copy_in off bs d) = length d"
  by (simp add: copy_in_def)

lemma copy_out_in_same:
  "off + length bs \<le> length d \<Longrightarrow> copy_out off (length bs) (copy_in off bs d) = bs"
  by (simp add: copy_in_def copy_out_def)

lemma copy_out_in_other:
  assumes "off + length bs \<le> length d" "off' + n \<le> off \<or> off + length bs \<le> off'"
  shows "copy_out off' n (copy_in off bs d) = copy_out off' n d"
  using assms(2)
proof
  assume "off' + n \<le> off"
  then have "take (n + off') (copy_in off bs d) = take (n + off') d"
    using assms(1) by (simp add: copy_in_def min_def)
  then show ?thesis by (simp add: copy_out_def take_drop)
next
  assume after: "off + length bs \<le> off'"
  have "drop off' (copy_in off bs d) = drop off' d"
    using after assms(1) by (simp add: copy_in_def)
  then show ?thesis by (simp add: copy_out_def)
qed

lemma slots_apart:
  "p \<noteq> q \<Longrightarrow> m \<le> VAULT_SIZE_PER_RANK \<Longrightarrow> n \<le> VAULT_SIZE_PER_RANK \<Longrightarrow>
    q * VAULT_SIZE_PER_RANK + n \<le> p * VAULT_SIZE_PER_RANK \<or>
    p * VAULT_SIZE_PER_RANK + m \<le> q * VAULT_SIZE_PER_RANK"
  by (cases p q rule: linorder_cases) auto

section \<open>One process\<close>

text \<open>
  Where a process is in \<open>exchange_data\<close>: in the first \<open>sync\<close>, in front of the copy
  into its slot, in the second \<open>sync\<close>, in front of the copy of slot \<open>i\<close>, or ended by an exception.
\<close>

datatype place = Enter | Write | Leave | Copy nat | Thrown

record xstate =
  vinit :: int
  vbar :: bar
  vdata :: "u8 list"
  place_of :: "nat \<Rightarrow> place"
  calls :: "nat \<Rightarrow> nat"
  buf :: "nat \<Rightarrow> u8 list"
  outs :: "nat \<Rightarrow> u8 list list"

definition goto_place :: "nat \<Rightarrow> place \<Rightarrow> xstate \<Rightarrow> xstate" where
  "goto_place p l s = s\<lparr>place_of := (place_of s)(p := l)\<rparr>"

text \<open>\<open>sync\<close> with its check of the vault; at its end the process goes to \<open>nxt\<close>.\<close>

definition sync_step :: "nat \<Rightarrow> nat \<Rightarrow> place \<Rightarrow> xstate \<Rightarrow> xstate option" where
  "sync_step N p nxt s = (if pcs (vbar s) p = Out
     then if vinit s \<noteq> INIT_CODE then Some (goto_place p Thrown s)
       else map_option (\<lambda>b. s\<lparr>vbar := b\<rparr>) (bar_enter p (vbar s))
     else map_option (\<lambda>b. (if pcs b p = Out then goto_place p nxt else id) (s\<lparr>vbar := b\<rparr>))
       (bar_advance (int N) p (vbar s)))"

text \<open>
  One step of process \<open>p\<close>, which calls \<open>exchange_data\<close> \<open>K\<close> times; in call \<open>k\<close> it
  gives the block \<open>src p k\<close>. \<open>buf\<close> is the part of the destination written so far and
  \<open>outs\<close> are the destinations of the calls that returned.
\<close>

definition exchange_step :: "nat \<Rightarrow> nat \<Rightarrow> (nat \<Rightarrow> nat \<Rightarrow> u8 list) \<Rightarrow> nat \<Rightarrow> xstate \<Rightarrow> xstate option" where
  "exchange_step N K src p s = (let bs = src p (calls s p) in
     case place_of s p of
       Thrown \<Rightarrow> None
     | Enter \<Rightarrow>
         if calls s p \<ge> K then None
         else if length bs > VAULT_SIZE_PER_RANK then Some (goto_place p Thrown s)
         else sync_step N p Write s
     | Write \<Rightarrow> Some (goto_place p Leave (s\<lparr>vdata := copy_in (p * VAULT_SIZE_PER_RANK) bs (vdata s)\<rparr>))
     | Leave \<Rightarrow> sync_step N p (Copy 0) s
     | Copy i \<Rightarrow>
         if i < N then Some (goto_place p (Copy (Suc i)) (s\<lparr>buf := (buf s)(p := buf s p @
             copy_out (i * VAULT_SIZE_PER_RANK) (length bs) (vdata s))\<rparr>))
         else Some (goto_place p Enter (s\<lparr>calls := (calls s)(p := Suc (calls s p)),
             outs := (outs s)(p := outs s p @ [buf s p]), buf := (buf s)(p := [])\<rparr>)))"

text \<open>A schedule; a process that cannot move spins.\<close>

definition exchange_turn :: "nat \<Rightarrow> nat \<Rightarrow> (nat \<Rightarrow> nat \<Rightarrow> u8 list) \<Rightarrow> nat \<Rightarrow> xstate \<Rightarrow> xstate" where
  "exchange_turn N K src p s = (case exchange_step N K src p s of None \<Rightarrow> s | Some s' \<Rightarrow> s')"

definition exchange_run :: "nat \<Rightarrow> nat \<Rightarrow> (nat \<Rightarrow> nat \<Rightarrow> u8 list) \<Rightarrow> nat list \<Rightarrow> xstate \<Rightarrow> xstate" where
  "exchange_run N K src ps s = fold (exchange_turn N K src) ps s"

text \<open>A vault as the constructor leaves it, all processes in front of their first call.\<close>

definition exchange_init :: "u8 list \<Rightarrow> xstate" where
  "exchange_init d = \<lparr>vinit = INIT_CODE, vbar = bar_init, vdata = d, place_of = (\<lambda>_. Enter),
     calls = (\<lambda>_. 0), buf = (\<lambda>_. []), outs = (\<lambda>_. [])\<rparr>"

section \<open>Invariant\<close>

text \<open>What call \<open>k\<close> must deliver to every process.\<close>

definition gathered :: "nat \<Rightarrow> (nat \<Rightarrow> nat \<Rightarrow> u8 list) \<Rightarrow> nat \<Rightarrow> u8 list" where
  "gathered N src k = concat (map (\<lambda>q. src q k) [0..<N])"

definition blocks_ok :: "(nat \<Rightarrow> nat \<Rightarrow> u8 list) \<Rightarrow> bool" where
  "blocks_ok src \<longleftrightarrow> (\<forall>q k. length (src q k) = length (src 0 k) \<and> length (src q k) \<le> VAULT_SIZE_PER_RANK)"

fun syncs_at :: "place \<Rightarrow> nat" where
  "syncs_at Enter = 0"
| "syncs_at Write = 1"
| "syncs_at Leave = 1"
| "syncs_at (Copy i) = 2"
| "syncs_at Thrown = 0"

text \<open>How many blocks a process has put into its slot.\<close>

definition puts :: "xstate \<Rightarrow> nat \<Rightarrow> nat" where
  "puts s q = calls s q + (case place_of s q of Leave \<Rightarrow> 1 | Copy i \<Rightarrow> 1 | _ \<Rightarrow> 0)"

definition process_ok :: "nat \<Rightarrow> nat \<Rightarrow> (nat \<Rightarrow> nat \<Rightarrow> u8 list) \<Rightarrow> xstate \<Rightarrow> nat \<Rightarrow> bool" where
  "process_ok N K src s p \<longleftrightarrow>
     place_of s p \<noteq> Thrown
     \<and> rounds (vbar s) p = 2 * calls s p + syncs_at (place_of s p)
     \<and> calls s p \<le> K \<and> (place_of s p \<noteq> Enter \<or> pcs (vbar s) p \<noteq> Out \<longrightarrow> calls s p < K)
     \<and> (place_of s p = Write \<longrightarrow> pcs (vbar s) p = Out)
     \<and> (\<forall>i. place_of s p = Copy i \<longrightarrow> pcs (vbar s) p = Out \<and> i \<le> N)
     \<and> buf s p = (case place_of s p of Copy i \<Rightarrow> concat (map (\<lambda>q. src q (calls s p)) [0..<i]) | _ \<Rightarrow> [])
     \<and> outs s p = map (gathered N src) [0..<calls s p]
     \<and> (0 < puts s p \<longrightarrow>
          copy_out (p * VAULT_SIZE_PER_RANK) (length (src p (puts s p - 1))) (vdata s) = src p (puts s p - 1))"

definition exchange_inv :: "nat \<Rightarrow> nat \<Rightarrow> (nat \<Rightarrow> nat \<Rightarrow> u8 list) \<Rightarrow> xstate \<Rightarrow> bool" where
  "exchange_inv N K src s \<longleftrightarrow> vinit s = INIT_CODE \<and> bar_inv N (vbar s)
     \<and> length (vdata s) = MAX_LOCAL_WORLD_SIZE * VAULT_SIZE_PER_RANK
     \<and> (\<forall>p<N. process_ok N K src s p)"

lemma exchange_inv_init:
  "0 < N \<Longrightarrow> length d = MAX_LOCAL_WORLD_SIZE * VAULT_SIZE_PER_RANK \<Longrightarrow> exchange_inv N K src (exchange_init d)"
  by (simp add: exchange_inv_def exchange_init_def process_ok_def bar_inv_init puts_def)
     (simp add: bar_init_def)

lemma bar_advance_frame:
  assumes "bar_advance n p b = Some b'"
  shows "q \<noteq> p \<Longrightarrow> pcs b' q = pcs b q" "q \<noteq> p \<Longrightarrow> rounds b' q = rounds b q"
    "rounds b' p = rounds b p + of_bool (pcs b' p = Out)" "pcs b p \<noteq> Out"
  using assms
  by (auto simp: bar_advance_def goto_pc_def Let_def split: bpc.splits if_splits)

lemma bar_enter_frame:
  assumes "bar_enter p b = Some b'"
  shows "pcs b' = (pcs b)(p := Add)" "rounds b' = rounds b" "pcs b p = Out"
  using assms by (auto simp: bar_enter_def goto_pc_def split: if_splits)

text \<open>The step of one process leaves the facts about the others alone.\<close>

lemma process_ok_frame:
  assumes "process_ok N K src s q"
    and "place_of s' q = place_of s q" "calls s' q = calls s q" "buf s' q = buf s q" "outs s' q = outs s q"
    and "pcs (vbar s') q = pcs (vbar s) q" "rounds (vbar s') q = rounds (vbar s) q"
    and "\<And>n. n \<le> VAULT_SIZE_PER_RANK \<Longrightarrow>
      copy_out (q * VAULT_SIZE_PER_RANK) n (vdata s') = copy_out (q * VAULT_SIZE_PER_RANK) n (vdata s)"
    and "blocks_ok src"
  shows "process_ok N K src s' q"
proof -
  have puts: "puts s' q = puts s q" using assms(2,3) by (simp add: puts_def)
  have len: "length (src q k) \<le> VAULT_SIZE_PER_RANK" for k using assms(9) by (simp add: blocks_ok_def)
  show ?thesis using assms(1)
    unfolding process_ok_def puts assms(2-7) assms(8)[OF len] .
qed

lemma sync_step_inv:
  assumes I: "exchange_inv N K src s" and src: "blocks_ok src" and p: "p < N"
    and l: "(place_of s p, nxt) \<in> {(Enter, Write), (Leave, Copy 0)}" and K: "calls s p < K"
    and step: "sync_step N p nxt s = Some s'"
  shows "exchange_inv N K src s'"
proof -
  have B: "bar_inv N (vbar s)" and P: "process_ok N K src s p" using I p by (auto simp: exchange_inv_def)
  have same: "vinit s' = vinit s" "vdata s' = vdata s" "calls s' = calls s" "buf s' = buf s" "outs s' = outs s"
    "\<And>q. q \<noteq> p \<Longrightarrow> place_of s' q = place_of s q"
    using step I
    by (auto simp: sync_step_def goto_place_def exchange_inv_def split: if_splits)
  have "bar_inv N (vbar s') \<and> (\<forall>q. q \<noteq> p \<longrightarrow> pcs (vbar s') q = pcs (vbar s) q \<and> rounds (vbar s') q = rounds (vbar s) q)
    \<and> process_ok N K src s' p"
  proof (cases "pcs (vbar s) p = Out")
    case True
    then obtain b where b: "bar_enter p (vbar s) = Some b" "s' = s\<lparr>vbar := b\<rparr>"
      using step I by (auto simp: sync_step_def exchange_inv_def)
    then show ?thesis using bar_enter_inv[OF B p b(1)] bar_enter_frame[OF b(1)] P l K
      by (auto simp: process_ok_def puts_def)
  next
    case False
    then obtain b where b: "bar_advance (int N) p (vbar s) = Some b"
      "s' = (if pcs b p = Out then goto_place p nxt else id) (s\<lparr>vbar := b\<rparr>)"
      using step by (auto simp: sync_step_def)
    have vb: "vbar s' = b" by (simp add: b(2) goto_place_def)
    have "process_ok N K src s' p" using bar_advance_frame(3)[OF b(1)] P l K
      by (auto simp: b(2) process_ok_def puts_def goto_place_def)
    then show ?thesis using bar_advance_inv[OF B _ p b(1)] bar_advance_frame(1,2)[OF b(1)] p
      by (auto simp: vb)
  qed
  moreover have "process_ok N K src s' q" if "q < N" "q \<noteq> p" for q
  proof (rule process_ok_frame)
    show "process_ok N K src s q" using I that(1) by (simp add: exchange_inv_def)
  qed (use same calculation that src in auto)
  ultimately show ?thesis using I same unfolding exchange_inv_def by metis
qed

text \<open>What a reader finds: the barriers keep the writers of another call away.\<close>

lemma copy_reads_current:
  assumes I: "exchange_inv N K src s" and pq: "p < N" "q < N" and l: "place_of s p = Copy i"
  shows "puts s q = Suc (calls s p)" "place_of s q \<noteq> Write"
proof -
  have B: "bar_inv N (vbar s)" and P: "process_ok N K src s p" and Q: "process_ok N K src s q"
    using I pq by (auto simp: exchange_inv_def)
  have out: "pcs (vbar s) p = Out" and rp: "rounds (vbar s) p = 2 * calls s p + 2"
    using P l by (auto simp: process_ok_def)
  consider "rounds (vbar s) q = 2 * calls s p + 2"
    | "rounds (vbar s) q = 2 * calls s p + 1" "pcs (vbar s) q \<noteq> Out"
    using vault_barrier.sep[OF B pq out] rp by auto
  then have "puts s q = Suc (calls s p) \<and> place_of s q \<noteq> Write"
  proof cases
    case 1
    then have "2 * calls s q + syncs_at (place_of s q) = 2 * calls s p + 2"
      using Q by (simp add: process_ok_def)
    then show ?thesis by (cases "place_of s q"; simp add: puts_def; presburger)
  next
    case 2
    then have "2 * calls s q + syncs_at (place_of s q) = 2 * calls s p + 1" "place_of s q \<noteq> Write"
      using Q by (auto simp: process_ok_def)
    then show ?thesis by (cases "place_of s q"; simp add: puts_def; presburger)
  qed
  then show "puts s q = Suc (calls s p)" "place_of s q \<noteq> Write" by auto
qed

lemma copy_reads_block:
  assumes I: "exchange_inv N K src s" and src: "blocks_ok src" and pq: "p < N" "i < N"
    and l: "place_of s p = Copy i"
  shows "copy_out (i * VAULT_SIZE_PER_RANK) (length (src p (calls s p))) (vdata s) = src i (calls s p)"
proof -
  have "puts s i = Suc (calls s p)" by (rule copy_reads_current(1)[OF I pq l])
  moreover have "process_ok N K src s i" using I pq by (simp add: exchange_inv_def)
  moreover have "length (src p k) = length (src i k)" for k
    using src unfolding blocks_ok_def by metis
  ultimately show ?thesis by (simp add: process_ok_def)
qed

lemma exchange_step_inv:
  assumes I: "exchange_inv N K src s" and src: "blocks_ok src" and N: "N \<le> MAX_LOCAL_WORLD_SIZE" and p: "p < N"
    and step: "exchange_step N K src p s = Some s'"
  shows "exchange_inv N K src s'"
proof -
  have P: "process_ok N K src s p" using I p by (auto simp: exchange_inv_def)
  have len: "length (src q k) \<le> VAULT_SIZE_PER_RANK" for q k using src by (auto simp: blocks_ok_def)
  have fits: "p * VAULT_SIZE_PER_RANK + length (src p (calls s p)) \<le> length (vdata s)"
  proof -
    have "Suc p * VAULT_SIZE_PER_RANK \<le> MAX_LOCAL_WORLD_SIZE * VAULT_SIZE_PER_RANK"
      using N p by (intro mult_le_mono1) simp
    then show ?thesis using I len[of p "calls s p"] by (simp add: exchange_inv_def)
  qed
  note others = process_ok_frame[of N K src s _ s', OF _ _ _ _ _ _ _ _ src]
  show ?thesis
  proof (cases "place_of s p")
    case Enter
    then show ?thesis using step len[of p "calls s p"]
      by (intro sync_step_inv[OF I src p, of Write]) (auto simp: exchange_step_def split: if_splits)
  next
    case Leave
    then show ?thesis using step P
      by (intro sync_step_inv[OF I src p, of "Copy 0"]) (auto simp: exchange_step_def process_ok_def)
  next
    case Write
    then have s': "s' = goto_place p Leave (s\<lparr>vdata := copy_in (p * VAULT_SIZE_PER_RANK) (src p (calls s p)) (vdata s)\<rparr>)"
      using step by (simp add: exchange_step_def)
    have "process_ok N K src s' q" if "q < N" for q
    proof (cases "q = p")
      case True
      then show ?thesis using P Write fits
        by (simp add: s' goto_place_def process_ok_def puts_def copy_out_in_same)
    next
      case False
      show ?thesis
      proof (rule others)
        show "process_ok N K src s q" using I that by (simp add: exchange_inv_def)
        show "copy_out (q * VAULT_SIZE_PER_RANK) n (vdata s') = copy_out (q * VAULT_SIZE_PER_RANK) n (vdata s)"
          if "n \<le> VAULT_SIZE_PER_RANK" for n
          using copy_out_in_other[OF fits slots_apart[of p q "length (src p (calls s p))" n]] False that len
          by (simp add: s' goto_place_def)
      qed (use False in \<open>simp_all add: s' goto_place_def\<close>)
    qed
    then show ?thesis using I fits by (simp add: exchange_inv_def s' goto_place_def)
  next
    case (Copy i)
    have R: "i < N \<Longrightarrow> copy_out (i * VAULT_SIZE_PER_RANK) (length (src p (calls s p))) (vdata s) = src i (calls s p)"
      by (rule copy_reads_block[OF I src p _ Copy])
    have "process_ok N K src s' p" using P Copy R step
      by (auto simp: exchange_step_def goto_place_def process_ok_def puts_def gathered_def split: if_splits)
    moreover have "process_ok N K src s' q" if "q < N" "q \<noteq> p" for q
    proof (rule others)
      show "process_ok N K src s q" using I that by (simp add: exchange_inv_def)
    qed (use that step Copy in \<open>auto simp: exchange_step_def goto_place_def split: if_splits\<close>)
    ultimately show ?thesis using I step Copy
      by (auto simp: exchange_inv_def exchange_step_def goto_place_def split: if_splits)
  next
    case Thrown
    then show ?thesis using step by (simp add: exchange_step_def)
  qed
qed

lemma exchange_turn_inv:
  assumes "exchange_inv N K src s" "blocks_ok src" "N \<le> MAX_LOCAL_WORLD_SIZE" "p < N"
  shows "exchange_inv N K src (exchange_turn N K src p s)"
  using assms exchange_step_inv[OF assms] by (auto simp: exchange_turn_def split: option.split)

lemma exchange_run_inv:
  assumes "exchange_inv N K src s" "blocks_ok src" "N \<le> MAX_LOCAL_WORLD_SIZE" "set ps \<subseteq> {..<N}"
  shows "exchange_inv N K src (exchange_run N K src ps s)"
  using assms(1,4)
  by (induction ps arbitrary: s) (auto simp: exchange_run_def exchange_turn_inv assms(2,3))


section \<open>Progress\<close>

fun bpc_index :: "bpc \<Rightarrow> nat" where
  "bpc_index Out = 0"
| "bpc_index Add = 1"
| "bpc_index Set_Sense = 2"
| "bpc_index Wait_Set = 3"
| "bpc_index Sub = 4"
| "bpc_index Clear_Sense = 5"
| "bpc_index Wait_Clear = 6"

fun place_index :: "place \<Rightarrow> bpc \<Rightarrow> nat" where
  "place_index Enter b = bpc_index b"
| "place_index Write b = 7"
| "place_index Leave b = 8 + bpc_index b"
| "place_index (Copy i) b = 15 + i"
| "place_index Thrown b = 0"

text \<open>How far a process has come, and all of them together.\<close>

definition advance_of :: "nat \<Rightarrow> xstate \<Rightarrow> nat \<Rightarrow> nat" where
  "advance_of N s p = calls s p * (16 + N) + place_index (place_of s p) (pcs (vbar s) p)"

definition advance_all :: "nat \<Rightarrow> xstate \<Rightarrow> nat" where
  "advance_all N s = (\<Sum>p<N. advance_of N s p)"

lemma bar_advance_index:
  "bar_advance n p b = Some b' \<Longrightarrow> bpc_index (pcs b p) < bpc_index (pcs b' p) \<or> pcs b' p = Out"
  by (auto simp: bar_advance_def goto_pc_def Let_def split: bpc.splits if_splits)

lemma bpc_index_le: "bpc_index b \<le> 6"
  by (cases b) auto

lemma sync_step_advance:
  assumes "sync_step N p nxt s = Some s'" "vinit s = INIT_CODE"
    and "(place_of s p, nxt) \<in> {(Enter, Write), (Leave, Copy 0)}"
  shows "advance_of N s p < advance_of N s' p" "q \<noteq> p \<Longrightarrow> advance_of N s' q = advance_of N s q"
proof -
  show "advance_of N s p < advance_of N s' p"
  proof (cases "pcs (vbar s) p = Out")
    case True
    then show ?thesis using assms
      by (auto simp: advance_of_def sync_step_def bar_enter_def goto_pc_def)
  next
    case False
    then obtain b where b: "bar_advance (int N) p (vbar s) = Some b"
      "s' = (if pcs b p = Out then goto_place p nxt else id) (s\<lparr>vbar := b\<rparr>)"
      using assms(1) by (auto simp: sync_step_def)
    show ?thesis using bar_advance_index[OF b(1)] bpc_index_le[of "pcs (vbar s) p"] assms(3)
      by (auto simp: advance_of_def b(2) goto_place_def)
  qed
  show "q \<noteq> p \<Longrightarrow> advance_of N s' q = advance_of N s q"
    using assms(1,2) bar_advance_frame(1)[of "int N" p "vbar s"]
    by (auto simp: advance_of_def sync_step_def goto_place_def bar_enter_def goto_pc_def split: if_splits)
qed

lemma exchange_step_advance:
  assumes I: "exchange_inv N K src s" and src: "blocks_ok src" and p: "p < N"
    and step: "exchange_step N K src p s = Some s'"
  shows "advance_all N s < advance_all N s'"
proof -
  have P: "process_ok N K src s p" and V: "vinit s = INIT_CODE" using I p by (auto simp: exchange_inv_def)
  have "advance_of N s p < advance_of N s' p \<and> (\<forall>q. q \<noteq> p \<longrightarrow> advance_of N s' q = advance_of N s q)"
  proof (cases "place_of s p")
    case Enter
    then have "sync_step N p Write s = Some s'" using step src
      by (auto simp: exchange_step_def blocks_ok_def split: if_splits) (metis not_less)
    then show ?thesis using sync_step_advance[OF _ V, of N p Write s'] Enter by blast
  next
    case Leave
    then have "sync_step N p (Copy 0) s = Some s'" using step by (simp add: exchange_step_def)
    then show ?thesis using sync_step_advance[OF _ V, of N p "Copy 0" s'] Leave by blast
  next
    case (Copy i)
    then show ?thesis using P step
      by (auto simp: advance_of_def exchange_step_def goto_place_def process_ok_def split: if_splits)
  qed (use step in \<open>auto simp: advance_of_def exchange_step_def goto_place_def\<close>)
  then have "advance_of N s p < advance_of N s' p" "advance_of N s q \<le> advance_of N s' q" for q
    by (cases "q = p"; simp)+
  then show ?thesis unfolding advance_all_def using p by (intro sum_strict_mono_ex1) auto
qed

lemma advance_of_bound:
  assumes "exchange_inv N K src s" "p < N"
  shows "advance_of N s p \<le> K * (16 + N)"
proof -
  have P: "process_ok N K src s p" using assms by (simp add: exchange_inv_def)
  show ?thesis
  proof (cases "place_of s p = Enter \<and> pcs (vbar s) p = Out")
    case True
    then show ?thesis using P by (simp add: process_ok_def advance_of_def)
  next
    case False
    then have c: "calls s p < K" using P by (auto simp: process_ok_def)
    have "place_index (place_of s p) (pcs (vbar s) p) \<le> 16 + N"
      using P bpc_index_le[of "pcs (vbar s) p"] by (cases "place_of s p") (auto simp: process_ok_def)
    moreover have "Suc (calls s p) * (16 + N) \<le> K * (16 + N)" using c by (intro mult_le_mono1) simp
    ultimately show ?thesis by (simp add: advance_of_def)
  qed
qed

lemma advance_all_bound:
  assumes "exchange_inv N K src s"
  shows "advance_all N s \<le> N * (K * (16 + N))"
proof -
  have "advance_all N s \<le> (\<Sum>p<N. K * (16 + N))"
    unfolding advance_all_def by (intro sum_mono advance_of_bound[OF assms]) simp
  then show ?thesis by simp
qed

text \<open>The processes get stuck only when all have returned from all their calls.\<close>

lemma exchange_stuck_finished:
  assumes I: "exchange_inv N K src s" and src: "blocks_ok src" and N: "0 < N"
    and stuck: "\<And>q. q < N \<Longrightarrow> exchange_step N K src q s = None" and p: "p < N"
  shows "calls s p = K"
proof -
  have B: "bar_inv N (vbar s)" and V: "vinit s = INIT_CODE" using I by (auto simp: exchange_inv_def)
  have P: "process_ok N K src s q" if "q < N" for q using I that by (auto simp: exchange_inv_def)
  have len: "\<not> VAULT_SIZE_PER_RANK < length (src q k)" for q k using src by (auto simp: blocks_ok_def not_less)
  have at: "place_of s q = Enter \<or> place_of s q = Leave" and blocked: "bar_advance (int N) q (vbar s) = None"
    and through: "pcs (vbar s) q = Out \<Longrightarrow> place_of s q = Enter \<and> calls s q = K" if q: "q < N" for q
  proof -
    show at: "place_of s q = Enter \<or> place_of s q = Leave"
      using stuck[OF q] P[OF q] by (auto simp: exchange_step_def process_ok_def Let_def split: place.splits if_splits)
    have fin: "pcs (vbar s) q = Out \<Longrightarrow> place_of s q = Enter \<and> calls s q = K"
      using stuck[OF q] P[OF q] V at len
      by (auto simp: exchange_step_def sync_step_def bar_enter_def process_ok_def split: if_splits)
    then show "pcs (vbar s) q = Out \<Longrightarrow> place_of s q = Enter \<and> calls s q = K" .
    show "bar_advance (int N) q (vbar s) = None"
      using stuck[OF q] P[OF q] V at len
      by (cases "pcs (vbar s) q = Out")
         (auto simp: exchange_step_def sync_step_def bar_advance_def process_ok_def split: if_splits)
  qed
  have "pcs (vbar s) p = Out"
  proof (rule ccontr)
    assume inside: "pcs (vbar s) p \<noteq> Out"
    obtain q where q: "q < N" "pcs (vbar s) q = Out" "rounds (vbar s) q = rounds (vbar s) p"
      using vault_barrier.live[OF B _ p inside, of "int N"] blocked N by blast
    have "rounds (vbar s) q = 2 * K" using P[OF q(1)] through[OF q(1,2)] by (auto simp: process_ok_def)
    moreover have "rounds (vbar s) p < 2 * K" using P[OF p] at[OF p] inside
      by (auto simp: process_ok_def)
    ultimately show False using q(3) by simp
  qed
  then show ?thesis using through[OF p] by blast
qed

text \<open>A sweep of a schedule, in which every process gets a turn, makes progress until all have finished.\<close>

lemma exchange_turn_mono:
  assumes "exchange_inv N K src s" "blocks_ok src" "p < N"
  shows "exchange_turn N K src p s = s \<or> advance_all N s < advance_all N (exchange_turn N K src p s)"
  using exchange_step_advance[OF assms] by (auto simp: exchange_turn_def split: option.split)

lemma exchange_run_mono:
  assumes "exchange_inv N K src s" "blocks_ok src" "N \<le> MAX_LOCAL_WORLD_SIZE" "set ps \<subseteq> {..<N}"
  shows "(\<forall>p\<in>set ps. exchange_turn N K src p s = s) \<and> exchange_run N K src ps s = s
    \<or> advance_all N s < advance_all N (exchange_run N K src ps s)"
  using assms(1,4)
proof (induction ps arbitrary: s)
  case (Cons p ps)
  let ?s = "exchange_turn N K src p s"
  have I: "exchange_inv N K src ?s" using Cons.prems by (intro exchange_turn_inv assms) auto
  have run: "exchange_run N K src (p # ps) s = exchange_run N K src ps ?s" by (simp add: exchange_run_def)
  have ps: "set ps \<subseteq> {..<N}" using Cons.prems by simp
  show ?case
  proof (cases "?s = s")
    case True
    show ?thesis using Cons.IH[OF Cons.prems(1) ps] unfolding run True by (simp add: True)
  next
    case False
    then have "advance_all N s < advance_all N ?s"
      using exchange_turn_mono[OF Cons.prems(1) assms(2), of p] Cons.prems(2) by auto
    moreover have "advance_all N ?s \<le> advance_all N (exchange_run N K src ps ?s)"
      using Cons.IH[OF I ps] by (metis less_imp_le order_refl)
    ultimately show ?thesis unfolding run by simp
  qed
qed (simp add: exchange_run_def)

lemma exchange_step_moves:
  assumes "exchange_inv N K src s" "blocks_ok src" "p < N" "exchange_turn N K src p s = s"
  shows "exchange_step N K src p s = None"
  using assms(4) exchange_step_advance[OF assms(1-3)] by (auto simp: exchange_turn_def split: option.splits)

lemma exchange_sweeps:
  assumes I: "exchange_inv N K src s" and src: "blocks_ok src" and N: "N \<le> MAX_LOCAL_WORLD_SIZE" "0 < N"
    and sweeps: "\<And>ps. ps \<in> set pss \<Longrightarrow> set ps = {..<N}"
  shows "length pss \<le> advance_all N (exchange_run N K src (concat pss) s)
    \<or> (\<forall>p<N. calls (exchange_run N K src (concat pss) s) p = K)"
  using sweeps
proof (induction pss rule: rev_induct)
  case (snoc ps pss)
  let ?t = "exchange_run N K src (concat pss) s"
  have "set qs \<subseteq> {..<N}" if "qs \<in> set pss" for qs using snoc.prems[of qs] that by simp
  then have "set (concat pss) \<subseteq> {..<N}" unfolding set_concat by (rule UN_least)
  then have T: "exchange_inv N K src ?t" by (rule exchange_run_inv[OF I src N(1)])
  have run: "exchange_run N K src (concat (pss @ [ps])) s = exchange_run N K src ps ?t"
    by (simp add: exchange_run_def)
  have ps: "set ps = {..<N}" using snoc.prems by simp
  have "(\<forall>p\<in>set ps. exchange_turn N K src p ?t = ?t) \<and> exchange_run N K src ps ?t = ?t
    \<or> advance_all N ?t < advance_all N (exchange_run N K src ps ?t)"
    using ps by (intro exchange_run_mono[OF T src N(1)]) simp
  then show ?case
  proof
    assume still: "(\<forall>p\<in>set ps. exchange_turn N K src p ?t = ?t) \<and> exchange_run N K src ps ?t = ?t"
    then have "exchange_step N K src q ?t = None" if "q < N" for q
      using that ps by (intro exchange_step_moves[OF T src]) auto
    then have "calls ?t p = K" if "p < N" for p using that by (intro exchange_stuck_finished[OF T src N(2)])
    then show ?thesis using still run by simp
  next
    assume more: "advance_all N ?t < advance_all N (exchange_run N K src ps ?t)"
    show ?thesis
    proof (cases "\<forall>p<N. calls ?t p = K")
      case True
      have "advance_of N ?t p = K * (16 + N)" if "p < N" for p
      proof -
        have "process_ok N K src ?t p" using T that by (simp add: exchange_inv_def)
        then show ?thesis using True that by (auto simp: process_ok_def advance_of_def)
      qed
      then have "advance_all N ?t = N * (K * (16 + N))" by (simp add: advance_all_def)
      moreover have "exchange_inv N K src (exchange_run N K src ps ?t)"
        using ps by (intro exchange_run_inv[OF T src N(1)]) simp
      ultimately show ?thesis using more advance_all_bound[of N K src "exchange_run N K src ps ?t"] by simp
    next
      case False
      have "length pss \<le> advance_all N ?t \<or> (\<forall>p<N. calls ?t p = K)"
        by (rule snoc.IH) (simp add: snoc.prems)
      then have "length pss \<le> advance_all N ?t" using False by blast
      then show ?thesis using more run by simp
    qed
  qed
qed simp


section \<open>Properties\<close>

text \<open>The argument check of the public \<open>sync\<close>.\<close>

definition sync_ranks :: "int \<Rightarrow> int \<Rightarrow> string + int" where
  "sync_ranks local_world_size num_ranks =
     (if num_ranks = -1 then Inr local_world_size
      else if num_ranks < 0 \<or> local_world_size < num_ranks then Inl ''LocalBroker: Invalid number of ranks''
      else Inr num_ranks)"

text \<open>
  C1 (safety): in any interleaving of the processes of a node that call exchange_data again
  and again, every call that returns has delivered the blocks of all processes of that call in
  rank order, no process is in front of the copy into its slot while another reads slots, and
  none fails the checks of sync.
\<close>

theorem exchange_delivers:
  assumes "blocks_ok src" "0 < N" "N \<le> MAX_LOCAL_WORLD_SIZE"
    and "length d = MAX_LOCAL_WORLD_SIZE * VAULT_SIZE_PER_RANK" "set ps \<subseteq> {..<N}" "p < N" "q < N"
    and "s = exchange_run N K src ps (exchange_init d)"
  shows "outs s p = map (gathered N src) [0..<calls s p]
    \<and> \<not> (place_of s p = Copy i \<and> place_of s q = Write) \<and> place_of s p \<noteq> Thrown"
proof -
  have I: "exchange_inv N K src s"
    using assms by (auto intro!: exchange_run_inv exchange_inv_init)
  then have "outs s p = map (gathered N src) [0..<calls s p] \<and> place_of s p \<noteq> Thrown"
    using assms(6) by (auto simp: exchange_inv_def process_ok_def)
  moreover have "place_of s p = Copy i \<Longrightarrow> place_of s q \<noteq> Write"
    by (rule copy_reads_current(2)[OF I assms(6,7)])
  ultimately show ?thesis by blast
qed

lemma exchange_delivers_witness:
  "outs (exchange_run 2 1 (\<lambda>q k. [of_nat q + 5]) (concat (replicate 20 [0, 1])) (exchange_init (replicate 4608 0))) 1
     = map (gathered 2 (\<lambda>q k. [of_nat q + 5])) [0..<calls (exchange_run 2 1 (\<lambda>q k. [of_nat q + 5])
         (concat (replicate 20 [0, 1])) (exchange_init (replicate 4608 0))) 1]"
  by (rule exchange_delivers[where q = 0 and i = 0, THEN conjunct1]) (auto simp: blocks_ok_def)

text \<open>
  C34 (liveness): when every process gets its turn again and again, all calls of exchange_data
  return; for K calls of N processes N * K * (16 + N) + 1 sweeps are enough.
\<close>

theorem exchange_completes:
  assumes "blocks_ok src" "0 < N" "N \<le> MAX_LOCAL_WORLD_SIZE"
    and "length d = MAX_LOCAL_WORLD_SIZE * VAULT_SIZE_PER_RANK"
    and "\<And>ps. ps \<in> set pss \<Longrightarrow> set ps = {..<N}" "N * (K * (16 + N)) < length pss" "p < N"
  shows "calls (exchange_run N K src (concat pss) (exchange_init d)) p = K"
proof -
  have I: "exchange_inv N K src (exchange_init d)" using assms(2,4) by (rule exchange_inv_init)
  have "set qs \<subseteq> {..<N}" if "qs \<in> set pss" for qs using assms(5)[OF that] by simp
  then have "set (concat pss) \<subseteq> {..<N}" unfolding set_concat by (rule UN_least)
  then have "exchange_inv N K src (exchange_run N K src (concat pss) (exchange_init d))"
    by (rule exchange_run_inv[OF I assms(1,3)])
  then have "\<not> length pss \<le> advance_all N (exchange_run N K src (concat pss) (exchange_init d))"
    using advance_all_bound assms(6) by (metis le_trans not_less)
  then show ?thesis using exchange_sweeps[OF I assms(1,3,2,5)] assms(7) by blast
qed

lemma exchange_completes_witness:
  "calls (exchange_run 2 1 (\<lambda>q k. [of_nat q + 5]) (concat (replicate 37 [0, 1])) (exchange_init (replicate 4608 0))) 1 = 1"
  by (rule exchange_completes) (auto simp: blocks_ok_def)

text \<open>
  Two processes are enough to see what the entry barrier is for: a process that returned and
  calls again waits until the other has read the slots.
\<close>

lemma sync_zero_spins:
  "bar_advance 0 p b = None" if "pcs b p = Wait_Set" "\<not> sense b"
  using that by (simp add: bar_advance_def)

lemma sync_zero_never_arrives:
  assumes "bar_enter 0 bar_init = Some b" "bar_advance 0 0 b = Some b'"
  shows "sync_ranks 8 0 = Inr 0" "pcs b' 0 = Wait_Set" "\<not> sense b'"
  using assms by (auto simp: bar_enter_def bar_init_def goto_pc_def bar_advance_def sync_ranks_def)

end
