(* ===== verification/Broker_Fds.thy ===== *)
theory Broker_Fds
  imports Local_Broker
begin

text \<open>
  The rest of \<open>src/include/comm/local_broker.cuh\<close>: the names of the shared segment and of the
  sockets, the setup of the constructor over the shared-memory name space, and the exchange of
  file descriptors between the processes of a node. A descriptor table maps descriptors to open
  files; the descriptor the kernel picks for a received file is a parameter \<open>fresh\<close>.
\<close>

section \<open>Names\<close>

abbreviation KEY_MAX :: nat where "KEY_MAX \<equiv> 96"

fun decimal :: "nat \<Rightarrow> string" where
  "decimal n = (if n < 10 then [char_of (48 + n)] else decimal (n div 10) @ [char_of (48 + n mod 10)])"

declare decimal.simps [simp del]

text \<open>\<open>snprintf\<close> into a buffer of \<open>m\<close> characters: the text that fits and the full length.\<close>

definition snprintf_to :: "nat \<Rightarrow> string \<Rightarrow> string \<times> nat" where
  "snprintf_to m t = (take (m - 1) t, length t)"

definition broker_keys :: "string option \<Rightarrow> string \<times> string" where
  "broker_keys base = (case base of
      Some (c # cs) \<Rightarrow> (fst (snprintf_to KEY_MAX (''/'' @ (c # cs) @ ''_shm'')),
                        fst (snprintf_to KEY_MAX (''/tmp/'' @ (c # cs) @ ''.sock'')))
    | _ \<Rightarrow> (''/dist_broker_shm'', ''/tmp/dist_broker.sock''))"

definition unique_key :: "string \<Rightarrow> nat \<Rightarrow> string + string" where
  "unique_key key local_rank = (let (t, n) = snprintf_to 64 (key @ decimal local_rank)
     in if n \<ge> 64 then Inl ''LocalBroker: Socket name too long'' else Inr t)"

definition broker_args :: "int \<Rightarrow> int \<Rightarrow> string + unit" where
  "broker_args local_rank local_world_size =
     (if local_rank < 0 then Inl ''LocalBroker: Local rank must be non-negative''
      else if local_rank \<ge> local_world_size then Inl ''LocalBroker: Local rank is greater than local world size''
      else if local_world_size > int MAX_LOCAL_WORLD_SIZE
        then Inl ''LocalBroker: Local world size is greater than MAX_LOCAL_WORLD_SIZE''
      else Inr ())"

fun undecimal :: "nat \<Rightarrow> string \<Rightarrow> nat" where
  "undecimal a [] = a"
| "undecimal a (c # cs) = undecimal (10 * a + (of_char c - 48)) cs"

lemma undecimal_append: "undecimal a (xs @ ys) = undecimal (undecimal a xs) ys"
  by (induction xs arbitrary: a) auto

lemma digit_value: "k < 10 \<Longrightarrow> (of_char (char_of (48 + k :: nat)) :: nat) - 48 = k"
  by simp

lemma undecimal_decimal [simp]: "undecimal 0 (decimal n) = n"
proof (induction n rule: less_induct)
  case (less n)
  show ?case
  proof (cases "n < 10")
    case True
    then show ?thesis by (subst decimal.simps) simp
  next
    case False
    then have "undecimal 0 (decimal (n div 10)) = n div 10" by (intro less.IH) simp
    then show ?thesis using False by (subst decimal.simps) (simp add: undecimal_append)
  qed
qed

lemma decimal_inj: "decimal m = decimal n \<Longrightarrow> m = n"
  by (metis undecimal_decimal)

lemma length_decimal_72: "n < MAX_LOCAL_WORLD_SIZE \<Longrightarrow> length (decimal n) \<le> 2"
  by (subst decimal.simps) (auto simp: decimal.simps[of "n div 10"])

lemma unique_key_simps:
  "length (key @ decimal r) < 64 \<Longrightarrow> unique_key key r = Inr (key @ decimal r)"
  "64 \<le> length (key @ decimal r) \<Longrightarrow> unique_key key r = Inl ''LocalBroker: Socket name too long''"
  by (auto simp: unique_key_def snprintf_to_def)

text \<open>
  With a DIST_BROKER_KEY of at most 51 characters every rank of a node gets a
  socket name, and different ranks get different ones.
\<close>

theorem socket_names_distinct:
  assumes "base \<noteq> []" "length base \<le> 51" "p < MAX_LOCAL_WORLD_SIZE" "q < MAX_LOCAL_WORLD_SIZE"
  shows "\<exists>s. unique_key (snd (broker_keys (Some base))) p = Inr s
    \<and> (unique_key (snd (broker_keys (Some base))) q = Inr s \<longrightarrow> p = q)"
proof -
  have key: "snd (broker_keys (Some base)) = ''/tmp/'' @ base @ ''.sock''"
    using assms(1,2) by (cases base) (auto simp: broker_keys_def snprintf_to_def)
  have ok: "unique_key (snd (broker_keys (Some base))) r = Inr ((''/tmp/'' @ base @ ''.sock'') @ decimal r)"
    if "r < MAX_LOCAL_WORLD_SIZE" for r
    unfolding key using length_decimal_72[OF that] assms(2) by (intro unique_key_simps(1)) simp
  show ?thesis unfolding ok[OF assms(3)] ok[OF assms(4)] by (auto dest: decimal_inj)
qed

lemma socket_names_distinct_witness:
  "\<exists>s. unique_key (snd (broker_keys (Some ''job7''))) 3 = Inr s
    \<and> \<not> (unique_key (snd (broker_keys (Some ''job7''))) 12 = Inr s)"
  using socket_names_distinct[of "''job7''" 3 12] by auto

text \<open>The key buffers take longer names than the sockets: every rank then throws after the segment was set up.\<close>

lemma long_key_no_socket:
  assumes "54 \<le> length base"
  shows "\<exists>e. unique_key (snd (broker_keys (Some base))) p = Inl e"
proof -
  have "64 \<le> length (snd (broker_keys (Some base)))"
    using assms by (cases base) (auto simp: broker_keys_def snprintf_to_def min_def)
  then show ?thesis by (auto simp: unique_key_def snprintf_to_def)
qed


section \<open>Setup of the shared segment\<close>

text \<open>
  Where a process is in the constructor: rank 0 in front of \<open>shm_open\<close>, after it
  reclaimed a stale name, with the zeroed segment \<open>g\<close> mapped; another rank polling the name
  or mapped to \<open>g\<close>; both in the first \<open>sync\<close> on \<open>g\<close>, and past it.
\<close>

datatype setup_place = Opening | Reclaimed | Mapped nat | In_Sync nat | Through nat | Failed

text \<open>
  The entry of the name space under the key, the segments made so far, whether each
  has \<open>INIT_CODE\<close> in \<open>init\<close>, and the places.
\<close>

record shm_setup =
  entry :: "nat option"
  made :: nat
  inited :: "nat \<Rightarrow> bool"
  spot :: "nat \<Rightarrow> setup_place"

definition goto_setup :: "nat \<Rightarrow> setup_place \<Rightarrow> shm_setup \<Rightarrow> shm_setup" where
  "goto_setup p l s = s\<lparr>spot := (spot s)(p := l)\<rparr>"

text \<open>\<open>shm_open\<close> with \<open>O_CREAT | O_EXCL\<close>, \<open>ftruncate\<close> and \<open>mmap\<close> of \<open>create_shm\<close>; the new segment is zero.\<close>

definition create_excl :: "shm_setup \<Rightarrow> (nat \<times> shm_setup) option" where
  "create_excl s = (case entry s of Some g \<Rightarrow> None
     | None \<Rightarrow> Some (made s, s\<lparr>entry := Some (made s), made := Suc (made s), inited := (inited s)(made s := False)\<rparr>))"

definition leader_step :: "nat \<Rightarrow> shm_setup \<Rightarrow> shm_setup option" where
  "leader_step N s = (case spot s 0 of
      Opening \<Rightarrow> (case create_excl s of
          Some (g, s') \<Rightarrow> Some (goto_setup 0 (Mapped g) s')
        | None \<Rightarrow> Some (goto_setup 0 Reclaimed (s\<lparr>entry := None\<rparr>)))
    | Reclaimed \<Rightarrow> (case create_excl s of
          Some (g, s') \<Rightarrow> Some (goto_setup 0 (Mapped g) s')
        | None \<Rightarrow> Some (goto_setup 0 Failed s))
    | Mapped g \<Rightarrow> Some (goto_setup 0 (In_Sync g) (s\<lparr>inited := (inited s)(g := True)\<rparr>))
    | In_Sync g \<Rightarrow> (if \<forall>q<N. spot s q = In_Sync g \<or> spot s q = Through g
        then Some (goto_setup 0 (Through g) (s\<lparr>entry := None\<rparr>)) else None)
    | _ \<Rightarrow> None)"

definition follower_step :: "nat \<Rightarrow> nat \<Rightarrow> shm_setup \<Rightarrow> shm_setup option" where
  "follower_step N p s = (case spot s p of
      Opening \<Rightarrow> (case entry s of Some g \<Rightarrow> Some (goto_setup p (Mapped g) s) | None \<Rightarrow> None)
    | Mapped g \<Rightarrow> (if inited s g then Some (goto_setup p (In_Sync g) s) else None)
    | In_Sync g \<Rightarrow> (if \<forall>q<N. spot s q = In_Sync g \<or> spot s q = Through g
        then Some (goto_setup p (Through g) s) else None)
    | _ \<Rightarrow> None)"

definition setup_turn :: "nat \<Rightarrow> nat \<Rightarrow> shm_setup \<Rightarrow> shm_setup" where
  "setup_turn N p s = (case (if p = 0 then leader_step N s else follower_step N p s) of
     None \<Rightarrow> s | Some s' \<Rightarrow> s')"

definition setup_run :: "nat \<Rightarrow> nat list \<Rightarrow> shm_setup \<Rightarrow> shm_setup" where
  "setup_run N ps s = fold (setup_turn N) ps s"

definition setup_init :: "nat option \<Rightarrow> shm_setup" where
  "setup_init stale = \<lparr>entry = stale, made = (case stale of None \<Rightarrow> 0 | Some g \<Rightarrow> Suc g),
     inited = (\<lambda>g. stale = Some g), spot = (\<lambda>_. Opening)\<rparr>"

text \<open>Without a stale segment all processes meet in segment 0.\<close>

definition setup_inv :: "nat \<Rightarrow> shm_setup \<Rightarrow> bool" where
  "setup_inv N s \<longleftrightarrow>
     (\<forall>p<N. spot s p \<in> {Opening, Mapped 0, In_Sync 0, Through 0})
     \<and> (spot s 0 = Opening \<longrightarrow> entry s = None \<and> made s = 0 \<and> (\<forall>p<N. spot s p = Opening))
     \<and> (spot s 0 = Mapped 0 \<longrightarrow> entry s = Some 0 \<and> \<not> inited s 0
         \<and> (\<forall>p<N. spot s p \<in> {Opening, Mapped 0}))
     \<and> (spot s 0 = In_Sync 0 \<longrightarrow> entry s = Some 0 \<and> inited s 0)
     \<and> ((\<exists>p<N. spot s p = Through 0) \<longrightarrow> (\<forall>p<N. spot s p \<in> {In_Sync 0, Through 0}))"

lemma setup_inv_leader:
  assumes I: "setup_inv N s" and N: "0 < N" and step: "leader_step N s = Some s'"
  shows "setup_inv N s'"
proof (cases "spot s 0")
  case Opening
  then have "s' = goto_setup 0 (Mapped 0) (s\<lparr>entry := Some 0, made := 1, inited := (inited s)(0 := False)\<rparr>)"
    using I step by (auto simp: setup_inv_def leader_step_def create_excl_def)
  then show ?thesis using I Opening by (auto simp: setup_inv_def goto_setup_def)
next
  case (Mapped g)
  then have g: "g = 0" using I N by (auto simp: setup_inv_def)
  then have "s' = goto_setup 0 (In_Sync 0) (s\<lparr>inited := (inited s)(0 := True)\<rparr>)"
    using step Mapped by (simp add: leader_step_def)
  then show ?thesis using I Mapped g by (fastforce simp: setup_inv_def goto_setup_def)
next
  case (In_Sync g)
  then have g: "g = 0" using I N by (auto simp: setup_inv_def)
  then have s': "s' = goto_setup 0 (Through 0) (s\<lparr>entry := None\<rparr>)" "\<forall>q<N. spot s q = In_Sync 0 \<or> spot s q = Through 0"
    using step In_Sync by (auto simp: leader_step_def split: if_splits)
  then show ?thesis by (auto simp: setup_inv_def goto_setup_def)
qed (use I N step in \<open>auto simp: setup_inv_def leader_step_def\<close>)

lemma setup_inv_at:
  "setup_inv N s \<Longrightarrow> p < N \<Longrightarrow> spot s p \<in> {Opening, Mapped 0, In_Sync 0, Through 0}"
  "setup_inv N s \<Longrightarrow> spot s 0 = Opening \<Longrightarrow> p < N \<Longrightarrow> spot s p = Opening"
  "setup_inv N s \<Longrightarrow> spot s 0 = Mapped 0 \<Longrightarrow> \<not> inited s 0"
  unfolding setup_inv_def by blast+

lemma none_through:
  "setup_inv N s \<Longrightarrow> p < N \<Longrightarrow> spot s p \<notin> {In_Sync 0, Through 0} \<Longrightarrow> q < N \<Longrightarrow> spot s q \<noteq> Through 0"
  unfolding setup_inv_def by blast

lemma setup_inv_follower:
  assumes I: "setup_inv N s" and p: "0 < p" "p < N" and step: "follower_step N p s = Some s'"
  shows "setup_inv N s'"
proof (cases "spot s p")
  case Opening
  then obtain g where g: "entry s = Some g" "s' = goto_setup p (Mapped g) s"
    using step by (auto simp: follower_step_def split: option.splits)
  have "\<not> (\<exists>q<N. spot s q = Through 0)" using none_through[OF I p(2)] Opening by auto
  moreover have "g = 0" "spot s 0 \<in> {Mapped 0, In_Sync 0}"
    using I g(1) p calculation by (auto simp: setup_inv_def)
  ultimately show ?thesis using I g p by (auto simp: setup_inv_def goto_setup_def)
next
  case (Mapped g)
  then have s': "s' = goto_setup p (In_Sync g) s" "inited s g"
    using step by (auto simp: follower_step_def split: if_splits)
  have "g = 0" using I Mapped p by (auto simp: setup_inv_def)
  moreover have no: "\<forall>q<N. spot s q \<noteq> Through 0" using none_through[OF I p(2)] Mapped by auto
  moreover have "spot s 0 = In_Sync 0"
  proof -
    have "0 < N" using p by simp
    then have "spot s 0 \<noteq> Through 0" using no by blast
    moreover have "spot s 0 \<noteq> Opening" using setup_inv_at(2)[OF I _ p(2)] Mapped by auto
    moreover have "spot s 0 \<noteq> Mapped 0" using setup_inv_at(3)[OF I] s'(2) \<open>g = 0\<close> by auto
    ultimately show ?thesis using setup_inv_at(1)[OF I \<open>0 < N\<close>] by blast
  qed
  ultimately show ?thesis using I s' p by (simp add: setup_inv_def goto_setup_def) blast
next
  case (In_Sync g)
  then have s': "s' = goto_setup p (Through g) s" "\<forall>q<N. spot s q = In_Sync g \<or> spot s q = Through g"
    using step by (auto simp: follower_step_def split: if_splits)
  have "g = 0" using I In_Sync p by (auto simp: setup_inv_def)
  then show ?thesis using I s' p by (auto simp: setup_inv_def goto_setup_def)
qed (use I p step in \<open>auto simp: setup_inv_def follower_step_def\<close>)


lemma setup_turn_inv:
  assumes "setup_inv N s" "p < N"
  shows "setup_inv N (setup_turn N p s)"
proof (cases "p = 0")
  case True
  then show ?thesis using assms setup_inv_leader[OF assms(1)]
    by (cases "leader_step N s") (simp_all add: setup_turn_def)
next
  case False
  then show ?thesis using assms setup_inv_follower[OF assms(1) _ assms(2)]
    by (cases "follower_step N p s") (simp_all add: setup_turn_def)
qed

lemma setup_run_inv:
  assumes "setup_inv N s" "0 < N" "set ps \<subseteq> {..<N}"
  shows "setup_inv N (setup_run N ps s)"
  using assms(1,3)
proof (induction ps arbitrary: s)
  case (Cons p ps)
  have "setup_inv N (setup_turn N p s)" using Cons.prems by (simp add: setup_turn_inv)
  then show ?case using Cons by (simp add: setup_run_def)
qed (simp add: setup_run_def)

text \<open>
  When no segment is left under the key, all processes that pass the first
  barrier of the constructor have mapped the same segment, no process fails, and the name is
  removed only when all have it mapped.
\<close>

theorem setup_one_segment:
  assumes "0 < N" "set ps \<subseteq> {..<N}" "p < N" "s = setup_run N ps (setup_init None)"
  shows "spot s p \<in> {Opening, Mapped 0, In_Sync 0, Through 0}
    \<and> (spot s p = Through 0 \<longrightarrow> (\<forall>q<N. spot s q \<in> {In_Sync 0, Through 0}))"
proof -
  have "setup_inv N (setup_init None)" by (auto simp: setup_inv_def setup_init_def)
  then have "setup_inv N s" using assms by (simp add: setup_run_inv)
  then show ?thesis using setup_inv_at(1)[of N s p] none_through[of N s _ p] assms(3) by blast
qed

lemma setup_one_segment_witness:
  "spot (setup_run 2 [1, 0, 1, 0, 1, 0] (setup_init None)) 0 \<in> {Opening, Mapped 0, In_Sync 0, Through 0}"
  by (rule setup_one_segment[where ps = "[1, 0, 1, 0, 1, 0]" and N = 2, THEN conjunct1]) simp_all

text \<open>
  With a segment of a run that ended abruptly the ranks can part: rank 1 joins the old
  segment, which still has \<open>INIT_CODE\<close>, and rank 0 waits for it in the new one.
\<close>

lemma stale_segment_parts:
  "spot (setup_run 2 [1, 1, 0, 0, 0] (setup_init (Some 7))) 1 = In_Sync 7"
  "spot (setup_run 2 [1, 1, 0, 0, 0] (setup_init (Some 7))) 0 = In_Sync 8"
  "setup_turn 2 0 (setup_run 2 [1, 1, 0, 0, 0] (setup_init (Some 7))) = setup_run 2 [1, 1, 0, 0, 0] (setup_init (Some 7))"
  by (simp_all add: setup_run_def setup_turn_def setup_init_def leader_step_def follower_step_def
      create_excl_def goto_setup_def)
     (rule exI[of _ "Suc 0"], simp)

section \<open>Exchange of file descriptors\<close>

text \<open>
  A descriptor table and the datagram of \<open>send_fd\<close>: the rank in the payload and the open file in
  the control message. The fields of a failed transfer are not modelled, see \<open>send_fds\<close>.
\<close>

type_synonym 'f fds = "int \<Rightarrow> 'f option"
type_synonym 'f dgram = "int \<times> 'f"

text \<open>Results of \<open>sendmsg\<close> and \<open>recvmsg\<close>; an interrupted call is repeated.\<close>

datatype io = Interrupted | Io_Failed | Io_Done

fun retry_io :: "io list \<Rightarrow> bool" where
  "retry_io [] = False"
| "retry_io (Interrupted # rs) = retry_io rs"
| "retry_io (Io_Failed # rs) = False"
| "retry_io (Io_Done # rs) = True"

definition send_fd :: "'f fds \<Rightarrow> int \<Rightarrow> string \<Rightarrow> nat \<Rightarrow> int \<Rightarrow> io list \<Rightarrow> string + 'f dgram" where
  "send_fd t data_fd dst_key dst_local_rank src_local_rank rs =
     (if \<not> isl (unique_key dst_key dst_local_rank)
      then if retry_io rs then (case t data_fd of
             Some f \<Rightarrow> Inr (src_local_rank, f)
           | None \<Rightarrow> Inl ''LocalBroker: Failed to send FD over socket'')
        else Inl ''LocalBroker: Failed to send FD over socket''
      else Inl ''LocalBroker: dst path too long'')"

text \<open>\<open>recv_fd\<close> on the first datagram: the kernel picks a descriptor for the file.\<close>

definition recv_fd :: "('f fds \<Rightarrow> int) \<Rightarrow> 'f fds \<Rightarrow> 'f dgram \<Rightarrow> int \<times> int \<times> 'f fds" where
  "recv_fd fresh t m = (let fd = fresh t in (fd, fst m, t(fd := Some (snd m))))"

text \<open>
  The receiving loop of \<open>exchange_fds\<close> (lines 497-506 and 520-529). The sender's rank is used as
  an index as it comes; one outside of the array is undefined behaviour, an error of the model.
\<close>

fun collect_fds :: "('f fds \<Rightarrow> int) \<Rightarrow> int \<Rightarrow> 'f dgram list \<Rightarrow> int list \<Rightarrow> 'f fds \<Rightarrow> string + (int list \<times> 'f fds)" where
  "collect_fds fresh me [] dst t = Inr (dst, t)"
| "collect_fds fresh me (m # ms) dst t = (let (fd, src, t') = recv_fd fresh t m in
     if fd < 0 then Inl ''LocalBroker: Failed to receive FD over socket''
     else if src = me then Inl ''LocalBroker: Invalid source rank''
     else if src < 0 \<or> int (length dst) \<le> src then Inl ''out of bounds''
     else collect_fds fresh me ms (dst[nat src := fd]) t')"

text \<open>A list of sends in order; \<open>os\<close> are the results of the system calls for a receiver and a sender.\<close>

fun send_fds :: "(nat \<Rightarrow> int \<Rightarrow> io list) \<Rightarrow> string \<Rightarrow> 'f fds \<Rightarrow> (nat \<times> int \<times> int) list \<Rightarrow> string + (nat \<times> 'f dgram) list" where
  "send_fds os key t [] = Inr []"
| "send_fds os key t ((dst, fd, src) # rest) = and_then (send_fd t fd key dst src (os dst src))
     (\<lambda>m. and_then (send_fds os key t rest) (\<lambda>ms. Inr ((dst, m) # ms)))"

text \<open>Rank 0: collect, send each rank the descriptors of the others, close the own one.\<close>

definition leader_exchange :: "(nat \<Rightarrow> int \<Rightarrow> io list) \<Rightarrow> ('f fds \<Rightarrow> int) \<Rightarrow> string \<Rightarrow> nat \<Rightarrow> int \<Rightarrow> 'f fds \<Rightarrow> 'f dgram list
    \<Rightarrow> string + (int list \<times> 'f fds \<times> (nat \<times> 'f dgram) list)" where
  "leader_exchange os fresh key N data_fd t inbox = (if data_fd < 0 then Inl ''LocalBroker: source fd is negative''
     else and_then (collect_fds fresh 0 (take (N - 1) inbox) ((replicate N (-1))[0 := data_fd]) t)
       (\<lambda>(dst, t'). and_then (send_fds os key t'
            (concat (map (\<lambda>d. map (\<lambda>s. (d, dst ! s, int s)) (filter (\<lambda>s. s \<noteq> d) [0..<N])) [1..<N])))
          (\<lambda>out. Inr (dst[0 := -1], t'(dst ! 0 := None), out))))"

text \<open>Another rank: send the own descriptor to rank 0 and close it, then collect.\<close>

definition follower_send :: "(nat \<Rightarrow> int \<Rightarrow> io list) \<Rightarrow> string \<Rightarrow> nat \<Rightarrow> int \<Rightarrow> 'f fds \<Rightarrow> string + ('f dgram \<times> 'f fds)" where
  "follower_send os key me data_fd t = (if data_fd < 0 then Inl ''LocalBroker: source fd is negative''
     else and_then (send_fd t data_fd key 0 (int me) (os 0 (int me))) (\<lambda>m. Inr (m, t(data_fd := None))))"

definition follower_collect :: "('f fds \<Rightarrow> int) \<Rightarrow> nat \<Rightarrow> nat \<Rightarrow> 'f fds \<Rightarrow> 'f dgram list \<Rightarrow> string + (int list \<times> 'f fds)" where
  "follower_collect fresh N me t inbox = collect_fds fresh (int me) (take (N - 1) inbox) (replicate N (-1)) t"


text \<open>
  The processes of a node together: the descriptors of the other ranks arrive at rank 0 in some
  \<open>order\<close>, the datagrams of rank 0 arrive in the order it sent them.
\<close>

definition exchange_fds :: "(nat \<Rightarrow> int \<Rightarrow> io list) \<Rightarrow> ('f fds \<Rightarrow> int) \<Rightarrow> string \<Rightarrow> nat
    \<Rightarrow> (nat \<Rightarrow> int) \<Rightarrow> (nat \<Rightarrow> 'f fds) \<Rightarrow> nat list \<Rightarrow> string + (int list \<times> 'f fds) list" where
  "exchange_fds os fresh key N fd ts order =
     and_then (all_ok (map (\<lambda>s. follower_send os key s (fd s) (ts s)) order)) (\<lambda>sent.
     and_then (leader_exchange os fresh key N (fd 0) (ts 0) (map fst sent)) (\<lambda>(dst, t, out).
     and_then (all_ok (map (\<lambda>r. follower_collect fresh N r ((ts r)(fd r := None))
         (map snd (filter (\<lambda>m. fst m = r) out))) [1..<N])) (\<lambda>rest.
     Inr ((dst, t) # rest))))"

definition fresh_ok :: "('f fds \<Rightarrow> int) \<Rightarrow> bool" where
  "fresh_ok fresh \<longleftrightarrow> (\<forall>t. finite (dom t) \<longrightarrow> 0 \<le> fresh t \<and> t (fresh t) = None)"

text \<open>What the destination array and the table of rank \<open>me\<close> hold afterwards.\<close>

definition has_files :: "nat \<Rightarrow> (nat \<Rightarrow> 'f) \<Rightarrow> nat \<Rightarrow> int list \<Rightarrow> 'f fds \<Rightarrow> bool" where
  "has_files N f me dst t \<longleftrightarrow> length dst = N \<and> dst ! me = -1
     \<and> (\<forall>s<N. s \<noteq> me \<longrightarrow> 0 \<le> dst ! s \<and> t (dst ! s) = Some (f s))"

lemma collect_fds_collects:
  assumes "fresh_ok fresh" "distinct (map fst ms)" "finite (dom t)"
    and "\<And>s. s \<in> fst ` set ms \<Longrightarrow> 0 \<le> s \<and> s < int (length dst) \<and> s \<noteq> me"
  shows "\<exists>dst' t'. collect_fds fresh me ms dst t = Inr (dst', t') \<and> length dst' = length dst
    \<and> (\<forall>s x. (s, x) \<in> set ms \<longrightarrow> 0 \<le> dst' ! nat s \<and> t' (dst' ! nat s) = Some x
          \<and> t (dst' ! nat s) = None)
    \<and> (\<forall>i. int i \<notin> fst ` set ms \<longrightarrow> dst' ! i = dst ! i)
    \<and> (\<forall>n x. t n = Some x \<longrightarrow> t' n = Some x)"
  using assms(2-4)
proof (induction ms arbitrary: dst t)
  case (Cons m ms)
  obtain s x where m: "m = (s, x)" by (cases m)
  have s: "0 \<le> s" "s < int (length dst)" "s \<noteq> me" using Cons.prems(3)[of s] m by auto
  have new: "0 \<le> fresh t" "t (fresh t) = None" using assms(1) Cons.prems(2) by (auto simp: fresh_ok_def)
  let ?dst = "dst[nat s := fresh t]" and ?t = "t(fresh t := Some x)"
  have prem: "distinct (map fst ms)" "finite (dom ?t)" "s \<in> fst ` set ms \<Longrightarrow> 0 \<le> s \<and> s < int (length ?dst) \<and> s \<noteq> me" for s
    using Cons.prems(1,2) Cons.prems(3)[of s] by simp_all
  obtain dst' t' where IH: "collect_fds fresh me ms ?dst ?t = Inr (dst', t')" "length dst' = length ?dst"
    "\<forall>s x. (s, x) \<in> set ms \<longrightarrow> 0 \<le> dst' ! nat s \<and> t' (dst' ! nat s) = Some x \<and> ?t (dst' ! nat s) = None"
    "\<forall>i. int i \<notin> fst ` set ms \<longrightarrow> dst' ! i = ?dst ! i" "\<forall>n x. ?t n = Some x \<longrightarrow> t' n = Some x"
    using Cons.IH[of ?t ?dst, OF prem] by blast
  have run: "collect_fds fresh me (m # ms) dst t = Inr (dst', t')"
    using IH(1) s new by (simp add: m recv_fd_def Let_def)
  have "s \<notin> fst ` set ms" using Cons.prems(1) by (simp add: m)
  then have ds: "dst' ! nat s = fresh t" using IH(4)[rule_format, of "nat s"] s by simp
  have "t' (fresh t) = Some x" using IH(5) by simp
  then have "0 \<le> dst' ! nat s' \<and> t' (dst' ! nat s') = Some x' \<and> t (dst' ! nat s') = None"
    if "(s', x') \<in> set (m # ms)" for s' x'
    using that IH(3) ds new m by (auto split: if_splits)
  moreover have "dst' ! i = dst ! i" if "int i \<notin> fst ` set (m # ms)" for i
  proof -
    have "nat s \<noteq> i" using that m s by auto
    then show ?thesis using IH(4)[rule_format, of i] that by simp
  qed
  moreover have "t' n = Some y" if "t n = Some y" for n y
    using IH(5)[rule_format, of n y] that new by (cases "n = fresh t") auto
  ultimately show ?case using run IH(2) by auto
qed simp

lemma send_fd_ok:
  "retry_io rs \<Longrightarrow> \<not> isl (unique_key key d) \<Longrightarrow> t fd = Some f \<Longrightarrow> send_fd t fd key d src rs = Inr (src, f)"
  by (simp add: send_fd_def)

lemma send_all_ok:
  assumes "\<And>d fd s. (d, fd, s) \<in> set xs \<Longrightarrow> retry_io (os d s) \<and> \<not> isl (unique_key key d) \<and> t fd = Some (g s)"
  shows "send_fds os key t xs = Inr (map (\<lambda>(d, fd, s). (d, s, g s)) xs)"
  using assms
proof (induction xs)
  case (Cons x xs)
  obtain d fd s where x: "x = (d, fd, s)" by (cases x)
  have "send_fd t fd key d s (os d s) = Inr (s, g s)" using Cons.prems[of d fd s] x by (simp add: send_fd_ok)
  moreover have "send_fds os key t xs = Inr (map (\<lambda>(d, fd, s). (d, s, g s)) xs)"
    by (rule Cons.IH, rule Cons.prems) simp
  ultimately show ?case by (simp add: x)
qed simp

lemma sends_to:
  assumes "r \<in> {1..<N}"
  shows "map snd (filter (\<lambda>m. fst m = r) (concat (map (\<lambda>d. map (\<lambda>s. (d, g s)) (filter (\<lambda>s. s \<noteq> d) [0..<N])) [1..<N])))
    = map g (filter (\<lambda>s. s \<noteq> r) [0..<N])"
proof -
  have one: "concat (map (\<lambda>d. if d = r then h d else []) ds) = h r" if "distinct ds" "r \<in> set ds"
    for h :: "nat \<Rightarrow> (nat \<times> 'b) list" and ds
    using that
  proof (induction ds)
    case (Cons d ds)
    have none: "r \<notin> set ds \<Longrightarrow> concat (map (\<lambda>d. if d = r then h d else []) ds) = []" by auto
    show ?case using Cons none by auto
  qed simp
  have f: "filter (\<lambda>m. fst m = r) (map (\<lambda>s. (d, g s)) xs) = (if d = r then map (\<lambda>s. (d, g s)) xs else [])"
    for d and xs :: "nat list"
    by (induction xs) auto
  have "filter (\<lambda>m. fst m = r) (concat (map (\<lambda>d. map (\<lambda>s. (d, g s)) (filter (\<lambda>s. s \<noteq> d) [0..<N])) [1..<N]))
    = concat (map (\<lambda>d. if d = r then map (\<lambda>s. (d, g s)) (filter (\<lambda>s. s \<noteq> d) [0..<N]) else []) [1..<N])"
    unfolding filter_concat map_map comp_def f ..
  also have "\<dots> = map (\<lambda>s. (r, g s)) (filter (\<lambda>s. s \<noteq> r) [0..<N])"
    by (rule one) (use assms in auto)
  finally show ?thesis by (simp add: comp_def)
qed


lemma has_files_collected:
  assumes fresh: "fresh_ok fresh" "finite (dom t)" and me: "me < N" and base: "length dst = N"
    and ms: "distinct (map fst ms)" "set ms = {(int s, f s) | s. s < N \<and> s \<noteq> me}"
  obtains dst' t' where "collect_fds fresh (int me) ms dst t = Inr (dst', t')" "has_files N f me (dst'[me := -1]) t'"
    "\<And>s. s < N \<Longrightarrow> s \<noteq> me \<Longrightarrow> t (dst' ! s) = None" "dst' ! me = dst ! me" "\<And>n x. t n = Some x \<Longrightarrow> t' n = Some x"
proof -
  have prem: "s \<in> fst ` set ms \<Longrightarrow> 0 \<le> s \<and> s < int (length dst) \<and> s \<noteq> int me" for s
    unfolding ms(2) base by auto
  obtain dst' t' where C: "collect_fds fresh (int me) ms dst t = Inr (dst', t')" "length dst' = length dst"
    "\<forall>s x. (s, x) \<in> set ms \<longrightarrow> 0 \<le> dst' ! nat s \<and> t' (dst' ! nat s) = Some x \<and> t (dst' ! nat s) = None"
    "\<forall>i. int i \<notin> fst ` set ms \<longrightarrow> dst' ! i = dst ! i" "\<forall>n x. t n = Some x \<longrightarrow> t' n = Some x"
    using collect_fds_collects[OF fresh(1) ms(1) fresh(2) prem] by blast
  have "0 \<le> dst' ! s \<and> t' (dst' ! s) = Some (f s) \<and> t (dst' ! s) = None" if "s < N" "s \<noteq> me" for s
    using C(3)[rule_format, of "int s" "f s"] ms(2) that by auto
  moreover have "int me \<notin> fst ` set ms" using ms(2) by auto
  ultimately show thesis using C base me by (intro that[of dst' t']) (auto simp: has_files_def)
qed


text \<open>The datagrams of rank 0, and its part of the exchange.\<close>

definition fd_dgrams :: "nat \<Rightarrow> (nat \<Rightarrow> 'f) \<Rightarrow> (nat \<times> 'f dgram) list" where
  "fd_dgrams N f = concat (map (\<lambda>d. map (\<lambda>s. (d, int s, f s)) (filter (\<lambda>s. s \<noteq> d) [0..<N])) [1..<N])"

lemma leader_exchange_ok:
  assumes fresh: "fresh_ok fresh" "finite (dom t0)" and N: "0 < N" and order: "distinct order" "set order = {1..<N}"
    and io: "\<And>d s. retry_io (os d s)" "\<And>r. r < N \<Longrightarrow> \<not> isl (unique_key key r)"
    and fd: "0 \<le> fd0" "t0 fd0 = Some (f 0)"
  obtains dst t where "leader_exchange os fresh key N fd0 t0 (map (\<lambda>s. (int s, f s)) order) = Inr (dst, t, fd_dgrams N f)"
    "has_files N f 0 dst t" "\<And>n x. t0 n = Some x \<Longrightarrow> n \<noteq> fd0 \<Longrightarrow> t n = Some x"
proof -
  let ?ms = "map (\<lambda>s. (int s, f s)) order"
  have len: "length order = N - 1" using distinct_card[OF order(1)] order(2) by simp
  have D: "distinct (map fst ?ms)" using order(1) by (simp add: comp_def distinct_map inj_on_def)
  have S: "set ?ms = {(int s, f s) | s. s < N \<and> s \<noteq> 0}" using order(2) by fastforce
  have len0: "length ((replicate N (-1))[0 := fd0]) = N" by simp
  obtain dst t where C': "collect_fds fresh (int 0) ?ms ((replicate N (-1))[0 := fd0]) t0 = Inr (dst, t)"
    "has_files N f 0 (dst[0 := -1]) t" "\<And>s. s < N \<Longrightarrow> s \<noteq> 0 \<Longrightarrow> t0 (dst ! s) = None"
    "dst ! 0 = (replicate N (-1))[0 := fd0] ! 0" "\<And>n x. t0 n = Some x \<Longrightarrow> t n = Some x"
    by (rule has_files_collected[OF fresh N len0 D S]) (rule that; assumption)
  then have C: "collect_fds fresh 0 ?ms ((replicate N (-1))[0 := fd0]) t0 = Inr (dst, t)" "dst ! 0 = fd0"
    using N by simp_all
  have open0: "t (dst ! s) = Some (f s)" if "s < N" for s
    using that C(2) C'(2,5) fd by (cases "s = 0") (auto simp: has_files_def)
  let ?sends = "concat (map (\<lambda>d. map (\<lambda>s. (d, dst ! s, int s)) (filter (\<lambda>s. s \<noteq> d) [0..<N])) [1..<N])"
  have "send_fds os key t ?sends = Inr (map (\<lambda>(d, fd, s). (d, s, f (nat s))) ?sends)"
    by (rule send_all_ok) (use open0 io in auto)
  also have "map (\<lambda>(d, fd, s). (d, s, f (nat s))) ?sends = fd_dgrams N f"
    by (simp add: fd_dgrams_def map_concat comp_def)
  finally have "leader_exchange os fresh key N fd0 t0 ?ms = Inr (dst[0 := -1], t(fd0 := None), fd_dgrams N f)"
    unfolding leader_exchange_def using fd(1) len C by (simp add: not_less)
  moreover have "dst ! s \<noteq> fd0" if "s < N" "s \<noteq> 0" for s
    using C'(3)[OF that] fd(2) by auto
  then have "has_files N f 0 (dst[0 := -1]) (t(fd0 := None))"
    using C'(2) by (simp add: has_files_def)
  ultimately show thesis using C'(5) by (intro that[of "dst[0 := -1]" "t(fd0 := None)"]) auto
qed

lemma follower_collect_ok:
  assumes fresh: "fresh_ok fresh" "finite (dom t0)" and r: "r \<in> {1..<N}"
  obtains dst t where "follower_collect fresh N r t0 (map snd (filter (\<lambda>m. fst m = r) (fd_dgrams N f))) = Inr (dst, t)"
    "has_files N f r dst t" "\<And>n x. t0 n = Some x \<Longrightarrow> t n = Some x"
proof -
  let ?qs = "map (\<lambda>s. (int s, f s)) (filter (\<lambda>s. s \<noteq> r) [0..<N])"
  have "length ?qs = card {s. s < N \<and> s \<noteq> r}"
    by (simp add: length_filter_conv_card) (rule arg_cong[where f = card], auto)
  also have "{s. s < N \<and> s \<noteq> r} = {..<N} - {r}" by auto
  finally have q: "length ?qs = N - 1" using r by simp
  have D: "distinct (map fst ?qs)" by (simp add: comp_def distinct_map inj_on_def)
  have S: "set ?qs = {(int s, f s) | s. s < N \<and> s \<noteq> r}" by auto
  obtain dst t where F: "collect_fds fresh (int r) ?qs (replicate N (-1)) t0 = Inr (dst, t)"
    "has_files N f r (dst[r := -1]) t" "dst ! r = replicate N (-1) ! r" "\<And>n x. t0 n = Some x \<Longrightarrow> t n = Some x"
    by (rule has_files_collected[OF fresh _ _ D S, where dst = "replicate N (-1)"]) (use r in auto)
  have "dst[r := -1] = dst" using F(3) r by (metis atLeastLessThan_iff list_update_id nth_replicate)
  moreover have "map snd (filter (\<lambda>m. fst m = r) (fd_dgrams N f)) = ?qs"
    unfolding fd_dgrams_def by (rule sends_to[OF r])
  ultimately show thesis using F q by (intro that[of dst t]) (auto simp: follower_collect_def)
qed

text \<open>
  Exchange_fds gives every rank a descriptor for the file of every other rank
  at that rank's index and -1 at its own, in whatever order the descriptors reach rank 0; the
  files that were open under other numbers stay open.
\<close>

theorem exchange_fds_delivers:
  assumes "fresh_ok fresh" "0 < N" "distinct order" "set order = {1..<N}"
    and "\<And>d s. retry_io (os d s)" "\<And>r. r < N \<Longrightarrow> \<not> isl (unique_key key r)"
    and "\<And>s. s < N \<Longrightarrow> 0 \<le> fd s \<and> ts s (fd s) = Some (f s)" "r < N"
    and "\<And>s. s < N \<Longrightarrow> finite (dom (ts s))"
  shows "\<exists>res. exchange_fds os fresh key N fd ts order = Inr res \<and> length res = N
    \<and> has_files N f r (fst (res ! r)) (snd (res ! r))
    \<and> (ts r n = Some x \<and> n \<noteq> fd r \<longrightarrow> snd (res ! r) n = Some x)"
proof -
  have sent: "all_ok (map (\<lambda>s. follower_send os key s (fd s) (ts s)) order)
    = Inr (map (\<lambda>s. ((int s, f s), (ts s)(fd s := None))) order)"
    unfolding all_ok_Inr_iff using assms(2,4-7) by (simp add: follower_send_def send_fd_ok not_less)
  obtain dst t where L: "leader_exchange os fresh key N (fd 0) (ts 0) (map (\<lambda>s. (int s, f s)) order) = Inr (dst, t, fd_dgrams N f)"
    "has_files N f 0 dst t" "\<And>n x. ts 0 n = Some x \<Longrightarrow> n \<noteq> fd 0 \<Longrightarrow> t n = Some x"
    by (rule leader_exchange_ok[of fresh "ts 0" N order os key "fd 0" f]) (use assms in auto)
  define h where "h r = follower_collect fresh N r ((ts r)(fd r := None))
    (map snd (filter (\<lambda>m. fst m = r) (fd_dgrams N f)))" for r
  have H: "\<exists>dst t. h r = Inr (dst, t) \<and> has_files N f r dst t \<and> (\<forall>n x. ts r n = Some x \<longrightarrow> n \<noteq> fd r \<longrightarrow> t n = Some x)"
    if r: "r \<in> {1..<N}" for r
  proof -
    have "finite (dom ((ts r)(fd r := None)))" using assms(9) r by simp
    then obtain dst t where "h r = Inr (dst, t)" "has_files N f r dst t"
      "\<And>n x. ((ts r)(fd r := None)) n = Some x \<Longrightarrow> t n = Some x"
      unfolding h_def by (rule follower_collect_ok[OF assms(1) _ r, where f = f])
        (rule that[unfolded h_def]; assumption)
    then show ?thesis by auto
  qed
  then have "\<exists>y. h r = Inr y" if "r \<in> set [1..<N]" for r using that by fastforce
  then obtain ys where ys: "all_ok (map h [1..<N]) = Inr ys" using all_ok_map_Inr by blast
  then have len: "length ys = N - 1" unfolding all_ok_Inr_iff by (metis length_map length_upt)
  have res: "exchange_fds os fresh key N fd ts order = Inr ((dst, t) # ys)"
    unfolding exchange_fds_def sent using L(1) ys[unfolded h_def] by (simp add: comp_def)
  have "has_files N f r (fst (((dst, t) # ys) ! r)) (snd (((dst, t) # ys) ! r))
    \<and> (ts r n = Some x \<and> n \<noteq> fd r \<longrightarrow> snd (((dst, t) # ys) ! r) n = Some x)"
  proof (cases r)
    case (Suc k)
    have "map Inr ys ! k = map h [1..<N] ! k" using ys unfolding all_ok_Inr_iff by simp
    then have "h r = Inr (ys ! k)" using Suc assms(8) len by simp
    then show ?thesis using H[of r] Suc assms(8) by auto
  qed (use L in auto)
  then show ?thesis using res len assms(2) by auto
qed


text \<open>POSIX picks the lowest number that is free.\<close>

definition lowest_free :: "'f fds \<Rightarrow> int" where
  "lowest_free t = int (LEAST n. t (int n) = None)"

lemma lowest_free_ok: "fresh_ok lowest_free"
  unfolding fresh_ok_def
proof (intro allI impI)
  fix t :: "'a fds"
  assume fin: "finite (dom t)"
  have "\<exists>n. t (int n) = None"
  proof (rule ccontr)
    assume "\<nexists>n. t (int n) = None"
    then have "range int \<subseteq> dom t" by auto
    then show False using fin by (metis finite_subset finite_imageD inj_of_nat infinite_UNIV_nat)
  qed
  then have "t (int (LEAST n. t (int n) = None)) = None" by (rule LeastI_ex)
  then show "0 \<le> lowest_free t \<and> t (lowest_free t) = None" by (simp add: lowest_free_def)
qed

lemma exchange_fds_delivers_witness:
  "\<exists>res. exchange_fds (\<lambda>_ _. [Interrupted, Io_Done]) lowest_free ''/tmp/k'' 3 (\<lambda>s. 5)
      (\<lambda>s. [5 \<mapsto> ''file'' @ decimal s, 0 \<mapsto> ''tty'']) [2, 1] = Inr res \<and> length res = 3
    \<and> has_files 3 (\<lambda>s. ''file'' @ decimal s) 2 (fst (res ! 2)) (snd (res ! 2))
    \<and> snd (res ! 2) 0 = Some ''tty''"
proof -
  have names: "\<not> isl (unique_key ''/tmp/k'' r)" if "r < 3" for r
    using that length_decimal_72[of r] by (subst unique_key_simps(1)) auto
  have "\<exists>res. exchange_fds (\<lambda>_ _. [Interrupted, Io_Done]) lowest_free ''/tmp/k'' 3 (\<lambda>s. 5)
      (\<lambda>s. [5 \<mapsto> ''file'' @ decimal s, 0 \<mapsto> ''tty'']) [2, 1] = Inr res \<and> length res = 3
    \<and> has_files 3 (\<lambda>s. ''file'' @ decimal s) 2 (fst (res ! 2)) (snd (res ! 2))
    \<and> ([5 \<mapsto> ''file'' @ decimal 2, 0 \<mapsto> ''tty''] (0 :: int) = Some ''tty'' \<and> 0 \<noteq> (5 :: int) \<longrightarrow> snd (res ! 2) 0 = Some ''tty'')"
    by (rule exchange_fds_delivers[where r = 2 and n = 0 and fd = "\<lambda>s. 5"
          and ts = "\<lambda>s. [5 \<mapsto> ''file'' @ decimal s, 0 \<mapsto> ''tty'']"])
       (use names in \<open>auto simp: lowest_free_ok\<close>)
  then show ?thesis by simp
qed

definition broadcast_src_ok :: "int \<Rightarrow> int \<Rightarrow> string + unit" where
  "broadcast_src_ok N src = (if src < 0 \<or> N \<le> src then Inl ''LocalBroker: Invalid source rank'' else Inr ())"

text \<open>\<open>broadcast_fd\<close>: the source sends its descriptor to the others and closes it.\<close>

definition broadcast_send :: "(nat \<Rightarrow> int \<Rightarrow> io list) \<Rightarrow> string \<Rightarrow> nat \<Rightarrow> nat \<Rightarrow> int \<Rightarrow> 'f fds
    \<Rightarrow> string + ((nat \<times> 'f dgram) list \<times> 'f fds)" where
  "broadcast_send os key N src data_fd t = and_then (broadcast_src_ok (int N) (int src)) (\<lambda>_.
     if data_fd < 0 then Inl ''LocalBroker: Source rank has invalid FD''
     else and_then (send_fds os key t (map (\<lambda>d. (d, data_fd, int src)) (filter (\<lambda>d. d \<noteq> src) [0..<N])))
       (\<lambda>out. Inr (out, t(data_fd := None))))"

definition broadcast_recv :: "('f fds \<Rightarrow> int) \<Rightarrow> nat \<Rightarrow> 'f fds \<Rightarrow> 'f dgram \<Rightarrow> string + (int \<times> 'f fds)" where
  "broadcast_recv fresh src t m = (let (fd, s, t') = recv_fd fresh t m in
     if fd < 0 then Inl ''LocalBroker: Failed to receive valid FD over socket''
     else if s \<noteq> int src then Inl ''LocalBroker: Invalid source rank''
     else Inr (fd, t'))"

lemma broadcast_delivers:
  assumes "fresh_ok fresh" "finite (dom td)" "src < N" "\<And>d s. retry_io (os d s)" "\<And>r. r < N \<Longrightarrow> \<not> isl (unique_key key r)"
    and "0 \<le> fd" "t fd = Some f" "d < N" "d \<noteq> src"
  shows "\<exists>out t'. broadcast_send os key N src fd t = Inr (out, t') \<and> filter (\<lambda>m. fst m = d) out = [(d, int src, f)]
    \<and> broadcast_recv fresh src td (int src, f) = Inr (fresh td, td(fresh td := Some f))"
proof -
  have "send_fds os key t (map (\<lambda>d. (d, fd, int src)) (filter (\<lambda>d. d \<noteq> src) [0..<N]))
    = Inr (map (\<lambda>(d, fd, s). (d, s, f)) (map (\<lambda>d. (d, fd, int src)) (filter (\<lambda>d. d \<noteq> src) [0..<N])))"
    by (rule send_all_ok) (use assms in auto)
  then have "broadcast_send os key N src fd t =
      Inr (map (\<lambda>d. (d, int src, f)) (filter (\<lambda>d. d \<noteq> src) [0..<N]), t(fd := None))"
    using assms(3,6) by (simp add: broadcast_send_def broadcast_src_ok_def comp_def)
  moreover have "filter (\<lambda>m. fst m = d) (map (\<lambda>d. (d, int src, f)) (filter (\<lambda>d. d \<noteq> src) [0..<N])) = [(d, int src, f)]"
  proof -
    have "filter (\<lambda>m. fst m = d) (map (\<lambda>d. (d, int src, f)) xs) = (if d \<in> set xs then [(d, int src, f)] else [])"
      if "distinct xs" for xs
      using that by (induction xs) auto
    then show ?thesis using assms(8,9) by simp
  qed
  moreover have "broadcast_recv fresh src td (int src, f) = Inr (fresh td, td(fresh td := Some f))"
    using assms(1,2) by (simp add: broadcast_recv_def recv_fd_def fresh_ok_def Let_def not_less)
  ultimately show ?thesis by blast
qed

section \<open>Moving and destroying a broker\<close>

text \<open>The members of \<open>LocalBroker\<close>; \<open>None\<close> is a key buffer that was not written.\<close>

record broker =
  shm_key :: "string option"
  sock_key :: "string option"
  b_rank :: int
  b_world :: int
  b_shm :: "nat option"
  b_sock :: "int option"

text \<open>Effects of \<open>destroy\<close>: the mapping dropped, the path removed, the socket closed.\<close>

datatype effect = Unmap nat | Unlink "string option" int | Close int

definition moved_from :: "broker \<Rightarrow> broker" where
  "moved_from b = b\<lparr>b_rank := -1, b_world := -1, b_shm := None, b_sock := None\<rparr>"

definition move_construct :: "broker \<Rightarrow> broker \<times> broker" where
  "move_construct b = (\<lparr>shm_key = None, sock_key = None, b_rank = b_rank b, b_world = b_world b,
     b_shm = b_shm b, b_sock = b_sock b\<rparr>, moved_from b)"

definition destroy :: "broker \<Rightarrow> effect list \<times> broker" where
  "destroy b = ((case b_shm b of Some g \<Rightarrow> [Unmap g] | None \<Rightarrow> [])
      @ (case b_sock b of Some fd \<Rightarrow> [Unlink (sock_key b) (b_rank b), Close fd] | None \<Rightarrow> []),
    moved_from b)"

definition move_assign :: "broker \<Rightarrow> broker \<Rightarrow> effect list \<times> broker \<times> broker" where
  "move_assign a b = (let (es, a') = destroy a in
     (es, a'\<lparr>b_rank := b_rank b, b_world := b_world b, b_shm := b_shm b, b_sock := b_sock b\<rparr>, moved_from b))"

lemma destroy_once: "fst (destroy (snd (destroy b))) = []" "fst (destroy (snd (move_construct b))) = []"
  by (simp_all add: destroy_def moved_from_def move_construct_def)

text \<open>The keys do not move along: the path a moved broker removes is not the one it bound.\<close>

lemma moved_unlinks_garbage:
  "b_sock b = Some fd \<Longrightarrow> Unlink None (b_rank b) \<in> set (fst (destroy (fst (move_construct b))))"
  by (simp add: destroy_def move_construct_def)

end
