(* ===== verification/Tile_Schedule.thy ===== *)
theory Tile_Schedule
  imports MKernel_Prelude
begin

text \<open>
  The index arithmetic the operators share: strided loops of thread blocks, the orders in which
  the tiles of the output are visited and their grouping into chunks
  (\<open>src/include/operators/gemm_ar/gemm_ar.cuh\<close>, first part). Sizes and ids are C
  \<open>int\<close>s; the products stay far below \<open>2^31\<close> for the shapes the kernels take.
\<close>

named_theorems tile_simps "unfolding of index computations"

section \<open>Strided loops\<close>

text \<open>\<open>for (i = start; i < total; i += stride)\<close>; a stride that is not positive would not end.\<close>

function strided :: "int \<Rightarrow> int \<Rightarrow> int \<Rightarrow> int list" where
  "strided i n T = (if i < T \<and> 0 < n then i # strided (i + n) n T else [])"
  by auto
termination by (relation "measure (\<lambda>(i, n, T). nat (T - i))") auto

declare strided.simps [simp del]

lemma in_strided: "0 < n \<Longrightarrow> x \<in> set (strided i n T) \<longleftrightarrow> i \<le> x \<and> x < T \<and> n dvd (x - i)"
proof (induction i n T rule: strided.induct)
  case (1 i n T)
  show ?case
  proof (cases "i < T")
    case True
    have "x = i \<or> (i + n \<le> x \<and> x < T \<and> n dvd (x - (i + n))) \<longleftrightarrow> i \<le> x \<and> x < T \<and> n dvd (x - i)"
    proof -
      have "n dvd (x - (i + n)) \<longleftrightarrow> n dvd (x - i)" 
        using dvd_add_triv_right_iff[of n "x - (i + n)"] by (simp add: algebra_simps)
      moreover have "i < x \<Longrightarrow> n dvd (x - i) \<Longrightarrow> i + n \<le> x" using zdvd_imp_le[of n "x - i"] by simp
      ultimately show ?thesis using True 1(2) by auto
    qed
    then show ?thesis using 1 True by (subst strided.simps) simp
  next
    case False
    then show ?thesis by (subst strided.simps) auto
  qed
qed

lemma distinct_strided: "0 < n \<Longrightarrow> distinct (strided i n T)"
proof (induction i n T rule: strided.induct)
  case (1 i n T)
  then show ?case by (subst strided.simps) (auto simp: in_strided)
qed

lemma in_strided_mod:
  assumes "0 < n" "0 \<le> b" "b < n"
  shows "x \<in> set (strided b n T) \<longleftrightarrow> 0 \<le> x \<and> x < T \<and> x mod n = b"
proof -
  have "n dvd (x - b) \<longleftrightarrow> x mod n = b"
    using assms by (metis mod_eq_dvd_iff mod_pos_pos_trivial)
  moreover have "x mod n = b \<Longrightarrow> 0 \<le> x \<Longrightarrow> b \<le> x" using assms by (metis zmod_le_nonneg_dividend)
  ultimately show ?thesis using assms by (auto simp: in_strided)
qed

text \<open>The blocks \<open>0 \<dots> n - 1\<close> of a role share out the work items: each item has one block.\<close>

lemma strided_partition:
  assumes "0 < n" "0 \<le> x" "x < T"
  shows "\<exists>!b. b \<in> {0..<n} \<and> x \<in> set (strided b n T)"
  using assms by (intro ex1I[of _ "x mod n"]) (auto simp: in_strided_mod)

lemma length_strided:
  "0 < n \<Longrightarrow> int (length (strided i n T)) = (if i < T then 1 + (T - 1 - i) div n else 0)"
proof (induction i n T rule: strided.induct)
  case (1 i n T)
  show ?case
  proof (cases "i < T")
    case True
    have "int (length (strided i n T)) = 1 + int (length (strided (i + n) n T))"
      using True 1(2) by (subst strided.simps) simp
    also have "\<dots> = 1 + (T - 1 - i) div n"
    proof (cases "i + n < T")
      case True
      have "T - 1 - i = (T - 1 - (i + n)) + 1 * n" by simp
      then have "(T - 1 - i) div n = (T - 1 - (i + n)) div n + 1"
        using 1(2) by (simp only: div_mult_self1)
      then show ?thesis using 1 True by simp
    next
      case False
      then have "(T - 1 - i) div n = 0" using True by (intro div_pos_pos_trivial) auto
      then show ?thesis using False by (subst strided.simps) simp
    qed
    finally show ?thesis using True by simp
  next
    case False
    then show ?thesis by (subst strided.simps) simp
  qed
qed

section \<open>Mixed radix\<close>

lemma radix_div [simp]: "0 \<le> b \<Longrightarrow> b < (B::int) \<Longrightarrow> (a * B + b) div B = a"
  by simp

lemma radix_mod [simp]: "0 \<le> b \<Longrightarrow> b < (B::int) \<Longrightarrow> (a * B + b) mod B = b"
  by simp

lemma radix_less:
  fixes a b :: int
  assumes "a < A" "b < B" "0 \<le> B"
  shows "a * B + b < A * B"
proof -
  have "(a + 1) * B \<le> A * B" using assms by (intro mult_right_mono) auto
  then show ?thesis using assms by (simp add: algebra_simps)
qed

lemma div_less_radix: "0 \<le> (t::int) \<Longrightarrow> t < A * B \<Longrightarrow> 0 < B \<Longrightarrow> t div B < A"
  by (rule div_less_of_mult)

lemma bij_of_left_inverse:
  assumes "finite T" "f ` A \<subseteq> T" "\<And>a. a \<in> A \<Longrightarrow> g (f a) = a" "card A = card T"
  shows "bij_betw f A T"
proof -
  have inj: "inj_on f A" using assms(3) by (rule inj_on_inverseI)
  then have "card (f ` A) = card T" using assms(4) by (simp add: card_image)
  then have "f ` A = T" using card_subset_eq[OF assms(1,2)] by simp
  then show ?thesis using inj by (simp add: bij_betw_def)
qed

section \<open>Visit orders\<close>

text \<open>Task ids to the (row block, column block) of a tile (gemm_ar.cuh:74-168).\<close>

definition slice_row_major_decode :: "int \<Rightarrow> int \<Rightarrow> int \<Rightarrow> int \<times> int" where
  "slice_row_major_decode task_id row_blocks_per_slice col_blocks = (let
     tiles_per_slice = row_blocks_per_slice * col_blocks;
     slice_idx = c_div task_id tiles_per_slice;
     local_idx = task_id - slice_idx * tiles_per_slice;
     rb_in_slice = c_div local_idx col_blocks;
     col_idx = local_idx - rb_in_slice * col_blocks
   in (slice_idx * row_blocks_per_slice + rb_in_slice, col_idx))"

definition slice_interleaved_slices_decode :: "int \<Rightarrow> int \<Rightarrow> int \<Rightarrow> int \<Rightarrow> int \<times> int" where
  "slice_interleaved_slices_decode task_id row_blocks_per_slice col_blocks num_slices = (let
     tiles_per_round = num_slices * col_blocks;
     round_idx = c_div task_id tiles_per_round;
     within_round = task_id - round_idx * tiles_per_round;
     slice_idx = c_div within_round col_blocks;
     col_idx = within_round - slice_idx * col_blocks
   in (slice_idx * row_blocks_per_slice + round_idx, col_idx))"

definition slice_interleaved_devrel_decode :: "int \<Rightarrow> int \<Rightarrow> int \<Rightarrow> int \<Rightarrow> int \<Rightarrow> int \<times> int" where
  "slice_interleaved_devrel_decode task_id row_blocks_per_slice col_blocks num_slices dev_idx = (let
     tiles_per_round = num_slices * col_blocks;
     round_idx = c_div task_id tiles_per_round;
     within_round = task_id - round_idx * tiles_per_round;
     raw_slice = c_div within_round col_blocks;
     slice_idx = c_mod (raw_slice + dev_idx) num_slices;
     col_idx = within_round - raw_slice * col_blocks
   in (slice_idx * row_blocks_per_slice + round_idx, col_idx))"

definition slice_super_m_decode :: "int \<Rightarrow> int \<Rightarrow> int \<Rightarrow> int \<Rightarrow> int \<times> int" where
  "slice_super_m_decode task_id row_blocks_per_slice col_blocks super_m = (let
     tiles_per_slice = row_blocks_per_slice * col_blocks;
     slice_idx = c_div task_id tiles_per_slice;
     local_idx = task_id - slice_idx * tiles_per_slice;
     super_rows = c_div row_blocks_per_slice super_m * super_m;
     super_blocks = super_m * col_blocks
   in if local_idx < super_rows * col_blocks then (let
       band = c_div local_idx super_blocks;
       in_band = local_idx - band * super_blocks;
       rb_in_band = c_mod in_band super_m;
       col_idx = c_div in_band super_m
     in (slice_idx * row_blocks_per_slice + band * super_m + rb_in_band, col_idx))
   else (let
       tail_rows = row_blocks_per_slice - super_rows;
       tail_idx = local_idx - super_rows * col_blocks;
       rb_in_tail = c_mod tail_idx tail_rows;
       col_idx = c_div tail_idx tail_rows
     in (slice_idx * row_blocks_per_slice + super_rows + rb_in_tail, col_idx)))"

definition tiles_of :: "int \<Rightarrow> int \<Rightarrow> int \<Rightarrow> (int \<times> int) set" where
  "tiles_of S R C = {0..<S * R} \<times> {0..<C}"

lemma card_tiles_of: "0 \<le> S \<Longrightarrow> 0 \<le> R \<Longrightarrow> card (tiles_of S R C) = card {0..<S * R * C}"
  by (simp add: tiles_of_def nat_mult_distrib)

lemma finite_tiles_of [simp]: "finite (tiles_of S R C)"
  by (simp add: tiles_of_def)

lemma in_tiles_of: "(q * R + r, c) \<in> tiles_of S R C" if "0 \<le> q" "q < S" "0 \<le> r" "r < R" "0 \<le> c" "c < C"
  using that radix_less[of q S r R] by (simp add: tiles_of_def)

text \<open>The parts of a task id in the base of two inner sizes.\<close>

lemma task_parts:
  fixes t :: int
  assumes "0 \<le> t" "t < A * (B * C)" "0 < B" "0 < C"
  obtains a b c where "t = a * (B * C) + (b * C + c)" "0 \<le> a" "a < A" "0 \<le> b" "b < B" "0 \<le> c" "c < C"
    "b * C + c < B * C" "0 \<le> b * C + c"
proof
  let ?l = "t mod (B * C)"
  have BC: "0 < B * C" using assms by simp
  show "t = t div (B * C) * (B * C) + (?l div C * C + ?l mod C)"
    by (simp only: div_mult_mod_eq)
  show "0 \<le> t div (B * C)" using assms BC by (simp add: pos_imp_zdiv_nonneg_iff)
  show "t div (B * C) < A" using assms BC by (intro div_less_radix)
  show "0 \<le> ?l div C" using assms BC by (simp add: pos_imp_zdiv_nonneg_iff)
  show "?l div C < B" using assms BC by (intro div_less_radix) simp_all
  show "0 \<le> ?l mod C" "?l mod C < C" using assms by simp_all
  show "?l div C * C + ?l mod C < B * C" "0 \<le> ?l div C * C + ?l mod C" using BC by simp_all
qed

lemma visit_bij:
  assumes size: "A * (B * D) = S * R * C" and pos: "0 < B" "0 < D" "0 < S" "0 < R"
    and visit: "\<And>a b d. \<lbrakk>0 \<le> a; a < A; 0 \<le> b; b < B; 0 \<le> d; d < D; b * D + d < B * D; 0 \<le> b * D + d\<rbrakk>
      \<Longrightarrow> f (a * (B * D) + (b * D + d)) \<in> tiles_of S R C
        \<and> g (f (a * (B * D) + (b * D + d))) = a * (B * D) + (b * D + d)"
  shows "bij_betw f {0..<S * R * C} (tiles_of S R C)"
proof (rule bij_of_left_inverse[where g = g])
  show "card {0..<S * R * C} = card (tiles_of S R C)" using pos by (simp add: card_tiles_of)
  have ok: "f t \<in> tiles_of S R C \<and> g (f t) = t" if t: "t \<in> {0..<S * R * C}" for t
  proof -
    obtain a b d where "t = a * (B * D) + (b * D + d)" "0 \<le> a" "a < A" "0 \<le> b" "b < B" "0 \<le> d" "d < D"
      "b * D + d < B * D" "0 \<le> b * D + d"
      using task_parts[of t A B D] t pos by (auto simp: size)
    then show ?thesis using visit by simp
  qed
  then show "f ` {0..<S * R * C} \<subseteq> tiles_of S R C" by blast
  show "g (f t) = t" if "t \<in> {0..<S * R * C}" for t using ok[OF that] by blast
qed simp

lemma row_major_bij:
  assumes "0 < S" "0 < R" "0 < C"
  shows "bij_betw (\<lambda>t. slice_row_major_decode t R C) {0..<S * R * C} (tiles_of S R C)"
proof (rule visit_bij[where g = "\<lambda>(row, col). row * C + col" and A = S and B = R and D = C])
  fix a b d :: int
  assume b: "0 \<le> a" "a < S" "0 \<le> b" "b < R" "0 \<le> d" "d < C" "b * C + d < R * C" "0 \<le> b * C + d"
  then have "slice_row_major_decode (a * (R * C) + (b * C + d)) R C = (a * R + b, d)"
    by (simp add: slice_row_major_decode_def Let_def)
  then show "slice_row_major_decode (a * (R * C) + (b * C + d)) R C \<in> tiles_of S R C \<and>
      (case slice_row_major_decode (a * (R * C) + (b * C + d)) R C of (row, col) \<Rightarrow> row * C + col)
      = a * (R * C) + (b * C + d)"
    using b in_tiles_of[of a S b R d C] by (simp add: algebra_simps)
qed (use assms in simp_all)

lemma interleaved_bij:
  assumes "0 < S" "0 < R" "0 < C"
  shows "bij_betw (\<lambda>t. slice_interleaved_slices_decode t R C S) {0..<S * R * C} (tiles_of S R C)"
proof (rule visit_bij[where g = "\<lambda>(row, col). row mod R * (S * C) + (row div R * C + col)" and A = R and B = S and D = C])
  fix a b d :: int
  assume b: "0 \<le> a" "a < R" "0 \<le> b" "b < S" "0 \<le> d" "d < C" "b * C + d < S * C" "0 \<le> b * C + d"
  then have "slice_interleaved_slices_decode (a * (S * C) + (b * C + d)) R C S = (b * R + a, d)"
    by (simp add: slice_interleaved_slices_decode_def Let_def)
  then show "slice_interleaved_slices_decode (a * (S * C) + (b * C + d)) R C S \<in> tiles_of S R C \<and>
      (case slice_interleaved_slices_decode (a * (S * C) + (b * C + d)) R C S of
        (row, col) \<Rightarrow> row mod R * (S * C) + (row div R * C + col)) = a * (S * C) + (b * C + d)"
    using b in_tiles_of[of b S a R d C] by simp
qed (use assms in simp_all)

lemma devrel_bij:
  assumes "0 < S" "0 < R" "0 < C" "0 \<le> dev"
  shows "bij_betw (\<lambda>t. slice_interleaved_devrel_decode t R C S dev) {0..<S * R * C} (tiles_of S R C)"
proof (rule visit_bij[where g = "\<lambda>(row, col). row mod R * (S * C) + ((row div R - dev) mod S * C + col)"
      and A = R and B = S and D = C])
  fix a b d :: int
  assume b: "0 \<le> a" "a < R" "0 \<le> b" "b < S" "0 \<le> d" "d < C" "b * C + d < S * C" "0 \<le> b * C + d"
  then have "slice_interleaved_devrel_decode (a * (S * C) + (b * C + d)) R C S dev = ((b + dev) mod S * R + a, d)"
    using assms by (simp add: slice_interleaved_devrel_decode_def Let_def)
  moreover have "((b + dev) mod S - dev) mod S = b" using b by (simp add: mod_diff_left_eq)
  ultimately show "slice_interleaved_devrel_decode (a * (S * C) + (b * C + d)) R C S dev \<in> tiles_of S R C \<and>
      (case slice_interleaved_devrel_decode (a * (S * C) + (b * C + d)) R C S dev of
        (row, col) \<Rightarrow> row mod R * (S * C) + ((row div R - dev) mod S * C + col)) = a * (S * C) + (b * C + d)"
    using b assms in_tiles_of[of "(b + dev) mod S" S a R d C] by simp
qed (use assms in simp_all)


text \<open>Bands of \<open>super_m\<close> rows are walked by columns, the rows left over last.\<close>

lemma super_m_local:
  fixes l :: int
  assumes "0 < R" "0 < C" "0 < m" "0 \<le> l" "l < R * C" "0 \<le> q"
  shows "\<exists>r c. slice_super_m_decode (q * (R * C) + l) R C m = (q * R + r, c) \<and> 0 \<le> r \<and> r < R \<and> 0 \<le> c \<and> c < C
    \<and> (if r < R div m * m then r div m * (C * m) + (c * m + r mod m)
       else R div m * m * C + (c * (R - R div m * m) + (r - R div m * m))) = l"
proof -
  define sr where "sr = R div m * m"
  have sr: "0 \<le> sr" "sr \<le> R" using assms by (simp_all add: sr_def pos_imp_zdiv_nonneg_iff div_bounds(1))
  have RC: "(q * (R * C) + l) div (R * C) = q" using assms by simp
  show ?thesis
  proof (cases "l < sr * C")
    case True
    then obtain e c r where l: "l = e * (C * m) + (c * m + r)" "0 \<le> e" "e < R div m" "0 \<le> c" "c < C"
      "0 \<le> r" "r < m" "c * m + r < C * m" "0 \<le> c * m + r"
      using task_parts[of l "R div m" C m] assms by (auto simp: sr_def algebra_simps)
    have row: "e * m + r < sr" unfolding sr_def by (rule radix_less) (use l assms in auto)
    have "c_div l (m * C) = e" using l assms by (simp add: mult.commute[of m])
    moreover have "l - e * (m * C) = c * m + r" by (simp add: l(1) mult.commute[of m])
    ultimately have "slice_super_m_decode (q * (R * C) + l) R C m = (q * R + (e * m + r), c)"
      using True assms RC l by (simp add: slice_super_m_decode_def Let_def sr_def)
    then show ?thesis using l row sr by (intro exI[of _ "e * m + r"] exI[of _ c]) (simp add: sr_def)
  next
    case False
    define tail where "tail = R - sr"
    have "sr \<noteq> R" using False assms by auto
    then have tail: "0 < tail" using sr by (simp add: tail_def)
    have pre: "0 \<le> l - sr * C" "l - sr * C < 1 * (C * tail)" using assms False by (simp_all add: tail_def algebra_simps)
    obtain a c r where "l - sr * C = a * (C * tail) + (c * tail + r)" "0 \<le> a" "a < 1" "0 \<le> c" "c < C"
      "0 \<le> r" "r < tail"
      by (rule task_parts[OF pre assms(2) tail]) (rule that; assumption)
    then have l: "l - sr * C = c * tail + r" "0 \<le> c" "c < C" "0 \<le> r" "r < tail" by auto
    have "slice_super_m_decode (q * (R * C) + l) R C m = (q * R + (sr + r), c)"
      using False assms RC l tail sr
      by (simp add: slice_super_m_decode_def Let_def sr_def[symmetric] tail_def[symmetric])
    then show ?thesis using l sr
      by (intro exI[of _ "sr + r"] exI[of _ c]) (simp add: sr_def[symmetric] tail_def)
  qed
qed

lemma super_m_bij:
  assumes "0 < S" "0 < R" "0 < C" "0 < m"
  shows "bij_betw (\<lambda>t. slice_super_m_decode t R C m) {0..<S * R * C} (tiles_of S R C)"
proof (rule visit_bij[where A = S and B = R and D = C and g = "\<lambda>(row, c). row div R * (R * C)
    + (if row mod R < R div m * m then row mod R div m * (C * m) + (c * m + row mod R mod m)
       else R div m * m * C + (c * (R - R div m * m) + (row mod R - R div m * m)))"])
  fix a b d :: int
  assume b: "0 \<le> a" "a < S" "0 \<le> b" "b < R" "0 \<le> d" "d < C" "b * C + d < R * C" "0 \<le> b * C + d"
  obtain r c where rc: "slice_super_m_decode (a * (R * C) + (b * C + d)) R C m = (a * R + r, c)"
    "0 \<le> r" "r < R" "0 \<le> c" "c < C"
    "(if r < R div m * m then r div m * (C * m) + (c * m + r mod m)
       else R div m * m * C + (c * (R - R div m * m) + (r - R div m * m))) = b * C + d"
    using super_m_local[of R C m "b * C + d" a] assms b by blast
  have "(a * R + r) div R = a" "(a * R + r) mod R = r" using rc by simp_all
  then show "slice_super_m_decode (a * (R * C) + (b * C + d)) R C m \<in> tiles_of S R C \<and>
      (case slice_super_m_decode (a * (R * C) + (b * C + d)) R C m of (row, c) \<Rightarrow> row div R * (R * C)
        + (if row mod R < R div m * m then row mod R div m * (C * m) + (c * m + row mod R mod m)
           else R div m * m * C + (c * (R - R div m * m) + (row mod R - R div m * m))))
      = a * (R * C) + (b * C + d)"
    unfolding rc(1) using rc(2-6) b in_tiles_of[of a S r R c C] by (simp only: prod.case)
qed (use assms in simp_all)

section \<open>Chunks\<close>

text \<open>
  The width of a chunk. \<open>on_host\<close> is the compilation for the CPU, which honours
  GEMM_AR_CHUNK_TILES; \<open>override\<close> is the value \<open>atoi\<close> reads from the variable if it is set.
\<close>

definition gemm_ar_chunk_tiles :: "bool \<Rightarrow> int option \<Rightarrow> int \<Rightarrow> int" where
  "gemm_ar_chunk_tiles on_host override col_blocks = (let
     chunk_tiles = (if on_host then (case override of
         Some override_tiles \<Rightarrow> if override_tiles > 0 then override_tiles else 4
       | None \<Rightarrow> 4) else 4)
   in if chunk_tiles < col_blocks then chunk_tiles else col_blocks)"

definition gemm_ar_chunks_per_row :: "bool \<Rightarrow> int option \<Rightarrow> int \<Rightarrow> int" where
  "gemm_ar_chunks_per_row on_host override col_blocks =
     ceil_div col_blocks (gemm_ar_chunk_tiles on_host override col_blocks)"

definition gemm_ar_units_for_queue :: "int \<Rightarrow> int \<Rightarrow> int \<Rightarrow> int" where
  "gemm_ar_units_for_queue total_units queue_id num_queues =
     (if num_queues \<le> 0 \<or> queue_id < 0 \<or> queue_id \<ge> num_queues \<or> total_units \<le> queue_id then 0
      else 1 + c_div (total_units - 1 - queue_id) num_queues)"

definition gemm_ar_tiles_for_queue :: "bool \<Rightarrow> int option \<Rightarrow> int \<Rightarrow> int \<Rightarrow> int \<Rightarrow> int \<Rightarrow> int" where
  "gemm_ar_tiles_for_queue on_host override row_blocks_per_slice col_blocks queue_id num_queues =
     (if num_queues \<le> 0 \<or> queue_id < 0 \<or> queue_id \<ge> num_queues then 0 else (let
       chunk_tiles = gemm_ar_chunk_tiles on_host override col_blocks;
       chunks_per_row = gemm_ar_chunks_per_row on_host override col_blocks
     in sum_list (map (\<lambda>chunk_id. min chunk_tiles (col_blocks - c_mod chunk_id chunks_per_row * chunk_tiles))
          (strided queue_id num_queues (row_blocks_per_slice * chunks_per_row)))))"

record chunk_pos =
  rb_in_slice :: int
  row_idx :: int
  col_start :: int
  tiles_this_chunk :: int

definition gemm_ar_chunk_decode :: "bool \<Rightarrow> int option \<Rightarrow> int \<Rightarrow> int \<Rightarrow> int \<Rightarrow> int \<Rightarrow> int \<Rightarrow> chunk_pos" where
  "gemm_ar_chunk_decode on_host override chunk_id row_blocks_per_slice col_blocks chunk_tiles dev_idx = (let
     chunks_per_row = gemm_ar_chunks_per_row on_host override col_blocks;
     rb = c_div chunk_id chunks_per_row;
     chunk_col = chunk_id - rb * chunks_per_row
   in \<lparr>rb_in_slice = rb, row_idx = dev_idx * row_blocks_per_slice + rb, col_start = chunk_col * chunk_tiles,
       tiles_this_chunk = min chunk_tiles (col_blocks - chunk_col * chunk_tiles)\<rparr>)"

definition gemm_ar_chunk_first_tile :: "bool \<Rightarrow> int option \<Rightarrow> int \<Rightarrow> int \<Rightarrow> int \<Rightarrow> int \<Rightarrow> int" where
  "gemm_ar_chunk_first_tile on_host override chunk_id row_blocks_per_slice col_blocks chunk_tiles = (let
     p = gemm_ar_chunk_decode on_host override chunk_id row_blocks_per_slice col_blocks chunk_tiles 0
   in rb_in_slice p * col_blocks + col_start p)"


lemma chunk_tiles_pos: "0 < C \<Longrightarrow> 0 < gemm_ar_chunk_tiles h ov C \<and> gemm_ar_chunk_tiles h ov C \<le> C"
  by (auto simp: gemm_ar_chunk_tiles_def Let_def split: option.splits)

lemma chunks_per_row_pos: "0 < C \<Longrightarrow> 0 < gemm_ar_chunks_per_row h ov C"
  unfolding gemm_ar_chunks_per_row_def using chunk_tiles_pos[of C h ov] by (intro ceil_div_pos) auto

lemma chunk_col_starts:
  assumes "0 < C" "k < gemm_ar_chunks_per_row h ov C"
  shows "k * gemm_ar_chunk_tiles h ov C < C"
proof -
  let ?t = "gemm_ar_chunk_tiles h ov C"
  have t: "0 < ?t" using chunk_tiles_pos[OF assms(1)] by blast
  have "(k + 1) * ?t \<le> ceil_div C ?t * ?t" using assms(2) t
    by (intro mult_right_mono) (auto simp: gemm_ar_chunks_per_row_def)
  also have "\<dots> < C + ?t" using ceil_div_bounds(2)[of C ?t] assms(1) t by simp
  finally show ?thesis by (simp add: algebra_simps)
qed

lemma chunk_col_bound:
  assumes "0 < C" "0 \<le> col" "col < C"
  shows "col div gemm_ar_chunk_tiles h ov C < gemm_ar_chunks_per_row h ov C"
proof (rule div_less_of_mult)
  let ?t = "gemm_ar_chunk_tiles h ov C"
  show "0 < ?t" using chunk_tiles_pos[OF assms(1)] by blast
  then have "C \<le> ceil_div C ?t * ?t" using assms(1) by (intro ceil_div_bounds(1)) simp_all
  then show "col < gemm_ar_chunks_per_row h ov C * ?t" using assms(3) by (simp add: gemm_ar_chunks_per_row_def)
qed

lemma chunk_decode_at:
  assumes "0 < C" "0 \<le> rb" "0 \<le> k" "k < gemm_ar_chunks_per_row h ov C"
  shows "gemm_ar_chunk_decode h ov (rb * gemm_ar_chunks_per_row h ov C + k) R C ct dev
    = \<lparr>rb_in_slice = rb, row_idx = dev * R + rb, col_start = k * ct, tiles_this_chunk = min ct (C - k * ct)\<rparr>"
  using assms chunks_per_row_pos[OF assms(1), of h ov] by (simp add: gemm_ar_chunk_decode_def Let_def)

lemma chunk_split:
  assumes "0 < C" "0 \<le> c" "c < R * gemm_ar_chunks_per_row h ov C"
  obtains rb k where "c = rb * gemm_ar_chunks_per_row h ov C + k" "0 \<le> rb" "rb < R" "0 \<le> k"
    "k < gemm_ar_chunks_per_row h ov C"
proof
  let ?n = "gemm_ar_chunks_per_row h ov C"
  have n: "0 < ?n" using chunks_per_row_pos[OF assms(1)] .
  show "c = c div ?n * ?n + c mod ?n" by (simp only: div_mult_mod_eq)
  show "0 \<le> c div ?n" using assms(2) n by (simp add: pos_imp_zdiv_nonneg_iff)
  show "c div ?n < R" using assms(2,3) n by (intro div_less_radix)
  show "0 \<le> c mod ?n" "c mod ?n < ?n" using n by simp_all
qed

definition chunk_tile_set :: "chunk_pos \<Rightarrow> (int \<times> int) set" where
  "chunk_tile_set p = {rb_in_slice p} \<times> {col_start p..<col_start p + tiles_this_chunk p}"

text \<open>The chunks of a slice cover every tile of the slice once.\<close>

lemma chunks_cover:
  assumes C: "0 < C" and tile: "(rb, col) \<in> {0..<R} \<times> {0..<C}"
  shows "\<exists>!c. c \<in> {0..<R * gemm_ar_chunks_per_row h ov C}
    \<and> (rb, col) \<in> chunk_tile_set (gemm_ar_chunk_decode h ov c R C (gemm_ar_chunk_tiles h ov C) dev)"
proof -
  let ?t = "gemm_ar_chunk_tiles h ov C" and ?n = "gemm_ar_chunks_per_row h ov C"
  have t: "0 < ?t" using chunk_tiles_pos[OF C] by blast
  have k: "0 \<le> col div ?t" "col div ?t < ?n"
    using tile chunk_col_bound[OF C, of col] t by (auto simp: pos_imp_zdiv_nonneg_iff)
  show ?thesis
  proof (rule ex1I[of _ "rb * ?n + col div ?t"])
    have "rb * ?n + col div ?t < R * ?n" using tile k by (intro radix_less) auto
    moreover have "col < col div ?t * ?t + ?t" using div_bounds(2)[OF t, of col] by (simp add: algebra_simps)
    ultimately show "rb * ?n + col div ?t \<in> {0..<R * ?n} \<and> (rb, col) \<in> chunk_tile_set
        (gemm_ar_chunk_decode h ov (rb * ?n + col div ?t) R C ?t dev)"
      using tile k div_bounds(1)[OF t, of col] by (simp add: chunk_decode_at[OF C] chunk_tile_set_def min_def)
  next
    fix c assume c: "c \<in> {0..<R * ?n} \<and> (rb, col) \<in> chunk_tile_set (gemm_ar_chunk_decode h ov c R C ?t dev)"
    obtain rb' k' where s: "c = rb' * ?n + k'" "0 \<le> rb'" "rb' < R" "0 \<le> k'" "k' < ?n"
      using chunk_split[OF C, of c R h ov] c by auto
    have "rb' = rb" "k' * ?t \<le> col" "col < k' * ?t + ?t"
      using c s by (auto simp: chunk_decode_at[OF C] chunk_tile_set_def)
    moreover have "col div ?t = k'"
    proof -
      have "col = k' * ?t + (col - k' * ?t)" by simp
      then show ?thesis using calculation(2,3) radix_div[of "col - k' * ?t" ?t k'] by simp
    qed
    ultimately show "c = rb * ?n + col div ?t" using s(1) by simp
  qed
qed

lemma chunk_decode_bounds:
  assumes "0 < C" "0 \<le> c" "c < R * gemm_ar_chunks_per_row h ov C" "ct = gemm_ar_chunk_tiles h ov C"
    and "p = gemm_ar_chunk_decode h ov c R C ct dev"
  shows "0 \<le> rb_in_slice p" "rb_in_slice p < R" "0 \<le> col_start p" "col_start p + tiles_this_chunk p \<le> C"
    "1 \<le> tiles_this_chunk p" "tiles_this_chunk p \<le> ct" "row_idx p = dev * R + rb_in_slice p"
    "c = rb_in_slice p * gemm_ar_chunks_per_row h ov C + col_start p div ct" "col_start p mod ct = 0"
proof -
  obtain rb k where s: "c = rb * gemm_ar_chunks_per_row h ov C + k" "0 \<le> rb" "rb < R" "0 \<le> k"
    "k < gemm_ar_chunks_per_row h ov C"
    using chunk_split[OF assms(1-3)] by blast
  have t: "0 < ct" using chunk_tiles_pos[OF assms(1)] assms(4) by blast
  have "k * ct < C" using chunk_col_starts[OF assms(1) s(5)] assms(4) by simp
  then show "0 \<le> rb_in_slice p" "rb_in_slice p < R" "0 \<le> col_start p" "col_start p + tiles_this_chunk p \<le> C"
    "1 \<le> tiles_this_chunk p" "tiles_this_chunk p \<le> ct" "row_idx p = dev * R + rb_in_slice p"
    "c = rb_in_slice p * gemm_ar_chunks_per_row h ov C + col_start p div ct" "col_start p mod ct = 0"
    using s t unfolding assms(5) s(1) by (simp_all add: chunk_decode_at[OF assms(1)])
qed

lemma first_tile_of_chunk:
  "gemm_ar_chunk_first_tile h ov c R C ct = rb_in_slice (gemm_ar_chunk_decode h ov c R C ct dev) * C
    + col_start (gemm_ar_chunk_decode h ov c R C ct dev)"
  by (simp add: gemm_ar_chunk_first_tile_def gemm_ar_chunk_decode_def Let_def)

section \<open>Sharing out units\<close>

lemma units_for_queue_strided:
  "0 < n \<Longrightarrow> 0 \<le> q \<Longrightarrow> q < n \<Longrightarrow> gemm_ar_units_for_queue T q n = int (length (strided q n T))"
  by (simp add: gemm_ar_units_for_queue_def length_strided)

text \<open>Sums over the strided lists of all queues are sums over all units.\<close>

lemma sum_strided:
  fixes f :: "int \<Rightarrow> int"
  assumes "0 < n"
  shows "(\<Sum>q\<in>{0..<n}. sum_list (map f (strided q n T))) = sum f {0..<T}"
proof -
  have "sum_list (map f (strided q n T)) = sum f {x \<in> {0..<T}. x mod n = q}" if "q \<in> {0..<n}" for q
  proof -
    have "set (strided q n T) = {x \<in> {0..<T}. x mod n = q}" using that assms by (auto simp: in_strided_mod)
    then show ?thesis using distinct_strided[OF assms] sum_list_distinct_conv_sum_set by metis
  qed
  then have "(\<Sum>q\<in>{0..<n}. sum_list (map f (strided q n T))) = (\<Sum>q\<in>{0..<n}. sum f {x \<in> {0..<T}. x mod n = q})"
    by (rule sum.cong[OF refl])
  also have "\<dots> = sum f {0..<T}" using assms by (intro sum.group) auto
  finally show ?thesis .
qed

lemma units_sum:
  assumes "0 < n" "0 \<le> T"
  shows "(\<Sum>q\<in>{0..<n}. gemm_ar_units_for_queue T q n) = T"
proof -
  have "(\<Sum>q\<in>{0..<n}. gemm_ar_units_for_queue T q n) = (\<Sum>q\<in>{0..<n}. sum_list (map (\<lambda>_. 1) (strided q n T)))"
    using assms by (intro sum.cong) (auto simp: units_for_queue_strided sum_list_triv)
  then show ?thesis using sum_strided[OF assms(1), of "\<lambda>_. 1" T] assms(2) by simp
qed

end
