(* ===== verification/Gemm_AR_Layout.thy ===== *)
theory Gemm_AR_Layout
  imports Tile_Schedule D2H_Fifo Ready_Queue
begin

text \<open>
  The host side of the GEMM + all-reduce operator
  (\<open>src/include/operators/gemm_ar/gemm_ar.cuh\<close>): the split of the 132 thread blocks into
  roles, the layout of the scratch buffer and the checks of the entry point. Environment
  variables are arguments: what \<open>atoi\<close> reads, \<open>None\<close> when unset or empty.
\<close>

definition NUM_BLOCKS :: int where [tile_simps]: "NUM_BLOCKS = 132"
definition NUM_DEVICES :: int where [tile_simps]: "NUM_DEVICES = 8"
definition ROW_BLOCK :: int where [tile_simps]: "ROW_BLOCK = 128"
definition COL_BLOCK :: int where [tile_simps]: "COL_BLOCK = 256"
definition TILE_ELEMS :: int where [tile_simps]: "TILE_ELEMS = ROW_BLOCK * COL_BLOCK"
definition TILE_BYTES :: int where [tile_simps]: "TILE_BYTES = 128 * 256 * 2"

section \<open>Roles of the thread blocks\<close>

record role_split =
  num_comp_sms :: int
  num_intra_ar_sms :: int
  num_inter_send_sms :: int
  num_inter_reduce_publish_sms :: int
  num_inter_recv_progress_sms :: int
  num_inter_reduce_store_sms :: int

definition gemm_ar_compute_role_split ::
    "int option \<Rightarrow> int option \<Rightarrow> int \<Rightarrow> int \<Rightarrow> int \<Rightarrow> role_split" where
  "gemm_ar_compute_role_split send_env recv_env num_intra_comm_sms num_inter_comm_sms row_blocks_per_slice = (let
     requested0 = (case send_env of Some v \<Rightarrow> v | None \<Rightarrow> 0);
     requested1 = (if requested0 \<le> 0 then c_div num_inter_comm_sms 2 else requested0);
     requested2 = max 1 (min (num_inter_comm_sms - 1) requested1);
     send = (if row_blocks_per_slice > 0 then min requested2 row_blocks_per_slice else requested2);
     recv0 = (case recv_env of Some v \<Rightarrow> v | None \<Rightarrow> 0);
     recv = (if recv0 > 0 then min recv0 (max 0 (NUM_BLOCKS - num_intra_comm_sms - num_inter_comm_sms)) else 0);
     store = num_inter_comm_sms - send
   in \<lparr>num_comp_sms = NUM_BLOCKS - num_intra_comm_sms - send - recv - store,
       num_intra_ar_sms = num_intra_comm_sms, num_inter_send_sms = send,
       num_inter_reduce_publish_sms = store, num_inter_recv_progress_sms = recv,
       num_inter_reduce_store_sms = store\<rparr>)"

definition gemm_ar_inter_tail_base :: "role_split \<Rightarrow> int" where
  "gemm_ar_inter_tail_base G = num_comp_sms G + num_intra_ar_sms G + num_inter_send_sms G"

definition gemm_ar_inter_reduce_store_base :: "role_split \<Rightarrow> int" where
  "gemm_ar_inter_reduce_store_base G = gemm_ar_inter_tail_base G + num_inter_recv_progress_sms G"

text \<open>
  The dispatch of \<open>fused_kernel\<close> by \<open>blockIdx.x\<close>, with the index a block has within its role.
\<close>

datatype role = Comp int | Intra int | Send int | Recv int | Reduce int

definition role_of_block :: "role_split \<Rightarrow> int \<Rightarrow> role" where
  "role_of_block G b =
     (if b < num_comp_sms G then Comp b
      else if b < num_comp_sms G + num_intra_ar_sms G then Intra (b - num_comp_sms G)
      else if b < num_comp_sms G + num_intra_ar_sms G + num_inter_send_sms G
        then Send (b - (num_comp_sms G + num_intra_ar_sms G))
      else if b < gemm_ar_inter_reduce_store_base G then Recv (b - gemm_ar_inter_tail_base G)
      else Reduce (b - gemm_ar_inter_reduce_store_base G))"

definition split_roles :: "role_split \<Rightarrow> role set" where
  "split_roles G = Comp ` {0..<num_comp_sms G} \<union> Intra ` {0..<num_intra_ar_sms G}
     \<union> Send ` {0..<num_inter_send_sms G} \<union> Recv ` {0..<num_inter_recv_progress_sms G}
     \<union> Reduce ` {0..<num_inter_reduce_store_sms G}"

text \<open>The checks of \<open>entrypoint\<close> on the split (gemm_ar.cuh:1438-1440).\<close>

definition check_split :: "role_split \<Rightarrow> string + unit" where
  "check_split G =
     (if \<not> num_comp_sms G > 0 then Inl ''num_comp_sms must be > 0''
      else if \<not> num_inter_reduce_publish_sms G > 0 then Inl ''num_inter_reduce_publish must be > 0''
      else if \<not> num_inter_reduce_store_sms G > 0 then Inl ''num_inter_reduce_store must be > 0''
      else Inr ())"

lemma split_sums:
  assumes "G = gemm_ar_compute_role_split send_env recv_env intra_sms inter_sms rows"
  shows "num_comp_sms G + num_intra_ar_sms G + num_inter_send_sms G + num_inter_recv_progress_sms G
      + num_inter_reduce_store_sms G = NUM_BLOCKS"
    and "0 \<le> num_inter_recv_progress_sms G" and "1 \<le> num_inter_send_sms G"
    and "num_intra_ar_sms G = intra_sms" "num_inter_send_sms G + num_inter_reduce_store_sms G = inter_sms"
    and "0 < rows \<Longrightarrow> num_inter_send_sms G \<le> rows"
  unfolding assms gemm_ar_compute_role_split_def by (auto simp: Let_def min_def max_def)

lemma role_of_block_bij:
  assumes "0 \<le> num_comp_sms G" "0 \<le> num_intra_ar_sms G" "0 \<le> num_inter_send_sms G"
    "0 \<le> num_inter_recv_progress_sms G" "0 \<le> num_inter_reduce_store_sms G"
    and "num_comp_sms G + num_intra_ar_sms G + num_inter_send_sms G + num_inter_recv_progress_sms G
      + num_inter_reduce_store_sms G = n"
  shows "bij_betw (role_of_block G) {0..<n} (split_roles G)"
proof (rule bij_betw_byWitness[where f' = "\<lambda>r. case r of Comp i \<Rightarrow> i | Intra i \<Rightarrow> num_comp_sms G + i
      | Send i \<Rightarrow> num_comp_sms G + num_intra_ar_sms G + i | Recv i \<Rightarrow> gemm_ar_inter_tail_base G + i
      | Reduce i \<Rightarrow> gemm_ar_inter_reduce_store_base G + i"])
qed (use assms in \<open>auto simp: role_of_block_def split_roles_def gemm_ar_inter_tail_base_def
      gemm_ar_inter_reduce_store_base_def split: if_splits\<close>)

section \<open>Scratch buffer\<close>

text \<open>
  The sizes and offsets of the host are values of type \<open>int\<close>, 32 bits and signed; \<open>i32\<close> is the value
  such a variable has after a sum or product, wrapped around where the exact one does not fit.
\<close>

definition i32 :: "int \<Rightarrow> int" where
  "i32 x = signed_take_bit 31 x"

lemma i32_small [simp]: "0 \<le> x \<Longrightarrow> x < 2147483648 \<Longrightarrow> i32 x = x"
  by (simp add: i32_def signed_take_bit_int_eq_self)

text \<open>\<open>v |= v >> 1; \<dots>; v + 1\<close> on \<open>want - 1\<close>; a positive \<open>int\<close> shifts like an unsigned word.\<close>

definition next_pow2 :: "int \<Rightarrow> int" where
  "next_pow2 want = sint (smear 16 (smear 8 (smear 4 (smear 2 (smear 1 (word_of_int (want - 1)))))) + 1)"

record scratch_layout =
  slice_rows :: int
  row_blocks_per_slice :: int
  col_blocks :: int
  total_chunks :: int
  total_tiles :: int
  chunk_tiles :: int
  chunks_per_row :: int
  slice_tiles :: int
  gemm_rq_capacity :: int
  owner_pending_capacity :: int
  remote_queue_stride :: int
  chunk_remote_arrived_offset :: int
  arrival_queue_head_offset :: int
  local_ar_done_offset :: int
  send_issued_offset :: int
  remote_arrived_offset :: int
  published_offset :: int
  final_publish_done_offset :: int
  debug_flags_offset :: int
  debug_dump_counter_offset :: int
  queue_expected_offset :: int
  queue_observed_offset :: int
  row_send_count_offset :: int
  gemm_tiles_ready_count_offset :: int
  gemm_tile_scanned_offset :: int
  gemm_rq_entries_offset :: int
  gemm_rq_head_offset :: int
  gemm_rq_tail_offset :: int
  gemm_scan_cursor_offset :: int
  local_ar_rq_entries_offset :: int
  local_ar_rq_head_offset :: int
  local_ar_rq_tail_offset :: int
  remote_rq_entries_offset :: int
  remote_rq_head_offset :: int
  remote_rq_tail_offset :: int
  owner_pending_entries_offset :: int
  owner_pending_head_offset :: int
  owner_pending_tail_offset :: int
  owner_pending_max_depth_offset :: int
  owner_pending_push_count_offset :: int
  owner_pending_pop_count_offset :: int
  local_done_flag_offset :: int
  remote_arrived_flag_offset :: int
  remote_arrived_peer_mask_offset :: int
  intra_started_flag_offset :: int
  reduce_cursor_offset :: int
  chunk_claimed_flag_offset :: int
  comp_chunk_tiles_done_offset :: int
  intra_chunk_tiles_done_offset :: int
  xnode_ready_offset :: int
  scratch_ints_needed :: int

definition gemm_ar_compute_scratch_layout :: "int option \<Rightarrow> int \<Rightarrow> int \<Rightarrow> int \<Rightarrow> int \<Rightarrow> int \<Rightarrow> scratch_layout" where
  "gemm_ar_compute_scratch_layout override M N num_remote_queues num_allocated_remote_queues num_nodes = (let
     slice_rows = c_div M NUM_DEVICES;
     row_blocks_per_slice = c_div slice_rows ROW_BLOCK;
     col_blocks = c_div N COL_BLOCK;
     chunks_per_row = gemm_ar_chunks_per_row True override col_blocks;
     total_chunks = i32 (row_blocks_per_slice * chunks_per_row);
     total_tiles = i32 (c_div M ROW_BLOCK * col_blocks);
     chunk_tiles = gemm_ar_chunk_tiles True override col_blocks;
     slice_tiles = i32 (row_blocks_per_slice * col_blocks);
     gemm_rq_capacity = next_pow2 (max 16 total_chunks);
     owner_pending_capacity = next_pow2 (max 8 (i32 (chunks_per_row * 2)));
     row_blocks = c_div M ROW_BLOCK;
     total_all_chunks = i32 (row_blocks * chunks_per_row);
     n_peers = max 1 (i32 (num_nodes - 1));
     remote_queue_stride = max 1 (c_div (i32 (i32 (i32 (total_tiles * n_peers) + num_allocated_remote_queues) - 1))
       num_allocated_remote_queues);
     chunk_remote_arrived_offset = 0;
     arrival_queue_head_offset = i32 (chunk_remote_arrived_offset + total_chunks);
     local_ar_done_offset = i32 (arrival_queue_head_offset + num_remote_queues);
     send_issued_offset = i32 (local_ar_done_offset + 1);
     remote_arrived_offset = i32 (send_issued_offset + 1);
     published_offset = i32 (remote_arrived_offset + 1);
     final_publish_done_offset = i32 (published_offset + 1);
     debug_flags_offset = i32 (final_publish_done_offset + 1);
     debug_dump_counter_offset = i32 (debug_flags_offset + 1);
     queue_expected_offset = i32 (debug_dump_counter_offset + 1);
     queue_observed_offset = i32 (queue_expected_offset + num_remote_queues);
     row_send_count_offset = i32 (queue_observed_offset + num_remote_queues);
     gemm_tiles_ready_count_offset = i32 (row_send_count_offset + row_blocks_per_slice);
     gemm_tile_scanned_offset = i32 (gemm_tiles_ready_count_offset + total_chunks);
     gemm_rq_entries_offset = i32 (gemm_tile_scanned_offset + slice_tiles);
     gemm_rq_head_offset = i32 (gemm_rq_entries_offset + gemm_rq_capacity);
     gemm_rq_tail_offset = i32 (gemm_rq_head_offset + 1);
     gemm_scan_cursor_offset = i32 (gemm_rq_tail_offset + 1);
     local_ar_rq_entries_offset = i32 (gemm_scan_cursor_offset + 1);
     local_ar_rq_head_offset = i32 (local_ar_rq_entries_offset + gemm_rq_capacity);
     local_ar_rq_tail_offset = i32 (local_ar_rq_head_offset + 1);
     remote_rq_entries_offset = i32 (local_ar_rq_tail_offset + 1);
     remote_rq_head_offset = i32 (remote_rq_entries_offset + gemm_rq_capacity);
     remote_rq_tail_offset = i32 (remote_rq_head_offset + 1);
     owner_pending_entries_offset = i32 (remote_rq_tail_offset + 1);
     owner_pending_head_offset = i32 (owner_pending_entries_offset + i32 (num_remote_queues * owner_pending_capacity));
     owner_pending_tail_offset = i32 (owner_pending_head_offset + num_remote_queues);
     owner_pending_max_depth_offset = i32 (owner_pending_tail_offset + num_remote_queues);
     owner_pending_push_count_offset = i32 (owner_pending_max_depth_offset + num_remote_queues);
     owner_pending_pop_count_offset = i32 (owner_pending_push_count_offset + num_remote_queues);
     local_done_flag_offset = i32 (owner_pending_pop_count_offset + num_remote_queues);
     remote_arrived_flag_offset = i32 (local_done_flag_offset + total_chunks);
     remote_arrived_peer_mask_offset = i32 (remote_arrived_flag_offset + total_chunks);
     intra_started_flag_offset = i32 (remote_arrived_peer_mask_offset + total_chunks);
     reduce_cursor_offset = i32 (intra_started_flag_offset + 16);
     chunk_claimed_flag_offset = i32 (reduce_cursor_offset + 1);
     comp_chunk_tiles_done_offset = i32 (chunk_claimed_flag_offset + total_chunks);
     intra_chunk_tiles_done_offset = i32 (comp_chunk_tiles_done_offset + total_all_chunks);
     xnode_ready_offset = i32 (intra_chunk_tiles_done_offset + total_chunks);
     scratch_ints_needed = i32 (xnode_ready_offset + 1)
   in \<lparr>slice_rows = slice_rows, row_blocks_per_slice = row_blocks_per_slice, col_blocks = col_blocks,
       total_chunks = total_chunks, total_tiles = total_tiles, chunk_tiles = chunk_tiles,
       chunks_per_row = chunks_per_row, slice_tiles = slice_tiles, gemm_rq_capacity =
       gemm_rq_capacity, owner_pending_capacity = owner_pending_capacity, remote_queue_stride =
       remote_queue_stride, chunk_remote_arrived_offset = chunk_remote_arrived_offset,
       arrival_queue_head_offset = arrival_queue_head_offset, local_ar_done_offset =
       local_ar_done_offset, send_issued_offset = send_issued_offset, remote_arrived_offset =
       remote_arrived_offset, published_offset = published_offset, final_publish_done_offset =
       final_publish_done_offset, debug_flags_offset = debug_flags_offset, debug_dump_counter_offset =
       debug_dump_counter_offset, queue_expected_offset = queue_expected_offset, queue_observed_offset
       = queue_observed_offset, row_send_count_offset = row_send_count_offset,
       gemm_tiles_ready_count_offset = gemm_tiles_ready_count_offset, gemm_tile_scanned_offset =
       gemm_tile_scanned_offset, gemm_rq_entries_offset = gemm_rq_entries_offset, gemm_rq_head_offset
       = gemm_rq_head_offset, gemm_rq_tail_offset = gemm_rq_tail_offset, gemm_scan_cursor_offset =
       gemm_scan_cursor_offset, local_ar_rq_entries_offset = local_ar_rq_entries_offset,
       local_ar_rq_head_offset = local_ar_rq_head_offset, local_ar_rq_tail_offset =
       local_ar_rq_tail_offset, remote_rq_entries_offset = remote_rq_entries_offset,
       remote_rq_head_offset = remote_rq_head_offset, remote_rq_tail_offset = remote_rq_tail_offset,
       owner_pending_entries_offset = owner_pending_entries_offset, owner_pending_head_offset =
       owner_pending_head_offset, owner_pending_tail_offset = owner_pending_tail_offset,
       owner_pending_max_depth_offset = owner_pending_max_depth_offset,
       owner_pending_push_count_offset = owner_pending_push_count_offset,
       owner_pending_pop_count_offset = owner_pending_pop_count_offset, local_done_flag_offset =
       local_done_flag_offset, remote_arrived_flag_offset = remote_arrived_flag_offset,
       remote_arrived_peer_mask_offset = remote_arrived_peer_mask_offset, intra_started_flag_offset =
       intra_started_flag_offset, reduce_cursor_offset = reduce_cursor_offset,
       chunk_claimed_flag_offset = chunk_claimed_flag_offset, comp_chunk_tiles_done_offset =
       comp_chunk_tiles_done_offset, intra_chunk_tiles_done_offset = intra_chunk_tiles_done_offset,
       xnode_ready_offset = xnode_ready_offset, scratch_ints_needed = scratch_ints_needed\<rparr>)"


definition smeared :: "int \<Rightarrow> u32" where
  "smeared want = smear 16 (smear 8 (smear 4 (smear 2 (smear 1 (word_of_int (want - 1)))))) + 1"

lemma smeared_bounds:
  assumes "2 \<le> want" "want \<le> 2 ^ 31"
  shows "\<exists>k. uint (smeared want) = 2 ^ k \<and> want \<le> 2 ^ k \<and> 2 ^ k < 2 * want"
proof -
  define c where "c = (word_of_int want :: u32)"
  have c: "uint c = want" using assms by (simp add: c_def uint_word_of_int_eq take_bit_int_eq_self)
  then have u: "unat c = nat want" by (metis nat_uint_eq)
  have "nat want \<le> nat (2 ^ 31)" using assms(2) by (rule nat_mono)
  then have cle: "unat c \<le> 2 ^ 31" using u by simp
  have cpos: "0 < unat c" using u assms(1) by simp
  have np: "uint (smeared want) = uint (smear 16 (smear 8 (smear 4 (smear 2 (smear 1 (c - 1))))) + 1)"
    by (simp add: smeared_def c_def)
  show ?thesis
  proof (cases "c AND (c - 1) = 0")
    case True
    have c0: "c \<noteq> 0" using c assms(1) by auto
    have "unat (c AND (c - 1)) = unat c AND (unat c - 1)"
      using c0 by (simp add: unsigned_and_eq unat_minus_one)
    then have "unat c AND (unat c - 1) = 0" using True by simp
    then obtain k where k: "unat c = 2 ^ k" using nat_and_pred_pow2[of "unat c"] u assms(1) by auto
    have kpos: "0 < k" using k u assms(1) by (cases k) auto
    have k31: "k \<le> 31"
    proof -
      have "(2::nat) ^ k \<le> 2 ^ 31" using k cle by metis
      then show ?thesis by (rule power_le_imp_le_exp[rotated]) simp
    qed
    have cw: "c = 2 ^ k" by (rule word_unat_eq_iff[THEN iffD2]) (use k k31 unat_pow2[where 'a = 32 and k = k] in simp)
    then have m: "c - 1 = mask k" by (simp add: mask_eq_decr_exp)
    have "smear 16 (smear 8 (smear 4 (smear 2 (smear 1 (c - 1))))) = mask (Suc (k - 1))"
      unfolding m by (rule smear_all_mask) (use kpos k31 in \<open>auto simp: bit_mask_iff\<close>)
    then have "uint (smeared want) = uint c" unfolding np using kpos cw by (simp add: mask_eq_decr_exp)
    moreover have "want = 2 ^ k" using k u assms(1) by (metis c of_nat_numeral of_nat_power uint_nat)
    ultimately show ?thesis using c assms(1) by auto
  next
    case False
    then have "uint (smeared want) = uint (round_capacity c)"
      unfolding np by (auto simp: round_capacity_def Let_def)
    moreover obtain k where k: "unat (round_capacity c) = 2 ^ k" "unat c \<le> 2 ^ k" "2 ^ k < 2 * unat c"
      using round_capacity_pow2[OF cpos cle] by blast
    moreover have "uint (round_capacity c) = 2 ^ k"
      by (metis k(1) of_nat_numeral of_nat_power uint_nat)
    moreover have "want \<le> 2 ^ k" "2 ^ k < 2 * want"
    proof -
      have "int (unat c) = want" using u assms(1) by simp
      moreover have "int (2 ^ k) = 2 ^ k" by simp
      ultimately show "want \<le> 2 ^ k" "2 ^ k < 2 * want" using k(2,3) by linarith+
    qed
    ultimately show ?thesis by auto
  qed
qed

text \<open>With a request of at most \<open>2 ^ 30\<close> the result still fits.\<close>

lemma next_pow2_bounds:
  assumes "2 \<le> want" "want \<le> 2 ^ 30"
  shows "\<exists>k. next_pow2 want = 2 ^ k \<and> want \<le> 2 ^ k \<and> 2 ^ k < 2 * want"
proof -
  obtain k where k: "uint (smeared want) = 2 ^ k" "want \<le> 2 ^ k" "2 ^ k < 2 * want"
    using smeared_bounds[of want] assms by auto
  have "uint (smeared want) < 2 ^ 31" using k(1,3) assms(2) by simp
  moreover have low: "- 2147483648 \<le> uint (smeared want)" using uint_nonnegative[of "smeared want"] by linarith
  ultimately have "sint (smeared want) = uint (smeared want)"
    unfolding sint_uint by (intro signed_take_bit_int_eq_self) (simp_all add: low)
  then show ?thesis using k by (auto simp: next_pow2_def smeared_def)
qed

text \<open>One more than that and the sum overflows.\<close>

lemma next_pow2_overflows: "next_pow2 (2 ^ 30 + 1) = - (2 ^ 31)"
  by code_simp

text \<open>
  The regions of the scratch buffer in order, with the lengths the kernels index them up to:
  \<open>q\<close> remote queues, \<open>owned\<close> entries in the rings of their owners, \<open>all\<close> chunks of the whole output.
\<close>

definition scratch_regions :: "scratch_layout \<Rightarrow> int \<Rightarrow> int \<Rightarrow> int \<Rightarrow> (int \<times> int) list" where
  "scratch_regions s q owned all = [
      (chunk_remote_arrived_offset s, total_chunks s), (arrival_queue_head_offset s, q),
      (local_ar_done_offset s, 1), (send_issued_offset s, 1), (remote_arrived_offset s, 1),
      (published_offset s, 1), (final_publish_done_offset s, 1), (debug_flags_offset s, 1),
      (debug_dump_counter_offset s, 1), (queue_expected_offset s, q), (queue_observed_offset s, q),
      (row_send_count_offset s, row_blocks_per_slice s), (gemm_tiles_ready_count_offset s,
      total_chunks s), (gemm_tile_scanned_offset s, slice_tiles s), (gemm_rq_entries_offset s,
      gemm_rq_capacity s), (gemm_rq_head_offset s, 1), (gemm_rq_tail_offset s, 1),
      (gemm_scan_cursor_offset s, 1), (local_ar_rq_entries_offset s, gemm_rq_capacity s),
      (local_ar_rq_head_offset s, 1), (local_ar_rq_tail_offset s, 1), (remote_rq_entries_offset s,
      gemm_rq_capacity s), (remote_rq_head_offset s, 1), (remote_rq_tail_offset s, 1),
      (owner_pending_entries_offset s, owned), (owner_pending_head_offset s,
      q), (owner_pending_tail_offset s, q), (owner_pending_max_depth_offset s, q),
      (owner_pending_push_count_offset s, q), (owner_pending_pop_count_offset s, q),
      (local_done_flag_offset s, total_chunks s), (remote_arrived_flag_offset s, total_chunks s),
      (remote_arrived_peer_mask_offset s, total_chunks s), (intra_started_flag_offset s, 16),
      (reduce_cursor_offset s, 1), (chunk_claimed_flag_offset s, total_chunks s),
      (comp_chunk_tiles_done_offset s, all), (intra_chunk_tiles_done_offset s,
      total_chunks s), (xnode_ready_offset s, 1)]"

text \<open>Regions that follow each other up to \<open>fin\<close>, none of negative length.\<close>

fun contiguous :: "(int \<times> int) list \<Rightarrow> int \<Rightarrow> bool" where
  "contiguous [] fin = True"
| "contiguous [(off, n)] fin \<longleftrightarrow> 0 \<le> n \<and> off + n = fin"
| "contiguous ((off, n) # (off', n') # rest) fin \<longleftrightarrow> 0 \<le> n \<and> off + n = off' \<and> contiguous ((off', n') # rest) fin"

lemma contiguous_after:
  "contiguous ((off, n) # rs) fin \<Longrightarrow> (off', n') \<in> set rs \<Longrightarrow> off + n \<le> off' \<and> 0 \<le> n' \<and> off' + n' \<le> fin"
proof (induction rs arbitrary: off n off' n')
  case (Cons r rs)
  obtain o2 n2 where r: "r = (o2, n2)" by (cases r)
  have c: "0 \<le> n" "off + n = o2" "contiguous ((o2, n2) # rs) fin" using Cons.prems(1) r by auto
  note IH = Cons.IH[OF c(3)]
  have "0 \<le> n2 \<and> o2 + n2 \<le> fin"
  proof (cases rs)
    case Nil
    then show ?thesis using c(3) by simp
  next
    case (Cons r2 rs2)
    obtain o3 n3 where r2: "r2 = (o3, n3)" by (cases r2)
    have "0 \<le> n2" using c(3) Cons r2 by simp
    then show ?thesis using IH[of o3 n3] Cons r2 by simp
  qed
  then show ?case using IH Cons.prems(2) c r by fastforce
qed simp

lemma contiguous_disjoint:
  assumes "contiguous rs fin" "i < j" "j < length rs"
  shows "fst (rs ! i) + snd (rs ! i) \<le> fst (rs ! j) \<and> fst (rs ! j) + snd (rs ! j) \<le> fin"
  using assms
proof (induction rs arbitrary: i j)
  case (Cons r rs)
  obtain o1 n1 where r: "r = (o1, n1)" by (cases r)
  obtain j' where j: "j = Suc j'" using Cons.prems(2) by (cases j) auto
  show ?case
  proof (cases i)
    case 0
    have "rs ! j' \<in> set rs" using Cons.prems(3) j by simp
    then show ?thesis using contiguous_after[of o1 n1 rs fin "fst (rs ! j')" "snd (rs ! j')"] Cons.prems(1) r j 0 by simp
  next
    case (Suc i')
    have "contiguous rs fin" using Cons.prems(1) by (cases rs; cases r; cases "hd rs") auto
    then show ?thesis using Cons.IH[of i' j'] Cons.prems Suc j by simp
  qed
qed simp

text \<open>
  Regions laid out one after the other with sums that may wrap: when the lengths together fit an
  \<open>int\<close>, none does.
\<close>

fun regions_laid_out :: "(int \<times> int) list \<Rightarrow> int \<Rightarrow> bool" where
  "regions_laid_out [] fin = True"
| "regions_laid_out [(off, n)] fin \<longleftrightarrow> fin = i32 (off + n)"
| "regions_laid_out ((off, n) # (off', n') # rest) fin \<longleftrightarrow> off' = i32 (off + n) \<and> regions_laid_out ((off', n') # rest) fin"

lemma laid_out_contiguous:
  assumes "regions_laid_out rs fin" "rs \<noteq> []" "0 \<le> fst (hd rs)" "\<forall>r \<in> set rs. 0 \<le> snd r"
    and "fst (hd rs) + sum_list (map snd rs) < 2 ^ 31"
  shows "contiguous rs fin \<and> fin = fst (hd rs) + sum_list (map snd rs) \<and> (\<forall>r \<in> set rs. 0 \<le> fst r)"
  using assms
proof (induction rs fin rule: regions_laid_out.induct)
  case (3 off n off' n' rest fin)
  have "0 \<le> sum_list (map snd rest)" using 3(5) by (intro sum_list_nonneg) auto
  moreover have n: "0 \<le> n" "0 \<le> n'" using 3(5) by auto
  ultimately have off': "off' = off + n" using 3(2,4,6) by simp
  from 3(1)[OF 3(2)[unfolded regions_laid_out.simps, THEN conjunct2]] 3(4-6) off' n show ?case by (auto simp: algebra_simps)
qed simp_all

lemma layout_fields:
  fixes ov M N q alloc nodes
  defines "s \<equiv> gemm_ar_compute_scratch_layout ov M N q alloc nodes"
  shows "row_blocks_per_slice s = c_div (c_div M NUM_DEVICES) ROW_BLOCK" "col_blocks s = c_div N COL_BLOCK"
    "chunks_per_row s = gemm_ar_chunks_per_row True ov (col_blocks s)"
    "chunk_tiles s = gemm_ar_chunk_tiles True ov (col_blocks s)"
    "total_chunks s = i32 (row_blocks_per_slice s * chunks_per_row s)"
    "slice_tiles s = i32 (row_blocks_per_slice s * col_blocks s)"
    "total_tiles s = i32 (c_div M ROW_BLOCK * col_blocks s)"
    "gemm_rq_capacity s = next_pow2 (max 16 (total_chunks s))"
    "owner_pending_capacity s = next_pow2 (max 8 (i32 (chunks_per_row s * 2)))"
    "remote_queue_stride s = max 1 (c_div (i32 (i32 (i32 (total_tiles s * max 1 (i32 (nodes - 1))) + alloc) - 1)) alloc)"
  by (simp_all only: s_def gemm_ar_compute_scratch_layout_def Let_def scratch_layout.select_convs)

lemma layout_slice_rows: "slice_rows (gemm_ar_compute_scratch_layout ov M N q alloc nodes) = c_div M NUM_DEVICES"
  by (simp only: gemm_ar_compute_scratch_layout_def Let_def scratch_layout.select_convs)

lemma scratch_laid_out:
  assumes "s = gemm_ar_compute_scratch_layout ov M N q alloc nodes"
  shows "regions_laid_out (scratch_regions s q (i32 (q * owner_pending_capacity s)) (i32 (c_div M ROW_BLOCK * chunks_per_row s)))
    (scratch_ints_needed s)" "chunk_remote_arrived_offset s = 0"
  unfolding assms
  by (simp_all add: gemm_ar_compute_scratch_layout_def scratch_regions_def Let_def del: i32_small)

text \<open>
  The sizes within which the host's arithmetic is exact: at most 384 queues (24 queue pairs with 16 logical
  queues each), less than \<open>2 ^ 24\<close> tiles and at most \<open>2 ^ 16\<close> tiles in a row.
\<close>

definition sizes_ok :: "int \<Rightarrow> int \<Rightarrow> int \<Rightarrow> bool" where
  "sizes_ok M N q \<longleftrightarrow> 0 \<le> M \<and> COL_BLOCK \<le> N \<and> 0 < q \<and> q \<le> 384
     \<and> M div ROW_BLOCK * (N div COL_BLOCK) < 2 ^ 24 \<and> N div COL_BLOCK \<le> 2 ^ 16"

lemma chunks_per_row_le:
  assumes "0 < C"
  shows "gemm_ar_chunks_per_row h ov C \<le> C"
proof -
  let ?k = "gemm_ar_chunks_per_row h ov C - 1"
  have "?k * gemm_ar_chunk_tiles h ov C < C" by (rule chunk_col_starts[OF assms]) simp
  moreover have "?k * 1 \<le> ?k * gemm_ar_chunk_tiles h ov C"
    using chunk_tiles_pos[OF assms, of h ov] chunks_per_row_pos[OF assms, of h ov] by (intro mult_left_mono) auto
  ultimately show ?thesis by simp
qed

lemma layout_sizes:
  assumes ok: "sizes_ok M N q" and s: "s = gemm_ar_compute_scratch_layout ov M N q alloc nodes"
  defines "r \<equiv> M div NUM_DEVICES div ROW_BLOCK" and "c \<equiv> N div COL_BLOCK"
  shows "row_blocks_per_slice s = r" "col_blocks s = c" "0 \<le> r" "1 \<le> chunks_per_row s" "chunks_per_row s \<le> c"
    "total_chunks s = r * chunks_per_row s" "slice_tiles s = r * c" "0 \<le> total_chunks s"
    "total_chunks s \<le> r * c" "8 * (r * c) < 2 ^ 24" "0 \<le> r * c"
    "c_div M ROW_BLOCK = M div ROW_BLOCK" "0 \<le> M div ROW_BLOCK * chunks_per_row s" "M div ROW_BLOCK * chunks_per_row s < 2 ^ 24"
    "c \<le> 2 ^ 16" "r \<le> r * c"
proof -
  note F = layout_fields[of ov M N q alloc nodes, folded s]
  have ok': "0 \<le> M" "256 \<le> N" "M div 128 * c < 2 ^ 24" "c \<le> 2 ^ 16"
    using ok by (simp_all add: sizes_ok_def c_def tile_simps)
  have pos: "0 < c" "0 \<le> M div 128" "0 \<le> M div 8"
    using ok'(1,2) by (simp_all add: c_def tile_simps pos_imp_zdiv_pos_iff pos_imp_zdiv_nonneg_iff)
  have "r = M div 128 div 8"
    by (simp add: r_def tile_simps zdiv_zmult2_eq[symmetric] mult.commute)
  then have r8: "8 * r \<le> M div 128" using pos(2) by simp
  show r0: "0 \<le> r" using pos(3) by (simp add: r_def tile_simps pos_imp_zdiv_nonneg_iff)
  show rb: "row_blocks_per_slice s = r" and cb: "col_blocks s = c" and m: "c_div M ROW_BLOCK = M div ROW_BLOCK"
    using ok'(1,2) pos by (simp_all add: F(1,2) r_def c_def tile_simps)
  show n: "1 \<le> chunks_per_row s" "chunks_per_row s \<le> c"
    using chunks_per_row_pos[OF pos(1), of True ov] chunks_per_row_le[OF pos(1), of True ov]
    by (simp_all add: F(3) cb)
  have "8 * (r * c) \<le> M div 128 * c" using mult_right_mono[OF r8, of c] pos(1) by simp
  then show rc: "8 * (r * c) < 2 ^ 24" using ok'(3) by linarith
  show rc0: "0 \<le> r * c" using r0 pos(1) by simp
  have t: "0 \<le> r * chunks_per_row s" "r * chunks_per_row s \<le> r * c"
    using r0 n pos(1) by (simp_all add: mult_left_mono)
  have "u < 2 ^ 21" if "8 * u < 2 ^ 24" for u :: int using that by simp
  then have "r * c < 2 ^ 21" using rc by blast
  then show tc: "total_chunks s = r * chunks_per_row s" "slice_tiles s = r * c"
    unfolding F(5,6) rb cb using t rc0 by simp_all
  show "0 \<le> total_chunks s" "total_chunks s \<le> r * c" unfolding tc using t by simp_all
  have "M div 128 * chunks_per_row s \<le> M div 128 * c" using n pos(2) by (intro mult_left_mono) auto
  then show "0 \<le> M div ROW_BLOCK * chunks_per_row s" "M div ROW_BLOCK * chunks_per_row s < 2 ^ 24"
    using n pos(2) ok'(3) by (simp_all add: tile_simps)
  show "c \<le> 2 ^ 16" by (rule ok'(4))
  show "r \<le> r * c" using mult_left_mono[of 1 c r] pos(1) r0 by simp
qed

lemma scratch_contiguous:
  assumes ok: "sizes_ok M N q" and s: "s = gemm_ar_compute_scratch_layout ov M N q alloc nodes"
  defines "rs \<equiv> scratch_regions s q (q * owner_pending_capacity s) (M div ROW_BLOCK * chunks_per_row s)"
  shows "contiguous rs (scratch_ints_needed s) \<and> (\<forall>r \<in> set rs. 0 \<le> fst r) \<and> scratch_ints_needed s < 2 ^ 31"
    and "total_chunks s \<le> gemm_rq_capacity s \<and> (\<exists>k. gemm_rq_capacity s = 2 ^ k)"
    and "2 * chunks_per_row s \<le> owner_pending_capacity s \<and> (\<exists>k. owner_pending_capacity s = 2 ^ k)"
proof -
  note Z = layout_sizes[OF ok s] and F = layout_fields[of ov M N q alloc nodes, folded s]
  have q: "0 < q" "q \<le> 384" using ok by (simp_all add: sizes_ok_def)
  have n2: "i32 (chunks_per_row s * 2) = chunks_per_row s * 2" using Z(4,5,15) by simp
  define g where "g = gemm_rq_capacity s"
  define w where "w = owner_pending_capacity s"
  define u where "u = M div NUM_DEVICES div ROW_BLOCK * (N div COL_BLOCK)"
  have "u < 2 ^ 21" using Z(10)[folded u_def] by simp
  then have t: "total_chunks s < 2 ^ 21" "slice_tiles s < 2 ^ 21" "row_blocks_per_slice s < 2 ^ 21" "0 \<le> slice_tiles s"
    "0 \<le> row_blocks_per_slice s"
    using Z(3,9,11,16)[folded u_def] by (simp_all add: Z(1) Z(7)[folded u_def])
  have "2 \<le> max 16 (total_chunks s)" "max 16 (total_chunks s) \<le> 2 ^ 30" using t(1) by auto
  then obtain k where k: "g = 2 ^ k" "max 16 (total_chunks s) \<le> g" "g < 2 * max 16 (total_chunks s)"
    using next_pow2_bounds unfolding g_def F(8) by metis
  have "2 \<le> max 8 (i32 (chunks_per_row s * 2))" "max 8 (i32 (chunks_per_row s * 2)) \<le> 2 ^ 30"
    unfolding n2 using Z(5,15) by auto
  then obtain j where j: "w = 2 ^ j" "max 8 (i32 (chunks_per_row s * 2)) \<le> w" "w < 2 * max 8 (i32 (chunks_per_row s * 2))"
    using next_pow2_bounds unfolding w_def F(9) by metis
  show "total_chunks s \<le> gemm_rq_capacity s \<and> (\<exists>k. gemm_rq_capacity s = 2 ^ k)"
    using k unfolding g_def by auto
  show "2 * chunks_per_row s \<le> owner_pending_capacity s \<and> (\<exists>k. owner_pending_capacity s = 2 ^ k)"
    using j unfolding w_def n2 by auto
  have g: "0 \<le> g" "g < 2 ^ 23" using k(2,3) Z(8) t(1) by auto
  have w: "0 \<le> w" "w < 2 ^ 19" using j(2,3) Z(5,15) unfolding n2 by auto
  have "q * w \<le> 384 * 2 ^ 19" using q w by (intro mult_mono) auto
  then have qw: "0 \<le> q * w" "q * w < 2 ^ 28" using q w by simp_all
  define a where "a = M div ROW_BLOCK * chunks_per_row s"
  have a: "0 \<le> a" "a < 2 ^ 24" using Z(13,14) by (simp_all add: a_def)
  have e: "i32 (q * owner_pending_capacity s) = q * w" "i32 (c_div M ROW_BLOCK * chunks_per_row s) = a"
    unfolding w_def[symmetric] Z(12) a_def[symmetric] using qw a by simp_all
  have rs: "rs = scratch_regions s q (q * w) a" by (simp add: rs_def w_def a_def)
  have l: "regions_laid_out rs (scratch_ints_needed s)" using scratch_laid_out(1)[OF s] unfolding e rs .
  have hd: "rs \<noteq> []" "fst (hd rs) = 0" using scratch_laid_out(2)[OF s] by (simp_all add: rs scratch_regions_def)
  have nn: "\<forall>x \<in> set rs. 0 \<le> snd x"
    using q qw a g t Z(8) unfolding rs scratch_regions_def g_def by simp
  have sum: "sum_list (map snd rs) = 7 * total_chunks s + slice_tiles s + row_blocks_per_slice s + 8 * q + q * w + a + 3 * g + 32"
    unfolding rs scratch_regions_def g_def by simp
  then have "sum_list (map snd rs) < 2 ^ 31"
    using t q qw a g by simp
  then show "contiguous rs (scratch_ints_needed s) \<and> (\<forall>r \<in> set rs. 0 \<le> fst r) \<and> scratch_ints_needed s < 2 ^ 31"
    using laid_out_contiguous[OF l hd(1) _ nn] unfolding hd(2) by auto
qed


section \<open>Properties\<close>

text \<open>
  When the checks of the entry point pass, the 132 thread blocks and the roles with
  their local indices correspond one to one; there is at least one block to compute, to send and
  to reduce, and no more senders than rows of blocks.
\<close>

theorem roles_partition_blocks:
  assumes "G = gemm_ar_compute_role_split send_env recv_env intra_sms inter_sms rows" "0 \<le> intra_sms" "0 < rows"
    and "check_split G = Inr ()"
  shows "bij_betw (role_of_block G) {0..<NUM_BLOCKS} (split_roles G)
    \<and> Comp 0 \<in> split_roles G \<and> Send 0 \<in> split_roles G \<and> Reduce 0 \<in> split_roles G
    \<and> num_inter_send_sms G \<le> rows"
proof -
  note sums = split_sums[OF assms(1)]
  have pos: "0 < num_comp_sms G" "0 < num_inter_reduce_store_sms G"
    using assms(4) by (auto simp: check_split_def split: if_splits)
  then have "bij_betw (role_of_block G) {0..<NUM_BLOCKS} (split_roles G)"
    by (intro role_of_block_bij) (use sums(1-5) assms(2) pos in linarith)+
  moreover have "Comp 0 \<in> split_roles G" "Send 0 \<in> split_roles G" "Reduce 0 \<in> split_roles G"
    unfolding split_roles_def using pos sums(3) by simp_all
  ultimately show ?thesis using sums(6)[OF assms(3)] by blast
qed

lemma roles_partition_blocks_witness:
  "bij_betw (role_of_block (gemm_ar_compute_role_split None (Some 2) 16 20 32)) {0..<NUM_BLOCKS}
     (split_roles (gemm_ar_compute_role_split None (Some 2) 16 20 32))"
  by (rule roles_partition_blocks[OF refl, THEN conjunct1])
     (simp_all add: check_split_def gemm_ar_compute_role_split_def NUM_BLOCKS_def Let_def)

text \<open>
  C39 (bounds): with the host's 32-bit arithmetic, and as long as there are at most 384 queues, fewer
  than \<open>2 ^ 24\<close> tiles and at most \<open>2 ^ 16\<close> tiles in a row, no size or offset wraps: the regions of
  the scratch buffer start at 0, follow each other without overlap in the order of the code and end
  where scratch_ints_needed says, which fits an \<open>int\<close>. A ring of the ready queues has room for
  every chunk of a slice, the ring of an owner for two chunks for each chunk of a row, and both
  capacities are powers of two. At \<open>2 ^ 30 + 1\<close> chunks the rounding overflows
  (\<open>next_pow2_overflows\<close>).
\<close>

theorem scratch_regions_disjoint:
  assumes "0 \<le> M" "COL_BLOCK \<le> N" "0 < num_remote_queues" "num_remote_queues \<le> 384"
    and "M div ROW_BLOCK * (N div COL_BLOCK) < 2 ^ 24" "N div COL_BLOCK \<le> 2 ^ 16"
    and "s = gemm_ar_compute_scratch_layout override M N num_remote_queues alloc nodes"
    and "rs = scratch_regions s num_remote_queues (num_remote_queues * owner_pending_capacity s)
      (M div ROW_BLOCK * chunks_per_row s)" "i < j" "j < length rs"
  shows "0 \<le> fst (rs ! i) \<and> fst (rs ! i) + snd (rs ! i) \<le> fst (rs ! j) \<and>
    fst (rs ! j) + snd (rs ! j) \<le> scratch_ints_needed s \<and> scratch_ints_needed s < 2 ^ 31 \<and>
    total_chunks s = row_blocks_per_slice s * chunks_per_row s \<and>
    total_chunks s \<le> gemm_rq_capacity s \<and> (\<exists>k. gemm_rq_capacity s = 2 ^ k) \<and>
    2 * chunks_per_row s \<le> owner_pending_capacity s \<and> (\<exists>k. owner_pending_capacity s = 2 ^ k)"
proof -
  have ok: "sizes_ok M N num_remote_queues" using assms(1-6) by (simp add: sizes_ok_def)
  note c = scratch_contiguous[OF ok assms(7), folded assms(8)]
  have "0 \<le> fst (rs ! i)" using c(1) assms(9,10) by simp
  then show ?thesis
    using contiguous_disjoint[OF conjunct1[OF c(1)] assms(9,10)] c layout_sizes(1,6)[OF ok assms(7)] by simp
qed

lemma scratch_regions_disjoint_witness:
  "(let s = gemm_ar_compute_scratch_layout None 8192 4096 8 8 2;
        rs = scratch_regions s 8 (8 * owner_pending_capacity s) (64 * chunks_per_row s)
    in fst (rs ! 3) + snd (rs ! 3) \<le> fst (rs ! 30) \<and> scratch_ints_needed s < 2 ^ 31)"
proof -
  have "length (scratch_regions s q u v) = 39" for s q u v by (simp add: scratch_regions_def)
  then show ?thesis
    using scratch_regions_disjoint[of 8192 4096 8 _ None 8 2 _ 3 30, OF _ _ _ _ _ _ refl refl]
    by (simp add: tile_simps Let_def)
qed

text \<open>
  Everything rests on the row blocks being a multiple of the devices: with nine rows of blocks
  the tasks of the ninth visit a row of the second slice again and the ninth row is never
  computed. Neither the kernel nor the entry point looks.
\<close>

lemma ragged_rows_twice:
  "slice_interleaved_slices_decode 8 1 1 NUM_DEVICES = slice_interleaved_slices_decode 1 1 1 NUM_DEVICES"
  by (simp add: slice_interleaved_slices_decode_def Let_def tile_simps)

text \<open>
  With GEMM_AR_CHUNK_TILES=8 the host lays out two chunks for a row of 16 tiles; the device code
  decodes the second chunk of row 0 with four chunks to a row, and so finds column 8 right, but
  the chunk after it in row 0 instead of row 1.
\<close>

lemma chunk_override_misplaces:
  "gemm_ar_chunks_per_row True (Some 8) 16 = 2"
  "rb_in_slice (gemm_ar_chunk_decode True (Some 8) 2 4 16 8 0) = 1"
  "rb_in_slice (gemm_ar_chunk_decode False (Some 8) 2 4 16 8 0) = 0"
  "col_start (gemm_ar_chunk_decode False (Some 8) 2 4 16 8 0) = 16"
  by (simp_all add: gemm_ar_chunk_decode_def gemm_ar_chunks_per_row_def gemm_ar_chunk_tiles_def ceil_div_def Let_def)

end
