(* ===== verification/Gemm_AR_Flow.thy ===== *)
theory Gemm_AR_Flow
  imports Gemm_AR_Layout
begin

text \<open>
  The first half of the fused GEMM + all-reduce kernel (\<open>src/src/gemm_ar.cu\<close>): what the
  compute blocks signal, what the intra-node blocks wait for and publish, and which commands the
  send blocks post. Block-level parallelism is an arbitrary order of the atomic events.
\<close>

section \<open>Globals\<close>

text \<open>The members of \<open>fused_globals\<close> the control flow reads; the buffers are elsewhere.\<close>

record fused_globals =
  lay :: scratch_layout
  split :: role_split
  g_N :: int
  dev_idx :: int
  node_idx :: int
  num_nodes :: int
  num_remote_queues :: int
  epoch :: u32
  d2h_fifos :: "nat D2HFifoDeviceBundle"
  intra_ready_multimem :: bool
  early_remote_accum :: bool
  defer_final_multicast_finish :: bool

abbreviation rbs :: "fused_globals \<Rightarrow> int" where "rbs G \<equiv> row_blocks_per_slice (lay G)"
abbreviation cbs :: "fused_globals \<Rightarrow> int" where "cbs G \<equiv> col_blocks (lay G)"
abbreviation ctiles :: "fused_globals \<Rightarrow> int" where "ctiles G \<equiv> chunk_tiles (lay G)"
abbreviation cpr :: "fused_globals \<Rightarrow> int" where "cpr G \<equiv> chunks_per_row (lay G)"

text \<open>
  \<open>gemm_ar_make_globals\<close> and the assignments of the entry point that follow it
  (gemm_ar.cuh:1460-1477); the environment variables are optional strings.
\<close>

definition env_starts :: "(char \<Rightarrow> bool) \<Rightarrow> string option \<Rightarrow> bool" where
  "env_starts P v = (case v of Some (c # _) \<Rightarrow> P c | _ \<Rightarrow> False)"

definition gemm_ar_make_globals ::
    "scratch_layout \<Rightarrow> role_split \<Rightarrow> int \<Rightarrow> int \<Rightarrow> int \<Rightarrow> int \<Rightarrow> int \<Rightarrow> int \<Rightarrow> nat D2HFifoDeviceBundle
      \<Rightarrow> string option \<Rightarrow> bool \<Rightarrow> string option \<Rightarrow> fused_globals" where
  "gemm_ar_make_globals scratch roles n local_rank node nodes queues ep fifo_bundle env_multimem has_accum env_accum =
     \<lparr>lay = scratch, split = roles, g_N = n, dev_idx = local_rank, node_idx = node, num_nodes = nodes,
      num_remote_queues = queues, epoch = word_of_int ep, d2h_fifos = fifo_bundle,
      intra_ready_multimem = env_starts (\<lambda>c. c \<noteq> CHR ''0'') env_multimem,
      early_remote_accum = (has_accum \<and> env_starts (\<lambda>c. c = CHR ''1'') env_accum),
      defer_final_multicast_finish = (total_chunks scratch > 16)\<rparr>"

text \<open>What the entry point guarantees when no override of the chunk size is set.\<close>

definition globals_ok :: "fused_globals \<Rightarrow> bool" where
  "globals_ok G \<longleftrightarrow> 0 < rbs G \<and> 0 < cbs G
     \<and> ctiles G = gemm_ar_chunk_tiles False None (cbs G) \<and> cpr G = gemm_ar_chunks_per_row False None (cbs G)
     \<and> total_chunks (lay G) = rbs G * cpr G \<and> slice_tiles (lay G) = rbs G * cbs G
     \<and> 0 \<le> dev_idx G \<and> dev_idx G < NUM_DEVICES \<and> 0 \<le> node_idx G \<and> node_idx G < num_nodes G"

lemma make_globals_ok:
  assumes "s = gemm_ar_compute_scratch_layout None M N queues alloc nodes" "NUM_DEVICES * ROW_BLOCK \<le> M" "COL_BLOCK \<le> N"
    and "M div NUM_DEVICES div ROW_BLOCK * (N div COL_BLOCK) < 2 ^ 31" "0 \<le> d" "d < NUM_DEVICES" "0 \<le> node" "node < nodes"
  shows "globals_ok (gemm_ar_make_globals s roles N d node nodes queues ep fb em ha ea)"
proof -
  have pos: "0 < M div NUM_DEVICES div ROW_BLOCK" "0 < N div COL_BLOCK" "0 \<le> M" "0 \<le> N" "0 \<le> M div NUM_DEVICES"
    using assms(2,3) by (simp_all add: tile_simps pos_imp_zdiv_pos_iff pos_imp_zdiv_nonneg_iff zdiv_zmult2_eq[symmetric])
  have d: "c_div M NUM_DEVICES = M div NUM_DEVICES" "c_div (M div NUM_DEVICES) ROW_BLOCK = M div NUM_DEVICES div ROW_BLOCK"
    "c_div N COL_BLOCK = N div COL_BLOCK"
    using pos by (simp_all add: tile_simps)
  have host: "gemm_ar_chunk_tiles True None c = gemm_ar_chunk_tiles False None c"
    "gemm_ar_chunks_per_row True None c = gemm_ar_chunks_per_row False None c" for c
    by (simp_all add: gemm_ar_chunks_per_row_def gemm_ar_chunk_tiles_def)
  define r where "r = M div NUM_DEVICES div ROW_BLOCK"
  define c where "c = N div COL_BLOCK"
  note F = layout_fields[of None M N queues alloc nodes, folded assms(1), unfolded d, folded r_def c_def]
  have rc: "0 < r" "0 < c" "r * c < 2 ^ 31" using pos assms(4) by (simp_all add: r_def c_def)
  have n: "0 < gemm_ar_chunks_per_row True None c" "gemm_ar_chunks_per_row True None c \<le> c"
    using chunks_per_row_pos[OF rc(2)] chunks_per_row_le[OF rc(2)] by blast+
  have "r * gemm_ar_chunks_per_row True None c \<le> r * c" "0 \<le> r * gemm_ar_chunks_per_row True None c" "0 \<le> r * c"
    using n rc(1,2) by (simp_all add: mult_left_mono)
  then have small: "i32 (r * gemm_ar_chunks_per_row True None c) = r * gemm_ar_chunks_per_row True None c"
    "i32 (r * c) = r * c" using rc(3) by simp_all
  show ?thesis using rc(1,2) assms(5-)
    by (simp add: globals_ok_def gemm_ar_make_globals_def F host small[unfolded host] del: i32_small)
qed

lemma globals_chunks:
  assumes "globals_ok G"
  shows "0 < ctiles G" "ctiles G \<le> cbs G" "0 < cpr G" "0 < rbs G" "0 < cbs G"
  using assms chunk_tiles_pos[of "cbs G" False None] chunks_per_row_pos[of "cbs G" False None]
  by (auto simp: globals_ok_def)

section \<open>The last of a group\<close>

text \<open>
  An atomic counter for each key; the item that brings it to \<open>need\<close> fires the key.
\<close>

definition count_done :: "('x \<Rightarrow> 'k) \<Rightarrow> ('k \<Rightarrow> int) \<Rightarrow> 'x \<Rightarrow> ('k \<Rightarrow> int) \<times> 'k list \<Rightarrow> ('k \<Rightarrow> int) \<times> 'k list" where
  "count_done key need x = (\<lambda>(cnt, fired). let k = key x; prev = cnt k
     in (cnt(k := prev + 1), if prev = need k - 1 then fired @ [k] else fired))"

definition num_with :: "('x \<Rightarrow> 'k) \<Rightarrow> 'x list \<Rightarrow> 'k \<Rightarrow> int" where
  "num_with key xs k = int (length (filter (\<lambda>x. key x = k) xs))"

lemma num_with_simps [simp]:
  "num_with key [] k = 0"
  "num_with key (xs @ [x]) k = num_with key xs k + of_bool (key x = k)"
  by (simp_all add: num_with_def)

lemma num_with_nonneg [simp]: "0 \<le> num_with key xs k"
  by (simp add: num_with_def)

lemma count_done_fold:
  assumes "\<And>k. 1 \<le> need k"
  shows "fst (fold (count_done key need) xs (\<lambda>_. 0, [])) = num_with key xs
    \<and> distinct (snd (fold (count_done key need) xs (\<lambda>_. 0, [])))
    \<and> set (snd (fold (count_done key need) xs (\<lambda>_. 0, []))) = {k. need k \<le> num_with key xs k}"
proof (induction xs rule: rev_induct)
  case Nil
  have "\<not> need k \<le> 0" for k using assms[of k] by simp
  then show ?case by auto
next
  case (snoc x xs)
  obtain cnt fired where f: "fold (count_done key need) xs (\<lambda>_. 0, []) = (cnt, fired)" by fastforce
  have IH: "cnt = num_with key xs" "distinct fired" "set fired = {k. need k \<le> num_with key xs k}"
    using snoc f by auto
  have step: "fold (count_done key need) (xs @ [x]) (\<lambda>_. 0, [])
    = (cnt(key x := cnt (key x) + 1), if cnt (key x) = need (key x) - 1 then fired @ [key x] else fired)"
    by (simp add: f count_done_def Let_def)
  show ?case unfolding step using IH(2,3) by (auto simp: IH(1) fun_eq_iff)
qed

text \<open>When no item occurs twice, a key has fired exactly when its whole group has been counted.\<close>

lemma group_complete:
  assumes "distinct xs" "set xs \<subseteq> A" "finite A"
  shows "int (card {x \<in> A. key x = k}) \<le> num_with key xs k \<longleftrightarrow> {x \<in> A. key x = k} \<subseteq> set xs"
proof -
  have n: "num_with key xs k = int (card {x \<in> set xs. key x = k})"
    using assms(1) distinct_card[of "filter (\<lambda>x. key x = k) xs"] by (simp add: num_with_def)
  have sub: "{x \<in> set xs. key x = k} \<subseteq> {x \<in> A. key x = k}" using assms(2) by auto
  show ?thesis
  proof
    assume "int (card {x \<in> A. key x = k}) \<le> num_with key xs k"
    then have "{x \<in> set xs. key x = k} = {x \<in> A. key x = k}"
      using n sub assms(3) by (intro card_seteq) auto
    then show "{x \<in> A. key x = k} \<subseteq> set xs" by auto
  next
    assume "{x \<in> A. key x = k} \<subseteq> set xs"
    then have "{x \<in> A. key x = k} \<subseteq> {x \<in> set xs. key x = k}" by auto
    then show "int (card {x \<in> A. key x = k}) \<le> num_with key xs k"
      using n by (simp add: card_mono)
  qed
qed

section \<open>Compute blocks\<close>

definition gemm_ar_decode_comp_task :: "int \<Rightarrow> int \<Rightarrow> int \<Rightarrow> int \<Rightarrow> int \<times> int" where
  "gemm_ar_decode_comp_task task_id rows cols dev =
     slice_interleaved_slices_decode task_id rows cols NUM_DEVICES"

text \<open>The tasks of a compute block, of the \<open>row_blocks\<close> times \<open>col_blocks\<close> tiles of the output.\<close>

definition comp_tasks :: "fused_globals \<Rightarrow> int \<Rightarrow> int \<Rightarrow> int list" where
  "comp_tasks G row_blocks block = strided block (num_comp_sms (split G)) (row_blocks * cbs G)"

text \<open>
  The end of a task (gemm_ar.cu:140-155): the chunk of the tile, the number of its tiles, and, for
  the last of them, the signal: one added at the owner of the slice, or the epoch stored in the
  own replica.
\<close>

datatype ready_signal = Add_At int "int \<times> int" | Store_Epoch "int \<times> int"

definition comp_chunk :: "fused_globals \<Rightarrow> int \<Rightarrow> int \<times> int" where
  "comp_chunk G task = (let (row, col) = gemm_ar_decode_comp_task task (rbs G) (cbs G) (dev_idx G)
     in (row, c_div col (ctiles G)))"

definition chunk_width :: "fused_globals \<Rightarrow> int \<Rightarrow> int" where
  "chunk_width G chunk_col = min (ctiles G) (cbs G - chunk_col * ctiles G)"

definition comp_finish :: "fused_globals \<Rightarrow> int \<Rightarrow> (int \<Rightarrow> int) \<Rightarrow> (int \<Rightarrow> int) \<times> ready_signal option" where
  "comp_finish G task cnt = (let
     (row, chunk_col) = comp_chunk G task;
     flat_chunk = row * cpr G + chunk_col;
     prev = cnt flat_chunk
   in (cnt(flat_chunk := prev + 1),
       if prev = chunk_width G chunk_col - 1
       then Some (if intra_ready_multimem G then Store_Epoch (row, chunk_col)
                  else Add_At (c_div row (rbs G)) (row, chunk_col))
       else None))"

lemma comp_chunk_range:
  assumes G: "globals_ok G" and t: "t \<in> {0..<NUM_DEVICES * rbs G * cbs G}" and rc: "comp_chunk G t = (row, k)"
  shows "0 \<le> row" "row < NUM_DEVICES * rbs G" "0 \<le> k" "k < cpr G"
proof -
  note g = globals_chunks[OF G]
  obtain col where d: "gemm_ar_decode_comp_task t (rbs G) (cbs G) (dev_idx G) = (row, col)"
    using rc by (auto simp: comp_chunk_def split: prod.splits)
  have b: "bij_betw (\<lambda>t. slice_interleaved_slices_decode t (rbs G) (cbs G) NUM_DEVICES)
      {0..<NUM_DEVICES * rbs G * cbs G} (tiles_of NUM_DEVICES (rbs G) (cbs G))"
    using g by (intro interleaved_bij) (simp_all add: tile_simps)
  have "(row, col) \<in> tiles_of NUM_DEVICES (rbs G) (cbs G)"
    using bij_betwE[OF b] t d by (metis gemm_ar_decode_comp_task_def)
  then have c: "0 \<le> row" "row < NUM_DEVICES * rbs G" "0 \<le> col" "col < cbs G" by (auto simp: tiles_of_def)
  have "k = col div ctiles G" using rc d c g by (simp add: comp_chunk_def)
  then show "0 \<le> row" "row < NUM_DEVICES * rbs G" "0 \<le> k" "k < cpr G"
    using c g chunk_col_bound[of "cbs G" col False None] G
    by (auto simp: globals_ok_def pos_imp_zdiv_nonneg_iff)
qed

text \<open>The tasks of a chunk are as many as its width.\<close>

lemma comp_chunk_card:
  assumes G: "globals_ok G" and row: "0 \<le> row" "row < NUM_DEVICES * rbs G" and k: "0 \<le> k" "k < cpr G"
  shows "int (card {t \<in> {0..<NUM_DEVICES * rbs G * cbs G}. comp_chunk G t = (row, k)}) = chunk_width G k"
    and "1 \<le> chunk_width G k"
proof -
  note g = globals_chunks[OF G]
  let ?T = "{0..<NUM_DEVICES * rbs G * cbs G}"
  let ?f = "\<lambda>t. gemm_ar_decode_comp_task t (rbs G) (cbs G) (dev_idx G)"
  have b: "bij_betw ?f ?T (tiles_of NUM_DEVICES (rbs G) (cbs G))"
    unfolding gemm_ar_decode_comp_task_def using g by (intro interleaved_bij) (simp_all add: tile_simps)
  have start: "k * ctiles G < cbs G"
    using chunk_col_starts[of "cbs G" k False None] k g G by (auto simp: globals_ok_def)
  then show "1 \<le> chunk_width G k" using g by (simp add: chunk_width_def)
  have img: "?f ` {t \<in> ?T. comp_chunk G t = (row, k)} = {row} \<times> {k * ctiles G..<k * ctiles G + chunk_width G k}"
    (is "_ = ?R")
  proof (intro equalityI subsetI)
    fix x assume "x \<in> ?f ` {t \<in> ?T. comp_chunk G t = (row, k)}"
    then obtain t where t: "t \<in> ?T" "x = ?f t" "comp_chunk G t = (row, k)" by blast
    then have x: "x \<in> tiles_of NUM_DEVICES (rbs G) (cbs G)" using bij_betwE[OF b] by blast
    have "fst x = row" "c_div (snd x) (ctiles G) = k"
      using t by (auto simp: comp_chunk_def split: prod.splits)
    then have "fst x = row" "snd x div ctiles G = k" using x g by (auto simp: tiles_of_def)
    then show "x \<in> ?R" using x div_bounds[of "ctiles G" "snd x"] g
      by (cases x) (auto simp: tiles_of_def chunk_width_def algebra_simps)
  next
    fix x assume x: "x \<in> ?R"
    then obtain y where y: "x = (row, y)" "k * ctiles G \<le> y" "y < k * ctiles G + min (ctiles G) (cbs G - k * ctiles G)"
      by (auto simp: chunk_width_def)
    moreover have "0 \<le> k * ctiles G" using k g by simp
    ultimately have "0 \<le> y" "y < cbs G" by auto
    then have "x \<in> tiles_of NUM_DEVICES (rbs G) (cbs G)" using row y(1) by (simp add: tiles_of_def)
    then have "x \<in> ?f ` ?T" using bij_betw_imp_surj_on[OF b] by simp
    then obtain t where t: "t \<in> ?T" "?f t = x" by blast
    have "y div ctiles G = k" using y radix_div[of "y - k * ctiles G" "ctiles G" k] by simp
    then have "comp_chunk G t = (row, k)" using t(2) y(1) \<open>0 \<le> y\<close> g by (simp add: comp_chunk_def)
    then show "x \<in> ?f ` {t \<in> ?T. comp_chunk G t = (row, k)}" using t by blast
  qed
  have inj: "inj_on ?f {t \<in> ?T. comp_chunk G t = (row, k)}"
    by (rule inj_on_subset[OF bij_betw_imp_inj_on[OF b]]) blast
  have "card {t \<in> ?T. comp_chunk G t = (row, k)} = card ?R"
    using card_image[OF inj] unfolding img by simp
  then show "int (card {t \<in> ?T. comp_chunk G t = (row, k)}) = chunk_width G k"
    using \<open>1 \<le> chunk_width G k\<close> by simp
qed


section \<open>All devices of a node\<close>

text \<open>
  The replicas of the barrier: \<open>slot d x\<close> is the word of device \<open>d\<close> for chunk \<open>x\<close>.
  An event is a device together with a task it finished.
\<close>

record node_state =
  comp_done :: "int \<Rightarrow> int \<Rightarrow> int"
  slot :: "int \<Rightarrow> int \<times> int \<Rightarrow> int"

definition node_init :: node_state where
  "node_init = \<lparr>comp_done = (\<lambda>_ _. 0), slot = (\<lambda>_ _. 0)\<rparr>"

definition deliver_signal :: "int \<Rightarrow> u32 \<Rightarrow> ready_signal option \<Rightarrow> (int \<Rightarrow> int \<times> int \<Rightarrow> int) \<Rightarrow> int \<Rightarrow> int \<times> int \<Rightarrow> int" where
  "deliver_signal d ep sig m = (case sig of
      None \<Rightarrow> m
    | Some (Add_At owner x) \<Rightarrow> m(owner := (m owner)(x := m owner x + 1))
    | Some (Store_Epoch x) \<Rightarrow> m(d := (m d)(x := sint ep)))"

definition comp_event :: "(int \<Rightarrow> fused_globals) \<Rightarrow> int \<times> int \<Rightarrow> node_state \<Rightarrow> node_state" where
  "comp_event Gs = (\<lambda>(d, task) s. let (cnt, sig) = comp_finish (Gs d) task (comp_done s d)
     in s\<lparr>comp_done := (comp_done s)(d := cnt), slot := deliver_signal d (epoch (Gs d)) sig (slot s)\<rparr>)"

text \<open>
  The wait of the intra-node blocks (gemm_ar.cu:376-386): the owner's word equals the number of
  devices, or the minimum over the replicas has reached the epoch.
\<close>

definition intra_ready :: "fused_globals \<Rightarrow> (int \<Rightarrow> int \<times> int \<Rightarrow> int) \<Rightarrow> int \<times> int \<Rightarrow> bool" where
  "intra_ready G m x = (if intra_ready_multimem G
     then sint (epoch G) \<le> Min ((\<lambda>d. m d x) ` {0..<NUM_DEVICES})
     else m (dev_idx G) x = NUM_DEVICES)"

text \<open>All devices run with the same shapes and the same mode.\<close>

definition node_ok :: "(int \<Rightarrow> fused_globals) \<Rightarrow> bool" where
  "node_ok Gs \<longleftrightarrow> (\<forall>d\<in>{0..<NUM_DEVICES}. globals_ok (Gs d) \<and> dev_idx (Gs d) = d \<and> lay (Gs d) = lay (Gs 0)
     \<and> intra_ready_multimem (Gs d) = intra_ready_multimem (Gs 0) \<and> epoch (Gs d) = epoch (Gs 0))"

definition node_tasks :: "(int \<Rightarrow> fused_globals) \<Rightarrow> (int \<times> int) set" where
  "node_tasks Gs = {0..<NUM_DEVICES} \<times> {0..<NUM_DEVICES * rbs (Gs 0) * cbs (Gs 0)}"

definition in_chunk :: "(int \<Rightarrow> fused_globals) \<Rightarrow> int \<Rightarrow> int \<times> int \<Rightarrow> int \<times> int \<Rightarrow> bool" where
  "in_chunk Gs d x e \<longleftrightarrow> fst e = d \<and> comp_chunk (Gs d) (snd e) = x"

lemma flat_chunk_inj:
  fixes c :: int
  assumes "r * c + k = r' * c + k'" "0 \<le> k" "k < c" "0 \<le> k'" "k' < c"
  shows "r = r' \<and> k = k'"
proof -
  have "(r * c + k) div c = (r' * c + k') div c" "(r * c + k) mod c = (r' * c + k') mod c" using assms(1) by simp_all
  then show ?thesis using assms(2-) by simp
qed

definition finished :: "(int \<Rightarrow> fused_globals) \<Rightarrow> int \<Rightarrow> int \<times> int \<Rightarrow> (int \<times> int) list \<Rightarrow> int" where
  "finished Gs d x es = num_with (in_chunk Gs d x) es True"

lemma finished_simps [simp]:
  "finished Gs d x [] = 0"
  "finished Gs d x (es @ [e]) = finished Gs d x es + of_bool (in_chunk Gs d x e)"
  by (simp_all add: finished_def)

lemma node_okD:
  assumes "node_ok Gs" "d \<in> {0..<NUM_DEVICES}"
  shows "globals_ok (Gs d)" "dev_idx (Gs d) = d" "lay (Gs d) = lay (Gs 0)" "epoch (Gs d) = epoch (Gs 0)"
    "intra_ready_multimem (Gs d) = intra_ready_multimem (Gs 0)"
  using assms unfolding node_ok_def by blast+

text \<open>What one event does to the word and the counter of a chunk.\<close>

lemma comp_event_at:
  assumes ok: "node_ok Gs" and e: "e \<in> node_tasks Gs"
    and row: "0 \<le> row" "row < NUM_DEVICES * rbs (Gs 0)" and k: "0 \<le> k" "k < cpr (Gs 0)" and d: "d \<in> {0..<NUM_DEVICES}"
    and w: "w = chunk_width (Gs 0) k" "flat = row * cpr (Gs 0) + k"
  shows "comp_done (comp_event Gs e s) d flat = comp_done s d flat + of_bool (in_chunk Gs d (row, k) e)"
    and "\<not> intra_ready_multimem (Gs 0) \<Longrightarrow> slot (comp_event Gs e s) (row div rbs (Gs 0)) (row, k)
      = slot s (row div rbs (Gs 0)) (row, k) + of_bool (in_chunk Gs (fst e) (row, k) e \<and> comp_done s (fst e) flat = w - 1)"
    and "intra_ready_multimem (Gs 0) \<Longrightarrow> slot (comp_event Gs e s) d (row, k)
      = (if in_chunk Gs d (row, k) e \<and> comp_done s d flat = w - 1 then sint (epoch (Gs 0)) else slot s d (row, k))"
proof -
  obtain d' t where et: "e = (d', t)" by (cases e)
  obtain r' k' where rk: "comp_chunk (Gs d') t = (r', k')" by fastforce
  have d': "d' \<in> {0..<NUM_DEVICES}" and t: "t \<in> {0..<NUM_DEVICES * rbs (Gs 0) * cbs (Gs 0)}"
    using e by (simp_all add: node_tasks_def et)
  note G = node_okD(1)[OF ok d'] and lay = node_okD(3)[OF ok d'] and em = node_okD(4,5)[OF ok d']
  have r: "0 \<le> r'" "r' < NUM_DEVICES * rbs (Gs 0)" "0 \<le> k'" "k' < cpr (Gs 0)"
    using comp_chunk_range[OF G _ rk] t unfolding lay by blast+
  have flat: "r' * cpr (Gs 0) + k' = flat \<longleftrightarrow> r' = row \<and> k' = k"
    using flat_chunk_inj[of r' "cpr (Gs 0)" k' row k] r k w(2) by auto
  have "0 < rbs (Gs d')" by (rule globals_chunks(4)[OF G])
  then have own: "c_div r' (rbs (Gs 0)) = r' div rbs (Gs 0)" using r(1) lay by simp
  have ev: "comp_event Gs e s = (let (cnt, sig) = comp_finish (Gs d') t (comp_done s d')
      in s\<lparr>comp_done := (comp_done s)(d' := cnt), slot := deliver_signal d' (epoch (Gs 0)) sig (slot s)\<rparr>)"
    by (simp add: comp_event_def et em)
  have cw: "chunk_width (Gs d') k' = chunk_width (Gs 0) k'" by (simp add: chunk_width_def lay)
  define F where "F = r' * cpr (Gs 0) + k'"
  define fire where "fire \<longleftrightarrow> comp_done s d' F = chunk_width (Gs 0) k' - 1"
  have cd: "comp_done (comp_event Gs e s) = (comp_done s)(d' := (comp_done s d')(F := comp_done s d' F + 1))"
    by (simp add: ev comp_finish_def rk lay F_def Let_def)
  have sl: "slot (comp_event Gs e s) = deliver_signal d' (epoch (Gs 0)) (if fire
      then Some (if intra_ready_multimem (Gs 0) then Store_Epoch (r', k') else Add_At (r' div rbs (Gs 0)) (r', k'))
      else None) (slot s)"
    by (simp add: ev comp_finish_def rk lay F_def Let_def fire_def cw em own)
  have inc: "in_chunk Gs d2 (row, k) e \<longleftrightarrow> d' = d2 \<and> r' = row \<and> k' = k" for d2
    using rk by (auto simp: in_chunk_def et)
  have F: "F = flat \<longleftrightarrow> r' = row \<and> k' = k" using flat by (simp add: F_def)
  show "comp_done (comp_event Gs e s) d flat = comp_done s d flat + of_bool (in_chunk Gs d (row, k) e)"
    unfolding cd inc using F by auto
  show "\<not> intra_ready_multimem (Gs 0) \<Longrightarrow> slot (comp_event Gs e s) (row div rbs (Gs 0)) (row, k)
      = slot s (row div rbs (Gs 0)) (row, k) + of_bool (in_chunk Gs (fst e) (row, k) e \<and> comp_done s (fst e) flat = w - 1)"
    unfolding sl inc using F by (auto simp: deliver_signal_def fire_def w(1) et)
  show "intra_ready_multimem (Gs 0) \<Longrightarrow> slot (comp_event Gs e s) d (row, k)
      = (if in_chunk Gs d (row, k) e \<and> comp_done s d flat = w - 1 then sint (epoch (Gs 0)) else slot s d (row, k))"
  proof (cases "r' = row \<and> k' = k")
    case True
    then show ?thesis if "intra_ready_multimem (Gs 0)"
      using that F by (cases "d' = d") (simp_all add: sl inc deliver_signal_def fire_def w(1))
  next
    case False
    then have "(r', k') \<noteq> (row, k)" by simp
    then show ?thesis if "intra_ready_multimem (Gs 0)"
      unfolding sl inc using that False by (auto simp: deliver_signal_def)
  qed
qed


lemma comp_events_count:
  assumes ok: "node_ok Gs" and es: "set es \<subseteq> node_tasks Gs"
    and row: "0 \<le> row" "row < NUM_DEVICES * rbs (Gs 0)" and k: "0 \<le> k" "k < cpr (Gs 0)" and d: "d \<in> {0..<NUM_DEVICES}"
  shows "comp_done (fold (comp_event Gs) es node_init) d (row * cpr (Gs 0) + k) = finished Gs d (row, k) es"
  using es
proof (induction es rule: rev_induct)
  case (snoc e es)
  then show ?case using comp_event_at(1)[OF ok _ row k d refl refl, of e] by simp
qed (simp add: node_init_def)

lemma of_bool_Suc: "of_bool (w \<le> n + (1::int)) = of_bool (w \<le> n) + (of_bool (n = w - 1) :: int)"
  by auto

lemma comp_events_slot:
  assumes ok: "node_ok Gs" and es: "set es \<subseteq> node_tasks Gs"
    and row: "0 \<le> row" "row < NUM_DEVICES * rbs (Gs 0)" and k: "0 \<le> k" "k < cpr (Gs 0)"
    and w: "w = chunk_width (Gs 0) k" and add: "\<not> intra_ready_multimem (Gs 0)"
  shows "slot (fold (comp_event Gs) es node_init) (row div rbs (Gs 0)) (row, k)
    = (\<Sum>d\<in>{0..<NUM_DEVICES}. of_bool (w \<le> finished Gs d (row, k) es))"
  using es
proof (induction es rule: rev_induct)
  case Nil
  have "globals_ok (Gs 0)" by (rule node_okD[OF ok]) (simp add: tile_simps)
  then have "\<not> w \<le> 0" using comp_chunk_card(2)[OF _ row k] w by fastforce
  then show ?case by (simp add: node_init_def)
next
  case (snoc e es)
  let ?s = "fold (comp_event Gs) es node_init" and ?n = "\<lambda>d. finished Gs d (row, k) es"
  have e: "e \<in> node_tasks Gs" and es: "set es \<subseteq> node_tasks Gs" using snoc.prems by auto
  have d: "fst e \<in> {0..<NUM_DEVICES}" using e by (auto simp: node_tasks_def)
  have cnt: "comp_done ?s (fst e) (row * cpr (Gs 0) + k) = ?n (fst e)" by (rule comp_events_count[OF ok es row k d])
  have pt: "of_bool (w \<le> ?n d + of_bool (in_chunk Gs d (row, k) e)) = of_bool (w \<le> ?n d)
      + (if d = fst e then of_bool (in_chunk Gs (fst e) (row, k) e \<and> ?n (fst e) = w - 1) else 0 :: int)" for d
    by (auto simp: in_chunk_def)
  show ?case
    using comp_event_at(2)[OF ok e row k d w refl add, of ?s] snoc.IH[OF es] d
    by (simp add: cnt pt sum.distrib)
qed

lemma comp_events_store:
  assumes ok: "node_ok Gs" and es: "set es \<subseteq> node_tasks Gs"
    and row: "0 \<le> row" "row < NUM_DEVICES * rbs (Gs 0)" and k: "0 \<le> k" "k < cpr (Gs 0)"
    and w: "w = chunk_width (Gs 0) k" and store: "intra_ready_multimem (Gs 0)" and d: "d \<in> {0..<NUM_DEVICES}"
  shows "slot (fold (comp_event Gs) es node_init) d (row, k)
    = (if w \<le> finished Gs d (row, k) es then sint (epoch (Gs 0)) else 0)"
  using es
proof (induction es rule: rev_induct)
  case Nil
  have "globals_ok (Gs 0)" by (rule node_okD[OF ok]) (simp add: tile_simps)
  then have "\<not> w \<le> 0" using comp_chunk_card(2)[OF _ row k] w by fastforce
  then show ?case by (simp add: node_init_def)
next
  case (snoc e es)
  have e: "e \<in> node_tasks Gs" and es: "set es \<subseteq> node_tasks Gs" using snoc.prems by auto
  show ?case
    using comp_event_at(3)[OF ok e row k d w refl store] snoc.IH[OF es] comp_events_count[OF ok es row k d]
    by auto
qed

text \<open>For distinct events: a device has finished a chunk when it has finished all its tiles.\<close>

lemma finished_all:
  assumes ok: "node_ok Gs" and es: "set es \<subseteq> node_tasks Gs" "distinct es"
    and row: "0 \<le> row" "row < NUM_DEVICES * rbs (Gs 0)" and k: "0 \<le> k" "k < cpr (Gs 0)" and d: "d \<in> {0..<NUM_DEVICES}"
  shows "chunk_width (Gs 0) k \<le> finished Gs d (row, k) es
    \<longleftrightarrow> (\<forall>t\<in>{0..<NUM_DEVICES * rbs (Gs 0) * cbs (Gs 0)}. comp_chunk (Gs d) t = (row, k) \<longrightarrow> (d, t) \<in> set es)"
proof -
  note lay = node_okD(3)[OF ok d]
  let ?A = "{e \<in> node_tasks Gs. in_chunk Gs d (row, k) e}"
  let ?T = "{t \<in> {0..<NUM_DEVICES * rbs (Gs 0) * cbs (Gs 0)}. comp_chunk (Gs d) t = (row, k)}"
  have A: "?A = Pair d ` ?T" using d by (auto simp: node_tasks_def in_chunk_def)
  have "int (card ?T) = chunk_width (Gs d) k"
    using comp_chunk_card(1)[OF node_okD(1)[OF ok d], of row k] row k unfolding lay by blast
  then have "int (card {e \<in> node_tasks Gs. in_chunk Gs d (row, k) e = True}) = chunk_width (Gs 0) k"
    by (simp add: A card_image inj_on_def chunk_width_def lay)
  moreover have "finite (node_tasks Gs)" by (simp add: node_tasks_def)
  ultimately have "chunk_width (Gs 0) k \<le> finished Gs d (row, k) es
      \<longleftrightarrow> {e \<in> node_tasks Gs. in_chunk Gs d (row, k) e = True} \<subseteq> set es"
    using group_complete[OF es(2,1), of "in_chunk Gs d (row, k)" True] by (simp add: finished_def)
  also have "\<dots> \<longleftrightarrow> Pair d ` ?T \<subseteq> set es" by (simp add: A)
  finally show ?thesis by auto
qed


lemma sum_of_bool_all:
  assumes "0 \<le> n"
  shows "(\<Sum>d\<in>{0..<n}. of_bool (P d)) = (n::int) \<longleftrightarrow> (\<forall>d\<in>{0..<n}. P d)"
proof -
  define X where "X = (\<Sum>d\<in>{0..<n}. of_bool (P d) :: int)"
  define Y where "Y = (\<Sum>d\<in>{0..<n}. of_bool (\<not> P d) :: int)"
  have "X + Y = (\<Sum>d\<in>{0..<n}. 1 :: int)"
    unfolding X_def Y_def sum.distrib[symmetric] by (rule sum.cong) auto
  then have "X + Y = n" using assms by simp
  moreover have "Y = 0 \<longleftrightarrow> (\<forall>d\<in>{0..<n}. of_bool (\<not> P d) = (0 :: int))"
    unfolding Y_def by (rule sum_nonneg_eq_0_iff) simp_all
  ultimately show ?thesis unfolding X_def[symmetric] by auto
qed

text \<open>
  C12 (safety): the wait of an intra-node block of the slice's owner for a chunk is passed exactly
  when all devices of the node have finished all tiles of the chunk, in both modes of the barrier
  and in any order in which the devices and blocks finish their tasks.
\<close>

theorem intra_waits_for_all_devices:
  assumes ok: "node_ok Gs" and es: "set es \<subseteq> node_tasks Gs" "distinct es"
    and owner: "owner \<in> {0..<NUM_DEVICES}" and row: "owner * rbs (Gs 0) \<le> row" "row < (owner + 1) * rbs (Gs 0)"
    and k: "0 \<le> k" "k < cpr (Gs 0)" and ep: "0 < sint (epoch (Gs 0))"
    and s: "s = fold (comp_event Gs) es node_init"
  shows "intra_ready (Gs owner) (slot s) (row, k) \<longleftrightarrow>
    (\<forall>d\<in>{0..<NUM_DEVICES}. \<forall>t\<in>{0..<NUM_DEVICES * rbs (Gs 0) * cbs (Gs 0)}.
       comp_chunk (Gs d) t = (row, k) \<longrightarrow> (d, t) \<in> set es)"
proof -
  have G0: "globals_ok (Gs 0)" by (rule node_okD[OF ok]) (simp add: tile_simps)
  note g = globals_chunks[OF G0] and lay = node_okD(3)[OF ok owner] and mode = node_okD(5)[OF ok owner]
  have "0 \<le> owner * rbs (Gs 0)" using owner g by simp
  then have r0: "0 \<le> row" using row by simp
  have "(owner + 1) * rbs (Gs 0) \<le> NUM_DEVICES * rbs (Gs 0)" using owner g by (intro mult_right_mono) auto
  then have r1: "row < NUM_DEVICES * rbs (Gs 0)" using row by simp
  have "row = owner * rbs (Gs 0) + (row - owner * rbs (Gs 0))" by simp
  then have own: "row div rbs (Gs 0) = owner"
    using row radix_div[of "row - owner * rbs (Gs 0)" "rbs (Gs 0)" owner] by (simp add: algebra_simps)
  let ?w = "chunk_width (Gs 0) k"
  have fin: "?w \<le> finished Gs d (row, k) es \<longleftrightarrow> (\<forall>t\<in>{0..<NUM_DEVICES * rbs (Gs 0) * cbs (Gs 0)}.
      comp_chunk (Gs d) t = (row, k) \<longrightarrow> (d, t) \<in> set es)" if "d \<in> {0..<NUM_DEVICES}" for d
    by (rule finished_all[OF ok es r0 r1 k that])
  have "intra_ready (Gs owner) (slot s) (row, k) \<longleftrightarrow> (\<forall>d\<in>{0..<NUM_DEVICES}. ?w \<le> finished Gs d (row, k) es)"
  proof (cases "intra_ready_multimem (Gs 0)")
    case True
    have "sint (epoch (Gs 0)) \<le> slot s d (row, k) \<longleftrightarrow> ?w \<le> finished Gs d (row, k) es" if "d \<in> {0..<NUM_DEVICES}" for d
      using comp_events_store[OF ok es(1) r0 r1 k refl True that] ep by (simp add: s)
    then show ?thesis using True unfolding intra_ready_def mode node_okD(4)[OF ok owner]
      by (subst Min_ge_iff) (auto simp: tile_simps)
  next
    case False
    then have "intra_ready (Gs owner) (slot s) (row, k) \<longleftrightarrow> slot s owner (row, k) = NUM_DEVICES"
      unfolding intra_ready_def mode node_okD(2)[OF ok owner] by simp
    also have "slot s owner (row, k) = (\<Sum>d\<in>{0..<NUM_DEVICES}. of_bool (?w \<le> finished Gs d (row, k) es))"
      using comp_events_slot[OF ok es(1) r0 r1 k refl False] unfolding own s .
    finally show ?thesis using sum_of_bool_all[of NUM_DEVICES] by (simp only: NUM_DEVICES_def)
  qed
  then show ?thesis using fin by blast
qed

definition demo_globals :: "int \<Rightarrow> fused_globals" where
  "demo_globals d = gemm_ar_make_globals (gemm_ar_compute_scratch_layout None 1024 1024 4 4 2)
     (gemm_ar_compute_role_split None None 16 20 1) 1024 d 0 2 4 7 (make_fifo_bundle 0 4 1) None False None"

lemma demo_globals_ok: "globals_ok (demo_globals d)" if "0 \<le> d" "d < NUM_DEVICES"
  unfolding demo_globals_def by (rule make_globals_ok[OF refl]) (use that in \<open>simp_all add: tile_simps\<close>)

lemma demo_layout:
  "row_blocks_per_slice (gemm_ar_compute_scratch_layout None 1024 1024 4 4 2) = 1"
  "col_blocks (gemm_ar_compute_scratch_layout None 1024 1024 4 4 2) = 4"
  "chunks_per_row (gemm_ar_compute_scratch_layout None 1024 1024 4 4 2) = 1"
  "chunk_tiles (gemm_ar_compute_scratch_layout None 1024 1024 4 4 2) = 4"
  by (simp_all add: layout_fields gemm_ar_chunks_per_row_def gemm_ar_chunk_tiles_def ceil_div_def tile_simps)

lemma demo_globals_dims: "rbs (demo_globals d) = 1" "cbs (demo_globals d) = 4" "cpr (demo_globals d) = 1"
  "ctiles (demo_globals d) = 4" "epoch (demo_globals d) = 7" "dev_idx (demo_globals d) = d"
  "lay (demo_globals d) = lay (demo_globals 0)" "intra_ready_multimem (demo_globals d) = False"
  by (simp_all add: demo_globals_def gemm_ar_make_globals_def demo_layout env_starts_def)

lemma demo_node_ok: "node_ok demo_globals"
  unfolding node_ok_def
proof
  fix d assume "d \<in> {0..<NUM_DEVICES}"
  then show "globals_ok (demo_globals d) \<and> dev_idx (demo_globals d) = d \<and> lay (demo_globals d) = lay (demo_globals 0)
     \<and> intra_ready_multimem (demo_globals d) = intra_ready_multimem (demo_globals 0)
     \<and> epoch (demo_globals d) = epoch (demo_globals 0)"
    using demo_globals_ok[of d] demo_globals_dims(7)[of d] by (simp add: demo_globals_dims(5,6,8))
qed

lemma intra_waits_for_all_devices_witness:
  "intra_ready (demo_globals 3) (slot (fold (comp_event demo_globals) (List.product [0..7] [0..31]) node_init)) (3, 0)"
proof -
  define es where "es = List.product [0..7] [0..31::int]"
  have E: "set es = node_tasks demo_globals"
  proof -
    have "{0..7} = {0..<8::int}" "{0..31} = {0..<32::int}" by auto
    then show ?thesis
      unfolding es_def set_product set_upto node_tasks_def demo_globals_dims(1,2) by (simp add: NUM_DEVICES_def)
  qed
  have D: "distinct es" unfolding es_def by (intro distinct_product distinct_upto)
  have "intra_ready (demo_globals 3) (slot (fold (comp_event demo_globals) es node_init)) (3, 0)
    \<longleftrightarrow> (\<forall>d\<in>{0..<NUM_DEVICES}. \<forall>t\<in>{0..<NUM_DEVICES * rbs (demo_globals 0) * cbs (demo_globals 0)}.
       comp_chunk (demo_globals d) t = (3, 0) \<longrightarrow> (d, t) \<in> set es)"
    by (rule intra_waits_for_all_devices[OF demo_node_ok _ D _ _ _ _ _ _ refl])
       (simp_all add: E demo_globals_dims(1-6,8) tile_simps)
  moreover have "\<dots>" unfolding E node_tasks_def by blast
  ultimately show ?thesis unfolding es_def by blast
qed


section \<open>Intra-node blocks\<close>

text \<open>The tiles of an intra-node block, and the chunk of a tile of the own slice.\<close>

definition intra_tiles :: "fused_globals \<Rightarrow> int \<Rightarrow> int list" where
  "intra_tiles G offset = strided offset (num_intra_ar_sms (split G)) (slice_tiles (lay G))"

definition intra_chunk :: "fused_globals \<Rightarrow> int \<Rightarrow> int \<times> int" where
  "intra_chunk G tile = (let rb = c_div tile (cbs G); col = tile - rb * cbs G in (rb, c_div col (ctiles G)))"

record intra_state =
  intra_tiles_done :: "int \<Rightarrow> int"
  local_done :: "int \<Rightarrow> int"
  my_slot :: "int \<times> int \<Rightarrow> int"
  ar_done_chunks :: int

text \<open>
  The end of a tile (gemm_ar.cu:405-427): the last tile of a chunk takes the signals of the
  devices back, resets the counter and raises the flag of the chunk.
\<close>

definition intra_finish :: "fused_globals \<Rightarrow> int \<Rightarrow> intra_state \<Rightarrow> intra_state" where
  "intra_finish G tile s = (let
     (rb, chunk_col) = intra_chunk G tile;
     row = dev_idx G * rbs G + rb;
     chunk_id = rb * cpr G + chunk_col;
     prev = intra_tiles_done s chunk_id
   in if prev + 1 = chunk_width G chunk_col
      then s\<lparr>intra_tiles_done := (intra_tiles_done s)(chunk_id := 0),
             my_slot := (if intra_ready_multimem G then my_slot s
               else (my_slot s)((row, chunk_col) := my_slot s (row, chunk_col) - NUM_DEVICES)),
             local_done := (local_done s)(chunk_id := 1), ar_done_chunks := ar_done_chunks s + 1\<rparr>
      else s\<lparr>intra_tiles_done := (intra_tiles_done s)(chunk_id := prev + 1)\<rparr>)"

definition intra_init :: "(int \<times> int \<Rightarrow> int) \<Rightarrow> intra_state" where
  "intra_init m = \<lparr>intra_tiles_done = (\<lambda>_. 0), local_done = (\<lambda>_. 0), my_slot = m, ar_done_chunks = 0\<rparr>"

lemma intra_chunk_range:
  assumes G: "globals_ok G" and t: "t \<in> {0..<rbs G * cbs G}" and rk: "intra_chunk G t = (rb, k)"
  shows "0 \<le> rb" "rb < rbs G" "0 \<le> k" "k < cpr G"
proof -
  note g = globals_chunks[OF G]
  have rb: "rb = t div cbs G" and k: "k = (t mod cbs G) div ctiles G"
    using rk t g by (auto simp: intra_chunk_def Let_def minus_div_mult_eq_mod)
  show "0 \<le> rb" "rb < rbs G" using t g rb by (simp_all add: pos_imp_zdiv_nonneg_iff div_less_radix)
  show "0 \<le> k" using g k by (simp add: pos_imp_zdiv_nonneg_iff)
  show "k < cpr G" using chunk_col_bound[of "cbs G" "t mod cbs G" False None] G g k by (simp add: globals_ok_def)
qed

lemma intra_chunk_card:
  assumes G: "globals_ok G" and rb: "0 \<le> rb" "rb < rbs G" and k: "0 \<le> k" "k < cpr G"
  shows "int (card {t \<in> {0..<rbs G * cbs G}. intra_chunk G t = (rb, k)}) = chunk_width G k" "1 \<le> chunk_width G k"
proof -
  note g = globals_chunks[OF G]
  have start: "k * ctiles G < cbs G"
    using chunk_col_starts[of "cbs G" k False None] k g G by (auto simp: globals_ok_def)
  then show w: "1 \<le> chunk_width G k" using g by (simp add: chunk_width_def)
  have ks: "0 \<le> k * ctiles G" using k g by simp
  let ?lo = "rb * cbs G + k * ctiles G"
  have "{t \<in> {0..<rbs G * cbs G}. intra_chunk G t = (rb, k)} = {?lo..<?lo + chunk_width G k}"
  proof (intro equalityI subsetI)
    fix t assume "t \<in> {t \<in> {0..<rbs G * cbs G}. intra_chunk G t = (rb, k)}"
    then have t: "t \<in> {0..<rbs G * cbs G}" and c: "intra_chunk G t = (rb, k)" by auto
    have "rb = t div cbs G" "k = (t mod cbs G) div ctiles G"
      using c t g by (auto simp: intra_chunk_def Let_def minus_div_mult_eq_mod)
    then have "t = rb * cbs G + t mod cbs G" "k * ctiles G \<le> t mod cbs G" "t mod cbs G < (k + 1) * ctiles G"
      using div_bounds[of "ctiles G" "t mod cbs G"] g by simp_all
    moreover have "t mod cbs G < cbs G" using g by simp
    ultimately show "t \<in> {?lo..<?lo + chunk_width G k}" by (simp add: chunk_width_def algebra_simps)
  next
    fix t assume t: "t \<in> {?lo..<?lo + chunk_width G k}"
    define y where "y = t - rb * cbs G"
    have y: "k * ctiles G \<le> y" "y < k * ctiles G + ctiles G" "y < cbs G" "0 \<le> y"
      using t ks by (auto simp: y_def chunk_width_def)
    have ty: "t = rb * cbs G + y" by (simp add: y_def)
    have "t < rbs G * cbs G" unfolding ty using y rb g by (intro radix_less) auto
    moreover have "0 \<le> t" unfolding ty using rb g y by simp
    moreover have "y div ctiles G = k" using y radix_div[of "y - k * ctiles G" "ctiles G" k] by simp
    ultimately show "t \<in> {t \<in> {0..<rbs G * cbs G}. intra_chunk G t = (rb, k)}"
      using y rb g by (simp add: intra_chunk_def ty)
  qed
  then show "int (card {t \<in> {0..<rbs G * cbs G}. intra_chunk G t = (rb, k)}) = chunk_width G k" using w by simp
qed

lemma intra_finish_at:
  assumes G: "globals_ok G" and t: "t \<in> {0..<rbs G * cbs G}"
    and rb: "0 \<le> rb" "rb < rbs G" and k: "0 \<le> k" "k < cpr G" and c: "c = rb * cpr G + k"
  shows "intra_tiles_done (intra_finish G t s) c = (if intra_chunk G t = (rb, k)
      then if intra_tiles_done s c + 1 = chunk_width G k then 0 else intra_tiles_done s c + 1 else intra_tiles_done s c)"
    and "local_done (intra_finish G t s) c = (if intra_chunk G t = (rb, k) \<and> intra_tiles_done s c + 1 = chunk_width G k
      then 1 else local_done s c)"
    and "my_slot (intra_finish G t s) (dev_idx G * rbs G + rb, k) = (if intra_chunk G t = (rb, k)
        \<and> intra_tiles_done s c + 1 = chunk_width G k \<and> \<not> intra_ready_multimem G
      then my_slot s (dev_idx G * rbs G + rb, k) - NUM_DEVICES else my_slot s (dev_idx G * rbs G + rb, k))"
proof -
  obtain rb' k' where rk: "intra_chunk G t = (rb', k')" by fastforce
  have r: "0 \<le> rb'" "rb' < rbs G" "0 \<le> k'" "k' < cpr G" using intra_chunk_range[OF G t rk] .
  have flat: "rb' * cpr G + k' = c \<longleftrightarrow> rb' = rb \<and> k' = k"
    using flat_chunk_inj[of rb' "cpr G" k' rb k] r k c by auto
  have "intra_tiles_done (intra_finish G t s) c = (if rb' = rb \<and> k' = k
      then if intra_tiles_done s c + 1 = chunk_width G k then 0 else intra_tiles_done s c + 1 else intra_tiles_done s c)
    \<and> local_done (intra_finish G t s) c = (if (rb' = rb \<and> k' = k) \<and> intra_tiles_done s c + 1 = chunk_width G k
      then 1 else local_done s c)
    \<and> my_slot (intra_finish G t s) (dev_idx G * rbs G + rb, k) = (if (rb' = rb \<and> k' = k)
        \<and> intra_tiles_done s c + 1 = chunk_width G k \<and> \<not> intra_ready_multimem G
      then my_slot s (dev_idx G * rbs G + rb, k) - NUM_DEVICES else my_slot s (dev_idx G * rbs G + rb, k))"
  proof (cases "rb' = rb \<and> k' = k")
    case True
    then have e: "rb' = rb" "k' = k" and c': "c = rb * cpr G + k" using c by auto
    show ?thesis
    proof (cases "intra_tiles_done s c + 1 = chunk_width G k")
      case fire: True
      show ?thesis unfolding intra_finish_def rk e Let_def prod.case c'[symmetric] by (simp add: fire)
    next
      case False
      then show ?thesis unfolding intra_finish_def rk e Let_def prod.case c'[symmetric] by simp
    qed
  next
    case False
    then have ne: "c \<noteq> rb' * cpr G + k'" "(dev_idx G * rbs G + rb, k) \<noteq> (dev_idx G * rbs G + rb', k')"
      using flat by auto
    show ?thesis unfolding intra_finish_def rk Let_def prod.case
      using ne by (simp only: False simp_thms if_False) auto
  qed
  then show "intra_tiles_done (intra_finish G t s) c = (if intra_chunk G t = (rb, k)
      then if intra_tiles_done s c + 1 = chunk_width G k then 0 else intra_tiles_done s c + 1 else intra_tiles_done s c)"
    "local_done (intra_finish G t s) c = (if intra_chunk G t = (rb, k) \<and> intra_tiles_done s c + 1 = chunk_width G k
      then 1 else local_done s c)"
    "my_slot (intra_finish G t s) (dev_idx G * rbs G + rb, k) = (if intra_chunk G t = (rb, k)
        \<and> intra_tiles_done s c + 1 = chunk_width G k \<and> \<not> intra_ready_multimem G
      then my_slot s (dev_idx G * rbs G + rb, k) - NUM_DEVICES else my_slot s (dev_idx G * rbs G + rb, k))"
    unfolding rk by (simp_all only: prod.inject)
qed

text \<open>The state of a chunk as a function of the number of its tiles that are finished.\<close>

lemma intra_run_at:
  assumes G: "globals_ok G" and ts: "set ts \<subseteq> {0..<rbs G * cbs G}" "distinct ts"
    and rb: "0 \<le> rb" "rb < rbs G" and k: "0 \<le> k" "k < cpr G" and c: "c = rb * cpr G + k"
    and s: "s = fold (intra_finish G) ts (intra_init m)" and n: "n = num_with (intra_chunk G) ts (rb, k)"
  shows "n \<le> chunk_width G k \<and> intra_tiles_done s c = (if n = chunk_width G k then 0 else n)
    \<and> local_done s c = (if n = chunk_width G k then 1 else 0)
    \<and> my_slot s (dev_idx G * rbs G + rb, k) = m (dev_idx G * rbs G + rb, k)
        - (if n = chunk_width G k \<and> \<not> intra_ready_multimem G then NUM_DEVICES else 0)"
  unfolding s n using ts
proof (induction ts rule: rev_induct)
  case Nil
  then show ?case using intra_chunk_card(2)[OF G rb k] by (simp add: intra_init_def)
next
  case (snoc t ts)
  let ?s = "fold (intra_finish G) ts (intra_init m)" and ?n = "num_with (intra_chunk G) ts (rb, k)"
  have t: "t \<in> {0..<rbs G * cbs G}" and ts: "set ts \<subseteq> {0..<rbs G * cbs G}" "distinct ts" "t \<notin> set ts"
    using snoc.prems by auto
  have IH: "?n \<le> chunk_width G k" "intra_tiles_done ?s c = (if ?n = chunk_width G k then 0 else ?n)"
    "local_done ?s c = (if ?n = chunk_width G k then 1 else 0)"
    "my_slot ?s (dev_idx G * rbs G + rb, k) = m (dev_idx G * rbs G + rb, k)
        - (if ?n = chunk_width G k \<and> \<not> intra_ready_multimem G then NUM_DEVICES else 0)"
    using snoc.IH ts by blast+
  have room: "?n < chunk_width G k" if "intra_chunk G t = (rb, k)"
  proof -
    have "\<not> {x \<in> {0..<rbs G * cbs G}. intra_chunk G x = (rb, k)} \<subseteq> set ts" using t ts(3) that by blast
    then show ?thesis
      using group_complete[OF ts(2,1), of "intra_chunk G" "(rb, k)"] intra_chunk_card(1)[OF G rb k] by simp
  qed
  note at = intra_finish_at[OF G t rb k c, of ?s]
  show ?case
  proof (cases "intra_chunk G t = (rb, k)")
    case True
    then show ?thesis using at IH room by auto
  next
    case False
    then show ?thesis using at IH by simp
  qed
qed

text \<open>
  C32 (functional): after any set of tiles of the slice, in any order, the flag of a chunk is
  raised exactly when all its tiles are finished; its counter is then 0 again and the word of the
  barrier, which held one signal of each device, is 0 for the next launch.
\<close>

theorem intra_flags_complete_chunks:
  assumes G: "globals_ok G" and ts: "set ts \<subseteq> {0..<rbs G * cbs G}" "distinct ts"
    and c: "0 \<le> c" "c < total_chunks (lay G)" and full: "m (row_idx p, col_start p div ctiles G) = NUM_DEVICES"
    and p: "p = gemm_ar_chunk_decode False None c (rbs G) (cbs G) (ctiles G) (dev_idx G)"
    and s: "s = fold (intra_finish G) ts (intra_init m)" and add: "\<not> intra_ready_multimem G"
  shows "local_done s c = of_bool (\<forall>tile\<in>{0..<rbs G * cbs G}. (tile div cbs G, tile mod cbs G) \<in> chunk_tile_set p \<longrightarrow> tile \<in> set ts)
    \<and> (local_done s c = 1 \<longrightarrow> intra_tiles_done s c = 0 \<and> my_slot s (row_idx p, col_start p div ctiles G) = 0)"
proof -
  note g = globals_chunks[OF G]
  have ct: "ctiles G = gemm_ar_chunk_tiles False None (cbs G)" and n: "cpr G = gemm_ar_chunks_per_row False None (cbs G)"
    and tc: "total_chunks (lay G) = rbs G * cpr G" using G by (auto simp: globals_ok_def)
  obtain rb k where s2: "c = rb * cpr G + k" "0 \<le> rb" "rb < rbs G" "0 \<le> k" "k < cpr G"
    using chunk_split[of "cbs G" c "rbs G" False None] g c n tc by auto
  have pd: "p = \<lparr>rb_in_slice = rb, row_idx = dev_idx G * rbs G + rb, col_start = k * ctiles G, tiles_this_chunk = chunk_width G k\<rparr>"
    using chunk_decode_at[of "cbs G" rb k False None] s2 g unfolding p s2(1) n chunk_width_def by simp
  have tile: "(t div cbs G, t mod cbs G) \<in> chunk_tile_set p \<longleftrightarrow> intra_chunk G t = (rb, k)" if t: "t \<in> {0..<rbs G * cbs G}" for t
  proof -
    have ic: "intra_chunk G t = (t div cbs G, (t mod cbs G) div ctiles G)"
      using t g by (auto simp: intra_chunk_def Let_def minus_div_mult_eq_mod)
    have "t mod cbs G < cbs G" using g by simp
    moreover have "(t mod cbs G) div ctiles G = k \<longleftrightarrow> k * ctiles G \<le> t mod cbs G \<and> t mod cbs G < k * ctiles G + ctiles G"
    proof
      assume "(t mod cbs G) div ctiles G = k"
      then show "k * ctiles G \<le> t mod cbs G \<and> t mod cbs G < k * ctiles G + ctiles G"
        using div_bounds[of "ctiles G" "t mod cbs G"] g by (auto simp: algebra_simps)
    next
      assume "k * ctiles G \<le> t mod cbs G \<and> t mod cbs G < k * ctiles G + ctiles G"
      then show "(t mod cbs G) div ctiles G = k"
        using radix_div[of "t mod cbs G - k * ctiles G" "ctiles G" k] by simp
    qed
    ultimately show ?thesis unfolding ic pd by (auto simp: chunk_tile_set_def chunk_width_def)
  qed
  let ?n = "num_with (intra_chunk G) ts (rb, k)"
  note run = intra_run_at[OF G ts s2(2-5) s2(1) s refl]
  have "?n = chunk_width G k \<longleftrightarrow> chunk_width G k \<le> ?n" using run by auto
  also have "\<dots> \<longleftrightarrow> {x \<in> {0..<rbs G * cbs G}. intra_chunk G x = (rb, k)} \<subseteq> set ts"
    using group_complete[OF ts(2,1), of "intra_chunk G" "(rb, k)"] intra_chunk_card(1)[OF G s2(2-5)] by simp
  finally have "?n = chunk_width G k \<longleftrightarrow>
      (\<forall>t\<in>{0..<rbs G * cbs G}. (t div cbs G, t mod cbs G) \<in> chunk_tile_set p \<longrightarrow> t \<in> set ts)"
    using tile by blast
  moreover have "m (dev_idx G * rbs G + rb, k) = NUM_DEVICES" using full g unfolding pd by simp
  ultimately show ?thesis using run add g unfolding pd by auto
qed

lemma intra_flags_complete_chunks_witness:
  "local_done (fold (intra_finish (demo_globals 3)) [2, 0, 3, 1] (intra_init (\<lambda>_. NUM_DEVICES))) 0 = of_bool True"
proof -
  let ?G = "demo_globals 3"
  have G: "globals_ok ?G" by (rule demo_globals_ok) (simp_all add: tile_simps)
  have "total_chunks (lay ?G) = rbs ?G * cpr ?G" using G by (simp add: globals_ok_def)
  then have "local_done (fold (intra_finish ?G) [2, 0, 3, 1] (intra_init (\<lambda>_. NUM_DEVICES))) 0
    = of_bool (\<forall>tile\<in>{0..<rbs ?G * cbs ?G}. (tile div cbs ?G, tile mod cbs ?G)
        \<in> chunk_tile_set (gemm_ar_chunk_decode False None 0 (rbs ?G) (cbs ?G) (ctiles ?G) (dev_idx ?G)) \<longrightarrow> tile \<in> set [2, 0, 3, 1])"
    by (intro intra_flags_complete_chunks[OF G, THEN conjunct1]) (auto simp: demo_globals_dims(1-6,8))
  also have "\<dots> = of_bool True"
  proof -
    have "t \<in> set [2, 0, 3, 1]" if "t \<in> {0..<4}" for t :: int using that by auto
    then show ?thesis unfolding demo_globals_dims(1,2) by simp
  qed
  finally show ?thesis .
qed

end
