(* ===== verification/Gemm_AR_Send.thy ===== *)
theory Gemm_AR_Send
  imports Gemm_AR_Flow "HOL-Library.Multiset"
begin

text \<open>
  The send blocks of the fused GEMM + all-reduce kernel: which rows a block owns, the transfer
  commands it posts for a chunk and the proxy ring they go to (\<open>src/src/gemm_ar.cu:466-574\<close>,
  \<open>src/include/operators/gemm_ar/gemm_ar.cuh:363-393,617-621,738-761\<close>). The clock of the device
  is a parameter.
\<close>

section \<open>Queues\<close>

definition gemm_ar_arrival_idx :: "int \<Rightarrow> int \<Rightarrow> int \<Rightarrow> int" where
  "gemm_ar_arrival_idx rb col_idx ncols = rb"

definition gemm_ar_send_logical_queue :: "fused_globals \<Rightarrow> int \<Rightarrow> int \<Rightarrow> int" where
  "gemm_ar_send_logical_queue G rb col = c_mod (gemm_ar_arrival_idx rb col (cbs G)) (num_remote_queues G)"

abbreviation decode :: "fused_globals \<Rightarrow> int \<Rightarrow> chunk_pos" where
  "decode G c \<equiv> gemm_ar_chunk_decode False None c (rbs G) (cbs G) (ctiles G) (dev_idx G)"

definition gemm_ar_chunk_owner_queue :: "fused_globals \<Rightarrow> int \<Rightarrow> int" where
  "gemm_ar_chunk_owner_queue G chunk_id = (let p = decode G chunk_id
     in c_mod (gemm_ar_arrival_idx (rb_in_slice p) (col_start p) (cbs G)) (num_remote_queues G))"

definition queues_per_peer :: "fused_globals \<Rightarrow> int" where
  "queues_per_peer G = max 1 (c_div (num_remote_queues G) (max 1 (num_nodes G - 1)))"

definition gemm_ar_fifo_lane :: "fused_globals \<Rightarrow> int \<Rightarrow> TransferCmd \<Rightarrow> u32" where
  "gemm_ar_fifo_lane G target_rx_id cmd =
     (if num_nodes G > 2 \<and> cmd_type cmd = WRITE then ucast (reserved0 cmd) else word_of_int target_rx_id)"

text \<open>Posting is a push on the ring selected by the lane (gemm_ar.cuh:381-393).\<close>

definition gemm_ar_post_send_cmd :: "fused_globals \<Rightarrow> int \<Rightarrow> TransferCmd \<Rightarrow> nat \<times> TransferCmd" where
  "gemm_ar_post_send_cmd G target_rx_id cmd = (select_fifo_index (d2h_fifos G) (gemm_ar_fifo_lane G target_rx_id cmd), cmd)"

section \<open>The commands of a group of chunks\<close>

definition kCoalesceK :: int where [tile_simps]: "kCoalesceK = 1"

definition group_tiles :: "fused_globals \<Rightarrow> int \<Rightarrow> int \<Rightarrow> int" where
  "group_tiles G c group_k = (group_k - 1) * ctiles G + tiles_this_chunk (decode G (c + group_k - 1))"

definition pack_first_tile :: "fused_globals \<Rightarrow> int \<Rightarrow> int" where
  "pack_first_tile G c = rb_in_slice (decode G c) * cbs G + col_start (decode G c)"

definition send_cmd :: "fused_globals \<Rightarrow> (int \<Rightarrow> int \<Rightarrow> u64) \<Rightarrow> int \<Rightarrow> int \<Rightarrow> int \<Rightarrow> TransferCmd" where
  "send_cmd G now c group_k peer_slot = (let
     offset = (word_of_int (pack_first_tile G c) * word_of_int TILE_BYTES :: u64);
     single_peer_bytes = rbs G * cbs G * TILE_BYTES;
     single_peer_tiles = rbs G * cbs G;
     logical_q = c_mod (gemm_ar_send_logical_queue G (rb_in_slice (decode G c)) (col_start (decode G c))) (queues_per_peer G);
     peer_rank = peer_rank_for_slot (node_idx G) (num_nodes G) peer_slot;
     sap = slot_at_peer (node_idx G) peer_rank (num_nodes G)
   in zero_cmd\<lparr>cmd_type := WRITE, dst_rank := word_of_int peer_rank,
        tile_id := word_of_int (sap * single_peer_tiles + pack_first_tile G c),
        bytes := word_of_int (group_tiles G c group_k * TILE_BYTES), local_offset := offset, src_view := 0,
        row_count := word_of_int (group_tiles G c group_k),
        remote_offset := word_of_int (sap * single_peer_bytes) + offset,
        lane_id := word_of_int (sap * queues_per_peer G + logical_q),
        reserved0 := word_of_int (peer_slot * NUM_DEVICES + dev_idx G), enqueue_device_ns := now c peer_slot\<rparr>)"

definition send_logical_q :: "fused_globals \<Rightarrow> int \<Rightarrow> int" where
  "send_logical_q G c =
     c_mod (gemm_ar_send_logical_queue G (rb_in_slice (decode G c)) (col_start (decode G c))) (queues_per_peer G)"

section \<open>Send blocks\<close>

text \<open>What a block does, in order: wait for the flag of a chunk, push, count the group as issued.\<close>

datatype send_act = Wait_Local int | Push nat TransferCmd | Issued

definition send_group :: "fused_globals \<Rightarrow> (int \<Rightarrow> int \<Rightarrow> u64) \<Rightarrow> int \<Rightarrow> int \<Rightarrow> send_act list" where
  "send_group G now c group_k =
     map (\<lambda>gi. Wait_Local (c + gi)) [0..group_k - 1]
     @ map (\<lambda>ps. case gemm_ar_post_send_cmd G (send_logical_q G c) (send_cmd G now c group_k ps) of (f, cmd) \<Rightarrow> Push f cmd)
         [0..num_nodes G - 1 - 1]
     @ [Issued]"

function send_row :: "fused_globals \<Rightarrow> (int \<Rightarrow> int \<Rightarrow> u64) \<Rightarrow> int \<Rightarrow> int \<Rightarrow> send_act list" where
  "send_row G now first_chunk c =
     (if c < first_chunk + cpr G then (let group_k = min kCoalesceK (cpr G - (c - first_chunk))
        in send_group G now c group_k @ send_row G now first_chunk (c + group_k)) else [])"
  by auto
termination by (relation "measure (\<lambda>(G, now, first, c). nat (first + cpr G - c))") (auto simp: kCoalesceK_def)

declare send_row.simps [simp del]

definition fused_inter_send_sm :: "fused_globals \<Rightarrow> (int \<Rightarrow> int \<Rightarrow> u64) \<Rightarrow> int \<Rightarrow> send_act list" where
  "fused_inter_send_sm G now send_id =
     concat (map (\<lambda>rb. send_row G now (rb * cpr G) (rb * cpr G)) (strided send_id (num_inter_send_sms (split G)) (rbs G)))"

lemma send_row_eq:
  "send_row G now first c = concat (map (\<lambda>c. send_group G now c 1) [c..first + cpr G - 1])"
proof (induction "nat (first + cpr G - c)" arbitrary: c)
  case 0
  then show ?case by (subst send_row.simps) simp
next
  case (Suc n)
  then have c: "c < first + cpr G" and n: "n = nat (first + cpr G - (c + 1))" by auto
  have m: "min kCoalesceK (cpr G - (c - first)) = 1" using c by (simp add: kCoalesceK_def)
  have u: "[c..first + cpr G - 1] = c # [c + 1..first + cpr G - 1]" using c by (subst upto.simps) simp
  show ?case using c Suc(1)[OF n] by (subst send_row.simps) (simp add: m u Let_def)
qed


definition send_chunks :: "fused_globals \<Rightarrow> int \<Rightarrow> int list" where
  "send_chunks G send_id =
     concat (map (\<lambda>rb. [rb * cpr G..rb * cpr G + cpr G - 1]) (strided send_id (num_inter_send_sms (split G)) (rbs G)))"

lemma fused_inter_send_sm_eq:
  "fused_inter_send_sm G now send_id = concat (map (\<lambda>c. send_group G now c 1) (send_chunks G send_id))"
proof -
  have "concat (map (\<lambda>rb. concat (map g [rb * cpr G..rb * cpr G + cpr G - 1])) xs)
    = concat (map g (concat (map (\<lambda>rb. [rb * cpr G..rb * cpr G + cpr G - 1]) xs)))" for xs and g :: "int \<Rightarrow> send_act list"
    by (induction xs) simp_all
  then show ?thesis by (simp add: fused_inter_send_sm_def send_chunks_def send_row_eq)
qed

lemma count_list_sum: "int (count (mset xs) x) = sum_list (map (\<lambda>y. of_bool (y = x)) xs)"
  by (induction xs) auto

lemma atLeastLessThan_upto_minus: "{a..b - 1} = {a..<b :: int}"
  by auto

lemma strided_mset:
  assumes "0 < n"
  shows "mset (concat (map (\<lambda>q. strided q n T) [0..n - 1])) = mset [0..T - 1]"
proof (rule multiset_eqI)
  fix x
  have "int (count (mset (concat (map h qs))) x) = sum_list (map (\<lambda>q. sum_list (map (\<lambda>y. of_bool (y = x)) (h q))) qs)"
    for h :: "int \<Rightarrow> int list" and qs
    by (induction qs) (simp_all add: count_list_sum)
  then have "int (count (mset (concat (map (\<lambda>q. strided q n T) [0..n - 1]))) x)
    = (\<Sum>q\<in>{0..<n}. sum_list (map (\<lambda>y. of_bool (y = x)) (strided q n T)))"
    by (simp add: sum_list_distinct_conv_sum_set atLeastLessThan_upto_minus)
  also have "\<dots> = (\<Sum>y\<in>{0..<T}. of_bool (y = x))" by (rule sum_strided[OF assms])
  also have "\<dots> = sum_list (map (\<lambda>y. of_bool (y = x)) [0..T - 1])"
    by (subst sum_list_distinct_conv_sum_set) (simp_all add: atLeastLessThan_upto_minus)
  finally show "count (mset (concat (map (\<lambda>q. strided q n T) [0..n - 1]))) x = count (mset [0..T - 1]) x"
    by (simp only: count_list_sum[symmetric] of_nat_eq_iff)
qed

lemma rows_concat:
  assumes "0 \<le> n" "0 \<le> R"
  shows "concat (map (\<lambda>rb. [rb * n..rb * n + n - 1]) [0..R - 1]) = [0..R * n - (1::int)]"
  using assms(2)
proof (induction R rule: int_ge_induct)
  case base
  then show ?case by simp
next
  case (step R)
  have "[0..R + 1 - 1] = [0..R - 1] @ [R]" using step(1) upto_rec2[of 0 R] by simp
  moreover have "[0..(R + 1) * n - 1] = [0..R * n - 1] @ [R * n..R * n + n - 1]"
    using upto_split1[of 0 "R * n" "R * n + n - 1"] step(1) assms(1) by (cases "n = 0") (auto simp: algebra_simps)
  ultimately show ?case using step(2) by simp
qed

lemma mset_concat_cong: "mset xs = mset ys \<Longrightarrow> mset (concat (map h xs)) = mset (concat (map h ys))"
  by (simp add: mset_concat) (metis mset_map sum_mset_sum_list)

text \<open>The slots of a node are the other nodes, each once.\<close>

lemma peers_of_slots:
  assumes "0 \<le> node" "node < n"
  shows "mset (map (peer_rank_for_slot node n) [0..n - 1 - 1]) = mset (filter (\<lambda>r. r \<noteq> node) [0..n - 1])"
proof -
  have i: "inj_on (peer_rank_for_slot node n) {0..n - 1 - 1}"
    using skip_self.rank_of_inj_on[OF assms] by (simp only: atLeastLessThan_upto_minus)
  have "peer_rank_for_slot node n ` {0..n - 1 - 1} = {0..<n} - {node}"
    using skip_self.rank_of_image[OF assms] by (simp only: atLeastLessThan_upto_minus)
  then have "set (map (peer_rank_for_slot node n) [0..n - 1 - 1]) = set (filter (\<lambda>r. r \<noteq> node) [0..n - 1])" by auto
  moreover have "distinct (map (peer_rank_for_slot node n) [0..n - 1 - 1])" using i by (simp add: distinct_map)
  moreover have "distinct (filter (\<lambda>r. r \<noteq> node) [0..n - 1])" by simp
  ultimately show ?thesis using set_eq_iff_mset_eq_distinct by blast
qed

lemma send_cmd_rank:
  assumes "0 \<le> node_idx G" "node_idx G < num_nodes G" "num_nodes G \<le> 256" "0 \<le> ps" "ps < num_nodes G - 1"
  shows "uint (dst_rank (send_cmd G now c k ps)) = peer_rank_for_slot (node_idx G) (num_nodes G) ps"
proof -
  have "peer_rank_for_slot (node_idx G) (num_nodes G) ps \<in> {0..<num_nodes G} - {node_idx G}"
    using skip_self.rank_of_image[OF assms(1,2)] assms(4,5) by (metis atLeastLessThan_iff imageI)
  then show ?thesis using assms(3) by (simp add: send_cmd_def Let_def word_of_int_inverse)
qed

text \<open>
  C22 (functional): a send block goes through the chunks of its rows in order; for each chunk it first
  waits for the flag of that chunk, then pushes one write for each peer slot from the first to
  the last, each on the ring that the lane of its command selects, and then counts the chunk as
  issued. The destinations of these writes are the other nodes, each exactly once, and the blocks
  together go through every chunk of the slice exactly once. A rank must fit the eight bits of
  the command.
\<close>

theorem send_blocks_cover_chunks:
  assumes "globals_ok G" "0 < num_inter_send_sms (split G)" "num_nodes G \<le> 256"
  shows "fused_inter_send_sm G now b = concat (map (\<lambda>c.
        Wait_Local c #
        map (\<lambda>ps. let cmd = send_cmd G now c 1 ps
          in Push (select_fifo_index (d2h_fifos G) (gemm_ar_fifo_lane G (send_logical_q G c) cmd)) cmd) [0..num_nodes G - 2]
        @ [Issued]) (send_chunks G b))
    \<and> mset (concat (map (send_chunks G) [0..num_inter_send_sms (split G) - 1])) = mset [0..total_chunks (lay G) - 1]
    \<and> mset (map (\<lambda>ps. uint (dst_rank (send_cmd G now c 1 ps))) [0..num_nodes G - 2])
       = mset (filter (\<lambda>r. r \<noteq> node_idx G) [0..num_nodes G - 1])"
proof (intro conjI)
  note g = globals_chunks[OF assms(1)]
  have node: "0 \<le> node_idx G" "node_idx G < num_nodes G" using assms(1) by (simp_all add: globals_ok_def)
  have "send_group G now c 1 = Wait_Local c #
        map (\<lambda>ps. let cmd = send_cmd G now c 1 ps
          in Push (select_fifo_index (d2h_fifos G) (gemm_ar_fifo_lane G (send_logical_q G c) cmd)) cmd) [0..num_nodes G - 2]
        @ [Issued]" for c
    by (simp add: send_group_def gemm_ar_post_send_cmd_def Let_def)
  then show "fused_inter_send_sm G now b = concat (map (\<lambda>c.
        Wait_Local c #
        map (\<lambda>ps. let cmd = send_cmd G now c 1 ps
          in Push (select_fifo_index (d2h_fifos G) (gemm_ar_fifo_lane G (send_logical_q G c) cmd)) cmd) [0..num_nodes G - 2]
        @ [Issued]) (send_chunks G b))"
    unfolding fused_inter_send_sm_eq by presburger
  let ?n = "num_inter_send_sms (split G)" and ?h = "\<lambda>rb. [rb * cpr G..rb * cpr G + cpr G - 1]"
  have "concat (map (send_chunks G) qs) = concat (map ?h (concat (map (\<lambda>q. strided q ?n (rbs G)) qs)))" for qs
    by (induction qs) (simp_all add: send_chunks_def)
  then have "mset (concat (map (send_chunks G) [0..?n - 1])) = mset (concat (map ?h [0..rbs G - 1]))"
    using mset_concat_cong[OF strided_mset[OF assms(2), of "rbs G"], of ?h] by simp
  also have "\<dots> = mset [0..total_chunks (lay G) - 1]"
    using rows_concat[of "cpr G" "rbs G"] g assms(1) by (simp add: globals_ok_def)
  finally show "mset (concat (map (send_chunks G) [0..?n - 1])) = mset [0..total_chunks (lay G) - 1]" .
  have n2: "num_nodes G - 1 - 1 = num_nodes G - 2" by simp
  have "map (\<lambda>ps. uint (dst_rank (send_cmd G now c 1 ps))) [0..num_nodes G - 2] =
      map (peer_rank_for_slot (node_idx G) (num_nodes G)) [0..num_nodes G - 2]"
    using send_cmd_rank[OF node assms(3)] by simp
  then show "mset (map (\<lambda>ps. uint (dst_rank (send_cmd G now c 1 ps))) [0..num_nodes G - 2])
       = mset (filter (\<lambda>r. r \<noteq> node_idx G) [0..num_nodes G - 1])"
    using peers_of_slots[OF node, unfolded n2] by (simp only:)
qed


section \<open>The commands as the peers see them\<close>

text \<open>
  The same device of all nodes: \<open>Gs i\<close> are its globals on node \<open>i\<close>. The bound on the tiles
  is that of the packed arrival word.
\<close>

definition cluster_ok :: "(int \<Rightarrow> fused_globals) \<Rightarrow> int \<Rightarrow> bool" where
  "cluster_ok Gs n \<longleftrightarrow> 2 \<le> n \<and> n \<le> kMaxPeers + 1 \<and> (n - 1) * (rbs (Gs 0) * cbs (Gs 0)) < 2 ^ 24
     \<and> (\<forall>i\<in>{0..<n}. globals_ok (Gs i) \<and> node_idx (Gs i) = i \<and> num_nodes (Gs i) = n \<and> lay (Gs i) = lay (Gs 0)
         \<and> dev_idx (Gs i) = dev_idx (Gs 0) \<and> num_remote_queues (Gs i) = num_remote_queues (Gs 0))"

lemma cluster_okD:
  assumes "cluster_ok Gs n" "0 \<le> i" "i < n"
  shows "globals_ok (Gs i)" "node_idx (Gs i) = i" "num_nodes (Gs i) = n" "lay (Gs i) = lay (Gs 0)"
    "dev_idx (Gs i) = dev_idx (Gs 0)" "num_remote_queues (Gs i) = num_remote_queues (Gs 0)"
    "2 \<le> n" "n \<le> 17" "(n - 1) * (rbs (Gs 0) * cbs (Gs 0)) < 2 ^ 24"
proof -
  have all: "2 \<le> n" "n \<le> kMaxPeers + 1" "(n - 1) * (rbs (Gs 0) * cbs (Gs 0)) < 2 ^ 24"
    "\<forall>i\<in>{0..<n}. globals_ok (Gs i) \<and> node_idx (Gs i) = i \<and> num_nodes (Gs i) = n \<and> lay (Gs i) = lay (Gs 0)
         \<and> dev_idx (Gs i) = dev_idx (Gs 0) \<and> num_remote_queues (Gs i) = num_remote_queues (Gs 0)"
    using assms(1) unfolding cluster_ok_def by blast+
  have i: "i \<in> {0..<n}" using assms(2,3) by simp
  show "globals_ok (Gs i)" "node_idx (Gs i) = i" "num_nodes (Gs i) = n" "lay (Gs i) = lay (Gs 0)"
    "dev_idx (Gs i) = dev_idx (Gs 0)" "num_remote_queues (Gs i) = num_remote_queues (Gs 0)"
    using bspec[OF all(4) i] by blast+
  show "2 \<le> n" "(n - 1) * (rbs (Gs 0) * cbs (Gs 0)) < 2 ^ 24" by (fact all)+
  show "n \<le> 17" using all(2) unfolding kMaxPeers_def by simp
qed

text \<open>The command for node \<open>b\<close> about chunk \<open>c\<close> of node \<open>a\<close>; its number of tiles and first tile.\<close>

definition cmd_to :: "(int \<Rightarrow> fused_globals) \<Rightarrow> int \<Rightarrow> (int \<Rightarrow> int \<Rightarrow> u64) \<Rightarrow> int \<Rightarrow> int \<Rightarrow> int \<Rightarrow> TransferCmd" where
  "cmd_to Gs n now a b c = send_cmd (Gs a) now c 1 (slot_at_peer b a n)"

definition tiles_of_chunk :: "fused_globals \<Rightarrow> int \<Rightarrow> int" where
  "tiles_of_chunk G c = tiles_this_chunk (decode G c)"

lemma chunk_numbers:
  assumes G: "globals_ok G" and c: "0 \<le> c" "c < total_chunks (lay G)"
  shows "0 \<le> pack_first_tile G c" "1 \<le> tiles_of_chunk G c" "tiles_of_chunk G c \<le> 4"
    "pack_first_tile G c + tiles_of_chunk G c \<le> rbs G * cbs G"
    "pack_first_tile G c div cbs G = c div cpr G" "pack_first_tile G c mod cbs G = c mod cpr G * ctiles G"
    "tiles_of_chunk G c = min (ctiles G) (cbs G - c mod cpr G * ctiles G)" "c mod cpr G * ctiles G < cbs G"
proof -
  note g = globals_chunks[OF G]
  have ct: "ctiles G = gemm_ar_chunk_tiles False None (cbs G)" and n: "cpr G = gemm_ar_chunks_per_row False None (cbs G)"
    and tc: "total_chunks (lay G) = rbs G * cpr G" using G by (auto simp: globals_ok_def)
  have ct4: "ctiles G \<le> 4" unfolding ct by (simp add: gemm_ar_chunk_tiles_def Let_def)
  have cn: "c < rbs G * gemm_ar_chunks_per_row False None (cbs G)" using c tc n by simp
  obtain rb k where s: "c = rb * cpr G + k" "0 \<le> rb" "rb < rbs G" "0 \<le> k" "k < cpr G"
    using chunk_split[OF g(5) c(1) cn] unfolding n[symmetric] by blast
  have d: "decode G c = \<lparr>rb_in_slice = rb, row_idx = dev_idx G * rbs G + rb, col_start = k * ctiles G,
      tiles_this_chunk = min (ctiles G) (cbs G - k * ctiles G)\<rparr>"
    using chunk_decode_at[OF g(5) s(2,4), of False None] s(5) unfolding s(1) n by simp
  have start: "k * ctiles G < cbs G" using chunk_col_starts[OF g(5), of k False None] s(5) ct n by simp
  have pf: "pack_first_tile G c = rb * cbs G + k * ctiles G" by (simp add: pack_first_tile_def d)
  have ks: "0 \<le> k * ctiles G" using s(4) g(1) by simp
  show "0 \<le> pack_first_tile G c" unfolding pf using s(2) g ks by simp
  show "1 \<le> tiles_of_chunk G c" "tiles_of_chunk G c \<le> 4" using start g(1) ct4 by (simp_all add: tiles_of_chunk_def d)
  have "(rb + 1) * cbs G \<le> rbs G * cbs G" using s(3) g by (intro mult_right_mono) simp_all
  moreover have "pack_first_tile G c + tiles_of_chunk G c \<le> (rb + 1) * cbs G"
    unfolding pf by (simp add: tiles_of_chunk_def d algebra_simps min_def)
  ultimately show "pack_first_tile G c + tiles_of_chunk G c \<le> rbs G * cbs G" by simp
  have cd: "c div cpr G = rb" "c mod cpr G = k" using s by simp_all
  show "pack_first_tile G c div cbs G = c div cpr G" "pack_first_tile G c mod cbs G = c mod cpr G * ctiles G"
    unfolding pf cd using ks start by simp_all
  show "tiles_of_chunk G c = min (ctiles G) (cbs G - c mod cpr G * ctiles G)" "c mod cpr G * ctiles G < cbs G"
    unfolding cd using start by (simp_all add: tiles_of_chunk_def d)
qed

lemma uint_of_int: "0 \<le> x \<Longrightarrow> x < 2 ^ LENGTH('a) \<Longrightarrow> uint (word_of_int x :: 'a::len word) = x"
  by (simp add: uint_word_of_int_eq take_bit_int_eq_self)

lemma slot_scale:
  fixes s n T x :: int
  assumes "0 \<le> s" "s < n - 1" "0 \<le> x" "x < T"
  shows "0 \<le> s * T + x" "s * T + x < (n - 1) * T"
  using assms radix_less[of s "n - 1" x T] by auto

lemma cmd_to_fields:
  assumes ok: "cluster_ok Gs n" and ab: "0 \<le> a" "a < n" "0 \<le> b" "b < n" "a \<noteq> b"
    and c: "0 \<le> c" "c < total_chunks (lay (Gs 0))" and cmd: "cmd = cmd_to Gs n now a b c"
    and T: "T = rbs (Gs 0) * cbs (Gs 0)" and f: "f = pack_first_tile (Gs 0) c" and w: "w = tiles_of_chunk (Gs 0) c"
  shows "uint (dst_rank cmd) = b" "uint (tile_id cmd) = slot_at_peer a b n * T + f" "uint (bytes cmd) = w * TILE_BYTES"
    "uint (local_offset cmd) = f * TILE_BYTES" "uint (remote_offset cmd) = (slot_at_peer a b n * T + f) * TILE_BYTES"
    "uint (row_count cmd) = w" "uint (reserved0 cmd) = slot_at_peer b a n * NUM_DEVICES + dev_idx (Gs 0)"
    "run_tiles (bytes cmd) = word_of_int w" "cmd_type cmd = WRITE"
proof -
  note oka = cluster_okD[OF ok ab(1,2)] and ok0 = cluster_okD[OF ok order.refl]
  have n: "2 \<le> n" "n \<le> 17" and big: "(n - 1) * T < 2 ^ 24" using oka T by auto
  have G0: "globals_ok (Gs 0)" using ok0 n by simp
  have lay: "lay (Gs a) = lay (Gs 0)" "dev_idx (Gs a) = dev_idx (Gs 0)" using oka by auto
  have dec: "decode (Gs a) x = decode (Gs 0) x" for x unfolding lay ..
  note num = chunk_numbers[OF G0 c, folded f w T]
  have fw: "pack_first_tile (Gs a) c = f" "group_tiles (Gs a) c 1 = w"
    unfolding pack_first_tile_def group_tiles_def dec f w tiles_of_chunk_def by (simp_all add: lay)
  have TT: "rbs (Gs a) * cbs (Gs a) = T" unfolding lay T ..
  have rank: "peer_rank_for_slot a n (slot_at_peer b a n) = b" using skip_self.rank_of_slot_of[of b n a] ab by auto
  have sl: "0 \<le> slot_at_peer a b n" "slot_at_peer a b n < n - 1" "0 \<le> slot_at_peer b a n" "slot_at_peer b a n < n - 1"
    using skip_self.slot_range[of a n b] skip_self.slot_range[of b n a] ab by auto
  have dev: "0 \<le> dev_idx (Gs 0)" "dev_idx (Gs 0) < 8" using G0 by (auto simp: globals_ok_def NUM_DEVICES_def)
  define wb where "wb = w * TILE_BYTES"
  have w4: "1 \<le> w" "w \<le> 4" using num(2,3) by auto
  have wb: "0 \<le> wb" "wb < 2 ^ 32" using w4 unfolding wb_def TILE_BYTES_def by auto
  define r where "r = slot_at_peer b a n * NUM_DEVICES + dev_idx (Gs 0)"
  have r: "0 \<le> r" "r < 2 ^ 8" using sl dev n unfolding r_def NUM_DEVICES_def by auto
  define t where "t = slot_at_peer a b n * T + f"
  have t: "0 \<le> t" "t < (n - 1) * T" using slot_scale[OF sl(1,2) num(1), of T] num(2,4) unfolding t_def by auto
  have T0: "0 \<le> T" using num by linarith
  have "f < T" using num by linarith
  moreover have "T * 1 \<le> (n - 1) * T" using n T0 mult_right_mono[of 1 "n - 1" T] by simp
  ultimately have fb: "f < 2 ^ 24" using big by linarith
  have sel: "cmd = zero_cmd\<lparr>cmd_type := WRITE, dst_rank := word_of_int b, tile_id := word_of_int t,
      bytes := word_of_int wb, local_offset := word_of_int f * word_of_int TILE_BYTES, src_view := 0,
      row_count := word_of_int w,
      remote_offset := word_of_int (t * TILE_BYTES),
      lane_id := lane_id cmd, reserved0 := word_of_int r,
      enqueue_device_ns := now c (slot_at_peer b a n)\<rparr>"
    unfolding cmd cmd_to_def send_cmd_def Let_def oka(2,3) rank fw TT lay(2) t_def wb_def r_def by (simp add: algebra_simps)
  show "uint (dst_rank cmd) = b" by (subst sel) (use ab n in \<open>simp add: uint_of_int\<close>)
  show "uint (tile_id cmd) = slot_at_peer a b n * T + f" unfolding t_def[symmetric] by (subst sel) (use t big in \<open>simp add: uint_of_int\<close>)
  show bytes: "uint (bytes cmd) = w * TILE_BYTES" unfolding wb_def[symmetric] by (subst sel) (use wb in \<open>simp add: uint_of_int\<close>)
  show "uint (row_count cmd) = w" by (subst sel) (use w4 in \<open>simp add: uint_of_int\<close>)
  show "uint (reserved0 cmd) = slot_at_peer b a n * NUM_DEVICES + dev_idx (Gs 0)"
    unfolding r_def[symmetric] by (subst sel) (use r in \<open>simp add: uint_of_int\<close>)
  have "local_offset cmd = word_of_int (f * TILE_BYTES)" by (subst sel) simp
  then show "uint (local_offset cmd) = f * TILE_BYTES"
    by (simp only:, intro uint_of_int) (use num(1) fb in \<open>simp_all add: TILE_BYTES_def\<close>)
  have "remote_offset cmd = word_of_int (t * TILE_BYTES)" by (subst sel) simp
  then show "uint (remote_offset cmd) = (slot_at_peer a b n * T + f) * TILE_BYTES" unfolding t_def[symmetric]
    by (simp only:, intro uint_of_int) (use t big in \<open>simp_all add: TILE_BYTES_def\<close>)
  have "uint (bytes cmd) + 65535 < 2 ^ 32" using w4 unfolding bytes TILE_BYTES_def by simp
  then have "uint (bytes cmd + 65535) = w * TILE_BYTES + 65535"
    unfolding bytes[symmetric] by (simp add: uint_plus_if_size word_size)
  moreover have "run_tiles (bytes cmd) = (bytes cmd + 65535) div 65536" by (simp add: run_tiles_def kTileBytes_def add.commute)
  ultimately have "uint (run_tiles (bytes cmd)) = (w * TILE_BYTES + 65535) div 65536" by (simp add: uint_div)
  then have "uint (run_tiles (bytes cmd)) = w" unfolding TILE_BYTES_def by simp
  then show "run_tiles (bytes cmd) = word_of_int w" by (metis word_of_int_uint)
  show "cmd_type cmd = WRITE" by (subst sel) simp
qed


lemma tile_in_chunk:
  assumes G: "globals_ok G" and c: "0 \<le> c" "c < total_chunks (lay G)"
    and x: "pack_first_tile G c \<le> x" "x < pack_first_tile G c + tiles_of_chunk G c"
  shows "c = x div cbs G * cpr G + (x mod cbs G) div ctiles G" "0 \<le> x" "x < rbs G * cbs G"
proof -
  note g = globals_chunks[OF G] and num = chunk_numbers[OF G c]
  define k where "k = c mod cpr G"
  define y where "y = x - pack_first_tile G c"
  have y: "0 \<le> y" "y < ctiles G" "k * ctiles G + y < cbs G"
    using x num(7) unfolding y_def k_def by auto
  have k0: "0 \<le> k * ctiles G" using g unfolding k_def by simp
  have "x = (pack_first_tile G c div cbs G) * cbs G + (k * ctiles G + y)"
    using num(6) div_mult_mod_eq[of "pack_first_tile G c" "cbs G"] unfolding k_def y_def by linarith
  then have xx: "x = (c div cpr G) * cbs G + (k * ctiles G + y)" unfolding num(5) .
  have "x div cbs G = c div cpr G" "x mod cbs G = k * ctiles G + y"
    unfolding xx using y k0 by simp_all
  then show "c = x div cbs G * cpr G + (x mod cbs G) div ctiles G"
    using y unfolding k_def by simp
  show "0 \<le> x" "x < rbs G * cbs G" using x num(1,4) by linarith+
qed

text \<open>The bytes of the receive buffer of node \<open>b\<close> a command writes.\<close>

definition region :: "(int \<Rightarrow> fused_globals) \<Rightarrow> int \<Rightarrow> (int \<Rightarrow> int \<Rightarrow> u64) \<Rightarrow> int \<Rightarrow> int \<Rightarrow> int \<Rightarrow> int set" where
  "region Gs n now b a c = (let cmd = cmd_to Gs n now a b c
     in {uint (remote_offset cmd)..<uint (remote_offset cmd) + uint (bytes cmd)})"

lemma region_byte:
  assumes ok: "cluster_ok Gs n" and ab: "0 \<le> a" "a < n" "0 \<le> b" "b < n" "a \<noteq> b"
    and c: "0 \<le> c" "c < total_chunks (lay (Gs 0))" and x: "x \<in> region Gs n now b a c"
    and T: "T = rbs (Gs 0) * cbs (Gs 0)" and y: "y = x div TILE_BYTES"
  shows "y div T = slot_at_peer a b n" "c = (y mod T) div cbs (Gs 0) * cpr (Gs 0) + ((y mod T) mod cbs (Gs 0)) div ctiles (Gs 0)"
    "0 \<le> x" "x < (n - 1) * T * TILE_BYTES"
proof -
  note f = cmd_to_fields[OF ok ab c refl T refl refl, of now]
  have G: "globals_ok (Gs 0)" using cluster_okD[OF ok order.refl] cluster_okD(7)[OF ok ab(1,2)] by simp
  note num = chunk_numbers[OF G c]
  have sl: "0 \<le> slot_at_peer a b n" "slot_at_peer a b n < n - 1" using skip_self.slot_range[of a n b] ab by auto
  let ?s = "slot_at_peer a b n" and ?f = "pack_first_tile (Gs 0) c" and ?w = "tiles_of_chunk (Gs 0) c"
  have "x \<in> {(?s * T + ?f) * TILE_BYTES..<(?s * T + ?f) * TILE_BYTES + ?w * TILE_BYTES}"
    using x unfolding region_def Let_def f(3,5) .
  then have yy: "?s * T + ?f \<le> y" "y < ?s * T + ?f + ?w" unfolding y TILE_BYTES_def by auto
  define z where "z = y - ?s * T"
  have z: "?f \<le> z" "z < ?f + ?w" "y = ?s * T + z" using yy unfolding z_def by auto
  note own = tile_in_chunk[OF G c z(1,2), folded T]
  show "y div T = ?s" unfolding z(3) using own(2,3) by simp
  have "y mod T = z" unfolding z(3) using own(2,3) by simp
  then show "c = (y mod T) div cbs (Gs 0) * cpr (Gs 0) + ((y mod T) mod cbs (Gs 0)) div ctiles (Gs 0)" using own(1) by simp
  have "0 \<le> y" "y < (n - 1) * T" unfolding z(3) using slot_scale[OF sl own(2,3)] by auto
  then show "0 \<le> x" "x < (n - 1) * T * TILE_BYTES" unfolding y TILE_BYTES_def by auto
qed

text \<open>
  C7 (safety): every command lands inside the receive buffer of its destination, at the offset it
  has in the sender's staging buffer from the start of the part of that sender, and no two
  commands of any two senders, or of two chunks of one sender, write the same byte. The command
  names the tile it starts with, in the numbering of the receiver: the first tile of the chunk in the
  slice, after the tiles of the senders in lower slots; both offsets are those of that tile, and the
  byte count and the row count are those of the tiles of the chunk.
\<close>

theorem send_regions_disjoint:
  assumes ok: "cluster_ok Gs n" and b: "0 \<le> b" "b < n"
    and a: "0 \<le> a" "a < n" "a \<noteq> b" and c: "0 \<le> c" "c < total_chunks (lay (Gs 0))"
    and a': "0 \<le> a'" "a' < n" "a' \<noteq> b" and c': "0 \<le> c'" "c' < total_chunks (lay (Gs 0))"
    and ne: "(a, c) \<noteq> (a', c')" and T: "T = rbs (Gs 0) * cbs (Gs 0)"
  shows "region Gs n now b a c \<subseteq> {0..<(n - 1) * T * TILE_BYTES}
    \<and> region Gs n now b a c \<inter> region Gs n now b a' c' = {}
    \<and> uint (remote_offset (cmd_to Gs n now a b c))
        = slot_at_peer a b n * T * TILE_BYTES + uint (local_offset (cmd_to Gs n now a b c))
    \<and> uint (dst_rank (cmd_to Gs n now a b c)) = b
    \<and> uint (tile_id (cmd_to Gs n now a b c)) = slot_at_peer a b n * T + pack_first_tile (Gs 0) c
    \<and> uint (remote_offset (cmd_to Gs n now a b c)) = uint (tile_id (cmd_to Gs n now a b c)) * TILE_BYTES
    \<and> uint (local_offset (cmd_to Gs n now a b c)) = pack_first_tile (Gs 0) c * TILE_BYTES
    \<and> uint (bytes (cmd_to Gs n now a b c)) = tiles_of_chunk (Gs 0) c * TILE_BYTES
    \<and> uint (row_count (cmd_to Gs n now a b c)) = tiles_of_chunk (Gs 0) c"
proof -
  note R = region_byte[OF ok a(1,2) b a(3) c _ T refl] and R' = region_byte[OF ok a'(1,2) b a'(3) c' _ T refl]
  have "region Gs n now b a c \<subseteq> {0..<(n - 1) * T * TILE_BYTES}" using R(3,4) by auto
  moreover have "region Gs n now b a c \<inter> region Gs n now b a' c' = {}"
  proof (rule ccontr)
    assume "region Gs n now b a c \<inter> region Gs n now b a' c' \<noteq> {}"
    then obtain x where x: "x \<in> region Gs n now b a c" "x \<in> region Gs n now b a' c'" by blast
    have "slot_at_peer a b n = slot_at_peer a' b n" using R(1)[OF x(1)] R'(1)[OF x(2)] by simp
    then have "a = a'" using skip_self.slot_of_inj[of a n a' b] a a' b by simp
    moreover have "c = c'" using R(2)[OF x(1)] R'(2)[OF x(2)] by simp
    ultimately show False using ne by simp
  qed
  moreover note cmd_to_fields(1-6)[OF ok a(1,2) b a(3) c refl T refl refl, of now]
  ultimately show ?thesis by (simp add: algebra_simps)
qed


section \<open>A cluster of three nodes\<close>

definition trio :: "int \<Rightarrow> fused_globals" where
  "trio i = gemm_ar_make_globals (gemm_ar_compute_scratch_layout None 2048 1024 4 4 3)
     (gemm_ar_compute_role_split None None 16 20 2) 1024 5 i 3 4 7 (make_fifo_bundle 0 4 1) None False None"

lemma trio_ok: "0 \<le> i \<Longrightarrow> i < 3 \<Longrightarrow> globals_ok (trio i)"
  unfolding trio_def by (rule make_globals_ok[OF refl]) (simp_all add: tile_simps)

lemma trio_layout:
  "row_blocks_per_slice (gemm_ar_compute_scratch_layout None 2048 1024 4 4 3) = 2"
  "col_blocks (gemm_ar_compute_scratch_layout None 2048 1024 4 4 3) = 4"
  "chunks_per_row (gemm_ar_compute_scratch_layout None 2048 1024 4 4 3) = 1"
  "chunk_tiles (gemm_ar_compute_scratch_layout None 2048 1024 4 4 3) = 4"
  "total_chunks (gemm_ar_compute_scratch_layout None 2048 1024 4 4 3) = 2"
  "slice_tiles (gemm_ar_compute_scratch_layout None 2048 1024 4 4 3) = 8"
  "remote_queue_stride (gemm_ar_compute_scratch_layout None 2048 1024 4 4 3) = 32"
  by (simp_all add: layout_fields gemm_ar_chunks_per_row_def gemm_ar_chunk_tiles_def ceil_div_def tile_simps)

lemma trio_fields: "node_idx (trio i) = i" "num_nodes (trio i) = 3" "lay (trio i) = lay (trio 0)"
  "dev_idx (trio i) = 5" "num_remote_queues (trio i) = 4"
  by (simp_all add: trio_def gemm_ar_make_globals_def)

lemma trio_lay: "rbs (trio i) = 2" "cbs (trio i) = 4" "cpr (trio i) = 1" "ctiles (trio i) = 4"
  "total_chunks (lay (trio i)) = 2" "slice_tiles (lay (trio i)) = 8" "remote_queue_stride (lay (trio i)) = 32"
  by (simp_all add: trio_def gemm_ar_make_globals_def trio_layout)

lemma trio_cluster: "cluster_ok trio 3"
  unfolding cluster_ok_def
proof (intro conjI ballI)
  fix i :: int assume "i \<in> {0..<3}"
  then show "globals_ok (trio i)" using trio_ok by simp
qed (simp_all add: trio_fields(1,2,4,5) trio_lay(1,2) kMaxPeers_def, rule trio_fields(3))

lemma send_blocks_cover_chunks_witness:
  "mset (concat (map (send_chunks (trio 1)) [0..num_inter_send_sms (split (trio 1)) - 1])) = mset [0, 1]
    \<and> mset (map (\<lambda>ps. uint (dst_rank (send_cmd (trio 1) (\<lambda>_ _. 0) 0 1 ps))) [0..1]) = mset [0, 2]"
proof -
  have n: "0 < num_inter_send_sms (split (trio 1))"
    by (simp add: trio_def gemm_ar_make_globals_def gemm_ar_compute_role_split_def Let_def)
  have ok: "globals_ok (trio 1)" using trio_ok[of 1] by simp
  have N: "num_nodes (trio 1) \<le> 256" by (simp add: trio_fields(2))
  define xs where "xs = concat (map (send_chunks (trio 1)) [0..num_inter_send_sms (split (trio 1)) - 1])"
  have u: "[0..1] = [0, 1::int]" "[0..2] = [0, 1, 2::int]" by (simp_all add: upto.simps)
  show ?thesis
    using send_blocks_cover_chunks[OF ok n N, of "\<lambda>_ _. 0" 0 0, THEN conjunct2, folded xs_def]
    unfolding xs_def[symmetric] by (simp add: trio_fields(1,2) trio_lay(5) u)
qed

lemma send_regions_disjoint_witness:
  "region trio 3 (\<lambda>_ _. 0) 0 1 0 \<subseteq> {0..<16 * TILE_BYTES}
    \<and> region trio 3 (\<lambda>_ _. 0) 0 1 0 \<inter> region trio 3 (\<lambda>_ _. 0) 0 2 1 = {}
    \<and> uint (tile_id (cmd_to trio 3 (\<lambda>_ _. 0) 1 0 0)) = slot_at_peer 1 0 3 * 8 + pack_first_tile (trio 0) 0"
proof -
  define r where "r = region trio 3 (\<lambda>_ _. 0) 0"
  define cmd where "cmd = cmd_to trio 3 (\<lambda>_ _. 0) 1 0 0"
  show ?thesis
    using send_regions_disjoint[OF trio_cluster, of 0 1 0 2 1 8 "\<lambda>_ _. 0", folded r_def cmd_def]
    unfolding r_def[symmetric] cmd_def[symmetric] by (simp add: trio_lay(1,2,5))
qed

text \<open>
  With fewer remote queues than peers the lane of a sender lies beyond the queues that are
  drained: three nodes and one queue.
\<close>

lemma lane_beyond_queues:
  assumes "num_remote_queues G = 1" "num_nodes G = 3" "node_idx G = 0" "gemm_ar_send_logical_queue G
      (rb_in_slice (decode G c)) (col_start (decode G c)) = 0"
  shows "uint (lane_id (send_cmd G now c 1 0)) = num_remote_queues G"
  by (simp add: send_cmd_def Let_def assms queues_per_peer_def peer_rank_for_slot_def slot_at_peer_def zero_cmd_def)

end
