(* ===== verification/Gemm_AR_Recv.thy ===== *)
theory Gemm_AR_Recv
  imports Gemm_AR_Send
begin

text \<open>
  The receiving side of the fused GEMM + all-reduce kernel: the arrival queues the proxies of the
  peers write, their draining, and the flag of a chunk that has arrived from all peers
  (\<open>src/include/operators/gemm_ar/gemm_ar.cuh:680-745\<close>, \<open>src/src/gemm_ar.cu:594-644\<close>).
\<close>

section \<open>State and marking\<close>

record arrival_state =
  queue_head :: "int \<Rightarrow> int"
  queue_observed :: "int \<Rightarrow> int"
  peer_mask :: "int \<Rightarrow> u32"
  arrived_flag :: "int \<Rightarrow> u32"
  arrived_chunks :: int

definition arrival_init :: arrival_state where
  "arrival_init = \<lparr>queue_head = (\<lambda>_. 0), queue_observed = (\<lambda>_. 0), peer_mask = (\<lambda>_. 0), arrived_flag = (\<lambda>_. 0), arrived_chunks = 0\<rparr>"

definition popc :: "u32 \<Rightarrow> int" where
  "popc w = int (length (filter (bit w) [0..<32]))"

definition mark_chunk :: "fused_globals \<Rightarrow> int \<Rightarrow> int \<Rightarrow> arrival_state \<Rightarrow> arrival_state" where
  "mark_chunk G peer_slot chunk_id s = (let
     peer_bit = (if 0 \<le> peer_slot \<and> peer_slot < 31 then push_bit (nat peer_slot) 1 else 0);
     old_mask = peer_mask s chunk_id;
     new_mask = old_mask OR peer_bit;
     needed_peers = num_nodes G - 1;
     s1 = s\<lparr>peer_mask := (peer_mask s)(chunk_id := new_mask)\<rparr>
   in if popc old_mask < needed_peers \<and> popc new_mask \<ge> needed_peers
      then s1\<lparr>arrived_chunks := arrived_chunks s1 + 1, arrived_flag := (arrived_flag s1)(chunk_id := 1)\<rparr> else s1)"

text \<open>The loop over the chunks an arrival covers, from \<open>col_start\<close> on.\<close>

function mark_work :: "fused_globals \<Rightarrow> int \<Rightarrow> int \<Rightarrow> int \<Rightarrow> int \<Rightarrow> arrival_state \<Rightarrow> arrival_state" where
  "mark_work G peer_slot rb col work_tiles s =
     (if work_tiles > 0 \<and> col < cbs G then (let
        chunk_id = rb * cpr G + c_div col (ctiles G);
        consumed = min work_tiles (min (ctiles G) (cbs G - col))
      in if consumed \<le> 0 then s
         else mark_work G peer_slot rb (col + consumed) (work_tiles - consumed) (mark_chunk G peer_slot chunk_id s))
      else s)"
  by auto
termination by (relation "measure (\<lambda>(G, p, rb, col, w, s). nat w)") (auto simp: min_def)

declare mark_work.simps [simp del]

definition process_arrival :: "fused_globals \<Rightarrow> u32 \<Rightarrow> arrival_state \<Rightarrow> arrival_state" where
  "process_arrival G flag_val s = (let
     first_tile = max 0 (sint (unpack_arrival_first_tile flag_val));
     slot = c_div first_tile (slice_tiles (lay G));
     local_first_tile = first_tile - slot * slice_tiles (lay G);
     rb = c_div local_first_tile (cbs G);
     col = local_first_tile - rb * cbs G;
     work_tiles = min (max 1 (sint (unpack_arrival_num_tiles flag_val))) (cbs G - col)
   in mark_work G slot rb col work_tiles s)"

section \<open>Draining\<close>

text \<open>
  One call on queue \<open>q\<close>; \<open>rd i\<close> is the value of word \<open>i\<close> of the arrival flags when the call
  reads it. The result tells whether anything was processed.
\<close>

function drain_queue_from :: "fused_globals \<Rightarrow> (int \<Rightarrow> u32) \<Rightarrow> int \<Rightarrow> bool \<Rightarrow> int \<Rightarrow> arrival_state \<Rightarrow> bool \<times> arrival_state" where
  "drain_queue_from G rd q any q_head s =
     (if q_head < remote_queue_stride (lay G) then (let
        flag_val = rd (q * remote_queue_stride (lay G) + q_head)
      in if flag_val = 0 then (any, s)
         else drain_queue_from G rd q True (q_head + 1) (process_arrival G flag_val
           (s\<lparr>queue_head := (queue_head s)(q := q_head + 1), queue_observed := (queue_observed s)(q := queue_observed s q + 1)\<rparr>)))
      else (any, s))"
  by auto
termination by (relation "measure (\<lambda>(G, rd, q, any, h, s). nat (remote_queue_stride (lay G) - h))") auto

declare drain_queue_from.simps [simp del]

definition gemm_ar_drain_arrival_queue_publish_flags ::
    "fused_globals \<Rightarrow> (int \<Rightarrow> u32) \<Rightarrow> int \<Rightarrow> arrival_state \<Rightarrow> bool \<times> arrival_state" where
  "gemm_ar_drain_arrival_queue_publish_flags G rd q s = drain_queue_from G rd q False (queue_head s q) s"

text \<open>The queues a block drains (gemm_ar.cu:594-603), and the end of the loop of a progress block.\<close>

definition drained_queues :: "fused_globals \<Rightarrow> int \<Rightarrow> int list" where
  "drained_queues G red_id = (if red_id < 0 then [] else
     strided red_id (max 1 (if num_inter_recv_progress_sms (split G) > 0 then num_inter_recv_progress_sms (split G)
       else num_inter_reduce_store_sms (split G))) (num_remote_queues G))"

definition gemm_ar_drain_owned_arrival_queues ::
    "fused_globals \<Rightarrow> (int \<Rightarrow> u32) \<Rightarrow> int \<Rightarrow> arrival_state \<Rightarrow> arrival_state" where
  "gemm_ar_drain_owned_arrival_queues G rd red_id s =
     fold (\<lambda>q s. snd (gemm_ar_drain_arrival_queue_publish_flags G rd q s)) (drained_queues G red_id) s"

definition recv_progress_done :: "fused_globals \<Rightarrow> arrival_state \<Rightarrow> bool" where
  "recv_progress_done G s \<longleftrightarrow> arrived_chunks s \<ge> total_chunks (lay G)"

section \<open>One arrival\<close>

lemma popc_card: "popc w = int (card {i. bit w i})"
proof -
  have "{i. bit w i} = set (filter (bit w) [0..<32])"
    using bit_imp_le_length[of w] by (auto dest: bit_imp_le_length)
  then show ?thesis by (simp only: popc_def distinct_card distinct_filter distinct_upt)
qed

text \<open>The peers of \<open>D\<close> are those whose word for a chunk has been processed.\<close>

definition arrivals_inv :: "fused_globals \<Rightarrow> (int \<times> int) set \<Rightarrow> arrival_state \<Rightarrow> bool" where
  "arrivals_inv G D s \<longleftrightarrow> D \<subseteq> {0..<num_nodes G - 1} \<times> {0..<total_chunks (lay G)}
     \<and> (\<forall>c i. bit (peer_mask s c) i \<longleftrightarrow> (int i, c) \<in> D)
     \<and> (\<forall>c. arrived_flag s c = of_bool (\<forall>p\<in>{0..<num_nodes G - 1}. (p, c) \<in> D))
     \<and> arrived_chunks s = int (card {c. \<forall>p\<in>{0..<num_nodes G - 1}. (p, c) \<in> D})"

lemma arrivals_invD:
  assumes "arrivals_inv G D s"
  shows "D \<subseteq> {0..<num_nodes G - 1} \<times> {0..<total_chunks (lay G)}" "bit (peer_mask s c) i \<longleftrightarrow> (int i, c) \<in> D"
    "arrived_flag s c = of_bool (\<forall>p\<in>{0..<num_nodes G - 1}. (p, c) \<in> D)"
    "arrived_chunks s = int (card {c. \<forall>p\<in>{0..<num_nodes G - 1}. (p, c) \<in> D})"
  using assms unfolding arrivals_inv_def by blast+

lemma arrivals_invI:
  assumes "D \<subseteq> {0..<num_nodes G - 1} \<times> {0..<total_chunks (lay G)}" "\<And>c i. bit (peer_mask s c) i \<longleftrightarrow> (int i, c) \<in> D"
    "\<And>c. arrived_flag s c = of_bool (\<forall>p\<in>{0..<num_nodes G - 1}. (p, c) \<in> D)"
    "arrived_chunks s = int (card {c. \<forall>p\<in>{0..<num_nodes G - 1}. (p, c) \<in> D})"
  shows "arrivals_inv G D s"
  using assms unfolding arrivals_inv_def by blast

lemma popc_peers:
  assumes D: "D \<subseteq> {0..<N} \<times> C" and b: "\<And>i. bit w i \<longleftrightarrow> (int i, c) \<in> D"
  shows "popc w = int (card {p \<in> {0..<N}. (p, c) \<in> D})" "popc w \<ge> N \<longleftrightarrow> (\<forall>p\<in>{0..<N}. (p, c) \<in> D)"
proof -
  have "{p \<in> {0..<N}. (p, c) \<in> D} = int ` {i. bit w i}"
  proof (intro equalityI subsetI)
    fix p assume "p \<in> {p \<in> {0..<N}. (p, c) \<in> D}"
    then have "bit w (nat p)" "p = int (nat p)" using b[of "nat p"] by auto
    then show "p \<in> int ` {i. bit w i}" by blast
  qed (use D b in auto)
  then show eq: "popc w = int (card {p \<in> {0..<N}. (p, c) \<in> D})" by (simp add: popc_card card_image)
  show "popc w \<ge> N \<longleftrightarrow> (\<forall>p\<in>{0..<N}. (p, c) \<in> D)"
  proof
    assume "popc w \<ge> N"
    then have "card {0..<N} \<le> card {p \<in> {0..<N}. (p, c) \<in> D}" using eq by simp
    then have "{p \<in> {0..<N}. (p, c) \<in> D} = {0..<N}" by (intro card_seteq) auto
    then show "\<forall>p\<in>{0..<N}. (p, c) \<in> D" by blast
  next
    assume "\<forall>p\<in>{0..<N}. (p, c) \<in> D"
    then have "{p \<in> {0..<N}. (p, c) \<in> D} = {0..<N}" by blast
    then show "popc w \<ge> N" using eq by simp
  qed
qed


lemma Collect_insert: "Q c \<Longrightarrow> (\<And>x. x \<noteq> c \<Longrightarrow> Q x \<longleftrightarrow> P x) \<Longrightarrow> {x. Q x} = insert c {x. P x}"
  by (intro set_eqI) (metis insert_iff mem_Collect_eq)

lemma mark_chunk_inv:
  assumes inv: "arrivals_inv G D s" and p: "0 \<le> p" "p < num_nodes G - 1" "p < 31" and c: "0 \<le> c" "c < total_chunks (lay G)"
  shows "arrivals_inv G (insert (p, c) D) (mark_chunk G p c s)"
proof -
  note I = arrivals_invD[OF inv]
  let ?D = "insert (p, c) D" and ?N = "num_nodes G - 1" and ?n = "peer_mask s c OR push_bit (nat p) 1"
  have D: "?D \<subseteq> {0..<?N} \<times> {0..<total_chunks (lay G)}" using I(1) p c by auto
  have n: "bit ?n i \<longleftrightarrow> (int i, c) \<in> ?D" for i
    using I(2)[of c i] p by (auto simp: bit_or_iff bit_exp_iff)
  have old: "popc (peer_mask s c) < ?N \<longleftrightarrow> \<not> (\<forall>p\<in>{0..<?N}. (p, c) \<in> D)"
    using popc_peers(2)[OF I(1) I(2)] by (simp add: not_le[symmetric])
  have new: "popc ?n \<ge> ?N \<longleftrightarrow> (\<forall>p\<in>{0..<?N}. (p, c) \<in> ?D)" using popc_peers(2)[OF D n] .
  have bits: "bit (((peer_mask s)(c := ?n)) c') i \<longleftrightarrow> (int i, c') \<in> ?D" for c' i
    using n[of i] I(2)[of c' i] by simp
  have others: "(\<forall>p'\<in>{0..<?N}. (p', c') \<in> ?D) \<longleftrightarrow> (\<forall>p'\<in>{0..<?N}. (p', c') \<in> D)" if "c' \<noteq> c" for c'
    using that by simp
  have fin: "finite {c. \<forall>p\<in>{0..<?N}. (p, c) \<in> D}"
    by (rule finite_subset[of _ "{0..<total_chunks (lay G)}"]) (use I(1) p in force)+
  have pb: "(if 0 \<le> p \<and> p < 31 then push_bit (nat p) 1 else 0) = (push_bit (nat p) 1 :: u32)" using p by simp
  show ?thesis
  proof (cases "popc (peer_mask s c) < ?N \<and> popc ?n \<ge> ?N")
    case True
    then have full: "\<forall>p\<in>{0..<?N}. (p, c) \<in> ?D" and not: "\<not> (\<forall>p\<in>{0..<?N}. (p, c) \<in> D)" using old new by blast+
    have m: "peer_mask (mark_chunk G p c s) = (peer_mask s)(c := ?n)" "arrived_chunks (mark_chunk G p c s) = arrived_chunks s + 1"
      "arrived_flag (mark_chunk G p c s) = (arrived_flag s)(c := 1)"
      unfolding mark_chunk_def Let_def using True p by simp_all
    have "{c'. \<forall>p\<in>{0..<?N}. (p, c') \<in> ?D} = insert c {c'. \<forall>p\<in>{0..<?N}. (p, c') \<in> D}"
      by (rule Collect_insert) (fact full, rule others)
    moreover have "c \<notin> {c'. \<forall>p\<in>{0..<?N}. (p, c') \<in> D}" using not by blast
    ultimately have cnt: "int (card {c'. \<forall>p\<in>{0..<?N}. (p, c') \<in> ?D}) = arrived_chunks s + 1" using fin I(4) by simp
    have flg: "((arrived_flag s)(c := 1)) c' = of_bool (\<forall>p\<in>{0..<?N}. (p, c') \<in> ?D)" for c'
    proof (cases "c' = c")
      case True
      from full have t: "(\<forall>p\<in>{0..<?N}. (p, c) \<in> ?D) = True" by blast
      show ?thesis unfolding True t of_bool_eq fun_upd_same ..
    next
      case False then show ?thesis unfolding others[OF False] using I(3)[of c'] by simp
    qed
    show ?thesis by (rule arrivals_invI[OF D]) (unfold m, fact bits, fact flg, fact cnt[symmetric])
  next
    case False
    then have same: "(\<forall>p\<in>{0..<?N}. (p, c) \<in> ?D) \<longleftrightarrow> (\<forall>p\<in>{0..<?N}. (p, c) \<in> D)" using old new by blast
    then have same': "(\<forall>p\<in>{0..<?N}. (p, c') \<in> ?D) \<longleftrightarrow> (\<forall>p\<in>{0..<?N}. (p, c') \<in> D)" for c'
      using others by (cases "c' = c") blast+
    have F: "(popc (peer_mask s c) < ?N \<and> popc ?n \<ge> ?N) = False" using False by blast
    have m: "peer_mask (mark_chunk G p c s) = (peer_mask s)(c := ?n)" "arrived_chunks (mark_chunk G p c s) = arrived_chunks s"
      "arrived_flag (mark_chunk G p c s) = arrived_flag s"
      unfolding mark_chunk_def Let_def pb F if_False by simp_all
    show ?thesis by (rule arrivals_invI[OF D]) (unfold m same', fact bits, fact I(3), fact I(4))
  qed
qed

text \<open>The word of a chunk and a peer slot, and its processing.\<close>

definition arrival_of :: "fused_globals \<Rightarrow> int \<Rightarrow> int \<Rightarrow> u32" where
  "arrival_of G p c = pack_arrival_work (word_of_int (p * slice_tiles (lay G) + pack_first_tile G c)) (word_of_int (tiles_of_chunk G c))"

lemma process_arrival_of:
  assumes G: "globals_ok G" and c: "0 \<le> c" "c < total_chunks (lay G)" and p: "0 \<le> p" "p < n - 1"
    and big: "(n - 1) * slice_tiles (lay G) < 2 ^ 24"
  shows "arrival_of G p c \<noteq> 0" "process_arrival G (arrival_of G p c) s = mark_chunk G p c s"
proof -
  note num = chunk_numbers[OF G c] and g = globals_chunks[OF G]
  let ?f = "pack_first_tile G c" and ?w = "tiles_of_chunk G c"
  define T where "T = slice_tiles (lay G)"
  have T: "T = rbs G * cbs G" using G unfolding T_def by (simp add: globals_ok_def)
  define t where "t = p * T + ?f"
  have fT: "?f < T" using num(2,4) T by linarith
  have t: "0 \<le> t" "t < (n - 1) * T" using slot_scale[OF p num(1) fT] unfolding t_def by auto
  have t24: "t < 2 ^ 24 - 1"
  proof -
    have "t + ?w \<le> (n - 1) * T"
    proof -
      have "p * T + T \<le> (n - 1) * T" using p(2) fT num(1) mult_right_mono[of "p + 1" "n - 1" T] by (simp add: algebra_simps)
      then show ?thesis using num(4) T unfolding t_def by linarith
    qed
    then show ?thesis using big num(2) unfolding T_def by linarith
  qed
  have ut: "unat (word_of_int t :: u32) = nat t" and uw: "unat (word_of_int ?w :: u32) = nat ?w"
    using t t24 num(2,3) by (simp_all add: unat_eq_nat_uint uint_of_int)
  have a: "arrival_of G p c = pack_arrival_work (word_of_int t) (word_of_int ?w)" by (simp add: arrival_of_def t_def T_def)
  have fields: "unpack_arrival_first_tile (arrival_of G p c) = word_of_int t" "unpack_arrival_num_tiles (arrival_of G p c) = word_of_int ?w"
    "arrival_of G p c \<noteq> 0"
    unfolding a using arrival_word_fields[of "word_of_int t" "word_of_int ?w"] ut uw t t24 num(2,3) by auto
  show "arrival_of G p c \<noteq> 0" by (fact fields)
  have st: "sint (word_of_int t :: u32) = t" and sw: "sint (word_of_int ?w :: u32) = ?w"
    using t t24 num(2,3) by (simp_all add: sint_uint uint_of_int signed_take_bit_int_eq_self)
  have slot: "c_div t T = p" "t - p * T = ?f"
    unfolding t_def using p num(1) fT by simp_all
  have rb: "c_div ?f (cbs G) = c div cpr G" using num(1,5) g by simp
  have col: "?f - (c div cpr G) * cbs G = c mod cpr G * ctiles G"
    using num(5,6) minus_div_mult_eq_mod[of ?f "cbs G"] by simp
  have k: "0 \<le> c mod cpr G * ctiles G" using g by simp
  have wk: "min (max 1 ?w) (cbs G - c mod cpr G * ctiles G) = ?w" using num(2,7) by simp
  have "process_arrival G (arrival_of G p c) s = mark_work G p (c div cpr G) (c mod cpr G * ctiles G) ?w s"
    unfolding process_arrival_def fields Let_def st sw T_def[symmetric]
    using t(1) by (simp only: max.absorb2 slot rb col wk)
  also have "\<dots> = mark_work G p (c div cpr G) (c mod cpr G * ctiles G + ?w) 0 (mark_chunk G p c s)"
    by (subst mark_work.simps) (use num(2,7,8) k g in \<open>simp add: Let_def min_absorb1\<close>)
  also have "\<dots> = mark_chunk G p c s" by (subst mark_work.simps) simp
  finally show "process_arrival G (arrival_of G p c) s = mark_chunk G p c s" .
qed


section \<open>Draining queues\<close>

text \<open>
  \<open>W q\<close> lists the words that arrive in queue \<open>q\<close>, slot by slot, as pairs of peer slot and chunk;
  at any time a slot reads as zero or as its word.
\<close>

definition view_of :: "fused_globals \<Rightarrow> (int \<Rightarrow> (int \<times> int) list) \<Rightarrow> (int \<Rightarrow> u32) \<Rightarrow> bool" where
  "view_of G W rd \<longleftrightarrow> (\<forall>q h. 0 \<le> h \<longrightarrow> h < remote_queue_stride (lay G) \<longrightarrow> rd (q * remote_queue_stride (lay G) + h) = 0
     \<or> h < int (length (W q)) \<and> rd (q * remote_queue_stride (lay G) + h) = (case W q ! nat h of (p, c) \<Rightarrow> arrival_of G p c))"

definition full_view :: "fused_globals \<Rightarrow> (int \<Rightarrow> (int \<times> int) list) \<Rightarrow> (int \<Rightarrow> u32) \<Rightarrow> bool" where
  "full_view G W rd \<longleftrightarrow> (\<forall>q h. 0 \<le> h \<longrightarrow> h < int (length (W q)) \<longrightarrow>
     rd (q * remote_queue_stride (lay G) + h) = (case W q ! nat h of (p, c) \<Rightarrow> arrival_of G p c))"

definition queues_ok :: "fused_globals \<Rightarrow> (int \<Rightarrow> (int \<times> int) list) \<Rightarrow> bool" where
  "queues_ok G W \<longleftrightarrow> globals_ok G \<and> num_nodes G \<le> 17 \<and> (num_nodes G - 1) * slice_tiles (lay G) < 2 ^ 24
     \<and> (\<forall>q. set (W q) \<subseteq> {0..<num_nodes G - 1} \<times> {0..<total_chunks (lay G)})"

definition taken :: "(int \<Rightarrow> (int \<times> int) list) \<Rightarrow> arrival_state \<Rightarrow> (int \<times> int) set" where
  "taken W s = (\<Union>q. set (take (nat (queue_head s q)) (W q)))"

definition drain_inv :: "fused_globals \<Rightarrow> (int \<Rightarrow> (int \<times> int) list) \<Rightarrow> arrival_state \<Rightarrow> bool" where
  "drain_inv G W s \<longleftrightarrow> (\<forall>q. 0 \<le> queue_head s q \<and> queue_head s q \<le> int (length (W q)) \<and> queue_observed s q = queue_head s q)
     \<and> arrivals_inv G (taken W s) s"

lemma drain_invD:
  assumes "drain_inv G W s"
  shows "0 \<le> queue_head s q" "queue_head s q \<le> int (length (W q))" "queue_observed s q = queue_head s q"
    "arrivals_inv G (taken W s) s"
  using assms unfolding drain_inv_def by blast+

lemma queues_okD:
  assumes "queues_ok G W"
  shows "globals_ok G" "num_nodes G \<le> 17" "(num_nodes G - 1) * slice_tiles (lay G) < 2 ^ 24"
    "set (W q) \<subseteq> {0..<num_nodes G - 1} \<times> {0..<total_chunks (lay G)}"
  using assms unfolding queues_ok_def by blast+

lemma mark_chunk_frame [simp]:
  "queue_head (mark_chunk G p c s) = queue_head s" "queue_observed (mark_chunk G p c s) = queue_observed s"
  by (simp_all add: mark_chunk_def Let_def)

lemma arrivals_inv_frame:
  "arrivals_inv G D (s\<lparr>queue_head := h, queue_observed := ob\<rparr>) = arrivals_inv G D s"
  by (simp add: arrivals_inv_def)

lemma UN_insert_at:
  assumes "\<And>q'. f' q' = (if q' = q then insert x (f q') else f q')"
  shows "(\<Union>q. f' q) = insert x (\<Union>q. f q)"
  unfolding assms by (auto split: if_splits)

lemma drain_one:
  assumes ok: "queues_ok G W" and inv: "drain_inv G W s" and h: "h = queue_head s q" and l: "h < int (length (W q))"
    and x: "W q ! nat h = (p, c)"
  defines "s' \<equiv> process_arrival G (arrival_of G p c)
      (s\<lparr>queue_head := (queue_head s)(q := h + 1), queue_observed := (queue_observed s)(q := queue_observed s q + 1)\<rparr>)"
  shows "drain_inv G W s'" "queue_head s' = (queue_head s)(q := h + 1)" "arrival_of G p c \<noteq> 0"
proof -
  note O = queues_okD[OF ok] and I = drain_invD[OF inv]
  have h0: "0 \<le> h" using I(1) h by simp
  have mem: "(p, c) \<in> set (W q)" using x l h0 nth_mem[of "nat h" "W q"] by simp
  then have pc: "0 \<le> p" "p < num_nodes G - 1" "p < 31" "0 \<le> c" "c < total_chunks (lay G)"
    using O(2) O(4)[of q] by auto
  let ?s = "s\<lparr>queue_head := (queue_head s)(q := h + 1), queue_observed := (queue_observed s)(q := queue_observed s q + 1)\<rparr>"
  note pr = process_arrival_of[OF O(1) pc(4,5,1,2) O(3)]
  show "arrival_of G p c \<noteq> 0" by (rule pr(1))
  have s': "s' = mark_chunk G p c ?s" unfolding s'_def by (rule pr(2))
  show hd: "queue_head s' = (queue_head s)(q := h + 1)" unfolding s' by simp
  have ob: "queue_observed s' = (queue_observed s)(q := queue_observed s q + 1)" unfolding s' by simp
  have nat: "nat (h + 1) = Suc (nat h)" using h0 by simp
  have tk: "taken W s' = insert (p, c) (taken W s)"
  proof -
    have one: "set (take (Suc (nat h)) (W q)) = insert (p, c) (set (take (nat h) (W q)))"
      using l h0 x by (simp add: take_Suc_conv_app_nth)
    have "set (take (nat (queue_head s' q')) (W q')) = (if q' = q then insert (p, c) (set (take (nat (queue_head s q')) (W q')))
        else set (take (nat (queue_head s q')) (W q')))" for q'
      unfolding hd using one nat by (simp add: h[symmetric])
    then show ?thesis unfolding taken_def by (rule UN_insert_at)
  qed
  have "arrivals_inv G (insert (p, c) (taken W s)) s'"
    unfolding s' by (rule mark_chunk_inv[OF _ pc]) (simp only: arrivals_inv_frame I(4))
  then show "drain_inv G W s'"
    unfolding drain_inv_def tk hd ob using I(1,2,3) h0 l h by auto
qed

lemma drain_from_inv:
  assumes "queues_ok G W" "view_of G W rd" "drain_inv G W s" "h = queue_head s q"
  shows "drain_inv G W (snd (drain_queue_from G rd q any h s)) \<and> (\<forall>q'. q' \<noteq> q \<longrightarrow> queue_head (snd (drain_queue_from G rd q any h s)) q' = queue_head s q')
    \<and> (full_view G W rd \<and> int (length (W q)) \<le> remote_queue_stride (lay G)
        \<longrightarrow> queue_head (snd (drain_queue_from G rd q any h s)) q = int (length (W q)))
    \<and> queue_head s q \<le> queue_head (snd (drain_queue_from G rd q any h s)) q"
  using assms
proof (induction G rd q any h s rule: drain_queue_from.induct)
  case (1 G rd q any h s)
  let ?K = "remote_queue_stride (lay G)"
  let ?v = "rd (q * ?K + h)"
  note I = drain_invD[OF 1(4)]
  have h0: "0 \<le> h" using I(1) 1(5) by simp
  have seen: "h < ?K \<Longrightarrow> ?v = 0 \<or> h < int (length (W q)) \<and> ?v = (case W q ! nat h of (p, c) \<Rightarrow> arrival_of G p c)"
    using 1(3) h0 unfolding view_of_def by blast
  show ?case
  proof (cases "h < ?K \<and> ?v \<noteq> 0")
    case True
    obtain p c where x: "W q ! nat h = (p, c)" by fastforce
    have l: "h < int (length (W q))" and v: "?v = arrival_of G p c" using seen True x by auto
    let ?s = "process_arrival G (arrival_of G p c)
      (s\<lparr>queue_head := (queue_head s)(q := h + 1), queue_observed := (queue_observed s)(q := queue_observed s q + 1)\<rparr>)"
    note one = drain_one[OF 1(2,4,5) l x]
    have step: "drain_queue_from G rd q any h s = drain_queue_from G rd q True (h + 1) ?s"
      using True by (subst drain_queue_from.simps) (simp add: v Let_def)
    have hq: "h + 1 = queue_head ?s q" using one(2) by simp
    have nz: "\<not> ?v = 0" using True by simp
    have IH: "drain_inv G W (snd (drain_queue_from G rd q True (h + 1) ?s))
        \<and> (\<forall>q'. q' \<noteq> q \<longrightarrow> queue_head (snd (drain_queue_from G rd q True (h + 1) ?s)) q' = queue_head ?s q')
        \<and> (full_view G W rd \<and> int (length (W q)) \<le> ?K
            \<longrightarrow> queue_head (snd (drain_queue_from G rd q True (h + 1) ?s)) q = int (length (W q)))
        \<and> queue_head ?s q \<le> queue_head (snd (drain_queue_from G rd q True (h + 1) ?s)) q"
      using 1(1)[OF conjunct1[OF True] refl nz 1(2,3), unfolded v, OF one(1) hq] .
    then show ?thesis unfolding step using one(2) 1(5) by auto
  next
    case False
    then have stop: "drain_queue_from G rd q any h s = (any, s)" by (subst drain_queue_from.simps) (auto simp: Let_def)
    have "queue_head s q = int (length (W q))" if f: "full_view G W rd" "int (length (W q)) \<le> ?K"
    proof (rule ccontr)
      assume "queue_head s q \<noteq> int (length (W q))"
      then have l: "h < int (length (W q))" using I(2)[of q] 1(5) by simp
      obtain p c where x: "W q ! nat h = (p, c)" by fastforce
      have "?v = arrival_of G p c" using f(1) h0 l x unfolding full_view_def by (metis case_prod_conv)
      then show False using False drain_one(3)[OF 1(2,4,5) l x] l f(2) by simp
    qed
    then show ?thesis unfolding stop using 1(4) by simp
  qed
qed


lemma drain_call_inv:
  assumes "queues_ok G W" "view_of G W rd" "drain_inv G W s"
  shows "drain_inv G W (gemm_ar_drain_owned_arrival_queues G rd r s)"
    "queue_head s q \<le> queue_head (gemm_ar_drain_owned_arrival_queues G rd r s) q"
    "full_view G W rd \<Longrightarrow> (\<And>q. int (length (W q)) \<le> remote_queue_stride (lay G)) \<Longrightarrow>
      q \<in> set (drained_queues G r) \<Longrightarrow> queue_head (gemm_ar_drain_owned_arrival_queues G rd r s) q = int (length (W q))"
proof -
  let ?d = "\<lambda>q s. snd (gemm_ar_drain_arrival_queue_publish_flags G rd q s)"
  have one: "drain_inv G W (?d q' s) \<and> (\<forall>q. q \<noteq> q' \<longrightarrow> queue_head (?d q' s) q = queue_head s q)
      \<and> (full_view G W rd \<and> int (length (W q')) \<le> remote_queue_stride (lay G) \<longrightarrow> queue_head (?d q' s) q' = int (length (W q')))
      \<and> queue_head s q' \<le> queue_head (?d q' s) q'"
    if "drain_inv G W s" for q' s
    unfolding gemm_ar_drain_arrival_queue_publish_flags_def
    using drain_from_inv[OF assms(1,2) that refl, of q' False] by blast
  have "drain_inv G W (fold ?d qs s) \<and> queue_head s q \<le> queue_head (fold ?d qs s) q
    \<and> (full_view G W rd \<and> (\<forall>q. int (length (W q)) \<le> remote_queue_stride (lay G)) \<and> q \<in> set qs
        \<longrightarrow> queue_head (fold ?d qs s) q = int (length (W q)))" if "drain_inv G W s" for qs s
    using that
  proof (induction qs arbitrary: s)
    case Nil
    then show ?case by simp
  next
    case (Cons q' qs)
    note o = one[OF Cons.prems, of q']
    have d: "drain_inv G W (?d q' s)" using o by blast
    note IH = Cons.IH[OF d]
    have up: "queue_head s q \<le> queue_head (?d q' s) q" using o by (cases "q = q'") auto
    have "queue_head (fold ?d qs (?d q' s)) q = int (length (W q))"
      if f: "full_view G W rd" "\<forall>q. int (length (W q)) \<le> remote_queue_stride (lay G)" and q: "q \<in> set (q' # qs)"
    proof (cases "q \<in> set qs")
      case True
      then show ?thesis using IH f by blast
    next
      case False
      then have "queue_head (?d q' s) q = int (length (W q))" using o f q by auto
      then show ?thesis using IH drain_invD(2)[of G W "fold ?d qs (?d q' s)" q] by simp
    qed
    then show ?case using IH up by (simp only: fold_simps) (meson order.trans)
  qed
  note all = this[OF assms(3), of "drained_queues G r"]
  show "drain_inv G W (gemm_ar_drain_owned_arrival_queues G rd r s)"
    "queue_head s q \<le> queue_head (gemm_ar_drain_owned_arrival_queues G rd r s) q"
    unfolding gemm_ar_drain_owned_arrival_queues_def using all by blast+
  assume "full_view G W rd" "\<And>q. int (length (W q)) \<le> remote_queue_stride (lay G)" "q \<in> set (drained_queues G r)"
  then show "queue_head (gemm_ar_drain_owned_arrival_queues G rd r s) q = int (length (W q))"
    unfolding gemm_ar_drain_owned_arrival_queues_def using all by blast
qed

text \<open>A run of calls, each with what it reads and the block that makes it.\<close>

definition drain_run :: "fused_globals \<Rightarrow> ((int \<Rightarrow> u32) \<times> int) list \<Rightarrow> arrival_state \<Rightarrow> arrival_state" where
  "drain_run G calls s = fold (\<lambda>(rd, r) s. gemm_ar_drain_owned_arrival_queues G rd r s) calls s"

lemma drain_run_inv:
  assumes "queues_ok G W" "\<forall>(rd, r)\<in>set calls. view_of G W rd" "drain_inv G W s"
  shows "drain_inv G W (drain_run G calls s)" "queue_head s q \<le> queue_head (drain_run G calls s) q"
    "\<forall>(rd, r)\<in>set calls. full_view G W rd \<Longrightarrow> (\<And>q. int (length (W q)) \<le> remote_queue_stride (lay G)) \<Longrightarrow>
      r \<in> snd ` set calls \<Longrightarrow> q \<in> set (drained_queues G r) \<Longrightarrow> queue_head (drain_run G calls s) q = int (length (W q))"
proof -
  have "drain_inv G W (drain_run G calls s) \<and> queue_head s q \<le> queue_head (drain_run G calls s) q
    \<and> ((\<forall>(rd, r)\<in>set calls. full_view G W rd) \<and> (\<forall>q. int (length (W q)) \<le> remote_queue_stride (lay G))
        \<and> r \<in> snd ` set calls \<and> q \<in> set (drained_queues G r) \<longrightarrow> queue_head (drain_run G calls s) q = int (length (W q)))"
    using assms(2,3)
  proof (induction calls arbitrary: s)
    case Nil
    then show ?case by (simp add: drain_run_def)
  next
    case (Cons x calls)
    obtain rd r' where x: "x = (rd, r')" by fastforce
    let ?s = "gemm_ar_drain_owned_arrival_queues G rd r' s"
    have v: "view_of G W rd" and rest: "\<forall>(rd, r)\<in>set calls. view_of G W rd" using Cons.prems(1) x by auto
    note c = drain_call_inv[OF assms(1) v Cons.prems(2), where r = r']
    note IH = Cons.IH[OF rest c(1)]
    have st: "drain_run G (x # calls) s = drain_run G calls ?s" by (simp add: drain_run_def x)
    have "queue_head (drain_run G calls ?s) q = int (length (W q))"
      if f: "\<forall>(rd, r)\<in>set (x # calls). full_view G W rd" "\<forall>q. int (length (W q)) \<le> remote_queue_stride (lay G)"
        and r: "r \<in> snd ` set (x # calls)" and q: "q \<in> set (drained_queues G r)"
    proof (cases "r \<in> snd ` set calls")
      case True
      then show ?thesis using IH f q by auto
    next
      case False
      then have "r = r'" using r x by auto
      then have "queue_head ?s q = int (length (W q))" using c(3) f q x by auto
      then show ?thesis using IH drain_invD(2)[of G W "drain_run G calls ?s" q] by simp
    qed
    then show ?case unfolding st using IH c(2) by (meson order.trans)
  qed
  then show "drain_inv G W (drain_run G calls s)" "queue_head s q \<le> queue_head (drain_run G calls s) q"
    "\<forall>(rd, r)\<in>set calls. full_view G W rd \<Longrightarrow> (\<And>q. int (length (W q)) \<le> remote_queue_stride (lay G)) \<Longrightarrow>
      r \<in> snd ` set calls \<Longrightarrow> q \<in> set (drained_queues G r) \<Longrightarrow> queue_head (drain_run G calls s) q = int (length (W q))"
    by blast+
qed

lemma drain_init_inv: "queues_ok G W \<Longrightarrow> 2 \<le> num_nodes G \<Longrightarrow> drain_inv G W arrival_init"
proof -
  assume "2 \<le> num_nodes G"
  then have "\<not> (\<forall>p\<in>{0..<num_nodes G - 1}. (p, c) \<in> {})" for c :: int by force
  then have "arrivals_inv G {} arrival_init" by (intro arrivals_invI) (simp_all add: arrival_init_def)
  then show ?thesis by (simp add: drain_inv_def taken_def arrival_init_def)
qed


section \<open>Arrivals from the send commands of the peers\<close>

text \<open>
  The word a proxy publishes for a command (see \<open>batch_post_exact\<close> and \<open>efa_flag_payloads\<close>). \<open>V q\<close>
  lists the commands whose words go to queue \<open>q\<close> of node \<open>b\<close>, as pairs of sender and chunk.
\<close>

definition sent_word :: "(int \<Rightarrow> fused_globals) \<Rightarrow> int \<Rightarrow> (int \<Rightarrow> int \<Rightarrow> u64) \<Rightarrow> int \<Rightarrow> int \<times> int \<Rightarrow> u32" where
  "sent_word Gs n now b = (\<lambda>(a, c). let cmd = cmd_to Gs n now a b c in pack_arrival_work (tile_id cmd) (run_tiles (bytes cmd)))"

definition arrivals_ok :: "(int \<Rightarrow> fused_globals) \<Rightarrow> int \<Rightarrow> int \<Rightarrow> (int \<Rightarrow> (int \<times> int) list) \<Rightarrow> bool" where
  "arrivals_ok Gs n b V \<longleftrightarrow> cluster_ok Gs n \<and> 0 \<le> b \<and> b < n \<and> (\<forall>q. set (V q) \<subseteq> ({0..<n} - {b}) \<times> {0..<total_chunks (lay (Gs 0))})"

definition sees :: "(int \<Rightarrow> fused_globals) \<Rightarrow> int \<Rightarrow> (int \<Rightarrow> int \<Rightarrow> u64) \<Rightarrow> int \<Rightarrow> (int \<Rightarrow> (int \<times> int) list) \<Rightarrow> bool \<Rightarrow> (int \<Rightarrow> u32) \<Rightarrow> bool" where
  "sees Gs n now b V all rd \<longleftrightarrow> (\<forall>q h. 0 \<le> h \<longrightarrow> h < remote_queue_stride (lay (Gs 0)) \<longrightarrow> (let v = rd (q * remote_queue_stride (lay (Gs 0)) + h)
     in \<not> (all \<and> h < int (length (V q))) \<and> v = 0 \<or> h < int (length (V q)) \<and> v = sent_word Gs n now b (V q ! nat h)))"

definition words_taken :: "(int \<Rightarrow> (int \<times> int) list) \<Rightarrow> arrival_state \<Rightarrow> (int \<times> int) set" where
  "words_taken V s = (\<Union>q. set (take (nat (queue_head s q)) (V q)))"

definition by_slot :: "int \<Rightarrow> int \<Rightarrow> (int \<Rightarrow> (int \<times> int) list) \<Rightarrow> int \<Rightarrow> (int \<times> int) list" where
  "by_slot n b V q = map (\<lambda>(a, c). (slot_at_peer a b n, c)) (V q)"

lemma sent_word_arrival:
  assumes ok: "cluster_ok Gs n" and ab: "0 \<le> a" "a < n" "0 \<le> b" "b < n" "a \<noteq> b" and c: "0 \<le> c" "c < total_chunks (lay (Gs 0))"
  shows "sent_word Gs n now b (a, c) = arrival_of (Gs b) (slot_at_peer a b n) c"
proof -
  note f = cmd_to_fields[OF ok ab c refl refl refl refl, of now]
  note okb = cluster_okD[OF ok ab(3,4)]
  have eq: "slice_tiles (lay (Gs b)) = rbs (Gs 0) * cbs (Gs 0)" "pack_first_tile (Gs b) c = pack_first_tile (Gs 0) c"
    "tiles_of_chunk (Gs b) c = tiles_of_chunk (Gs 0) c"
    using okb(1) by (simp_all add: globals_ok_def okb(4,5) pack_first_tile_def tiles_of_chunk_def)
  have "tile_id (cmd_to Gs n now a b c) = word_of_int (slot_at_peer a b n * (rbs (Gs 0) * cbs (Gs 0)) + pack_first_tile (Gs 0) c)"
    unfolding f(2)[symmetric] by simp
  then show ?thesis unfolding sent_word_def arrival_of_def Let_def prod.case eq f(8) by (simp only:)
qed

lemma by_slot_ok:
  assumes V: "arrivals_ok Gs n b V"
  shows "queues_ok (Gs b) (by_slot n b V)" "sees Gs n now b V all rd \<Longrightarrow> view_of (Gs b) (by_slot n b V) rd"
    "sees Gs n now b V True rd \<Longrightarrow> (\<And>q. int (length (V q)) \<le> remote_queue_stride (lay (Gs 0))) \<Longrightarrow> full_view (Gs b) (by_slot n b V) rd"
proof -
  have ok: "cluster_ok Gs n" and b: "0 \<le> b" "b < n" and m: "set (V q) \<subseteq> ({0..<n} - {b}) \<times> {0..<total_chunks (lay (Gs 0))}" for q
    using V unfolding arrivals_ok_def by blast+
  note okb = cluster_okD[OF ok b]
  have st: "slice_tiles (lay (Gs b)) = rbs (Gs 0) * cbs (Gs 0)" using okb(1) by (simp add: globals_ok_def okb(4))
  have slot: "0 \<le> slot_at_peer a b n \<and> slot_at_peer a b n < n - 1" if "a \<in> {0..<n} - {b}" for a
    using skip_self.slot_range[of a n b] that b by auto
  show "queues_ok (Gs b) (by_slot n b V)"
    unfolding queues_ok_def okb(3) st
  proof (intro conjI allI)
    show "set (by_slot n b V q) \<subseteq> {0..<n - 1} \<times> {0..<total_chunks (lay (Gs b))}" for q
      unfolding okb(4) using m[of q] slot by (fastforce simp: by_slot_def)
  qed (fact okb)+
  have word: "h < int (length (V q)) \<Longrightarrow> 0 \<le> h \<Longrightarrow>
      sent_word Gs n now b (V q ! nat h) = (case by_slot n b V q ! nat h of (p, c) \<Rightarrow> arrival_of (Gs b) p c)" for q h
  proof -
    assume h: "h < int (length (V q))" "0 \<le> h"
    obtain a c where x: "V q ! nat h = (a, c)" by fastforce
    have "(a, c) \<in> set (V q)" using h x nth_mem[of "nat h" "V q"] by simp
    then have "a \<in> {0..<n} - {b}" "c \<in> {0..<total_chunks (lay (Gs 0))}" using m by blast+
    then have "sent_word Gs n now b (a, c) = arrival_of (Gs b) (slot_at_peer a b n) c"
      using b by (intro sent_word_arrival[OF ok]) auto
    then show ?thesis using h by (simp add: by_slot_def x nth_map)
  qed
  have len: "length (by_slot n b V q) = length (V q)" for q by (simp add: by_slot_def)
  show "view_of (Gs b) (by_slot n b V) rd" if S: "sees Gs n now b V all rd"
    unfolding view_of_def okb(4) len
  proof (intro allI impI)
    fix q h assume h: "0 \<le> h" "h < remote_queue_stride (lay (Gs 0))"
    then have "rd (q * remote_queue_stride (lay (Gs 0)) + h) = 0
        \<or> h < int (length (V q)) \<and> rd (q * remote_queue_stride (lay (Gs 0)) + h) = sent_word Gs n now b (V q ! nat h)"
      using S unfolding sees_def Let_def by blast
    then show "rd (q * remote_queue_stride (lay (Gs 0)) + h) = 0 \<or> h < int (length (V q))
        \<and> rd (q * remote_queue_stride (lay (Gs 0)) + h) = (case by_slot n b V q ! nat h of (p, c) \<Rightarrow> arrival_of (Gs b) p c)"
      using word[of h q] h(1) by fastforce
  qed
  show "full_view (Gs b) (by_slot n b V) rd" if S: "sees Gs n now b V True rd"
    and l: "\<And>q. int (length (V q)) \<le> remote_queue_stride (lay (Gs 0))"
    unfolding full_view_def okb(4) len
  proof (intro allI impI)
    fix q h assume h: "0 \<le> h" "h < int (length (V q))"
    then have "h < remote_queue_stride (lay (Gs 0))" using l[of q] by simp
    then have "rd (q * remote_queue_stride (lay (Gs 0)) + h) = sent_word Gs n now b (V q ! nat h)"
      using S h unfolding sees_def Let_def by blast
    then show "rd (q * remote_queue_stride (lay (Gs 0)) + h) = (case by_slot n b V q ! nat h of (p, c) \<Rightarrow> arrival_of (Gs b) p c)"
      using word[of h q] h by simp
  qed
qed

lemma taken_by_slot: "taken (by_slot n b V) s = (\<lambda>(a, c). (slot_at_peer a b n, c)) ` words_taken V s"
  by (simp add: taken_def words_taken_def by_slot_def take_map image_UN)

lemma all_peers_slot:
  assumes V: "arrivals_ok Gs n b V"
  shows "(\<forall>p\<in>{0..<n - 1}. (p, c) \<in> taken (by_slot n b V) s) \<longleftrightarrow> (\<forall>a\<in>{0..<n} - {b}. (a, c) \<in> words_taken V s)"
proof -
  have b: "0 \<le> b" "b < n" and m: "words_taken V s \<subseteq> ({0..<n} - {b}) \<times> {0..<total_chunks (lay (Gs 0))}"
    using V unfolding arrivals_ok_def by (blast, blast, unfold words_taken_def, fast dest: in_set_takeD)
  have "(slot_at_peer a b n, c) \<in> taken (by_slot n b V) s \<longleftrightarrow> (a, c) \<in> words_taken V s" if a: "a \<in> {0..<n} - {b}" for a
  proof
    assume "(slot_at_peer a b n, c) \<in> taken (by_slot n b V) s"
    then obtain a' where a': "(a', c) \<in> words_taken V s" "slot_at_peer a b n = slot_at_peer a' b n" unfolding taken_by_slot by auto
    have "a' \<in> {0..<n} - {b}" using a'(1) m by blast
    then have "a = a'" using skip_self.slot_of_inj[of a n a' b] a'(2) a b by simp
    then show "(a, c) \<in> words_taken V s" using a' by simp
  qed (auto simp: taken_by_slot)
  moreover have "{0..<n - 1} = (\<lambda>a. slot_at_peer a b n) ` ({0..<n} - {b})"
  proof (intro equalityI subsetI)
    fix p assume p: "p \<in> {0..<n - 1}"
    then have "peer_rank_for_slot b n p \<in> {0..<n} - {b}" "slot_at_peer (peer_rank_for_slot b n p) b n = p"
      using skip_self.rank_range[of b n p] skip_self.slot_of_rank_of[of b n p] b by auto
    then show "p \<in> (\<lambda>a. slot_at_peer a b n) ` ({0..<n} - {b})" by force
  next
    fix p assume "p \<in> (\<lambda>a. slot_at_peer a b n) ` ({0..<n} - {b})"
    then obtain a where a: "p = slot_at_peer a b n" "a \<in> {0..<n} - {b}" by blast
    show "p \<in> {0..<n - 1}" unfolding a(1) using skip_self.slot_range[of a n b] a(2) b by auto
  qed
  ultimately show ?thesis by simp
qed


text \<open>
  C8 (functional): whatever the blocks drain and in whatever order they call, a chunk is flagged
  exactly when the words of all peers about it have been taken off the queues, and the count of
  arrived chunks is the number of flagged ones; each word is taken once, in the order of its queue.
\<close>

theorem arrival_flags_exact:
  assumes V: "arrivals_ok Gs n b V" and views: "\<forall>(rd, r)\<in>set calls. sees Gs n now b V False rd"
    and s: "s = drain_run (Gs b) calls arrival_init"
  shows "arrived_flag s c = of_bool (\<forall>a\<in>{0..<n} - {b}. (a, c) \<in> words_taken V s)
    \<and> arrived_chunks s = int (card {c. arrived_flag s c = 1})
    \<and> 0 \<le> queue_head s q \<and> queue_head s q \<le> int (length (V q)) \<and> queue_observed s q = queue_head s q"
proof -
  note B = by_slot_ok[OF V]
  have ok: "cluster_ok Gs n" and b: "0 \<le> b" "b < n" using V unfolding arrivals_ok_def by blast+
  note okb = cluster_okD[OF ok b]
  have v: "\<forall>(rd, r)\<in>set calls. view_of (Gs b) (by_slot n b V) rd" using views B(2) by fast
  have "drain_inv (Gs b) (by_slot n b V) s"
    unfolding s by (rule drain_run_inv[OF B(1) v drain_init_inv[OF B(1)]]) (use okb in simp)
  note I = drain_invD[OF this] and A = arrivals_invD[OF drain_invD(4)[OF this], unfolded okb(3) all_peers_slot[OF V]]
  have "{c. arrived_flag s c = 1} = {c. \<forall>a\<in>{0..<n} - {b}. (a, c) \<in> words_taken V s}" unfolding A(3) by (simp only: of_bool_eq_1_iff)
  then show ?thesis using A(3)[of c] A(4) I(1-3)[of q] by (simp add: by_slot_def)
qed

text \<open>
  C23 (liveness): once the words of all peers about all chunks are visible and fit their queues,
  one more call of every draining block flags every chunk, and the progress blocks leave their loop.
\<close>

theorem arrivals_complete:
  assumes V: "arrivals_ok Gs n b V" and views: "\<forall>(rd, r)\<in>set calls. sees Gs n now b V False rd"
    and all: "(\<Union>q\<in>{0..<num_remote_queues (Gs b)}. set (V q)) = ({0..<n} - {b}) \<times> {0..<total_chunks (lay (Gs 0))}"
    and cap: "\<And>q. int (length (V q)) \<le> remote_queue_stride (lay (Gs 0))"
    and drains: "k = (if num_inter_recv_progress_sms (split (Gs b)) > 0 then num_inter_recv_progress_sms (split (Gs b))
       else num_inter_reduce_store_sms (split (Gs b)))" "1 \<le> k"
    and final: "\<forall>(rd, r)\<in>set last_calls. sees Gs n now b V True rd" "snd ` set last_calls = {0..<k}"
    and s: "s = drain_run (Gs b) last_calls (drain_run (Gs b) calls arrival_init)" and c: "0 \<le> c" "c < total_chunks (lay (Gs 0))"
  shows "arrived_flag s c = 1 \<and> recv_progress_done (Gs b) s"
proof -
  note B = by_slot_ok[OF V]
  have ok: "cluster_ok Gs n" and b: "0 \<le> b" "b < n" using V unfolding arrivals_ok_def by blast+
  note okb = cluster_okD[OF ok b]
  have v: "\<forall>(rd, r)\<in>set calls. view_of (Gs b) (by_slot n b V) rd" using views B(2) by fast
  have v': "\<forall>(rd, r)\<in>set last_calls. view_of (Gs b) (by_slot n b V) rd" using final(1) B(2) by fast
  have f: "\<forall>(rd, r)\<in>set last_calls. full_view (Gs b) (by_slot n b V) rd" using final(1) B(3)[OF _ cap] by fast
  have len: "int (length (by_slot n b V q)) \<le> remote_queue_stride (lay (Gs b))" for q
    unfolding okb(4) using cap[of q] by (simp add: by_slot_def)
  have "drain_inv (Gs b) (by_slot n b V) (drain_run (Gs b) calls arrival_init)"
    by (rule drain_run_inv[OF B(1) v drain_init_inv[OF B(1)]]) (use okb in simp)
  note R = drain_run_inv[OF B(1) v' this, folded s]
  have drained: "queue_head s q = int (length (V q))" if q: "q \<in> {0..<num_remote_queues (Gs b)}" for q
  proof -
    have r: "q mod k \<in> {0..<k}" "\<not> q mod k < 0" using drains(2) by (simp_all add: not_less)
    have "q \<in> set (drained_queues (Gs b) (q mod k))"
      unfolding drained_queues_def drains(1)[symmetric] using q r(2) drains(2) by (simp add: in_strided_mod max_def)
    then have "queue_head s q = int (length (by_slot n b V q))" using R(3)[OF f len] r(1) final(2) by blast
    then show ?thesis by (simp add: by_slot_def)
  qed
  have got: "(a, c) \<in> words_taken V s" if "a \<in> {0..<n} - {b}" "c \<in> {0..<total_chunks (lay (Gs 0))}" for a c
  proof -
    have "(a, c) \<in> (\<Union>q\<in>{0..<num_remote_queues (Gs b)}. set (V q))" unfolding all using that by blast
    then obtain q where "q \<in> {0..<num_remote_queues (Gs b)}" "(a, c) \<in> set (V q)" by blast
    then have "(a, c) \<in> set (take (nat (queue_head s q)) (V q))" using drained[of q] by simp
    then show ?thesis unfolding words_taken_def by blast
  qed
  note A = arrivals_invD[OF drain_invD(4)[OF R(1)], unfolded okb(3) all_peers_slot[OF V]]
  have "{0..<total_chunks (lay (Gs 0))} \<subseteq> {c. \<forall>a\<in>{0..<n} - {b}. (a, c) \<in> words_taken V s}" using got by blast
  moreover have "finite {c. \<forall>a\<in>{0..<n} - {b}. (a, c) \<in> words_taken V s}"
  proof (rule finite_subset[of _ "{0..<total_chunks (lay (Gs 0))}"])
    have "words_taken V s \<subseteq> ({0..<n} - {b}) \<times> {0..<total_chunks (lay (Gs 0))}"
      using V unfolding arrivals_ok_def words_taken_def by (fast dest: in_set_takeD)
    moreover have "(if b = 0 then 1 else 0) \<in> {0..<n} - {b}" using okb(7) by auto
    ultimately show "{c. \<forall>a\<in>{0..<n} - {b}. (a, c) \<in> words_taken V s} \<subseteq> {0..<total_chunks (lay (Gs 0))}" by blast
  qed simp
  ultimately have "card {0..<total_chunks (lay (Gs 0))} \<le> card {c. \<forall>a\<in>{0..<n} - {b}. (a, c) \<in> words_taken V s}"
    by (intro card_mono)
  then have "recv_progress_done (Gs b) s" unfolding recv_progress_done_def okb(4) using A(4) by simp
  moreover have "arrived_flag s c = 1" unfolding A(3) using got c by simp
  ultimately show ?thesis by blast
qed


section \<open>Three nodes\<close>

definition trio_words :: "int \<Rightarrow> (int \<times> int) list" where
  "trio_words q = (if q = 0 then [(1, 0), (2, 0)] else if q = 1 then [(2, 1), (1, 1)] else [])"

definition trio_mem :: "int \<Rightarrow> u32" where
  "trio_mem i = (let q = i div 32; h = i mod 32 in if h < int (length (trio_words q))
     then sent_word trio 3 (\<lambda>_ _. 0) 0 (trio_words q ! nat h) else 0)"

lemma trio_sees: "sees trio 3 (\<lambda>_ _. 0) 0 trio_words all trio_mem"
  unfolding sees_def trio_lay(7) Let_def trio_mem_def by simp

lemma trio_arrivals: "arrivals_ok trio 3 0 trio_words"
  unfolding arrivals_ok_def using trio_cluster by (auto simp: trio_words_def trio_lay(5) split: if_splits)

lemma arrival_flags_exact_witness:
  "arrived_chunks (drain_run (trio 0) [(trio_mem, 1), (trio_mem, 0)] arrival_init)
    = int (card {c. arrived_flag (drain_run (trio 0) [(trio_mem, 1), (trio_mem, 0)] arrival_init) c = 1})"
  by (rule arrival_flags_exact[OF trio_arrivals _ refl, THEN conjunct2, THEN conjunct1]) (use trio_sees in simp)

lemma arrivals_complete_witness:
  "recv_progress_done (trio 0) (drain_run (trio 0) (map (Pair trio_mem) [0..17]) (drain_run (trio 0) [] arrival_init))"
proof (rule arrivals_complete[THEN conjunct2])
  show "arrivals_ok trio 3 0 trio_words" by (rule trio_arrivals)
  show "\<forall>(rd, r)\<in>set []. sees trio 3 (\<lambda>_ _. 0) 0 trio_words False rd" by simp
  show "\<forall>(rd, r)\<in>set (map (Pair trio_mem) [0..17]). sees trio 3 (\<lambda>_ _. 0) 0 trio_words True rd"
    using trio_sees by auto
  have "{0..<num_remote_queues (trio 0)} = {0, 1, 2, 3}" unfolding trio_fields(5) by auto
  moreover have "({0..<3} - {0}) = {1, 2 :: int}" "{0..<total_chunks (lay (trio 0))} = {0, 1}" unfolding trio_lay(5) by auto
  ultimately show "(\<Union>q\<in>{0..<num_remote_queues (trio 0)}. set (trio_words q)) = ({0..<3} - {0}) \<times> {0..<total_chunks (lay (trio 0))}"
    by (auto simp: trio_words_def)
  show "int (length (trio_words q)) \<le> remote_queue_stride (lay (trio 0))" for q
    unfolding trio_lay(7) by (simp add: trio_words_def)
  show "18 = (if num_inter_recv_progress_sms (split (trio 0)) > 0 then num_inter_recv_progress_sms (split (trio 0))
       else num_inter_reduce_store_sms (split (trio 0)))"
    by (simp add: trio_def gemm_ar_make_globals_def gemm_ar_compute_role_split_def Let_def)
  show "snd ` set (map (Pair trio_mem) [0..17]) = {0..<18}" by (auto simp: image_image)
  show "0 \<le> (0::int)" "0 < total_chunks (lay (trio 0))" by (simp_all add: trio_lay(5))
qed (simp, rule refl)

end
