(* ===== verification/Gemm_AR_Reduce.thy ===== *)
theory Gemm_AR_Reduce
  imports Gemm_AR_Recv
begin

text \<open>
  The last stage of the fused GEMM + all-reduce kernel: the local sum of a chunk and the parts of
  the peers are added and published (\<open>src/include/operators/gemm_ar/gemm_ar.cuh:790-932\<close>,
  \<open>src/src/gemm_ar.cu:996-1031,1042-1210\<close>). Memory is indexed by element; the packed addition of
  the hardware, \<open>__hadd2\<close>, is a parameter \<open>hadd\<close> that adds two elements.
\<close>

section \<open>Threads and vectors\<close>

definition NUM_THREADS :: int where [tile_simps]: "NUM_THREADS = (2 + 1) * 4 * 32"
definition ELEMS_PER_VEC :: int where [tile_simps]: "ELEMS_PER_VEC = 8"
definition VECS_PER_ROW :: int where [tile_simps]: "VECS_PER_ROW = COL_BLOCK div ELEMS_PER_VEC"
definition ROWS_PER_WAVE :: int where [tile_simps]: "ROWS_PER_WAVE = NUM_THREADS div VECS_PER_ROW"

text \<open>The vectors of a tile a thread handles, as (row, first column).\<close>

definition thread_vecs :: "int \<Rightarrow> (int \<times> int) list" where
  "thread_vecs tid = map (\<lambda>r. (r, c_mod tid VECS_PER_ROW * ELEMS_PER_VEC))
     (strided (c_div tid VECS_PER_ROW) ROWS_PER_WAVE ROW_BLOCK)"

lemma in_thread_vecs:
  assumes "0 \<le> tid" "tid < NUM_THREADS"
  shows "(r, e) \<in> set (thread_vecs tid) \<longleftrightarrow> 0 \<le> r \<and> r < ROW_BLOCK \<and> r mod 12 = tid div 32 \<and> e = tid mod 32 * 8"
proof -
  have "0 \<le> tid div 32" "tid div 32 < 12" using assms by (simp_all add: tile_simps)
  then show ?thesis using assms in_strided_mod[of 12 "tid div 32" r ROW_BLOCK]
    by (auto simp: thread_vecs_def tile_simps)
qed

text \<open>Every element of a tile belongs to one thread.\<close>

lemma thread_of_element:
  assumes "0 \<le> r" "r < ROW_BLOCK" "0 \<le> x" "x < COL_BLOCK"
  shows "\<exists>!tid. tid \<in> {0..<NUM_THREADS} \<and> (r, x div 8 * 8) \<in> set (thread_vecs tid)"
proof (rule ex1I[of _ "r mod 12 * 32 + x div 8"])
  have x: "0 \<le> x div 8" "x div 8 < 32" using assms by (simp_all add: tile_simps)
  have r: "0 \<le> r mod 12" "r mod 12 < 12" by simp_all
  have t: "r mod 12 * 32 + x div 8 \<in> {0..<NUM_THREADS}" using x r by (simp add: tile_simps)
  moreover have "(r mod 12 * 32 + x div 8) div 32 = r mod 12" "(r mod 12 * 32 + x div 8) mod 32 = x div 8" using x by simp_all
  ultimately show "r mod 12 * 32 + x div 8 \<in> {0..<NUM_THREADS} \<and> (r, x div 8 * 8) \<in> set (thread_vecs (r mod 12 * 32 + x div 8))"
    using assms in_thread_vecs by simp
next
  fix tid assume "tid \<in> {0..<NUM_THREADS} \<and> (r, x div 8 * 8) \<in> set (thread_vecs tid)"
  then have "r mod 12 = tid div 32" "x div 8 = tid mod 32" using in_thread_vecs[of tid r "x div 8 * 8"] by auto
  then show "tid = r mod 12 * 32 + x div 8" by simp
qed

section \<open>Memory and sums\<close>

record 'v reduce_mem =
  c_local :: "int \<Rightarrow> 'v"
  c_recv :: "int \<Rightarrow> 'v"
  c_accum :: "int \<Rightarrow> 'v"
  c_final :: "int \<times> int \<Rightarrow> 'v"

definition recv_index :: "fused_globals \<Rightarrow> int \<Rightarrow> int \<Rightarrow> int \<Rightarrow> int \<Rightarrow> int" where
  "recv_index G peer_slot tile tile_row col = (peer_slot * slice_tiles (lay G) + tile) * TILE_ELEMS + tile_row * COL_BLOCK + col"

definition accum_index :: "int \<Rightarrow> int \<Rightarrow> int \<Rightarrow> int" where
  "accum_index tile tile_row col = tile * TILE_ELEMS + tile_row * COL_BLOCK + col"

text \<open>Vectors are functions of the position \<open>0 \<dots> 7\<close>.\<close>

definition gemm_ar_sum_local_and_remote_vec8 ::
    "('v \<Rightarrow> 'v \<Rightarrow> 'v) \<Rightarrow> fused_globals \<Rightarrow> 'v reduce_mem \<Rightarrow> int \<Rightarrow> int \<Rightarrow> int \<Rightarrow> (int \<Rightarrow> 'v) \<Rightarrow> int \<Rightarrow> 'v" where
  "gemm_ar_sum_local_and_remote_vec8 hadd G m tile tile_row col_elem local_vec =
     (\<lambda>j. fold (\<lambda>peer_slot acc. hadd acc (c_recv m (recv_index G peer_slot tile tile_row (col_elem + j))))
        [0..num_nodes G - 1 - 1] (local_vec j))"

definition gemm_ar_sum_local_and_accum_vec8 ::
    "('v \<Rightarrow> 'v \<Rightarrow> 'v) \<Rightarrow> 'v reduce_mem \<Rightarrow> int \<Rightarrow> int \<Rightarrow> int \<Rightarrow> (int \<Rightarrow> 'v) \<Rightarrow> int \<Rightarrow> 'v" where
  "gemm_ar_sum_local_and_accum_vec8 hadd m tile tile_row col_elem local_vec =
     (\<lambda>j. hadd (local_vec j) (c_accum m (accum_index tile tile_row (col_elem + j))))"

definition store8 :: "(int \<Rightarrow> 'v) \<Rightarrow> int \<Rightarrow> (int \<Rightarrow> 'v) \<Rightarrow> int \<Rightarrow> 'v" where
  "store8 f i v = (\<lambda>k. if i \<le> k \<and> k < i + ELEMS_PER_VEC then v (k - i) else f k)"

definition gemm_ar_accumulate_remote_peer_vec8 ::
    "('v \<Rightarrow> 'v \<Rightarrow> 'v) \<Rightarrow> fused_globals \<Rightarrow> int \<Rightarrow> bool \<Rightarrow> int \<Rightarrow> int \<Rightarrow> int \<Rightarrow> 'v reduce_mem \<Rightarrow> 'v reduce_mem" where
  "gemm_ar_accumulate_remote_peer_vec8 hadd G peer_slot first_peer tile tile_row col_elem m = (let
     rv = (\<lambda>j. c_recv m (recv_index G peer_slot tile tile_row (col_elem + j)));
     out = (if first_peer then rv else (\<lambda>j. hadd (c_accum m (accum_index tile tile_row (col_elem + j))) (rv j)))
   in m\<lparr>c_accum := store8 (c_accum m) (accum_index tile tile_row col_elem) out\<rparr>)"

definition gemm_ar_publish_final_vec8 :: "int \<Rightarrow> int \<Rightarrow> (int \<Rightarrow> 'v) \<Rightarrow> 'v reduce_mem \<Rightarrow> 'v reduce_mem" where
  "gemm_ar_publish_final_vec8 global_row global_col packed m =
     m\<lparr>c_final := (\<lambda>(row, col). if row = global_row \<and> global_col \<le> col \<and> col < global_col + ELEMS_PER_VEC
       then packed (col - global_col) else c_final m (row, col))\<rparr>"

section \<open>Reducing a chunk\<close>

text \<open>One vector of a chunk: local column \<open>lc\<close> of the chunk, row \<open>r\<close> and column \<open>e\<close> in the tile.\<close>

definition reduce_vec ::
    "('v \<Rightarrow> 'v \<Rightarrow> 'v) \<Rightarrow> fused_globals \<Rightarrow> bool \<Rightarrow> chunk_pos \<Rightarrow> int \<times> int \<times> int \<Rightarrow> 'v reduce_mem \<Rightarrow> 'v reduce_mem" where
  "reduce_vec hadd G accum p = (\<lambda>(lc, r, e) m. let
     slice_row_offset = dev_idx G * slice_rows (lay G);
     slice_elem_offset = slice_row_offset * g_N G;
     col_idx = col_start p + lc;
     tile = rb_in_slice p * cbs G + col_idx;
     global_col = col_idx * COL_BLOCK + e;
     tile_col_offset = col_idx * COL_BLOCK;
     local_row = rb_in_slice p * ROW_BLOCK + r;
     global_row = slice_row_offset + local_row;
     global_elem = slice_elem_offset + local_row * g_N G + tile_col_offset + e;
     lv = (\<lambda>j. c_local m (global_elem + j));
     ov = (if accum then gemm_ar_sum_local_and_accum_vec8 hadd m tile r e lv
           else gemm_ar_sum_local_and_remote_vec8 hadd G m tile r e lv)
   in gemm_ar_publish_final_vec8 global_row global_col ov m)"

definition thread_jobs :: "chunk_pos \<Rightarrow> int \<Rightarrow> (int \<times> int \<times> int) list" where
  "thread_jobs p tid = concat (map (\<lambda>lc. map (Pair lc) (thread_vecs tid)) [0..tiles_this_chunk p - 1])"

definition reduce_chunk ::
    "('v \<Rightarrow> 'v \<Rightarrow> 'v) \<Rightarrow> fused_globals \<Rightarrow> bool \<Rightarrow> int \<Rightarrow> int list \<Rightarrow> 'v reduce_mem \<Rightarrow> 'v reduce_mem" where
  "reduce_chunk hadd G accum chunk_id tids m =
     fold (\<lambda>tid. fold (reduce_vec hadd G accum (decode G chunk_id)) (thread_jobs (decode G chunk_id) tid)) tids m"

text \<open>
  What element (row, col) of the slice should become: the local element and those of the peers,
  added from left to right.
\<close>

definition reduced_value :: "('v \<Rightarrow> 'v \<Rightarrow> 'v) \<Rightarrow> fused_globals \<Rightarrow> bool \<Rightarrow> 'v reduce_mem \<Rightarrow> int \<times> int \<Rightarrow> 'v" where
  "reduced_value hadd G accum m = (\<lambda>(row, col). let
     lr = row - dev_idx G * slice_rows (lay G);
     tile = lr div ROW_BLOCK * cbs G + col div COL_BLOCK;
     own = c_local m (row * g_N G + col)
   in if accum then hadd own (c_accum m (accum_index tile (lr mod ROW_BLOCK) (col mod COL_BLOCK)))
      else fold (\<lambda>ps acc. hadd acc (c_recv m (recv_index G ps tile (lr mod ROW_BLOCK) (col mod COL_BLOCK)))) [0..num_nodes G - 1 - 1] own)"

text \<open>The elements of a chunk.\<close>

definition chunk_elems :: "fused_globals \<Rightarrow> int \<Rightarrow> (int \<times> int) set" where
  "chunk_elems G c = {(row, col). ((row - dev_idx G * slice_rows (lay G)) div ROW_BLOCK, col div COL_BLOCK) \<in> chunk_tile_set (decode G c)}"

definition vec_cells :: "fused_globals \<Rightarrow> chunk_pos \<Rightarrow> int \<times> int \<times> int \<Rightarrow> (int \<times> int) set" where
  "vec_cells G p = (\<lambda>(lc, r, e). {dev_idx G * slice_rows (lay G) + rb_in_slice p * ROW_BLOCK + r}
     \<times> {(col_start p + lc) * COL_BLOCK + e..<(col_start p + lc) * COL_BLOCK + e + ELEMS_PER_VEC})"

lemma reduce_vec_cells:
  assumes r: "0 \<le> r" "r < ROW_BLOCK" and e: "0 \<le> e" "e + ELEMS_PER_VEC \<le> COL_BLOCK"
  shows "c_final (reduce_vec hadd G accum p (lc, r, e) m) x
      = (if x \<in> vec_cells G p (lc, r, e) then reduced_value hadd G accum m x else c_final m x)"
    and "c_local (reduce_vec hadd G accum p (lc, r, e) m) = c_local m"
    and "c_recv (reduce_vec hadd G accum p (lc, r, e) m) = c_recv m"
    and "c_accum (reduce_vec hadd G accum p (lc, r, e) m) = c_accum m"
proof -
  obtain row col where x: "x = (row, col)" by fastforce
  show "c_final (reduce_vec hadd G accum p (lc, r, e) m) x
      = (if x \<in> vec_cells G p (lc, r, e) then reduced_value hadd G accum m x else c_final m x)"
  proof (cases "x \<in> vec_cells G p (lc, r, e)")
    case True
    define j where "j = col - ((col_start p + lc) * COL_BLOCK + e)"
    have j: "0 \<le> j" "j < ELEMS_PER_VEC" and col: "col = (col_start p + lc) * COL_BLOCK + (e + j)"
      and row: "row = dev_idx G * slice_rows (lay G) + (rb_in_slice p * ROW_BLOCK + r)"
      using True unfolding x vec_cells_def j_def by auto
    have ej: "0 \<le> e + j" "e + j < COL_BLOCK" using e j by (auto simp: ELEMS_PER_VEC_def)
    have c: "col div COL_BLOCK = col_start p + lc" "col mod COL_BLOCK = e + j" unfolding col using ej by simp_all
    have l: "row - dev_idx G * slice_rows (lay G) = rb_in_slice p * ROW_BLOCK + r" unfolding row by simp
    have q: "(rb_in_slice p * ROW_BLOCK + r) div ROW_BLOCK = rb_in_slice p" "(rb_in_slice p * ROW_BLOCK + r) mod ROW_BLOCK = r"
      using r by simp_all
    have own: "dev_idx G * slice_rows (lay G) * g_N G + (rb_in_slice p * ROW_BLOCK + r) * g_N G + (col_start p + lc) * COL_BLOCK + e + j
      = row * g_N G + col" unfolding row col by (simp add: algebra_simps)
    have hit: "row = dev_idx G * slice_rows (lay G) + (rb_in_slice p * ROW_BLOCK + r) \<and> (col_start p + lc) * COL_BLOCK + e \<le> col
      \<and> col < (col_start p + lc) * COL_BLOCK + e + ELEMS_PER_VEC" using row col j by simp
    show ?thesis
      unfolding reduce_vec_def reduced_value_def x prod.case Let_def l q c gemm_ar_publish_final_vec8_def
        gemm_ar_sum_local_and_accum_vec8_def gemm_ar_sum_local_and_remote_vec8_def
      using True hit by (simp add: x j_def[symmetric] own)
  next
    case False
    then show ?thesis unfolding reduce_vec_def x prod.case Let_def gemm_ar_publish_final_vec8_def
      by (auto simp: vec_cells_def)
  qed
qed (simp_all add: reduce_vec_def Let_def gemm_ar_publish_final_vec8_def)


definition job_ok :: "chunk_pos \<Rightarrow> int \<times> int \<times> int \<Rightarrow> bool" where
  "job_ok p = (\<lambda>(lc, r, e). 0 \<le> lc \<and> lc < tiles_this_chunk p \<and> 0 \<le> r \<and> r < ROW_BLOCK \<and> 0 \<le> e \<and> e + ELEMS_PER_VEC \<le> COL_BLOCK \<and> e mod 8 = 0)"

lemma in_thread_jobs:
  assumes "tid \<in> {0..<NUM_THREADS}"
  shows "(lc, r, e) \<in> set (thread_jobs p tid) \<longleftrightarrow> job_ok p (lc, r, e) \<and> r mod 12 = tid div 32 \<and> e = tid mod 32 * 8"
proof -
  have "tid mod 32 * 8 + 8 \<le> 256" using pos_mod_bound[of 32 tid] by simp
  then show ?thesis using in_thread_vecs[of tid r e] assms
    by (auto simp: thread_jobs_def job_ok_def ELEMS_PER_VEC_def COL_BLOCK_def)
qed

lemma reduce_fold:
  assumes "\<forall>job\<in>set jobs. job_ok p job"
  shows "(c_final (fold (reduce_vec hadd G accum p) jobs m) x
      = (if \<exists>job\<in>set jobs. x \<in> vec_cells G p job then reduced_value hadd G accum m x else c_final m x))
    \<and> c_local (fold (reduce_vec hadd G accum p) jobs m) = c_local m
    \<and> c_recv (fold (reduce_vec hadd G accum p) jobs m) = c_recv m
    \<and> c_accum (fold (reduce_vec hadd G accum p) jobs m) = c_accum m"
  using assms
proof (induction jobs rule: rev_induct)
  case Nil
  then show ?case by simp
next
  case (snoc job jobs)
  obtain lc r e where j: "job = (lc, r, e)" by (metis prod_cases3)
  then have ok: "0 \<le> r" "r < ROW_BLOCK" "0 \<le> e" "e + ELEMS_PER_VEC \<le> COL_BLOCK" using snoc.prems by (simp_all add: job_ok_def)
  let ?m = "fold (reduce_vec hadd G accum p) jobs m"
  have IH: "c_final ?m x = (if \<exists>job\<in>set jobs. x \<in> vec_cells G p job then reduced_value hadd G accum m x else c_final m x)"
    "c_local ?m = c_local m" "c_recv ?m = c_recv m" "c_accum ?m = c_accum m" using snoc by simp_all
  have same: "reduced_value hadd G accum ?m = reduced_value hadd G accum m" unfolding reduced_value_def IH(2-4) ..
  note one = reduce_vec_cells[OF ok, of hadd G accum p lc ?m]
  show ?case unfolding fold_append fold_simps comp_def j using one(1)[of x] one(2-4) IH same by simp
qed

lemma reduce_chunk_fold:
  "reduce_chunk hadd G accum c tids m = fold (reduce_vec hadd G accum (decode G c)) (concat (map (thread_jobs (decode G c)) tids)) m"
  unfolding reduce_chunk_def by (induction tids arbitrary: m) simp_all

lemma chunk_jobs:
  assumes "set tids = {0..<NUM_THREADS}"
  shows "set (concat (map (thread_jobs p) tids)) = {job. job_ok p job}"
proof (rule set_eqI)
  fix job :: "int \<times> int \<times> int"
  obtain lc r e where j: "job = (lc, r, e)" by (metis prod_cases3)
  show "job \<in> set (concat (map (thread_jobs p) tids)) \<longleftrightarrow> job \<in> {job. job_ok p job}"
  proof
    assume "job \<in> set (concat (map (thread_jobs p) tids))"
    then obtain tid where "tid \<in> {0..<NUM_THREADS}" "job \<in> set (thread_jobs p tid)" using assms by auto
    then show "job \<in> {job. job_ok p job}" unfolding j using in_thread_jobs by blast
  next
    assume ok: "job \<in> {job. job_ok p job}"
    define tid where "tid = r mod 12 * 32 + e div 8"
    have e: "0 \<le> e div 8" "e div 8 < 32" "e div 8 * 8 = e"
      using ok by (auto simp: j job_ok_def ELEMS_PER_VEC_def COL_BLOCK_def)
    have r: "0 \<le> r mod 12" "r mod 12 < 12" by simp_all
    have "tid \<in> {0..<NUM_THREADS}" "tid div 32 = r mod 12" "tid mod 32 = e div 8"
      using e r by (simp_all add: tid_def NUM_THREADS_def)
    then have "tid \<in> set tids" "job \<in> set (thread_jobs p tid)" using ok e assms in_thread_jobs[of tid lc r e p] by (simp_all add: j)
    then show "job \<in> set (concat (map (thread_jobs p) tids))" by auto
  qed
qed

lemma chunk_cells:
  "(\<exists>job. job_ok (decode G c) job \<and> x \<in> vec_cells G (decode G c) job) \<longleftrightarrow> x \<in> chunk_elems G c"
proof -
  obtain row col where x: "x = (row, col)" by fastforce
  let ?p = "decode G c" and ?o = "dev_idx G * slice_rows (lay G)"
  show ?thesis
  proof
    assume "\<exists>job. job_ok ?p job \<and> x \<in> vec_cells G ?p job"
    then obtain lc r e where ok: "job_ok ?p (lc, r, e)" and in_cells: "x \<in> vec_cells G ?p (lc, r, e)" by (metis prod_cases3)
    define j where "j = col - ((col_start ?p + lc) * COL_BLOCK + e)"
    have "0 \<le> e + j" "e + j < COL_BLOCK" "col = (col_start ?p + lc) * COL_BLOCK + (e + j)" "row - ?o = rb_in_slice ?p * ROW_BLOCK + r"
      "0 \<le> r" "r < ROW_BLOCK" "0 \<le> lc" "lc < tiles_this_chunk ?p"
      using ok in_cells by (auto simp: x job_ok_def vec_cells_def j_def)
    then show "x \<in> chunk_elems G c" unfolding chunk_elems_def x chunk_tile_set_def by simp
  next
    assume "x \<in> chunk_elems G c"
    then have d: "(row - ?o) div ROW_BLOCK = rb_in_slice ?p" "col_start ?p \<le> col div COL_BLOCK" "col div COL_BLOCK < col_start ?p + tiles_this_chunk ?p"
      unfolding chunk_elems_def x chunk_tile_set_def by auto
    define lc where "lc = col div COL_BLOCK - col_start ?p"
    define r where "r = (row - ?o) mod ROW_BLOCK"
    define e where "e = col mod COL_BLOCK div 8 * 8"
    have e: "0 \<le> e" "e \<le> col mod COL_BLOCK" "col mod COL_BLOCK < e + 8" "e + 8 \<le> COL_BLOCK" "e mod 8 = 0"
      using pos_mod_bound[of 256 col] pos_mod_sign[of 256 col] by (auto simp: e_def COL_BLOCK_def)
    have "job_ok ?p (lc, r, e)" using d e by (simp add: job_ok_def lc_def r_def ELEMS_PER_VEC_def ROW_BLOCK_def)
    moreover have "x \<in> vec_cells G ?p (lc, r, e)"
      unfolding vec_cells_def x prod.case
    proof (intro SigmaI)
      have "(row - ?o) = rb_in_slice ?p * ROW_BLOCK + r" unfolding d(1)[symmetric] r_def by simp
      then show "row \<in> {?o + rb_in_slice ?p * ROW_BLOCK + r}" by simp
      have "col = (col_start ?p + lc) * COL_BLOCK + col mod COL_BLOCK" by (simp add: lc_def)
      then show "col \<in> {(col_start ?p + lc) * COL_BLOCK + e..<(col_start ?p + lc) * COL_BLOCK + e + ELEMS_PER_VEC}"
        using e by (auto simp: ELEMS_PER_VEC_def)
    qed
    ultimately show "\<exists>job. job_ok ?p job \<and> x \<in> vec_cells G ?p job" by blast
  qed
qed

text \<open>The threads of a block, in any order, publish every element of the chunk and touch no other.\<close>

lemma reduce_chunk_exact:
  assumes "set tids = {0..<NUM_THREADS}"
  shows "c_local (reduce_chunk hadd G accum c tids m) = c_local m" "c_recv (reduce_chunk hadd G accum c tids m) = c_recv m"
    "c_accum (reduce_chunk hadd G accum c tids m) = c_accum m"
    "c_final (reduce_chunk hadd G accum c tids m) x = (if x \<in> chunk_elems G c then reduced_value hadd G accum m x else c_final m x)"
proof -
  have jobs: "set (concat (map (thread_jobs (decode G c)) tids)) = {job. job_ok (decode G c) job}" by (rule chunk_jobs[OF assms])
  then have ok: "\<forall>job\<in>set (concat (map (thread_jobs (decode G c)) tids)). job_ok (decode G c) job" by blast
  have "(\<exists>job\<in>set (concat (map (thread_jobs (decode G c)) tids)). x \<in> vec_cells G (decode G c) job) \<longleftrightarrow> x \<in> chunk_elems G c"
    unfolding jobs using chunk_cells by blast
  then show "c_local (reduce_chunk hadd G accum c tids m) = c_local m" "c_recv (reduce_chunk hadd G accum c tids m) = c_recv m"
    "c_accum (reduce_chunk hadd G accum c tids m) = c_accum m"
    "c_final (reduce_chunk hadd G accum c tids m) x = (if x \<in> chunk_elems G c then reduced_value hadd G accum m x else c_final m x)"
    unfolding reduce_chunk_fold using reduce_fold[OF ok, of hadd G accum m x] by simp_all
qed


definition slice_elems :: "fused_globals \<Rightarrow> (int \<times> int) set" where
  "slice_elems G = {dev_idx G * slice_rows (lay G)..<dev_idx G * slice_rows (lay G) + rbs G * ROW_BLOCK} \<times> {0..<cbs G * COL_BLOCK}"

lemma slice_chunks:
  assumes G: "globals_ok G"
  shows "(\<exists>c\<in>{0..<total_chunks (lay G)}. x \<in> chunk_elems G c) \<longleftrightarrow> x \<in> slice_elems G"
proof -
  note g = globals_chunks[OF G]
  have lays: "ctiles G = gemm_ar_chunk_tiles False None (cbs G)" "total_chunks (lay G) = rbs G * gemm_ar_chunks_per_row False None (cbs G)"
    using G by (auto simp: globals_ok_def)
  obtain row col where x: "x = (row, col)" by fastforce
  let ?o = "dev_idx G * slice_rows (lay G)"
  let ?t = "((row - ?o) div ROW_BLOCK, col div COL_BLOCK)"
  have tile: "x \<in> slice_elems G \<longleftrightarrow> ?t \<in> {0..<rbs G} \<times> {0..<cbs G}"
    unfolding slice_elems_def x ROW_BLOCK_def COL_BLOCK_def by auto
  have "?t \<in> {0..<rbs G} \<times> {0..<cbs G}" if "c \<in> {0..<total_chunks (lay G)}" "?t \<in> chunk_tile_set (decode G c)" for c
    using chunk_decode_bounds[OF g(5) _ _ lays(1) refl, of c "rbs G" "dev_idx G"] that lays(2)
    by (auto simp: chunk_tile_set_def)
  moreover have "\<exists>c\<in>{0..<total_chunks (lay G)}. ?t \<in> chunk_tile_set (decode G c)" if t: "?t \<in> {0..<rbs G} \<times> {0..<cbs G}"
    using ex1_implies_ex[OF chunks_cover[OF g(5) t, of False None "dev_idx G"]] unfolding lays by blast
  ultimately show ?thesis unfolding tile by (auto simp: chunk_elems_def x)
qed

text \<open>
  C9 (functional): when every chunk is reduced, in any order of the chunks and of the threads of
  a block, every element of the slice of the device holds the sum of the local element and those
  of all peers, added in peer order, and no element of another slice is touched.
\<close>

theorem slice_reduced:
  assumes G: "globals_ok G" and cs: "set cs = {0..<total_chunks (lay G)}" and tids: "\<And>c. set (tids c) = {0..<NUM_THREADS}"
  shows "c_final (fold (\<lambda>c. reduce_chunk hadd G accum c (tids c)) cs m) x
    = (if x \<in> slice_elems G then reduced_value hadd G accum m x else c_final m x)"
proof -
  let ?f = "fold (\<lambda>c. reduce_chunk hadd G accum c (tids c))"
  have "c_final (?f cs m) x = (if \<exists>c\<in>set cs. x \<in> chunk_elems G c then reduced_value hadd G accum m x else c_final m x)
    \<and> c_local (?f cs m) = c_local m \<and> c_recv (?f cs m) = c_recv m \<and> c_accum (?f cs m) = c_accum m" for cs
  proof (induction cs rule: rev_induct)
    case Nil
    then show ?case by simp
  next
    case (snoc c cs)
    then have same: "c_local (?f cs m) = c_local m" "c_recv (?f cs m) = c_recv m" "c_accum (?f cs m) = c_accum m" by blast+
    have "reduced_value hadd G accum (?f cs m) = reduced_value hadd G accum m" unfolding reduced_value_def same ..
    then show ?case using snoc reduce_chunk_exact[OF tids, of hadd G accum c c "?f cs m"] by simp
  qed
  from this[of cs, THEN conjunct1, unfolded cs slice_chunks[OF G]] show ?thesis .
qed

lemma slice_reduced_witness:
  "c_final (fold (\<lambda>c. reduce_chunk (+) (trio 0) False c [0..383]) [1, 0]
     \<lparr>c_local = (\<lambda>i. i), c_recv = (\<lambda>_. 1), c_accum = (\<lambda>_. 0), c_final = (\<lambda>_. 0)\<rparr>) (1283, 7) = 1283 * 1024 + 7 + 1 + (1 :: int)"
proof -
  have rows: "slice_rows (lay (trio 0)) = 256" "g_N (trio 0) = 1024"
    by (simp_all add: trio_def gemm_ar_make_globals_def layout_slice_rows tile_simps)
  have "set [1, 0] = {0..<total_chunks (lay (trio 0))}" unfolding trio_lay(5) by auto
  moreover have "set [0..383] = {0..<NUM_THREADS}" by (auto simp: NUM_THREADS_def)
  ultimately have "c_final (fold (\<lambda>c. reduce_chunk (+) (trio 0) False c [0..383]) [1, 0]
     \<lparr>c_local = (\<lambda>i. i), c_recv = (\<lambda>_. 1), c_accum = (\<lambda>_. 0), c_final = (\<lambda>_. 0)\<rparr>) (1283, 7)
    = (if (1283, 7) \<in> slice_elems (trio 0) then reduced_value (+) (trio 0) False
        \<lparr>c_local = (\<lambda>i. i), c_recv = (\<lambda>_. 1), c_accum = (\<lambda>_. 0), c_final = (\<lambda>_. 0)\<rparr> (1283, 7) else (0 :: int))"
    using slice_reduced[OF trio_ok[of 0], of "[1, 0]" "\<lambda>_. [0..383]" "(+)" False
      "\<lparr>c_local = (\<lambda>i. i), c_recv = (\<lambda>_. 1), c_accum = (\<lambda>_. 0), c_final = (\<lambda>_. 0)\<rparr>" "(1283, 7)"] by (simp del: fold_simps)
  also have "\<dots> = 1283 * 1024 + 7 + 1 + 1"
    by (simp add: slice_elems_def trio_fields(2,4) trio_lay(1,2) rows reduced_value_def tile_simps upto.simps)
  finally show ?thesis .
qed


section \<open>Early accumulation\<close>

text \<open>
  With early accumulation (gemm_ar.cu:1066-1122) a block adds the part of a peer to a buffer as soon
  as it has arrived. A round is what the leading thread reads, the mask of arrived peers and
  whether the local sum is done; the actions are the peers accumulated, and whether each is the first.
\<close>

definition early_round :: "fused_globals \<Rightarrow> u32 \<Rightarrow> bool \<Rightarrow> u32 \<times> (int \<times> bool) list \<Rightarrow> bool \<times> u32 \<times> (int \<times> bool) list" where
  "early_round G arrived_mask ld = (\<lambda>(processed, acts). let
     full_peer_mask = (if num_nodes G \<ge> 32 then - 1 else push_bit (nat (num_nodes G - 1)) 1 - 1);
     new_mask = arrived_mask AND NOT processed;
     rdy = (ld \<and> (processed OR new_mask) AND full_peer_mask = full_peer_mask)
   in (rdy, if new_mask \<noteq> 0
       then fold (\<lambda>ps (pm, a). let peer_bit = push_bit (nat ps) 1
           in if new_mask AND peer_bit = 0 then (pm, a) else (pm OR peer_bit, a @ [(ps, pm = 0)]))
         [0..num_nodes G - 1 - 1] (processed, acts)
       else (processed, acts)))"

fun early_rounds :: "fused_globals \<Rightarrow> (u32 \<times> bool) list \<Rightarrow> u32 \<times> (int \<times> bool) list \<Rightarrow> (int \<times> bool) list option" where
  "early_rounds G [] st = None"
| "early_rounds G ((arrived, ld) # obs) st = (case early_round G arrived ld st of (rdy, st') \<Rightarrow>
     if rdy then Some (snd st') else early_rounds G obs st')"

definition accumulate_vec ::
    "('v \<Rightarrow> 'v \<Rightarrow> 'v) \<Rightarrow> fused_globals \<Rightarrow> chunk_pos \<Rightarrow> int \<Rightarrow> bool \<Rightarrow> int \<times> int \<times> int \<Rightarrow> 'v reduce_mem \<Rightarrow> 'v reduce_mem" where
  "accumulate_vec hadd G p ps first = (\<lambda>(lc, r, e).
     gemm_ar_accumulate_remote_peer_vec8 hadd G ps first (rb_in_slice p * cbs G + (col_start p + lc)) r e)"

definition accumulate_peer ::
    "('v \<Rightarrow> 'v \<Rightarrow> 'v) \<Rightarrow> fused_globals \<Rightarrow> chunk_pos \<Rightarrow> int list \<Rightarrow> int \<times> bool \<Rightarrow> 'v reduce_mem \<Rightarrow> 'v reduce_mem" where
  "accumulate_peer hadd G p tids = (\<lambda>(ps, first) m.
     fold (\<lambda>tid. fold (accumulate_vec hadd G p ps first) (thread_jobs p tid)) tids m)"

subsection \<open>Which peers are accumulated\<close>

text \<open>The first action starts the buffer, the others add to it; every peer of the mask has one.\<close>

definition early_inv :: "int \<Rightarrow> u32 \<times> (int \<times> bool) list \<Rightarrow> bool" where
  "early_inv N = (\<lambda>(pm, acts). distinct (map fst acts) \<and> set (map fst acts) = {p. 0 \<le> p \<and> p < N \<and> bit pm (nat p)}
     \<and> (\<forall>i. bit pm i \<longrightarrow> int i < N) \<and> map snd acts = map (\<lambda>i. i = 0) [0..<length acts])"

lemma early_peer:
  assumes inv: "early_inv N (pm, acts)" and ps: "0 \<le> ps" "ps < N" "N \<le> 16" and new: "\<not> bit pm (nat ps)"
  shows "early_inv N (pm OR push_bit (nat ps) 1, acts @ [(ps, pm = 0)])"
proof -
  have I: "distinct (map fst acts)" "set (map fst acts) = {p. 0 \<le> p \<and> p < N \<and> bit pm (nat p)}"
    "\<And>i. bit pm i \<Longrightarrow> int i < N" "map snd acts = map (\<lambda>i. i = 0) [0..<length acts]"
    using inv unfolding early_inv_def by auto
  have b: "bit (pm OR push_bit (nat ps) 1) i \<longleftrightarrow> bit pm i \<or> i = nat ps" for i
    using ps by (auto simp: bit_or_iff bit_exp_iff)
  have "ps \<notin> set (map fst acts)" unfolding I(2) using new by simp
  moreover have "set (map fst (acts @ [(ps, pm = 0)])) = {p. 0 \<le> p \<and> p < N \<and> bit (pm OR push_bit (nat ps) 1) (nat p)}"
  proof -
    have "set (map fst (acts @ [(ps, pm = 0)])) = insert ps (set (map fst acts))" by simp
    also have "\<dots> = {p. 0 \<le> p \<and> p < N \<and> bit (pm OR push_bit (nat ps) 1) (nat p)}" unfolding I(2) b using ps by auto
    finally show ?thesis .
  qed
  moreover have "pm = 0 \<longleftrightarrow> acts = []"
  proof
    assume "pm = 0"
    then show "acts = []" using I(2) by simp
  next
    assume "acts = []"
    then have none: "{p. 0 \<le> p \<and> p < N \<and> bit pm (nat p)} = {}" using I(2) by simp
    have "\<not> bit pm i" for i
    proof
      assume "bit pm i"
      then have "int i \<in> {p. 0 \<le> p \<and> p < N \<and> bit pm (nat p)}" using I(3) by simp
      then show False using none by simp
    qed
    then show "pm = 0" by (simp add: bit_eq_iff)
  qed
  ultimately show ?thesis unfolding early_inv_def prod.case using I(1,3,4) b ps by auto
qed

lemma early_round_inv:
  assumes inv: "early_inv N (pm, acts)" and N: "N = num_nodes G - 1" "0 \<le> N" "N \<le> 16"
    and r: "early_round G arrived ld (pm, acts) = (rdy, pm', acts')"
  shows "early_inv N (pm', acts')" "rdy \<Longrightarrow> (\<forall>p. 0 \<le> p \<longrightarrow> p < N \<longrightarrow> bit pm' (nat p))"
proof -
  let ?new = "arrived AND NOT pm"
  define f where "f = (\<lambda>ps (q, a). let peer_bit = push_bit (nat ps) 1 in if ?new AND peer_bit = 0 then (q, a) else (q OR peer_bit, a @ [(ps, q = 0)]))"
  have bt: "?new AND push_bit (nat ps) 1 = 0 \<longleftrightarrow> \<not> bit ?new (nat ps)" if "0 \<le> ps" "ps < N" for ps
    by (simp add: and_exp_eq_0_iff_not_bit)
  have f_at: "f ps (q, a) = (if ?new AND push_bit (nat ps) 1 = 0 then (q, a) else (q OR push_bit (nat ps) 1, a @ [(ps, q = 0)]))" for ps q a
    by (simp add: f_def Let_def)
  have walk: "early_inv N (fold f xs (pm, acts))
      \<and> (\<forall>i. bit (fst (fold f xs (pm, acts))) i \<longleftrightarrow> bit pm i \<or> (bit ?new i \<and> int i \<in> set xs))"
    if "distinct xs" "set xs \<subseteq> {0..<N}" for xs
    using that
  proof (induction xs rule: rev_induct)
    case Nil
    then show ?case using inv by simp
  next
    case (snoc ps xs)
    obtain q a where qa: "fold f xs (pm, acts) = (q, a)" by fastforce
    have ps: "0 \<le> ps" "ps < N" "ps \<notin> set xs" using snoc.prems by auto
    have IH: "early_inv N (q, a)" "\<And>i. bit q i \<longleftrightarrow> bit pm i \<or> (bit ?new i \<and> int i \<in> set xs)" using snoc qa by auto
    show ?case
    proof (cases "bit ?new (nat ps)")
      case True
      then have st: "fold f (xs @ [ps]) (pm, acts) = (q OR push_bit (nat ps) 1, a @ [(ps, q = 0)])"
        using f_at[of ps q a] bt[OF ps(1,2)] by (simp add: qa)
      have "\<not> bit pm (nat ps)" using True by (simp add: bit_and_iff bit_not_iff)
      then have "\<not> bit q (nat ps)" using IH(2) ps by simp
      then have "early_inv N (q OR push_bit (nat ps) 1, a @ [(ps, q = 0)])" using early_peer[OF IH(1) ps(1,2) N(3)] by blast
      moreover have "bit (q OR push_bit (nat ps) 1) i \<longleftrightarrow> bit pm i \<or> (bit ?new i \<and> int i \<in> set (xs @ [ps]))" for i
      proof -
        have "bit (q OR push_bit (nat ps) 1) i \<longleftrightarrow> bit q i \<or> i = nat ps" using ps N by (auto simp: bit_or_iff bit_exp_iff)
        moreover have "i = nat ps \<longleftrightarrow> int i = ps" using ps by auto
        ultimately show ?thesis unfolding IH(2) using True by auto
      qed
      ultimately show ?thesis unfolding st by simp
    next
      case False
      then have st: "fold f (xs @ [ps]) (pm, acts) = (q, a)" using f_at[of ps q a] bt[OF ps(1,2)] by (simp add: qa)
      have "int i = ps \<Longrightarrow> \<not> bit ?new i" for i using False ps by auto
      then show ?thesis unfolding st using IH by auto
    qed
  qed
  have full: "set [0..N - 1] = {0..<N}" by auto
  have w: "early_inv N (fold f [0..N - 1] (pm, acts))"
    "bit (fst (fold f [0..N - 1] (pm, acts))) i \<longleftrightarrow> bit pm i \<or> (bit ?new i \<and> int i < N)" for i
    using walk[of "[0..N - 1]", unfolded full, OF distinct_upto order.refl] by simp_all
  have res: "(pm', acts') = (if ?new \<noteq> 0 then fold f [0..N - 1] (pm, acts) else (pm, acts))"
    and rd: "rdy \<longleftrightarrow> ld \<and> (pm OR ?new) AND (push_bit (nat N) 1 - 1) = push_bit (nat N) 1 - 1"
    using r N unfolding early_round_def Let_def N(1) f_def by simp_all
  have bits: "bit pm' i \<longleftrightarrow> bit pm i \<or> (bit ?new i \<and> int i < N)" for i
  proof (cases "?new = 0")
    case True
    then have "pm' = pm" using res by simp
    then show ?thesis unfolding True by simp
  next
    case False
    then have "pm' = fst (fold f [0..N - 1] (pm, acts))" using res by (metis fst_conv)
    then show ?thesis using w(2) by simp
  qed
  show "early_inv N (pm', acts')" unfolding res using w(1) inv by simp
  show "\<forall>p. 0 \<le> p \<longrightarrow> p < N \<longrightarrow> bit pm' (nat p)" if rdy
  proof (intro allI impI)
    fix p :: int assume p: "0 \<le> p" "p < N"
    have m: "push_bit (nat N) 1 - 1 = (mask (nat N) :: u32)" by (simp add: mask_eq_decr_exp)
    have "bit ((pm OR ?new) AND mask (nat N)) (nat p) \<longleftrightarrow> bit (mask (nat N) :: u32) (nat p)"
      using that rd unfolding m by simp
    then have "bit pm (nat p) \<or> bit ?new (nat p)"
      using p N by (auto simp: bit_and_iff bit_or_iff bit_mask_iff)
    then show "bit pm' (nat p)" using bits p by simp
  qed
qed

lemma early_rounds_order:
  assumes "early_rounds G obs (0, []) = Some acts" "1 \<le> num_nodes G" "num_nodes G \<le> 17"
  shows "distinct (map fst acts) \<and> set (map fst acts) = {0..<num_nodes G - 1} \<and> map snd acts = map (\<lambda>i. i = 0) [0..<length acts]"
proof -
  let ?N = "num_nodes G - 1"
  have "distinct (map fst acts) \<and> set (map fst acts) = {0..<?N} \<and> map snd acts = map (\<lambda>i. i = 0) [0..<length acts]"
    if "early_rounds G obs st = Some acts" "early_inv ?N st" for st
    using that
  proof (induction obs arbitrary: st)
    case Nil
    then show ?case by simp
  next
    case (Cons ob obs)
    obtain arrived ld pm a where x: "ob = (arrived, ld)" "st = (pm, a)" by (cases ob; cases st) auto
    obtain rdy pm' a' where r: "early_round G arrived ld (pm, a) = (rdy, pm', a')" by (metis prod_cases3)
    note inv = early_round_inv[OF Cons.prems(2)[unfolded x(2)] refl _ _ r]
    show ?case
    proof (cases rdy)
      case True
      then have "acts = a'" using Cons.prems(1) by (simp add: x r)
      then show ?thesis using inv True assms(2,3) unfolding early_inv_def by auto
    next
      case False
      then show ?thesis using Cons.IH[of "(pm', a')"] Cons.prems(1) inv(1) assms(2,3) by (simp add: x r)
    qed
  qed
  moreover have "early_inv ?N (0, [])" by (simp add: early_inv_def)
  ultimately show ?thesis using assms(1) by blast
qed


subsection \<open>The buffer\<close>

definition acc_base :: "fused_globals \<Rightarrow> chunk_pos \<Rightarrow> int \<times> int \<times> int \<Rightarrow> int" where
  "acc_base G p = (\<lambda>(lc, r, e). accum_index (rb_in_slice p * cbs G + (col_start p + lc)) r e)"

abbreviation acc_cells :: "fused_globals \<Rightarrow> chunk_pos \<Rightarrow> int \<times> int \<times> int \<Rightarrow> int set" where
  "acc_cells G p job \<equiv> {acc_base G p job..<acc_base G p job + 8}"

lemma acc_cell_job:
  assumes "job_ok p (lc, r, e)" "k \<in> acc_cells G p (lc, r, e)"
  shows "lc = k div 32768 - (rb_in_slice p * cbs G + col_start p)" "r = k mod 32768 div 256" "e = k mod 256 div 8 * 8"
proof -
  define t where "t = rb_in_slice p * cbs G + (col_start p + lc)"
  have ok: "0 \<le> r" "r < 128" "0 \<le> e" "e + 8 \<le> 256" "e mod 8 = 0"
    using assms(1) by (simp_all add: job_ok_def tile_simps)
  define j where "j = k - (t * 32768 + r * 256 + e)"
  have j: "0 \<le> j" "j < 8" using assms(2) by (auto simp: acc_base_def accum_index_def t_def j_def tile_simps)
  have k: "k = t * 32768 + (r * 256 + (e + j))" by (simp add: j_def)
  have ej: "0 \<le> e + j" "e + j < 256" using ok j by simp_all
  have lo: "0 \<le> r * 256 + (e + j)" "r * 256 + (e + j) < 32768" using ok ej by simp_all
  have "k div 32768 = t" "k mod 32768 = r * 256 + (e + j)" unfolding k using lo by simp_all
  moreover have "k mod 256 = e + j"
  proof -
    have "k = (t * 128 + r) * 256 + (e + j)" unfolding k by simp
    then show ?thesis using ej by (simp only: radix_mod)
  qed
  moreover have "(r * 256 + (e + j)) div 256 = r" using ej by simp
  moreover have "(e + j) div 8 * 8 = e"
  proof -
    obtain q where "e = q * 8" using ok(5) by (metis mod_0_imp_dvd dvd_def mult.commute)
    then show ?thesis using j by simp
  qed
  ultimately show "lc = k div 32768 - (rb_in_slice p * cbs G + col_start p)" "r = k mod 32768 div 256" "e = k mod 256 div 8 * 8"
    by (simp_all add: t_def)
qed

lemma acc_cells_disjoint:
  assumes "job_ok p job" "job_ok p job'" "k \<in> acc_cells G p job" "k \<in> acc_cells G p job'"
  shows "job = job'"
proof -
  obtain lc r e lc' r' e' where j: "job = (lc, r, e)" "job' = (lc', r', e')" by (metis prod_cases3)
  show ?thesis unfolding j
    using acc_cell_job[OF assms(1,3)[unfolded j]] acc_cell_job[OF assms(2,4)[unfolded j]] by simp
qed

definition peer_part :: "fused_globals \<Rightarrow> 'v reduce_mem \<Rightarrow> int \<Rightarrow> int \<Rightarrow> 'v" where
  "peer_part G m k ps = c_recv m (ps * slice_tiles (lay G) * TILE_ELEMS + k)"

lemma accumulate_vec_at:
  "c_accum (accumulate_vec hadd G p ps first job m) k = (if k \<in> acc_cells G p job
     then if first then peer_part G m k ps else hadd (c_accum m k) (peer_part G m k ps) else c_accum m k)"
  "c_local (accumulate_vec hadd G p ps first job m) = c_local m" "c_recv (accumulate_vec hadd G p ps first job m) = c_recv m"
  "c_final (accumulate_vec hadd G p ps first job m) = c_final m"
proof -
  obtain lc r e where j: "job = (lc, r, e)" by (metis prod_cases3)
  let ?t = "rb_in_slice p * cbs G + (col_start p + lc)"
  have "recv_index G ps ?t r (e + (k - accum_index ?t r e)) = ps * slice_tiles (lay G) * TILE_ELEMS + k"
    "accum_index ?t r (e + (k - accum_index ?t r e)) = k"
    by (simp_all add: recv_index_def accum_index_def algebra_simps)
  then show "c_accum (accumulate_vec hadd G p ps first job m) k = (if k \<in> acc_cells G p job
     then if first then peer_part G m k ps else hadd (c_accum m k) (peer_part G m k ps) else c_accum m k)"
    by (simp add: j accumulate_vec_def gemm_ar_accumulate_remote_peer_vec8_def Let_def store8_def acc_base_def
        peer_part_def ELEMS_PER_VEC_def)
qed (simp_all add: accumulate_vec_def gemm_ar_accumulate_remote_peer_vec8_def Let_def split: prod.split)

lemma accumulate_fold:
  assumes "distinct jobs" "\<forall>job\<in>set jobs. job_ok p job"
  shows "(c_accum (fold (accumulate_vec hadd G p ps first) jobs m) k = (if \<exists>job\<in>set jobs. k \<in> acc_cells G p job
      then if first then peer_part G m k ps else hadd (c_accum m k) (peer_part G m k ps) else c_accum m k))
    \<and> c_local (fold (accumulate_vec hadd G p ps first) jobs m) = c_local m
    \<and> c_recv (fold (accumulate_vec hadd G p ps first) jobs m) = c_recv m
    \<and> c_final (fold (accumulate_vec hadd G p ps first) jobs m) = c_final m"
  using assms
proof (induction jobs rule: rev_induct)
  case Nil
  then show ?case by simp
next
  case (snoc job jobs)
  let ?m = "fold (accumulate_vec hadd G p ps first) jobs m"
  have IH: "c_accum ?m k = (if \<exists>job\<in>set jobs. k \<in> acc_cells G p job
      then if first then peer_part G m k ps else hadd (c_accum m k) (peer_part G m k ps) else c_accum m k)"
    "c_local ?m = c_local m" "c_recv ?m = c_recv m" "c_final ?m = c_final m" using snoc by simp_all
  have pp: "peer_part G ?m k ps = peer_part G m k ps" by (simp add: peer_part_def IH(3))
  have once: "k \<in> acc_cells G p job \<Longrightarrow> \<not> (\<exists>job\<in>set jobs. k \<in> acc_cells G p job)"
    using acc_cells_disjoint[of p job _ k G] snoc.prems by auto
  note one = accumulate_vec_at[of hadd G p ps first job ?m]
  have st: "fold (accumulate_vec hadd G p ps first) (jobs @ [job]) m = accumulate_vec hadd G p ps first job ?m" by simp
  have "c_accum (accumulate_vec hadd G p ps first job ?m) k = (if \<exists>job\<in>set (jobs @ [job]). k \<in> acc_cells G p job
      then if first then peer_part G m k ps else hadd (c_accum m k) (peer_part G m k ps) else c_accum m k)"
  proof (cases "k \<in> acc_cells G p job")
    case True
    then have "c_accum ?m k = c_accum m k" using once IH(1) by (simp only: if_False simp_thms)
    then show ?thesis unfolding one(1) pp using True by auto
  next
    case False
    then have "(\<exists>job\<in>set (jobs @ [job]). k \<in> acc_cells G p job) \<longleftrightarrow> (\<exists>job\<in>set jobs. k \<in> acc_cells G p job)" by auto
    then show ?thesis unfolding one(1) using False IH(1) by (simp only: if_False simp_thms)
  qed
  then show ?case unfolding st using one(2-4) IH(2-4) by simp
qed

text \<open>Every element of a chunk is in one job of one thread.\<close>

lemma jobs_distinct:
  assumes "distinct tids" "set tids \<subseteq> {0..<NUM_THREADS}"
  shows "distinct (concat (map (thread_jobs p) tids))"
  using assms
proof (induction tids)
  case Nil
  then show ?case by simp
next
  case (Cons tid tids)
  have t: "tid \<in> {0..<NUM_THREADS}" using Cons.prems by simp
  have "distinct (thread_vecs tid)"
    by (auto simp: thread_vecs_def distinct_map distinct_strided ROWS_PER_WAVE_def NUM_THREADS_def VECS_PER_ROW_def
        COL_BLOCK_def ELEMS_PER_VEC_def intro!: inj_onI)
  then have own: "distinct (thread_jobs p tid)"
  proof -
    assume d: "distinct (thread_vecs tid)"
    have "distinct (concat (map (\<lambda>lc. map (Pair lc) (thread_vecs tid)) lcs))" if "distinct lcs" for lcs :: "int list"
      using that d by (induction lcs) (auto simp: distinct_map inj_on_def)
    then show ?thesis unfolding thread_jobs_def by simp
  qed
  have "set (thread_jobs p tid) \<inter> set (concat (map (thread_jobs p) tids)) = {}"
  proof (rule ccontr)
    assume "set (thread_jobs p tid) \<inter> set (concat (map (thread_jobs p) tids)) \<noteq> {}"
    then obtain job tid' where j: "job \<in> set (thread_jobs p tid)" "tid' \<in> set tids" "job \<in> set (thread_jobs p tid')" by auto
    obtain lc r e where x: "job = (lc, r, e)" by (metis prod_cases3)
    have t': "tid' \<in> {0..<NUM_THREADS}" using Cons.prems j(2) by auto
    have "tid div 32 = tid' div 32" "tid mod 32 * 8 = tid' mod 32 * 8"
      using j in_thread_jobs[OF t] in_thread_jobs[OF t'] unfolding x by metis+
    then have "tid = tid'" by (metis div_mult_mod_eq mult_cancel_right zero_neq_numeral)
    then show False using Cons.prems j(2) by simp
  qed
  then show ?case using Cons own by simp
qed

lemma acc_cells_chunk:
  assumes x: "(row, col) \<in> chunk_elems G c" and lr: "lr = row - dev_idx G * slice_rows (lay G)"
  shows "\<exists>job. job_ok (decode G c) job \<and>
    accum_index (lr div ROW_BLOCK * cbs G + col div COL_BLOCK) (lr mod ROW_BLOCK) (col mod COL_BLOCK) \<in> acc_cells G (decode G c) job"
proof -
  let ?p = "decode G c"
  have d: "lr div ROW_BLOCK = rb_in_slice ?p" "col_start ?p \<le> col div COL_BLOCK" "col div COL_BLOCK < col_start ?p + tiles_this_chunk ?p"
    using x unfolding chunk_elems_def chunk_tile_set_def lr by auto
  have e: "0 \<le> col mod 256 div 8 * 8" "col mod 256 div 8 * 8 \<le> col mod 256" "col mod 256 < col mod 256 div 8 * 8 + 8"
    "col mod 256 div 8 * 8 + 8 \<le> 256"
    using pos_mod_bound[of 256 col] pos_mod_sign[of 256 col] by auto
  show ?thesis
    by (rule exI[of _ "(col div COL_BLOCK - col_start ?p, lr mod ROW_BLOCK, col mod 256 div 8 * 8)"])
       (use d e in \<open>auto simp: job_ok_def acc_base_def accum_index_def ELEMS_PER_VEC_def COL_BLOCK_def ROW_BLOCK_def\<close>)
qed

lemma accumulate_peer_at:
  assumes t: "distinct tids" "set tids = {0..<NUM_THREADS}" and k: "job_ok p job" "k \<in> acc_cells G p job"
  shows "c_accum (accumulate_peer hadd G p tids (ps, first) m) k
      = (if first then peer_part G m k ps else hadd (c_accum m k) (peer_part G m k ps))"
    and "c_local (accumulate_peer hadd G p tids (ps, first) m) = c_local m"
    and "c_recv (accumulate_peer hadd G p tids (ps, first) m) = c_recv m"
    and "c_final (accumulate_peer hadd G p tids (ps, first) m) = c_final m"
proof -
  let ?jobs = "concat (map (thread_jobs p) tids)"
  have "accumulate_peer hadd G p tids (ps, first) m = fold (accumulate_vec hadd G p ps first) ?jobs m"
    unfolding accumulate_peer_def prod.case by (induction tids arbitrary: m) simp_all
  moreover have js: "set ?jobs = {job. job_ok p job}" by (rule chunk_jobs[OF t(2)])
  moreover have "distinct ?jobs" using jobs_distinct[OF t(1)] t(2) by simp
  moreover have "(\<exists>job\<in>set ?jobs. k \<in> acc_cells G p job) = True" "\<forall>job\<in>set ?jobs. job_ok p job"
    unfolding js using k by blast+
  moreover note accumulate_fold[of ?jobs p hadd G ps first m k]
  ultimately show "c_accum (accumulate_peer hadd G p tids (ps, first) m) k
      = (if first then peer_part G m k ps else hadd (c_accum m k) (peer_part G m k ps))"
    "c_local (accumulate_peer hadd G p tids (ps, first) m) = c_local m"
    "c_recv (accumulate_peer hadd G p tids (ps, first) m) = c_recv m"
    "c_final (accumulate_peer hadd G p tids (ps, first) m) = c_final m"
    by (simp_all only: simp_thms if_True)
qed


lemma accumulate_acts:
  assumes t: "distinct tids" "set tids = {0..<NUM_THREADS}" and k: "job_ok p job" "k \<in> acc_cells G p job"
    and first: "map snd acts = map (\<lambda>i. i = 0) [0..<length acts]"
  shows "(acts \<noteq> [] \<longrightarrow> c_accum (fold (accumulate_peer hadd G p tids) acts m) k
      = fold (\<lambda>ps a. hadd a (peer_part G m k ps)) (tl (map fst acts)) (peer_part G m k (hd (map fst acts))))
    \<and> c_local (fold (accumulate_peer hadd G p tids) acts m) = c_local m
    \<and> c_recv (fold (accumulate_peer hadd G p tids) acts m) = c_recv m
    \<and> c_final (fold (accumulate_peer hadd G p tids) acts m) = c_final m"
  using first
proof (induction acts rule: rev_induct)
  case Nil
  then show ?case by simp
next
  case (snoc act acts)
  obtain ps first where a: "act = (ps, first)" by fastforce
  have f: "map snd acts = map (\<lambda>i. i = 0) [0..<length acts]" "first \<longleftrightarrow> acts = []" using snoc.prems by (auto simp: a)
  let ?m = "fold (accumulate_peer hadd G p tids) acts m"
  note IH = snoc.IH[OF f(1)]
  note one = accumulate_peer_at[OF t k, of hadd ps first ?m]
  have st: "fold (accumulate_peer hadd G p tids) (acts @ [act]) m = accumulate_peer hadd G p tids (ps, first) ?m" by (simp add: a)
  have pp: "peer_part G ?m k q = peer_part G m k q" for q using IH by (simp add: peer_part_def)
  have "c_accum (accumulate_peer hadd G p tids (ps, first) ?m) k
      = fold (\<lambda>ps a. hadd a (peer_part G m k ps)) (tl (map fst (acts @ [act]))) (peer_part G m k (hd (map fst (acts @ [act]))))"
  proof (cases "acts = []")
    case True
    then show ?thesis using one(1) f(2) pp by (simp add: a)
  next
    case False
    then show ?thesis using one(1) f(2) pp IH by (simp add: a hd_append tl_append split: list.split)
  qed
  then show ?case unfolding st using one(2-4) IH by simp
qed

lemma fold_regroup:
  assumes "abel_semigroup hadd"
  shows "hadd own (fold (\<lambda>ps a. hadd a (v ps)) xs b) = fold (\<lambda>ps a. hadd a (v ps)) xs (hadd own b)"
proof (induction xs arbitrary: b)
  case (Cons x xs)
  then show ?case using abel_semigroup.axioms(1)[OF assms] by (simp add: semigroup.assoc)
qed simp

lemma fold_reorder:
  assumes "abel_semigroup hadd" "mset xs = mset ys"
  shows "fold (\<lambda>ps a. hadd a (v ps)) xs b = fold (\<lambda>ps a. hadd a (v ps)) ys b"
proof -
  note s = abel_semigroup.axioms(1)[OF assms(1), THEN semigroup.assoc]
  have "hadd (hadd a (v x)) (v y) = hadd (hadd a (v y)) (v x)" for a x y
    unfolding s by (simp only: abel_semigroup.commute[OF assms(1), of "v x"])
  then show ?thesis by (intro fold_multiset_equiv[OF _ assms(2), THEN fun_cong]) (simp add: fun_eq_iff)
qed

text \<open>The local element at a place of the slice, and that of a peer.\<close>

definition own_elem :: "fused_globals \<Rightarrow> 'v reduce_mem \<Rightarrow> int \<times> int \<Rightarrow> 'v" where
  "own_elem G m = (\<lambda>(row, col). c_local m (row * g_N G + col))"

definition peer_elem :: "fused_globals \<Rightarrow> 'v reduce_mem \<Rightarrow> int \<times> int \<Rightarrow> int \<Rightarrow> 'v" where
  "peer_elem G m = (\<lambda>(row, col) ps. let lr = row - dev_idx G * slice_rows (lay G)
     in c_recv m (recv_index G ps (lr div ROW_BLOCK * cbs G + col div COL_BLOCK) (lr mod ROW_BLOCK) (col mod COL_BLOCK)))"

lemma early_value:
  assumes n: "2 \<le> num_nodes G" "num_nodes G \<le> 17"
    and acts: "early_rounds G obs (0, []) = Some acts" and t: "distinct tids" "set tids = {0..<NUM_THREADS}" and x: "x \<in> chunk_elems G c"
  shows "reduced_value hadd G True (fold (accumulate_peer hadd G (decode G c) tids) acts m) x
    = hadd (own_elem G m x) (fold (\<lambda>ps a. hadd a (peer_elem G m x ps)) (tl (map fst acts)) (peer_elem G m x (hd (map fst acts))))"
proof -
  let ?m = "fold (accumulate_peer hadd G (decode G c) tids) acts m"
  obtain row col where rc: "x = (row, col)" by fastforce
  define lr where "lr = row - dev_idx G * slice_rows (lay G)"
  define tile where "tile = lr div ROW_BLOCK * cbs G + col div COL_BLOCK"
  define k where "k = accum_index tile (lr mod ROW_BLOCK) (col mod COL_BLOCK)"
  obtain job where job: "job_ok (decode G c) job" "k \<in> acc_cells G (decode G c) job"
    using acc_cells_chunk[OF x[unfolded rc] lr_def] unfolding k_def tile_def by blast
  have ord: "set (map fst acts) = {0..<num_nodes G - 1}" "map snd acts = map (\<lambda>i. i = 0) [0..<length acts]"
    using early_rounds_order[OF acts] n by auto
  note A = accumulate_acts[OF t job ord(2), of hadd m]
  have ne: "acts \<noteq> []" using ord(1) n by auto
  have pe: "peer_elem G m x ps = peer_part G m k ps" for ps
    unfolding peer_elem_def rc prod.case Let_def peer_part_def
    by (simp add: recv_index_def accum_index_def k_def tile_def lr_def algebra_simps)
  have "reduced_value hadd G True ?m x = hadd (own_elem G m x) (c_accum ?m k)"
    unfolding reduced_value_def rc prod.case Let_def own_elem_def k_def tile_def lr_def using A by simp
  then show ?thesis unfolding pe using A ne by simp
qed

lemma fold_first:
  assumes "xs \<noteq> []" "abel_semigroup hadd \<or> length xs = 1"
  shows "hadd own (fold (\<lambda>ps a. hadd a (v ps)) (tl xs) (v (hd xs))) = fold (\<lambda>ps a. hadd a (v ps)) xs own"
  using assms fold_regroup[of hadd own v "tl xs" "v (hd xs)"] by (cases xs) auto

text \<open>
  C24 (equivalence): whatever order the parts of the peers arrive in, early accumulation adds every
  peer once, in the order of arrival, and then the local value; that is what the reduction of all
  peers at once gives with one peer, and with more for an addition that is associative and
  commutative. The rounded addition of bf16 is not associative, so that the two may differ there.
\<close>

theorem early_accumulation_equiv:
  assumes n: "2 \<le> num_nodes G" "num_nodes G \<le> 17"
    and acts: "early_rounds G obs (0, []) = Some acts" and t: "distinct tids" "set tids = {0..<NUM_THREADS}" and x: "x \<in> chunk_elems G c"
    and early: "early = c_final (reduce_chunk hadd G True c tids (fold (accumulate_peer hadd G (decode G c) tids) acts m)) x"
  shows "distinct (map fst acts) \<and> set (map fst acts) = {0..<num_nodes G - 1}
    \<and> early = hadd (own_elem G m x) (fold (\<lambda>ps a. hadd a (peer_elem G m x ps)) (tl (map fst acts)) (peer_elem G m x (hd (map fst acts))))
    \<and> (num_nodes G = 2 \<or> abel_semigroup hadd \<longrightarrow> early = c_final (reduce_chunk hadd G False c tids m) x)"
proof -
  let ?N = "num_nodes G - 1" and ?f = "\<lambda>ps a. hadd a (peer_elem G m x ps)"
  have ord: "distinct (map fst acts)" "set (map fst acts) = {0..<?N}" using early_rounds_order[OF acts] n by auto
  have ne: "map fst acts \<noteq> []" using ord(2) n by auto
  have ms: "mset (map fst acts) = mset [0..?N - 1]"
  proof -
    have "set (map fst acts) = set [0..?N - 1]" unfolding ord(2) by auto
    then show ?thesis using ord(1) set_eq_iff_mset_eq_distinct[of "map fst acts" "[0..?N - 1]"] by simp
  qed
  have e: "early = hadd (own_elem G m x) (fold ?f (tl (map fst acts)) (peer_elem G m x (hd (map fst acts))))"
    unfolding early reduce_chunk_exact(4)[OF t(2)] using early_value[OF n acts t x] x by simp
  have plain: "c_final (reduce_chunk hadd G False c tids m) x = fold ?f [0..?N - 1] (own_elem G m x)"
    unfolding reduce_chunk_exact(4)[OF t(2)] using x
    by (simp add: reduced_value_def own_elem_def peer_elem_def Let_def split: prod.split)
  have "early = fold ?f [0..?N - 1] (own_elem G m x)" if h: "num_nodes G = 2 \<or> abel_semigroup hadd"
  proof -
    have len: "length (map fst acts) = nat ?N" using mset_eq_length[OF ms] by simp
    have "early = fold ?f (map fst acts) (own_elem G m x)" unfolding e by (rule fold_first[OF ne]) (use h len in auto)
    also have "\<dots> = fold ?f [0..?N - 1] (own_elem G m x)"
    proof (cases "num_nodes G = 2")
      case True
      then have r: "[0..?N - 1] = [0]" by (simp add: upto.simps)
      have "mset (map fst acts) = {#0#}" unfolding ms r by simp
      then have "map fst acts = [0..?N - 1]" unfolding r by (simp only: mset_single_iff)
      then show ?thesis by simp
    qed (use h fold_reorder[OF _ ms] in simp)
    finally show ?thesis .
  qed
  then show ?thesis using ord e plain by simp
qed

lemma early_accumulation_equiv_witness:
  "c_final (reduce_chunk (+) (trio 0) True 0 [0..383] (fold (accumulate_peer (+) (trio 0) (decode (trio 0) 0) [0..383]) [(1, True), (0, False)]
       \<lparr>c_local = (\<lambda>i. i), c_recv = (\<lambda>i. i), c_accum = (\<lambda>_. 9), c_final = (\<lambda>_. 0 :: int)\<rparr>)) (1283, 7)
   = c_final (reduce_chunk (+) (trio 0) False 0 [0..383]
       \<lparr>c_local = (\<lambda>i. i), c_recv = (\<lambda>i. i), c_accum = (\<lambda>_. 9), c_final = (\<lambda>_. 0 :: int)\<rparr>) (1283, 7)"
proof (rule early_accumulation_equiv[THEN conjunct2, THEN conjunct2, THEN conjunct2, THEN mp])
  show "early_rounds (trio 0) [(0, True), (2, True), (3, False), (3, True)] (0, []) = Some [(1, True), (0, False)]"
    by (simp add: early_round_def Let_def trio_fields(2) upto.simps)
  show "num_nodes (trio 0) = 2 \<or> abel_semigroup ((+) :: int \<Rightarrow> int \<Rightarrow> int)" by (rule disjI2) (unfold_locales, simp_all)
  show "set [0..383] = {0..<NUM_THREADS}" by (auto simp: NUM_THREADS_def)
  show "(1283, 7) \<in> chunk_elems (trio 0) 0"
  proof -
    have "slice_rows (lay (trio 0)) = 256"
      by (simp add: trio_def gemm_ar_make_globals_def layout_slice_rows tile_simps)
    then show ?thesis
      by (simp add: chunk_elems_def chunk_tile_set_def gemm_ar_chunk_decode_def Let_def trio_fields(4) trio_lay(1,2,4)
          gemm_ar_chunks_per_row_def gemm_ar_chunk_tiles_def ceil_div_def tile_simps)
  qed
qed (simp_all add: trio_fields(2))

end
