(* ===== verification/Gemm_AR_Claim.thy ===== *)
theory Gemm_AR_Claim
  imports MKernel_Prelude
begin

text \<open>
  How the reduce blocks share out the chunks when their number is not small
  (\<open>src/src/gemm_ar.cu:931-1035,1225-1320\<close>): a block looks through a window of chunks for one whose
  local and remote parts are there and claims it with a compare-and-swap. Every access to a
  shared word is a step of its own; the intra-node and the receive side appear as steps that raise
  the two flags of a chunk.
\<close>

section \<open>Blocks and steps\<close>

text \<open>
  Where the leading thread of a block is: before a scan, at position \<open>i\<close> of the scan from
  \<open>origin\<close>, after it has seen the remote flag, after it has seen the local flag, after a scan
  without success, reducing a chunk, or gone. The first component is the start of the next scan,
  which only the scan variant uses.
\<close>

datatype claim_pc = Before int | Look int int int | Seen_Remote int int int | Seen_Local int int int
  | Missed int | Reducing int int | Exited

record claim_state =
  local_flag :: "int \<Rightarrow> int"
  remote_flag :: "int \<Rightarrow> bool"
  published :: int
  reduce_cursor :: int
  block_pc :: "int \<Rightarrow> claim_pc"
  publications :: "int list"

record claim_cfg =
  stealing :: bool
  chunks :: int

definition scan_win :: "claim_cfg \<Rightarrow> int" where
  "scan_win K = (if chunks K < (if stealing K then 16 else 32) then chunks K else if stealing K then 16 else 32)"

definition claim_init :: "claim_cfg \<Rightarrow> claim_state" where
  "claim_init K = \<lparr>local_flag = (\<lambda>_. 0), remote_flag = (\<lambda>_. False), published = 0, reduce_cursor = 0,
     block_pc = (\<lambda>b. Before (c_mod b (max 1 (chunks K)))), publications = []\<rparr>"

abbreviation goto :: "int \<Rightarrow> claim_pc \<Rightarrow> claim_state \<Rightarrow> claim_state" where
  "goto b pc s \<equiv> s\<lparr>block_pc := (block_pc s)(b := pc)\<rparr>"

definition claim_step :: "claim_cfg \<Rightarrow> int \<Rightarrow> claim_state \<Rightarrow> claim_state" where
  "claim_step K b s = (case block_pc s b of
     Before start \<Rightarrow> if stealing K
       then (goto b (Look start (c_mod (reduce_cursor s mod 2 ^ 32) (chunks K)) 0) s)\<lparr>reduce_cursor := reduce_cursor s + 1\<rparr>
       else goto b (Look start start 0) s
   | Look start origin i \<Rightarrow>
       if i < scan_win K
       then if remote_flag s (c_mod (origin + i) (chunks K)) then goto b (Seen_Remote start origin i) s
            else goto b (Look start origin (i + 1)) s
       else goto b (Missed (if stealing K then start else c_mod (start + scan_win K) (chunks K))) s
   | Seen_Remote start origin i \<Rightarrow>
       if local_flag s (c_mod (origin + i) (chunks K)) = 1 then goto b (Seen_Local start origin i) s
       else goto b (Look start origin (i + 1)) s
   | Seen_Local start origin i \<Rightarrow> (let c = c_mod (origin + i) (chunks K) in
       if local_flag s c = 1
       then goto b (Reducing (if stealing K then start else c_mod (c + 1) (chunks K)) c) (s\<lparr>local_flag := (local_flag s)(c := 2)\<rparr>)
       else goto b (Look start origin (i + 1)) s)
   | Missed start \<Rightarrow> if published s \<ge> chunks K then goto b Exited s else goto b (Before start) s
   | Reducing start c \<Rightarrow> (goto b (Before start) s)\<lparr>published := published s + 1, publications := publications s @ [c]\<rparr>
   | Exited \<Rightarrow> s)"

inductive claim_reachable :: "claim_cfg \<Rightarrow> claim_state \<Rightarrow> bool" for K where
  claim_start: "claim_reachable K (claim_init K)"
| claim_block: "claim_reachable K s \<Longrightarrow> 0 \<le> b \<Longrightarrow> claim_reachable K (claim_step K b s)"
| claim_local: "claim_reachable K s \<Longrightarrow> local_flag s c = 0 \<Longrightarrow> claim_reachable K (s\<lparr>local_flag := (local_flag s)(c := 1)\<rparr>)"
| claim_remote: "claim_reachable K s \<Longrightarrow> claim_reachable K (s\<lparr>remote_flag := (remote_flag s)(c := True)\<rparr>)"

section \<open>Invariant\<close>

definition look_ok :: "claim_cfg \<Rightarrow> int \<Rightarrow> int \<Rightarrow> bool" where
  "look_ok K st org \<longleftrightarrow> 0 \<le> st \<and> st < chunks K \<and> 0 \<le> org \<and> org < chunks K \<and> (stealing K \<or> org = st)"

definition pc_ok :: "claim_cfg \<Rightarrow> claim_state \<Rightarrow> claim_pc \<Rightarrow> bool" where
  "pc_ok K s pc = (case pc of
     Before st \<Rightarrow> 0 \<le> st \<and> st < chunks K
   | Look st org i \<Rightarrow> look_ok K st org \<and> 0 \<le> i \<and> i \<le> scan_win K
   | Seen_Remote st org i \<Rightarrow> look_ok K st org \<and> 0 \<le> i \<and> i < scan_win K \<and> remote_flag s ((org + i) mod chunks K)
   | Seen_Local st org i \<Rightarrow> look_ok K st org \<and> 0 \<le> i \<and> i < scan_win K \<and> remote_flag s ((org + i) mod chunks K)
   | Missed st \<Rightarrow> 0 \<le> st \<and> st < chunks K
   | Reducing st c \<Rightarrow> 0 \<le> st \<and> st < chunks K \<and> 0 \<le> c \<and> c < chunks K \<and> remote_flag s c \<and> local_flag s c = 2 \<and> c \<notin> set (publications s)
   | Exited \<Rightarrow> chunks K \<le> published s)"

definition claim_inv :: "claim_cfg \<Rightarrow> claim_state \<Rightarrow> bool" where
  "claim_inv K s \<longleftrightarrow> 0 \<le> reduce_cursor s \<and> published s = int (length (publications s)) \<and> distinct (publications s)
     \<and> (\<forall>c\<in>set (publications s). 0 \<le> c \<and> c < chunks K \<and> remote_flag s c \<and> local_flag s c = 2)
     \<and> (\<forall>b\<ge>0. pc_ok K s (block_pc s b))
     \<and> (\<forall>b\<ge>0. \<forall>b'\<ge>0. \<forall>st st' c. block_pc s b = Reducing st c \<longrightarrow> block_pc s b' = Reducing st' c \<longrightarrow> b = b')"

lemma claim_invD:
  assumes "claim_inv K s"
  shows "0 \<le> reduce_cursor s" "published s = int (length (publications s))" "distinct (publications s)"
    "c \<in> set (publications s) \<Longrightarrow> 0 \<le> c \<and> c < chunks K \<and> remote_flag s c \<and> local_flag s c = 2"
    "0 \<le> b \<Longrightarrow> pc_ok K s (block_pc s b)"
    "0 \<le> b \<Longrightarrow> 0 \<le> b' \<Longrightarrow> block_pc s b = Reducing st c \<Longrightarrow> block_pc s b' = Reducing st' c \<Longrightarrow> b = b'"
  using assms unfolding claim_inv_def by blast+

lemma claim_invI:
  assumes "0 \<le> reduce_cursor s" "published s = int (length (publications s))" "distinct (publications s)"
    "\<And>c. c \<in> set (publications s) \<Longrightarrow> 0 \<le> c \<and> c < chunks K \<and> remote_flag s c \<and> local_flag s c = 2"
    "\<And>b. 0 \<le> b \<Longrightarrow> pc_ok K s (block_pc s b)"
    "\<And>b b' st st' c. 0 \<le> b \<Longrightarrow> 0 \<le> b' \<Longrightarrow> block_pc s b = Reducing st c \<Longrightarrow> block_pc s b' = Reducing st' c \<Longrightarrow> b = b'"
  shows "claim_inv K s"
  using assms unfolding claim_inv_def by blast

lemma claim_cursor_inv:
  assumes "claim_inv K s" "0 \<le> x"
  shows "claim_inv K (s\<lparr>reduce_cursor := x\<rparr>)"
proof -
  have same: "pc_ok K (s\<lparr>reduce_cursor := x\<rparr>) p = pc_ok K s p" for p by (simp add: pc_ok_def split: claim_pc.split)
  note I = claim_invD[OF assms(1)]
  show ?thesis
  proof (rule claim_invI)
    show "b = b'" if "0 \<le> b" "0 \<le> b'" "block_pc (s\<lparr>reduce_cursor := x\<rparr>) b = Reducing st c"
      "block_pc (s\<lparr>reduce_cursor := x\<rparr>) b' = Reducing st' c" for b b' st st' c
      using I(6) that by simp
  qed (use I(1-5) assms(2) in \<open>simp_all add: same\<close>)
qed

text \<open>A step that moves one block and claims nothing.\<close>

lemma claim_goto_inv:
  assumes inv: "claim_inv K s" and b: "0 \<le> b" and pc: "pc_ok K s pc" "\<And>st c. pc \<noteq> Reducing st c"
  shows "claim_inv K (goto b pc s)"
proof -
  note I = claim_invD[OF inv]
  have same: "pc_ok K (goto b pc s) p = pc_ok K s p" for p by (simp add: pc_ok_def split: claim_pc.split)
  show ?thesis unfolding claim_inv_def same using I pc b by auto
qed


lemma claim_step_inv:
  assumes inv: "claim_inv K s" and N: "0 < chunks K" and b: "0 \<le> b"
  shows "claim_inv K (claim_step K b s)"
proof -
  note I = claim_invD[OF inv] and P = claim_invD(5)[OF inv b] and go = claim_goto_inv[OF inv b]
  have w: "0 < scan_win K" using N by (simp add: scan_win_def)
  have r: "0 \<le> x mod chunks K" "x mod chunks K < chunks K" for x using N by simp_all
  show ?thesis
  proof (cases "block_pc s b")
    case (Before st)
    have P: "0 \<le> st" "st < chunks K" using P by (simp_all add: Before pc_ok_def)
    let ?o = "c_mod (reduce_cursor s mod 2 ^ 32) (chunks K)"
    have o: "0 \<le> ?o" "?o < chunks K" using r N by simp_all
    show ?thesis
    proof (cases "stealing K")
      case True
      have g: "claim_inv K (goto b (Look st ?o 0) s)" by (rule go) (use P o w True in \<open>simp_all add: pc_ok_def look_ok_def\<close>)
      have "claim_inv K ((goto b (Look st ?o 0) s)\<lparr>reduce_cursor := reduce_cursor s + 1\<rparr>)"
        using claim_cursor_inv[OF g] I(1) by simp
      then show ?thesis by (simp add: claim_step_def Before True)
    next
      case False
      have "claim_inv K (goto b (Look st st 0) s)" by (rule go) (use P w False in \<open>simp_all add: pc_ok_def look_ok_def\<close>)
      then show ?thesis by (simp add: claim_step_def Before False)
    qed
  next
    case (Look st org i)
    have P: "look_ok K st org" "0 \<le> i" "i \<le> scan_win K" "0 \<le> org" "0 \<le> st" "st < chunks K"
      using P by (simp_all add: Look pc_ok_def look_ok_def)
    have m: "c_mod (org + i) (chunks K) = (org + i) mod chunks K" "c_mod (st + scan_win K) (chunks K) = (st + scan_win K) mod chunks K"
      using P N w by simp_all
    have 1: "claim_inv K (goto b (Seen_Remote st org i) s)" if "i < scan_win K" "remote_flag s ((org + i) mod chunks K)"
      by (rule go) (use P that in \<open>simp_all add: pc_ok_def\<close>)
    have 2: "claim_inv K (goto b (Look st org (i + 1)) s)" if "i < scan_win K"
      by (rule go) (use P that in \<open>simp_all add: pc_ok_def\<close>)
    have 3: "claim_inv K (goto b (Missed (if stealing K then st else (st + scan_win K) mod chunks K)) s)"
      by (rule go) (use P r in \<open>simp_all add: pc_ok_def\<close>)
    show ?thesis unfolding claim_step_def Look claim_pc.case m using 1 2 3
      by (cases "i < scan_win K"; cases "remote_flag s ((org + i) mod chunks K)") (simp_all only: if_True if_False simp_thms)
  next
    case (Seen_Remote st org i)
    have P: "look_ok K st org" "0 \<le> i" "i < scan_win K" "0 \<le> org" "remote_flag s ((org + i) mod chunks K)"
      using P by (simp_all add: Seen_Remote pc_ok_def look_ok_def)
    have 1: "claim_inv K (goto b (Seen_Local st org i) s)" by (rule go) (use P in \<open>simp_all add: pc_ok_def\<close>)
    have 2: "claim_inv K (goto b (Look st org (i + 1)) s)" by (rule go) (use P in \<open>simp_all add: pc_ok_def\<close>)
    show ?thesis unfolding claim_step_def Seen_Remote claim_pc.case using 1 2
      by (cases "local_flag s (c_mod (org + i) (chunks K)) = 1") (simp_all only: if_True if_False simp_thms)
  next
    case (Seen_Local st org i)
    have P: "look_ok K st org" "0 \<le> i" "i < scan_win K" "0 \<le> org" "remote_flag s ((org + i) mod chunks K)" "0 \<le> st" "st < chunks K"
      using P by (simp_all add: Seen_Local pc_ok_def look_ok_def)
    define c where "c = (org + i) mod chunks K"
    have m: "c_mod (org + i) (chunks K) = c" using P N by (simp add: c_def)
    have c: "0 \<le> c" "c < chunks K" using r by (simp_all add: c_def)
    define st' where "st' = (if stealing K then st else c_mod (c + 1) (chunks K))"
    have st': "0 \<le> st'" "st' < chunks K" using P c N r by (simp_all add: st'_def)
    have 2: "claim_inv K (goto b (Look st org (i + 1)) s)" by (rule go) (use P in \<open>simp_all add: pc_ok_def\<close>)
    have 1: "claim_inv K (goto b (Reducing st' c) (s\<lparr>local_flag := (local_flag s)(c := 2)\<rparr>))" if free: "local_flag s c = 1"
    proof -
      let ?s = "goto b (Reducing st' c) (s\<lparr>local_flag := (local_flag s)(c := 2)\<rparr>)"
      have unp: "c \<notin> set (publications s)" using I(4)[of c] free by auto
      have none: "block_pc s b' \<noteq> Reducing st2 c" if "0 \<le> b'" for b' st2
        using I(5)[OF that] free by (auto simp: pc_ok_def)
      have pcs: "pc_ok K ?s (block_pc ?s b')" if b': "0 \<le> b'" for b'
      proof (cases "b' = b")
        case True
        then show ?thesis using st' c P(5) unp by (simp add: pc_ok_def c_def)
      next
        case False
        have "pc_ok K s (block_pc s b')" using I(5)[OF b'] .
        then have "pc_ok K ?s (block_pc s b')" by (auto simp: pc_ok_def split: claim_pc.splits)
        then show ?thesis using False by simp
      qed
      have "\<forall>c'\<in>set (publications s). 0 \<le> c' \<and> c' < chunks K \<and> remote_flag s c' \<and> ((local_flag s)(c := 2)) c' = 2"
        using I(4) by auto
      moreover have "b1 = b2" if "0 \<le> b1" "0 \<le> b2" "block_pc ?s b1 = Reducing s1 x" "block_pc ?s b2 = Reducing s2 x" for b1 b2 s1 s2 x
        using that none I(6)[of b1 b2 s1 x s2] by (auto split: if_splits)
      ultimately show ?thesis unfolding claim_inv_def using I(1-3) pcs by simp
    qed
    show ?thesis
    proof (cases "local_flag s c = 1")
      case True
      then have "claim_step K b s = goto b (Reducing st' c) (s\<lparr>local_flag := (local_flag s)(c := 2)\<rparr>)"
        unfolding claim_step_def Seen_Local claim_pc.case m Let_def st'_def by simp
      then show ?thesis using 1 True by simp
    next
      case False
      then have "claim_step K b s = goto b (Look st org (i + 1)) s"
        unfolding claim_step_def Seen_Local claim_pc.case m Let_def by simp
      then show ?thesis using 2 by simp
    qed
  next
    case (Missed st)
    have P: "0 \<le> st" "st < chunks K" using P by (simp_all add: Missed pc_ok_def)
    have 1: "claim_inv K (goto b Exited s)" if "published s \<ge> chunks K" by (rule go) (use that in \<open>simp_all add: pc_ok_def\<close>)
    have 2: "claim_inv K (goto b (Before st) s)" by (rule go) (use P in \<open>simp_all add: pc_ok_def\<close>)
    show ?thesis unfolding claim_step_def Missed claim_pc.case using 1 2
      by (cases "published s \<ge> chunks K") (simp_all only: if_True if_False simp_thms)
  next
    case (Reducing st c)
    have P: "0 \<le> st" "st < chunks K" "0 \<le> c" "c < chunks K" "remote_flag s c" "local_flag s c = 2" "c \<notin> set (publications s)"
      using P by (simp_all add: Reducing pc_ok_def)
    let ?s = "(goto b (Before st) s)\<lparr>published := published s + 1, publications := publications s @ [c]\<rparr>"
    have pcs: "pc_ok K ?s (block_pc ?s b')" if b': "0 \<le> b'" for b'
    proof (cases "b' = b")
      case True
      then show ?thesis using P by (simp add: pc_ok_def)
    next
      case False
      have "block_pc s b' \<noteq> Reducing st' c" for st' using I(6)[OF b' b, of st' c st] Reducing False by auto
      then have "pc_ok K ?s (block_pc s b')" using I(5)[OF b'] by (auto simp: pc_ok_def split: claim_pc.splits)
      then show ?thesis using False by simp
    qed
    have "b1 = b2" if "0 \<le> b1" "0 \<le> b2" "block_pc ?s b1 = Reducing s1 x" "block_pc ?s b2 = Reducing s2 x" for b1 b2 s1 s2 x
      using that I(6)[of b1 b2 s1 x s2] by (auto split: if_splits)
    then have "claim_inv K ?s" unfolding claim_inv_def using I(1-4) pcs P by auto
    then show ?thesis by (simp add: claim_step_def Reducing)
  next
    case Exited
    then show ?thesis using inv by (simp add: claim_step_def)
  qed
qed


lemma claim_step_flags:
  "local_flag (claim_step K b s) c = local_flag s c \<or> local_flag s c = 1 \<and> local_flag (claim_step K b s) c = 2"
  "remote_flag (claim_step K b s) = remote_flag s"
  by (auto simp: claim_step_def Let_def split: claim_pc.split)

lemma claim_init_inv:
  assumes "0 < chunks K"
  shows "claim_inv K (claim_init K)"
proof (rule claim_invI)
  have "max 1 (chunks K) = chunks K" using assms by simp
  then show "pc_ok K (claim_init K) (block_pc (claim_init K) b)" if "0 \<le> b" for b
    using that assms by (simp add: claim_init_def pc_ok_def)
qed (simp_all add: claim_init_def)

lemma claim_env_inv:
  assumes "claim_inv K s"
  shows "local_flag s c = 0 \<Longrightarrow> claim_inv K (s\<lparr>local_flag := (local_flag s)(c := 1)\<rparr>)"
    and "claim_inv K (s\<lparr>remote_flag := (remote_flag s)(c := True)\<rparr>)"
proof -
  note I = claim_invD[OF assms]
  show "claim_inv K (s\<lparr>local_flag := (local_flag s)(c := 1)\<rparr>)" if free: "local_flag s c = 0"
  proof (rule claim_invI)
    let ?s = "s\<lparr>local_flag := (local_flag s)(c := 1)\<rparr>"
    show "pc_ok K ?s (block_pc ?s b)" if "0 \<le> b" for b
      using I(5)[OF that] free by (auto simp: pc_ok_def split: claim_pc.splits)
    show "0 \<le> c' \<and> c' < chunks K \<and> remote_flag ?s c' \<and> local_flag ?s c' = 2" if "c' \<in> set (publications ?s)" for c'
      using I(4)[of c'] that free by auto
    show "b = b'" if "0 \<le> b" "0 \<le> b'" "block_pc ?s b = Reducing st x" "block_pc ?s b' = Reducing st' x" for b b' st st' x
      using I(6) that by simp
  qed (use I(1-3) in simp_all)
  show "claim_inv K (s\<lparr>remote_flag := (remote_flag s)(c := True)\<rparr>)"
  proof (rule claim_invI)
    let ?s = "s\<lparr>remote_flag := (remote_flag s)(c := True)\<rparr>"
    show "pc_ok K ?s (block_pc ?s b)" if "0 \<le> b" for b
      using I(5)[OF that] by (auto simp: pc_ok_def split: claim_pc.splits)
    show "0 \<le> c' \<and> c' < chunks K \<and> remote_flag ?s c' \<and> local_flag ?s c' = 2" if "c' \<in> set (publications ?s)" for c'
      using I(4)[of c'] that by auto
    show "b = b'" if "0 \<le> b" "0 \<le> b'" "block_pc ?s b = Reducing st x" "block_pc ?s b' = Reducing st' x" for b b' st st' x
      using I(6) that by simp
  qed (use I(1-3) in simp_all)
qed

lemma claim_reachable_inv:
  assumes "claim_reachable K s" "0 < chunks K"
  shows "claim_inv K s \<and> (\<forall>c. local_flag s c \<in> {0, 1, 2})"
  using assms(1)
proof induction
  case claim_start
  then show ?case using claim_init_inv[OF assms(2)] by (simp add: claim_init_def)
next
  case (claim_block s b)
  then have "local_flag (claim_step K b s) c \<in> {0, 1, 2}" for c using claim_step_flags(1)[of K b s c] by auto
  then show ?case using claim_step_inv claim_block assms(2) by blast
next
  case (claim_local s c)
  then show ?case using claim_env_inv(1) by simp
next
  case (claim_remote s c)
  then show ?case using claim_env_inv(2) by simp
qed

text \<open>
  C10 (safety): whatever the interleaving, a chunk is published once and only with both parts
  there, no two blocks reduce the same chunk, and a block leaves only when all chunks are published.
\<close>

theorem claims_exclusive:
  assumes "claim_reachable K s" "0 < chunks K"
  shows "distinct (publications s) \<and> (\<forall>c\<in>set (publications s). 0 \<le> c \<and> c < chunks K \<and> remote_flag s c \<and> local_flag s c = 2)
    \<and> published s = int (length (publications s))
    \<and> (\<forall>b\<ge>0. \<forall>b'\<ge>0. \<forall>st st' c. block_pc s b = Reducing st c \<longrightarrow> block_pc s b' = Reducing st' c \<longrightarrow> b = b')
    \<and> (\<forall>b\<ge>0. block_pc s b = Exited \<longrightarrow> set (publications s) = {0..<chunks K})"
proof -
  have inv: "claim_inv K s" using claim_reachable_inv[OF assms] by blast
  note I = claim_invD[OF inv]
  have "set (publications s) = {0..<chunks K}" if b: "0 \<le> b" "block_pc s b = Exited" for b
  proof -
    have "chunks K \<le> int (card (set (publications s)))"
      using I(5)[OF b(1)] b(2) I(2) distinct_card[OF I(3)] by (simp add: pc_ok_def)
    then show ?thesis using I(4) by (intro card_seteq) auto
  qed
  then show ?thesis using I(2,3,4,6) by blast
qed

section \<open>Every chunk is claimed\<close>

text \<open>
  The scan variant: how far a block is from looking at chunk \<open>c\<close>, in steps.
\<close>

definition next_look :: "claim_cfg \<Rightarrow> claim_pc \<Rightarrow> int" where
  "next_look K pc = (case pc of Before st \<Rightarrow> st | Look st org i \<Rightarrow> org + i | Seen_Remote st org i \<Rightarrow> org + i
     | Seen_Local st org i \<Rightarrow> org + i | Missed st \<Rightarrow> st | Reducing st c \<Rightarrow> st | Exited \<Rightarrow> 0)"

definition look_weight :: "claim_cfg \<Rightarrow> claim_pc \<Rightarrow> int" where
  "look_weight K pc = (case pc of Before st \<Rightarrow> 6 | Look st org i \<Rightarrow> (if i < scan_win K then 5 else 8) | Seen_Remote st org i \<Rightarrow> 4
     | Seen_Local st org i \<Rightarrow> 3 | Missed st \<Rightarrow> 7 | Reducing st c \<Rightarrow> 7 | Exited \<Rightarrow> 0)"

definition distance :: "claim_cfg \<Rightarrow> int \<Rightarrow> claim_pc \<Rightarrow> int" where
  "distance K c pc = 6 * ((c - next_look K pc) mod chunks K) + look_weight K pc"

definition unclaimed :: "claim_cfg \<Rightarrow> claim_state \<Rightarrow> int" where
  "unclaimed K s = int (card {c \<in> {0..<chunks K}. local_flag s c \<noteq> 2})"

lemma distance_bounds: "0 < chunks K \<Longrightarrow> 0 \<le> distance K c pc \<and> distance K c pc \<le> 6 * chunks K + 2"
proof -
  assume "0 < chunks K"
  then have "0 \<le> (c - next_look K pc) mod chunks K" "(c - next_look K pc) mod chunks K \<le> chunks K - 1" by simp_all
  moreover have "0 \<le> look_weight K pc" "look_weight K pc \<le> 8" by (simp_all add: look_weight_def split: claim_pc.split)
  ultimately show ?thesis unfolding distance_def by linarith
qed

lemma card_less_one: "finite A \<Longrightarrow> B = A - {x} \<Longrightarrow> x \<in> A \<Longrightarrow> int (card B) = int (card A) - 1"
  using card_gt_0_iff[of A] by (auto simp: card_Diff_singleton of_nat_diff Suc_leI)

lemma finite_filtered: "finite {c \<in> {0..<n :: int}. P c}"
  by (rule finite_subset[of _ "{0..<n}"]) auto

lemma mod_pred:
  assumes "0 < N" "(c - x) mod N \<noteq> (0::int)"
  shows "(c - (x + 1)) mod N = (c - x) mod N - 1"
proof -
  have "(c - (x + 1)) mod N = ((c - x) mod N - 1) mod N" by (simp add: mod_diff_left_eq algebra_simps)
  also have "\<dots> = (c - x) mod N - 1"
  proof (rule mod_pos_pos_trivial)
    have "0 \<le> (c - x) mod N" "(c - x) mod N < N" using assms(1) by simp_all
    then show "0 \<le> (c - x) mod N - 1" "(c - x) mod N - 1 < N" using assms(2) by linarith+
  qed
  finally show ?thesis .
qed

text \<open>A step of block \<open>b\<close> either claims a chunk or brings the block nearer to any unclaimed one.\<close>

lemma claim_step_nearer:
  assumes inv: "claim_inv K s" and N: "0 < chunks K" and b: "0 \<le> b" and v: "\<not> stealing K"
    and up: "\<And>c. 0 \<le> c \<Longrightarrow> c < chunks K \<Longrightarrow> remote_flag s c \<and> local_flag s c \<in> {1, 2}"
    and c: "0 \<le> c" "c < chunks K" "local_flag s c = 1" "local_flag (claim_step K b s) c = 1"
  shows "unclaimed K (claim_step K b s) = unclaimed K s \<and> distance K c (block_pc (claim_step K b s) b) < distance K c (block_pc s b)
    \<or> unclaimed K (claim_step K b s) = unclaimed K s - 1"
proof -
  note I = claim_invD[OF inv] and P = claim_invD(5)[OF inv b]
  have w: "0 < scan_win K" using N by (simp add: scan_win_def)
  have same: "unclaimed K (goto b pc s) = unclaimed K s" for pc by (simp add: unclaimed_def)
  have sw: "(c - x mod chunks K) mod chunks K = (c - x) mod chunks K" for x by (simp add: mod_diff_right_eq)
  show ?thesis
  proof (cases "block_pc s b")
    case (Before st)
    then have "claim_step K b s = goto b (Look st st 0) s" by (simp add: claim_step_def v)
    then show ?thesis using w by (simp add: same distance_def next_look_def look_weight_def Before)
  next
    case (Look st org i)
    have P: "org = st" "0 \<le> i" "i \<le> scan_win K" "0 \<le> st" using P v by (simp_all add: Look pc_ok_def look_ok_def)
    show ?thesis
    proof (cases "i < scan_win K")
      case True
      then have "claim_step K b s = goto b (Seen_Remote st org i) s"
        using up N P by (simp add: claim_step_def Look)
      then show ?thesis using True by (simp add: same distance_def next_look_def look_weight_def Look)
    next
      case False
      then have "claim_step K b s = goto b (Missed ((st + scan_win K) mod chunks K)) s"
        using P N w by (simp add: claim_step_def Look v)
      then show ?thesis using False P by (simp add: same distance_def next_look_def look_weight_def Look sw)
    qed
  next
    case (Seen_Remote st org i)
    have P: "org = st" "0 \<le> i" "i < scan_win K" "0 \<le> st" using P v by (simp_all add: Seen_Remote pc_ok_def look_ok_def)
    let ?x = "(st + i) mod chunks K"
    show ?thesis
    proof (cases "local_flag s ?x = 1")
      case True
      then have "claim_step K b s = goto b (Seen_Local st org i) s" using P N by (simp add: claim_step_def Seen_Remote)
      then show ?thesis by (simp add: same distance_def next_look_def look_weight_def Seen_Remote)
    next
      case False
      then have st: "claim_step K b s = goto b (Look st org (i + 1)) s" using P N by (simp add: claim_step_def Seen_Remote)
      have "(c - (st + i)) mod chunks K \<noteq> 0"
      proof
        assume "(c - (st + i)) mod chunks K = 0"
        then have "c mod chunks K = ?x" by (simp add: mod_eq_dvd_iff mod_eq_0_iff_dvd)
        then show False using False c by simp
      qed
      from mod_pred[OF N this] show ?thesis
        by (simp add: st same distance_def next_look_def look_weight_def Seen_Remote P(1) algebra_simps)
    qed
  next
    case (Seen_Local st org i)
    have P: "org = st" "0 \<le> i" "i < scan_win K" "0 \<le> st" using P v by (simp_all add: Seen_Local pc_ok_def look_ok_def)
    let ?x = "(st + i) mod chunks K"
    show ?thesis
    proof (cases "local_flag s ?x = 1")
      case True
      then have "claim_step K b s = goto b (Reducing ((?x + 1) mod chunks K) ?x) (s\<lparr>local_flag := (local_flag s)(?x := 2)\<rparr>)"
        using P N by (simp add: claim_step_def Seen_Local v Let_def)
      then have "{c \<in> {0..<chunks K}. local_flag (claim_step K b s) c \<noteq> 2} = {c \<in> {0..<chunks K}. local_flag s c \<noteq> 2} - {?x}"
        by auto
      moreover have "?x \<in> {c \<in> {0..<chunks K}. local_flag s c \<noteq> 2}" using True N by simp
      ultimately have "unclaimed K (claim_step K b s) = unclaimed K s - 1"
        unfolding unclaimed_def by (intro card_less_one[OF finite_filtered])
      then show ?thesis by blast
    next
      case False
      then have st: "claim_step K b s = goto b (Look st org (i + 1)) s" using P N by (simp add: claim_step_def Seen_Local Let_def)
      have "(c - (st + i)) mod chunks K \<noteq> 0"
      proof
        assume "(c - (st + i)) mod chunks K = 0"
        then have "c mod chunks K = ?x" by (simp add: mod_eq_dvd_iff mod_eq_0_iff_dvd)
        then show False using False c by simp
      qed
      from mod_pred[OF N this] show ?thesis
        by (simp add: st same distance_def next_look_def look_weight_def Seen_Local P(1) algebra_simps)
    qed
  next
    case (Missed st)
    have "set (publications s) \<subseteq> {0..<chunks K} - {c}" using I(4) c by fastforce
    then have "card (set (publications s)) \<le> card ({0..<chunks K} - {c})" by (rule card_mono[rotated]) simp
    then have "published s < chunks K" using I(2) distinct_card[OF I(3)] c N by simp
    then have "claim_step K b s = goto b (Before st) s" by (simp add: claim_step_def Missed)
    then show ?thesis by (simp add: same distance_def next_look_def look_weight_def Missed)
  next
    case (Reducing st x)
    then have "claim_step K b s = (goto b (Before st) s)\<lparr>published := published s + 1, publications := publications s @ [x]\<rparr>"
      by (simp add: claim_step_def)
    then show ?thesis by (simp add: unclaimed_def distance_def next_look_def look_weight_def Reducing)
  next
    case Exited
    have "set (publications s) \<subseteq> {0..<chunks K} - {c}" using I(4) c by fastforce
    then have "card (set (publications s)) \<le> card ({0..<chunks K} - {c})" by (rule card_mono[rotated]) simp
    then have "published s < chunks K" using I(2) distinct_card[OF I(3)] c N by simp
    then show ?thesis using P by (simp add: Exited pc_ok_def)
  qed
qed


definition flags_up :: "claim_cfg \<Rightarrow> claim_state \<Rightarrow> bool" where
  "flags_up K s \<longleftrightarrow> (\<forall>c\<in>{0..<chunks K}. remote_flag s c \<and> local_flag s c \<in> {1, 2})"

lemma flags_upD: "flags_up K s \<Longrightarrow> 0 \<le> c \<Longrightarrow> c < chunks K \<Longrightarrow> remote_flag s c \<and> local_flag s c \<in> {1, 2}"
  by (simp add: flags_up_def)

lemma flags_up_step: "flags_up K s \<Longrightarrow> flags_up K (claim_step K b s)"
proof -
  assume up: "flags_up K s"
  have "local_flag (claim_step K b s) c \<in> {1, 2}" if "c \<in> {0..<chunks K}" for c
    using claim_step_flags(1)[of K b s c] flags_upD[OF up, of c] that by auto
  then show ?thesis using up by (simp add: flags_up_def claim_step_flags(2))
qed

lemma claimed_step: "local_flag s c = 2 \<Longrightarrow> local_flag (claim_step K b s) c = 2"
  using claim_step_flags(1)[of K b s c] by auto

lemma claimed_stays: "local_flag s c = 2 \<Longrightarrow> local_flag (fold (claim_step K) bs s) c = 2"
  by (induction bs arbitrary: s) (simp_all add: claimed_step)

lemma unclaimed_mono: "unclaimed K (claim_step K b s) \<le> unclaimed K s"
proof -
  have "{c \<in> {0..<chunks K}. local_flag (claim_step K b s) c \<noteq> 2} \<subseteq> {c \<in> {0..<chunks K}. local_flag s c \<noteq> 2}"
    using claimed_step[of s _ K b] by auto
  then show ?thesis unfolding unclaimed_def using card_mono[OF finite_filtered] by simp
qed

lemma other_block: "b' \<noteq> b \<Longrightarrow> block_pc (claim_step K b' s) b = block_pc s b"
  by (auto simp: claim_step_def Let_def split: claim_pc.split)

lemma claim_potential:
  assumes "claim_inv K s" "flags_up K s" "\<forall>b\<in>set bs. 0 \<le> b" "0 \<le> b"
    and N: "0 < chunks K" and v: "\<not> stealing K" and c: "0 \<le> c" "c < chunks K" "local_flag (fold (claim_step K) bs s) c = 1"
  shows "int (count_list bs b) \<le> unclaimed K s * (6 * chunks K + 3) + distance K c (block_pc s b)"
  using assms(1-4) c(3)
proof (induction bs arbitrary: s)
  case Nil
  have "0 \<le> unclaimed K s * (6 * chunks K + 3)" using N by (simp add: unclaimed_def)
  then show ?case using distance_bounds[OF N, of c "block_pc s b"] by simp
next
  case (Cons b' bs)
  let ?s = "claim_step K b' s" and ?M = "6 * chunks K + 3"
  have end1: "local_flag (fold (claim_step K) bs ?s) c = 1" using Cons.prems(5) by simp
  have IH: "int (count_list bs b) \<le> unclaimed K ?s * ?M + distance K c (block_pc ?s b)"
    using Cons claim_step_inv[OF Cons.prems(1) N] flags_up_step[OF Cons.prems(2)] by simp
  have now: "local_flag ?s c = 1"
    using claimed_stays[of ?s c K bs] end1 flags_upD[OF flags_up_step[OF Cons.prems(2)] c(1,2)] by auto
  then have before: "local_flag s c = 1" using claim_step_flags(1)[of K b' s c] by auto
  show ?case
  proof (cases "b' = b")
    case True
    have "unclaimed K ?s * ?M + distance K c (block_pc ?s b) + 1 \<le> unclaimed K s * ?M + distance K c (block_pc s b)"
      using claim_step_nearer[OF Cons.prems(1) N Cons.prems(4) v flags_upD[OF Cons.prems(2)] c(1,2) before now[unfolded True]]
    proof
      assume "unclaimed K (claim_step K b s) = unclaimed K s \<and> distance K c (block_pc (claim_step K b s) b) < distance K c (block_pc s b)"
      then show ?thesis unfolding True by simp
    next
      assume u: "unclaimed K (claim_step K b s) = unclaimed K s - 1"
      have "unclaimed K (claim_step K b s) * ?M = unclaimed K s * ?M - ?M" unfolding u by (simp only: left_diff_distrib mult_1)
      then show ?thesis unfolding True
        using distance_bounds[OF N, of c "block_pc s b"] distance_bounds[OF N, of c "block_pc (claim_step K b s) b"]
        by linarith
    qed
    then show ?thesis using IH True by simp
  next
    case False
    have "unclaimed K ?s * ?M \<le> unclaimed K s * ?M" using unclaimed_mono N by (intro mult_right_mono) simp_all
    then show ?thesis using IH False other_block[OF False, of K s] by simp
  qed
qed

text \<open>A chunk that is claimed is published or still being reduced.\<close>

definition claims_held :: "claim_state \<Rightarrow> bool" where
  "claims_held s \<longleftrightarrow> (\<forall>c. local_flag s c = 2 \<longrightarrow>
     c \<in> set (publications s) \<or> (\<exists>b\<ge>0. \<exists>st. block_pc s b = Reducing st c))"

lemma publications_grow: "set (publications s) \<subseteq> set (publications (claim_step K b s))"
  by (auto simp: claim_step_def Let_def split: claim_pc.split)

lemma reducing_publishes:
  "block_pc s b = Reducing st c \<Longrightarrow> c \<in> set (publications (claim_step K b s))"
  by (simp add: claim_step_def)

lemma claim_step_takes:
  assumes "local_flag s c \<noteq> 2" "local_flag (claim_step K b s) c = 2"
  shows "\<exists>st. block_pc (claim_step K b s) b = Reducing st c"
  using assms by (auto simp: claim_step_def Let_def split: claim_pc.splits if_splits)

lemma claims_held_step:
  assumes "claims_held s" "0 \<le> b"
  shows "claims_held (claim_step K b s)"
  unfolding claims_held_def
proof (intro allI impI)
  fix c assume two: "local_flag (claim_step K b s) c = 2"
  show "c \<in> set (publications (claim_step K b s)) \<or> (\<exists>b'\<ge>0. \<exists>st. block_pc (claim_step K b s) b' = Reducing st c)"
  proof (cases "local_flag s c = 2")
    case False
    then show ?thesis using claim_step_takes[OF False two] assms(2) by blast
  next
    case True
    from assms(1) True consider "c \<in> set (publications s)" | b' st where "0 \<le> b'" "block_pc s b' = Reducing st c"
      unfolding claims_held_def by blast
    then show ?thesis
    proof cases
      case 1
      then show ?thesis using publications_grow by blast
    next
      case 2
      then show ?thesis using reducing_publishes[of s b st c K] other_block[of b b' K s] by (cases "b' = b") auto
    qed
  qed
qed

lemma claims_held_reachable: "claim_reachable K s \<Longrightarrow> claims_held s"
proof (induction rule: claim_reachable.induct)
  case (claim_local s c)
  then show ?case by (auto simp: claims_held_def)
qed (simp_all add: claims_held_step, simp_all add: claims_held_def claim_init_def)

lemma claim_steps_reachable:
  "claim_reachable K s \<Longrightarrow> \<forall>b\<in>set bs. 0 \<le> b \<Longrightarrow> claim_reachable K (fold (claim_step K) bs s)"
  by (induction bs arbitrary: s) (simp_all add: claim_block)

lemma publications_grow_fold: "set (publications s) \<subseteq> set (publications (fold (claim_step K) bs s))"
proof (induction bs arbitrary: s)
  case (Cons b bs)
  show ?case using publications_grow[of s K b] Cons[of "claim_step K b s"] by simp
qed simp

lemma reducing_publishes_fold:
  "b \<in> set bs \<Longrightarrow> block_pc s b = Reducing st c \<Longrightarrow> c \<in> set (publications (fold (claim_step K) bs s))"
proof (induction bs arbitrary: s)
  case (Cons b' bs)
  show ?case
  proof (cases "b' = b")
    case True
    have "c \<in> set (publications (claim_step K b s))" using reducing_publishes[OF Cons.prems(2)] .
    then show ?thesis using publications_grow_fold[of "claim_step K b s" K bs] True by auto
  next
    case False
    have "block_pc (claim_step K b' s) b = Reducing st c" using other_block[OF False, of K s] Cons.prems(2) by simp
    then show ?thesis using Cons.IH[of "claim_step K b' s"] Cons.prems(1) False by simp
  qed
qed simp

lemma claimed_eventually:
  assumes "claim_reachable K s" "0 < chunks K" "\<not> stealing K"
    and up: "\<forall>c\<in>{0..<chunks K}. remote_flag s c \<and> local_flag s c \<noteq> 0"
    and bs: "\<forall>b\<in>set bs. 0 \<le> b" "0 \<le> b" "chunks K * (6 * chunks K + 3) + 6 * chunks K + 2 < int (count_list bs b)"
  shows "\<forall>c\<in>{0..<chunks K}. local_flag (fold (claim_step K) bs s) c = 2"
proof (rule ccontr)
  assume "\<not> ?thesis"
  then obtain c where c: "0 \<le> c" "c < chunks K" "local_flag (fold (claim_step K) bs s) c \<noteq> 2" by auto
  have inv: "claim_inv K s" and "\<forall>c. local_flag s c \<in> {0, 1, 2}" using claim_reachable_inv[OF assms(1,2)] by blast+
  then have fu: "flags_up K s" using up by (auto simp: flags_up_def)
  have "flags_up K (fold (claim_step K) bs s)" using fu by (induction bs arbitrary: s) (simp_all add: flags_up_step)
  then have "local_flag (fold (claim_step K) bs s) c = 1" using flags_upD c by blast
  note P = claim_potential[OF inv fu bs(1,2) assms(2,3) c(1,2) this]
  have "card {c \<in> {0..<chunks K}. local_flag s c \<noteq> 2} \<le> card {0..<chunks K}" by (intro card_mono) auto
  then have "unclaimed K s \<le> chunks K" using assms(2) by (simp add: unclaimed_def)
  then have "unclaimed K s * (6 * chunks K + 3) \<le> chunks K * (6 * chunks K + 3)" using assms(2) by (intro mult_right_mono) simp_all
  then show False using P distance_bounds[OF assms(2), of c "block_pc s b"] bs(3) by linarith
qed

text \<open>
  C25 (liveness), for the scan variant (no stealing): let both parts of all chunks be there, and let
  the blocks take steps in any interleaving \<open>bs\<close> in which some one block takes the stated number
  of steps. Then every chunk has been claimed, and each one is published or still being reduced by a
  block. And once each block that is still reducing has taken one more step, in any further
  interleaving \<open>bs'\<close>, every chunk is published exactly once.
\<close>

theorem claims_complete:
  assumes "claim_reachable K s" "0 < chunks K" "\<not> stealing K"
    and up: "\<forall>c\<in>{0..<chunks K}. remote_flag s c \<and> local_flag s c \<noteq> 0"
    and bs: "\<forall>b\<in>set bs. 0 \<le> b" "0 \<le> b" "chunks K * (6 * chunks K + 3) + 6 * chunks K + 2 < int (count_list bs b)"
    and t: "t = fold (claim_step K) bs s"
    and bs': "\<forall>b'\<in>set bs'. 0 \<le> b'" "\<forall>b'\<ge>0. \<forall>st c. block_pc t b' = Reducing st c \<longrightarrow> b' \<in> set bs'"
  shows "(\<forall>c\<in>{0..<chunks K}. local_flag t c = 2 \<and>
      (c \<in> set (publications t) \<or> (\<exists>b'\<ge>0. \<exists>st. block_pc t b' = Reducing st c)))
    \<and> distinct (publications (fold (claim_step K) bs' t))
    \<and> set (publications (fold (claim_step K) bs' t)) = {0..<chunks K}"
proof -
  have r: "claim_reachable K t" unfolding t by (rule claim_steps_reachable[OF assms(1) bs(1)])
  have all: "local_flag t c = 2 \<and> (c \<in> set (publications t) \<or> (\<exists>b'\<ge>0. \<exists>st. block_pc t b' = Reducing st c))"
    if "c \<in> {0..<chunks K}" for c
    using claimed_eventually[OF assms(1-3) up bs] claims_held_reachable[OF r] that
    unfolding t claims_held_def by blast
  have "{0..<chunks K} \<subseteq> set (publications (fold (claim_step K) bs' t))"
    using all bs'(2) publications_grow_fold[of t K bs'] reducing_publishes_fold[of _ bs' t _ _ K] by blast
  moreover have inv: "claim_inv K (fold (claim_step K) bs' t)"
    using claim_reachable_inv[OF claim_steps_reachable[OF r bs'(1)] assms(2)] by blast
  ultimately show ?thesis using all claim_invD(3,4)[OF inv] by auto
qed

section \<open>Witnesses\<close>

definition two_chunks :: claim_cfg where
  "two_chunks = \<lparr>stealing = False, chunks = 2\<rparr>"

definition two_ready :: claim_state where
  "two_ready = (claim_init two_chunks)\<lparr>local_flag := (\<lambda>_. 0)(0 := 1, 1 := 1), remote_flag := (\<lambda>_. False)(0 := True, 1 := True)\<rparr>"

lemma two_ready_reachable: "claim_reachable two_chunks two_ready"
proof -
  let ?i = "claim_init two_chunks"
  have "claim_reachable two_chunks (?i\<lparr>local_flag := (local_flag ?i)(0 := 1)\<rparr>)"
    by (rule claim_local[OF claim_start]) (simp add: claim_init_def)
  from claim_local[OF this, of 1] have "claim_reachable two_chunks (?i\<lparr>local_flag := (\<lambda>_. 0)(0 := 1, 1 := 1)\<rparr>)"
    by (simp add: claim_init_def)
  from claim_remote[OF claim_remote[OF this, of 0], of 1] show ?thesis by (simp add: two_ready_def claim_init_def)
qed

lemma claims_exclusive_witness:
  "distinct (publications (fold (claim_step two_chunks) [4, 4, 4, 4, 4] two_ready))
    \<and> publications (fold (claim_step two_chunks) [4, 4, 4, 4, 4] two_ready) = [0]"
proof -
  have runs: "claim_reachable two_chunks (fold (claim_step two_chunks) bs two_ready)" if "\<forall>b\<in>set bs. 0 \<le> b" for bs
    using that by (induction bs rule: rev_induct) (simp_all add: two_ready_reachable claim_block)
  have "claim_reachable two_chunks (fold (claim_step two_chunks) [4, 4, 4, 4, 4] two_ready)" by (rule runs) simp
  from claims_exclusive[OF this, THEN conjunct1] show ?thesis
    by (simp add: two_chunks_def two_ready_def claim_init_def claim_step_def scan_win_def)
qed

lemma claims_complete_witness:
  "set (publications (fold (claim_step two_chunks) [4] (fold (claim_step two_chunks) (replicate 50 4) two_ready))) = {0, 1}"
proof -
  let ?t = "fold (claim_step two_chunks) (replicate 50 4) two_ready"
  have pc: "block_pc ?t b = block_pc two_ready b" if "b \<noteq> 4" for b
  proof -
    have "block_pc (fold (claim_step two_chunks) (replicate n 4) s) b = block_pc s b" for n s
      using that by (induction n arbitrary: s) (simp_all add: other_block)
    then show ?thesis .
  qed
  have start: "block_pc two_ready b \<noteq> Reducing st c" for b st c by (simp add: two_ready_def claim_init_def)
  have ends: "\<forall>b'\<ge>0. \<forall>st c. block_pc ?t b' = Reducing st c \<longrightarrow> b' \<in> set [4]"
  proof (intro allI impI)
    fix b' st c assume "block_pc ?t b' = Reducing st c"
    then have "b' = 4" using pc[of b'] start by metis
    then show "b' \<in> set [4]" by simp
  qed
  have "{0..<chunks two_chunks} = {0, 1}" by (auto simp: two_chunks_def)
  then have up: "\<forall>c\<in>{0..<chunks two_chunks}. remote_flag two_ready c \<and> local_flag two_ready c \<noteq> 0" by (simp add: two_ready_def)
  have "count_list (replicate n (4 :: int)) 4 = n" for n by (induction n) simp_all
  then have n: "chunks two_chunks * (6 * chunks two_chunks + 3) + 6 * chunks two_chunks + 2 < int (count_list (replicate 50 4) (4 :: int))"
    by (simp add: two_chunks_def)
  have "set (publications (fold (claim_step two_chunks) [4] ?t)) = {0..<chunks two_chunks}"
    using claims_complete[OF two_ready_reachable _ _ up _ _ n refl _ ends] by (simp add: two_chunks_def)
  then show ?thesis using \<open>{0..<chunks two_chunks} = {0, 1}\<close> by simp
qed

end
