(* ===== verification/Gemm_AR_Iter.thy ===== *)
theory Gemm_AR_Iter
  imports MKernel_Prelude
begin

text \<open>
  The end of an iteration of the fused GEMM + all-reduce across nodes
  (\<open>src/include/operators/gemm_ar/gemm_ar.cuh:424-450,533-564\<close>, \<open>src/src/gemm_ar.cu:1360-1395\<close>): once
  all chunks are published, each reduce CTA clears its share of the arrival flags, the first one asks
  the proxy to write the epoch into the barrier word of the peers and waits until its own word has
  reached it, and the kernel of the next iteration starts when all CTAs are through. The barrier
  word is one for all peers, and a word in an arrival queue does not say which iteration it is of: the
  iterations in \<open>arrivals\<close> are for the proofs only. That the proxy posts the barrier after the data
  of the iteration has completed is shown in the theories of the proxies.
\<close>

datatype iter_stage = Running | Published | Notified

text \<open>
  \<open>served a\<close> are the words that node \<open>a\<close> has written in this iteration, as (peer, share), where
  the share is that of the CTA which clears it; \<open>arrivals b\<close> the words in the queues of node \<open>b\<close>, as
  (sender, share, iteration); \<open>reset_by a\<close> the CTAs that have cleared their share; \<open>notices\<close> the
  barrier writes on their way, as (sender, peer, epoch); \<open>wiped\<close> records the words of a later
  iteration that a clearing removed.
\<close>

record iter_state =
  iteration :: "int \<Rightarrow> int"
  stage_of :: "int \<Rightarrow> iter_stage"
  served :: "int \<Rightarrow> (int \<times> int) set"
  arrivals :: "int \<Rightarrow> (int \<times> int \<times> int) set"
  reset_by :: "int \<Rightarrow> int set"
  notices :: "(int \<times> int \<times> int) set"
  barrier_word :: "int \<Rightarrow> int"
  wiped :: "(int \<times> int \<times> int \<times> int) set"

definition iter_init :: iter_state where
  "iter_init = \<lparr>iteration = (\<lambda>_. 1), stage_of = (\<lambda>_. Running), served = (\<lambda>_. {}), arrivals = (\<lambda>_. {}), reset_by = (\<lambda>_. {}),
     notices = {}, barrier_word = (\<lambda>_. 0), wiped = {}\<rparr>"

definition peers_of :: "int \<Rightarrow> int \<Rightarrow> int set" where
  "peers_of n a = {0..<n} - {a}"

text \<open>The effects of the steps.\<close>

definition after_send :: "int \<Rightarrow> int \<Rightarrow> int \<Rightarrow> iter_state \<Rightarrow> iter_state" where
  "after_send a b q s = s\<lparr>served := (served s)(a := insert (b, q) (served s a)),
     arrivals := (arrivals s)(b := insert (a, q, iteration s a) (arrivals s b))\<rparr>"

definition after_publish :: "int \<Rightarrow> iter_state \<Rightarrow> iter_state" where
  "after_publish a s = s\<lparr>stage_of := (stage_of s)(a := Published)\<rparr>"

definition gemm_ar_iter_end_reset_arrival_flags :: "int \<Rightarrow> int \<Rightarrow> iter_state \<Rightarrow> iter_state" where
  "gemm_ar_iter_end_reset_arrival_flags a q s = s\<lparr>reset_by := (reset_by s)(a := insert q (reset_by s a)),
     arrivals := (arrivals s)(a := {w \<in> arrivals s a. fst (snd w) \<noteq> q}),
     wiped := wiped s \<union> Pair a ` {w \<in> arrivals s a. fst (snd w) = q \<and> iteration s a < snd (snd w)}\<rparr>"

definition after_notify :: "int \<Rightarrow> int \<Rightarrow> iter_state \<Rightarrow> iter_state" where
  "after_notify n a s = s\<lparr>notices := notices s \<union> (\<lambda>b. (a, b, iteration s a)) ` peers_of n a, stage_of := (stage_of s)(a := Notified)\<rparr>"

definition after_deliver :: "int \<Rightarrow> int \<Rightarrow> int \<Rightarrow> iter_state \<Rightarrow> iter_state" where
  "after_deliver a b e s = s\<lparr>notices := notices s - {(a, b, e)}, barrier_word := (barrier_word s)(b := e)\<rparr>"

definition after_next :: "int \<Rightarrow> iter_state \<Rightarrow> iter_state" where
  "after_next a s = s\<lparr>iteration := (iteration s)(a := iteration s a + 1), stage_of := (stage_of s)(a := Running),
     served := (served s)(a := {}), reset_by := (reset_by s)(a := {})\<rparr>"

text \<open>\<open>n\<close> nodes, each with \<open>r\<close> reduce CTAs.\<close>

inductive iter_step :: "int \<Rightarrow> int \<Rightarrow> iter_state \<Rightarrow> iter_state \<Rightarrow> bool" for n r where
  send_word: "\<lbrakk>a \<in> {0..<n}; b \<in> peers_of n a; q \<in> {0..<r}; (b, q) \<notin> served s a\<rbrakk> \<Longrightarrow> iter_step n r s (after_send a b q s)"
| publish_all: "\<lbrakk>a \<in> {0..<n}; stage_of s a = Running; \<forall>b\<in>peers_of n a. \<forall>q\<in>{0..<r}. \<exists>e. (b, q, e) \<in> arrivals s a\<rbrakk> \<Longrightarrow>
    iter_step n r s (after_publish a s)"
| reset_share: "\<lbrakk>a \<in> {0..<n}; stage_of s a \<noteq> Running; q \<in> {0..<r}; q \<notin> reset_by s a\<rbrakk> \<Longrightarrow>
    iter_step n r s (gemm_ar_iter_end_reset_arrival_flags a q s)"
| notify: "\<lbrakk>a \<in> {0..<n}; stage_of s a = Published; 0 \<in> reset_by s a\<rbrakk> \<Longrightarrow> iter_step n r s (after_notify n a s)"
| deliver: "(a, b, e) \<in> notices s \<Longrightarrow> iter_step n r s (after_deliver a b e s)"
| next_iter: "\<lbrakk>a \<in> {0..<n}; stage_of s a = Notified; reset_by s a = {0..<r}; served s a = peers_of n a \<times> {0..<r};
      iteration s a \<le> barrier_word s a\<rbrakk> \<Longrightarrow> iter_step n r s (after_next a s)"

inductive_cases iter_stepE: "iter_step n r s s'"

definition iter_reachable :: "int \<Rightarrow> int \<Rightarrow> iter_state \<Rightarrow> bool" where
  "iter_reachable n r s = (iter_step n r)\<^sup>*\<^sup>* iter_init s"

lemmas after_defs = after_send_def after_publish_def gemm_ar_iter_end_reset_arrival_flags_def after_deliver_def after_next_def

section \<open>Two nodes with one reduce CTA each\<close>

text \<open>What holds between node \<open>a\<close> and its peer \<open>b\<close>.\<close>

definition pair_inv :: "iter_state \<Rightarrow> int \<Rightarrow> int \<Rightarrow> bool" where
  "pair_inv s a b \<longleftrightarrow> (iteration s a \<le> iteration s b + 1)
     \<and> (iteration s a = iteration s b + 1 \<longrightarrow> stage_of s b = Notified \<and> stage_of s a = Running)
     \<and> (iteration s a \<le> barrier_word s a + 1)
     \<and> (barrier_word s a \<le> iteration s b)
     \<and> (barrier_word s a = iteration s b \<longrightarrow> stage_of s b = Notified)
     \<and> (\<forall>y e. (b, y, e) \<in> notices s \<longrightarrow> y = a \<and> barrier_word s a < e \<and> (e = iteration s b \<and> stage_of s b = Notified \<or> e + 1 = iteration s b \<and> iteration s a = e))
     \<and> (\<forall>x q e. (x, q, e) \<in> arrivals s a \<longrightarrow> x = b \<and> q = 0 \<and> e \<le> iteration s b \<and> (e = iteration s b \<longrightarrow> (a, 0) \<in> served s b) \<and> (if 0 \<in> reset_by s a then iteration s a < e else iteration s a \<le> e))
     \<and> (served s a \<subseteq> {(b, 0)})
     \<and> ((stage_of s a \<noteq> Running \<and> iteration s b = iteration s a \<or> iteration s a = iteration s b + 1) \<longrightarrow> (a, 0) \<in> served s b)
     \<and> (((b, 0) \<in> served s a \<and> (iteration s a = iteration s b \<and> stage_of s b = Running \<or> iteration s a = iteration s b + 1)) \<longrightarrow> (a, 0, iteration s a) \<in> arrivals s b)
     \<and> (stage_of s b = Notified \<longrightarrow> (b, a, iteration s b) \<in> notices s \<or> iteration s b \<le> barrier_word s a)
     \<and> (iteration s a = iteration s b + 1 \<longrightarrow> (a, b, iteration s b) \<in> notices s \<or> iteration s b \<le> barrier_word s b)
     \<and> (stage_of s a = Running \<longrightarrow> reset_by s a = {})
     \<and> (stage_of s a = Notified \<longrightarrow> 0 \<in> reset_by s a)
     \<and> (reset_by s a \<subseteq> {0})"

lemmas pair_invD =
  pair_inv_def [THEN iffD1, THEN conjunct1, rule_format]
  pair_inv_def [THEN iffD1, THEN conjunct2, THEN conjunct1, rule_format]
  pair_inv_def [THEN iffD1, THEN conjunct2, THEN conjunct2, THEN conjunct1, rule_format]
  pair_inv_def [THEN iffD1, THEN conjunct2, THEN conjunct2, THEN conjunct2, THEN conjunct1, rule_format]
  pair_inv_def [THEN iffD1, THEN conjunct2, THEN conjunct2, THEN conjunct2, THEN conjunct2, THEN conjunct1, rule_format]
  pair_inv_def [THEN iffD1, THEN conjunct2, THEN conjunct2, THEN conjunct2, THEN conjunct2, THEN conjunct2, THEN conjunct1, rule_format]
  pair_inv_def [THEN iffD1, THEN conjunct2, THEN conjunct2, THEN conjunct2, THEN conjunct2, THEN conjunct2, THEN conjunct2, THEN conjunct1, rule_format]
  pair_inv_def [THEN iffD1, THEN conjunct2, THEN conjunct2, THEN conjunct2, THEN conjunct2, THEN conjunct2, THEN conjunct2, THEN conjunct2, THEN conjunct1, rule_format]
  pair_inv_def [THEN iffD1, THEN conjunct2, THEN conjunct2, THEN conjunct2, THEN conjunct2, THEN conjunct2, THEN conjunct2, THEN conjunct2, THEN conjunct2, THEN conjunct1, rule_format]
  pair_inv_def [THEN iffD1, THEN conjunct2, THEN conjunct2, THEN conjunct2, THEN conjunct2, THEN conjunct2, THEN conjunct2, THEN conjunct2, THEN conjunct2, THEN conjunct2, THEN conjunct1, rule_format]
  pair_inv_def [THEN iffD1, THEN conjunct2, THEN conjunct2, THEN conjunct2, THEN conjunct2, THEN conjunct2, THEN conjunct2, THEN conjunct2, THEN conjunct2, THEN conjunct2, THEN conjunct2, THEN conjunct1, rule_format]
  pair_inv_def [THEN iffD1, THEN conjunct2, THEN conjunct2, THEN conjunct2, THEN conjunct2, THEN conjunct2, THEN conjunct2, THEN conjunct2, THEN conjunct2, THEN conjunct2, THEN conjunct2, THEN conjunct2, THEN conjunct1, rule_format]
  pair_inv_def [THEN iffD1, THEN conjunct2, THEN conjunct2, THEN conjunct2, THEN conjunct2, THEN conjunct2, THEN conjunct2, THEN conjunct2, THEN conjunct2, THEN conjunct2, THEN conjunct2, THEN conjunct2, THEN conjunct2, THEN conjunct1, rule_format]
  pair_inv_def [THEN iffD1, THEN conjunct2, THEN conjunct2, THEN conjunct2, THEN conjunct2, THEN conjunct2, THEN conjunct2, THEN conjunct2, THEN conjunct2, THEN conjunct2, THEN conjunct2, THEN conjunct2, THEN conjunct2, THEN conjunct2, THEN conjunct1, rule_format]
  pair_inv_def [THEN iffD1, THEN conjunct2, THEN conjunct2, THEN conjunct2, THEN conjunct2, THEN conjunct2, THEN conjunct2, THEN conjunct2, THEN conjunct2, THEN conjunct2, THEN conjunct2, THEN conjunct2, THEN conjunct2, THEN conjunct2, THEN conjunct2, rule_format]

lemma pair_invI:
  assumes "iteration s a \<le> iteration s b + 1"
    "iteration s a = iteration s b + 1 \<Longrightarrow> stage_of s b = Notified \<and> stage_of s a = Running"
    "iteration s a \<le> barrier_word s a + 1"
    "barrier_word s a \<le> iteration s b"
    "barrier_word s a = iteration s b \<Longrightarrow> stage_of s b = Notified"
    "\<And>y e. (b, y, e) \<in> notices s \<Longrightarrow> y = a \<and> barrier_word s a < e \<and> (e = iteration s b \<and> stage_of s b = Notified \<or> e + 1 = iteration s b \<and> iteration s a = e)"
    "\<And>x q e. (x, q, e) \<in> arrivals s a \<Longrightarrow> x = b \<and> q = 0 \<and> e \<le> iteration s b \<and> (e = iteration s b \<longrightarrow> (a, 0) \<in> served s b) \<and> (if 0 \<in> reset_by s a then iteration s a < e else iteration s a \<le> e)"
    "served s a \<subseteq> {(b, 0)}"
    "stage_of s a \<noteq> Running \<and> iteration s b = iteration s a \<or> iteration s a = iteration s b + 1 \<Longrightarrow> (a, 0) \<in> served s b"
    "(b, 0) \<in> served s a \<and> (iteration s a = iteration s b \<and> stage_of s b = Running \<or> iteration s a = iteration s b + 1) \<Longrightarrow> (a, 0, iteration s a) \<in> arrivals s b"
    "stage_of s b = Notified \<Longrightarrow> (b, a, iteration s b) \<in> notices s \<or> iteration s b \<le> barrier_word s a"
    "iteration s a = iteration s b + 1 \<Longrightarrow> (a, b, iteration s b) \<in> notices s \<or> iteration s b \<le> barrier_word s b"
    "stage_of s a = Running \<Longrightarrow> reset_by s a = {}"
    "stage_of s a = Notified \<Longrightarrow> 0 \<in> reset_by s a"
    "reset_by s a \<subseteq> {0}"
  shows "pair_inv s a b"
  unfolding pair_inv_def using assms by blast

lemma pair_send_own:
  assumes I: "pair_inv s a b" and J: "pair_inv s b a" and ab: "a \<noteq> b" "b \<noteq> a" and st: "(b, 0) \<notin> served s a"
  shows "pair_inv (after_send a b 0 s) a b"
proof -
  note i = pair_invD[OF I] and j = pair_invD[OF J]
  have k1: "iteration s b < iteration s a" if "stage_of s b \<noteq> Running"
    using j(1,2,9) st that by fastforce
  have k2: "iteration s b \<le> iteration s a" using j(1,9) st by fastforce
  have k3: "iteration s b < iteration s a" if "0 \<in> reset_by s b" using k1 j(13) that by auto
  show ?thesis unfolding after_defs
  proof (rule pair_invI, goal_cases)
    case 1 show ?case using ab st k1 k2 k3 i(1) by auto
    next case 2 then show ?case using ab st k1 k2 k3 i(2) by auto
    next case 3 show ?case using ab st k1 k2 k3 i(3) by auto
    next case 4 show ?case using ab st k1 k2 k3 i(4) by auto
    next case 5 then show ?case using ab st k1 k2 k3 i(5) by auto
    next case (6 y e') then have n: "(b, y, e') \<in> notices s" by simp show ?case using ab st k1 k2 k3 i(6)[OF n] by auto
    next case (7 x q e') then have n: "(x, q, e') \<in> arrivals s a" using ab by simp show ?case using ab st k1 i(7)[OF n] by (auto split: if_splits)
    next case 8 show ?case using ab st k1 k2 k3 i(8) by auto
    next case 9 then show ?case using ab st k1 k2 k3 i(9) by auto
    next case 10 then show ?case using ab st k1 k2 k3 i(10) by auto
    next case 11 then show ?case using ab st k1 k2 k3 i(11) by auto
    next case 12 then show ?case using ab st k1 k2 k3 i(12) by auto
    next case 13 then show ?case using ab st k1 k2 k3 i(13) by auto
    next case 14 then show ?case using ab st k1 k2 k3 i(14) by auto
    next case 15 show ?case using ab st k1 k2 k3 i(15) by auto
  qed
qed

lemma pair_send_peer:
  assumes I: "pair_inv s a b" and J: "pair_inv s b a" and ab: "a \<noteq> b" "b \<noteq> a" and st: "(b, 0) \<notin> served s a"
  shows "pair_inv (after_send a b 0 s) b a"
proof -
  note i = pair_invD[OF I] and j = pair_invD[OF J]
  have k1: "iteration s b < iteration s a" if "stage_of s b \<noteq> Running"
    using j(1,2,9) st that by fastforce
  have k2: "iteration s b \<le> iteration s a" using j(1,9) st by fastforce
  have k3: "iteration s b < iteration s a" if "0 \<in> reset_by s b" using k1 j(13) that by auto
  show ?thesis unfolding after_defs
  proof (rule pair_invI, goal_cases)
    case 1 show ?case using ab st k1 k2 k3 j(1) by auto
    next case 2 then show ?case using ab st k1 k2 k3 j(2) by auto
    next case 3 show ?case using ab st k1 k2 k3 j(3) by auto
    next case 4 show ?case using ab st k1 k2 k3 j(4) by auto
    next case 5 then show ?case using ab st k1 k2 k3 j(5) by auto
    next case (6 y e') then have n: "(a, y, e') \<in> notices s" by simp show ?case using ab st k1 k2 k3 j(6)[OF n] by auto
    next case (7 x q e') then consider "(x, q, e') \<in> arrivals s b" | "x = a" "q = 0" "e' = iteration s a" by auto
      then show ?case
      proof cases
        case 1 show ?thesis using ab j(7)[OF 1] by auto
      qed (use ab k2 k3 in auto)
    next case 8 show ?case using ab st k1 k2 k3 j(8) by auto
    next case 9 then show ?case using ab st k1 k2 k3 j(9) by auto
    next case 10 then show ?case using ab st k1 k2 k3 j(10) by auto
    next case 11 then show ?case using ab st k1 k2 k3 j(11) by auto
    next case 12 then show ?case using ab st k1 k2 k3 j(12) by auto
    next case 13 then show ?case using ab st k1 k2 k3 j(13) by auto
    next case 14 then show ?case using ab st k1 k2 k3 j(14) by auto
    next case 15 show ?case using ab st k1 k2 k3 j(15) by auto
  qed
qed

lemma pair_publish_own:
  assumes I: "pair_inv s a b" and J: "pair_inv s b a" and ab: "a \<noteq> b" "b \<noteq> a" and st: "stage_of s a = Running" "(b, 0, e) \<in> arrivals s a"
  shows "pair_inv (after_publish a s) a b"
proof -
  note i = pair_invD[OF I] and j = pair_invD[OF J]
  have k1: "iteration s b = iteration s a" using i(7)[OF st(2)] i(13) j(1,2) st(1) by fastforce
  have k2: "(a, 0) \<in> served s b" using i(7)[OF st(2)] i(13) k1 st(1) by simp
  show ?thesis unfolding after_defs
  proof (rule pair_invI, goal_cases)
    case 1 show ?case using ab st k1 k2 i(1) by auto
    next case 2 then show ?case using ab st k1 k2 i(2) by auto
    next case 3 show ?case using ab st k1 k2 i(3) by auto
    next case 4 show ?case using ab st k1 k2 i(4) by auto
    next case 5 then show ?case using ab st k1 k2 i(5) by auto
    next case (6 y e') then have n: "(b, y, e') \<in> notices s" by simp show ?case using ab st k1 k2 i(6)[OF n] by auto
    next case (7 x q e') then have n: "(x, q, e') \<in> arrivals s a" by simp show ?case using ab st k1 k2 i(7)[OF n] by (auto split: if_splits)
    next case 8 show ?case using ab st k1 k2 i(8) by auto
    next case 9 then show ?case using ab st k1 k2 i(9) by auto
    next case 10 then show ?case using ab st k1 k2 i(10) by auto
    next case 11 then show ?case using ab st k1 k2 i(11) by auto
    next case 12 then show ?case using ab st k1 k2 i(12) by auto
    next case 13 then show ?case using ab st k1 k2 i(13) by auto
    next case 14 then show ?case using ab st k1 k2 i(14) by auto
    next case 15 show ?case using ab st k1 k2 i(15) by auto
  qed
qed

lemma pair_publish_peer:
  assumes I: "pair_inv s a b" and J: "pair_inv s b a" and ab: "a \<noteq> b" "b \<noteq> a" and st: "stage_of s a = Running" "(b, 0, e) \<in> arrivals s a"
  shows "pair_inv (after_publish a s) b a"
proof -
  note i = pair_invD[OF I] and j = pair_invD[OF J]
  have k1: "iteration s b = iteration s a" using i(7)[OF st(2)] i(13) j(1,2) st(1) by fastforce
  have k2: "(a, 0) \<in> served s b" using i(7)[OF st(2)] i(13) k1 st(1) by simp
  show ?thesis unfolding after_defs
  proof (rule pair_invI, goal_cases)
    case 1 show ?case using ab st k1 k2 j(1) by auto
    next case 2 then show ?case using ab st k1 k2 j(2) by auto
    next case 3 show ?case using ab st k1 k2 j(3) by auto
    next case 4 show ?case using ab st k1 k2 j(4) by auto
    next case 5 then show ?case using ab st k1 k2 j(5) by auto
    next case (6 y e') then have n: "(a, y, e') \<in> notices s" by simp show ?case using ab st k1 k2 j(6)[OF n] by auto
    next case (7 x q e') then have n: "(x, q, e') \<in> arrivals s b" by simp show ?case using ab st k1 k2 j(7)[OF n] by (auto split: if_splits)
    next case 8 show ?case using ab st k1 k2 j(8) by auto
    next case 9 then show ?case using ab st k1 k2 j(9) by auto
    next case 10 then show ?case using ab st k1 k2 j(10) by auto
    next case 11 then show ?case using ab st k1 k2 j(11) by auto
    next case 12 then show ?case using ab st k1 k2 j(12) by auto
    next case 13 then show ?case using ab st k1 k2 j(13) by auto
    next case 14 then show ?case using ab st k1 k2 j(14) by auto
    next case 15 show ?case using ab st k1 k2 j(15) by auto
  qed
qed

lemma pair_reset_own:
  assumes I: "pair_inv s a b" and J: "pair_inv s b a" and ab: "a \<noteq> b" "b \<noteq> a" and st: "stage_of s a = Published" "0 \<notin> reset_by s a"
  shows "pair_inv (gemm_ar_iter_end_reset_arrival_flags a 0 s) a b"
proof -
  note i = pair_invD[OF I] and j = pair_invD[OF J]
  have k1: "iteration s b \<noteq> iteration s a + 1" using j(2) st by auto
  show ?thesis unfolding after_defs
  proof (rule pair_invI, goal_cases)
    case 1 show ?case using ab st k1 i(1) by auto
    next case 2 then show ?case using ab st k1 i(2) by auto
    next case 3 show ?case using ab st k1 i(3) by auto
    next case 4 show ?case using ab st k1 i(4) by auto
    next case 5 then show ?case using ab st k1 i(5) by auto
    next case (6 y e') then have n: "(b, y, e') \<in> notices s" by simp show ?case using ab st k1 i(6)[OF n] by auto
    next case (7 x q e') then have n: "(x, q, e') \<in> arrivals s a" "q \<noteq> 0" by simp_all show ?case using i(7)[OF n(1)] n(2) by simp
    next case 8 show ?case using ab st k1 i(8) by auto
    next case 9 then show ?case using ab st k1 i(9) by auto
    next case 10 then show ?case using ab st k1 i(10) by auto
    next case 11 then show ?case using ab st k1 i(11) by auto
    next case 12 then show ?case using ab st k1 i(12) by auto
    next case 13 then show ?case using ab st k1 i(13) by auto
    next case 14 then show ?case using ab st k1 i(14) by auto
    next case 15 show ?case using ab st k1 i(15) by auto
  qed
qed

lemma pair_reset_peer:
  assumes I: "pair_inv s a b" and J: "pair_inv s b a" and ab: "a \<noteq> b" "b \<noteq> a" and st: "stage_of s a = Published" "0 \<notin> reset_by s a"
  shows "pair_inv (gemm_ar_iter_end_reset_arrival_flags a 0 s) b a"
proof -
  note i = pair_invD[OF I] and j = pair_invD[OF J]
  have k1: "iteration s b \<noteq> iteration s a + 1" using j(2) st by auto
  show ?thesis unfolding after_defs
  proof (rule pair_invI, goal_cases)
    case 1 show ?case using ab st k1 j(1) by auto
    next case 2 then show ?case using ab st k1 j(2) by auto
    next case 3 show ?case using ab st k1 j(3) by auto
    next case 4 show ?case using ab st k1 j(4) by auto
    next case 5 then show ?case using ab st k1 j(5) by auto
    next case (6 y e') then have n: "(a, y, e') \<in> notices s" by simp show ?case using ab st k1 j(6)[OF n] by auto
    next case (7 x q e') then have n: "(x, q, e') \<in> arrivals s b" using ab by simp show ?case using ab st k1 j(7)[OF n] by (auto split: if_splits)
    next case 8 show ?case using ab st k1 j(8) by auto
    next case 9 then show ?case using ab st k1 j(9) by auto
    next case 10 then show ?case using ab st k1 j(10) by auto
    next case 11 then show ?case using ab st k1 j(11) by auto
    next case 12 then show ?case using ab st k1 j(12) by auto
    next case 13 then show ?case using ab st k1 j(13) by auto
    next case 14 then show ?case using ab st k1 j(14) by auto
    next case 15 show ?case using ab st k1 j(15) by auto
  qed
qed

lemma pair_notify_own:
  assumes I: "pair_inv s a b" and J: "pair_inv s b a" and ab: "a \<noteq> b" "b \<noteq> a" and st: "stage_of s a = Published" "0 \<in> reset_by s a"
  shows "pair_inv (s\<lparr>notices := insert (a, b, iteration s a) (notices s), stage_of := (stage_of s)(a := Notified)\<rparr>) a b"
proof -
  note i = pair_invD[OF I] and j = pair_invD[OF J]
  have k1: "iteration s b \<noteq> iteration s a + 1" using j(2) st by auto
  have k2: "barrier_word s b < iteration s a" using j(4,5) st by fastforce
  have k3: "iteration s a \<noteq> iteration s b + 1" using i(2) st by auto
  have k4: "(a, y, e) \<notin> notices s" for y e using j(6)[of y e] st i(2) by auto
  show ?thesis unfolding after_defs
  proof (rule pair_invI, goal_cases)
    case 1 show ?case using ab st k1 k2 k3 k4 i(1) by auto
    next case 2 then show ?case using ab st k1 k2 k3 k4 i(2) by auto
    next case 3 show ?case using ab st k1 k2 k3 k4 i(3) by auto
    next case 4 show ?case using ab st k1 k2 k3 k4 i(4) by auto
    next case 5 then show ?case using ab st k1 k2 k3 k4 i(5) by auto
    next case (6 y e') then have n: "(b, y, e') \<in> notices s" using ab by simp show ?case using ab st k1 k2 k3 k4 i(6)[OF n] by auto
    next case (7 x q e') then have n: "(x, q, e') \<in> arrivals s a" by simp show ?case using ab st k1 k2 k3 k4 i(7)[OF n] by (auto split: if_splits)
    next case 8 show ?case using ab st k1 k2 k3 k4 i(8) by auto
    next case 9 then show ?case using ab st k1 k2 k3 k4 i(9) by auto
    next case 10 then show ?case using ab st k1 k2 k3 k4 i(10) by auto
    next case 11 then show ?case using ab st k1 k2 k3 k4 i(11) by auto
    next case 12 then show ?case using ab st k1 k2 k3 k4 i(12) by auto
    next case 13 then show ?case using ab st k1 k2 k3 k4 i(13) by auto
    next case 14 then show ?case using ab st k1 k2 k3 k4 i(14) by auto
    next case 15 show ?case using ab st k1 k2 k3 k4 i(15) by auto
  qed
qed

lemma pair_notify_peer:
  assumes I: "pair_inv s a b" and J: "pair_inv s b a" and ab: "a \<noteq> b" "b \<noteq> a" and st: "stage_of s a = Published" "0 \<in> reset_by s a"
  shows "pair_inv (s\<lparr>notices := insert (a, b, iteration s a) (notices s), stage_of := (stage_of s)(a := Notified)\<rparr>) b a"
proof -
  note i = pair_invD[OF I] and j = pair_invD[OF J]
  have k1: "iteration s b \<noteq> iteration s a + 1" using j(2) st by auto
  have k2: "barrier_word s b < iteration s a" using j(4,5) st by fastforce
  have k3: "iteration s a \<noteq> iteration s b + 1" using i(2) st by auto
  have k4: "(a, y, e) \<notin> notices s" for y e using j(6)[of y e] st i(2) by auto
  show ?thesis unfolding after_defs
  proof (rule pair_invI, goal_cases)
    case 1 show ?case using ab st k1 k2 k3 k4 j(1) by auto
    next case 2 then show ?case using ab st k1 k2 k3 k4 j(2) by auto
    next case 3 show ?case using ab st k1 k2 k3 k4 j(3) by auto
    next case 4 show ?case using ab st k1 k2 k3 k4 j(4) by auto
    next case 5 then show ?case using ab st k1 k2 k3 k4 j(5) by auto
    next case (6 y e') then show ?case using ab st k1 k2 k3 k4 by auto
    next case (7 x q e') then have n: "(x, q, e') \<in> arrivals s b" by simp show ?case using ab st k1 k2 k3 k4 j(7)[OF n] by (auto split: if_splits)
    next case 8 show ?case using ab st k1 k2 k3 k4 j(8) by auto
    next case 9 then show ?case using ab st k1 k2 k3 k4 j(9) by auto
    next case 10 then show ?case using ab st k1 k2 k3 k4 j(10) by auto
    next case 11 then show ?case using ab st k1 k2 k3 k4 j(11) by auto
    next case 12 then show ?case using ab st k1 k2 k3 k4 j(12) by auto
    next case 13 then show ?case using ab st k1 k2 k3 k4 j(13) by auto
    next case 14 then show ?case using ab st k1 k2 k3 k4 j(14) by auto
    next case 15 show ?case using ab st k1 k2 k3 k4 j(15) by auto
  qed
qed

lemma pair_deliver_own:
  assumes I: "pair_inv s a b" and J: "pair_inv s b a" and ab: "a \<noteq> b" "b \<noteq> a" and st: "(a, b, e) \<in> notices s"
  shows "pair_inv (after_deliver a b e s) a b"
proof -
  note i = pair_invD[OF I] and j = pair_invD[OF J]
  note k0 = j(6)[OF st]
  have k1: "e' = e" if "(a, y, e') \<in> notices s" for y e' using j(6)[OF that] k0 i(2) by auto
  have k2: "stage_of s a = Notified \<Longrightarrow> iteration s a \<le> e" using k0 i(2) by auto
  show ?thesis unfolding after_defs
  proof (rule pair_invI, goal_cases)
    case 1 show ?case using i(1) ab by simp
    next case 2 then show ?case using i(2) ab by simp
    next case 3 show ?case using i(3) ab by simp
    next case 4 show ?case using i(4) ab by simp
    next case 5 then show ?case using i(5) ab by simp
    next case (6 y e') then have n: "(b, y, e') \<in> notices s" by simp show ?case using i(6)[OF n] ab by simp
    next case (7 x q e') then have n: "(x, q, e') \<in> arrivals s a" by simp show ?case using i(7)[OF n] ab by simp
    next case 8 show ?case using i(8) ab by simp
    next case 9 then show ?case using i(9) ab by simp
    next case 10 then show ?case using i(10) ab by simp
    next case 11 then show ?case using i(11) ab by simp
    next case 12 then show ?case using i(12) k0 ab by auto
    next case 13 then show ?case using i(13) ab by simp
    next case 14 then show ?case using i(14) ab by simp
    next case 15 show ?case using i(15) ab by simp
  qed
qed

lemma pair_deliver_peer:
  assumes I: "pair_inv s a b" and J: "pair_inv s b a" and ab: "a \<noteq> b" "b \<noteq> a" and st: "(a, b, e) \<in> notices s"
  shows "pair_inv (after_deliver a b e s) b a"
proof -
  note i = pair_invD[OF I] and j = pair_invD[OF J]
  note k0 = j(6)[OF st]
  have k1: "e' = e" if "(a, y, e') \<in> notices s" for y e' using j(6)[OF that] k0 i(2) by auto
  have k2: "stage_of s a = Notified \<Longrightarrow> iteration s a \<le> e" using k0 i(2) by auto
  show ?thesis unfolding after_defs
  proof (rule pair_invI, goal_cases)
    case 1 show ?case using j(1) ab by simp
    next case 2 then show ?case using j(2) ab by simp
    next case 3 show ?case using ab k0 j(1) by auto
    next case 4 show ?case using ab k0 by auto
    next case 5 then show ?case using ab k0 by auto
    next case (6 y e') then have n: "(a, y, e') \<in> notices s" and ne: "(y, e') \<noteq> (b, e)" by simp_all show ?case using j(6)[OF n] k1[OF n] ne by simp
    next case (7 x q e') then have n: "(x, q, e') \<in> arrivals s b" by simp show ?case using j(7)[OF n] ab by simp
    next case 8 show ?case using j(8) ab by simp
    next case 9 then show ?case using j(9) ab by simp
    next case 10 then show ?case using j(10) ab by simp
    next case 11 then show ?case using ab k2 by simp
    next case 12 then show ?case using j(12) ab by auto
    next case 13 then show ?case using j(13) ab by simp
    next case 14 then show ?case using j(14) ab by simp
    next case 15 show ?case using j(15) ab by simp
  qed
qed

lemma pair_next_own:
  assumes I: "pair_inv s a b" and J: "pair_inv s b a" and ab: "a \<noteq> b" "b \<noteq> a" and st: "stage_of s a = Notified" "iteration s a \<le> barrier_word s a"
  shows "pair_inv (after_next a s) a b"
proof -
  note i = pair_invD[OF I] and j = pair_invD[OF J]
  have k1: "iteration s a \<le> iteration s b" using st i(4) by simp
  have k2: "iteration s a = iteration s b \<Longrightarrow> stage_of s b = Notified" using st i(4,5) by auto
  show ?thesis unfolding after_defs
  proof (rule pair_invI, goal_cases)
    case 1 show ?case using ab st k1 k2 i(1) by auto
    next case 2 then show ?case using ab st k1 k2 i(2) by auto
    next case 3 show ?case using ab st k1 k2 i(3) by auto
    next case 4 show ?case using ab st k1 k2 i(4) by auto
    next case 5 then show ?case using ab st k1 k2 i(5) by auto
    next case (6 y e') then have n: "(b, y, e') \<in> notices s" by simp show ?case using ab st k1 k2 i(6)[OF n] by auto
    next case (7 x q e') then have n: "(x, q, e') \<in> arrivals s a" by simp show ?case using ab st i(7)[OF n] i(14) by auto
    next case 8 show ?case using ab st k1 k2 i(8) by auto
    next case 9 then show ?case using ab st i(9) by auto
    next case 10 then show ?case using ab st k1 k2 i(10) by auto
    next case 11 then show ?case using ab st k1 k2 i(11) by auto
    next case 12 then show ?case using ab st j(11) by auto
    next case 13 then show ?case using ab st k1 k2 i(13) by auto
    next case 14 then show ?case using ab st k1 k2 i(14) by auto
    next case 15 show ?case using ab st k1 k2 i(15) by auto
  qed
qed

lemma pair_next_peer:
  assumes I: "pair_inv s a b" and J: "pair_inv s b a" and ab: "a \<noteq> b" "b \<noteq> a" and st: "stage_of s a = Notified" "iteration s a \<le> barrier_word s a"
  shows "pair_inv (after_next a s) b a"
proof -
  note i = pair_invD[OF I] and j = pair_invD[OF J]
  have k1: "iteration s a \<le> iteration s b" using st i(4) by simp
  have k2: "iteration s a = iteration s b \<Longrightarrow> stage_of s b = Notified" using st i(4,5) by auto
  show ?thesis unfolding after_defs
  proof (rule pair_invI, goal_cases)
    case 1 show ?case using ab st k1 k2 j(1) by auto
    next case 2 then show ?case using j(1) ab by simp
    next case 3 show ?case using ab st k1 k2 j(3) by auto
    next case 4 show ?case using ab st k1 k2 j(4) by auto
    next case 5 then show ?case using j(4) ab by simp
    next case (6 y e) then have n: "(a, y, e) \<in> notices s" by simp show ?case using ab st k1 j(1) j(3) j(6)[OF n] by auto
    next case (7 x q e') then have n: "(x, q, e') \<in> arrivals s b" by simp show ?case using ab st k1 k2 j(7)[OF n] by (auto split: if_splits)
    next case 8 show ?case using ab st k1 k2 j(8) by auto
    next case 9 then show ?case using ab st k1 j(1) j(2) j(9) by auto
    next case 10 then show ?case using ab st k1 j(1) j(10) by auto
    next case 11 then show ?case using ab st k1 k2 j(11) by auto
    next case 12 then show ?case using ab j(1) by simp
    next case 13 then show ?case using ab st k1 k2 j(13) by auto
    next case 14 then show ?case using ab st k1 k2 j(14) by auto
    next case 15 show ?case using ab st k1 k2 j(15) by auto
  qed
qed

section \<open>The states reached\<close>

lemma two_nodes: "a \<in> {0..<2::int} \<longleftrightarrow> a = 0 \<or> a = 1"
  by auto

lemma share_one: "q \<in> {0..<1::int} \<longleftrightarrow> q = 0" "{0..<1::int} = {0}"
  by auto

lemma peers_two:
  assumes "a \<in> {0..<2::int}"
  shows "peers_of 2 a = {1 - a}"
proof -
  have "a = 0 \<or> a = 1" using assms two_nodes by simp
  then show ?thesis unfolding peers_of_def by auto
qed

definition two_inv :: "iter_state \<Rightarrow> bool" where
  "two_inv s \<longleftrightarrow> (\<forall>a\<in>{0, 1}. pair_inv s a (1 - a)) \<and> (\<forall>a b e. (a, b, e) \<in> notices s \<longrightarrow> a \<in> {0, 1}) \<and> wiped s = {}"

lemma two_invI:
  assumes "pair_inv s a (1 - a)" "pair_inv s (1 - a) a" "a \<in> {0..<2}" "\<And>x b e. (x, b, e) \<in> notices s \<Longrightarrow> x \<in> {0, 1}" "wiped s = {}"
  shows "two_inv s"
proof -
  have "a = 0 \<or> a = 1" using assms(3) two_nodes by simp
  then show ?thesis using assms unfolding two_inv_def by auto
qed

lemma two_invD:
  assumes "two_inv s" "a \<in> {0..<2}"
  shows "pair_inv s a (1 - a)" "pair_inv s (1 - a) a" "a \<noteq> 1 - a" "1 - a \<noteq> a"
proof -
  have "a = 0 \<or> a = 1" using assms(2) two_nodes by simp
  then show "pair_inv s a (1 - a)" "pair_inv s (1 - a) a" "a \<noteq> 1 - a" "1 - a \<noteq> a"
    using assms(1) unfolding two_inv_def by auto
qed

lemma two_inv_rest:
  assumes "two_inv s"
  shows "wiped s = {}" "(x, b, e) \<in> notices s \<Longrightarrow> x \<in> {0, 1}"
  using assms unfolding two_inv_def by blast+

lemma two_inv_init: "two_inv iter_init"
  unfolding two_inv_def pair_inv_def iter_init_def by simp

lemma reset_wipes_none:
  assumes I: "pair_inv s a b" and J: "pair_inv s b a" and st: "stage_of s a = Published"
  shows "wiped (gemm_ar_iter_end_reset_arrival_flags a q s) = wiped s"
proof -
  have "snd (snd w) \<le> iteration s a" if "w \<in> arrivals s a" for w
    using pair_invD(7)[OF I, of "fst w" "fst (snd w)" "snd (snd w)"] that pair_invD(1,2)[OF J] st by fastforce
  then show ?thesis unfolding gemm_ar_iter_end_reset_arrival_flags_def by fastforce
qed

lemma two_inv_step:
  assumes "iter_step 2 1 s s'" and I: "two_inv s"
  shows "two_inv s'"
  using assms(1)
proof cases
  case (send_word a b q)
  then have b: "b = 1 - a" "q = 0" by (simp_all add: peers_two)
  note p = two_invD[OF I send_word(2)] and u = send_word(5)[unfolded b]
  show ?thesis unfolding send_word(1) b
    by (rule two_invI[OF pair_send_own[OF p u] pair_send_peer[OF p u] send_word(2)])
      (use two_inv_rest[OF I] in \<open>simp_all add: after_defs\<close>)
next
  case (publish_all a)
  note p = two_invD[OF I publish_all(2)]
  obtain e where "(1 - a, 0, e) \<in> arrivals s a" using publish_all(2,4) by (simp add: peers_two share_one) blast
  note u = publish_all(3) this
  show ?thesis unfolding publish_all(1)
    by (rule two_invI[OF pair_publish_own[OF p u] pair_publish_peer[OF p u] publish_all(2)])
      (use two_inv_rest[OF I] in \<open>simp_all add: after_defs\<close>)
next
  case (reset_share a q)
  note p = two_invD[OF I reset_share(2)]
  have q: "q = 0" using reset_share(4) by simp
  have "stage_of s a = Published" using reset_share pair_invD(14)[OF p(1)] q by (cases "stage_of s a") auto
  note u = this reset_share(5)[unfolded q]
  show ?thesis unfolding reset_share(1) q
    by (rule two_invI[OF pair_reset_own[OF p u] pair_reset_peer[OF p u] reset_share(2)])
      (use two_inv_rest[OF I] reset_wipes_none[OF p(1,2) u(1)] in \<open>simp_all add: gemm_ar_iter_end_reset_arrival_flags_def\<close>)
next
  case (notify a)
  note p = two_invD[OF I notify(2)] and u = notify(3,4)
  have eq: "after_notify 2 a s = s\<lparr>notices := insert (a, 1 - a, iteration s a) (notices s), stage_of := (stage_of s)(a := Notified)\<rparr>"
    using peers_two[OF notify(2)] unfolding after_notify_def by simp
  have "a \<in> {0, 1}" using notify(2) two_nodes by simp
  then show ?thesis unfolding notify(1) eq
    by - (rule two_invI[OF pair_notify_own[OF p u] pair_notify_peer[OF p u] notify(2)],
        use two_inv_rest[OF I] in \<open>auto\<close>)
next
  case (deliver a b e)
  have a: "a \<in> {0..<2}" using two_inv_rest(2)[OF I deliver(2)] two_nodes by simp
  note p = two_invD[OF I a]
  have b: "b = 1 - a" using pair_invD(6)[OF p(2) deliver(2)] by simp
  note u = deliver(2)[unfolded b]
  show ?thesis unfolding deliver(1) b
    by (rule two_invI[OF pair_deliver_own[OF p u] pair_deliver_peer[OF p u] a])
      (use two_inv_rest[OF I] in \<open>auto simp: after_defs\<close>)
next
  case (next_iter a)
  note p = two_invD[OF I next_iter(2)] and u = next_iter(3,6)
  show ?thesis unfolding next_iter(1)
    by (rule two_invI[OF pair_next_own[OF p u] pair_next_peer[OF p u] next_iter(2)])
      (use two_inv_rest[OF I] in \<open>simp_all add: after_defs\<close>)
qed

lemma two_inv_reachable:
  assumes "iter_reachable 2 1 s"
  shows "two_inv s"
  using assms unfolding iter_reachable_def by (induction rule: rtranclp_induct) (auto intro: two_inv_init two_inv_step)

lemma word_of_this_iteration:
  assumes I: "pair_inv s a b" and J: "pair_inv s b a" and st: "stage_of s a = Running" and w: "(x, q, e) \<in> arrivals s a"
  shows "e = iteration s a"
  using pair_invD(7)[OF I w] pair_invD(13)[OF I st] pair_invD(1,2)[OF J] st by fastforce

lemma ready_to_go_on:
  assumes I: "pair_inv s a b" and J: "pair_inv s b a" and N: "notices s = {}" and sv: "(b, 0) \<in> served s a" "(a, 0) \<in> served s b"
    and st: "stage_of s a \<noteq> Published" "stage_of s b \<noteq> Published" and le: "iteration s a \<le> iteration s b"
    and "iteration s a = iteration s b \<Longrightarrow> stage_of s a = Notified \<Longrightarrow> stage_of s b = Notified"
  shows "stage_of s a = Running \<and> (b, 0, iteration s b) \<in> arrivals s a \<or> stage_of s a = Notified \<and> iteration s a \<le> barrier_word s a"
proof (cases "stage_of s a")
  case Running
  moreover have "iteration s b = iteration s a" using pair_invD(1,2)[OF J] Running le by fastforce
  ultimately show ?thesis using pair_invD(10)[OF J] sv by simp
next
  case Notified
  show ?thesis
  proof (cases "iteration s b = iteration s a")
    case True
    then have "stage_of s b = Notified" using assms(9) Notified by simp
    then show ?thesis using pair_invD(11)[OF I] N Notified True by simp
  next
    case False
    then have "iteration s b = iteration s a + 1" using le pair_invD(1)[OF J] by simp
    then show ?thesis using pair_invD(12)[OF J] N Notified by simp
  qed
qed (use st in simp)

lemma go_on_step:
  assumes a: "a \<in> {0..<2}" and I: "two_inv s" and sv: "served s a = {(1 - a, 0)}"
    and go: "stage_of s a = Running \<and> (1 - a, 0, e) \<in> arrivals s a \<or> stage_of s a = Notified \<and> iteration s a \<le> barrier_word s a"
  shows "\<exists>s'. iter_step 2 1 s s'"
  using go
proof
  assume "stage_of s a = Running \<and> (1 - a, 0, e) \<in> arrivals s a"
  then have "iter_step 2 1 s (after_publish a s)" using a by (intro iter_step.publish_all) (auto simp: peers_two share_one)
  then show ?thesis by blast
next
  assume n: "stage_of s a = Notified \<and> iteration s a \<le> barrier_word s a"
  have "0 \<in> reset_by s a" using pair_invD(14)[OF two_invD(1)[OF I a]] n by simp
  then have "reset_by s a = {0..<1}" using pair_invD(15)[OF two_invD(1)[OF I a]] unfolding share_one(2) by blast
  then have "iter_step 2 1 s (after_next a s)" using a n sv by (intro iter_step.next_iter) (auto simp: peers_two share_one)
  then show ?thesis by blast
qed

lemma published_step:
  assumes a: "a \<in> {0..<2}" and "stage_of s a = Published"
  shows "\<exists>s'. iter_step 2 1 s s'"
proof (cases "0 \<in> reset_by s a")
  case True
  then show ?thesis using iter_step.notify[of a 2 s 1] assms by blast
next
  case False
  then show ?thesis using iter_step.reset_share[of a 2 s 0 1] assms by auto
qed

lemma two_nodes_step:
  assumes I: "two_inv s"
  shows "\<exists>s'. iter_step 2 1 s s'"
proof (rule ccontr)
  assume stuck: "\<not> (\<exists>s'. iter_step 2 1 s s')"
  have N: "notices s = {}" using stuck iter_step.deliver[of _ _ _ s 2 1] by (metis all_not_in_conv prod_cases3)
  have sv: "served s a = {(1 - a, 0)}" if "a \<in> {0..<2}" for a
    using stuck iter_step.send_word[of a 2 "1 - a" 0 1 s] that pair_invD(8)[OF two_invD(1)[OF I that]] by (auto simp: peers_two)
  have st: "stage_of s a \<noteq> Published" if "a \<in> {0..<2}" for a using stuck published_step that by blast
  obtain a :: int where a: "a \<in> {0..<2}" "iteration s a \<le> iteration s (1 - a)"
    "iteration s a = iteration s (1 - a) \<Longrightarrow> stage_of s a = Notified \<Longrightarrow> stage_of s (1 - a) = Notified"
  proof (cases "iteration s 0 < iteration s 1 \<or> iteration s 0 = iteration s 1 \<and> (stage_of s 0 = Running \<or> stage_of s 1 = Notified)")
    case True
    then show ?thesis by (intro that[of 0]) auto
  next
    case False
    then show ?thesis using st[of 1] by (intro that[of 1]; cases "stage_of s 1") auto
  qed
  then have b: "1 - a \<in> {0..<2}" by auto
  note p = two_invD[OF I a(1)]
  have sv': "(1 - a, 0) \<in> served s a" "(a, 0) \<in> served s (1 - a)" using sv[OF a(1)] sv[OF b] by simp_all
  have "stage_of s a = Running \<and> (1 - a, 0, iteration s (1 - a)) \<in> arrivals s a \<or> stage_of s a = Notified \<and> iteration s a \<le> barrier_word s a"
    by (rule ready_to_go_on[OF p(1,2) N sv' st[OF a(1)] st[OF b] a(2,3)])
  then show False using go_on_step[OF a(1) I sv[OF a(1)]] stuck by blast
qed

section \<open>Running a schedule\<close>

text \<open>A schedule names the step to take; \<open>None\<close> when its guard does not hold.\<close>

datatype iter_act = Send int int int | Publish int | Reset int int | Notify int | Deliver int int int | Next int

fun iter_next :: "int \<Rightarrow> int \<Rightarrow> iter_act \<Rightarrow> iter_state \<Rightarrow> iter_state option" where
  "iter_next n r (Send a b q) s = (if a \<in> {0..<n} \<and> b \<in> peers_of n a \<and> q \<in> {0..<r} \<and> (b, q) \<notin> served s a then Some (after_send a b q s) else None)"
| "iter_next n r (Publish a) s = (if a \<in> {0..<n} \<and> stage_of s a = Running
     \<and> peers_of n a \<times> {0..<r} \<subseteq> (\<lambda>w. (fst w, fst (snd w))) ` arrivals s a then Some (after_publish a s) else None)"
| "iter_next n r (Reset a q) s = (if a \<in> {0..<n} \<and> stage_of s a \<noteq> Running \<and> q \<in> {0..<r} \<and> q \<notin> reset_by s a
     then Some (gemm_ar_iter_end_reset_arrival_flags a q s) else None)"
| "iter_next n r (Notify a) s = (if a \<in> {0..<n} \<and> stage_of s a = Published \<and> 0 \<in> reset_by s a then Some (after_notify n a s) else None)"
| "iter_next n r (Deliver a b e) s = (if (a, b, e) \<in> notices s then Some (after_deliver a b e s) else None)"
| "iter_next n r (Next a) s = (if a \<in> {0..<n} \<and> stage_of s a = Notified \<and> reset_by s a = {0..<r} \<and> served s a = peers_of n a \<times> {0..<r}
     \<and> iteration s a \<le> barrier_word s a then Some (after_next a s) else None)"

fun iter_run :: "int \<Rightarrow> int \<Rightarrow> iter_act list \<Rightarrow> iter_state \<Rightarrow> iter_state option" where
  "iter_run n r [] s = Some s"
| "iter_run n r (x # xs) s = (case iter_next n r x s of None \<Rightarrow> None | Some s' \<Rightarrow> iter_run n r xs s')"

lemma iter_next_step:
  assumes "iter_next n r x s = Some s'"
  shows "iter_step n r s s'"
proof (cases x)
  case (Publish a)
  have "\<exists>e. (b, q, e) \<in> arrivals s a" if "b \<in> peers_of n a" "q \<in> {0..<r}" for b q
  proof -
    have "(b, q) \<in> (\<lambda>w. (fst w, fst (snd w))) ` arrivals s a" using assms that Publish by (auto split: if_splits)
    then show ?thesis by force
  qed
  then show ?thesis using assms Publish by (auto split: if_splits intro!: iter_step.publish_all)
qed (use assms in \<open>auto split: if_splits intro!: iter_step.intros\<close>)

lemma iter_run_reachable:
  assumes "iter_run n r xs s = Some s'" "iter_reachable n r s"
  shows "iter_reachable n r s'"
  using assms
proof (induction xs arbitrary: s)
  case (Cons x xs)
  obtain t where "iter_next n r x s = Some t" "iter_run n r xs t = Some s'" using Cons.prems(1) by (auto split: option.splits)
  then show ?case using Cons.IH Cons.prems(2) iter_next_step unfolding iter_reachable_def by (meson rtranclp.rtrancl_into_rtrancl)
qed simp

lemma init_reachable: "iter_reachable n r iter_init"
  unfolding iter_reachable_def by simp

definition two_cta_schedule :: "iter_act list" where
  "two_cta_schedule = [Send 0 1 0, Send 0 1 1, Send 1 0 0, Send 1 0 1, Publish 0, Publish 1, Reset 0 0, Notify 0, Reset 1 0, Reset 1 1,
     Notify 1, Deliver 0 1 1, Next 1, Send 1 0 1, Reset 0 1]"

definition three_node_schedule :: "iter_act list" where
  "three_node_schedule = [Send 0 1 0, Send 0 2 0, Send 1 0 0, Send 1 2 0, Send 2 0 0, Send 2 1 0, Publish 0, Publish 1, Publish 2, Reset 0 0, Notify 0,
     Reset 1 0, Notify 1, Deliver 1 0 1, Next 0, Send 0 2 0, Reset 2 0]"

lemma two_ctas_lose_a_word: "map_option wiped (iter_run 2 2 two_cta_schedule iter_init) = Some {(0, 1, 1, 2)}"
  by code_simp

lemma three_nodes_lose_a_word: "map_option wiped (iter_run 3 1 three_node_schedule iter_init) = Some {(2, 0, 0, 2)}"
  by code_simp

section \<open>Properties\<close>

text \<open>
  C11 (safety): with two nodes whose reduce block is one CTA, in every state that any order of the
  steps reaches, no clearing has removed a word of the next iteration, and every word that a node
  finds before it has published all chunks is of its own iteration, so that it never takes data of
  another iteration for those it waits for.
\<close>

theorem iterations_separated:
  assumes "iter_reachable 2 1 s"
  shows "wiped s = {} \<and> (\<forall>a b q e. a \<in> {0, 1} \<longrightarrow> stage_of s a = Running \<longrightarrow> (b, q, e) \<in> arrivals s a \<longrightarrow> e = iteration s a)"
proof -
  note I = two_inv_reachable[OF assms]
  have "e = iteration s a" if "a \<in> {0, 1}" "stage_of s a = Running" "(b, q, e) \<in> arrivals s a" for a b q e
    using word_of_this_iteration[OF two_invD(1,2)[OF I] that(2,3)] that(1) two_nodes by simp
  then show ?thesis using two_inv_rest(1)[OF I] by blast
qed

text \<open>A full iteration of both nodes and the first word of the next.\<close>

definition iter_demo_schedule :: "iter_act list" where
  "iter_demo_schedule = [Send 0 1 0, Send 1 0 0, Publish 0, Reset 0 0, Notify 0, Publish 1, Reset 1 0, Notify 1, Deliver 0 1 1, Next 1, Send 1 0 0,
     Deliver 1 0 1, Next 0]"

lemma iter_demo_runs: "iter_run 2 1 iter_demo_schedule iter_init \<noteq> None"
  by code_simp

lemma iter_demo_reachable: "iter_reachable 2 1 (the (iter_run 2 1 iter_demo_schedule iter_init))"
  using iter_demo_runs iter_run_reachable[OF _ init_reachable] by (metis option.collapse)

lemma iter_demo_state: "iteration (the (iter_run 2 1 iter_demo_schedule iter_init)) 0 = 2" "arrivals (the (iter_run 2 1 iter_demo_schedule iter_init)) 0 = {(1, 0, 2)}"
  by code_simp+

theorem iterations_separated_witness:
  "wiped (the (iter_run 2 1 iter_demo_schedule iter_init)) = {} \<and> iteration (the (iter_run 2 1 iter_demo_schedule iter_init)) 0 = 2
     \<and> arrivals (the (iter_run 2 1 iter_demo_schedule iter_init)) 0 = {(1, 0, 2)}"
  using iterations_separated[OF iter_demo_reachable, THEN conjunct1] iter_demo_state by blast

text \<open>
  C26 (liveness): two nodes with one reduce CTA each never block: in every reachable state some
  step can be taken, so that neither waits for ever for a word or for the barrier of the other.
\<close>

theorem iterations_go_on:
  assumes "iter_reachable 2 1 s"
  shows "\<exists>s'. iter_step 2 1 s s'"
  by (rule two_nodes_step[OF two_inv_reachable[OF assms]])

theorem iterations_go_on_witness: "\<exists>s'. iter_step 2 1 (the (iter_run 2 1 iter_demo_schedule iter_init)) s'"
  by (rule iterations_go_on[OF iter_demo_reachable])

text \<open>
  With two reduce CTAs the first one may notify before the second has cleared its share, and with
  three nodes the notice of one peer lets a node go on while another is not done: both lose a word.
\<close>

lemma reset_races_with_notice: "\<exists>s. iter_reachable 2 2 s \<and> wiped s \<noteq> {}"
proof -
  obtain s where "iter_run 2 2 two_cta_schedule iter_init = Some s" "wiped s = {(0, 1, 1, 2)}" using two_ctas_lose_a_word by auto
  then show ?thesis using iter_run_reachable[OF _ init_reachable] by blast
qed

lemma one_barrier_word_for_all_peers: "\<exists>s. iter_reachable 3 1 s \<and> wiped s \<noteq> {}"
proof -
  obtain s where "iter_run 3 1 three_node_schedule iter_init = Some s" "wiped s = {(2, 0, 0, 2)}" using three_nodes_lose_a_word by auto
  then show ?thesis using iter_run_reachable[OF _ init_reachable] by blast
qed

end
