(* ===== verification/Ag_Gemm_Plan.thy ===== *)
theory Ag_Gemm_Plan
  imports Tile_Schedule D2H_Fifo Gemm_AR_Send
begin

text \<open>
  The all-gather + GEMM operator (\<open>src/include/operators/ag_gemm/ag_gemm.cuh\<close>, \<open>src/src/ag_gemm.cu\<close>):
  the entry point, the transfer commands that carry the rows of a node around the ring of nodes, and
  the order in which the compute blocks visit the tiles. Environment variables are arguments: what
  \<open>atoi\<close> reads, or the string. The FIFO bundle the entry point resolves and the number of tiles that
  fit the shared memory are arguments too. Tensor checks other than the sizes are left out, and so are
  the barrier waits, the tensor memory copies and the matrix products: the order of the ring steps on
  the receiving side is not modelled here. Sizes are mathematical integers; \<open>ag_ok\<close> and the bound in
  the property below keep each product of the code inside 32 bits, and the values the code converts
  (byte offsets, flags, lanes) are words.
\<close>

definition CHUNK_BYTES :: int where [tile_simps]: "CHUNK_BYTES = 64 * 1024"
definition SUPER_M :: int where [tile_simps]: "SUPER_M = 12"
definition RED_BLOCK :: int where [tile_simps]: "RED_BLOCK = 64"

text \<open>
  The members of \<open>globals\<close> that the protocol uses; \<open>m_node\<close>, \<open>k_cols\<close>, \<open>n_cols\<close> are the sizes of the
  tensors \<open>A\<close> and \<open>B\<close>, \<open>comm_chunks\<close> is the number of tiles that fit the shared memory.
\<close>

record ag_globals =
  m_node :: int
  k_cols :: int
  n_cols :: int
  ag_fifos :: "nat D2HFifoDeviceBundle"
  ag_total_chunks :: int
  a_half_bytes :: int
  ag_dev_idx :: int
  ag_node_idx :: int
  ag_num_nodes :: int
  ring_recv_banks :: int
  comm_chunks :: int
  debug_skip_remote_compute :: bool
  debug_skip_phase1 :: bool
  debug_skip_phase1_gate :: bool
  debug_skip_phase2 :: bool
  debug_skip_compute :: bool
  ring_proxy_forward :: bool
  remote_ready_per_col :: bool
  num_intra_comm :: int
  ag_num_comp_sms :: int

section \<open>The entry point\<close>

record ag_env =
  env_adaptive_cap :: "int option"
  env_adaptive :: "int option"
  env_skip_compute :: "string option"
  env_skip_remote_compute :: "string option"
  env_skip_phase1 :: "string option"
  env_skip_phase1_gate :: "string option"
  env_skip_phase2 :: "string option"
  env_ring_proxy_forward :: "string option"
  env_remote_ready_per_col :: "string option"

definition flag_set :: "string option \<Rightarrow> bool" where
  "flag_set = env_starts (\<lambda>c. c = CHR ''1'')"

definition adaptive_comm_sms :: "ag_env \<Rightarrow> int \<Rightarrow> int \<Rightarrow> int" where
  "adaptive_comm_sms env M num_comm_sms = (let
     cap = (case env_adaptive_cap env of Some v \<Rightarrow> max 1 v | None \<Rightarrow> 16)
   in if env_adaptive env \<noteq> Some 0
      then if M \<ge> 32768 then min num_comm_sms cap
           else if M \<ge> 16384 then min num_comm_sms 32
           else if M \<le> 4096 then min num_comm_sms 8
           else if M \<le> 8192 then min num_comm_sms 32
           else num_comm_sms
      else num_comm_sms)"

definition ag_check_shapes :: "int \<Rightarrow> int \<Rightarrow> int \<Rightarrow> int \<Rightarrow> int \<Rightarrow> int \<Rightarrow> string + unit" where
  "ag_check_shapes nodes M_node K N C_rows C_cols = (let M = M_node * nodes in
     if c_mod M ROW_BLOCK \<noteq> 0 then Inl ''M''
     else if c_mod K RED_BLOCK \<noteq> 0 then Inl ''K''
     else if c_mod N COL_BLOCK \<noteq> 0 then Inl ''N''
     else if \<not> (C_rows = M \<and> C_cols = N) then Inl ''C''
     else if \<not> M_node \<ge> NUM_DEVICES * ROW_BLOCK * 2 then Inl ''M_node must be >= ''
     else if c_mod M_node (NUM_DEVICES * ROW_BLOCK * 2) \<noteq> 0 then Inl ''M_node must be a multiple of ''
     else Inr ())"

definition ag_entrypoint ::
    "ag_env \<Rightarrow> int \<Rightarrow> nat D2HFifoDeviceBundle \<Rightarrow> int \<Rightarrow> int \<Rightarrow> int \<Rightarrow> int \<Rightarrow> int \<Rightarrow> int \<Rightarrow> int \<Rightarrow> int \<Rightarrow> int \<Rightarrow> int \<Rightarrow> int \<Rightarrow> int
      \<Rightarrow> string + ag_globals" where
  "ag_entrypoint env smem_tiles bundle local_rank node nodes M_node K N C_rows C_cols num_comm_sms half_bytes active_sms
       num_intra_comm_override =
     and_then (ag_check_shapes nodes M_node K N C_rows C_cols) (\<lambda>_. let
       chunks = c_div (half_bytes + CHUNK_BYTES - 1) CHUNK_BYTES;
       intra = (if num_intra_comm_override > 0 then num_intra_comm_override
         else max 4 (c_div (adaptive_comm_sms env (M_node * nodes) num_comm_sms) 2));
       comp = active_sms - intra
     in if \<not> (comp > 0 \<or> flag_set (env_skip_compute env)) then Inl ''num_comp_sms must be > 0, got ''
        else Inr \<lparr>m_node = M_node, k_cols = K, n_cols = N, ag_fifos = bundle, ag_total_chunks = chunks, a_half_bytes = half_bytes,
          ag_dev_idx = local_rank, ag_node_idx = node, ag_num_nodes = nodes, ring_recv_banks = max 1 (nodes - 1),
          comm_chunks = smem_tiles,
          debug_skip_remote_compute = flag_set (env_skip_remote_compute env), debug_skip_phase1 = flag_set (env_skip_phase1 env),
          debug_skip_phase1_gate = flag_set (env_skip_phase1_gate env), debug_skip_phase2 = flag_set (env_skip_phase2 env),
          debug_skip_compute = flag_set (env_skip_compute env), ring_proxy_forward = flag_set (env_ring_proxy_forward env),
          remote_ready_per_col = flag_set (env_remote_ready_per_col env), num_intra_comm = intra, ag_num_comp_sms = comp\<rparr>)"

section \<open>Geometry\<close>

definition global_row_blocks :: "ag_globals \<Rightarrow> int" where
  "global_row_blocks G = c_div (m_node G) (ROW_BLOCK * 2)"

definition local_row_blocks :: "ag_globals \<Rightarrow> int" where
  "local_row_blocks G = c_div (global_row_blocks G) NUM_DEVICES"

definition intra_col_blocks :: "ag_globals \<Rightarrow> int" where
  "intra_col_blocks G = c_div (k_cols G) (RED_BLOCK * 2)"

definition chunks_per_inter_rb :: "ag_globals \<Rightarrow> int" where
  "chunks_per_inter_rb G = max 1 (c_div (ROW_BLOCK * k_cols G * 2) CHUNK_BYTES)"

text \<open>\<open>while (origin < 0) origin += num_nodes;\<close> needs a positive number of nodes to end.\<close>

function wrap_up :: "int \<Rightarrow> int \<Rightarrow> int" where
  "wrap_up nodes origin = (if origin < 0 \<and> 0 < nodes then wrap_up nodes (origin + nodes) else origin)"
  by auto
termination by (relation "measure (\<lambda>(nodes, origin). nat (- origin))") auto

declare wrap_up.simps [simp del]

definition ag_gemm_ring_origin_for_step :: "int \<Rightarrow> int \<Rightarrow> int \<Rightarrow> int" where
  "ag_gemm_ring_origin_for_step node nodes step = wrap_up nodes (node - 1 - step)"

lemma wrap_up_mod: "0 < nodes \<Longrightarrow> origin < nodes \<Longrightarrow> wrap_up nodes origin = origin mod nodes"
  by (induction nodes origin rule: wrap_up.induct) (subst wrap_up.simps, auto)

section \<open>Transfer commands\<close>

definition ag1_compute_wr_split :: "int \<Rightarrow> int \<Rightarrow> int" where
  "ag1_compute_wr_split rb_bytes ceiling = (let s = c_div rb_bytes (2 * 1024 * 1024); s = (if s < 1 then 1 else s)
     in if s > ceiling then ceiling else s)"

definition WR_SPLIT_CEILING :: int where [tile_simps]: "WR_SPLIT_CEILING = 1"

text \<open>Where the bytes of a row block lie in the shard: offsets are 64-bit, the count is cut to 32 bits.\<close>

definition rb_base_offset :: "ag_globals \<Rightarrow> int \<Rightarrow> int \<Rightarrow> u64" where
  "rb_base_offset G cprb rb = word_of_int (rb * cprb) * word_of_int CHUNK_BYTES"

definition rb_end_offset :: "ag_globals \<Rightarrow> int \<Rightarrow> int \<Rightarrow> u64" where
  "rb_end_offset G cprb rb = (let
     last_chunk = min (rb * cprb + cprb) (ag_total_chunks G);
     last_chunk_bytes = word_of_int last_chunk * word_of_int CHUNK_BYTES :: u64
   in if last_chunk_bytes > word_of_int (a_half_bytes G) then word_of_int (a_half_bytes G) else last_chunk_bytes)"

definition rb_bytes :: "ag_globals \<Rightarrow> int \<Rightarrow> int \<Rightarrow> u32" where
  "rb_bytes G cprb rb = ucast (rb_end_offset G cprb rb - rb_base_offset G cprb rb)"

definition wr_split :: "ag_globals \<Rightarrow> int \<Rightarrow> int \<Rightarrow> int" where
  "wr_split G cprb rb = (let s = ag1_compute_wr_split (sint (rb_bytes G cprb rb)) WR_SPLIT_CEILING
     in if cprb < s \<or> c_mod cprb s \<noteq> 0 then 1 else s)"

text \<open>The base and the size of part \<open>sw\<close> of a row block sent in \<open>sp\<close> parts.\<close>

definition sub_first_chunk :: "int \<Rightarrow> int \<Rightarrow> int \<Rightarrow> int \<Rightarrow> int" where
  "sub_first_chunk cprb rb sp sw = rb * cprb + sw * c_div cprb sp"

definition sub_base :: "int \<Rightarrow> int \<Rightarrow> int \<Rightarrow> int \<Rightarrow> u64" where
  "sub_base cprb rb sp sw = word_of_int (sub_first_chunk cprb rb sp sw) * word_of_int CHUNK_BYTES"

definition sub_bytes :: "ag_globals \<Rightarrow> int \<Rightarrow> int \<Rightarrow> int \<Rightarrow> int \<Rightarrow> u32" where
  "sub_bytes G cprb rb sp sw = (let
     bytes_per_sub = word_of_int (c_div cprb sp * CHUNK_BYTES) :: u32;
     e = sub_base cprb rb sp sw + ucast bytes_per_sub;
     e' = (if sw = sp - 1 \<and> e > rb_end_offset G cprb rb then rb_end_offset G cprb rb else e)
   in ucast (e' - sub_base cprb rb sp sw))"

text \<open>A command goes to the ring of its lane.\<close>

definition on_ring :: "ag_globals \<Rightarrow> TransferCmd \<Rightarrow> nat \<times> TransferCmd" where
  "on_ring G cmd = (select_fifo_index (ag_fifos G) (ucast (lane_id cmd)), cmd)"

definition merge_cmd :: "ag_globals \<Rightarrow> int \<Rightarrow> u32 \<Rightarrow> u64 \<Rightarrow> int \<Rightarrow> TransferCmd" where
  "merge_cmd G first n base lane = (let
     peer_rank = peer_rank_for_slot (ag_node_idx G) (ag_num_nodes G) 0;
     sap = slot_at_peer (ag_node_idx G) peer_rank (ag_num_nodes G)
   in zero_cmd\<lparr>cmd_type := WRITE, dst_rank := word_of_int peer_rank,
        tile_id := word_of_int (sap * ag_total_chunks G + first), bytes := n, local_offset := base,
        remote_offset := word_of_int sap * word_of_int (a_half_bytes G) + base, src_view := 1,
        lane_id := word_of_int lane, reserved0 := word_of_int (0 * NUM_DEVICES + ag_dev_idx G)\<rparr>)"

definition post_merge_wrs_for_intra_row :: "ag_globals \<Rightarrow> int \<Rightarrow> int \<Rightarrow> (nat \<times> TransferCmd) list" where
  "post_merge_wrs_for_intra_row G global_row_idx cprb = concat (map (\<lambda>sub. let
     rb = 2 * global_row_idx + sub; sp = wr_split G cprb rb
   in if sp = 1 then [on_ring G (merge_cmd G (rb * cprb) (rb_bytes G cprb rb) (rb_base_offset G cprb rb) rb)]
      else map (\<lambda>sw. on_ring G (merge_cmd G (sub_first_chunk cprb rb sp sw) (sub_bytes G cprb rb sp sw) (sub_base cprb rb sp sw)
        (rb * sp + sw))) [0..sp - 1]) [0, 1])"

definition forward_cmd :: "ag_globals \<Rightarrow> int \<Rightarrow> int \<Rightarrow> int \<Rightarrow> int \<Rightarrow> u32 \<Rightarrow> u64 \<Rightarrow> int \<Rightarrow> TransferCmd" where
  "forward_cmd G source_slot origin_rank dst_bank first n base lane = (let
     next_rank = peer_rank_for_slot (ag_node_idx G) (ag_num_nodes G) 0;
     dst_slot = slot_at_peer origin_rank next_rank (ag_num_nodes G);
     dst_virtual = dst_slot + (ag_num_nodes G - 1) * dst_bank
   in zero_cmd\<lparr>cmd_type := WRITE, dst_rank := word_of_int next_rank,
        tile_id := word_of_int (dst_virtual * ag_total_chunks G + first), bytes := n,
        local_offset := word_of_int source_slot * word_of_int (a_half_bytes G) + base,
        remote_offset := word_of_int dst_virtual * word_of_int (a_half_bytes G) + base, src_view := 0,
        lane_id := word_of_int lane, reserved0 := word_of_int (0 * NUM_DEVICES + ag_dev_idx G)\<rparr>)"

definition post_ring_forward_wrs_for_intra_row ::
    "ag_globals \<Rightarrow> int \<Rightarrow> int \<Rightarrow> int \<Rightarrow> int \<Rightarrow> int \<Rightarrow> (nat \<times> TransferCmd) list" where
  "post_ring_forward_wrs_for_intra_row G source_slot origin_rank global_row_idx cprb dst_bank = concat (map (\<lambda>sub. let
     rb = 2 * global_row_idx + sub; sp = wr_split G cprb rb
   in map (\<lambda>sw. on_ring G (forward_cmd G source_slot origin_rank dst_bank (sub_first_chunk cprb rb sp sw)
        (sub_bytes G cprb rb sp sw) (sub_base cprb rb sp sw) (rb * sp + sw))) [0..sp - 1]) [0, 1])"

definition phase0_post_wrs :: "ag_globals \<Rightarrow> int \<Rightarrow> (nat \<times> TransferCmd) list" where
  "phase0_post_wrs G comm_sm_id = concat (map (\<lambda>lr.
     post_merge_wrs_for_intra_row G (lr + ag_dev_idx G * local_row_blocks G) (chunks_per_inter_rb G))
     (strided comm_sm_id (num_intra_comm G) (local_row_blocks G)))"

section \<open>Shapes in range\<close>

text \<open>
  The shapes for which the offsets are exact: those of the checks of the entry point, and a number of
  columns that is a multiple of 256, so that a row block is a whole number of chunks.
\<close>

definition ag_ok :: "ag_globals \<Rightarrow> bool" where
  "ag_ok G \<longleftrightarrow> 2 \<le> ag_num_nodes G \<and> ag_num_nodes G \<le> kMaxPeers + 1 \<and> 0 \<le> ag_node_idx G \<and> ag_node_idx G < ag_num_nodes G
     \<and> 0 \<le> ag_dev_idx G \<and> ag_dev_idx G < NUM_DEVICES \<and> 0 < m_node G \<and> 2048 dvd m_node G \<and> 0 < k_cols G \<and> 256 dvd k_cols G
     \<and> k_cols G < 2 ^ 23 \<and> a_half_bytes G = m_node G * k_cols G * 2
     \<and> ag_total_chunks G = c_div (a_half_bytes G + CHUNK_BYTES - 1) CHUNK_BYTES
     \<and> (ag_num_nodes G - 1) * (ag_num_nodes G - 1) * ag_total_chunks G < 2 ^ 31 \<and> 0 < num_intra_comm G \<and> 0 < comm_chunks G"

abbreviation cprb :: "ag_globals \<Rightarrow> int" where "cprb \<equiv> chunks_per_inter_rb"

definition inter_rbs :: "ag_globals \<Rightarrow> int" where
  "inter_rbs G = 2 * global_row_blocks G"

text \<open>An entry that passes the checks gives such a record, when the columns and the counts are in range.\<close>

lemma ag_entrypoint_ok:
  assumes E: "ag_entrypoint env tiles bundle rank node nodes M_node K N C_rows C_cols sms (M_node * K * 2) act ovr = Inr G"
    and r: "0 \<le> rank" "rank < NUM_DEVICES" "2 \<le> nodes" "nodes \<le> kMaxPeers + 1" "0 \<le> node" "node < nodes" "0 < tiles"
    and k: "0 < K" "256 dvd K" "K < 2 ^ 23"
    and c: "(nodes - 1) * (nodes - 1) * c_div (M_node * K * 2 + CHUNK_BYTES - 1) CHUNK_BYTES < 2 ^ 31"
  shows "ag_ok G"
proof -
  obtain u where u: "ag_check_shapes nodes M_node K N C_rows C_cols = Inr u"
    using E by (cases "ag_check_shapes nodes M_node K N C_rows C_cols") (auto simp: ag_entrypoint_def)
  then have m: "2048 \<le> M_node" "c_mod M_node 2048 = 0"
    by (auto simp: ag_check_shapes_def Let_def NUM_DEVICES_def ROW_BLOCK_def split: if_splits)
  then have "0 < M_node" "2048 dvd M_node" by (auto simp: c_mod_nonneg)
  then show ?thesis using E r k c
    by (auto simp: ag_entrypoint_def u Let_def ag_ok_def split: if_splits)
qed

lemma ag_okD:
  assumes "ag_ok G"
  shows "2 \<le> ag_num_nodes G" "ag_num_nodes G \<le> 17" "0 \<le> ag_node_idx G" "ag_node_idx G < ag_num_nodes G" "0 \<le> ag_dev_idx G"
    "ag_dev_idx G < 8" "0 < num_intra_comm G" "0 < comm_chunks G"
    "(ag_num_nodes G - 1) * (ag_num_nodes G - 1) * ag_total_chunks G < 2 ^ 31"
  using assms unfolding ag_ok_def kMaxPeers_def NUM_DEVICES_def by auto

lemma ag_geometry:
  assumes "ag_ok G"
  shows "0 < cprb G" "k_cols G = 256 * cprb G" "cprb G < 2 ^ 15" "0 < local_row_blocks G" "global_row_blocks G = 8 * local_row_blocks G"
    "m_node G = 256 * global_row_blocks G" "ag_total_chunks G = inter_rbs G * cprb G" "a_half_bytes G = ag_total_chunks G * CHUNK_BYTES"
    "intra_col_blocks G = 2 * cprb G"
proof -
  obtain k where k: "k_cols G = 256 * k" using assms unfolding ag_ok_def by (auto elim: dvdE)
  obtain l where l: "m_node G = 2048 * l" using assms unfolding ag_ok_def by (auto elim: dvdE)
  have pos: "0 < k" "0 < l" "k < 2 ^ 15" using assms k l unfolding ag_ok_def by auto
  have c: "cprb G = k" using pos by (simp add: chunks_per_inter_rb_def tile_simps k)
  have r: "global_row_blocks G = 8 * l" "local_row_blocks G = l"
    using pos by (simp_all add: global_row_blocks_def local_row_blocks_def tile_simps l)
  have h: "a_half_bytes G = 16 * l * k * 65536" using assms k l unfolding ag_ok_def by simp
  have t: "ag_total_chunks G = 16 * l * k" using assms pos unfolding ag_ok_def h by (simp add: CHUNK_BYTES_def)
  show "0 < cprb G" "k_cols G = 256 * cprb G" "cprb G < 2 ^ 15" "0 < local_row_blocks G" "global_row_blocks G = 8 * local_row_blocks G"
    "m_node G = 256 * global_row_blocks G" "ag_total_chunks G = inter_rbs G * cprb G" "a_half_bytes G = ag_total_chunks G * CHUNK_BYTES"
    "intra_col_blocks G = 2 * cprb G"
    using pos by (simp_all add: c r k l t h inter_rbs_def CHUNK_BYTES_def intra_col_blocks_def RED_BLOCK_def)
qed

text \<open>The ceiling of one keeps every row block in one write.\<close>

lemma wr_split_one [simp]: "0 < cprb G \<Longrightarrow> wr_split G (cprb G) rb = 1"
  by (simp add: wr_split_def ag1_compute_wr_split_def WR_SPLIT_CEILING_def Let_def c_mod_def)

abbreviation rb_size :: "ag_globals \<Rightarrow> int" where "rb_size G \<equiv> cprb G * CHUNK_BYTES"

lemma rb_in_shard:
  assumes "ag_ok G" "0 \<le> rb" "rb < inter_rbs G"
  shows "0 \<le> rb * cprb G" "rb * cprb G + cprb G \<le> ag_total_chunks G" "ag_total_chunks G < 2 ^ 31" "0 < ag_total_chunks G"
proof -
  note g = ag_geometry[OF assms(1)] and o = ag_okD[OF assms(1)]
  have "(rb + 1) * cprb G \<le> inter_rbs G * cprb G" using assms g(1) by (intro mult_right_mono) auto
  then show "rb * cprb G + cprb G \<le> ag_total_chunks G" using g(7) by (simp add: algebra_simps)
  moreover show "0 \<le> rb * cprb G" using assms g(1) by simp
  ultimately show "0 < ag_total_chunks G" using g(1) by linarith
  have "1 * ag_total_chunks G \<le> (ag_num_nodes G - 1) * (ag_num_nodes G - 1) * ag_total_chunks G"
  proof (rule mult_right_mono)
    have "1 * 1 \<le> (ag_num_nodes G - 1) * (ag_num_nodes G - 1)" using o(1) by (intro mult_mono) auto
    then show "1 \<le> (ag_num_nodes G - 1) * (ag_num_nodes G - 1)" by simp
  qed (use \<open>0 < ag_total_chunks G\<close> in simp)
  then show "ag_total_chunks G < 2 ^ 31" using o(9) by simp
qed

lemma uint64_of: "0 \<le> x \<Longrightarrow> x < 2 ^ 63 \<Longrightarrow> uint (word_of_int x :: u64) = x"
  by (simp add: word_of_int_inverse)

lemma uint32_of: "0 \<le> x \<Longrightarrow> x < 2 ^ 32 \<Longrightarrow> uint (word_of_int x :: u32) = x"
  by (simp add: word_of_int_inverse)

lemma u64_product: "0 \<le> x \<Longrightarrow> x < 2 ^ 40 \<Longrightarrow> word_of_int x * word_of_int CHUNK_BYTES = (word_of_int (x * CHUNK_BYTES) :: u64)"
  by simp

lemma rb_offsets:
  assumes "ag_ok G" "0 \<le> rb" "rb < inter_rbs G"
  shows "rb_base_offset G (cprb G) rb = word_of_int (rb * rb_size G)" "rb_end_offset G (cprb G) rb = word_of_int ((rb + 1) * rb_size G)"
    "rb_bytes G (cprb G) rb = word_of_int (rb_size G)"
    "sub_first_chunk (cprb G) rb 1 0 = rb * cprb G" "sub_base (cprb G) rb 1 0 = word_of_int (rb * rb_size G)"
    "sub_bytes G (cprb G) rb 1 0 = word_of_int (rb_size G)"
proof -
  note g = ag_geometry[OF assms(1)] and r = rb_in_shard[OF assms]
  have m: "(rb + 1) * rb_size G \<le> a_half_bytes G" "a_half_bytes G < 2 ^ 47" "0 \<le> rb * rb_size G" "0 \<le> (rb + 1) * rb_size G"
    using r g(1,8) assms(2) by (simp_all add: CHUNK_BYTES_def algebra_simps)
  show b: "rb_base_offset G (cprb G) rb = word_of_int (rb * rb_size G)" by (simp add: rb_base_offset_def algebra_simps)
  have "\<not> (word_of_int (a_half_bytes G) < (word_of_int ((rb + 1) * rb_size G) :: u64))"
  proof -
    have "uint (word_of_int ((rb + 1) * rb_size G) :: u64) = (rb + 1) * rb_size G" 
      by (rule uint64_of[OF m(4) le_less_trans[OF m(1) less_trans[OF m(2)]]]) simp
    moreover have "uint (word_of_int (a_half_bytes G) :: u64) = a_half_bytes G"
      by (rule uint64_of[OF order_trans[OF m(4,1)] less_trans[OF m(2)]]) simp
    ultimately show ?thesis unfolding word_less_alt using m(1) by simp
  qed
  then show e: "rb_end_offset G (cprb G) rb = word_of_int ((rb + 1) * rb_size G)"
    using r(2) by (simp add: rb_end_offset_def Let_def algebra_simps min_def)
  have "word_of_int ((rb + 1) * rb_size G) - word_of_int (rb * rb_size G) = (word_of_int (rb_size G) :: u64)"
    by (simp flip: wi_hom_sub add: algebra_simps)
  moreover have s: "0 \<le> rb_size G" "rb_size G < 2 ^ 31" using g(1,3) by (simp_all add: CHUNK_BYTES_def)
  ultimately have d: "ucast (word_of_int ((rb + 1) * rb_size G) - word_of_int (rb * rb_size G) :: u64) = (word_of_int (rb_size G) :: u32)"
    by (simp only: ucast_eq) (subst uint64_of, use s in simp_all)
  show "rb_bytes G (cprb G) rb = word_of_int (rb_size G)" unfolding rb_bytes_def b e by (rule d)
  have c1: "c_div (cprb G) 1 = cprb G" using g(1) by simp
  show f: "sub_first_chunk (cprb G) rb 1 0 = rb * cprb G" by (simp add: sub_first_chunk_def)
  show sb: "sub_base (cprb G) rb 1 0 = word_of_int (rb * rb_size G)" unfolding sub_base_def f by (simp add: algebra_simps)
  have u: "ucast (word_of_int (rb_size G) :: u32) = (word_of_int (rb_size G) :: u64)"
    by (simp only: ucast_eq) (subst uint32_of, use s in simp_all)
  have e1: "word_of_int (rb * rb_size G) + word_of_int (rb_size G) = (word_of_int ((rb + 1) * rb_size G) :: u64)"
    by (simp flip: wi_hom_add add: algebra_simps)
  show "sub_bytes G (cprb G) rb 1 0 = word_of_int (rb_size G)"
    unfolding sub_bytes_def sb e c1 Let_def u e1 using d by simp
qed

section \<open>The ring of nodes\<close>

text \<open>The shard that a node receives in step \<open>st\<close> has slot \<open>n - 2 - st\<close> there and lands in bank \<open>st\<close>.\<close>

definition step_slot :: "int \<Rightarrow> int \<Rightarrow> int" where
  "step_slot n st = n - 2 - st"

definition virtual_slot :: "int \<Rightarrow> int \<Rightarrow> int" where
  "virtual_slot n st = step_slot n st + (n - 1) * st"

abbreviation next_node :: "int \<Rightarrow> int \<Rightarrow> int" where
  "next_node n a \<equiv> peer_rank_for_slot a n 0"

lemma origin_cases:
  assumes "0 \<le> a" "a < n" "0 \<le> st" "st < n - 1"
  shows "ag_gemm_ring_origin_for_step a n st = (if a - 1 - st < 0 then a - 1 - st + n else a - 1 - st)"
proof -
  have "ag_gemm_ring_origin_for_step a n st = (a - 1 - st) mod n"
    unfolding ag_gemm_ring_origin_for_step_def using assms by (simp add: wrap_up_mod)
  also have "\<dots> = (if a - 1 - st < 0 then a - 1 - st + n else a - 1 - st)"
  proof (cases "a - 1 - st < 0")
    case True
    have "(a - 1 - st) mod n = (a - 1 - st + n) mod n" by simp
    also have "\<dots> = a - 1 - st + n" using True assms by (intro mod_pos_pos_trivial) auto
    finally show ?thesis using True by simp
  qed (use assms in simp)
  finally show ?thesis .
qed

lemma next_node_range: "0 \<le> a \<Longrightarrow> a < n \<Longrightarrow> 2 \<le> n \<Longrightarrow> 0 \<le> next_node n a \<and> next_node n a < n \<and> next_node n a \<noteq> a"
  by (auto simp: peer_rank_for_slot_def Let_def)

lemma ring_facts:
  assumes "0 \<le> a" "a < n" "0 \<le> st" "st < n - 1"
  defines "org \<equiv> ag_gemm_ring_origin_for_step a n st"
  shows "0 \<le> org" "org < n" "org \<noteq> a" "slot_at_peer org a n = step_slot n st" "peer_rank_for_slot a n (step_slot n st) = org"
    "slot_at_peer a (next_node n a) n = step_slot n 0" "ag_gemm_ring_origin_for_step (next_node n a) n 0 = a"
  unfolding org_def origin_cases[OF assms(1-4)]
proof -
  have nx: "0 \<le> next_node n a" "next_node n a < n" using next_node_range[of a n] assms by auto
  show "ag_gemm_ring_origin_for_step (next_node n a) n 0 = a"
    using origin_cases[OF nx, of 0] assms by (auto simp: peer_rank_for_slot_def Let_def split: if_splits)
qed (use assms in \<open>auto simp: slot_at_peer_def peer_rank_for_slot_def step_slot_def Let_def\<close>)

lemma ring_forward_facts:
  assumes "0 \<le> a" "a < n" "0 \<le> st" "st + 1 < n - 1"
  shows "ag_gemm_ring_origin_for_step (next_node n a) n (st + 1) = ag_gemm_ring_origin_for_step a n st"
    "slot_at_peer (ag_gemm_ring_origin_for_step a n st) (next_node n a) n = step_slot n (st + 1)"
proof -
  have nx: "0 \<le> next_node n a" "next_node n a < n" using next_node_range[of a n] assms by auto
  have st: "st < n - 1" "0 \<le> st + 1" using assms by auto
  show o: "ag_gemm_ring_origin_for_step (next_node n a) n (st + 1) = ag_gemm_ring_origin_for_step a n st"
    using origin_cases[OF nx st(2) assms(4)] origin_cases[OF assms(1-3) st(1)] assms
    by (auto simp: peer_rank_for_slot_def Let_def split: if_splits)
  show "slot_at_peer (ag_gemm_ring_origin_for_step a n st) (next_node n a) n = step_slot n (st + 1)"
    using ring_facts(4)[OF nx st(2) assms(4)] unfolding o .
qed

lemma virtual_slot_range:
  assumes "0 \<le> st" "st < n - 1"
  shows "0 \<le> virtual_slot n st" "virtual_slot n st < (n - 1) * (n - 1)" "virtual_slot n st div (n - 1) = st"
    "virtual_slot n st mod (n - 1) = step_slot n st"
proof -
  have b: "0 \<le> step_slot n st" "step_slot n st < n - 1" using assms by (auto simp: step_slot_def)
  have e: "virtual_slot n st = st * (n - 1) + step_slot n st" by (simp add: virtual_slot_def)
  show "0 \<le> virtual_slot n st" "virtual_slot n st div (n - 1) = st" "virtual_slot n st mod (n - 1) = step_slot n st"
    unfolding e using assms b by simp_all
  show "virtual_slot n st < (n - 1) * (n - 1)" unfolding e by (rule radix_less) (use assms b in auto)
qed

section \<open>The fields of the commands\<close>

text \<open>What a write means: the destination, the offsets and the flag the proxy raises.\<close>

definition cmd_is :: "TransferCmd \<Rightarrow> int \<Rightarrow> int \<Rightarrow> int \<Rightarrow> int \<Rightarrow> int \<Rightarrow> u8 \<Rightarrow> bool" where
  "cmd_is cmd dst tile len loc rem view \<longleftrightarrow> cmd_type cmd = WRITE \<and> uint (dst_rank cmd) = dst \<and> uint (tile_id cmd) = tile
     \<and> uint (bytes cmd) = len \<and> uint (local_offset cmd) = loc \<and> uint (remote_offset cmd) = rem \<and> src_view cmd = view"

lemma uint8_of: "0 \<le> x \<Longrightarrow> x < 256 \<Longrightarrow> uint (word_of_int x :: u8) = x"
  by (simp add: word_of_int_inverse)

lemma slot_offsets:
  assumes G: "ag_ok G" "0 \<le> rb" "rb < inter_rbs G" and v: "0 \<le> v" "v < (ag_num_nodes G - 1) * (ag_num_nodes G - 1)"
  shows "uint (word_of_int (v * ag_total_chunks G + rb * cprb G) :: u32) = v * ag_total_chunks G + rb * cprb G"
    "uint (word_of_int v * word_of_int (a_half_bytes G) + word_of_int (rb * rb_size G) :: u64) = v * a_half_bytes G + rb * rb_size G"
    "uint (word_of_int (rb_size G) :: u32) = rb_size G"
proof -
  note g = ag_geometry[OF G(1)] and r = rb_in_shard[OF G] and o = ag_okD[OF G(1)]
  have "v * ag_total_chunks G + ag_total_chunks G \<le> (ag_num_nodes G - 1) * (ag_num_nodes G - 1) * ag_total_chunks G"
  proof -
    have "(v + 1) * ag_total_chunks G \<le> (ag_num_nodes G - 1) * (ag_num_nodes G - 1) * ag_total_chunks G"
      using v r(4) by (intro mult_right_mono) auto
    then show ?thesis by (simp add: algebra_simps)
  qed
  then have t: "0 \<le> v * ag_total_chunks G + rb * cprb G" "v * ag_total_chunks G + rb * cprb G < 2 ^ 31"
    using o(9) r g(1) v by auto
  show "uint (word_of_int (v * ag_total_chunks G + rb * cprb G) :: u32) = v * ag_total_chunks G + rb * cprb G"
    by (rule uint32_of[OF t(1) less_trans[OF t(2)]]) simp
  have e: "v * a_half_bytes G + rb * rb_size G = (v * ag_total_chunks G + rb * cprb G) * CHUNK_BYTES"
    using g(8) by (simp add: algebra_simps)
  have b: "0 \<le> v * a_half_bytes G + rb * rb_size G" "v * a_half_bytes G + rb * rb_size G < 2 ^ 63"
    unfolding e using t by (simp_all add: CHUNK_BYTES_def)
  have w: "word_of_int v * word_of_int (a_half_bytes G) + word_of_int (rb * rb_size G) = (word_of_int (v * a_half_bytes G + rb * rb_size G) :: u64)"
    by simp
  show "uint (word_of_int v * word_of_int (a_half_bytes G) + word_of_int (rb * rb_size G) :: u64) = v * a_half_bytes G + rb * rb_size G"
    unfolding w by (rule uint64_of[OF b])
  show "uint (word_of_int (rb_size G) :: u32) = rb_size G" by (rule uint32_of) (use g(1,3) in \<open>simp_all add: CHUNK_BYTES_def\<close>)
qed

lemma merge_cmd_is:
  assumes "ag_ok G" "0 \<le> rb" "rb < inter_rbs G"
  shows "cmd_is (merge_cmd G (rb * cprb G) (rb_bytes G (cprb G) rb) (rb_base_offset G (cprb G) rb) lane)
    (next_node (ag_num_nodes G) (ag_node_idx G)) (virtual_slot (ag_num_nodes G) 0 * ag_total_chunks G + rb * cprb G) (rb_size G)
    (rb * rb_size G) (virtual_slot (ag_num_nodes G) 0 * a_half_bytes G + rb * rb_size G) 1"
proof -
  note o = ag_okD[OF assms(1)] and f = rb_offsets[OF assms]
  have n: "0 \<le> (0::int)" "0 < ag_num_nodes G - 1" using o(1) by auto
  note v = virtual_slot_range(1,2)[OF n] and rf = ring_facts(6)[OF o(3,4) n]
  have z: "0 < (ag_num_nodes G - 1) * (ag_num_nodes G - 1)" using o(1) by simp
  note s = slot_offsets[OF assms v] and s0 = slot_offsets(2)[OF assms order_refl z]
  have nx: "uint (word_of_int (next_node (ag_num_nodes G) (ag_node_idx G)) :: u8) = next_node (ag_num_nodes G) (ag_node_idx G)"
    by (rule uint8_of) (use next_node_range[OF o(3,4,1)] o(2) in auto)
  have vs: "step_slot (ag_num_nodes G) 0 = virtual_slot (ag_num_nodes G) 0" by (simp add: virtual_slot_def)
  show ?thesis unfolding cmd_is_def merge_cmd_def Let_def rf vs f using s s0 nx by (simp add: algebra_simps)
qed

lemma forward_cmd_is:
  assumes G: "ag_ok G" "0 \<le> rb" "rb < inter_rbs G" and st: "0 \<le> st" "st + 1 < ag_num_nodes G - 1"
  shows "cmd_is (forward_cmd G (step_slot (ag_num_nodes G) st) (ag_gemm_ring_origin_for_step (ag_node_idx G) (ag_num_nodes G) st) (st + 1)
      (sub_first_chunk (cprb G) rb 1 0) (sub_bytes G (cprb G) rb 1 0) (sub_base (cprb G) rb 1 0) lane)
    (next_node (ag_num_nodes G) (ag_node_idx G)) (virtual_slot (ag_num_nodes G) (st + 1) * ag_total_chunks G + rb * cprb G) (rb_size G)
    (step_slot (ag_num_nodes G) st * a_half_bytes G + rb * rb_size G)
    (virtual_slot (ag_num_nodes G) (st + 1) * a_half_bytes G + rb * rb_size G) 0"
proof -
  note o = ag_okD[OF G(1)] and f = rb_offsets[OF G]
  have st1: "0 \<le> st + 1" "0 \<le> step_slot (ag_num_nodes G) st" using st by (auto simp: step_slot_def)
  have "step_slot (ag_num_nodes G) st < ag_num_nodes G - 1" using st by (auto simp: step_slot_def)
  also have "\<dots> \<le> (ag_num_nodes G - 1) * (ag_num_nodes G - 1)" using o(1) by simp
  finally have st2: "step_slot (ag_num_nodes G) st < (ag_num_nodes G - 1) * (ag_num_nodes G - 1)" .
  note v = virtual_slot_range(1,2)[OF st1(1) st(2)] and rf = ring_forward_facts(2)[OF o(3,4) st]
  note s = slot_offsets[OF G v] and sl = slot_offsets(2)[OF G st1(2) st2]
  have nx: "uint (word_of_int (next_node (ag_num_nodes G) (ag_node_idx G)) :: u8) = next_node (ag_num_nodes G) (ag_node_idx G)"
    by (rule uint8_of) (use next_node_range[OF o(3,4,1)] o(2) in auto)
  show ?thesis unfolding cmd_is_def forward_cmd_def Let_def rf f virtual_slot_def[symmetric] using s sl nx by simp
qed

section \<open>The writes of the prologue\<close>

abbreviation at_dev :: "ag_globals \<Rightarrow> int \<Rightarrow> ag_globals" where
  "at_dev G d \<equiv> G\<lparr>ag_dev_idx := d\<rparr>"

lemma at_dev_simps [simp]:
  "global_row_blocks (at_dev G d) = global_row_blocks G" "local_row_blocks (at_dev G d) = local_row_blocks G"
  "intra_col_blocks (at_dev G d) = intra_col_blocks G" "cprb (at_dev G d) = cprb G" "inter_rbs (at_dev G d) = inter_rbs G"
  by (simp_all add: global_row_blocks_def local_row_blocks_def intra_col_blocks_def chunks_per_inter_rb_def inter_rbs_def)

lemma at_dev_fields:
  "m_node (at_dev G d) = m_node G" "k_cols (at_dev G d) = k_cols G" "ag_total_chunks (at_dev G d) = ag_total_chunks G"
  "a_half_bytes (at_dev G d) = a_half_bytes G" "ag_node_idx (at_dev G d) = ag_node_idx G" "ag_num_nodes (at_dev G d) = ag_num_nodes G"
  "comm_chunks (at_dev G d) = comm_chunks G" "num_intra_comm (at_dev G d) = num_intra_comm G" "ag_dev_idx (at_dev G d) = d"
  by simp_all

lemma at_dev_ok: "ag_ok G \<Longrightarrow> 0 \<le> d \<Longrightarrow> d < NUM_DEVICES \<Longrightarrow> ag_ok (at_dev G d)"
  unfolding ag_ok_def at_dev_fields by blast

lemma post_merge_eq:
  assumes "0 < cprb G"
  shows "post_merge_wrs_for_intra_row G g (cprb G) = map (\<lambda>rb. on_ring G (merge_cmd G (rb * cprb G) (rb_bytes G (cprb G) rb)
    (rb_base_offset G (cprb G) rb) rb)) [2 * g, 2 * g + 1]"
  using assms by (simp add: post_merge_wrs_for_intra_row_def Let_def)

lemma post_forward_eq:
  assumes "0 < cprb G"
  shows "post_ring_forward_wrs_for_intra_row G sl org g (cprb G) bank = map (\<lambda>rb. on_ring G (forward_cmd G sl org bank
    (sub_first_chunk (cprb G) rb 1 0) (sub_bytes G (cprb G) rb 1 0) (sub_base (cprb G) rb 1 0) rb)) [2 * g, 2 * g + 1]"
  using assms by (simp add: post_ring_forward_wrs_for_intra_row_def Let_def)

lemma phase0_rows:
  assumes "0 < cprb G"
  shows "phase0_post_wrs G b = concat (map (\<lambda>lr. map (\<lambda>rb. on_ring G (merge_cmd G (rb * cprb G) (rb_bytes G (cprb G) rb)
      (rb_base_offset G (cprb G) rb) rb)) [2 * (lr + ag_dev_idx G * local_row_blocks G), 2 * (lr + ag_dev_idx G * local_row_blocks G) + 1])
    (strided b (num_intra_comm G) (local_row_blocks G)))"
  unfolding phase0_post_wrs_def post_merge_eq[OF assms] ..

text \<open>The destination, the flag, the size, the source buffer and the offsets of a write.\<close>

type_synonym write_view = "int \<times> int \<times> int \<times> u8 \<times> int \<times> int"

definition write_of :: "nat \<times> TransferCmd \<Rightarrow> write_view" where
  "write_of x = (uint (dst_rank (snd x)), uint (tile_id (snd x)), uint (bytes (snd x)), src_view (snd x),
     uint (local_offset (snd x)), uint (remote_offset (snd x)))"

definition shard_write :: "ag_globals \<Rightarrow> int \<Rightarrow> write_view" where
  "shard_write G rb = (next_node (ag_num_nodes G) (ag_node_idx G), virtual_slot (ag_num_nodes G) 0 * ag_total_chunks G + rb * cprb G, rb_size G,
     1, rb * rb_size G, virtual_slot (ag_num_nodes G) 0 * a_half_bytes G + rb * rb_size G)"

lemma write_of_merge:
  assumes "ag_ok G" "0 \<le> rb" "rb < inter_rbs G"
  shows "write_of (on_ring G (merge_cmd G (rb * cprb G) (rb_bytes G (cprb G) rb) (rb_base_offset G (cprb G) rb) lane)) = shard_write G rb"
  using merge_cmd_is[OF assms, of lane] by (simp add: cmd_is_def write_of_def shard_write_def on_ring_def)

lemma rb_of_row:
  assumes "ag_ok G" "0 \<le> d" "d < 8" "lr \<in> {0..<local_row_blocks G}" "rb \<in> {2 * (lr + d * local_row_blocks G), 2 * (lr + d * local_row_blocks G) + 1}"
  shows "0 \<le> rb" "rb < inter_rbs G"
proof -
  note g = ag_geometry[OF assms(1)]
  have "d * local_row_blocks G + lr < 8 * local_row_blocks G" by (rule radix_less) (use assms(3,4) g(4) in auto)
  then show "rb < inter_rbs G" using assms(5) g(5) by (auto simp: inter_rbs_def algebra_simps)
  show "0 \<le> rb" using assms g(4) by auto
qed

lemma phase0_writes:
  assumes G: "ag_ok G" and d: "0 \<le> d" "d < NUM_DEVICES" and b: "0 \<le> b"
  shows "map write_of (phase0_post_wrs (at_dev G d) b) = concat (map (\<lambda>lr. map (shard_write G)
    [2 * (lr + d * local_row_blocks G), 2 * (lr + d * local_row_blocks G) + 1]) (strided b (num_intra_comm G) (local_row_blocks G)))"
proof -
  have g: "0 < cprb (at_dev G d)" using ag_geometry(1)[OF at_dev_ok[OF G d]] .
  have w: "shard_write (at_dev G d) = shard_write G" by (rule ext) (simp add: shard_write_def)
  have "map (\<lambda>rb. write_of (on_ring (at_dev G d) (merge_cmd (at_dev G d) (rb * cprb G) (rb_bytes (at_dev G d) (cprb G) rb)
        (rb_base_offset (at_dev G d) (cprb G) rb) rb))) [2 * (lr + d * local_row_blocks G), 2 * (lr + d * local_row_blocks G) + 1]
      = map (shard_write G) [2 * (lr + d * local_row_blocks G), 2 * (lr + d * local_row_blocks G) + 1]"
    if "lr \<in> set (strided b (num_intra_comm G) (local_row_blocks G))" for lr
  proof (rule map_cong[OF refl])
    fix rb assume rb: "rb \<in> set [2 * (lr + d * local_row_blocks G), 2 * (lr + d * local_row_blocks G) + 1]"
    have lr: "lr \<in> {0..<local_row_blocks G}" using that b ag_okD(7)[OF G] by (auto simp: in_strided)
    have "0 \<le> rb" "rb < inter_rbs G" using rb_of_row[OF G d(1) _ lr] d(2) rb by (auto simp: NUM_DEVICES_def)
    then show "write_of (on_ring (at_dev G d) (merge_cmd (at_dev G d) (rb * cprb G) (rb_bytes (at_dev G d) (cprb G) rb)
        (rb_base_offset (at_dev G d) (cprb G) rb) rb)) = shard_write G rb"
      using write_of_merge[OF at_dev_ok[OF G d], of rb rb] by (simp add: w)
  qed
  then show ?thesis unfolding phase0_rows[OF g] map_concat map_map by (simp add: comp_def cong: map_cong)
qed

lemma upto_shift: "map (\<lambda>x. x + k) [a..b] = [a + k..b + (k::int)]"
proof (induction "nat (b + 1 - a)" arbitrary: a)
  case 0
  then show ?case by simp
next
  case (Suc n)
  then have "a \<le> b" "n = nat (b + 1 - (a + 1))" by auto
  then show ?case using Suc(1)[of "a + 1"] by (simp add: upto_rec1[of a b] upto_rec1[of "a + k" "b + k"] add.commute add.left_commute)
qed

lemma device_rows:
  assumes "0 \<le> L"
  shows "concat (map (\<lambda>d. concat (map (\<lambda>lr. map w [2 * (lr + d * L), 2 * (lr + d * L) + 1]) [0..L - 1])) [0..8 - 1]) = map w [0..2 * (8 * L) - (1::int)]"
proof -
  have pair: "[2 * x, 2 * x + 1] = [x * 2..x * 2 + 2 - (1::int)]" for x by (simp add: upto.simps)
  have inner: "concat (map (\<lambda>lr. map w [2 * (lr + d * L), 2 * (lr + d * L) + 1]) [0..L - 1])
      = concat (map (\<lambda>x. map w [x * 2..x * 2 + 2 - 1]) [d * L..d * L + L - 1])" for d
  proof -
    have u: "[d * L..d * L + L - 1] = map (\<lambda>x. x + d * L) [0..L - 1]" unfolding upto_shift by (simp add: algebra_simps)
    show ?thesis unfolding u map_map comp_def pair ..
  qed
  have "concat (map (\<lambda>d. concat (map (\<lambda>x. map w [x * 2..x * 2 + 2 - 1]) [d * L..d * L + L - 1])) ds)
    = concat (map (\<lambda>x. map w [x * 2..x * 2 + 2 - 1]) (concat (map (\<lambda>d. [d * L..d * L + L - 1]) ds)))" for ds
    by (induction ds) simp_all
  then have "?thesis \<longleftrightarrow> concat (map (\<lambda>x. map w [x * 2..x * 2 + 2 - 1]) [0..8 * L - 1]) = map w [0..2 * (8 * L) - 1]"
    unfolding inner using rows_concat[OF assms, of 8] by simp
  moreover have "concat (map (\<lambda>x. map w [x * 2..x * 2 + 2 - 1]) xs) = map w (concat (map (\<lambda>x. [x * 2..x * 2 + 2 - 1]) xs))" for xs
    by (induction xs) simp_all
  ultimately show ?thesis using rows_concat[of 2 "8 * L"] assms by (simp add: mult.commute)
qed

text \<open>
  C35 (functional): the prologue blocks of the eight devices of a node together post exactly one write
  for every row block of the node's shard: to the next node of the ring, from the row block's bytes of
  \<open>A\<close>, with the flag and the remote offset of the row block in the receive slot that the next node
  drains in its step 0, whose origin is this node; the row blocks are consecutive and fill the shard.
  The shape is one that the entry point accepts, with a multiple of 256 columns (\<open>ag_ok\<close>).
\<close>

theorem prologue_covers_shard:
  assumes G: "ag_ok G"
  shows "mset (concat (map (\<lambda>d. concat (map (\<lambda>b. map write_of (phase0_post_wrs (at_dev G d) b)) [0..num_intra_comm G - 1])) [0..NUM_DEVICES - 1]))
      = mset (map (shard_write G) [0..inter_rbs G - 1])
    \<and> ag_gemm_ring_origin_for_step (next_node (ag_num_nodes G) (ag_node_idx G)) (ag_num_nodes G) 0 = ag_node_idx G
    \<and> slot_at_peer (ag_node_idx G) (next_node (ag_num_nodes G) (ag_node_idx G)) (ag_num_nodes G) = virtual_slot (ag_num_nodes G) 0
    \<and> inter_rbs G * rb_size G = a_half_bytes G"
proof (intro conjI)
  note g = ag_geometry[OF G] and o = ag_okD[OF G]
  let ?n = "num_intra_comm G" and ?L = "local_row_blocks G"
  let ?h = "\<lambda>d lr. map (shard_write G) [2 * (lr + d * ?L), 2 * (lr + d * ?L) + 1]"
  have dev: "mset (concat (map (\<lambda>b. map write_of (phase0_post_wrs (at_dev G d) b)) [0..?n - 1])) = mset (concat (map (?h d) [0..?L - 1]))"
    if d: "0 \<le> d" "d < NUM_DEVICES" for d
  proof -
    have e1: "map (\<lambda>b. map write_of (phase0_post_wrs (at_dev G d) b)) [0..?n - 1] = map (\<lambda>b. concat (map (?h d) (strided b ?n ?L))) [0..?n - 1]"
      using phase0_writes[OF G d] by (intro map_cong) auto
    have e2: "concat (map (\<lambda>b. concat (map (?h d) (strided b ?n ?L))) bs) = concat (map (?h d) (concat (map (\<lambda>b. strided b ?n ?L) bs)))" for bs
      by (induction bs) simp_all
    show ?thesis unfolding e1 e2 by (rule mset_concat_cong[OF strided_mset[OF o(7)]])
  qed
  have "mset (concat (map f ds)) = mset (concat (map f' ds))" if "\<And>d. d \<in> set ds \<Longrightarrow> mset (f d) = mset (f' d)"
    for f f' :: "int \<Rightarrow> write_view list" and ds
    using that by (induction ds) auto
  from this[of "[0..NUM_DEVICES - 1]", OF dev]
  have "mset (concat (map (\<lambda>d. concat (map (\<lambda>b. map write_of (phase0_post_wrs (at_dev G d) b)) [0..?n - 1])) [0..NUM_DEVICES - 1]))
    = mset (concat (map (\<lambda>d. concat (map (?h d) [0..?L - 1])) [0..NUM_DEVICES - 1]))" by simp
  then show "mset (concat (map (\<lambda>d. concat (map (\<lambda>b. map write_of (phase0_post_wrs (at_dev G d) b)) [0..?n - 1])) [0..NUM_DEVICES - 1]))
      = mset (map (shard_write G) [0..inter_rbs G - 1])"
    using device_rows[of ?L "shard_write G"] g(4,5) by (simp add: NUM_DEVICES_def inter_rbs_def)
  show "inter_rbs G * rb_size G = a_half_bytes G" using g(7,8) by simp
  have n: "0 \<le> (0::int)" "0 < ag_num_nodes G - 1" using o(1) by auto
  show "ag_gemm_ring_origin_for_step (next_node (ag_num_nodes G) (ag_node_idx G)) (ag_num_nodes G) 0 = ag_node_idx G"
    by (rule ring_facts(7)[OF o(3,4) n])
  show "slot_at_peer (ag_node_idx G) (next_node (ag_num_nodes G) (ag_node_idx G)) (ag_num_nodes G) = virtual_slot (ag_num_nodes G) 0"
    using ring_facts(6)[OF o(3,4) n] by (simp add: virtual_slot_def)
qed

section \<open>The writes of a forward\<close>

text \<open>
  A row that a node drained in step \<open>st\<close> goes on to the next node, into bank \<open>st + 1\<close> and the slot that
  the next node drains in step \<open>st + 1\<close>, where it looks for the same origin.
\<close>

lemma ring_forward_lands:
  assumes G: "ag_ok G" and st: "0 \<le> st" "st + 1 < ag_num_nodes G - 1" and g: "0 \<le> g" "g < global_row_blocks G"
  defines "n \<equiv> ag_num_nodes G" and "org \<equiv> ag_gemm_ring_origin_for_step (ag_node_idx G) (ag_num_nodes G) st"
  shows "map write_of (post_ring_forward_wrs_for_intra_row G (step_slot n st) org g (cprb G) (st + 1))
      = map (\<lambda>rb. (next_node n (ag_node_idx G), virtual_slot n (st + 1) * ag_total_chunks G + rb * cprb G, rb_size G, 0,
          step_slot n st * a_half_bytes G + rb * rb_size G, virtual_slot n (st + 1) * a_half_bytes G + rb * rb_size G)) [2 * g, 2 * g + 1]"
    and "ag_gemm_ring_origin_for_step (next_node n (ag_node_idx G)) n (st + 1) = org"
    and "slot_at_peer org (next_node n (ag_node_idx G)) n + (n - 1) * (st + 1) = virtual_slot n (st + 1)"
proof -
  note o = ag_okD[OF G] and q = ag_geometry(1)[OF G]
  have "write_of (on_ring G (forward_cmd G (step_slot n st) org (st + 1) (sub_first_chunk (cprb G) rb 1 0)
      (sub_bytes G (cprb G) rb 1 0) (sub_base (cprb G) rb 1 0) rb))
    = (next_node n (ag_node_idx G), virtual_slot n (st + 1) * ag_total_chunks G + rb * cprb G, rb_size G, 0,
        step_slot n st * a_half_bytes G + rb * rb_size G, virtual_slot n (st + 1) * a_half_bytes G + rb * rb_size G)"
    if "0 \<le> rb" "rb < inter_rbs G" for rb
    using forward_cmd_is[OF G that st, of rb] by (simp add: cmd_is_def write_of_def on_ring_def n_def org_def)
  moreover have "0 \<le> 2 * g" "2 * g + 1 < inter_rbs G" using g by (simp_all add: inter_rbs_def)
  ultimately show "map write_of (post_ring_forward_wrs_for_intra_row G (step_slot n st) org g (cprb G) (st + 1))
      = map (\<lambda>rb. (next_node n (ag_node_idx G), virtual_slot n (st + 1) * ag_total_chunks G + rb * cprb G, rb_size G, 0,
          step_slot n st * a_half_bytes G + rb * rb_size G, virtual_slot n (st + 1) * a_half_bytes G + rb * rb_size G)) [2 * g, 2 * g + 1]"
    unfolding post_forward_eq[OF q] by simp
  show "ag_gemm_ring_origin_for_step (next_node n (ag_node_idx G)) n (st + 1) = org"
    unfolding n_def org_def by (rule ring_forward_facts(1)[OF o(3,4) st])
  show "slot_at_peer org (next_node n (ag_node_idx G)) n + (n - 1) * (st + 1) = virtual_slot n (st + 1)"
    using ring_forward_facts(2)[OF o(3,4) st] by (simp add: n_def org_def virtual_slot_def)
qed

section \<open>The compute blocks\<close>

record comp_task =
  ct_rb :: int
  ct_col :: int
  is_remote :: bool

definition ag_decode_comp_task :: "int \<Rightarrow> int \<Rightarrow> int \<Rightarrow> int \<Rightarrow> int \<Rightarrow> int \<Rightarrow> comp_task" where
  "ag_decode_comp_task task super_rows final_rows super_blocks ncols total_local_tiles = (let
     remote = (task \<ge> total_local_tiles);
     flat = (if remote then task - total_local_tiles else task);
     super_tile_limit = super_rows * ncols
   in if flat < super_tile_limit
      then \<lparr>ct_rb = SUPER_M * c_div flat super_blocks + c_mod flat SUPER_M, ct_col = c_div (c_mod flat super_blocks) SUPER_M, is_remote = remote\<rparr>
      else (let fr_safe = (if final_rows > 0 then final_rows else 1); rem = flat - super_tile_limit
        in \<lparr>ct_rb = super_rows + c_mod rem fr_safe, ct_col = c_div rem fr_safe, is_remote = remote\<rparr>))"

definition ag_gemm_shard_rank_for_step :: "int \<Rightarrow> int \<Rightarrow> int \<Rightarrow> int" where
  "ag_gemm_shard_rank_for_step node nodes shard_step = c_mod (node + shard_step) nodes"

definition node_row_blocks :: "ag_globals \<Rightarrow> int" where
  "node_row_blocks G = c_div (m_node G) ROW_BLOCK"

definition comp_col_blocks :: "ag_globals \<Rightarrow> int" where
  "comp_col_blocks G = c_div (n_cols G) COL_BLOCK"

definition comp_tasks_of :: "ag_globals \<Rightarrow> int \<Rightarrow> int list" where
  "comp_tasks_of G comp_idx = strided comp_idx (ag_num_comp_sms G) (node_row_blocks G * comp_col_blocks G * ag_num_nodes G)"

text \<open>
  What a task loads and stores: the shard it is of, the row block and column block within the shard,
  the row block of the output, and, for a remote shard, the slot in \<open>A_recv\<close>, the row it loads there
  and the row of the barrier plane it waits for.
\<close>

record tile_job =
  shard_rank :: int
  job_rb :: int
  job_col :: int
  store_row :: int
  load_slot :: int
  load_row :: int
  wait_row :: int

definition tile_job_of :: "ag_globals \<Rightarrow> int \<Rightarrow> tile_job" where
  "tile_job_of G task = (let
     num_node_blocks = node_row_blocks G * comp_col_blocks G;
     super_rows = c_div (node_row_blocks G) SUPER_M * SUPER_M;
     shard_step = c_div task num_node_blocks;
     rank = ag_gemm_shard_rank_for_step (ag_node_idx G) (ag_num_nodes G) shard_step;
     t = ag_decode_comp_task (task - shard_step * num_node_blocks) super_rows (node_row_blocks G - super_rows)
       (SUPER_M * comp_col_blocks G) (comp_col_blocks G) num_node_blocks;
     slot = (if rank = ag_node_idx G then 0 else slot_at_peer rank (ag_node_idx G) (ag_num_nodes G));
     row = (if rank = ag_node_idx G then ct_rb t else slot * node_row_blocks G + ct_rb t)
   in \<lparr>shard_rank = rank, job_rb = ct_rb t, job_col = ct_col t, store_row = rank * node_row_blocks G + ct_rb t,
      load_slot = slot, load_row = row, wait_row = c_div row 2\<rparr>)"

lemma decode_is_super_m:
  assumes "0 < R" "0 < C" "0 \<le> l" "l < R * C"
  defines "t \<equiv> ag_decode_comp_task l (c_div R SUPER_M * SUPER_M) (R - c_div R SUPER_M * SUPER_M) (SUPER_M * C) C (R * C)"
  shows "(ct_rb t, ct_col t) = slice_super_m_decode l R C SUPER_M"
proof -
  have q: "l div (R * C) = 0" using assms(3,4) by simp
  have sr: "0 \<le> R div 12 * 12" "R div 12 * 12 \<le> R" using assms(1) by (simp_all add: pos_imp_zdiv_nonneg_iff div_bounds(1))
  show ?thesis
  proof (cases "l < R div 12 * 12 * C")
    case True
    have m: "l mod (12 * C) mod 12 = l mod 12" by (simp add: mod_mod_cancel)
    have "l - l div (12 * C) * (12 * C) = l mod (12 * C)" by (simp add: minus_div_mult_eq_mod)
    then show ?thesis using True assms(1-4) q m
      by (simp add: t_def ag_decode_comp_task_def slice_super_m_decode_def Let_def SUPER_M_def mult.commute)
  next
    case False
    then have "R div 12 * 12 < R" using assms(4) sr by (cases "R div 12 * 12 = R") auto
    then show ?thesis using False assms(1-4) q sr
      by (simp add: t_def ag_decode_comp_task_def slice_super_m_decode_def Let_def SUPER_M_def)
  qed
qed

lemma node_rows:
  assumes "ag_ok G"
  shows "node_row_blocks G = inter_rbs G" "0 < inter_rbs G" "even (inter_rbs G)"
  using ag_geometry[OF assms] by (auto simp: node_row_blocks_def inter_rbs_def ROW_BLOCK_def)

lemma tile_job_parts:
  assumes G: "ag_ok G" and C: "C = comp_col_blocks G" "0 < C" and t: "0 \<le> task" "task < ag_num_nodes G * inter_rbs G * C"
  defines "j \<equiv> tile_job_of G task" and "R \<equiv> inter_rbs G" and "n \<equiv> ag_num_nodes G"
  shows "\<exists>st r c. slice_super_m_decode task R C SUPER_M = (st * R + r, c) \<and> 0 \<le> st \<and> st < n \<and> 0 \<le> r \<and> r < R \<and> 0 \<le> c \<and> c < C
    \<and> st = task div (R * C) \<and> shard_rank j = (ag_node_idx G + st) mod n \<and> job_rb j = r \<and> job_col j = c \<and> store_row j = shard_rank j * R + r"
proof -
  note o = ag_okD[OF G] and nr = node_rows[OF G]
  have R: "0 < R" "node_row_blocks G = R" using nr by (simp_all add: R_def)
  define st where "st = task div (R * C)"
  define l where "l = task - st * (R * C)"
  have l: "0 \<le> l" "l < R * C" unfolding l_def st_def using R C t by (simp_all add: minus_div_mult_eq_mod)
  have st: "0 \<le> st" "st < n" unfolding st_def
    using t R(1) C(2) by (simp_all add: pos_imp_zdiv_nonneg_iff div_less_radix R_def n_def mult.assoc)
  obtain r c where rc: "slice_super_m_decode (st * (R * C) + l) R C SUPER_M = (st * R + r, c)" "0 \<le> r" "r < R" "0 \<le> c" "c < C"
    using super_m_local[OF R(1) C(2) _ l st(1), of SUPER_M] by (auto simp: SUPER_M_def)
  have "slice_super_m_decode (0 * (R * C) + l) R C SUPER_M = (0 * R + r, c)"
  proof -
    have "slice_super_m_decode (st * (R * C) + l) R C SUPER_M = (st * R + fst (slice_super_m_decode l R C SUPER_M), snd (slice_super_m_decode l R C SUPER_M))"
      using l R(1) C(2) st(1) by (simp add: slice_super_m_decode_def Let_def SUPER_M_def)
    then show ?thesis using rc(1) by (simp add: prod_eq_iff)
  qed
  then have d: "(ct_rb (ag_decode_comp_task l (c_div R SUPER_M * SUPER_M) (R - c_div R SUPER_M * SUPER_M) (SUPER_M * C) C (R * C)),
      ct_col (ag_decode_comp_task l (c_div R SUPER_M * SUPER_M) (R - c_div R SUPER_M * SUPER_M) (SUPER_M * C) C (R * C))) = (r, c)"
    using decode_is_super_m[OF R(1) C(2) l] by simp
  have cd: "c_div task (R * C) = st" unfolding st_def using t(1) R(1) C(2) by simp
  have task: "task = st * (R * C) + l" by (simp add: l_def)
  have rank: "ag_gemm_shard_rank_for_step (ag_node_idx G) n st = (ag_node_idx G + st) mod n"
    unfolding ag_gemm_shard_rank_for_step_def using o(1,3) st(1) by (simp add: n_def)
  have "shard_rank j = (ag_node_idx G + st) mod n" "job_rb j = r" "job_col j = c" "store_row j = shard_rank j * R + r"
    unfolding j_def tile_job_of_def Let_def R(2) C(1)[symmetric] cd n_def[symmetric] rank l_def[symmetric] using d by simp_all
  then show ?thesis using rc st task st_def by metis
qed


section \<open>Concrete shapes\<close>

definition plain_env :: ag_env where
  "plain_env = \<lparr>env_adaptive_cap = None, env_adaptive = None, env_skip_compute = None, env_skip_remote_compute = None, env_skip_phase1 = None,
     env_skip_phase1_gate = None, env_skip_phase2 = None, env_ring_proxy_forward = None, env_remote_ready_per_col = None\<rparr>"

text \<open>Three nodes with 2048 rows each; \<open>cols\<close> columns of \<open>A\<close>.\<close>

definition ring3 :: "int \<Rightarrow> int \<Rightarrow> ag_globals" where
  "ring3 node cols = \<lparr>m_node = 2048, k_cols = cols, n_cols = 512, ag_fifos = make_fifo_bundle 0 16 1, ag_total_chunks = (2048 * cols * 2 + 65535) div 65536,
     a_half_bytes = 2048 * cols * 2, ag_dev_idx = 0, ag_node_idx = node, ag_num_nodes = 3, ring_recv_banks = 2, comm_chunks = 3,
     debug_skip_remote_compute = False, debug_skip_phase1 = False, debug_skip_phase1_gate = False, debug_skip_phase2 = False,
     debug_skip_compute = False, ring_proxy_forward = False, remote_ready_per_col = False, num_intra_comm = 4, ag_num_comp_sms = 128\<rparr>"

lemma ring3_entrypoint:
  "0 < cols \<Longrightarrow> 64 dvd cols \<Longrightarrow> ag_entrypoint plain_env 3 (make_fifo_bundle 0 16 1) 0 node 3 2048 cols 512 6144 512 8 (2048 * cols * 2) 132 0 = Inr (ring3 node cols)"
  by (simp add: ag_entrypoint_def ag_check_shapes_def Let_def tile_simps adaptive_comm_sms_def plain_env_def ring3_def flag_set_def env_starts_def dvd_eq_mod_eq_0)

lemma ring3_ok: "0 \<le> node \<Longrightarrow> node < 3 \<Longrightarrow> ag_ok (ring3 node 256)"
  by (simp add: ag_ok_def ring3_def kMaxPeers_def NUM_DEVICES_def CHUNK_BYTES_def)

theorem prologue_covers_shard_witness:
  "mset (concat (map (\<lambda>d. concat (map (\<lambda>b. map write_of (phase0_post_wrs (at_dev (ring3 1 256) d) b)) [0..num_intra_comm (ring3 1 256) - 1]))
     [0..NUM_DEVICES - 1])) = mset (map (shard_write (ring3 1 256)) [0..15])"
  using prologue_covers_shard[OF ring3_ok[of 1], THEN conjunct1] by (simp add: inter_rbs_def global_row_blocks_def ring3_def ROW_BLOCK_def)


text \<open>
  The checks of the entry point allow any multiple of 64 columns. With 384 columns a row block is
  one and a half chunks and one is sent: the writes of the prologue hold 16 of the 24 chunks of the shard.
  With 128 columns a row block is half a chunk, and the size of the writes beyond the shard wraps.
\<close>

lemma columns_384_not_sent:
  "sum_list (map (\<lambda>d. sum_list (map (\<lambda>b. sum_list (map (\<lambda>x. uint (bytes (snd x))) (phase0_post_wrs (at_dev (ring3 0 384) d) b))) [0..3])) [0..7]) = 16 * CHUNK_BYTES
    \<and> a_half_bytes (ring3 0 384) = 24 * CHUNK_BYTES"
  by code_simp

lemma columns_128_wrap: "uint (rb_bytes (ring3 0 128) 1 9) = 2 ^ 32 - CHUNK_BYTES"
  by code_simp

end
