(* ===== verification/Spec2Isabelle.thy ===== *)
theory Spec2Isabelle
  imports D2H_Fifo Proxy_CX7_Loop Pause_Gate Proxy_EFA_Loop Session_CX7_Epoch Session_EFA_Epoch
    Local_Broker Broker_Fds Gemm_AR_Reduce Gemm_AR_Claim Gemm_AR_Iter Ag_Gemm_Plan
begin

text \<open>
  A verification development of mKernel, a library of GPU kernels that overlap matrix products with
  communication inside a node (NVLink) and between nodes (RDMA). All paths below are under
  \<open>src/\<close>.

  \<^bold>\<open>The program.\<close> A kernel that has a part of its output ready writes a 48-byte command into a ring
  in host memory (\<open>include/comm/internode/d2h_fifo.cuh\<close>). A CPU proxy thread polls the rings it owns,
  collects the commands of one peer into a batch and posts RDMA writes for the data, followed by the
  words that tell the receiver what arrived (\<open>proxy.h\<close> for ConnectX-7, \<open>proxy_efa.h\<close> for EFA, both in
  \<open>include/comm/internode\<close>). A session opens the devices, registers memory, exchanges connection records
  over TCP, connects the queue pairs, starts the proxies and switches epochs (\<open>session.h\<close>,
  \<open>session_efa.h\<close>). The processes of one node share a vault in shared memory and pass each other
  file descriptors (\<open>include/comm/local_broker.cuh\<close>). The operators are kernels whose thread blocks
  have roles and signal each other through flags; of them the fused GEMM + all-reduce is modelled
  (\<open>include/operators/gemm_ar/gemm_ar.cuh\<close>, \<open>src/gemm_ar.cu\<close>), and of the all-gather + GEMM the
  commands and the visit order (\<open>include/operators/ag_gemm/ag_gemm.cuh\<close>, \<open>src/ag_gemm.cu\<close>).

  \<^bold>\<open>Theories and sources.\<close>
  \<^item> \<open>MKernel_Prelude\<close>: C integers as words, truncating division, \<open>ceil_div\<close>, generic lemmas, the
    collections \<open>layout_simps\<close>, \<open>cfg_simps\<close>, \<open>wr_simps\<close>. \<open>Queue_Interface\<close>: a bounded queue with the
    operations put, get and free, and the locale of its implementations; the command ring interprets it.
  \<^item> \<open>Net_Types\<close>: \<open>types.h\<close> (command layout in six words, arrival word, numbering of the peers as the locale
    \<open>peer_numbering\<close>, connection records). \<open>D2H_Fifo\<close>: \<open>d2h_fifo.cuh\<close>, single memory accesses of any number
    of pushing threads and the polling proxy as the relation \<open>fifo_step\<close>. \<open>Ready_Queue\<close>: \<open>ready_queue.cuh\<close>,
    \<open>arrival.cuh\<close>. \<open>Pause_Gate\<close>: the handshake of \<open>pause\<close>, \<open>resume\<close> and the head of \<open>run\<close>.
    \<open>Proxy_Diag\<close>: \<open>proxy_diagnostics.h\<close>.
  \<^item> \<open>Rdma_Verbs\<close>, \<open>Rdma_Efa\<close>: \<open>rdma_transport.h\<close>, \<open>rdma_transport_efa.h\<close> (work requests, attributes of
    the transitions of a queue pair, registration with its fallbacks, TCP loops, choice of NICs).
  \<^item> \<open>Proxy_CX7\<close> has the operations of \<open>proxy.h\<close>, \<open>Proxy_CX7_Chains\<close> the lemmas on chains of work
    requests, \<open>Proxy_CX7_Loop\<close> those on the loop and the properties. \<open>Proxy_EFA\<close>, \<open>Proxy_EFA_Ledger\<close> and
    \<open>Proxy_EFA_Loop\<close> do the same for \<open>proxy_efa.h\<close>.
  \<^item> \<open>Session_Common\<close>, \<open>Session_Bootstrap\<close>: what both sessions share. \<open>Session_CX7\<close> has the operations of
    \<open>session.h\<close>, \<open>Session_CX7_Links\<close> the routing and connection of queue pairs, \<open>Session_CX7_Epoch\<close> the
    epochs, the release and the configurations for which the code goes wrong. \<open>Session_EFA\<close>,
    \<open>Session_EFA_Run\<close>, \<open>Session_EFA_Links\<close> and \<open>Session_EFA_Epoch\<close> are the same for \<open>session_efa.h\<close>.
  \<^item> \<open>Local_Barrier\<close> (the locale \<open>phase_barrier\<close> and its interpretation), \<open>Local_Broker\<close>
    (\<open>exchange_data\<close>), \<open>Broker_Fds\<close> (segment, sockets, descriptors): \<open>local_broker.cuh\<close>.
  \<^item> \<open>Tile_Schedule\<close>: strided loops, visit orders and chunks. \<open>Gemm_AR_Layout\<close>: roles of the blocks and the
    scratch buffer. \<open>Gemm_AR_Flow\<close>: signals between the compute and intra-node blocks of all devices.
    \<open>Gemm_AR_Send\<close>: the commands of the send blocks. \<open>Gemm_AR_Recv\<close>: the drain of the arrival queues.
    \<open>Gemm_AR_Reduce\<close>: the sums that are published, also with early accumulation. \<open>Gemm_AR_Claim\<close>: the
    claiming of chunks under all interleavings. \<open>Gemm_AR_Iter\<close>: the end of an iteration across nodes.
    \<open>Ag_Gemm_Plan\<close>: entry point, commands and compute tasks of the all-gather + GEMM.

  \<^bold>\<open>State and operations.\<close> A struct is a record with a field for each member that the operations
  use, an operation a function from state to state (with an option or a sum for its early returns), a
  loop of one thread a recursive function. Concurrency is a step relation or a function
  \<open>step thread state\<close> that performs one access to shared memory, and properties hold for every
  schedule. Machine integers are words where the source relies on their width; sizes and indices of
  kernels are \<open>int\<close> with the division of C, and the conditions that keep them in range are hypotheses;
  the sums and products of the scratch layout wrap at 32 bits (\<open>i32\<close>), and its property has the bounds
  within which none does.
  Code outside the repository is a parameter: what the verbs, CUDA and socket calls return, the clock,
  the environment, what a thread sees of memory that others write, the addition of two bf16 values.

  \<^bold>\<open>What the lemmas show.\<close> For the rings: no torn or lost command, refinement of a bounded queue under push, poll and the
  move of the tail, no deadlock. For the proxies: the account of requests in flight (in the units of the
  ids of the requests), what a batch posts and where, arrival words and barriers after the data,
  termination of the loops. For the sessions, under the conditions each property states: every ring is
  polled by the thread that owns its queue pair, both ends of a queue pair name each other, every
  request of a batch goes where the peer of its rank said, the epoch transition resets exactly the
  listed parts of each proxy (a command read and not posted is kept), the bootstrap completes on every
  node that is not given up by the connect timeout. For the broker: a call returns the
  blocks of all processes and every call ends. For the all-reduce: waits pass exactly when the data is
  there, writes of different senders do not overlap, flags count arrivals exactly, the slice gets the
  sum of all nodes, no chunk is reduced twice, iterations are not mixed up (two nodes, one reduce
  block), no two nodes block each other. For the all-gather + GEMM: the prologue sends every row block
  of the shard once and to the right slot, the compute tasks are the tiles of the output. Lemmas outside the list of properties exhibit configurations
  in which the code goes wrong, such as \<open>reset_races_with_notice\<close> and \<open>one_barrier_word_for_all_peers\<close> in
  \<open>Gemm_AR_Iter\<close>, \<open>lane_beyond_queues\<close> in \<open>Gemm_AR_Send\<close>, \<open>drained_with_stash\<close> and \<open>unserved_thread\<close> in
  \<open>Session_CX7_Epoch\<close>, \<open>late_write_overtakes_barrier\<close> in \<open>Proxy_EFA_Loop\<close>.

  \<^bold>\<open>Bounds and fuel.\<close> The collection loop of a proxy has the number of ring slots plus one as fuel, as
  every turn takes a command off a ring; the walk along a chain of work requests has the length of the
  template array. A loop that polls takes the list or function of what the polls return; a loop over such
  a list yields \<open>None\<close> when the list ends before the loop, and the termination properties state when it does
  not. \<open>drain_limit\<close> is the 50000 turns of the source. \<open>N\<close> processes finish \<open>K\<close> exchanges within
  \<open>N * K * (16 + N) + 1\<close> rounds of a fair schedule, and one block claims all \<open>N\<close> chunks within
  \<open>N * (6 * N + 3) + 6 * N + 2\<close> of its steps. Recursions over indices have measures.

  \<^bold>\<open>Not modelled.\<close> The vendored tile library and the arithmetic of the kernels (tensor cores, TMA, bf16
  rounding): machine code without state of its own for the protocol. The other operators (GEMM + reduce-scatter, ring attention,
  dispatch + GEMM) and the receiving side of the all-gather + GEMM, which use the same rings, proxies and sessions.
  The receive ready queue of the all-reduce, which the host never enables. The Python bindings, the buffer
  classes over CUDA virtual memory, the device primitives that wrap one instruction each, and the
  benchmarks. Memory is sequentially consistent in the models: the fences of the code are not
  checked.
\<close>

end
